(* ===== verification/Prelude.thy ===== *)
theory Prelude
  imports Main "HOL-Library.Word" "HOL-Library.Monad_Syntax"
begin

unbundle bit_operations_syntax

text \<open>
  What the components share: JavaScript's bitwise operators on numbers, arrays that grow on
  assignment, counted loops, and the lemmas on them that the component proofs use.
\<close>

named_theorems array_simps \<open>reads after writes on JavaScript arrays\<close>

section \<open>JavaScript numbers under the bitwise operators\<close>

text \<open>
  The code keeps its integers far below 2 ^ 53, where a double is exact; such a number is an
  \<open>int\<close> here. The bitwise operators convert to a signed (or, for the unsigned shift, an
  unsigned) 32-bit integer first, and shift by the count modulo 32.
\<close>

definition to_int32 :: "int \<Rightarrow> int" where
  "to_int32 x = signed_take_bit 31 x"

definition js_and :: "int \<Rightarrow> int \<Rightarrow> int" where
  "js_and x y = (to_int32 x) AND (to_int32 y)"

definition js_or :: "int \<Rightarrow> int \<Rightarrow> int" where
  "js_or x y = (to_int32 x) OR (to_int32 y)"

definition js_xor :: "int \<Rightarrow> int \<Rightarrow> int" where
  "js_xor x y = (to_int32 x) XOR (to_int32 y)"

definition js_shl :: "int \<Rightarrow> nat \<Rightarrow> int" where
  "js_shl x n = to_int32 (push_bit (n mod 32) (to_int32 x))"

definition js_sar :: "int \<Rightarrow> nat \<Rightarrow> int" where
  "js_sar x n = drop_bit (n mod 32) (to_int32 x)"

definition js_shr :: "int \<Rightarrow> nat \<Rightarrow> int" where
  "js_shr x n = drop_bit (n mod 32) (take_bit 32 x)"

lemma to_int32_id: "- (2 ^ 31) \<le> x \<Longrightarrow> x < 2 ^ 31 \<Longrightarrow> to_int32 x = x"
  unfolding to_int32_def by (simp add: signed_take_bit_int_eq_self)

lemma to_int32_small [simp]: "0 \<le> x \<Longrightarrow> x < 2147483648 \<Longrightarrow> to_int32 x = x"
  by (rule to_int32_id) simp_all

lemma take_bit_to_int32: "k \<le> 32 \<Longrightarrow> take_bit k (to_int32 x) = take_bit k x"
  unfolding to_int32_def by (simp add: take_bit_signed_take_bit)

text \<open>Masking with 2 ^ k - 1 is the remainder modulo 2 ^ k, for negative numbers too.\<close>

lemma js_and_mask:
  assumes "k \<le> 31"
  shows "js_and x (2 ^ k - 1) = x mod 2 ^ k"
proof -
  have le: "(2::int) ^ k \<le> 2 ^ 31" using assms by (rule power_increasing) simp
  moreover have "(0::int) \<le> 2 ^ k - 1" by simp
  ultimately have "to_int32 (2 ^ k - 1) = 2 ^ k - 1" by (intro to_int32_id) linarith+
  then have "js_and x (2 ^ k - 1) = take_bit k (to_int32 x)"
    by (simp add: js_and_def take_bit_eq_mask mask_eq_exp_minus_1)
  also have "\<dots> = take_bit k x" using assms by (intro take_bit_to_int32) simp
  finally show ?thesis by (simp add: take_bit_eq_mod)
qed

lemma js_sar_div:
  assumes "- (2 ^ 31) \<le> x" "x < 2 ^ 31" "k \<le> 31"
  shows "js_sar x k = x div 2 ^ k"
  using assms by (simp add: js_sar_def to_int32_id drop_bit_eq_div)

lemma js_shr_div:
  assumes "0 \<le> x" "x < 2 ^ 32" "k \<le> 31"
  shows "js_shr x k = x div 2 ^ k"
  using assms by (simp add: js_shr_def take_bit_int_eq_self drop_bit_eq_div)

lemma js_shl_mult:
  assumes "0 \<le> x" "x * 2 ^ k < 2 ^ 31" "k \<le> 31"
  shows "js_shl x k = x * 2 ^ k"
proof -
  have "x * 1 \<le> x * 2 ^ k" using assms(1) by (intro mult_left_mono) auto
  then have "x < 2 ^ 31" using assms by linarith
  then have "to_int32 x = x" using assms by (intro to_int32_id) auto
  moreover have "to_int32 (x * 2 ^ k) = x * 2 ^ k"
    using assms by (intro to_int32_id) (auto intro: order_trans [of _ 0])
  ultimately show ?thesis using assms by (simp add: js_shl_def push_bit_eq_mult)
qed

text \<open>Or of numbers whose bits do not meet is their sum.\<close>

lemma or_disjoint_int:
  fixes a b :: int
  assumes "0 \<le> a" "a < 2 ^ k"
  shows "a OR (b * 2 ^ k) = a + b * 2 ^ k"
proof -
  have "\<not> (bit a n \<and> bit (b * 2 ^ k) n)" for n
  proof (cases "n < k")
    case True
    then show ?thesis
      using bit_push_bit_iff_int [of k b n] by (simp add: push_bit_eq_mult)
  next
    case False
    from assms have "take_bit k a = a" by (simp add: take_bit_int_eq_self)
    then have "bit a n \<Longrightarrow> n < k" by (metis bit_take_bit_iff)
    with False show ?thesis by auto
  qed
  then have "a AND (b * 2 ^ k) = 0"
    by (intro bit_eqI) (simp only: bit_and_iff bit_0_eq bot_fun_def bot_bool_def simp_thms)
  then show ?thesis by (rule disjunctive_add_eq_or [symmetric])
qed

lemma js_or_add:
  assumes "0 \<le> a" "a < 2 ^ k" "0 \<le> b" "a + b * 2 ^ k < 2 ^ 31"
  shows "js_or a (b * 2 ^ k) = a + b * 2 ^ k"
proof -
  have "0 \<le> b * 2 ^ k" using assms by simp
  then have "to_int32 a = a" "to_int32 (b * 2 ^ k) = b * 2 ^ k"
    using assms(1,4) by (intro to_int32_id; linarith)+
  then show ?thesis using assms by (simp add: js_or_def or_disjoint_int)
qed

lemma js_or_commute: "js_or a b = js_or b a"
  by (simp add: js_or_def or.commute)

lemma div_less_int: "0 < d \<Longrightarrow> x < q * d \<Longrightarrow> x div d < (q::int)"
  by (smt (verit) minus_mod_eq_mult_div mult.commute mult_left_mono pos_mod_sign)

section \<open>Arrays\<close>

text \<open>
  An array of numbers that grows on assignment. A cell never written reads as 0 here, where
  JavaScript gives \<open>undefined\<close>; the theorems about operations with a destination array hold
  for every former content of it, so none rests on the value of an unwritten cell.
\<close>

definition get :: "int list \<Rightarrow> nat \<Rightarrow> int" where
  "get xs i = (if i < length xs then xs ! i else 0)"

definition put :: "int list \<Rightarrow> nat \<Rightarrow> int \<Rightarrow> int list" where
  "put xs i v = (if i < length xs then xs[i := v] else xs @ replicate (i - length xs) 0 @ [v])"

lemma get_put: "get (put xs i v) j = (if j = i then v else get xs j)"
  by (auto simp: get_def put_def nth_append nth_list_update nth_Cons')

lemma get_put_same [simp, array_simps]: "get (put xs i v) i = v"
  by (simp add: get_put)

lemma get_put_other [simp, array_simps]: "j \<noteq> i \<Longrightarrow> get (put xs i v) j = get xs j"
  by (simp add: get_put)

lemma put_put [simp, array_simps]: "put (put xs i u) i v = put xs i v"
  by (auto simp: put_def list_update_append)

section \<open>Counted loops\<close>

definition for_up :: "nat \<Rightarrow> nat \<Rightarrow> (nat \<Rightarrow> 's \<Rightarrow> 's) \<Rightarrow> 's \<Rightarrow> 's" where
  \<comment> \<open>for (i = lo; i < hi; ++i) s = f i s\<close>
  "for_up lo hi f s = fold f [lo..<hi] s"

definition for_down :: "nat \<Rightarrow> nat \<Rightarrow> (nat \<Rightarrow> 's \<Rightarrow> 's) \<Rightarrow> 's \<Rightarrow> 's" where
  \<comment> \<open>for (i = hi - 1; i \<ge> lo; --i) s = f i s\<close>
  "for_down lo hi f s = fold f (rev [lo..<hi]) s"

fun foldM :: "('a \<Rightarrow> 's \<Rightarrow> 's option) \<Rightarrow> 'a list \<Rightarrow> 's \<Rightarrow> 's option" where
  "foldM f [] s = Some s"
| "foldM f (x # xs) s = (case f x s of None \<Rightarrow> None | Some s' \<Rightarrow> foldM f xs s')"

text \<open>The invariant rules: \<open>P i s\<close> holds when the loop is about to run its body for \<open>i\<close>.\<close>

lemma for_up_inv:
  assumes "lo \<le> hi" "P lo s"
    and "\<And>i s. lo \<le> i \<Longrightarrow> i < hi \<Longrightarrow> P i s \<Longrightarrow> P (Suc i) (f i s)"
  shows "P hi (for_up lo hi f s)"
proof -
  have "\<And>s. lo \<le> hi - n \<Longrightarrow> P (hi - n) s \<Longrightarrow> P hi (fold f [hi - n..<hi] s)" if "n \<le> hi" for n
    using that
  proof (induction n)
    case (Suc n)
    then have "[hi - Suc n..<hi] = (hi - Suc n) # [hi - n..<hi]"
      by (subst upt_conv_Cons) (auto simp: Suc_diff_Suc)
    moreover have "P (hi - n) (f (hi - Suc n) s)"
      using Suc.prems assms(3) [of "hi - Suc n" s] by (simp add: Suc_diff_Suc)
    ultimately show ?case using Suc by simp
  qed simp
  from this [of "hi - lo" s] assms show ?thesis by (simp add: for_up_def)
qed

lemma for_down_inv:
  assumes "lo \<le> hi" "P hi s"
    and "\<And>i s. lo \<le> i \<Longrightarrow> i < hi \<Longrightarrow> P (Suc i) s \<Longrightarrow> P i (f i s)"
  shows "P lo (for_down lo hi f s)"
  using assms(1,2,3)
proof (induction hi arbitrary: s)
  case 0
  then show ?case by (simp add: for_down_def)
next
  case (Suc hi)
  show ?case
  proof (cases "lo = Suc hi")
    case True
    with Suc.prems show ?thesis by (simp add: for_down_def)
  next
    case False
    with Suc.prems have lo: "lo \<le> hi" by simp
    have "P hi (f hi s)" using Suc.prems(2,3) lo by simp
    then have "P lo (for_down lo hi f (f hi s))" using Suc.prems(3) lo by (intro Suc.IH) auto
    then show ?thesis using lo by (simp add: for_down_def)
  qed
qed

lemma foldM_down_inv:
  assumes "P hi s"
    and "\<And>i s. i < hi \<Longrightarrow> P (Suc i) s \<Longrightarrow> \<exists>s'. f i s = Some s' \<and> P i s'"
  shows "\<exists>s'. foldM f (rev [0..<hi]) s = Some s' \<and> P 0 s'"
  using assms
proof (induction hi arbitrary: s)
  case (Suc hi)
  from Suc.prems obtain s' where "f hi s = Some s'" "P hi s'" by blast
  moreover have "\<exists>s''. foldM f (rev [0..<hi]) s' = Some s'' \<and> P 0 s''"
    using \<open>P hi s'\<close> Suc.prems(2) by (intro Suc.IH) auto
  ultimately show ?case by simp
qed simp

lemma foldM_up_inv:
  assumes "P 0 s"
    and "\<And>i s. i < hi \<Longrightarrow> P i s \<Longrightarrow> \<exists>s'. f i s = Some s' \<and> P (Suc i) s'"
  shows "\<exists>s'. foldM f [0..<hi] s = Some s' \<and> P hi s'"
proof -
  have "\<exists>s'. foldM f [k..<hi] s = Some s' \<and> P hi s'" if "k \<le> hi" "P k s" for k s
    using that
  proof (induction "hi - k" arbitrary: k s)
    case 0
    then show ?case by simp
  next
    case (Suc n)
    then have k: "k < hi" by simp
    from assms(2) [OF this Suc.prems(2)] obtain s' where "f k s = Some s'" "P (Suc k) s'" by blast
    moreover have "\<exists>s''. foldM f [Suc k..<hi] s' = Some s'' \<and> P hi s''"
      using Suc k \<open>P (Suc k) s'\<close> by (intro Suc.hyps(1)) auto
    ultimately show ?case using k by (simp add: upt_conv_Cons)
  qed
  from this [of 0 s] assms(1) show ?thesis by simp
qed

end
