(* ===== verification/Bn_Base.thy ===== *)
theory Bn_Base
  imports Prelude
begin

text \<open>
  The representation of jsbn's \<open>BigInteger\<close> (encrypt/jsbn.js): an array of digits of
  \<open>dbits\<close> bits, least significant first, with the number \<open>t\<close> of digits in use and the sign
  extension \<open>s\<close> (0 or -1), so that a negative number is stored in two's complement. This
  theory holds the type, its value, and the operations that do not multiply: clamping, copying,
  conversion from a small number, comparison and bit length.
\<close>

section \<open>Big integers and their prototype\<close>

record bn =
  bn_d :: "int list"
  bn_t :: nat
  bn_s :: int

text \<open>
  The prototype's fields that depend on the browser: the multiply-accumulate routine and the
  number of bits of a digit.
\<close>

record bnproto =
  am :: "int list \<Rightarrow> nat \<Rightarrow> int \<Rightarrow> int list \<Rightarrow> nat \<Rightarrow> int \<Rightarrow> nat \<Rightarrow> int list \<times> int"
  DB :: nat

definition DM :: "bnproto \<Rightarrow> int" where
  "DM E = js_shl 1 (DB E) - 1"

definition DV :: "bnproto \<Rightarrow> int" where
  "DV E = js_shl 1 (DB E)"

definition nbi :: bn where
  "nbi = \<lparr>bn_d = [], bn_t = 0, bn_s = 0\<rparr>"

text \<open>
  A method of the source writes its result into the object \<open>r\<close>, which may be the receiver or
  an argument itself. \<open>Self\<close> stands for an operand that is the destination object, so that
  its digits are read from the array being written.
\<close>

datatype operand = Self | Obj bn

fun obj :: "operand \<Rightarrow> bn \<Rightarrow> bn" where
  "obj Self r = r"
| "obj (Obj x) r = x"

fun cell :: "operand \<Rightarrow> int list \<Rightarrow> nat \<Rightarrow> int" where
  "cell Self w i = get w i"
| "cell (Obj x) w i = get (bn_d x) i"

lemma cell_obj: "get w i = get (bn_d r) i \<Longrightarrow> cell a w i = get (bn_d (obj a r)) i"
  by (cases a) simp_all

definition bnpCopyTo :: "operand \<Rightarrow> bn \<Rightarrow> bn" where
  "bnpCopyTo this r =
     (let x = obj this r;
          w = for_down 0 (bn_t x) (\<lambda>i w. put w i (cell this w i)) (bn_d r)
      in r\<lparr>bn_d := w, bn_t := bn_t x, bn_s := bn_s x\<rparr>)"

definition bnpFromInt :: "bnproto \<Rightarrow> int \<Rightarrow> bn \<Rightarrow> bn" where
  "bnpFromInt E x r =
     (let r = r\<lparr>bn_t := 1, bn_s := (if x < 0 then -1 else 0)\<rparr>
      in if x > 0 then r\<lparr>bn_d := put (bn_d r) 0 x\<rparr>
         else if x < -1 then r\<lparr>bn_d := put (bn_d r) 0 (x + DV E)\<rparr>
         else r\<lparr>bn_t := 0\<rparr>)"

definition nbv :: "bnproto \<Rightarrow> int \<Rightarrow> bn" where
  "nbv E i = bnpFromInt E i nbi"

definition bn_ZERO :: "bnproto \<Rightarrow> bn" where
  "bn_ZERO E = nbv E 0"

definition bn_ONE :: "bnproto \<Rightarrow> bn" where
  "bn_ONE E = nbv E 1"

fun clamp_t :: "int list \<Rightarrow> int \<Rightarrow> nat \<Rightarrow> nat" where
  "clamp_t xs c 0 = 0"
| "clamp_t xs c (Suc n) = (if get xs n = c then clamp_t xs c n else Suc n)"

definition bnpClamp :: "bnproto \<Rightarrow> bn \<Rightarrow> bn" where
  "bnpClamp E x = x\<lparr>bn_t := clamp_t (bn_d x) (js_and (bn_s x) (DM E)) (bn_t x)\<rparr>"

fun compare_digits :: "int list \<Rightarrow> int list \<Rightarrow> nat \<Rightarrow> int" where
  "compare_digits xs ys 0 = 0"
| "compare_digits xs ys (Suc i) =
     (let r = get xs i - get ys i in if r \<noteq> 0 then r else compare_digits xs ys i)"

definition bnCompareTo :: "bn \<Rightarrow> bn \<Rightarrow> int" where
  "bnCompareTo this a =
     (let r = bn_s this - bn_s a
      in if r \<noteq> 0 then r
         else let r = int (bn_t this) - int (bn_t a)
              in if r \<noteq> 0 then (if bn_s this < 0 then - r else r)
                 else compare_digits (bn_d this) (bn_d a) (bn_t this))"

definition nbits :: "int \<Rightarrow> nat" where
  "nbits x =
     (let r = 1;
          t = js_shr x 16; (x, r) = (if t \<noteq> 0 then (t, r + 16) else (x, r));
          t = js_sar x 8; (x, r) = (if t \<noteq> 0 then (t, r + 8) else (x, r));
          t = js_sar x 4; (x, r) = (if t \<noteq> 0 then (t, r + 4) else (x, r));
          t = js_sar x 2; (x, r) = (if t \<noteq> 0 then (t, r + 2) else (x, r));
          t = js_sar x 1; (x, r) = (if t \<noteq> 0 then (t, r + 1) else (x, r))
      in r)"

definition bnBitLength :: "bnproto \<Rightarrow> bn \<Rightarrow> nat" where
  "bnBitLength E this =
     (if bn_t this \<le> 0 then 0
      else DB E * (bn_t this - 1)
           + nbits (js_xor (get (bn_d this) (bn_t this - 1)) (js_and (bn_s this) (DM E))))"

section \<open>Values\<close>

text \<open>The value of \<open>n\<close> digits from position \<open>i\<close> on, and digits being in range.\<close>

definition uval :: "int \<Rightarrow> int list \<Rightarrow> nat \<Rightarrow> nat \<Rightarrow> int" where
  "uval B xs i n = (\<Sum>k<n. get xs (i + k) * B ^ k)"

definition digits :: "int \<Rightarrow> int list \<Rightarrow> nat \<Rightarrow> nat \<Rightarrow> bool" where
  "digits B xs i n \<longleftrightarrow> (\<forall>k. i \<le> k \<and> k < i + n \<longrightarrow> 0 \<le> get xs k \<and> get xs k < B)"

lemma uval_0 [simp]: "uval B xs i 0 = 0"
  by (simp add: uval_def)

lemma uval_Suc: "uval B xs i (Suc n) = uval B xs i n + get xs (i + n) * B ^ n"
  by (simp add: uval_def)

lemma uval_step: "uval B xs i (Suc n) = get xs i + B * uval B xs (Suc i) n"
  unfolding uval_def by (subst sum.lessThan_Suc_shift) (simp add: sum_distrib_left algebra_simps)

lemma uval_add: "uval B xs i (m + n) = uval B xs i m + B ^ m * uval B xs (i + m) n"
  by (induction n) (simp_all add: uval_Suc algebra_simps power_add)

lemma uval_cong:
  "(\<And>k. k < n \<Longrightarrow> get xs (i + k) = get ys (j + k)) \<Longrightarrow> uval B xs i n = uval B ys j n"
  by (simp add: uval_def)

lemma uval_zero: "(\<And>k. i \<le> k \<Longrightarrow> k < i + n \<Longrightarrow> get xs k = 0) \<Longrightarrow> uval B xs i n = 0"
  by (simp add: uval_def)

lemma uval_put_other: "k < i \<or> i + n \<le> k \<Longrightarrow> uval B (put xs k v) i n = uval B xs i n"
  by (intro uval_cong) auto

lemma uval_put:
  "k < n \<Longrightarrow> uval B (put xs (i + k) v) i n = uval B xs i n + (v - get xs (i + k)) * B ^ k"
proof (induction n)
  case (Suc n)
  show ?case
  proof (cases "k = n")
    case True
    then show ?thesis by (simp add: uval_Suc uval_put_other algebra_simps)
  next
    case False
    with Suc show ?thesis by (simp add: uval_Suc)
  qed
qed simp

lemma digitsD: "digits B xs i n \<Longrightarrow> i \<le> k \<Longrightarrow> k < i + n \<Longrightarrow> 0 \<le> get xs k"
  "digits B xs i n \<Longrightarrow> i \<le> k \<Longrightarrow> k < i + n \<Longrightarrow> get xs k < B"
  by (auto simp: digits_def)

lemma digitsI:
  "(\<And>k. i \<le> k \<Longrightarrow> k < i + n \<Longrightarrow> 0 \<le> get xs k \<and> get xs k < B) \<Longrightarrow> digits B xs i n"
  by (auto simp: digits_def)

lemma digits_sub: "digits B xs i n \<Longrightarrow> i \<le> j \<Longrightarrow> j + m \<le> i + n \<Longrightarrow> digits B xs j m"
  by (auto simp: digits_def)

lemma digits_0 [simp]: "digits B xs i 0"
  by (simp add: digits_def)

lemma digits_append: "digits B xs i (m + n) \<longleftrightarrow> digits B xs i m \<and> digits B xs (i + m) n"
proof
  assume d: "digits B xs i m \<and> digits B xs (i + m) n"
  show "digits B xs i (m + n)"
  proof (rule digitsI)
    fix k assume "i \<le> k" "k < i + (m + n)"
    then show "0 \<le> get xs k \<and> get xs k < B" using d by (cases "k < i + m") (auto simp: digits_def)
  qed
qed (auto simp: digits_def)

lemma digits_1: "digits B xs i (Suc 0) \<longleftrightarrow> 0 \<le> get xs i \<and> get xs i < B"
  by (auto simp: digits_def le_less_Suc_eq)

lemma digits_cong:
  "digits B xs i n \<Longrightarrow> (\<And>k. i \<le> k \<Longrightarrow> k < i + n \<Longrightarrow> get ys k = get xs k) \<Longrightarrow> digits B ys i n"
  by (auto simp: digits_def)

lemma uval_nonneg: "digits B xs i n \<Longrightarrow> 0 < B \<Longrightarrow> 0 \<le> uval B xs i n"
  unfolding uval_def by (intro sum_nonneg) (auto simp: digits_def)

lemma uval_less: "digits B xs i n \<Longrightarrow> 0 < B \<Longrightarrow> uval B xs i n < B ^ n"
proof (induction n)
  case (Suc n)
  then have "uval B xs i n < B ^ n" using digits_sub [OF Suc.prems(1), of i n] by simp
  moreover have "get xs (i + n) * B ^ n \<le> (B - 1) * B ^ n"
    using Suc.prems by (intro mult_right_mono) (auto simp: digits_def)
  ultimately show ?case by (simp add: uval_Suc algebra_simps)
qed simp

text \<open>The digits of a number are unique.\<close>

lemma uval_inj_top:
  assumes "digits B xs i (Suc n)" "digits B ys j (Suc n)" "0 < B"
    and "get xs (i + n) < get ys (j + n)"
  shows "uval B xs i (Suc n) < uval B ys j (Suc n)"
proof -
  have "uval B xs i n < B ^ n" using digits_sub [OF assms(1), of i n] assms(3) by (intro uval_less) auto
  moreover have "0 \<le> uval B ys j n" using digits_sub [OF assms(2), of j n] assms(3) by (intro uval_nonneg) auto
  moreover have "(get xs (i + n) + 1) * B ^ n \<le> get ys (j + n) * B ^ n"
    using assms by (intro mult_right_mono) auto
  ultimately show ?thesis by (simp add: uval_Suc algebra_simps)
qed

text \<open>
  The value of a big integer, the range of its parts (\<open>dok\<close>), and the normal form in which
  every operation leaves its result (\<open>bn_wf\<close>): the top digit is not the sign extension.
\<close>

definition base :: "bnproto \<Rightarrow> int" where
  "base E = 2 ^ DB E"

definition bval :: "bnproto \<Rightarrow> bn \<Rightarrow> int" where
  "bval E x = uval (base E) (bn_d x) 0 (bn_t x) + bn_s x * base E ^ bn_t x"

definition dok :: "bnproto \<Rightarrow> bn \<Rightarrow> bool" where
  "dok E x \<longleftrightarrow> digits (base E) (bn_d x) 0 (bn_t x) \<and> (bn_s x = 0 \<or> bn_s x = -1)"

definition clamped :: "bnproto \<Rightarrow> bn \<Rightarrow> bool" where
  "clamped E x \<longleftrightarrow> (bn_t x > 0 \<longrightarrow> get (bn_d x) (bn_t x - 1) \<noteq> (if bn_s x = 0 then 0 else base E - 1))"

definition bn_wf :: "bnproto \<Rightarrow> bn \<Rightarrow> bool" where
  "bn_wf E x \<longleftrightarrow> dok E x \<and> clamped E x"

lemma bn_wfD: "bn_wf E x \<Longrightarrow> dok E x" "bn_wf E x \<Longrightarrow> clamped E x"
  by (simp_all add: bn_wf_def)

lemma dokD: "dok E x \<Longrightarrow> digits (base E) (bn_d x) 0 (bn_t x)"
  "dok E x \<Longrightarrow> bn_s x = 0 \<or> bn_s x = -1"
  by (simp_all add: dok_def)

lemma base_pos [simp]: "0 < base E" "0 \<le> base E" "base E \<noteq> 0"
  by (simp_all add: base_def)

lemma dok_cell:
  assumes "dok E x" "i < bn_t x"
  shows "0 \<le> get (bn_d x) i" "get (bn_d x) i < base E"
  using assms by (auto simp: dok_def digits_def)

lemma bval_nonneg_iff: "dok E x \<Longrightarrow> 0 \<le> bval E x \<longleftrightarrow> bn_s x = 0"
  using uval_nonneg [of "base E" "bn_d x" 0 "bn_t x"] uval_less [of "base E" "bn_d x" 0 "bn_t x"]
  by (auto simp: dok_def bval_def)

lemma bval_neg_iff: "dok E x \<Longrightarrow> bval E x < 0 \<longleftrightarrow> bn_s x = -1"
  using bval_nonneg_iff [of E x] by (auto simp: dok_def)

lemma bval_cases:
  assumes "dok E x"
  obtains (nonneg) "bn_s x = 0" "bval E x = uval (base E) (bn_d x) 0 (bn_t x)"
  | (neg) "bn_s x = -1" "bval E x = uval (base E) (bn_d x) 0 (bn_t x) - base E ^ bn_t x"
  using assms by (auto simp: dok_def bval_def)

lemma dok_uval:
  assumes "dok E x"
  shows "0 \<le> uval (base E) (bn_d x) 0 (bn_t x)" "uval (base E) (bn_d x) 0 (bn_t x) < base E ^ bn_t x"
  using assms by (auto simp: dok_def intro: uval_nonneg uval_less)

lemma bval_bounds:
  assumes "dok E x"
  shows "bval E x < base E ^ bn_t x" "- (base E ^ bn_t x) \<le> bval E x"
proof -
  have "0 < base E ^ bn_t x" by simp
  with assms dok_uval [OF assms]
  show "bval E x < base E ^ bn_t x" "- (base E ^ bn_t x) \<le> bval E x"
    by (auto elim!: bval_cases)
qed

text \<open>The number of digits of a normal form is determined by its value.\<close>

lemma bval_ge_top:
  assumes "bn_wf E x" "bn_s x = 0" "bn_t x = Suc n"
  shows "base E ^ n \<le> bval E x"
proof -
  have d: "digits (base E) (bn_d x) 0 (Suc n)" using assms by (simp add: bn_wf_def dok_def)
  have "1 \<le> get (bn_d x) n"
    using assms digitsD(1) [OF d, of n] by (auto simp: bn_wf_def clamped_def)
  then have "1 * base E ^ n \<le> get (bn_d x) n * base E ^ n" by (intro mult_right_mono) auto
  moreover have "0 \<le> uval (base E) (bn_d x) 0 n" using digits_sub [OF d, of 0 n] by (intro uval_nonneg) auto
  ultimately have "base E ^ n \<le> uval (base E) (bn_d x) 0 (Suc n)"
    unfolding uval_Suc add_0 by linarith
  then show ?thesis using assms by (simp add: bval_def)
qed

lemma bval_neg_top:
  assumes "bn_wf E x" "bn_s x = -1" "bn_t x = Suc n"
  shows "bval E x < - (base E ^ n)"
proof -
  have d: "digits (base E) (bn_d x) 0 (Suc n)" using assms by (simp add: bn_wf_def dok_def)
  have "get (bn_d x) n \<le> base E - 2"
    using assms digitsD(2) [OF d, of n] by (auto simp: bn_wf_def clamped_def)
  then have "get (bn_d x) n * base E ^ n \<le> (base E - 2) * base E ^ n" by (intro mult_right_mono) auto
  moreover have "uval (base E) (bn_d x) 0 n < base E ^ n" using digits_sub [OF d, of 0 n] by (intro uval_less) auto
  ultimately show ?thesis using assms by (simp add: bval_def uval_Suc algebra_simps)
qed

section \<open>Clamping, copying, small numbers\<close>

text \<open>The digit widths the code uses: more than 16 bits (for \<open>invDigit\<close>), at most 30.\<close>

locale digit_width =
  fixes E :: bnproto
  assumes DB_lower: "16 < DB E" and DB_upper: "DB E \<le> 30"
begin

lemma base_le: "base E \<le> 2 ^ 30"
  unfolding base_def using DB_upper by (intro power_increasing) auto

lemma base_ge: "2 ^ 17 \<le> base E"
  unfolding base_def using DB_lower by (intro power_increasing) auto

lemma base_num: "base E \<le> 1073741824" "131072 \<le> base E"
  using base_le base_ge by simp_all

lemma DV_base: "DV E = base E"
  using base_le DB_upper unfolding DV_def base_def by (subst js_shl_mult) auto

lemma DM_base: "DM E = base E - 1"
  using DV_base by (simp add: DM_def DV_def)

lemma and_DM: "js_and x (DM E) = x mod base E"
  using js_and_mask [of "DB E" x] DB_upper by (simp add: DM_base base_def)

lemma sar_DB: "- (2 ^ 31) \<le> x \<Longrightarrow> x < 2 ^ 31 \<Longrightarrow> js_sar x (DB E) = x div base E"
  using DB_upper by (simp add: js_sar_div base_def)

lemma and_sign: "s = 0 \<or> s = -1 \<Longrightarrow> js_and s (DM E) = (if s = 0 then 0 else base E - 1)"
  using base_ge by (auto simp: and_DM zmod_minus1)

lemma clamp_t_le: "clamp_t xs c n \<le> n"
  by (induction n) auto

lemma clamp_t_top: "clamp_t xs c n > 0 \<Longrightarrow> get xs (clamp_t xs c n - 1) \<noteq> c"
  by (induction n) auto

lemma clamp_t_cut: "clamp_t xs c n \<le> k \<Longrightarrow> k < n \<Longrightarrow> get xs k = c"
  by (induction n) (auto split: if_splits simp: less_Suc_eq)

lemma clamp_t_val:
  assumes "s = 0 \<or> s = -1"
  shows "uval (base E) xs 0 (clamp_t xs (js_and s (DM E)) n) + s * base E ^ clamp_t xs (js_and s (DM E)) n
       = uval (base E) xs 0 n + s * base E ^ n"
proof (induction n)
  case (Suc n)
  then show ?case using and_sign [OF assms] assms by (auto simp: uval_Suc algebra_simps)
qed simp

lemma bval_clamp: "bn_s x = 0 \<or> bn_s x = -1 \<Longrightarrow> bval E (bnpClamp E x) = bval E x"
  unfolding bval_def bnpClamp_def by (simp add: clamp_t_val)

lemma clamp_parts [simp]: "bn_d (bnpClamp E x) = bn_d x" "bn_s (bnpClamp E x) = bn_s x"
  by (simp_all add: bnpClamp_def)

lemma wf_clamp:
  assumes "dok E x"
  shows "bn_wf E (bnpClamp E x)"
proof -
  let ?c = "js_and (bn_s x) (DM E)"
  have s: "bn_s x = 0 \<or> bn_s x = -1" using assms by (simp add: dok_def)
  have "digits (base E) (bn_d x) 0 (clamp_t (bn_d x) ?c (bn_t x))"
    using assms clamp_t_le by (auto simp: dok_def intro: digits_sub)
  then show ?thesis
    using s clamp_t_top [of "bn_d x" ?c "bn_t x"] and_sign [OF s]
    by (simp add: bn_wf_def dok_def clamped_def bnpClamp_def)
qed

lemma clamp_t_parts: "bn_t (bnpClamp E x) \<le> bn_t x"
  by (simp add: bnpClamp_def clamp_t_le)

lemma clamp_cut:
  "bn_s x = 0 \<Longrightarrow> bn_t (bnpClamp E x) \<le> k \<Longrightarrow> k < bn_t x \<Longrightarrow> get (bn_d x) k = 0"
  using clamp_t_cut [of "bn_d x" "js_and (bn_s x) (DM E)" "bn_t x" k] and_sign [of 0]
  by (simp add: bnpClamp_def)

lemma copyTo_cells:
  "get (bn_d (bnpCopyTo this r)) k
     = (if k < bn_t (obj this r) then get (bn_d (obj this r)) k else get (bn_d r) k)"
proof -
  let ?x = "obj this r"
  have "\<forall>k. get (for_down 0 (bn_t ?x) (\<lambda>i w. put w i (cell this w i)) (bn_d r)) k
      = (if 0 \<le> k \<and> k < bn_t ?x then get (bn_d ?x) k else get (bn_d r) k)"
    by (rule for_down_inv [where P = "\<lambda>i w. \<forall>k. get w k
          = (if i \<le> k \<and> k < bn_t ?x then get (bn_d ?x) k else get (bn_d r) k)"])
      (auto simp: get_put cell_obj)
  then show ?thesis by (simp add: bnpCopyTo_def Let_def)
qed

lemma copyTo_parts [simp]:
  "bn_t (bnpCopyTo this r) = bn_t (obj this r)" "bn_s (bnpCopyTo this r) = bn_s (obj this r)"
  by (simp_all add: bnpCopyTo_def Let_def)

lemma copyTo_val: "bval E (bnpCopyTo this r) = bval E (obj this r)"
  by (auto simp: bval_def copyTo_cells intro: uval_cong)

lemma copyTo_wf: "bn_wf E (obj this r) \<Longrightarrow> bn_wf E (bnpCopyTo this r)"
  by (auto simp: bn_wf_def dok_def clamped_def copyTo_cells digits_def)

lemma fromInt_ok:
  assumes "- base E \<le> x" "x < base E"
  shows "bn_wf E (bnpFromInt E x r)" "bval E (bnpFromInt E x r) = x"
  using assms base_ge
  by (auto simp: bnpFromInt_def bn_wf_def dok_def clamped_def digits_def bval_def uval_Suc Let_def
      DV_base)

lemma nbv_ok:
  assumes "- base E \<le> x" "x < base E"
  shows "bn_wf E (nbv E x)" "bval E (nbv E x) = x"
  using fromInt_ok [OF assms] by (simp_all add: nbv_def)

lemma ZERO_ok [simp]: "bn_wf E (bn_ZERO E)" "bval E (bn_ZERO E) = 0" "bn_t (bn_ZERO E) = 0"
    "bn_s (bn_ZERO E) = 0"
  using nbv_ok [of 0] by (simp_all add: bn_ZERO_def nbv_def bnpFromInt_def Let_def)

lemma ONE_ok [simp]: "bn_wf E (bn_ONE E)" "bval E (bn_ONE E) = 1" "bn_t (bn_ONE E) = 1"
    "bn_s (bn_ONE E) = 0"
  using nbv_ok [of 1] base_ge by (simp_all add: bn_ONE_def nbv_def bnpFromInt_def Let_def)

section \<open>Comparison\<close>

lemma compare_digits_sgn:
  "digits (base E) xs 0 n \<Longrightarrow> digits (base E) ys 0 n \<Longrightarrow>
   sgn (compare_digits xs ys n) = sgn (uval (base E) xs 0 n - uval (base E) ys 0 n)"
proof (induction n)
  case (Suc n)
  consider "get xs n < get ys n" | "get ys n < get xs n" | "get xs n = get ys n" by linarith
  then show ?case
  proof cases
    case 1
    then show ?thesis
      using uval_inj_top [OF Suc.prems base_pos(1)] by (simp add: Let_def)
  next
    case 2
    then show ?thesis
      using uval_inj_top [OF Suc.prems(2,1) base_pos(1)] by (simp add: Let_def)
  next
    case 3
    then show ?thesis
      using Suc.IH digits_sub [OF Suc.prems(1), of 0 n] digits_sub [OF Suc.prems(2), of 0 n]
      by (simp add: uval_Suc)
  qed
qed simp

lemma bval_less_of_t:
  assumes "bn_wf E x" "bn_wf E y" "bn_s x = bn_s y" "bn_t x < bn_t y"
  shows "if bn_s x = 0 then bval E x < bval E y else bval E y < bval E x"
proof -
  obtain n where n: "bn_t y = Suc n" using assms(4) by (cases "bn_t y") auto
  have p: "base E ^ bn_t x \<le> base E ^ n"
    using assms(4) n base_ge by (intro power_increasing) auto
  have "bn_s x = 0 \<or> bn_s x = -1" using assms(1) by (simp add: bn_wf_def dok_def)
  then show ?thesis
    using bval_bounds [of E x] bval_ge_top [OF assms(2) _ n] bval_neg_top [OF assms(2) _ n] p assms
    by (auto simp: bn_wf_def)
qed

lemma compareTo_sgn:
  assumes "bn_wf E x" "bn_wf E y"
  shows "sgn (bnCompareTo x y) = sgn (bval E x - bval E y)"
proof -
  have d: "dok E x" "dok E y" using assms by (simp_all add: bn_wf_def)
  consider "bn_s x \<noteq> bn_s y" | "bn_s x = bn_s y" "bn_t x \<noteq> bn_t y"
    | "bn_s x = bn_s y" "bn_t x = bn_t y" by blast
  then show ?thesis
  proof cases
    case 1
    then show ?thesis
      using dokD(2) [OF d(1)] dokD(2) [OF d(2)] bval_nonneg_iff [OF d(1)] bval_nonneg_iff [OF d(2)]
      by (auto simp: bnCompareTo_def)
  next
    case 2
    then show ?thesis
      using bval_less_of_t [OF assms] bval_less_of_t [OF assms(2,1)] dokD(2) [OF d(1)]
      by (cases "bn_t x" "bn_t y" rule: linorder_cases) (auto simp: bnCompareTo_def Let_def)
  next
    case 3
    then show ?thesis
      using compare_digits_sgn [of "bn_d x" "bn_t x" "bn_d y"] d
      by (simp add: bnCompareTo_def bval_def dok_def)
  qed
qed

lemma compareTo_iff:
  assumes "bn_wf E x" "bn_wf E y"
  shows "bnCompareTo x y \<ge> 0 \<longleftrightarrow> bval E y \<le> bval E x" "bnCompareTo x y > 0 \<longleftrightarrow> bval E y < bval E x"
    "bnCompareTo x y = 0 \<longleftrightarrow> bval E x = bval E y"
  using compareTo_sgn [OF assms] by (auto simp: sgn_if split: if_splits)

end

section \<open>The number of bits of a digit\<close>

text \<open>
  \<open>nbits\<close> halves the candidate width five times; each test keeps \<open>x\<close> the input shifted by the
  \<open>r - 1\<close> bits found so far.
\<close>

lemma nbits_test:
  fixes x x0 :: int
  assumes "x0 div 2 ^ (r - 1) = x" "0 < x" "x < 2 ^ (k + k)" "1 \<le> r"
    and "(x', r') = (if x div 2 ^ k \<noteq> 0 then (x div 2 ^ k, r + k) else (x, r))"
  shows "x0 div 2 ^ (r' - 1) = x' \<and> 0 < x' \<and> x' < 2 ^ k \<and> 1 \<le> r'"
proof (cases "x div 2 ^ k = 0")
  case True
  then have "x < 2 ^ k" using assms(2) by (simp add: zdiv_eq_0_iff)
  with assms True show ?thesis by simp
next
  case False
  have "0 \<le> x div 2 ^ k" using assms(2) by (simp add: pos_imp_zdiv_nonneg_iff)
  moreover have "x div 2 ^ k < 2 ^ k" using assms(3) by (intro div_less_int) (auto simp: power_add)
  moreover have "r + k - 1 = (r - 1) + k" using assms(4) by simp
  then have "x0 div 2 ^ (r + k - 1) = x div 2 ^ k"
    unfolding assms(1) [symmetric] by (simp add: power_add zdiv_zmult2_eq)
  ultimately show ?thesis using assms(4,5) False by auto
qed

lemma nbits_bounds:
  assumes "0 < x" "x < 2 ^ 32"
  shows "1 \<le> nbits x" "2 ^ (nbits x - 1) \<le> x" "x < 2 ^ nbits x"
proof -
  define f where "f k p = (case p of (x, r) \<Rightarrow> if x div 2 ^ k \<noteq> 0 then (x div 2 ^ k :: int, r + k) else (x, r :: nat))" for k p
  have sh: "js_sar y k = y div 2 ^ k" if "0 < y" "y < 2 ^ 16" "k \<le> 31" for y k
    using that by (intro js_sar_div) (auto intro: order_less_trans [of _ 0])
  obtain a1 r1 where p1: "f 16 (x, 1) = (a1, r1)" by fastforce
  obtain a2 r2 where p2: "f 8 (a1, r1) = (a2, r2)" by fastforce
  obtain a3 r3 where p3: "f 4 (a2, r2) = (a3, r3)" by fastforce
  obtain a4 r4 where p4: "f 2 (a3, r3) = (a4, r4)" by fastforce
  obtain a5 r5 where p5: "f 1 (a4, r4) = (a5, r5)" by fastforce
  have s1: "x div 2 ^ (r1 - 1) = a1 \<and> 0 < a1 \<and> a1 < 2 ^ 16 \<and> 1 \<le> r1"
    using assms p1 by (intro nbits_test [of x 1 x]) (auto simp: f_def)
  then have s2: "x div 2 ^ (r2 - 1) = a2 \<and> 0 < a2 \<and> a2 < 2 ^ 8 \<and> 1 \<le> r2"
    using p2 by (intro nbits_test [of x r1 a1]) (auto simp: f_def)
  then have s3: "x div 2 ^ (r3 - 1) = a3 \<and> 0 < a3 \<and> a3 < 2 ^ 4 \<and> 1 \<le> r3"
    using p3 by (intro nbits_test [of x r2 a2]) (auto simp: f_def)
  then have s4: "x div 2 ^ (r4 - 1) = a4 \<and> 0 < a4 \<and> a4 < 2 ^ 2 \<and> 1 \<le> r4"
    using p4 by (intro nbits_test [of x r3 a3]) (auto simp: f_def)
  then have s5: "x div 2 ^ (r5 - 1) = a5 \<and> 0 < a5 \<and> a5 < 2 ^ 1 \<and> 1 \<le> r5"
    using p5 by (intro nbits_test [of x r4 a4]) (auto simp: f_def)
  have "js_shr x 16 = x div 2 ^ 16" using assms by (intro js_shr_div) simp_all
  moreover have "js_sar a1 8 = a1 div 2 ^ 8" using s1 by (intro sh) simp_all
  moreover have "js_sar a2 4 = a2 div 2 ^ 4" using s2 by (intro sh) (simp_all add: order_less_le_trans)
  moreover have "js_sar a3 2 = a3 div 2 ^ 2" using s3 by (intro sh) simp_all
  moreover have "js_sar a4 1 = a4 div 2 ^ 1" using s4 by (intro sh) simp_all
  ultimately have c: "js_shr x 16 = x div 2 ^ 16" "js_sar a1 8 = a1 div 2 ^ 8" "js_sar a2 4 = a2 div 2 ^ 4"
    "js_sar a3 2 = a3 div 2 ^ 2" "js_sar a4 1 = a4 div 2 ^ 1" by blast+
  have "nbits x = r5"
    unfolding nbits_def Let_def using p1 p2 p3 p4 p5 c
    by (simp only: f_def prod.case split: if_splits)
  then show "1 \<le> nbits x" using s5 by simp
  have one: "x div 2 ^ (nbits x - 1) = 1" using s5 \<open>nbits x = r5\<close> by simp
  have "2 ^ nbits x = 2 * (2::int) ^ (nbits x - 1)" using \<open>1 \<le> nbits x\<close> by (cases "nbits x") auto
  moreover have "x = 2 ^ (nbits x - 1) + x mod 2 ^ (nbits x - 1)"
    using div_mult_mod_eq [of x "2 ^ (nbits x - 1)"] one by simp
  moreover have "0 \<le> x mod 2 ^ (nbits x - 1)" "x mod 2 ^ (nbits x - 1) < 2 ^ (nbits x - 1)" by simp_all
  ultimately show "2 ^ (nbits x - 1) \<le> x" "x < 2 ^ nbits x" by linarith+
qed

end
