(* ===== verification/Bn_Shift.thy ===== *)
theory Bn_Shift
  imports Bn_Base
begin

text \<open>
  The shifts of jsbn: by whole digits (\<open>dlShiftTo\<close>, \<open>drShiftTo\<close>) and by bits
  (\<open>lShiftTo\<close>, \<open>rShiftTo\<close>), each of them multiplication or floor division by a power, also
  when the destination is the receiver.
\<close>

section \<open>The operations\<close>

definition bnpDLShiftTo :: "operand \<Rightarrow> nat \<Rightarrow> bn \<Rightarrow> bn" where
  "bnpDLShiftTo this n r =
     (let x = obj this r;
          w = for_down 0 (bn_t x) (\<lambda>i w. put w (i + n) (cell this w i)) (bn_d r);
          w = for_down 0 n (\<lambda>i w. put w i 0) w
      in r\<lparr>bn_d := w, bn_t := bn_t x + n, bn_s := bn_s x\<rparr>)"

definition bnpDRShiftTo :: "operand \<Rightarrow> nat \<Rightarrow> bn \<Rightarrow> bn" where
  "bnpDRShiftTo this n r =
     (let x = obj this r;
          w = for_up n (bn_t x) (\<lambda>i w. put w (i - n) (cell this w i)) (bn_d r)
      in r\<lparr>bn_d := w, bn_t := bn_t x - n, bn_s := bn_s x\<rparr>)"

definition bnpLShiftTo :: "bnproto \<Rightarrow> operand \<Rightarrow> nat \<Rightarrow> bn \<Rightarrow> bn" where
  "bnpLShiftTo E this n r =
     (let x = obj this r;
          bs = n mod DB E; cbs = DB E - bs; bm = js_shl 1 cbs - 1; ds = n div DB E;
          c = js_and (js_shl (bn_s x) bs) (DM E);
          (w, c) = for_down 0 (bn_t x)
             (\<lambda>i (w, c).
                let w = put w (i + ds + 1) (js_or (js_sar (cell this w i) cbs) c)
                in (w, js_shl (js_and (cell this w i) bm) bs)) (bn_d r, c);
          w = for_down 0 ds (\<lambda>i w. put w i 0) w;
          w = put w ds c
      in bnpClamp E (r\<lparr>bn_d := w, bn_t := bn_t x + ds + 1, bn_s := bn_s x\<rparr>))"

definition bnpRShiftTo :: "bnproto \<Rightarrow> operand \<Rightarrow> nat \<Rightarrow> bn \<Rightarrow> bn" where
  "bnpRShiftTo E this n r =
     (let x = obj this r;
          r = r\<lparr>bn_s := bn_s x\<rparr>;
          ds = n div DB E
      in if ds \<ge> bn_t x then r\<lparr>bn_t := 0\<rparr>
         else
           let bs = n mod DB E; cbs = DB E - bs; bm = js_shl 1 bs - 1;
               w = put (bn_d r) 0 (js_sar (cell this (bn_d r) ds) bs);
               w = for_up (ds + 1) (bn_t x)
                 (\<lambda>i w.
                    let w = put w (i - ds - 1)
                              (js_or (get w (i - ds - 1)) (js_shl (js_and (cell this w i) bm) cbs))
                    in put w (i - ds) (js_sar (cell this w i) bs)) w;
               w = (if bs > 0
                    then put w (bn_t x - ds - 1)
                           (js_or (get w (bn_t x - ds - 1)) (js_shl (js_and (bn_s x) bm) cbs))
                    else w)
           in bnpClamp E (r\<lparr>bn_d := w, bn_t := bn_t x - ds\<rparr>))"

section \<open>Shifts by digits\<close>

context digit_width
begin

lemma dlShift_parts [simp]:
  "bn_t (bnpDLShiftTo this n r) = bn_t (obj this r) + n" "bn_s (bnpDLShiftTo this n r) = bn_s (obj this r)"
  by (simp_all add: bnpDLShiftTo_def Let_def)

lemma dlShift_cells:
  "get (bn_d (bnpDLShiftTo this n r)) k
     = (if k < n then 0 else if k < bn_t (obj this r) + n then get (bn_d (obj this r)) (k - n)
        else get (bn_d r) k)"
proof -
  let ?x = "obj this r"
  define w where "w = for_down 0 (bn_t ?x) (\<lambda>i w. put w (i + n) (cell this w i)) (bn_d r)"
  have "\<forall>k. get w k = (if 0 + n \<le> k \<and> k < bn_t ?x + n then get (bn_d ?x) (k - n) else get (bn_d r) k)"
    unfolding w_def
    by (rule for_down_inv [where P = "\<lambda>i w. \<forall>k. get w k
          = (if i + n \<le> k \<and> k < bn_t ?x + n then get (bn_d ?x) (k - n) else get (bn_d r) k)"])
      (auto simp: get_put cell_obj)
  moreover have "\<forall>k. get (for_down 0 n (\<lambda>i w. put w i 0) w) k = (if 0 \<le> k \<and> k < n then 0 else get w k)"
    by (rule for_down_inv [where P = "\<lambda>i v. \<forall>k. get v k = (if i \<le> k \<and> k < n then 0 else get w k)"])
      (auto simp: get_put)
  ultimately show ?thesis by (simp add: bnpDLShiftTo_def Let_def w_def)
qed

lemma dlShift_uval: "uval B (bn_d (bnpDLShiftTo this n r)) 0 (bn_t (obj this r) + n)
    = B ^ n * uval B (bn_d (obj this r)) 0 (bn_t (obj this r))"
proof -
  have "uval B (bn_d (bnpDLShiftTo this n r)) n (bn_t (obj this r))
      = uval B (bn_d (obj this r)) 0 (bn_t (obj this r))"
    by (rule uval_cong) (simp add: dlShift_cells)
  moreover have "uval B (bn_d (bnpDLShiftTo this n r)) 0 n = 0"
    by (rule uval_zero) (simp add: dlShift_cells)
  ultimately show ?thesis using uval_add [of B _ 0 n "bn_t (obj this r)"] by (simp add: add.commute)
qed

lemma dlShift_val: "bval E (bnpDLShiftTo this n r) = bval E (obj this r) * base E ^ n"
  unfolding bval_def dlShift_parts dlShift_uval by (simp add: power_add algebra_simps)

lemma dlShift_dok: "dok E (obj this r) \<Longrightarrow> dok E (bnpDLShiftTo this n r)"
  by (auto simp: dok_def digits_def dlShift_cells)

lemma dlShift_wf:
  "bn_wf E (obj this r) \<Longrightarrow> bn_t (obj this r) > 0 \<or> n = 0 \<Longrightarrow> bn_wf E (bnpDLShiftTo this n r)"
  by (auto simp: bn_wf_def dlShift_dok clamped_def dlShift_cells)

lemma drShift_parts [simp]:
  "bn_t (bnpDRShiftTo this n r) = bn_t (obj this r) - n" "bn_s (bnpDRShiftTo this n r) = bn_s (obj this r)"
  by (simp_all add: bnpDRShiftTo_def Let_def)

lemma drShift_cells:
  "get (bn_d (bnpDRShiftTo this n r)) k
     = (if k < bn_t (obj this r) - n then get (bn_d (obj this r)) (k + n) else get (bn_d r) k)"
proof (cases "n \<le> bn_t (obj this r)")
  case True
  let ?x = "obj this r"
  have "\<forall>k. get (for_up n (bn_t ?x) (\<lambda>i w. put w (i - n) (cell this w i)) (bn_d r)) k
      = (if k < bn_t ?x - n then get (bn_d ?x) (k + n) else get (bn_d r) k)"
    using True
    by (intro for_up_inv [where P = "\<lambda>i w. \<forall>k. get w k
          = (if k < i - n then get (bn_d ?x) (k + n) else get (bn_d r) k)"])
      (auto simp: get_put intro!: cell_obj)
  then show ?thesis by (simp add: bnpDRShiftTo_def Let_def)
next
  case False
  then show ?thesis by (simp add: bnpDRShiftTo_def Let_def for_up_def)
qed

lemma drShift_dok: "dok E (obj this r) \<Longrightarrow> dok E (bnpDRShiftTo this n r)"
  by (auto simp: dok_def digits_def drShift_cells)

lemma drShift_wf: "bn_wf E (obj this r) \<Longrightarrow> bn_wf E (bnpDRShiftTo this n r)"
  by (auto simp: bn_wf_def drShift_dok clamped_def drShift_cells)

lemma bval_split:
  assumes "dok E x" "n \<le> bn_t x"
  shows "bval E x div base E ^ n = uval (base E) (bn_d x) n (bn_t x - n) + bn_s x * base E ^ (bn_t x - n)"
proof -
  have lo: "0 \<le> uval (base E) (bn_d x) 0 n" "uval (base E) (bn_d x) 0 n < base E ^ n"
    using assms digits_sub [of "base E" "bn_d x" 0 "bn_t x" 0 n]
    by (auto simp: dok_def intro: uval_nonneg uval_less)
  have "bval E x = uval (base E) (bn_d x) 0 n
      + base E ^ n * (uval (base E) (bn_d x) n (bn_t x - n) + bn_s x * base E ^ (bn_t x - n))"
    using assms(2) uval_add [of "base E" "bn_d x" 0 n "bn_t x - n"]
    by (simp add: bval_def algebra_simps flip: power_add)
  with lo show ?thesis by simp
qed

lemma drShift_val:
  assumes "dok E (obj this r)"
  shows "bval E (bnpDRShiftTo this n r) = bval E (obj this r) div base E ^ n"
proof (cases "n \<le> bn_t (obj this r)")
  case True
  have "uval (base E) (bn_d (bnpDRShiftTo this n r)) 0 (bn_t (obj this r) - n)
      = uval (base E) (bn_d (obj this r)) n (bn_t (obj this r) - n)"
    by (rule uval_cong) (simp add: drShift_cells add.commute)
  then show ?thesis using bval_split [OF assms True] by (simp add: bval_def)
next
  case False
  have le: "base E ^ bn_t (obj this r) \<le> base E ^ n"
    using False base_ge by (intro power_increasing) auto
  have "bval E (obj this r) div base E ^ n = bn_s (obj this r)"
  proof (cases rule: bval_cases [OF assms])
    case 1
    then show ?thesis
      using bval_bounds [OF assms] dok_uval [OF assms] le by (simp add: div_pos_pos_trivial)
  next
    case 2
    then show ?thesis
      using bval_bounds [OF assms] dok_uval [OF assms] le
      by (intro int_div_pos_eq [where r = "bval E (obj this r) + base E ^ n"]) auto
  qed
  with False show ?thesis by (simp add: bval_def)
qed

section \<open>Shifts by bits\<close>

lemma pow_split: "bs \<le> DB E \<Longrightarrow> base E = 2 ^ (DB E - bs) * 2 ^ bs"
  by (simp add: base_def flip: power_add)

lemma bits_le: "bs \<le> DB E \<Longrightarrow> (2::int) ^ bs \<le> 2 ^ 30"
  using DB_upper by (intro power_increasing) auto

lemma lo_bits: "0 \<le> x \<Longrightarrow> x < base E \<Longrightarrow> k \<le> DB E \<Longrightarrow> js_and x (js_shl 1 k - 1) = x mod 2 ^ k"
  using js_and_mask [of k x] js_shl_mult [of 1 k] bits_le [of k] DB_upper by simp

lemma hi_bits: "0 \<le> x \<Longrightarrow> x < base E \<Longrightarrow> k \<le> DB E \<Longrightarrow> js_sar x k = x div 2 ^ k"
  using base_le DB_upper by (intro js_sar_div) auto

lemma raise_bits:
  assumes "0 \<le> y" "y < 2 ^ (DB E - bs)" "bs \<le> DB E"
  shows "js_shl y bs = y * 2 ^ bs" "0 \<le> y * 2 ^ bs" "y * 2 ^ bs \<le> base E - 2 ^ bs"
proof -
  have "y * 2 ^ bs \<le> (2 ^ (DB E - bs) - 1) * 2 ^ bs" using assms by (intro mult_right_mono) auto
  then show le: "y * 2 ^ bs \<le> base E - 2 ^ bs" using pow_split [OF assms(3)] by (simp add: algebra_simps)
  have "(0::int) < 2 ^ bs" by simp
  with le have "y * 2 ^ bs < base E" by linarith
  then have "y * 2 ^ bs < 2 ^ 31" using base_num by simp
  then show "js_shl y bs = y * 2 ^ bs" using assms DB_upper by (intro js_shl_mult) auto
  show "0 \<le> y * 2 ^ bs" using assms by simp
qed

text \<open>Joining the bits below \<open>k\<close> of one digit with raised bits of its neighbour.\<close>

lemma join_bits:
  assumes "0 \<le> a" "a < 2 ^ k" "0 \<le> b" "b < 2 ^ (DB E - k)" "k \<le> DB E"
  shows "js_or a (b * 2 ^ k) = a + b * 2 ^ k" "0 \<le> a + b * 2 ^ k" "a + b * 2 ^ k < base E"
proof -
  from raise_bits [OF assms(3,4,5)] assms show lt: "a + b * 2 ^ k < base E" "0 \<le> a + b * 2 ^ k"
    by linarith+
  then have "a + b * 2 ^ k < 2 ^ 31" using base_num by simp
  with assms show "js_or a (b * 2 ^ k) = a + b * 2 ^ k" by (intro js_or_add) auto
qed

lemma div_hi_less: "0 \<le> x \<Longrightarrow> x < base E \<Longrightarrow> k \<le> DB E \<Longrightarrow> x div 2 ^ (DB E - k) < 2 ^ k"
  using pow_split [of k] by (intro div_less_int) (auto simp: algebra_simps)

text \<open>
  The left shift. \<open>lshift_inv\<close> holds before digit \<open>i - 1\<close> is moved: the digits from \<open>i\<close> on
  are in place, and the carry \<open>c\<close> holds the bits that go into the next digit below.
\<close>

definition lshift_inv :: "bn \<Rightarrow> int list \<Rightarrow> nat \<Rightarrow> nat \<Rightarrow> nat \<Rightarrow> int list \<times> int \<Rightarrow> bool" where
  "lshift_inv x old bs ds i st \<longleftrightarrow> (case st of (w, c) \<Rightarrow>
     (\<forall>k \<le> i + ds. get w k = get old k) \<and> digits (base E) w (i + ds + 1) (bn_t x - i) \<and>
     (\<exists>y. 0 \<le> y \<and> y < 2 ^ (DB E - bs) \<and> c = y * 2 ^ bs) \<and>
     c + base E * uval (base E) w (i + ds + 1) (bn_t x - i)
       = 2 ^ bs * uval (base E) (bn_d x) i (bn_t x - i) + (2 ^ bs - base E) * (bn_s x * base E ^ (bn_t x - i)))"

lemma lshift_init:
  assumes "dok E x" "bs < DB E"
  shows "lshift_inv x old bs ds (bn_t x) (old, js_and (js_shl (bn_s x) bs) (DM E))"
proof (cases "bn_s x = 0")
  case True
  then show ?thesis by (auto simp: lshift_inv_def js_shl_def js_and_def to_int32_def intro!: exI [of _ 0])
next
  case False
  then have s: "bn_s x = -1" using assms(1) by (auto simp: dok_def)
  have le: "(2::int) ^ bs \<le> 2 ^ 30" "base E = 2 ^ (DB E - bs) * 2 ^ bs"
    using assms(2) bits_le [of bs] pow_split [of bs] by auto
  have "to_int32 (- (2 ^ bs)) = - (2 ^ bs)"
    using le(1) by (intro to_int32_id) (auto intro: order_less_trans [of _ 0])
  then have "js_shl (-1) bs = - (2 ^ bs)"
    using assms(2) DB_upper by (simp add: js_shl_def to_int32_def push_bit_eq_mult)
  then have c: "js_and (js_shl (bn_s x) bs) (DM E) = (- (2 ^ bs)) mod base E" using s by (simp add: and_DM)
  have "- (2 ^ bs) + 1 * base E = (2 ^ (DB E - bs) - 1) * 2 ^ bs" using le(2) by (simp add: algebra_simps)
  moreover have "0 \<le> (2 ^ (DB E - bs) - 1) * (2 ^ bs :: int)" "(2 ^ (DB E - bs) - 1) * 2 ^ bs < base E"
    using le(2) by (simp_all add: algebra_simps)
  ultimately have "(- (2 ^ bs)) mod base E = (2 ^ (DB E - bs) - 1) * 2 ^ bs"
    by (metis add.commute mod_mult_self2 mod_pos_pos_trivial mult.commute)
  with c s le(2) show ?thesis
    by (auto simp: lshift_inv_def algebra_simps intro!: exI [of _ "2 ^ (DB E - bs) - 1"])
qed

lemma lshift_step:
  assumes x: "dok E (obj this r)" and bs: "bs < DB E" and i: "i < bn_t (obj this r)"
    and inv: "lshift_inv (obj this r) (bn_d r) bs ds (Suc i) (w, c)"
  shows "lshift_inv (obj this r) (bn_d r) bs ds i
    (let w = put w (i + ds + 1) (js_or (js_sar (cell this w i) (DB E - bs)) c)
     in (w, js_shl (js_and (cell this w i) (js_shl 1 (DB E - bs) - 1)) bs))"
proof -
  let ?x = "obj this r" let ?b = "base E" let ?d = "get (bn_d (obj this r)) i"
  from inv obtain y where y: "0 \<le> y" "y < 2 ^ (DB E - bs)" "c = y * 2 ^ bs"
    and old: "\<forall>k \<le> Suc i + ds. get w k = get (bn_d r) k"
    and dig: "digits ?b w (Suc i + ds + 1) (bn_t ?x - Suc i)"
    and eq: "c + ?b * uval ?b w (Suc i + ds + 1) (bn_t ?x - Suc i)
       = 2 ^ bs * uval ?b (bn_d ?x) (Suc i) (bn_t ?x - Suc i)
         + (2 ^ bs - ?b) * (bn_s ?x * ?b ^ (bn_t ?x - Suc i))"
    by (auto simp: lshift_inv_def)
  define hi lo where "hi = ?d div 2 ^ (DB E - bs)" and "lo = ?d mod 2 ^ (DB E - bs)"
  have d: "0 \<le> ?d" "?d < ?b" using dok_cell [OF x i] by auto
  have hi: "0 \<le> hi" "hi < 2 ^ bs" using d div_hi_less [OF d] bs by (auto simp: hi_def pos_imp_zdiv_nonneg_iff)
  have lo: "0 \<le> lo" "lo < 2 ^ (DB E - bs)" by (simp_all add: lo_def)
  define v where "v = hi + c"
  have v: "js_or (js_sar (cell this w i) (DB E - bs)) c = v" "0 \<le> v" "v < ?b"
    using join_bits [OF hi y(1,2)] bs hi_bits [OF d, of "DB E - bs"] old y(3)
    by (auto simp: v_def hi_def cell_obj)
  define w' where "w' = put w (i + ds + 1) v"
  have cell': "cell this w' i = ?d" using old by (intro cell_obj) (auto simp: w'_def)
  have c': "js_shl (js_and (cell this w' i) (js_shl 1 (DB E - bs) - 1)) bs = lo * 2 ^ bs"
    using lo_bits [OF d, of "DB E - bs"] raise_bits(1) [OF lo] bs by (simp add: cell' lo_def)
  have t: "bn_t ?x - i = Suc (bn_t ?x - Suc i)" using i by simp
  have U: "uval ?b w' (i + ds + 1) (bn_t ?x - i) = v + ?b * uval ?b w (Suc i + ds + 1) (bn_t ?x - Suc i)"
    unfolding t uval_step by (simp add: w'_def uval_put_other)
  have split: "lo * 2 ^ bs + ?b * hi = 2 ^ bs * ?d"
    using pow_split [of bs] bs div_mult_mod_eq [of ?d "2 ^ (DB E - bs)"]
    by (simp add: hi_def lo_def algebra_simps flip: distrib_left)
  have X: "uval ?b (bn_d ?x) i (bn_t ?x - i) = ?d + ?b * uval ?b (bn_d ?x) (Suc i) (bn_t ?x - Suc i)"
    unfolding t uval_step by simp
  have "lo * 2 ^ bs + ?b * uval ?b w' (i + ds + 1) (bn_t ?x - i)
      = lo * 2 ^ bs + ?b * hi + ?b * (c + ?b * uval ?b w (Suc i + ds + 1) (bn_t ?x - Suc i))"
    unfolding U v_def by (simp add: algebra_simps)
  also have "\<dots> = 2 ^ bs * uval ?b (bn_d ?x) i (bn_t ?x - i)
      + (2 ^ bs - ?b) * (bn_s ?x * ?b ^ (bn_t ?x - i))"
    unfolding split eq X by (simp add: t algebra_simps)
  finally have eq': "lo * 2 ^ bs + ?b * uval ?b w' (i + ds + 1) (bn_t ?x - i)
      = 2 ^ bs * uval ?b (bn_d ?x) i (bn_t ?x - i) + (2 ^ bs - ?b) * (bn_s ?x * ?b ^ (bn_t ?x - i))" .
  have "digits ?b w' (i + ds + 1) (bn_t ?x - i)"
    using dig v i by (auto simp: digits_def w'_def get_put)
  with eq' lo old show ?thesis
    unfolding Let_def v(1) w'_def [symmetric] c' by (auto simp: lshift_inv_def w'_def)
qed

lemma lShift_ok:
  assumes x: "dok E (obj this r)"
  shows "bn_wf E (bnpLShiftTo E this n r)" "bval E (bnpLShiftTo E this n r) = bval E (obj this r) * 2 ^ n"
    "bn_s (bnpLShiftTo E this n r) = bn_s (obj this r)"
proof -
  let ?x = "obj this r" let ?b = "base E"
  define bs ds where "bs = n mod DB E" and "ds = n div DB E"
  have bs: "bs < DB E" using DB_lower by (simp add: bs_def)
  define f where "f = (\<lambda>i (w, c).
      let w = put w (i + ds + 1) (js_or (js_sar (cell this w i) (DB E - bs)) c)
      in (w, js_shl (js_and (cell this w i) (js_shl 1 (DB E - bs) - 1)) bs))"
  define st where "st = for_down 0 (bn_t ?x) f (bn_d r, js_and (js_shl (bn_s ?x) bs) (DM E))"
  have "lshift_inv ?x (bn_d r) bs ds 0 st"
    unfolding st_def
  proof (rule for_down_inv [where P = "lshift_inv ?x (bn_d r) bs ds"])
    show "lshift_inv ?x (bn_d r) bs ds (bn_t ?x) (bn_d r, js_and (js_shl (bn_s ?x) bs) (DM E))"
      by (rule lshift_init [OF x bs])
    fix i st assume "i < bn_t ?x" "lshift_inv ?x (bn_d r) bs ds (Suc i) st"
    then show "lshift_inv ?x (bn_d r) bs ds i (f i st)"
      using lshift_step [OF x bs] by (cases st) (simp add: f_def)
  qed simp
  moreover obtain w c where st: "st = (w, c)" by (cases st)
  ultimately obtain y where y: "0 \<le> y" "y < 2 ^ (DB E - bs)" "c = y * 2 ^ bs"
    and dig: "digits ?b w (ds + 1) (bn_t ?x)"
    and eq: "c + ?b * uval ?b w (ds + 1) (bn_t ?x)
       = 2 ^ bs * uval ?b (bn_d ?x) 0 (bn_t ?x) + (2 ^ bs - ?b) * (bn_s ?x * ?b ^ bn_t ?x)"
    by (auto simp: lshift_inv_def)
  have "(0::int) < 2 ^ bs" by simp
  with raise_bits(2,3) [OF y(1,2)] bs y(3) have c: "0 \<le> c" "c < ?b" by linarith+
  define v where "v = for_down 0 ds (\<lambda>i w. put w i 0) w"
  have v: "\<forall>k. get v k = (if 0 \<le> k \<and> k < ds then 0 else get w k)"
    unfolding v_def
    by (rule for_down_inv [where P = "\<lambda>i v. \<forall>k. get v k = (if i \<le> k \<and> k < ds then 0 else get w k)"])
      (auto simp: get_put)
  define u where "u = put v ds c"
  define r' where "r' = r\<lparr>bn_d := u, bn_t := bn_t ?x + ds + 1, bn_s := bn_s ?x\<rparr>"
  have res: "bnpLShiftTo E this n r = bnpClamp E r'"
    using st unfolding st_def f_def bs_def ds_def
    by (simp add: bnpLShiftTo_def Let_def r'_def u_def v_def bs_def ds_def)
  have s: "bn_s ?x = 0 \<or> bn_s ?x = -1" using x by (simp add: dok_def)
  have "digits ?b u 0 (bn_t ?x + ds + 1)"
    using dig c v by (auto simp: digits_def u_def get_put)
  then have "dok E r'" using s by (simp add: dok_def r'_def)
  then show "bn_wf E (bnpLShiftTo E this n r)" unfolding res by (rule wf_clamp)
  show "bn_s (bnpLShiftTo E this n r) = bn_s ?x" by (simp add: res r'_def)
  have "uval ?b u 0 ds = 0" by (rule uval_zero) (auto simp: u_def v)
  moreover have "uval ?b u ds (Suc (bn_t ?x)) = c + ?b * uval ?b w (ds + 1) (bn_t ?x)"
    unfolding uval_step by (auto simp: u_def v intro!: uval_cong)
  ultimately have "uval ?b u 0 (ds + Suc (bn_t ?x))
      = ?b ^ ds * (c + ?b * uval ?b w (ds + 1) (bn_t ?x))"
    using uval_add [of ?b u 0 ds "Suc (bn_t ?x)"] by simp
  then have "bval E r' = ?b ^ ds * (2 ^ bs * bval E ?x)"
    unfolding eq bval_def r'_def by (simp add: algebra_simps power_add)
  moreover have "?b ^ ds * 2 ^ bs = 2 ^ n"
    by (simp add: base_def bs_def ds_def flip: power_mult power_add)
  ultimately show "bval E (bnpLShiftTo E this n r) = bval E ?x * 2 ^ n"
    using s unfolding res by (simp add: bval_clamp r'_def)
qed

text \<open>
  The right shift. \<open>rshift_inv\<close> holds before digit \<open>i\<close> is moved: the destination holds the
  digits from \<open>ds\<close> up to \<open>i\<close>, shifted, and its top digit still has room for the bits of digit
  \<open>i\<close>.
\<close>

definition rshift_inv :: "bn \<Rightarrow> int list \<Rightarrow> nat \<Rightarrow> nat \<Rightarrow> nat \<Rightarrow> int list \<Rightarrow> bool" where
  "rshift_inv x old bs ds i w \<longleftrightarrow>
     (\<forall>k \<ge> i - ds. get w k = get old k) \<and> digits (base E) w 0 (i - ds) \<and>
     get w (i - ds - 1) < 2 ^ (DB E - bs) \<and>
     2 ^ bs * uval (base E) w 0 (i - ds) + get (bn_d x) ds mod 2 ^ bs = uval (base E) (bn_d x) ds (i - ds)"

lemma rshift_init:
  assumes x: "dok E (obj this r)" and bs: "bs < DB E" and ds: "ds < bn_t (obj this r)"
  shows "rshift_inv (obj this r) (bn_d r) bs ds (ds + 1) (put (bn_d r) 0 (js_sar (cell this (bn_d r) ds) bs))"
proof -
  have d: "0 \<le> get (bn_d (obj this r)) ds" "get (bn_d (obj this r)) ds < base E" using dok_cell [OF x ds] by auto
  then have "js_sar (cell this (bn_d r) ds) bs = get (bn_d (obj this r)) ds div 2 ^ bs"
    using bs by (simp add: cell_obj hi_bits)
  moreover have "get (bn_d (obj this r)) ds div 2 ^ bs < 2 ^ (DB E - bs)"
    using div_hi_less [OF d, of "DB E - bs"] bs by simp
  moreover have "(2::int) ^ (DB E - bs) \<le> base E" unfolding base_def by (intro power_increasing) auto
  ultimately show ?thesis
    using d div_mult_mod_eq [of "get (bn_d (obj this r)) ds" "2 ^ bs"]
    by (auto simp: rshift_inv_def digits_def uval_Suc pos_imp_zdiv_nonneg_iff algebra_simps)
qed

lemma rshift_step:
  assumes x: "dok E (obj this r)" and bs: "bs < DB E" and i: "ds + 1 \<le> i" "i < bn_t (obj this r)"
    and inv: "rshift_inv (obj this r) (bn_d r) bs ds i w"
  shows "rshift_inv (obj this r) (bn_d r) bs ds (Suc i)
    (let w = put w (i - ds - 1)
               (js_or (get w (i - ds - 1)) (js_shl (js_and (cell this w i) (js_shl 1 bs - 1)) (DB E - bs)))
     in put w (i - ds) (js_sar (cell this w i) bs))"
proof -
  let ?x = "obj this r" let ?b = "base E" let ?d = "get (bn_d (obj this r)) i"
  obtain n where n: "i - ds = Suc n" using i by (cases "i - ds") auto
  from inv n have old: "\<forall>k > n. get w k = get (bn_d r) k" and dig: "digits ?b w 0 (Suc n)"
    and top: "get w n < 2 ^ (DB E - bs)"
    and eq: "2 ^ bs * uval ?b w 0 (Suc n) + get (bn_d ?x) ds mod 2 ^ bs = uval ?b (bn_d ?x) ds (Suc n)"
    by (auto simp: rshift_inv_def)
  have ni: "n < i" using n by simp
  have d: "0 \<le> ?d" "?d < ?b" using dok_cell [OF x i(2)] by auto
  have pow_le: "(2::int) ^ (DB E - bs) \<le> ?b" unfolding base_def by (intro power_increasing) auto
  define hi lo where "hi = ?d div 2 ^ bs" and "lo = ?d mod 2 ^ bs"
  have hi: "0 \<le> hi" "hi < 2 ^ (DB E - bs)" "hi < ?b"
    using d div_hi_less [OF d, of "DB E - bs"] bs pow_le
    by (auto simp: hi_def pos_imp_zdiv_nonneg_iff intro: order_less_le_trans)
  have lo: "0 \<le> lo" "lo < 2 ^ bs" by (simp_all add: lo_def)
  have w0: "0 \<le> get w n" using dig by (auto simp: digits_def)
  define v where "v = get w n + lo * 2 ^ (DB E - bs)"
  have low: "js_shl (js_and (cell this w i) (js_shl 1 bs - 1)) (DB E - bs) = lo * 2 ^ (DB E - bs)"
    using old ni raise_bits(1) [of lo "DB E - bs"] lo bs lo_bits [OF d, of bs]
    by (simp add: cell_obj lo_def)
  have v: "js_or (get w n) (lo * 2 ^ (DB E - bs)) = v" "0 \<le> v" "v < ?b"
    using join_bits [OF w0 top lo(1)] lo(2) bs by (auto simp: v_def)
  define w' where "w' = put (put w n v) (Suc n) hi"
  have "cell this (put w n v) i = ?d" using old ni by (intro cell_obj) auto
  then have step: "(let w = put w (i - ds - 1)
               (js_or (get w (i - ds - 1)) (js_shl (js_and (cell this w i) (js_shl 1 bs - 1)) (DB E - bs)))
     in put w (i - ds) (js_sar (cell this w i) bs)) = w'"
    using n low v(1) hi_bits [OF d, of bs] bs by (simp add: Let_def w'_def hi_def)
  have U: "uval ?b w' 0 (Suc (Suc n)) = uval ?b w 0 (Suc n) + lo * 2 ^ (DB E - bs) * ?b ^ n + hi * ?b ^ Suc n"
    by (simp add: uval_Suc w'_def uval_put_other v_def algebra_simps)
  have "2 ^ bs * (lo * 2 ^ (DB E - bs) * ?b ^ n + hi * ?b ^ Suc n) = (lo + 2 ^ bs * hi) * ?b ^ Suc n"
    using pow_split [of bs] bs by (simp add: algebra_simps)
  also have "lo + 2 ^ bs * hi = ?d" by (simp add: lo_def hi_def)
  finally have "2 ^ bs * uval ?b w' 0 (Suc (Suc n)) + get (bn_d ?x) ds mod 2 ^ bs
      = uval ?b (bn_d ?x) ds (Suc n) + ?d * ?b ^ Suc n"
    unfolding U using eq by (simp add: distrib_left)
  moreover have "uval ?b (bn_d ?x) ds (Suc (Suc n)) = uval ?b (bn_d ?x) ds (Suc n) + ?d * ?b ^ Suc n"
    using n by (simp add: uval_Suc [of _ _ _ "Suc n"])
      (metis Suc_diff_le i(1) le_add_diff_inverse2 add.commute add_Suc_right diff_is_0_eq' nat_le_linear zero_neq_one add_leE)
  moreover have "digits ?b w' 0 (Suc (Suc n))"
    using dig v hi by (auto simp: digits_def w'_def get_put)
  ultimately show ?thesis
    unfolding step rshift_inv_def using n old hi i by (auto simp: w'_def Suc_diff_le)
qed

lemma rShift_ok:
  assumes x: "dok E (obj this r)"
  shows "bn_wf E (bnpRShiftTo E this n r)" "bval E (bnpRShiftTo E this n r) = bval E (obj this r) div 2 ^ n"
    "bn_s (bnpRShiftTo E this n r) = bn_s (obj this r)"
proof -
  let ?x = "obj this r" let ?b = "base E"
  define bs ds where "bs = n mod DB E" and "ds = n div DB E"
  have bs: "bs < DB E" using DB_lower by (simp add: bs_def)
  have pow: "(2::int) ^ n = ?b ^ ds * 2 ^ bs"
    by (simp add: base_def bs_def ds_def flip: power_mult power_add)
  have s: "bn_s ?x = 0 \<or> bn_s ?x = -1" using x by (simp add: dok_def)
  have "bn_wf E (bnpRShiftTo E this n r) \<and> bval E (bnpRShiftTo E this n r) = bval E ?x div 2 ^ n
      \<and> bn_s (bnpRShiftTo E this n r) = bn_s ?x"
  proof (cases "bn_t ?x \<le> ds")
    case True
    have r: "bnpRShiftTo E this n r = r\<lparr>bn_s := bn_s ?x, bn_t := 0\<rparr>"
      using True by (simp add: bnpRShiftTo_def Let_def ds_def)
    have "bval E ?x div ?b ^ ds = bn_s ?x"
      using drShift_val [OF x, of ds] True by (simp add: bval_def)
    then have "bval E ?x div 2 ^ n = bn_s ?x"
      using s by (auto simp: pow zdiv_zmult2_eq div_eq_minus1)
    then show ?thesis using s by (simp add: r bn_wf_def dok_def clamped_def bval_def)
  next
    case False
    then have ds: "ds < bn_t ?x" by simp
    define f where "f = (\<lambda>i w. let w = put w (i - ds - 1)
               (js_or (get w (i - ds - 1)) (js_shl (js_and (cell this w i) (js_shl 1 bs - 1)) (DB E - bs)))
             in put w (i - ds) (js_sar (cell this w i) bs))"
    define w where "w = for_up (ds + 1) (bn_t ?x) f (put (bn_d r) 0 (js_sar (cell this (bn_d r) ds) bs))"
    obtain m where m: "bn_t ?x - ds = Suc m" using ds by (cases "bn_t ?x - ds") auto
    have "rshift_inv ?x (bn_d r) bs ds (bn_t ?x) w"
      unfolding w_def
    proof (rule for_up_inv [where P = "rshift_inv ?x (bn_d r) bs ds"])
      show "rshift_inv ?x (bn_d r) bs ds (ds + 1) (put (bn_d r) 0 (js_sar (cell this (bn_d r) ds) bs))"
        by (rule rshift_init [OF x bs ds])
      fix i w assume "ds + 1 \<le> i" "i < bn_t ?x" "rshift_inv ?x (bn_d r) bs ds i w"
      then show "rshift_inv ?x (bn_d r) bs ds (Suc i) (f i w)"
        using rshift_step [OF x bs] by (simp add: f_def)
    qed (use ds in simp)
    with m have dig: "digits ?b w 0 (Suc m)" and top: "get w m < 2 ^ (DB E - bs)"
      and eq: "2 ^ bs * uval ?b w 0 (Suc m) + get (bn_d ?x) ds mod 2 ^ bs = uval ?b (bn_d ?x) ds (Suc m)"
      by (auto simp: rshift_inv_def)
    have w0: "0 \<le> get w m" using dig by (auto simp: digits_def)
    define lo where "lo = (if bn_s ?x = 0 then 0 else 2 ^ bs - (1::int))"
    have lo: "0 \<le> lo" "lo < 2 ^ bs" by (auto simp: lo_def)
    have smask: "js_and (bn_s ?x) (js_shl 1 bs - 1) = lo"
      using s bs DB_upper bits_le [of bs] js_and_mask [of bs "bn_s ?x"]
      by (auto simp: lo_def js_shl_mult zmod_minus1)
    have sgn: "js_shl lo (DB E - bs) = lo * 2 ^ (DB E - bs)"
      using raise_bits(1) [of lo "DB E - bs"] lo bs by simp
    define v where "v = (if bs > 0 then put w m (js_or (get w m) (js_shl (js_and (bn_s ?x) (js_shl 1 bs - 1)) (DB E - bs))) else w)"
    have v: "get v m = get w m + lo * 2 ^ (DB E - bs)" "get v m < ?b" "0 \<le> get v m" "\<forall>k<m. get v k = get w k"
      using join_bits [OF w0 top lo(1)] lo(2) bs dig smask sgn
      by (auto simp: v_def lo_def digits_def)
    define r' where "r' = r\<lparr>bn_s := bn_s ?x, bn_d := v, bn_t := Suc m\<rparr>"
    have res: "bnpRShiftTo E this n r = bnpClamp E r'"
      using False m unfolding v_def w_def f_def r'_def bs_def ds_def
      by (simp add: bnpRShiftTo_def Let_def)
    have "digits ?b v 0 (Suc m)" using dig v by (auto simp: digits_def less_Suc_eq)
    then have dok: "dok E r'" using s by (simp add: dok_def r'_def)
    have "uval ?b v 0 m = uval ?b w 0 m" using v by (intro uval_cong) auto
    then have "2 ^ bs * uval ?b v 0 (Suc m) + get (bn_d ?x) ds mod 2 ^ bs
        = uval ?b (bn_d ?x) ds (Suc m) + 2 ^ bs * (lo * 2 ^ (DB E - bs) * ?b ^ m)"
      using v(1) eq by (simp add: uval_Suc algebra_simps)
    also have "2 ^ bs * (lo * 2 ^ (DB E - bs) * ?b ^ m) = lo * ?b ^ Suc m"
      using pow_split [of bs] bs by (simp add: algebra_simps)
    finally have "2 ^ bs * bval E r' + get (bn_d ?x) ds mod 2 ^ bs
        = uval ?b (bn_d ?x) ds (Suc m) + bn_s ?x * ?b ^ Suc m"
      using s by (auto simp: bval_def r'_def lo_def algebra_simps)
    also have "\<dots> = bval E ?x div ?b ^ ds" using bval_split [OF x, of ds] ds m by simp
    finally have "bval E r' = bval E ?x div ?b ^ ds div 2 ^ bs"
      by (metis add.commute div_mult_self2 mod_div_trivial add_0 mult.commute power_not_zero zero_neq_numeral)
    then show ?thesis
      using s wf_clamp [OF dok] unfolding res by (simp add: bval_clamp r'_def pow zdiv_zmult2_eq)
  qed
  then show "bn_wf E (bnpRShiftTo E this n r)" "bval E (bnpRShiftTo E this n r) = bval E ?x div 2 ^ n"
    "bn_s (bnpRShiftTo E this n r) = bn_s ?x" by auto
qed

end

end
