(* ===== verification/Bn_Sub.thy ===== *)
theory Bn_Sub
  imports Bn_Shift
begin

text \<open>
  Subtraction of jsbn's big integers, and the sign operations built on it. The destination may be
  the minuend or the subtrahend: every digit is read before it is overwritten.
\<close>

section \<open>Subtraction\<close>

definition bnpSubTo :: "bnproto \<Rightarrow> operand \<Rightarrow> operand \<Rightarrow> bn \<Rightarrow> bn" where
  "bnpSubTo E this a r =
     (let x = obj this r; y = obj a r;
          m = min (bn_t y) (bn_t x);
          (w, c) = for_up 0 m
             (\<lambda>i (w, c).
                let c = c + (cell this w i - cell a w i)
                in (put w i (js_and c (DM E)), js_sar c (DB E))) (bn_d r, 0);
          (w, c, i) =
            (if bn_t y < bn_t x then
               let c = c - bn_s y;
                   (w, c) = for_up m (bn_t x)
                      (\<lambda>i (w, c).
                         let c = c + cell this w i
                         in (put w i (js_and c (DM E)), js_sar c (DB E))) (w, c)
               in (w, c + bn_s x, bn_t x)
             else
               let c = c + bn_s x;
                   (w, c) = for_up m (bn_t y)
                      (\<lambda>i (w, c).
                         let c = c - cell a w i
                         in (put w i (js_and c (DM E)), js_sar c (DB E))) (w, c)
               in (w, c - bn_s y, bn_t y));
          s = (if c < 0 then -1 else 0);
          (w, i) = (if c < -1 then (put w i (DV E + c), i + 1)
                    else if c > 0 then (put w i c, i + 1) else (w, i))
      in bnpClamp E (r\<lparr>bn_d := w, bn_s := s, bn_t := i\<rparr>))"

definition bnNegate :: "bnproto \<Rightarrow> bn \<Rightarrow> bn" where
  "bnNegate E this = bnpSubTo E (Obj (bn_ZERO E)) (Obj this) nbi"

definition bnAbs :: "bnproto \<Rightarrow> bn \<Rightarrow> bn" where
  "bnAbs E this = (if bn_s this < 0 then bnNegate E this else this)"

section \<open>Subtraction is subtraction\<close>

context digit_width
begin

definition sub_inv :: "int list \<Rightarrow> int \<Rightarrow> nat \<Rightarrow> int list \<times> int \<Rightarrow> bool" where
  "sub_inv old v i st \<longleftrightarrow> (case st of (w, c) \<Rightarrow>
     -2 \<le> c \<and> c \<le> 1 \<and> (\<forall>k \<ge> i. get w k = get old k) \<and> digits (base E) w 0 i \<and>
     uval (base E) w 0 i + c * base E ^ i = v)"

text \<open>One digit: the low bits are stored, the rest is carried, and the value grows by \<open>d * B ^ i\<close>.\<close>

lemma sub_digit:
  assumes inv: "sub_inv old v i (w, c)" and d: "- base E < d" "d < base E"
  shows "sub_inv old (v + d * base E ^ i) (Suc i) (put w i (js_and (c + d) (DM E)), js_sar (c + d) (DB E))"
proof -
  let ?b = "base E"
  have c: "-2 \<le> c" "c \<le> 1" using inv by (auto simp: sub_inv_def)
  have sar: "js_sar (c + d) (DB E) = (c + d) div ?b" using c d base_num by (intro sar_DB) auto
  have "- 2 * ?b \<le> c + d" "c + d < 2 * ?b" using c d base_num by linarith+
  moreover have "(- 2 * ?b) div ?b = -2" by (rule nonzero_mult_div_cancel_right) simp
  ultimately have div: "-2 \<le> (c + d) div ?b" "(c + d) div ?b \<le> 1"
    using div_less_int [of ?b "c + d" 2] zdiv_mono1 [of "- 2 * ?b" "c + d" ?b] by auto
  have mod: "0 \<le> (c + d) mod ?b" "(c + d) mod ?b < ?b" by simp_all
  have "((c + d) mod ?b) * ?b ^ i + ((c + d) div ?b) * ?b ^ Suc i
      = ((c + d) div ?b * ?b + (c + d) mod ?b) * ?b ^ i" by (simp only: algebra_simps power_Suc)
  also have "\<dots> = (c + d) * ?b ^ i" by simp
  finally have "uval ?b (put w i ((c + d) mod ?b)) 0 (Suc i) + ((c + d) div ?b) * ?b ^ Suc i = v + d * ?b ^ i"
    using inv by (simp add: uval_Suc uval_put_other sub_inv_def algebra_simps)
  moreover have "digits ?b (put w i ((c + d) mod ?b)) 0 (Suc i)"
    using inv mod by (auto simp: sub_inv_def digits_def get_put)
  ultimately show ?thesis
    using inv div unfolding sar and_DM by (auto simp: sub_inv_def)
qed

lemma sub_loop:
  assumes "lo \<le> hi" "sub_inv old v lo st"
    and src: "\<And>i w. lo \<le> i \<Longrightarrow> i < hi \<Longrightarrow> get w i = get old i \<Longrightarrow> src w i = d i \<and> - base E < d i \<and> d i < base E"
  shows "sub_inv old (v + (\<Sum>i = lo..<hi. d i * base E ^ i)) hi
    (for_up lo hi (\<lambda>i (w, c). let c = c + src w i in (put w i (js_and c (DM E)), js_sar c (DB E))) st)"
proof (rule for_up_inv [where P = "\<lambda>i st. sub_inv old (v + (\<Sum>i = lo..<i. d i * base E ^ i)) i st"])
  fix i and st :: "int list \<times> int"
  assume i: "lo \<le> i" "i < hi" and inv: "sub_inv old (v + (\<Sum>i = lo..<i. d i * base E ^ i)) i st"
  obtain w c where st: "st = (w, c)" by (cases st)
  have "get w i = get old i" using inv by (simp add: st sub_inv_def)
  from src [OF i this] sub_digit [OF inv [unfolded st], of "d i"] i
  show "sub_inv old (v + (\<Sum>i = lo..<Suc i. d i * base E ^ i)) (Suc i)
     ((\<lambda>(w, c). let c = c + src w i in (put w i (js_and c (DM E)), js_sar c (DB E))) st)"
    by (simp add: st add.assoc Let_def)
qed (use assms in auto)

lemma uval_sum: "lo \<le> hi \<Longrightarrow> uval B xs 0 lo + (\<Sum>i = lo..<hi. get xs i * B ^ i) = uval B xs 0 hi"
proof (induction hi)
  case (Suc hi)
  then show ?case by (cases "lo = Suc hi") (auto simp: uval_Suc)
qed simp

lemma subTo_digits:
  assumes x: "dok E (obj this r)" and y: "dok E (obj a r)" and m: "m = min (bn_t (obj a r)) (bn_t (obj this r))"
  shows "sub_inv (bn_d r) (uval (base E) (bn_d (obj this r)) 0 m - uval (base E) (bn_d (obj a r)) 0 m) m
    (for_up 0 m (\<lambda>i (w, c). let c = c + (cell this w i - cell a w i)
        in (put w i (js_and c (DM E)), js_sar c (DB E))) (bn_d r, 0))"
proof -
  let ?d = "\<lambda>i. get (bn_d (obj this r)) i - get (bn_d (obj a r)) i"
  have "sub_inv (bn_d r) (0 + (\<Sum>i = 0..<m. ?d i * base E ^ i)) m
    (for_up 0 m (\<lambda>i (w, c). let c = c + (cell this w i - cell a w i)
        in (put w i (js_and c (DM E)), js_sar c (DB E))) (bn_d r, 0))"
  proof (rule sub_loop)
    fix i w assume "i < m" "get w i = get (bn_d r) i"
    then show "cell this w i - cell a w i = ?d i \<and> - base E < ?d i \<and> ?d i < base E"
      using m dok_cell [OF x, of i] dok_cell [OF y, of i] by (simp add: cell_obj)
  qed (auto simp: sub_inv_def)
  moreover have "(\<Sum>i = 0..<m. ?d i * base E ^ i)
      = uval (base E) (bn_d (obj this r)) 0 m - uval (base E) (bn_d (obj a r)) 0 m"
    using uval_sum [of 0 m "base E" "bn_d (obj this r)"] uval_sum [of 0 m "base E" "bn_d (obj a r)"]
    by (simp add: left_diff_distrib sum_subtractf)
  ultimately show ?thesis by simp
qed

text \<open>The last carry becomes the sign, with one more digit when it is not a sign by itself.\<close>

lemma sub_finish:
  assumes "digits (base E) w 0 i" "-2 \<le> c" "c \<le> 1" "uval (base E) w 0 i + c * base E ^ i = v"
    and "(w', i') = (if c < -1 then (put w i (DV E + c), i + 1)
                    else if c > 0 then (put w i c, i + 1) else (w, i))"
  shows "bn_wf E (bnpClamp E (r\<lparr>bn_d := w', bn_s := (if c < 0 then -1 else 0), bn_t := i'\<rparr>)) \<and>
    bval E (bnpClamp E (r\<lparr>bn_d := w', bn_s := (if c < 0 then -1 else 0), bn_t := i'\<rparr>)) = v"
proof -
  let ?r = "r\<lparr>bn_d := w', bn_s := (if c < 0 then -1 else 0), bn_t := i'\<rparr>"
  consider "c = -2" | "c = -1" | "c = 0" | "c = 1" using assms(2,3) by linarith
  then have "dok E ?r \<and> bval E ?r = v"
    using assms(1,4,5) base_num
    by cases (auto simp: dok_def bval_def DV_base digits_def get_put uval_Suc uval_put_other algebra_simps less_Suc_eq)
  then show ?thesis using wf_clamp [of ?r] bval_clamp [of ?r] by (simp add: dok_def)
qed

text \<open>The carry is bounded by the value it stands for.\<close>

lemma sub_carry:
  assumes "sub_inv old v i (w, c)"
  shows "v < base E ^ i \<Longrightarrow> c \<le> 0" "- (base E ^ i) \<le> v \<Longrightarrow> -1 \<le> c"
proof -
  have w: "0 \<le> uval (base E) w 0 i" "uval (base E) w 0 i < base E ^ i"
    using assms by (auto simp: sub_inv_def intro!: uval_less uval_nonneg)
  have c: "-2 \<le> c" "c \<le> 1" "uval (base E) w 0 i + c * base E ^ i = v" using assms by (auto simp: sub_inv_def)
  show "c \<le> 0" if v: "v < base E ^ i"
  proof (rule ccontr)
    assume "\<not> c \<le> 0"
    with c have "c = 1" by linarith
    with c(3) w v show False by simp
  qed
  show "-1 \<le> c" if v: "- (base E ^ i) \<le> v"
  proof (rule ccontr)
    assume "\<not> -1 \<le> c"
    with c have "c = -2" by linarith
    with c(3) w v show False by simp
  qed
qed

lemma sub_tail:
  assumes "lo \<le> hi" "sub_inv old v lo (w, c)" "-2 \<le> c + s" "c + s \<le> 1"
    and src: "\<And>i w. lo \<le> i \<Longrightarrow> i < hi \<Longrightarrow> get w i = get old i \<Longrightarrow> src w i = e * get xs i"
    and e: "e = 1 \<or> e = -1" and dig: "digits (base E) xs 0 hi"
  shows "sub_inv old (v + s * base E ^ lo + e * (uval (base E) xs 0 hi - uval (base E) xs 0 lo)) hi
    (for_up lo hi (\<lambda>i (w, c). let c = c + src w i in (put w i (js_and c (DM E)), js_sar c (DB E))) (w, c + s))"
proof -
  have "sub_inv old (v + s * base E ^ lo) lo (w, c + s)"
    using assms(2-4) by (auto simp: sub_inv_def algebra_simps)
  then have "sub_inv old (v + s * base E ^ lo + (\<Sum>i = lo..<hi. (e * get xs i) * base E ^ i)) hi
    (for_up lo hi (\<lambda>i (w, c). let c = c + src w i in (put w i (js_and c (DM E)), js_sar c (DB E))) (w, c + s))"
  proof (rule sub_loop [OF assms(1)])
    fix i w assume i: "lo \<le> i" "i < hi" "get w i = get old i"
    show "src w i = e * get xs i \<and> - base E < e * get xs i \<and> e * get xs i < base E"
      using src [OF i] digitsD [OF dig, of i] i e by auto
  qed
  moreover have "(\<Sum>i = lo..<hi. (e * get xs i) * base E ^ i)
      = e * (\<Sum>i = lo..<hi. get xs i * base E ^ i)"
    by (simp add: sum_distrib_left mult.assoc)
  moreover have "(\<Sum>i = lo..<hi. get xs i * base E ^ i) = uval (base E) xs 0 hi - uval (base E) xs 0 lo"
    using uval_sum [OF assms(1), of "base E" xs] by linarith
  ultimately show ?thesis by simp
qed

lemma subTo_tail:
  assumes x: "dok E (obj this r)" and y: "dok E (obj a r)"
    and m: "m = min (bn_t (obj a r)) (bn_t (obj this r))"
    and inv: "sub_inv (bn_d r) (uval (base E) (bn_d (obj this r)) 0 m - uval (base E) (bn_d (obj a r)) 0 m) m (w, c)"
    and res: "(if bn_t (obj a r) < bn_t (obj this r) then
               let c = c - bn_s (obj a r);
                   (w, c) = for_up m (bn_t (obj this r))
                      (\<lambda>i (w, c). let c = c + cell this w i
                         in (put w i (js_and c (DM E)), js_sar c (DB E))) (w, c)
               in (w, c + bn_s (obj this r), bn_t (obj this r))
             else
               let c = c + bn_s (obj this r);
                   (w, c) = for_up m (bn_t (obj a r))
                      (\<lambda>i (w, c). let c = c - cell a w i
                         in (put w i (js_and c (DM E)), js_sar c (DB E))) (w, c)
               in (w, c - bn_s (obj a r), bn_t (obj a r))) = (w', c', i)"
  shows "-2 \<le> c' \<and> c' \<le> 1 \<and> digits (base E) w' 0 i \<and>
      uval (base E) w' 0 i + c' * base E ^ i = bval E (obj this r) - bval E (obj a r) \<and>
      i = max (bn_t (obj this r)) (bn_t (obj a r)) \<and> (\<forall>k \<ge> i. get w' k = get (bn_d r) k)"
proof -
  let ?x = "obj this r" let ?y = "obj a r" let ?b = "base E"
  let ?v = "uval ?b (bn_d ?x) 0 m - uval ?b (bn_d ?y) 0 m"
  have sx: "bn_s ?x = 0 \<or> bn_s ?x = -1" and sy: "bn_s ?y = 0 \<or> bn_s ?y = -1"
    using x y by (auto simp: dok_def)
  have Xm: "0 \<le> uval ?b (bn_d ?x) 0 m" "uval ?b (bn_d ?x) 0 m < ?b ^ m"
    and Ym: "0 \<le> uval ?b (bn_d ?y) 0 m" "uval ?b (bn_d ?y) 0 m < ?b ^ m"
    using m digits_sub [OF dokD(1) [OF x], of 0 m] digits_sub [OF dokD(1) [OF y], of 0 m]
    by (auto intro!: uval_less uval_nonneg)
  have c: "c \<le> 0" "-1 \<le> c" using sub_carry [OF inv] Xm Ym by auto
  show ?thesis
  proof (cases "bn_t ?y < bn_t ?x")
    case True
    then have m: "m = bn_t ?y" using m by simp
    define f where "f = (\<lambda>i (w, c). let c = c + cell this w i
        in (put w i (js_and c (DM E)), js_sar c (DB E)))"
    obtain w2 c2 where st: "for_up m (bn_t ?x) f (w, c + (- bn_s ?y)) = (w2, c2)" by fastforce
    have inv2: "sub_inv (bn_d r) (?v + (- bn_s ?y) * ?b ^ m
        + 1 * (uval ?b (bn_d ?x) 0 (bn_t ?x) - uval ?b (bn_d ?x) 0 m)) (bn_t ?x) (w2, c2)"
      unfolding st [symmetric] f_def using True m c sy dokD(1) [OF x]
      by (intro sub_tail [OF _ inv]) (auto simp: cell_obj)
    have v: "?v + (- bn_s ?y) * ?b ^ m + 1 * (uval ?b (bn_d ?x) 0 (bn_t ?x) - uval ?b (bn_d ?x) 0 m)
        = bval E ?x - bval E ?y - bn_s ?x * ?b ^ bn_t ?x" using m by (simp add: bval_def)
    have "?b ^ m \<le> ?b ^ bn_t ?x" using True m base_num by (intro power_increasing) auto
    then have "- (?b ^ bn_t ?x) \<le> ?v + (- bn_s ?y) * ?b ^ m
        + 1 * (uval ?b (bn_d ?x) 0 (bn_t ?x) - uval ?b (bn_d ?x) 0 m)"
      using dok_uval [OF x] Ym sy by auto
    then have "-1 \<le> c2" by (rule sub_carry(2) [OF inv2])
    moreover have "w' = w2" "c' = c2 + bn_s ?x" "i = bn_t ?x"
      using res True st by (simp_all add: f_def)
    ultimately show ?thesis
      using inv2 v sx True by (auto simp: sub_inv_def algebra_simps)
  next
    case False
    then have m: "m = bn_t ?x" using m by simp
    define f where "f = (\<lambda>i (w, c). let c = c + - cell a w i
        in (put w i (js_and c (DM E)), js_sar c (DB E)))"
    obtain w2 c2 where st: "for_up m (bn_t ?y) f (w, c + bn_s ?x) = (w2, c2)" by fastforce
    have inv2: "sub_inv (bn_d r) (?v + bn_s ?x * ?b ^ m
        + (-1) * (uval ?b (bn_d ?y) 0 (bn_t ?y) - uval ?b (bn_d ?y) 0 m)) (bn_t ?y) (w2, c2)"
      unfolding st [symmetric] f_def using False m c sx dokD(1) [OF y]
      by (intro sub_tail [OF _ inv]) (auto simp: cell_obj)
    have v: "?v + bn_s ?x * ?b ^ m + (-1) * (uval ?b (bn_d ?y) 0 (bn_t ?y) - uval ?b (bn_d ?y) 0 m)
        = bval E ?x - bval E ?y + bn_s ?y * ?b ^ bn_t ?y" using m by (simp add: bval_def)
    have "?b ^ m \<le> ?b ^ bn_t ?y" using False m base_num by (intro power_increasing) auto
    then have "?v + bn_s ?x * ?b ^ m + (-1) * (uval ?b (bn_d ?y) 0 (bn_t ?y) - uval ?b (bn_d ?y) 0 m)
        < ?b ^ bn_t ?y"
      using dok_uval [OF y] Xm sx m by auto
    then have "c2 \<le> 0" by (rule sub_carry(1) [OF inv2])
    moreover have "w' = w2" "c' = c2 - bn_s ?y" "i = bn_t ?y"
      using res False st by (simp_all add: f_def)
    ultimately show ?thesis
      using inv2 v sy False by (auto simp: sub_inv_def algebra_simps)
  qed
qed

lemma subTo_raw:
  assumes x: "dok E (obj this r)" and y: "dok E (obj a r)"
  obtains w c i w2 i2 where "-2 \<le> c" "c \<le> 1" "digits (base E) w 0 i"
    "uval (base E) w 0 i + c * base E ^ i = bval E (obj this r) - bval E (obj a r)"
    "i = max (bn_t (obj this r)) (bn_t (obj a r))" "\<And>k. i \<le> k \<Longrightarrow> get w k = get (bn_d r) k"
    "(w2, i2) = (if c < -1 then (put w i (DV E + c), i + 1) else if c > 0 then (put w i c, i + 1) else (w, i))"
    "bnpSubTo E this a r = bnpClamp E (r\<lparr>bn_d := w2, bn_s := (if c < 0 then -1 else 0), bn_t := i2\<rparr>)"
proof -
  let ?x = "obj this r" let ?y = "obj a r"
  define m where "m = min (bn_t ?y) (bn_t ?x)"
  obtain w c where st: "for_up 0 m (\<lambda>i (w, c). let c = c + (cell this w i - cell a w i)
      in (put w i (js_and c (DM E)), js_sar c (DB E))) (bn_d r, 0) = (w, c)" by fastforce
  have inv: "sub_inv (bn_d r) (uval (base E) (bn_d ?x) 0 m - uval (base E) (bn_d ?y) 0 m) m (w, c)"
    using subTo_digits [OF x y m_def] by (simp add: st)
  obtain w' c' i where tail: "(if bn_t ?y < bn_t ?x then
               let c = c - bn_s ?y;
                   (w, c) = for_up m (bn_t ?x)
                      (\<lambda>i (w, c). let c = c + cell this w i
                         in (put w i (js_and c (DM E)), js_sar c (DB E))) (w, c)
               in (w, c + bn_s ?x, bn_t ?x)
             else
               let c = c + bn_s ?x;
                   (w, c) = for_up m (bn_t ?y)
                      (\<lambda>i (w, c). let c = c - cell a w i
                         in (put w i (js_and c (DM E)), js_sar c (DB E))) (w, c)
               in (w, c - bn_s ?y, bn_t ?y)) = (w', c', i)" by (rule prod_cases3)
  note fin = subTo_tail [OF x y m_def inv tail]
  obtain w2 i2 where last: "(w2, i2) = (if c' < -1 then (put w' i (DV E + c'), i + 1)
                    else if c' > 0 then (put w' i c', i + 1) else (w', i))" by (metis surj_pair)
  have "bnpSubTo E this a r = bnpClamp E (r\<lparr>bn_d := w2, bn_s := (if c' < 0 then -1 else 0), bn_t := i2\<rparr>)"
    unfolding bnpSubTo_def Let_def m_def [symmetric] st [unfolded Let_def] prod.case
      tail [unfolded Let_def] last [symmetric] ..
  then show thesis using fin last by (intro that) auto
qed

lemma subTo_ok:
  assumes x: "dok E (obj this r)" and y: "dok E (obj a r)"
  shows "bn_wf E (bnpSubTo E this a r)" "bval E (bnpSubTo E this a r) = bval E (obj this r) - bval E (obj a r)"
  by (rule subTo_raw [OF x y]; use sub_finish in auto)+

text \<open>
  A difference that is not negative: all digits up to the longer operand are written, those the
  clamping removes are 0, and no digit above is touched.
\<close>

lemma subTo_cells:
  assumes x: "dok E (obj this r)" and y: "dok E (obj a r)"
    and nn: "0 \<le> bval E (obj this r) - bval E (obj a r)"
    and lt: "bval E (obj this r) - bval E (obj a r) < base E ^ max (bn_t (obj this r)) (bn_t (obj a r))"
  defines "M \<equiv> max (bn_t (obj this r)) (bn_t (obj a r))" and "r' \<equiv> bnpSubTo E this a r"
  shows "bn_s r' = 0" "digits (base E) (bn_d r') 0 M"
    "uval (base E) (bn_d r') 0 M = bval E (obj this r) - bval E (obj a r)"
    "bn_t r' \<le> M" "\<And>k. bn_t r' \<le> k \<Longrightarrow> k < M \<Longrightarrow> get (bn_d r') k = 0"
    "\<And>k. M \<le> k \<Longrightarrow> get (bn_d r') k = get (bn_d r) k"
proof -
  obtain w c i w2 i2 where *: "digits (base E) w 0 i"
    "uval (base E) w 0 i + c * base E ^ i = bval E (obj this r) - bval E (obj a r)"
    "i = max (bn_t (obj this r)) (bn_t (obj a r))" "\<And>k. i \<le> k \<Longrightarrow> get w k = get (bn_d r) k"
    "(w2, i2) = (if c < -1 then (put w i (DV E + c), i + 1) else if c > 0 then (put w i c, i + 1) else (w, i))"
    "bnpSubTo E this a r = bnpClamp E (r\<lparr>bn_d := w2, bn_s := (if c < 0 then -1 else 0), bn_t := i2\<rparr>)"
    by (rule subTo_raw [OF x y]) blast
  have "0 \<le> uval (base E) w 0 i" "uval (base E) w 0 i < base E ^ i"
    using *(1) by (auto intro: uval_nonneg uval_less)
  then have "c * base E ^ i < 1 * base E ^ i" "(-1) * base E ^ i < c * base E ^ i"
    using nn lt *(2) unfolding *(3) by linarith+
  moreover have "0 < base E ^ i" by simp
  ultimately have "c < 1" "-1 < c" by (simp_all only: mult_less_cancel_right_pos)
  then have "c = 0" by simp
  define r0 where "r0 = r\<lparr>bn_d := w, bn_s := 0, bn_t := i\<rparr>"
  have r': "r' = bnpClamp E r0" using *(5,6) \<open>c = 0\<close> by (simp add: r'_def r0_def)
  have M: "M = i" using *(3) by (simp add: M_def)
  show "bn_s r' = 0" "digits (base E) (bn_d r') 0 M"
    "uval (base E) (bn_d r') 0 M = bval E (obj this r) - bval E (obj a r)"
    "\<And>k. M \<le> k \<Longrightarrow> get (bn_d r') k = get (bn_d r) k"
    using *(1,2,4) \<open>c = 0\<close> unfolding r' M by (simp_all add: r0_def)
  show "bn_t r' \<le> M" using clamp_t_parts [of r0] unfolding r' M by (simp add: r0_def)
  show "\<And>k. bn_t r' \<le> k \<Longrightarrow> k < M \<Longrightarrow> get (bn_d r') k = 0"
    using clamp_cut [of r0] unfolding r' M by (simp add: r0_def)
qed

lemma negate_ok:
  "dok E x \<Longrightarrow> bn_wf E (bnNegate E x)" "dok E x \<Longrightarrow> bval E (bnNegate E x) = - bval E x"
  using subTo_ok [of "Obj (bn_ZERO E)" nbi "Obj x"] by (simp_all add: bnNegate_def bn_wfD)

lemma abs_ok:
  assumes "bn_wf E x"
  shows "bn_wf E (bnAbs E x)" "bval E (bnAbs E x) = \<bar>bval E x\<bar>" "bn_s (bnAbs E x) = 0"
proof -
  have d: "dok E x" using assms by (simp add: bn_wf_def)
  show w: "bn_wf E (bnAbs E x)" and v: "bval E (bnAbs E x) = \<bar>bval E x\<bar>"
    using assms negate_ok [OF d] bval_nonneg_iff [OF d] dokD(2) [OF d] by (auto simp: bnAbs_def)
  show "bn_s (bnAbs E x) = 0" using v bval_nonneg_iff [OF bn_wfD(1) [OF w]] by simp
qed

end

end
