(* ===== verification/Bn_Mul.thy ===== *)
theory Bn_Mul
  imports Bn_Sub
begin

text \<open>
  Multiplication by the three multiply-accumulate routines of jsbn (\<open>am1\<close>, \<open>am2\<close>,
  \<open>am3\<close>), of which one is chosen by the browser together with the width of a digit. The
  routines split their operands into halves so that every product fits a double or a 32-bit
  integer; all three equal the plain routine \<open>am_ref\<close> on the range of values they are called
  with, which is the interface \<open>digit_engine\<close> the rest of the library relies on.
\<close>

section \<open>Multiply and accumulate\<close>

fun am1 :: "int list \<Rightarrow> nat \<Rightarrow> int \<Rightarrow> int list \<Rightarrow> nat \<Rightarrow> int \<Rightarrow> nat \<Rightarrow> int list \<times> int" where
  "am1 this i x w j c 0 = (w, c)"
| "am1 this i x w j c (Suc n) =
     (let v = x * get this i + get w j + c;
          c = v div 0x4000000;
          w = put w j (js_and v 0x3ffffff)
      in am1 this (i + 1) x w (j + 1) c n)"

fun am2 :: "int list \<Rightarrow> nat \<Rightarrow> int \<Rightarrow> int list \<Rightarrow> nat \<Rightarrow> int \<Rightarrow> nat \<Rightarrow> int list \<times> int" where
  "am2 this i x w j c 0 = (w, c)"
| "am2 this i x w j c (Suc n) =
     (let xl = js_and x 0x7fff; xh = js_sar x 15;
          l = js_and (get this i) 0x7fff;
          h = js_sar (get this i) 15;
          m = xh * l + h * xl;
          l = xl * l + js_shl (js_and m 0x7fff) 15 + get w j + js_and c 0x3fffffff;
          c = js_shr l 30 + js_shr m 15 + xh * h + js_shr c 30;
          w = put w j (js_and l 0x3fffffff)
      in am2 this (i + 1) x w (j + 1) c n)"

fun am3 :: "int list \<Rightarrow> nat \<Rightarrow> int \<Rightarrow> int list \<Rightarrow> nat \<Rightarrow> int \<Rightarrow> nat \<Rightarrow> int list \<times> int" where
  "am3 this i x w j c 0 = (w, c)"
| "am3 this i x w j c (Suc n) =
     (let xl = js_and x 0x3fff; xh = js_sar x 14;
          l = js_and (get this i) 0x3fff;
          h = js_sar (get this i) 14;
          m = xh * l + h * xl;
          l = xl * l + js_shl (js_and m 0x3fff) 14 + get w j + c;
          c = js_sar l 28 + js_sar m 14 + xh * h;
          w = put w j (js_and l 0xfffffff)
      in am3 this (i + 1) x w (j + 1) c n)"

text \<open>The engine is chosen when the library is loaded.\<close>

definition j_lm :: bool where
  "j_lm \<longleftrightarrow> js_and 0xdeadbeefcafe 0xffffff = 0xefcafe"

definition bn_prototype :: "string \<Rightarrow> bnproto" where
  "bn_prototype appName =
     (if j_lm \<and> appName = ''Microsoft Internet Explorer'' then \<lparr>am = am2, DB = 30\<rparr>
      else if j_lm \<and> appName \<noteq> ''Netscape'' then \<lparr>am = am1, DB = 26\<rparr>
      else \<lparr>am = am3, DB = 28\<rparr>)"

section \<open>Multiplication\<close>

definition bnpMultiplyTo :: "bnproto \<Rightarrow> bn \<Rightarrow> bn \<Rightarrow> bn \<Rightarrow> bn" where
  "bnpMultiplyTo E this a r =
     (let x = bnAbs E this; y = bnAbs E a;
          w = for_down 0 (bn_t x) (\<lambda>i w. put w i 0) (bn_d r);
          w = for_up 0 (bn_t y)
                (\<lambda>i w.
                   let (w, c) = am E (bn_d x) 0 (get (bn_d y) i) w i 0 (bn_t x)
                   in put w (i + bn_t x) c) w;
          r = bnpClamp E (r\<lparr>bn_d := w, bn_t := bn_t x + bn_t y, bn_s := 0\<rparr>)
      in if bn_s this \<noteq> bn_s a then bnpSubTo E (Obj (bn_ZERO E)) Self r else r)"

definition bnpSquareTo :: "bnproto \<Rightarrow> bn \<Rightarrow> bn \<Rightarrow> bn" where
  "bnpSquareTo E this r =
     (let x = bnAbs E this; t = bn_t x;
          w = for_down 0 (2 * t) (\<lambda>i w. put w i 0) (bn_d r);
          w = for_up 0 (t - 1)
                (\<lambda>i w.
                   let (w, c) = am E (bn_d x) i (get (bn_d x) i) w (2 * i) 0 1;
                       old = get w (i + t);
                       (w, c) = am E (bn_d x) (i + 1) (2 * get (bn_d x) i) w (2 * i + 1) c (t - i - 1);
                       w = put w (i + t) (old + c)
                   in if get w (i + t) \<ge> DV E
                      then put (put w (i + t) (get w (i + t) - DV E)) (i + t + 1) 1
                      else w) w;
          w = (if 2 * t > 0
               then let old = get w (2 * t - 1);
                        (w, c) = am E (bn_d x) (t - 1) (get (bn_d x) (t - 1)) w (2 * (t - 1)) 0 1
                    in put w (2 * t - 1) (old + c)
               else w)
      in bnpClamp E (r\<lparr>bn_d := w, bn_t := 2 * t, bn_s := 0\<rparr>))"

section \<open>The reference routine and its contract\<close>

fun am_ref :: "int \<Rightarrow> int list \<Rightarrow> nat \<Rightarrow> int \<Rightarrow> int list \<Rightarrow> nat \<Rightarrow> int \<Rightarrow> nat \<Rightarrow> int list \<times> int" where
  "am_ref B this i x w j c 0 = (w, c)"
| "am_ref B this i x w j c (Suc n) =
     (let v = x * get this i + get w j + c
      in am_ref B this (i + 1) x (put w j (v mod B)) (j + 1) (v div B) n)"

lemma am_ref_spec:
  assumes "am_ref B this i x w j c n = (w', c')" "0 < B" "0 \<le> x" "0 \<le> c"
    and "digits B this i n" "digits B w j n"
  shows "uval B w' j n + c' * B ^ n = uval B w j n + x * uval B this i n + c \<and> 0 \<le> c' \<and>
    digits B w' j n \<and> (\<forall>k. k < j \<or> j + n \<le> k \<longrightarrow> get w' k = get w k)"
  using assms
proof (induction n arbitrary: i w j c)
  case (Suc n)
  define v where "v = x * get this i + get w j + c"
  have v: "0 \<le> v" using Suc.prems digitsD(1) [of B this i "Suc n" i] digitsD(1) [of B w j "Suc n" j]
    by (simp add: v_def)
  let ?w = "put w j (v mod B)"
  have rec: "am_ref B this (Suc i) x ?w (Suc j) (v div B) n = (w', c')"
    using Suc.prems(1) by (simp add: Let_def v_def)
  have dt: "digits B this (Suc i) n" using Suc.prems(5) by (auto intro: digits_sub)
  have dw: "digits B ?w (Suc j) n" using Suc.prems(6) by (auto simp: digits_def)
  have IH: "uval B w' (Suc j) n + c' * B ^ n = uval B ?w (Suc j) n + x * uval B this (Suc i) n + v div B"
    "0 \<le> c'" "digits B w' (Suc j) n" "\<forall>k. k < Suc j \<or> Suc j + n \<le> k \<longrightarrow> get w' k = get ?w k"
    using Suc.IH [OF rec Suc.prems(2,3) _ dt dw] v Suc.prems(2) by (auto simp: pos_imp_zdiv_nonneg_iff)
  have wj: "get w' j = v mod B" using IH(4) by simp
  have dw': "digits B w' j (Suc n)"
  proof (rule digitsI)
    fix k assume "j \<le> k" "k < j + Suc n"
    then show "0 \<le> get w' k \<and> get w' k < B"
      using wj Suc.prems(2) digitsD [OF IH(3), of k] by (cases "k = j") auto
  qed
  have "uval B w' j (Suc n) + c' * B ^ Suc n = v mod B + B * (uval B w' (Suc j) n + c' * B ^ n)"
    by (simp add: uval_step wj algebra_simps)
  also have "\<dots> = v + B * (uval B w (Suc j) n + x * uval B this (Suc i) n)"
    unfolding IH(1) using mod_mult_div_eq [of v B] by (simp add: uval_put_other algebra_simps)
  also have "\<dots> = uval B w j (Suc n) + x * uval B this i (Suc n) + c"
    by (simp add: uval_step v_def algebra_simps)
  finally show ?case
    using IH(2,4) dw' by auto
qed simp

text \<open>
  Two routines agree when they agree on each digit and the carry stays in range; the carry of
  operands \<open>x < 2 * B\<close> and \<open>c < 3 * B\<close> is at most \<open>2 * B\<close>.
\<close>

lemma carry_bound:
  fixes B x d w c :: int
  assumes "0 < B" "0 \<le> x" "x < 2 * B" "0 \<le> d" "d < B" "0 \<le> w" "w < B" "0 \<le> c" "c < 3 * B"
  shows "0 \<le> x * d + w + c" "(x * d + w + c) div B < 3 * B" "0 \<le> (x * d + w + c) div B"
    "x * d + w + c < 2 * B * B + B"
proof -
  show nn: "0 \<le> x * d + w + c" using assms by simp
  have "x * d \<le> (2 * B - 1) * (B - 1)" using assms by (intro mult_mono) auto
  then show lt: "x * d + w + c < 2 * B * B + B" using assms by (simp add: algebra_simps)
  have "1 * B \<le> B * B" using assms by (intro mult_right_mono) auto
  with lt have "x * d + w + c < 3 * B * B" by (simp add: algebra_simps)
  then show "(x * d + w + c) div B < 3 * B" using assms by (intro div_less_int) auto
  show "0 \<le> (x * d + w + c) div B" using nn assms by (simp add: pos_imp_zdiv_nonneg_iff)
qed

locale digit_engine = digit_width +
  assumes am_reference:
    "0 \<le> x \<Longrightarrow> x < 2 * base E \<Longrightarrow> 0 \<le> c \<Longrightarrow> c < 3 * base E \<Longrightarrow>
     digits (base E) this i n \<Longrightarrow> digits (base E) w j n \<Longrightarrow>
     am E this i x w j c n = am_ref (base E) this i x w j c n"
begin

text \<open>The contract of \<open>am\<close>: it adds \<open>x\<close> times the digits of \<open>this\<close> and the carry.\<close>

lemma am_ok:
  assumes "0 \<le> x" "x < 2 * base E" "0 \<le> c" "c < 3 * base E"
    and "digits (base E) this i n" "digits (base E) w j n"
  obtains w' c' where "am E this i x w j c n = (w', c')" "0 \<le> c'" "digits (base E) w' j n"
    "uval (base E) w' j n + c' * base E ^ n = uval (base E) w j n + x * uval (base E) this i n + c"
    "\<And>k. k < j \<or> j + n \<le> k \<Longrightarrow> get w' k = get w k"
proof -
  obtain w' c' where "am E this i x w j c n = (w', c')" by fastforce
  moreover from this have "am_ref (base E) this i x w j c n = (w', c')"
    using am_reference [OF assms] by simp
  ultimately show thesis using am_ref_spec [OF _ base_pos(1) assms(1,3,5,6)] that by blast
qed

end

section \<open>The three routines\<close>

lemma am1_step:
  fixes x d w c :: int
  assumes "0 \<le> x * d + w + c"
  shows "(x * d + w + c) div 0x4000000 = (x * d + w + c) div 2 ^ 26"
    "js_and (x * d + w + c) 0x3ffffff = (x * d + w + c) mod 2 ^ 26"
  using js_and_mask [of 26 "x * d + w + c"] by simp_all

lemma am1_ref:
  "0 \<le> x \<Longrightarrow> x < 2 * 2 ^ 26 \<Longrightarrow> 0 \<le> c \<Longrightarrow> c < 3 * 2 ^ 26 \<Longrightarrow> digits (2 ^ 26) this i n \<Longrightarrow> digits (2 ^ 26) w j n \<Longrightarrow>
   am1 this i x w j c n = am_ref (2 ^ 26) this i x w j c n"
proof (induction n arbitrary: i w j c)
  case (Suc n)
  let ?v = "x * get this i + get w j + c"
  have d: "0 \<le> get this i" "get this i < 2 ^ 26" "0 \<le> get w j" "get w j < 2 ^ 26"
    using Suc.prems(5,6) by (auto simp: digits_def)
  have pos: "(0::int) < 2 ^ 26" by simp
  note b = carry_bound [OF pos Suc.prems(1,2) d Suc.prems(3,4)]
  have "digits (2 ^ 26) (put w j (?v mod 2 ^ 26)) (Suc j) n" using Suc.prems(6) by (auto simp: digits_def)
  moreover have "digits (2 ^ 26) this (Suc i) n" using Suc.prems(5) by (auto simp: digits_def)
  ultimately have "am1 this (Suc i) x (put w j (?v mod 2 ^ 26)) (Suc j) (?v div 2 ^ 26) n
      = am_ref (2 ^ 26) this (Suc i) x (put w j (?v mod 2 ^ 26)) (Suc j) (?v div 2 ^ 26) n"
    by (intro Suc.IH Suc.prems(1,2) b(2,3))
  then show ?case unfolding am1.simps am_ref.simps Let_def am1_step [OF b(1)] by simp
qed simp

lemma split_halves:
  fixes x d :: int
  shows "x * d = (x mod 2 ^ k) * (d mod 2 ^ k)
    + ((x div 2 ^ k) * (d mod 2 ^ k) + (d div 2 ^ k) * (x mod 2 ^ k)) * 2 ^ k
    + (x div 2 ^ k) * (d div 2 ^ k) * (2 ^ k * 2 ^ k)"
proof -
  have "x * d = (x div 2 ^ k * 2 ^ k + x mod 2 ^ k) * (d div 2 ^ k * 2 ^ k + d mod 2 ^ k)"
    by (simp add: div_mult_mod_eq)
  then show ?thesis by (simp only: algebra_simps)
qed

text \<open>
  Assembling the result of one digit from the halves: \<open>a\<close> is the low product, \<open>m\<close> the mixed
  one, \<open>h\<close> the high one.
\<close>

lemma assemble_halves:
  fixes a m h w :: int
  assumes "v = a + m * 2 ^ k + h * (2 ^ k * 2 ^ k) + w" and "l = a + (m mod 2 ^ k) * 2 ^ k + w"
    and "B = 2 ^ k * 2 ^ k"
  shows "l div B + m div 2 ^ k + h = v div B" "l mod B = v mod B"
proof -
  have "m * 2 ^ k = (m mod 2 ^ k) * 2 ^ k + (m div 2 ^ k) * B"
    using div_mult_mod_eq [of m "2 ^ k"] unfolding assms(3) by (metis distrib_right mult.assoc add.commute)
  then have v: "v = l + (m div 2 ^ k + h) * B" using assms by (simp add: algebra_simps)
  have "B \<noteq> 0" using assms(3) by simp
  then show "l div B + m div 2 ^ k + h = v div B" "l mod B = v mod B" by (simp_all add: v)
qed

lemma half_bounds:
  fixes d :: int
  assumes "0 \<le> d" "d < q * 2 ^ k"
  shows "0 \<le> d mod 2 ^ k" "d mod 2 ^ k \<le> 2 ^ k - 1" "0 \<le> d div 2 ^ k" "d div 2 ^ k \<le> q - 1"
  using assms div_less_int [of "2 ^ k" d q] by (auto simp: pos_imp_zdiv_nonneg_iff)

lemma mul_bound: "0 \<le> a \<Longrightarrow> a \<le> p \<Longrightarrow> 0 \<le> b \<Longrightarrow> b \<le> q \<Longrightarrow> 0 \<le> a * b \<and> a * b \<le> p * (q::int)"
  by (auto intro: mult_mono)

lemma am3_step:
  fixes x d w c :: int
  assumes "0 \<le> x" "x < 2 * 2 ^ 28" "0 \<le> d" "d < 2 ^ 28" "0 \<le> w" "w < 2 ^ 28" "0 \<le> c" "c < 3 * 2 ^ 28"
    and "xl = js_and x 0x3fff" "xh = js_sar x 14" "l = js_and d 0x3fff" "h = js_sar d 14"
    and "m = xh * l + h * xl" "l' = xl * l + js_shl (js_and m 0x3fff) 14 + w + c"
  shows "js_sar l' 28 + js_sar m 14 + xh * h = (x * d + w + c) div 2 ^ 28"
    "js_and l' 0xfffffff = (x * d + w + c) mod 2 ^ 28"
proof -
  have xl: "xl = x mod 2 ^ 14" and l: "l = d mod 2 ^ 14" and mm: "js_and m 0x3fff = m mod 2 ^ 14"
    using js_and_mask [of 14] assms(9,11) by simp_all
  have xh: "xh = x div 2 ^ 14" and h: "h = d div 2 ^ 14"
    using assms by (simp_all add: js_sar_div)
  have bx: "0 \<le> xl" "xl \<le> 16383" "0 \<le> xh" "xh \<le> 32767"
    using half_bounds [of x 32768 14] assms(1,2) by (simp_all add: xl xh)
  have bd: "0 \<le> l" "l \<le> 16383" "0 \<le> h" "h \<le> 16383"
    using half_bounds [of d 16384 14] assms(3,4) by (simp_all add: l h)
  have a: "0 \<le> xl * l" "xl * l \<le> 16383 * 16383" using mul_bound [OF bx(1,2) bd(1,2)] by auto
  have "0 \<le> xh * l" "xh * l \<le> 32767 * 16383" using mul_bound [OF bx(3,4) bd(1,2)] by auto
  moreover have "0 \<le> h * xl" "h * xl \<le> 16383 * 16383" using mul_bound [OF bd(3,4) bx(1,2)] by auto
  ultimately have m: "0 \<le> m" "m < 2 ^ 31" unfolding assms(13) by simp_all
  have mlo: "0 \<le> m mod 2 ^ 14" "m mod 2 ^ 14 < 2 ^ 14" by simp_all
  have shl: "js_shl (js_and m 0x3fff) 14 = (m mod 2 ^ 14) * 2 ^ 14"
    unfolding mm using mlo by (intro js_shl_mult) auto
  have l': "0 \<le> l'" "l' < 2 ^ 31" "l' = xl * l + (m mod 2 ^ 14) * 2 ^ 14 + (w + c)"
    using a mlo assms(5-8) unfolding assms(14) shl by simp_all
  have v: "x * d + w + c = xl * l + m * 2 ^ 14 + (xh * h) * (2 ^ 14 * 2 ^ 14) + (w + c)"
    using split_halves [of x d 14] by (simp add: xl l xh h assms(13) algebra_simps)
  note asm = assemble_halves [OF v l'(3), of "2 ^ 28"]
  have "js_sar l' 28 = l' div 2 ^ 28" "js_sar m 14 = m div 2 ^ 14"
    using l' m by (simp_all add: js_sar_div)
  then show "js_sar l' 28 + js_sar m 14 + xh * h = (x * d + w + c) div 2 ^ 28" using asm(1) by simp
  show "js_and l' 0xfffffff = (x * d + w + c) mod 2 ^ 28"
    using asm(2) js_and_mask [of 28 l'] by simp
qed

lemma am3_ref:
  "0 \<le> x \<Longrightarrow> x < 2 * 2 ^ 28 \<Longrightarrow> 0 \<le> c \<Longrightarrow> c < 3 * 2 ^ 28 \<Longrightarrow> digits (2 ^ 28) this i n \<Longrightarrow> digits (2 ^ 28) w j n \<Longrightarrow>
   am3 this i x w j c n = am_ref (2 ^ 28) this i x w j c n"
proof (induction n arbitrary: i w j c)
  case (Suc n)
  let ?v = "x * get this i + get w j + c"
  have d: "0 \<le> get this i" "get this i < 2 ^ 28" "0 \<le> get w j" "get w j < 2 ^ 28"
    using Suc.prems(5,6) by (auto simp: digits_def)
  have pos: "(0::int) < 2 ^ 28" by simp
  note b = carry_bound [OF pos Suc.prems(1,2) d Suc.prems(3,4)]
  have "digits (2 ^ 28) (put w j (?v mod 2 ^ 28)) (Suc j) n" using Suc.prems(6) by (auto simp: digits_def)
  moreover have "digits (2 ^ 28) this (Suc i) n" using Suc.prems(5) by (auto simp: digits_def)
  ultimately have "am3 this (Suc i) x (put w j (?v mod 2 ^ 28)) (Suc j) (?v div 2 ^ 28) n
      = am_ref (2 ^ 28) this (Suc i) x (put w j (?v mod 2 ^ 28)) (Suc j) (?v div 2 ^ 28) n"
    by (intro Suc.IH Suc.prems(1,2) b(2,3))
  then show ?case
    unfolding am3.simps am_ref.simps Let_def
      am3_step [OF Suc.prems(1,2) d Suc.prems(3,4) refl refl refl refl refl refl] by simp
qed simp

lemma am2_step:
  fixes x d w c :: int
  assumes "0 \<le> x" "x < 2 * 2 ^ 30" "0 \<le> d" "d < 2 ^ 30" "0 \<le> w" "w < 2 ^ 30" "0 \<le> c" "c < 3 * 2 ^ 30"
    and "xl = js_and x 0x7fff" "xh = js_sar x 15" "l = js_and d 0x7fff" "h = js_sar d 15"
    and "m = xh * l + h * xl" "l' = xl * l + js_shl (js_and m 0x7fff) 15 + w + js_and c 0x3fffffff"
  shows "js_shr l' 30 + js_shr m 15 + xh * h + js_shr c 30 = (x * d + w + c) div 2 ^ 30"
    "js_and l' 0x3fffffff = (x * d + w + c) mod 2 ^ 30"
proof -
  have xl: "xl = x mod 2 ^ 15" and l: "l = d mod 2 ^ 15" and mm: "js_and m 0x7fff = m mod 2 ^ 15"
    and cc: "js_and c 0x3fffffff = c mod 2 ^ 30"
    using js_and_mask [of 15] js_and_mask [of 30 c] assms(9,11) by simp_all
  have xh: "xh = x div 2 ^ 15" and h: "h = d div 2 ^ 15"
    using assms by (simp_all add: js_sar_div)
  have bx: "0 \<le> xl" "xl \<le> 32767" "0 \<le> xh" "xh \<le> 65535"
    using half_bounds [of x 65536 15] assms(1,2) by (simp_all add: xl xh)
  have bd: "0 \<le> l" "l \<le> 32767" "0 \<le> h" "h \<le> 32767"
    using half_bounds [of d 32768 15] assms(3,4) by (simp_all add: l h)
  have a: "0 \<le> xl * l" "xl * l \<le> 32767 * 32767" using mul_bound [OF bx(1,2) bd(1,2)] by auto
  have "0 \<le> xh * l" "xh * l \<le> 65535 * 32767" using mul_bound [OF bx(3,4) bd(1,2)] by auto
  moreover have "0 \<le> h * xl" "h * xl \<le> 32767 * 32767" using mul_bound [OF bd(3,4) bx(1,2)] by auto
  ultimately have m: "0 \<le> m" "m < 2 ^ 32" unfolding assms(13) by simp_all
  have mlo: "0 \<le> m mod 2 ^ 15" "m mod 2 ^ 15 < 2 ^ 15" by simp_all
  have shl: "js_shl (js_and m 0x7fff) 15 = (m mod 2 ^ 15) * 2 ^ 15"
    unfolding mm using mlo by (intro js_shl_mult) auto
  have clo: "0 \<le> c mod 2 ^ 30" "c mod 2 ^ 30 < 2 ^ 30" by simp_all
  have l': "0 \<le> l'" "l' < 2 ^ 32" "l' = xl * l + (m mod 2 ^ 15) * 2 ^ 15 + (w + c mod 2 ^ 30)"
    using a mlo assms(5,6) clo unfolding assms(14) shl cc by simp_all
  let ?u = "x * d + w + c mod 2 ^ 30"
  have v: "?u = xl * l + m * 2 ^ 15 + (xh * h) * (2 ^ 15 * 2 ^ 15) + (w + c mod 2 ^ 30)"
    using split_halves [of x d 15] by (simp add: xl l xh h assms(13) algebra_simps)
  note asm = assemble_halves [OF v l'(3), of "2 ^ 30"]
  have sh: "js_shr l' 30 = l' div 2 ^ 30" "js_shr m 15 = m div 2 ^ 15" "js_shr c 30 = c div 2 ^ 30"
    using l' m assms(7,8) by (simp_all add: js_shr_div)
  have u: "x * d + w + c = ?u + (c div 2 ^ 30) * 2 ^ 30" by simp
  have "(x * d + w + c) div 2 ^ 30 = ?u div 2 ^ 30 + c div 2 ^ 30"
    by (subst u, subst div_mult_self1, simp, rule add.commute)
  moreover have "l' div 2 ^ 30 + m div 2 ^ 15 + xh * h = ?u div 2 ^ 30" by (rule asm(1)) simp
  ultimately show "js_shr l' 30 + js_shr m 15 + xh * h + js_shr c 30 = (x * d + w + c) div 2 ^ 30"
    unfolding sh by (simp only:)
  have "(x * d + w + c) mod 2 ^ 30 = ?u mod 2 ^ 30" by (subst u, rule mod_mult_self1)
  moreover have "l' mod 2 ^ 30 = ?u mod 2 ^ 30" by (rule asm(2)) simp
  moreover have "js_and l' 0x3fffffff = l' mod 2 ^ 30" using js_and_mask [of 30 l'] by simp
  ultimately show "js_and l' 0x3fffffff = (x * d + w + c) mod 2 ^ 30" by (simp only:)
qed

lemma am2_ref:
  "0 \<le> x \<Longrightarrow> x < 2 * 2 ^ 30 \<Longrightarrow> 0 \<le> c \<Longrightarrow> c < 3 * 2 ^ 30 \<Longrightarrow> digits (2 ^ 30) this i n \<Longrightarrow> digits (2 ^ 30) w j n \<Longrightarrow>
   am2 this i x w j c n = am_ref (2 ^ 30) this i x w j c n"
proof (induction n arbitrary: i w j c)
  case (Suc n)
  let ?v = "x * get this i + get w j + c"
  have d: "0 \<le> get this i" "get this i < 2 ^ 30" "0 \<le> get w j" "get w j < 2 ^ 30"
    using Suc.prems(5,6) by (auto simp: digits_def)
  have pos: "(0::int) < 2 ^ 30" by simp
  note b = carry_bound [OF pos Suc.prems(1,2) d Suc.prems(3,4)]
  have "digits (2 ^ 30) (put w j (?v mod 2 ^ 30)) (Suc j) n" using Suc.prems(6) by (auto simp: digits_def)
  moreover have "digits (2 ^ 30) this (Suc i) n" using Suc.prems(5) by (auto simp: digits_def)
  ultimately have "am2 this (Suc i) x (put w j (?v mod 2 ^ 30)) (Suc j) (?v div 2 ^ 30) n
      = am_ref (2 ^ 30) this (Suc i) x (put w j (?v mod 2 ^ 30)) (Suc j) (?v div 2 ^ 30) n"
    by (intro Suc.IH Suc.prems(1,2) b(2,3))
  then show ?case
    unfolding am2.simps am_ref.simps Let_def
      am2_step [OF Suc.prems(1,2) d Suc.prems(3,4) refl refl refl refl refl refl] by simp
qed simp

text \<open>Each of the three engines keeps the contract.\<close>

interpretation eng1: digit_engine "\<lparr>am = am1, DB = 26\<rparr>"
  by unfold_locales (auto simp: base_def am1_ref)

interpretation eng2: digit_engine "\<lparr>am = am2, DB = 30\<rparr>"
  by unfold_locales (auto simp: base_def am2_ref)

interpretation eng3: digit_engine "\<lparr>am = am3, DB = 28\<rparr>"
  by unfold_locales (auto simp: base_def am3_ref)

lemma bn_prototype_engine: "digit_engine (bn_prototype appName)"
  unfolding bn_prototype_def
  using eng1.digit_engine_axioms eng2.digit_engine_axioms eng3.digit_engine_axioms by simp

section \<open>Products and squares\<close>

lemma for_zero_cells:
  "get (for_down 0 n (\<lambda>i w. put w i 0) w0) k = (if k < n then 0 else get w0 k)"
proof -
  have "\<forall>k. get (for_down 0 n (\<lambda>i w. put w i 0) w0) k = (if 0 \<le> k \<and> k < n then 0 else get w0 k)"
    by (rule for_down_inv [where P = "\<lambda>i v. \<forall>k. get v k = (if i \<le> k \<and> k < n then 0 else get w0 k)"])
      (auto simp: get_put)
  then show ?thesis by simp
qed

context digit_engine
begin

definition mul_inv :: "bn \<Rightarrow> bn \<Rightarrow> nat \<Rightarrow> int list \<Rightarrow> bool" where
  "mul_inv x y i w \<longleftrightarrow> digits (base E) w 0 (i + bn_t x) \<and>
     uval (base E) w 0 (i + bn_t x) = uval (base E) (bn_d x) 0 (bn_t x) * uval (base E) (bn_d y) 0 i"

lemma mul_step:
  assumes x: "dok E x" and y: "dok E y" and i: "i < bn_t y" and inv: "mul_inv x y i w"
  shows "mul_inv x y (Suc i)
    (let (w, c) = am E (bn_d x) 0 (get (bn_d y) i) w i 0 (bn_t x) in put w (i + bn_t x) c)"
proof -
  let ?b = "base E" let ?t = "bn_t x" let ?X = "uval ?b (bn_d x) 0 ?t" let ?y = "get (bn_d y) i"
  have yi: "0 \<le> ?y" "?y < ?b" using dok_cell [OF y i] by auto
  have dw: "digits ?b w i ?t" using inv by (auto simp: mul_inv_def intro: digits_sub)
  obtain w' c where am: "am E (bn_d x) 0 ?y w i 0 ?t = (w', c)" and c: "0 \<le> c" and dw': "digits ?b w' i ?t"
    and eq: "uval ?b w' i ?t + c * ?b ^ ?t = uval ?b w i ?t + ?y * ?X + 0"
    and fr: "\<And>k. k < i \<or> i + ?t \<le> k \<Longrightarrow> get w' k = get w k"
    using am_ok [of ?y 0 "bn_d x" 0 ?t w i] yi dokD(1) [OF x] dw by auto
  have X: "0 \<le> ?X" "?X < ?b ^ ?t" using dok_uval [OF x] by auto
  have "c * ?b ^ ?t \<le> uval ?b w i ?t + ?y * ?X" using eq uval_nonneg [OF dw'] by simp
  also have "\<dots> < ?b ^ ?t + (?b - 1) * ?b ^ ?t"
    using uval_less [OF dw] X yi by (intro add_less_le_mono mult_mono) auto
  finally have "c < ?b" by (simp add: algebra_simps)
  let ?w = "put w' (i + ?t) c"
  have "digits ?b ?w 0 i" using inv fr by (auto simp: mul_inv_def digits_def)
  moreover have "digits ?b ?w i ?t" using dw' by (auto simp: digits_def)
  ultimately have "digits ?b ?w 0 (Suc i + ?t)"
    using c \<open>c < ?b\<close> digits_append [of ?b ?w 0 i ?t] digits_append [of ?b ?w 0 "i + ?t" "Suc 0"]
    by (simp add: digits_1)
  moreover have "uval ?b ?w 0 (Suc i + ?t) = uval ?b w 0 (i + ?t) + ?b ^ i * (?y * ?X)"
  proof -
    have "uval ?b ?w 0 (Suc i + ?t) = uval ?b w' 0 i + ?b ^ i * (uval ?b w' i ?t + c * ?b ^ ?t)"
      by (simp add: uval_Suc uval_put_other uval_add power_add algebra_simps)
    also have "uval ?b w' 0 i = uval ?b w 0 i" by (intro uval_cong) (simp add: fr)
    finally show ?thesis unfolding eq by (simp add: uval_add algebra_simps)
  qed
  ultimately show ?thesis
    using inv by (simp add: am mul_inv_def uval_Suc algebra_simps)
qed

lemma multiplyTo_ok:
  assumes x: "bn_wf E this" and y: "bn_wf E a"
  shows "bn_wf E (bnpMultiplyTo E this a r)" "bval E (bnpMultiplyTo E this a r) = bval E this * bval E a"
proof -
  define X where "X = bnAbs E this"
  define Y where "Y = bnAbs E a"
  have dX: "dok E X" and vX: "bval E X = \<bar>bval E this\<bar>" and sX: "bn_s X = 0"
    using abs_ok [OF x] by (simp_all add: X_def bn_wfD)
  have dY: "dok E Y" and vY: "bval E Y = \<bar>bval E a\<bar>" and sY: "bn_s Y = 0"
    using abs_ok [OF y] by (simp_all add: Y_def bn_wfD)
  define f where "f = (\<lambda>i w. let (w, c) = am E (bn_d X) 0 (get (bn_d Y) i) w i 0 (bn_t X) in put w (i + bn_t X) c)"
  define w0 where "w0 = for_down 0 (bn_t X) (\<lambda>i w. put w i 0) (bn_d r)"
  define w where "w = for_up 0 (bn_t Y) f w0"
  have init: "mul_inv X Y 0 w0"
    by (auto simp: mul_inv_def w0_def for_zero_cells digits_def intro: uval_zero)
  have "mul_inv X Y (bn_t Y) w"
    unfolding w_def
  proof (rule for_up_inv [where P = "mul_inv X Y"])
    show "mul_inv X Y 0 w0" by (rule init)
    show "mul_inv X Y (Suc i) (f i w)" if "i < bn_t Y" "mul_inv X Y i w" for i w
      using mul_step [OF dX dY that] by (simp add: f_def)
  qed simp
  moreover define r' where "r' = r\<lparr>bn_d := w, bn_t := bn_t X + bn_t Y, bn_s := 0\<rparr>"
  ultimately have d': "dok E r'" and v': "bval E r' = bval E X * bval E Y"
    using sX sY by (simp_all add: mul_inv_def dok_def bval_def add.commute)
  have wf: "bn_wf E (bnpClamp E r')" and val: "bval E (bnpClamp E r') = \<bar>bval E this\<bar> * \<bar>bval E a\<bar>"
    using wf_clamp [OF d'] bval_clamp [of r'] v' vX vY by (simp_all add: r'_def)
  have res: "bnpMultiplyTo E this a r
      = (if bn_s this \<noteq> bn_s a then bnpSubTo E (Obj (bn_ZERO E)) Self (bnpClamp E r') else bnpClamp E r')"
    by (simp add: bnpMultiplyTo_def Let_def X_def Y_def w_def w0_def f_def r'_def)
  have sub: "bn_wf E (bnpSubTo E (Obj (bn_ZERO E)) Self (bnpClamp E r'))"
    "bval E (bnpSubTo E (Obj (bn_ZERO E)) Self (bnpClamp E r')) = - bval E (bnpClamp E r')"
    using subTo_ok [of "Obj (bn_ZERO E)" "bnpClamp E r'" Self] bn_wfD(1) [OF wf] by (simp_all add: bn_wfD)
  show "bn_wf E (bnpMultiplyTo E this a r)" unfolding res using sub wf by simp
  have "dok E this" "dok E a" using x y by (simp_all add: bn_wf_def)
  then show "bval E (bnpMultiplyTo E this a r) = bval E this * bval E a"
    unfolding res using sub val dokD(2) bval_nonneg_iff bval_neg_iff
    by (auto simp: abs_if abs_mult) (smt (verit))+
qed

text \<open>
  Squaring. Before round \<open>i\<close> the array holds the products of all pairs of digits with an index
  below \<open>i\<close>: the square of the number less the square of its digits from \<open>i\<close> on.
\<close>

definition sq_inv :: "bn \<Rightarrow> nat \<Rightarrow> int list \<Rightarrow> bool" where
  "sq_inv x i w \<longleftrightarrow> digits (base E) w 0 (2 * bn_t x) \<and>
     (\<forall>k. i + bn_t x < k \<and> k < 2 * bn_t x \<longrightarrow> get w k = 0) \<and>
     uval (base E) w 0 (2 * bn_t x)
       = (uval (base E) (bn_d x) 0 (bn_t x))\<^sup>2 - base E ^ (2 * i) * (uval (base E) (bn_d x) i (bn_t x - i))\<^sup>2"

text \<open>The first accumulation of a round, the square of digit \<open>i\<close>.\<close>

lemma sq_diag:
  assumes x: "dok E x" and i: "i < bn_t x" and dw: "digits (base E) w 0 (2 * bn_t x)"
  obtains w' c where "am E (bn_d x) i (get (bn_d x) i) w (2 * i) 0 1 = (w', c)" "0 \<le> c" "c < base E"
    "0 \<le> get w' (2 * i)" "get w' (2 * i) < base E" "\<And>k. k \<noteq> 2 * i \<Longrightarrow> get w' k = get w k"
    "get w' (2 * i) + c * base E = get w (2 * i) + (get (bn_d x) i)\<^sup>2"
proof -
  let ?b = "base E" let ?d = "get (bn_d x) i"
  have d: "0 \<le> ?d" "?d < ?b" using dok_cell [OF x i] by auto
  have w2: "0 \<le> get w (2 * i)" "get w (2 * i) < ?b" using dw i by (auto simp: digits_def)
  obtain w' c where am: "am E (bn_d x) i ?d w (2 * i) 0 1 = (w', c)" and c: "0 \<le> c"
    and dw': "digits ?b w' (2 * i) 1"
    and eq: "uval ?b w' (2 * i) 1 + c * ?b ^ 1 = uval ?b w (2 * i) 1 + ?d * uval ?b (bn_d x) i 1 + 0"
    and fr: "\<And>k. k < 2 * i \<or> 2 * i + 1 \<le> k \<Longrightarrow> get w' k = get w k"
    using am_ok [of ?d 0 "bn_d x" i 1 w "2 * i"] d w2 by (auto simp: digits_1)
  have e: "get w' (2 * i) + c * ?b = get w (2 * i) + ?d\<^sup>2"
    using eq by (simp add: uval_def power2_eq_square)
  have "?d * ?d \<le> (?b - 1) * (?b - 1)" using d by (intro mult_mono) auto
  moreover have "(?b - 1) * (?b - 1) = ?b * ?b - 2 * ?b + 1" by (simp add: algebra_simps)
  moreover have "0 \<le> get w' (2 * i)" using dw' by (simp add: digits_1)
  ultimately have "c * ?b < ?b * ?b" using e w2 base_num by (simp only: power2_eq_square)
  then have "c < ?b" by simp
  moreover have "get w' k = get w k" if "k \<noteq> 2 * i" for k
    using fr [of k] that by (cases "k < 2 * i") auto
  ultimately show thesis using that [OF am c _ _ _ _ e] dw' by (simp add: digits_1)
qed

lemma uval_square_less:
  assumes x: "dok E x" and i: "Suc i \<le> bn_t x"
  shows "(uval (base E) (bn_d x) 0 (bn_t x))\<^sup>2
      - base E ^ (2 * Suc i) * (uval (base E) (bn_d x) (Suc i) (bn_t x - Suc i))\<^sup>2 < 2 * base E ^ (Suc i + bn_t x)"
proof -
  let ?b = "base E" let ?X = "uval ?b (bn_d x) 0 (bn_t x)"
  define L where "L = uval ?b (bn_d x) 0 (Suc i)"
  define H where "H = ?b ^ Suc i * uval ?b (bn_d x) (Suc i) (bn_t x - Suc i)"
  have X: "?X = L + H" using uval_add [of ?b "bn_d x" 0 "Suc i" "bn_t x - Suc i"] i by (simp add: L_def H_def)
  have L: "0 \<le> L" "L < ?b ^ Suc i"
    using digits_sub [OF dokD(1) [OF x], of 0 "Suc i"] i unfolding L_def
    by (simp_all only: uval_nonneg uval_less base_pos)
  have H: "0 \<le> H"
    using digits_sub [OF dokD(1) [OF x], of "Suc i" "bn_t x - Suc i"] i
    by (auto simp: H_def intro!: uval_nonneg mult_nonneg_nonneg)
  have "?X < ?b ^ bn_t x" using dok_uval [OF x] by simp
  then have "L * (?X + H) \<le> ?b ^ Suc i * (?X + H)" "?b ^ Suc i * (?X + H) < ?b ^ Suc i * (2 * ?b ^ bn_t x)"
    using L H X by (auto intro!: mult_right_mono mult_strict_left_mono)
  moreover have "?X\<^sup>2 - H\<^sup>2 = L * (?X + H)" unfolding X by (simp add: power2_eq_square algebra_simps)
  moreover have "H\<^sup>2 = ?b ^ (2 * Suc i) * (uval ?b (bn_d x) (Suc i) (bn_t x - Suc i))\<^sup>2"
    by (simp add: H_def power2_eq_square mult_2_right power_add algebra_simps)
  ultimately show ?thesis by (simp add: power_add algebra_simps)
qed

lemma sq_round:
  assumes x: "dok E x" and i: "Suc i < bn_t x" and inv: "sq_inv x i w"
    and am1: "am E (bn_d x) i (get (bn_d x) i) w (2 * i) 0 1 = (w1, c1)"
    and am2: "am E (bn_d x) (i + 1) (2 * get (bn_d x) i) w1 (2 * i + 1) c1 (bn_t x - i - 1) = (w2, c2)"
  shows "digits (base E) w2 0 (i + bn_t x)" "\<And>k. i + bn_t x \<le> k \<Longrightarrow> get w2 k = get w k" "0 \<le> c2"
    "uval (base E) w2 0 (i + bn_t x) + (get w (i + bn_t x) + c2) * base E ^ (i + bn_t x)
      = (uval (base E) (bn_d x) 0 (bn_t x))\<^sup>2
        - base E ^ (2 * Suc i) * (uval (base E) (bn_d x) (Suc i) (bn_t x - Suc i))\<^sup>2"
proof -
  let ?b = "base E" let ?d = "get (bn_d x) i" let ?t = "bn_t x" let ?n = "bn_t x - Suc i"
  have i': "i < ?t" using i by simp
  have dw: "digits ?b w 0 (2 * ?t)" using inv by (simp add: sq_inv_def)
  have d: "0 \<le> ?d" "?d < ?b" using dok_cell [OF x i'] by auto
  from sq_diag [OF x i' dw] am1 have c1: "0 \<le> c1" "c1 < ?b" and w1: "0 \<le> get w1 (2 * i)" "get w1 (2 * i) < ?b"
    and fr1: "\<And>k. k \<noteq> 2 * i \<Longrightarrow> get w1 k = get w k"
    and eq1: "get w1 (2 * i) + c1 * ?b = get w (2 * i) + ?d\<^sup>2" by (metis Pair_inject)+
  have dw1: "digits ?b w1 (2 * i + 1) ?n" using dw i fr1 by (auto simp: digits_def)
  obtain w2' c2' where am2': "am E (bn_d x) (i + 1) (2 * ?d) w1 (2 * i + 1) c1 ?n = (w2', c2')" and c2: "0 \<le> c2'"
    and dw2: "digits ?b w2' (2 * i + 1) ?n"
    and eq2: "uval ?b w2' (2 * i + 1) ?n + c2' * ?b ^ ?n
      = uval ?b w1 (2 * i + 1) ?n + 2 * ?d * uval ?b (bn_d x) (i + 1) ?n + c1"
    and fr2: "\<And>k. k < 2 * i + 1 \<or> 2 * i + 1 + ?n \<le> k \<Longrightarrow> get w2' k = get w1 k"
    using am_ok [of "2 * ?d" c1 "bn_d x" "i + 1" ?n w1 "2 * i + 1"] d c1 dw1
      digits_sub [OF dokD(1) [OF x], of "i + 1" ?n] i by auto
  have [simp]: "w2' = w2" "c2' = c2" using am2 am2' by auto
  have it: "i + ?t = 2 * i + Suc ?n" using i by simp
  show "0 \<le> c2" using c2 by simp
  show fr: "\<And>k. i + ?t \<le> k \<Longrightarrow> get w2 k = get w k" using fr2 fr1 i by simp
  have w2i: "get w2 (2 * i) = get w1 (2 * i)" using fr2 [of "2 * i"] by simp
  have "digits ?b w2 0 (2 * i)" using dw fr1 fr2 i by (auto simp: digits_def)
  then show "digits ?b w2 0 (i + ?t)"
    unfolding it using digits_append [of ?b w2 0 "2 * i" "Suc ?n"] digits_append [of ?b w2 "2 * i" 1 ?n] w1 w2i dw2
    by (simp add: digits_1)
  have low: "uval ?b w2 0 (2 * i) = uval ?b w 0 (2 * i)" using fr1 fr2 by (intro uval_cong) auto
  have w1w: "uval ?b w1 (2 * i + 1) ?n = uval ?b w (2 * i + 1) ?n" using fr1 by (intro uval_cong) auto
  have hi: "uval ?b w2 (2 * i) (Suc ?n) + c2 * ?b ^ Suc ?n
      = uval ?b w (2 * i) (Suc ?n) + ?d\<^sup>2 + ?b * (2 * ?d * uval ?b (bn_d x) (Suc i) ?n)"
  proof -
    have "uval ?b w2 (2 * i) (Suc ?n) + c2 * ?b ^ Suc ?n
        = get w1 (2 * i) + ?b * (uval ?b w2 (2 * i + 1) ?n + c2 * ?b ^ ?n)"
      by (simp only: uval_step w2i) (simp add: algebra_simps)
    also have "\<dots> = get w1 (2 * i) + ?b * (uval ?b w (2 * i + 1) ?n + 2 * ?d * uval ?b (bn_d x) (i + 1) ?n + c1)"
      using eq2 w1w by simp
    also have "\<dots> = uval ?b w (2 * i) (Suc ?n) + ?d\<^sup>2 + ?b * (2 * ?d * uval ?b (bn_d x) (Suc i) ?n)"
      using eq1 by (simp add: uval_step algebra_simps)
    finally show ?thesis .
  qed
  have "uval ?b w 0 (2 * ?t) = uval ?b w 0 (i + ?t) + get w (i + ?t) * ?b ^ (i + ?t)"
  proof -
    have two: "2 * ?t = i + ?t + Suc ?n" using i by simp
    have "uval ?b w (Suc (i + ?t)) ?n = 0" using inv i by (intro uval_zero) (auto simp: sq_inv_def)
    then show ?thesis unfolding two uval_add by (simp add: uval_step algebra_simps)
  qed
  then have S: "uval ?b w 0 (i + ?t) + get w (i + ?t) * ?b ^ (i + ?t)
      = (uval ?b (bn_d x) 0 ?t)\<^sup>2 - ?b ^ (2 * i) * (uval ?b (bn_d x) i (?t - i))\<^sup>2"
    using inv by (simp add: sq_inv_def)
  have Xi: "uval ?b (bn_d x) i (?t - i) = ?d + ?b * uval ?b (bn_d x) (Suc i) ?n"
    using i' Suc_diff_Suc [OF i'] uval_step [of ?b "bn_d x" i ?n] by simp
  have "uval ?b w2 0 (i + ?t) + c2 * ?b ^ (i + ?t)
      = uval ?b w 0 (2 * i) + ?b ^ (2 * i) * (uval ?b w2 (2 * i) (Suc ?n) + c2 * ?b ^ Suc ?n)"
    unfolding it uval_add [of _ _ _ "2 * i"] power_add low by (simp only: add_0 algebra_simps)
  also have "\<dots> = uval ?b w 0 (i + ?t) + ?b ^ (2 * i) * (?d\<^sup>2 + ?b * (2 * ?d * uval ?b (bn_d x) (Suc i) ?n))"
    unfolding hi it uval_add [of _ _ _ "2 * i"] by (simp only: add_0 algebra_simps)
  finally have "uval ?b w2 0 (i + ?t) + c2 * ?b ^ (i + ?t)
      = uval ?b w 0 (i + ?t) + ?b ^ (2 * i) * (?d\<^sup>2 + ?b * (2 * ?d * uval ?b (bn_d x) (Suc i) ?n))" .
  then have "uval ?b w2 0 (i + ?t) + (get w (i + ?t) + c2) * ?b ^ (i + ?t)
      = uval ?b w 0 (i + ?t) + get w (i + ?t) * ?b ^ (i + ?t)
        + ?b ^ (2 * i) * (?d\<^sup>2 + ?b * (2 * ?d * uval ?b (bn_d x) (Suc i) ?n))"
    by (simp add: algebra_simps)
  then show "uval ?b w2 0 (i + ?t) + (get w (i + ?t) + c2) * ?b ^ (i + ?t)
      = (uval ?b (bn_d x) 0 ?t)\<^sup>2 - ?b ^ (2 * Suc i) * (uval ?b (bn_d x) (Suc i) ?n)\<^sup>2"
    unfolding S Xi by (simp add: power2_eq_square algebra_simps)
qed

lemma sq_step:
  assumes x: "dok E x" and i: "Suc i < bn_t x" and inv: "sq_inv x i w"
  shows "sq_inv x (Suc i)
    (let (w, c) = am E (bn_d x) i (get (bn_d x) i) w (2 * i) 0 1;
         old = get w (i + bn_t x);
         (w, c) = am E (bn_d x) (i + 1) (2 * get (bn_d x) i) w (2 * i + 1) c (bn_t x - i - 1);
         w = put w (i + bn_t x) (old + c)
     in if get w (i + bn_t x) \<ge> DV E
        then put (put w (i + bn_t x) (get w (i + bn_t x) - DV E)) (i + bn_t x + 1) 1
        else w)"
proof -
  let ?b = "base E" let ?t = "bn_t x" let ?p = "i + bn_t x"
  obtain w1 c1 where am1: "am E (bn_d x) i (get (bn_d x) i) w (2 * i) 0 1 = (w1, c1)" by fastforce
  obtain w2 c2 where am2: "am E (bn_d x) (i + 1) (2 * get (bn_d x) i) w1 (2 * i + 1) c1 (?t - i - 1) = (w2, c2)"
    by fastforce
  note r = sq_round [OF x i inv am1 am2]
  have dw: "digits ?b w 0 (2 * ?t)" and z: "\<And>k. ?p < k \<Longrightarrow> k < 2 * ?t \<Longrightarrow> get w k = 0"
    using inv by (auto simp: sq_inv_def)
  have "get w1 ?p = get w ?p" using sq_diag [OF x _ dw, of i] am1 i by (metis Pair_inject Suc_lessD
      add_less_cancel_left mult_2 nat_neq_iff)
  define v where "v = get w ?p + c2"
  define S where "S = (uval ?b (bn_d x) 0 ?t)\<^sup>2 - ?b ^ (2 * Suc i) * (uval ?b (bn_d x) (Suc i) (?t - Suc i))\<^sup>2"
  have eq: "uval ?b w2 0 ?p + v * ?b ^ ?p = S" using r(4) by (simp add: S_def v_def)
  have "0 \<le> uval ?b w2 0 ?p" using r(1) by (simp add: uval_nonneg)
  then have "v * ?b ^ ?p \<le> S" using eq by simp
  also have "S < (2 * ?b) * ?b ^ ?p" using uval_square_less [OF x, of i] i by (simp add: S_def algebra_simps)
  finally have v: "v < 2 * ?b" by simp
  have v0: "0 \<le> v" using dw r(3) i by (simp add: v_def digits_def)
  have top: "2 * ?t = ?p + (1 + (1 + (?t - i - 2)))" using i by simp
  define wf where "wf = (if v \<ge> ?b then put (put w2 ?p (v - ?b)) (?p + 1) 1 else put w2 ?p v)"
  have cells: "\<And>k. k < ?p \<Longrightarrow> get wf k = get w2 k" "\<And>k. ?p + 1 < k \<Longrightarrow> k < 2 * ?t \<Longrightarrow> get wf k = 0"
    "0 \<le> get wf ?p" "get wf ?p < ?b" "0 \<le> get wf (?p + 1)" "get wf (?p + 1) < ?b"
    "get wf ?p + get wf (?p + 1) * ?b = v"
    using v v0 r(2) z i base_num by (auto simp: wf_def)
  have "digits ?b wf (?p + 1 + 1) (?t - i - 2)" using cells(2) i by (auto intro!: digitsI)
  then have "digits ?b wf 0 (2 * ?t)"
    unfolding top using digits_cong [OF r(1), of wf] cells
      digits_append [of ?b wf 0 ?p "1 + (1 + (?t - i - 2))"] digits_append [of ?b wf ?p 1 "1 + (?t - i - 2)"]
      digits_append [of ?b wf "?p + 1" 1 "?t - i - 2"] by (simp add: digits_1)
  moreover have "uval ?b wf 0 (2 * ?t) = S"
  proof -
    have "uval ?b wf 0 ?p = uval ?b w2 0 ?p" using cells(1) by (intro uval_cong) auto
    moreover have "uval ?b wf (?p + 1 + 1) (?t - i - 2) = 0" using cells(2) i by (intro uval_zero) auto
    ultimately have "uval ?b wf 0 (2 * ?t) = uval ?b w2 0 ?p + ?b ^ ?p * (get wf ?p + get wf (?p + 1) * ?b)"
      unfolding top uval_add by (simp add: uval_def algebra_simps)
    then show ?thesis unfolding cells(7) using eq by (simp add: algebra_simps)
  qed
  ultimately have "sq_inv x (Suc i) wf" using cells(2) by (auto simp: sq_inv_def S_def)
  then show ?thesis
    using am1 am2 \<open>get w1 ?p = get w ?p\<close> by (simp add: Let_def DV_base wf_def v_def split: if_splits)
qed

lemma sq_last:
  assumes x: "dok E x" and t: "bn_t x = Suc n" and inv: "sq_inv x n w"
    and am: "am E (bn_d x) n (get (bn_d x) n) w (2 * n) 0 1 = (w', c)"
  shows "digits (base E) (put w' (2 * n + 1) (get w (2 * n + 1) + c)) 0 (2 * bn_t x)"
    "uval (base E) (put w' (2 * n + 1) (get w (2 * n + 1) + c)) 0 (2 * bn_t x)
      = (uval (base E) (bn_d x) 0 (bn_t x))\<^sup>2"
proof -
  let ?b = "base E" let ?v = "get w (2 * n + 1) + c" let ?w = "put w' (2 * n + 1) (get w (2 * n + 1) + c)"
  have dw: "digits ?b w 0 (2 * bn_t x)" using inv by (simp add: sq_inv_def)
  have n: "n < bn_t x" using t by simp
  from sq_diag [OF x n dw] am have c: "0 \<le> c" and w1: "0 \<le> get w' (2 * n)" "get w' (2 * n) < ?b"
    and fr: "\<And>k. k \<noteq> 2 * n \<Longrightarrow> get w' k = get w k"
    and eq: "get w' (2 * n) + c * ?b = get w (2 * n) + (get (bn_d x) n)\<^sup>2" by (metis Pair_inject)+
  have low: "digits ?b ?w 0 (2 * n)" using dw t fr by (auto simp: digits_def)
  have U: "uval ?b ?w 0 (2 * n) = uval ?b w 0 (2 * n)" using fr by (intro uval_cong) auto
  have two: "2 * bn_t x = Suc (Suc (2 * n))" using t by simp
  have "uval ?b ?w 0 (2 * bn_t x) = uval ?b w 0 (2 * n) + ?b ^ (2 * n) * (get w' (2 * n) + ?v * ?b)"
    unfolding two uval_Suc add_0 U by (simp add: algebra_simps)
  also have "get w' (2 * n) + ?v * ?b = get w (2 * n) + get w (2 * n + 1) * ?b + (get (bn_d x) n)\<^sup>2"
    using eq by (simp add: algebra_simps)
  also have "uval ?b w 0 (2 * n) + ?b ^ (2 * n) * \<dots>
      = uval ?b w 0 (2 * bn_t x) + ?b ^ (2 * n) * (get (bn_d x) n)\<^sup>2"
    unfolding two by (simp add: uval_Suc algebra_simps)
  also have "\<dots> = (uval ?b (bn_d x) 0 (bn_t x))\<^sup>2"
    using inv t by (simp add: sq_inv_def uval_def)
  finally show val: "uval ?b ?w 0 (2 * bn_t x) = (uval ?b (bn_d x) 0 (bn_t x))\<^sup>2" .
  have X: "0 \<le> uval ?b (bn_d x) 0 (bn_t x)" "uval ?b (bn_d x) 0 (bn_t x) < ?b ^ bn_t x"
    using dok_uval [OF x] by auto
  then have "(uval ?b (bn_d x) 0 (bn_t x))\<^sup>2 < (?b ^ bn_t x)\<^sup>2" by (intro power_strict_mono) auto
  also have "(?b ^ bn_t x)\<^sup>2 = ?b * ?b ^ Suc (2 * n)"
    unfolding power_mult [symmetric] mult.commute [of "bn_t x"] two by simp
  finally have X2: "(uval ?b (bn_d x) 0 (bn_t x))\<^sup>2 < ?b * ?b ^ Suc (2 * n)" .
  have "0 \<le> uval ?b ?w 0 (2 * n)" using low by (simp add: uval_nonneg)
  moreover have "0 \<le> get w' (2 * n) * ?b ^ (2 * n)" using w1 by simp
  moreover have "uval ?b ?w 0 (2 * bn_t x) = uval ?b ?w 0 (2 * n) + get w' (2 * n) * ?b ^ (2 * n) + ?v * ?b ^ Suc (2 * n)"
    unfolding two uval_Suc by simp
  ultimately have "?v * ?b ^ Suc (2 * n) < ?b * ?b ^ Suc (2 * n)" using val X2 by linarith
  then have "?v < ?b" by (rule mult_right_less_imp_less) simp
  moreover have "0 \<le> ?v" using dw c t by (simp add: digits_def)
  ultimately show "digits ?b ?w 0 (2 * bn_t x)"
    using low w1 digits_append [of ?b ?w 0 "2 * n" "1 + 1"] digits_append [of ?b ?w "2 * n" 1 1] t
    by (simp add: digits_1)
qed

lemma squareTo_ok:
  assumes x: "bn_wf E this"
  shows "bn_wf E (bnpSquareTo E this r)" "bval E (bnpSquareTo E this r) = (bval E this)\<^sup>2"
proof -
  define X where "X = bnAbs E this"
  have dX: "dok E X" and vX: "bval E X = \<bar>bval E this\<bar>" and sX: "bn_s X = 0"
    using abs_ok [OF x] by (simp_all add: X_def bn_wfD)
  define f where "f = (\<lambda>i w. let (w, c) = am E (bn_d X) i (get (bn_d X) i) w (2 * i) 0 1;
         old = get w (i + bn_t X);
         (w, c) = am E (bn_d X) (i + 1) (2 * get (bn_d X) i) w (2 * i + 1) c (bn_t X - i - 1);
         w = put w (i + bn_t X) (old + c)
     in if get w (i + bn_t X) \<ge> DV E
        then put (put w (i + bn_t X) (get w (i + bn_t X) - DV E)) (i + bn_t X + 1) 1
        else w)"
  define w0 where "w0 = for_down 0 (2 * bn_t X) (\<lambda>i w. put w i 0) (bn_d r)"
  define w where "w = for_up 0 (bn_t X - 1) f w0"
  define v where "v = (if 2 * bn_t X > 0
               then let old = get w (2 * bn_t X - 1);
                        (w, c) = am E (bn_d X) (bn_t X - 1) (get (bn_d X) (bn_t X - 1)) w (2 * (bn_t X - 1)) 0 1
                    in put w (2 * bn_t X - 1) (old + c)
               else w)"
  define r' where "r' = r\<lparr>bn_d := v, bn_t := 2 * bn_t X, bn_s := 0\<rparr>"
  have res: "bnpSquareTo E this r = bnpClamp E r'"
    by (simp only: bnpSquareTo_def Let_def X_def f_def w0_def w_def v_def r'_def)
  have init: "sq_inv X 0 w0"
    by (auto simp: sq_inv_def w0_def for_zero_cells digits_def intro: uval_zero)
  have inv: "sq_inv X (bn_t X - 1) w"
    unfolding w_def
  proof (rule for_up_inv [where P = "sq_inv X"])
    show "sq_inv X 0 w0" by (rule init)
    show "sq_inv X (Suc i) (f i w)" if "i < bn_t X - 1" "sq_inv X i w" for i w
      using sq_step [OF dX _ that(2)] that(1) unfolding f_def by simp
  qed simp
  have "digits (base E) v 0 (2 * bn_t X) \<and> uval (base E) v 0 (2 * bn_t X) = (uval (base E) (bn_d X) 0 (bn_t X))\<^sup>2"
  proof (cases "bn_t X")
    case 0
    then show ?thesis by simp
  next
    case (Suc n)
    obtain w' c where am: "am E (bn_d X) n (get (bn_d X) n) w (2 * n) 0 1 = (w', c)" by fastforce
    have "v = put w' (2 * n + 1) (get w (2 * n + 1) + c)" using Suc am by (simp add: v_def Let_def)
    then show ?thesis using sq_last [OF dX Suc _ am] inv Suc by simp
  qed
  then have "dok E r'" "bval E r' = (bval E X)\<^sup>2" using sX by (simp_all add: r'_def dok_def bval_def)
  then show "bn_wf E (bnpSquareTo E this r)" "bval E (bnpSquareTo E this r) = (bval E this)\<^sup>2"
    using wf_clamp [of r'] bval_clamp [of r'] vX unfolding res by (simp_all add: r'_def)
qed

end

end
