(* ===== verification/Ieee.thy ===== *)
theory Ieee
  imports Complex_Main "HOL-Library.Log_Nat" "HOL-Library.Word"
begin

text \<open>
  JavaScript's division, multiplication and addition of numbers round their exact result to a
  double: 53 significant bits, to nearest, ties to even. \<open>fl64\<close> is that rounding on rational
  numbers of the normal range (the code's quotients and products lie between 2 ^ -31 and 2 ^ 54,
  so neither overflow nor subnormal numbers occur). The interface \<open>fp_rounding\<close> states the
  laws of the rounding that the division of big integers relies on.
\<close>

section \<open>Rounding to a double\<close>

definition round_even :: "rat \<Rightarrow> int" where
  "round_even x = (let f = \<lfloor>x\<rfloor>; d = x - of_int f
     in if d < 1 / 2 then f else if d > 1 / 2 then f + 1 else if even f then f else f + 1)"

definition ilog2 :: "rat \<Rightarrow> int" where
  "ilog2 x = (let (p, q) = quotient_of x; e = bitlen p - bitlen q
     in if 2 powi e \<le> x then e else e - 1)"

definition fl64 :: "rat \<Rightarrow> rat" where
  "fl64 x = (if x = 0 then 0
     else let u = 2 powi (ilog2 \<bar>x\<bar> - 52) in sgn x * of_int (round_even (\<bar>x\<bar> / u)) * u)"

section \<open>The laws of rounding\<close>

locale fp_rounding =
  fixes fl :: "rat \<Rightarrow> rat"
  assumes fl_mono: "0 \<le> x \<Longrightarrow> x \<le> y \<Longrightarrow> fl x \<le> fl y"
    and fl_int: "0 \<le> n \<Longrightarrow> n \<le> 2 ^ 53 \<Longrightarrow> fl (of_int n) = of_int n"
    and fl_error: "0 \<le> x \<Longrightarrow> x \<le> 2 powi k \<Longrightarrow> \<bar>fl x - x\<bar> \<le> 2 powi (k - 54)"

lemma round_even_bounds: "of_int (round_even x) - 1 / 2 \<le> x" "x \<le> of_int (round_even x) + 1 / 2"
proof -
  have b: "of_int \<lfloor>x\<rfloor> \<le> x" "x < of_int \<lfloor>x\<rfloor> + 1" by linarith+
  have "round_even x = \<lfloor>x\<rfloor> \<and> x - of_int \<lfloor>x\<rfloor> \<le> 1 / 2 \<or>
      round_even x = \<lfloor>x\<rfloor> + 1 \<and> 1 / 2 \<le> x - of_int \<lfloor>x\<rfloor>"
  proof (cases "x - of_int \<lfloor>x\<rfloor> < 1 / 2")
    case True
    then show ?thesis by (simp only: round_even_def Let_def) simp
  next
    case False
    then have "1 / 2 \<le> x - of_int \<lfloor>x\<rfloor>" by simp
    with False show ?thesis
      by (cases "x - of_int \<lfloor>x\<rfloor> > 1 / 2"; cases "even \<lfloor>x\<rfloor>"; simp only: round_even_def Let_def if_True if_False) simp_all
  qed
  then show "of_int (round_even x) - 1 / 2 \<le> x" "x \<le> of_int (round_even x) + 1 / 2"
    using b by linarith+
qed

lemma round_even_int [simp]: "round_even (of_int n) = n"
  by (simp add: round_even_def)

lemma round_even_mono: "x \<le> y \<Longrightarrow> round_even x \<le> round_even y"
proof -
  assume le: "x \<le> y"
  then have f: "\<lfloor>x\<rfloor> \<le> \<lfloor>y\<rfloor>" by (rule floor_mono)
  show ?thesis
  proof (cases "\<lfloor>x\<rfloor> = \<lfloor>y\<rfloor>")
    case True
    with le show ?thesis by (simp add: round_even_def Let_def)
  next
    case False
    with f have "\<lfloor>x\<rfloor> + 1 \<le> \<lfloor>y\<rfloor>" by simp
    moreover have "round_even x \<le> \<lfloor>x\<rfloor> + 1" "\<lfloor>y\<rfloor> \<le> round_even y" by (simp_all add: round_even_def Let_def)
    ultimately show ?thesis by linarith
  qed
qed

lemma powi_of_int: "0 \<le> e \<Longrightarrow> (2::rat) powi e = of_int (2 ^ nat e)"
  by (simp add: power_int_def)

lemma powi_2_mono: "a \<le> b \<Longrightarrow> (2::rat) powi a \<le> 2 powi b"
  by (rule power_int_increasing) auto

lemma powi_2_less_iff: "(2::rat) powi a < 2 powi b \<longleftrightarrow> a < b"
proof
  show "(2::rat) powi a < 2 powi b \<Longrightarrow> a < b" using powi_2_mono [of b a] by force
  show "a < b \<Longrightarrow> (2::rat) powi a < 2 powi b" by (rule power_int_strict_increasing) auto
qed

lemma ilog2_bounds:
  assumes "0 < x"
  shows "2 powi ilog2 x \<le> x" "x < 2 powi (ilog2 x + 1)"
proof -
  obtain p q where pq: "quotient_of x = (p, q)" by fastforce
  have q: "0 < q" and x: "x = of_int p / of_int q"
    using quotient_of_denom_pos [OF pq] quotient_of_div [OF pq] by auto
  have p: "0 < p" using assms q by (simp add: x zero_less_divide_iff)
  define e where "e = bitlen p - bitlen q"
  have bp: "2 ^ nat (bitlen p - 1) \<le> p" "p < 2 ^ nat (bitlen p)" and bq: "2 ^ nat (bitlen q - 1) \<le> q" "q < 2 ^ nat (bitlen q)"
    using bitlen_bounds [OF p] bitlen_bounds [OF q] by auto
  have pos: "0 < bitlen p" "0 < bitlen q"
    using p q bitlen_eq_zero_iff [of p] bitlen_eq_zero_iff [of q] bitlen_nonneg [of p] bitlen_nonneg [of q] by auto
  have P: "(2::rat) powi (bitlen p - 1) \<le> of_int p" "of_int p < (2::rat) powi (bitlen p)"
    using bp pos by (simp_all only: powi_of_int of_int_le_iff of_int_less_iff)
  have Q: "(2::rat) powi (bitlen q - 1) \<le> of_int q" "of_int q < (2::rat) powi (bitlen q)"
    using bq pos by (simp_all only: powi_of_int of_int_le_iff of_int_less_iff)
  have "2 powi (e - 1) * of_int q \<le> (2::rat) powi (e - 1) * 2 powi (bitlen q)"
    using Q by (intro mult_left_mono) auto
  also have "\<dots> = 2 powi (bitlen p - 1)" by (simp add: e_def flip: power_int_add)
  also have "\<dots> \<le> of_int p" by (rule P(1))
  finally have lo: "2 powi (e - 1) \<le> x" using q by (simp add: x le_divide_eq)
  have "(of_int p :: rat) < 2 powi (bitlen p)" by (rule P(2))
  also have "\<dots> = 2 powi (e + 1) * 2 powi (bitlen q - 1)" by (simp add: e_def flip: power_int_add)
  also have "\<dots> \<le> 2 powi (e + 1) * of_int q" using Q by (intro mult_left_mono) auto
  finally have hi: "x < 2 powi (e + 1)" using q by (simp add: x divide_less_eq)
  have il: "ilog2 x = (if 2 powi e \<le> x then e else e - 1)" by (simp add: ilog2_def pq e_def)
  show "2 powi ilog2 x \<le> x" "x < 2 powi (ilog2 x + 1)" using lo hi by (auto simp: il)
qed

lemma ilog2_mono: "0 < x \<Longrightarrow> x \<le> y \<Longrightarrow> ilog2 x \<le> ilog2 y"
proof -
  assume "0 < x" "x \<le> y"
  then have "2 powi ilog2 x < (2::rat) powi (ilog2 y + 1)"
    using ilog2_bounds [of x] ilog2_bounds [of y] by linarith
  then show ?thesis by (simp add: powi_2_less_iff)
qed

lemma fl64_pos:
  assumes "0 < x"
  shows "fl64 x = of_int (round_even (x / 2 powi (ilog2 x - 52))) * 2 powi (ilog2 x - 52)"
  using assms by (simp add: fl64_def Let_def)

lemma fl64_range:
  assumes "0 < x"
  shows "2 powi ilog2 x \<le> fl64 x" "fl64 x \<le> 2 powi (ilog2 x + 1)"
proof -
  let ?e = "ilog2 x" let ?u = "(2::rat) powi (ilog2 x - 52)"
  have split: "2 powi ?e = of_int (2 ^ 52) * ?u" "2 powi (?e + 1) = of_int (2 ^ 53) * ?u"
    using power_int_add [of "2::rat" 52 "?e - 52"] power_int_add [of "2::rat" 53 "?e - 52"]
    by (auto simp: add.commute)
  have "of_int (2 ^ 52) \<le> x / ?u" "x / ?u \<le> of_int (2 ^ 53)"
    using ilog2_bounds [OF assms] unfolding split by (simp_all add: le_divide_eq divide_le_eq)
  then have "2 ^ 52 \<le> round_even (x / ?u)" "round_even (x / ?u) \<le> 2 ^ 53"
    using round_even_mono round_even_int by metis+
  then have "of_int (2 ^ 52) * ?u \<le> of_int (round_even (x / ?u)) * ?u"
    "of_int (round_even (x / ?u)) * ?u \<le> of_int (2 ^ 53) * ?u"
    by (intro mult_right_mono; simp only: of_int_le_iff; simp)+
  then show "2 powi ?e \<le> fl64 x" "fl64 x \<le> 2 powi (?e + 1)" by (simp_all only: split fl64_pos [OF assms])
qed

lemma fl64_mono:
  assumes "0 \<le> x" "x \<le> y"
  shows "fl64 x \<le> fl64 y"
proof (cases "x = 0")
  case True
  show ?thesis
  proof (cases "y = 0")
    case False
    with True assms have "0 < y" by simp
    from fl64_range(1) [OF this] have "0 \<le> fl64 y" by (rule order_trans [rotated]) simp
    then show ?thesis unfolding True by (simp add: fl64_def [of 0])
  qed (use True in simp)
next
  case False
  with assms have x: "0 < x" and y: "0 < y" by auto
  show ?thesis
  proof (cases "ilog2 x = ilog2 y")
    case True
    have "x / 2 powi (ilog2 y - 52) \<le> y / 2 powi (ilog2 y - 52)" using assms by (intro divide_right_mono) auto
    then have "round_even (x / 2 powi (ilog2 y - 52)) \<le> round_even (y / 2 powi (ilog2 y - 52))"
      by (rule round_even_mono)
    then show ?thesis by (simp add: fl64_pos x y True mult_right_mono)
  next
    case False
    then have "ilog2 x + 1 \<le> ilog2 y" using ilog2_mono [OF x assms(2)] by simp
    then have "(2::rat) powi (ilog2 x + 1) \<le> 2 powi ilog2 y" by (rule powi_2_mono)
    then show ?thesis using fl64_range [OF x] fl64_range [OF y] by linarith
  qed
qed

lemma fl64_exact:
  assumes "0 < x" "x = of_int n * 2 powi (ilog2 x - 52)"
  shows "fl64 x = x"
proof -
  have "x / 2 powi (ilog2 x - 52) = of_int n" using assms by (simp add: divide_eq_eq)
  then show ?thesis using assms by (simp add: fl64_pos)
qed

lemma fl64_int:
  assumes "0 \<le> n" "n \<le> 2 ^ 53"
  shows "fl64 (of_int n) = of_int n"
proof (cases "n = 0")
  case False
  let ?x = "of_int n :: rat" let ?e = "ilog2 (of_int n)"
  have x: "0 < ?x" using assms False by simp
  note b = ilog2_bounds [OF x]
  show ?thesis
  proof (cases "?e \<le> 52")
    case True
    have "?x = of_int (n * 2 ^ nat (52 - ?e)) * 2 powi (?e - 52)"
      using True powi_of_int [of "52 - ?e"] power_int_add [of "2::rat" "52 - ?e" "?e - 52"] by simp
    then show ?thesis by (intro fl64_exact [OF x])
  next
    case False
    then have "(2::rat) powi 53 \<le> 2 powi ?e" by (intro powi_2_mono) simp
    also have "\<dots> \<le> ?x" by (rule b)
    finally have "2 ^ 53 \<le> n" by (simp add: power_int_def)
    with assms have n: "n = 2 ^ 53" by simp
    have "(2::rat) powi ?e \<le> 2 powi 53" using b(1) by (simp add: n power_int_def)
    then have "?e = 53" using False powi_2_less_iff [of 53 ?e] by force
    then show ?thesis by (intro fl64_exact [OF x, of "2 ^ 52"]) (simp add: n)
  qed
qed (simp add: fl64_def)

lemma fl64_error:
  assumes "0 \<le> x" "x \<le> 2 powi k"
  shows "\<bar>fl64 x - x\<bar> \<le> 2 powi (k - 54)"
proof (cases "x = 0")
  case True
  then show ?thesis by (simp add: fl64_def)
next
  case False
  with assms have x: "0 < x" by simp
  let ?e = "ilog2 x" let ?u = "(2::rat) powi (ilog2 x - 52)"
  have u: "0 < ?u" by simp
  show ?thesis
  proof (cases "x = 2 powi k")
    case True
    have "\<not> ?e + 1 \<le> k" using ilog2_bounds [OF x] True powi_2_mono [of "?e + 1" k] by auto
    moreover have "\<not> k < ?e" using ilog2_bounds [OF x] True powi_2_less_iff [of k ?e] by auto
    ultimately have "?e = k" by simp
    then have "x = of_int (2 ^ 52) * 2 powi (?e - 52)"
      using True power_int_add [of "2::rat" 52 "k - 52"] by simp
    then have "fl64 x = x" by (rule fl64_exact [OF x])
    then show ?thesis by simp
  next
    case False
    with assms have "2 powi ?e < (2::rat) powi k" using ilog2_bounds [OF x] by linarith
    then have e: "?e \<le> k - 1" by (simp add: powi_2_less_iff)
    have "\<bar>of_int (round_even (x / ?u)) - x / ?u\<bar> \<le> 1 / 2"
      using round_even_bounds [of "x / ?u"] unfolding abs_le_iff by linarith
    then have "\<bar>of_int (round_even (x / ?u)) - x / ?u\<bar> * ?u \<le> 1 / 2 * ?u"
      using u by (intro mult_right_mono) auto
    moreover have "\<bar>of_int (round_even (x / ?u)) - x / ?u\<bar> * ?u = \<bar>fl64 x - x\<bar>"
      using u by (simp add: fl64_pos [OF x] abs_mult_pos left_diff_distrib)
    ultimately have "\<bar>fl64 x - x\<bar> \<le> 1 / 2 * ?u" by simp
    also have "1 / 2 * ?u = 2 powi (?e - 53)" using power_int_add [of "2::rat" 1 "?e - 53"] by simp
    also have "\<dots> \<le> 2 powi (k - 54)" using e by (intro powi_2_mono) simp
    finally show ?thesis .
  qed
qed

interpretation double: fp_rounding fl64
  by unfold_locales (auto intro: fl64_mono fl64_int fl64_error)

end
