(* ===== verification/Bn_Quot.thy ===== *)
theory Bn_Quot
  imports Ieee
begin

text \<open>
  The quotient digit that \<open>bnpDivRemTo\<close> (encrypt/jsbn.js) estimates in floating point from the
  two leading digits of the remainder and of the divisor. For digits of 28 or 30 bits the
  rounding errors stay below the guard \<open>e\<close> the code adds, so that the estimate is the true
  digit or one more; the correction step of the division relies on exactly that.
\<close>

definition quot_est :: "(rat \<Rightarrow> rat) \<Rightarrow> nat \<Rightarrow> int \<Rightarrow> int \<Rightarrow> int \<Rightarrow> int" where
  \<comment> \<open>floor(ri*d1+(r1+e)*d2) with d1 = FV/yt, d2 = (1<<F1)/yt, e = 1<<F2\<close>
  "quot_est fl db yt ri r1 =
     (let F1 = 52 - db; F2 = 2 * db - 52;
          d1 = fl (2 ^ 52 / of_int yt);
          d2 = fl (of_int (2 ^ F1) / of_int yt);
          e = 2 ^ F2
      in \<lfloor>fl (fl (of_int ri * d1) + fl (of_int (r1 + e) * d2))\<rfloor>)"

lemma floor_bounds_rat:
  fixes z :: rat
  shows "of_int q \<le> z \<Longrightarrow> q \<le> \<lfloor>z\<rfloor>" "z < of_int (q + 2) \<Longrightarrow> \<lfloor>z\<rfloor> \<le> q + 1"
  by (simp_all add: le_floor_iff) linarith

context fp_rounding
begin

lemma fl_nonneg: "0 \<le> x \<Longrightarrow> 0 \<le> fl x"
  using fl_mono [of 0 x] fl_int [of 0] by simp

text \<open>
  The rounded sum of products is within \<open>3 * 2 powi (db - 54) + 2 powi (-50)\<close> of the exact
  one.
\<close>

lemma quot_error:
  fixes yt ri r1 e :: int and db :: nat
  assumes db: "28 \<le> db" "db \<le> 30" and yt: "2 ^ 51 \<le> yt" "yt < 2 ^ 52"
    and ri: "0 \<le> ri" "(ri + 1) * 2 ^ (52 - db) \<le> yt" and r1: "0 \<le> r1" "r1 < 2 ^ db"
    and e: "e = 2 ^ (2 * db - 52)"
  defines "d1 \<equiv> fl (2 ^ 52 / of_int yt)" and "d2 \<equiv> fl (of_int (2 ^ (52 - db)) / of_int yt)"
  shows "\<bar>fl (of_int ri * d1) + fl (of_int (r1 + e) * d2)
      - (of_int ri * 2 ^ 52 + of_int (r1 + e) * of_int (2 ^ (52 - db))) / of_int yt\<bar> \<le> 3 * (2 ^ db / 2 ^ 54) + 1 / 2 ^ 50"
proof -
  define T P D1 D2 R where "T = (of_int yt :: rat)" and "P = (2::rat) ^ db" and "D1 = 2 ^ 52 / T"
    and "D2 = of_int (2 ^ (52 - db)) / T" and "R = (of_int ri :: rat)"
  define S where "S = (of_int (r1 + e) :: rat)"
  have "(of_int (2 ^ 51) :: rat) \<le> of_int yt" "(of_int yt :: rat) < of_int (2 ^ 52)"
    using yt by (simp_all only: of_int_le_iff of_int_less_iff)
  then have T: "2 ^ 51 \<le> T" "T < 2 ^ 52" "0 < T" by (simp_all add: T_def)
  have "(2::rat) ^ 28 \<le> 2 ^ db" "(2::rat) ^ db \<le> 2 ^ 30" using db by (intro power_increasing; simp)+
  then have P: "2 ^ 28 \<le> P" "P \<le> 2 ^ 30" "0 < P" by (simp_all add: P_def)
  have F1: "of_int (2 ^ (52 - db)) * P = 2 ^ 52"
    using db by (simp add: P_def flip: power_add)
  have "of_int ((ri + 1) * 2 ^ (52 - db)) \<le> T" using ri(2) unfolding T_def by (rule of_int_le_iff [THEN iffD2])
  then have RT: "(R + 1) * of_int (2 ^ (52 - db)) \<le> T" by (simp add: R_def)
  then have "(R + 1) * of_int (2 ^ (52 - db)) * P \<le> T * P" using P by (intro mult_right_mono) auto
  then have RTP: "(R + 1) * 2 ^ 52 \<le> T * P" using F1 by (simp add: mult.assoc)
  have R0: "0 \<le> R" using ri(1) by (simp add: R_def)
  have D1: "0 \<le> D1" "1 \<le> D1" "D1 \<le> 2 powi 1" using T by (simp_all add: D1_def le_divide_eq divide_le_eq)
  have RD: "R * D1 + D1 \<le> P"
    using RTP T by (simp add: D1_def field_simps)
  have RP: "R \<le> P" using RD D1 R0 mult_left_mono [of 1 D1 R] by simp
  have d1: "\<bar>d1 - D1\<bar> \<le> 1 / 2 ^ 53" using fl_error [OF D1(1,3)] by (simp add: d1_def D1_def T_def power_int_def power_one_over)
  have "\<bar>R * d1 - R * D1\<bar> = R * \<bar>d1 - D1\<bar>" using R0 by (simp add: abs_mult flip: right_diff_distrib)
  also have "\<dots> \<le> P * (1 / 2 ^ 53)" using RP d1 P by (intro mult_mono) auto
  finally have e1: "\<bar>R * d1 - R * D1\<bar> \<le> P / 2 ^ 53" by simp
  have d1n: "0 \<le> d1" using D1 by (auto simp: d1_def D1_def T_def intro!: fl_nonneg)
  have pp: "2 powi int db = P" "2 powi (int db - 54) = P / 2 ^ 54"
    using power_int_diff [of "2::rat" "int db" 54] by (simp_all add: P_def power_int_def)
  have "R * d1 \<le> P" using e1 RD D1(2) P unfolding abs_le_iff by simp
  then have e2: "\<bar>fl (R * d1) - R * d1\<bar> \<le> P / 2 ^ 54"
    using fl_error [of "R * d1" "int db"] R0 d1n unfolding pp by simp
  have "0 \<le> e" "e \<le> 2 ^ db" unfolding e using db by (auto intro: power_increasing)
  then have "0 \<le> r1 + e" "r1 + e \<le> 2 * 2 ^ db" using r1 by linarith+
  then have "0 \<le> S" "S \<le> of_int (2 * 2 ^ db)" unfolding S_def by (simp_all only: of_int_le_iff of_int_0_le_iff)
  then have S: "0 \<le> S" "S \<le> 2 * P" by (simp_all add: P_def)
  have "of_int (2 ^ (52 - db)) * P \<le> 2 * T" using F1 T by simp
  then have D2: "0 \<le> D2" "D2 \<le> 2 / P"
    using T P by (simp_all add: D2_def divide_le_eq le_divide_eq field_simps)
  have q2: "2 powi (1 - int db) = 2 / P"
    using power_int_diff [of "2::rat" 1 "int db"] pp(1) by simp
  have q3: "2 powi (1 - int db - 54) = 2 / P / 2 ^ 54"
    using power_int_diff [of "2::rat" "1 - int db" 54] by (simp add: q2)
  have d2: "\<bar>d2 - D2\<bar> \<le> 2 / P / 2 ^ 54"
    using fl_error [of D2 "1 - int db"] D2 unfolding q2 q3 by (simp add: d2_def D2_def T_def)
  have "\<bar>S * d2 - S * D2\<bar> = S * \<bar>d2 - D2\<bar>" using S by (simp add: abs_mult flip: right_diff_distrib)
  also have "\<dots> \<le> (2 * P) * (2 / P / 2 ^ 54)" using S d2 P by (intro mult_mono) auto
  also have "\<dots> = 1 / 2 ^ 52" using P by simp
  finally have e3: "\<bar>S * d2 - S * D2\<bar> \<le> 1 / 2 ^ 52" .
  have "S * D2 \<le> (2 * P) * (2 / P)" using S D2 P by (intro mult_mono) auto
  also have "\<dots> = 4" using P by simp
  finally have "S * d2 \<le> 2 powi 3" using e3 unfolding abs_le_iff by simp
  moreover have "0 \<le> d2" using D2 by (auto simp: d2_def D2_def T_def intro!: fl_nonneg)
  ultimately have e4: "\<bar>fl (S * d2) - S * d2\<bar> \<le> 1 / 2 ^ 51"
    using fl_error [of "S * d2" 3] S by (simp add: power_int_def power_one_over)
  have "(of_int ri * 2 ^ 52 + of_int (r1 + e) * of_int (2 ^ (52 - db))) / of_int yt = R * D1 + S * D2"
    by (simp add: R_def S_def D1_def D2_def T_def add_divide_distrib)
  then show ?thesis using e1 e2 e3 e4 P unfolding R_def [symmetric] S_def [symmetric] P_def [symmetric]
    abs_le_iff by simp
qed

text \<open>The estimate is the digit or one more.\<close>

lemma quot_est_bounds:
  fixes yt ri r1 q :: int
  assumes db: "28 \<le> db" "db \<le> 30" and yt: "2 ^ 51 \<le> yt" "yt < 2 ^ 52"
    and ri: "0 \<le> ri" "(ri + 1) * 2 ^ (52 - db) \<le> yt" and r1: "0 \<le> r1" "r1 < 2 ^ db"
    and q: "0 \<le> q" "q < 2 ^ db"
    and lo: "q * yt \<le> (ri * 2 ^ db + r1 + 1) * 2 ^ (52 - db)"
    and hi: "(ri * 2 ^ db + r1) * 2 ^ (52 - db) \<le> (q + 1) * (yt + 1)"
  shows "q \<le> quot_est fl db yt ri r1" "quot_est fl db yt ri r1 \<le> q + 1"
proof -
  define e :: int where "e = 2 ^ (2 * db - 52)"
  define T P F Q N s where "T = (of_int yt :: rat)" and "P = (2::rat) ^ db" and "F = (2::rat) ^ (52 - db)"
    and "Q = (of_int q :: rat)" and "N = (of_int (ri * 2 ^ db + r1) :: rat)"
    and "s = fl (of_int ri * fl (2 ^ 52 / of_int yt)) + fl (of_int (r1 + e) * fl (of_int (2 ^ (52 - db)) / of_int yt))"
  define err where "err = 3 * (P / 2 ^ 54) + 1 / (2::rat) ^ 50"
  define x where "x = (N + of_int e) * F / T"
  have est: "quot_est fl db yt ri r1 = \<lfloor>fl s\<rfloor>" by (simp add: quot_est_def Let_def s_def e_def)
  have "(of_int (2 ^ 51) :: rat) \<le> of_int yt" "(of_int yt :: rat) < of_int (2 ^ 52)"
    using yt by (simp_all only: of_int_le_iff of_int_less_iff)
  then have T: "2 ^ 51 \<le> T" "T < 2 ^ 52" "0 < T" by (simp_all add: T_def)
  have "(2::rat) ^ 28 \<le> 2 ^ db" "(2::rat) ^ db \<le> 2 ^ 30" using db by (intro power_increasing; simp)+
  then have P: "2 ^ 28 \<le> P" "P \<le> 2 ^ 30" "0 < P" by (simp_all add: P_def)
  have F: "F * P = 2 ^ 52" "0 < F" using db by (simp_all add: F_def P_def flip: power_add)
  have e: "of_int e * F = P"
    using db by (simp add: e_def F_def P_def flip: power_add)
  have "of_int (q * yt) \<le> (of_int ((ri * 2 ^ db + r1 + 1) * 2 ^ (52 - db)) :: rat)"
    using lo by (rule of_int_le_iff [THEN iffD2])
  then have lo': "Q * T \<le> (N + 1) * F" by (simp add: Q_def T_def N_def F_def)
  have "(of_int ((ri * 2 ^ db + r1) * 2 ^ (52 - db)) :: rat) \<le> of_int ((q + 1) * (yt + 1))"
    using hi by (rule of_int_le_iff [THEN iffD2])
  then have hi': "N * F \<le> (Q + 1) * (T + 1)" by (simp add: Q_def T_def N_def F_def)
  have "(of_int q :: rat) < of_int (2 ^ db)" "(0::rat) \<le> of_int q" using q by (simp_all only: of_int_less_iff of_int_0_le_iff)
  then have Q: "0 \<le> Q" "Q < P" by (simp_all add: Q_def P_def)
  have xx: "(of_int ri * 2 ^ 52 + of_int (r1 + e) * of_int (2 ^ (52 - db))) / of_int yt = x"
    using F(1) by (simp add: x_def N_def T_def F_def P_def algebra_simps)
  have "\<bar>s - x\<bar> \<le> err"
    using quot_error [OF db yt ri r1 e_def] unfolding s_def [symmetric] xx P_def [symmetric] err_def .
  then have sx: "x - err \<le> s" "s \<le> x + err" unfolding abs_le_iff by linarith+
  have "x * T = (N + of_int e) * F" using T(3) by (simp add: x_def)
  also have "\<dots> = N * F + P" using e by (simp add: distrib_right)
  finally have xT: "x * T = N * F + P" .
  have "F * 2 ^ 28 \<le> F * P" using P F(2) by (intro mult_left_mono) auto
  then have F24: "F \<le> 2 ^ 24" unfolding F(1) by simp
  have "P - F \<le> (x - Q) * T" using lo' xT by (simp add: algebra_simps)
  moreover have "0 < P - F" using F24 P by simp
  ultimately have xQ: "0 < x - Q" using T(3) by (metis order_less_le_trans zero_less_mult_pos2)
  have "(x - Q) * T \<le> (x - Q) * 2 ^ 52" using xQ T by (intro mult_left_mono) auto
  with \<open>P - F \<le> (x - Q) * T\<close> have "P - F \<le> (x - Q) * 2 ^ 52" by linarith
  then have "err \<le> x - Q" using P F24 by (simp add: err_def)
  then have Qs: "Q \<le> s" using sx by linarith
  have "(x - Q - 1) * T \<le> Q + 1 + P" using hi' xT by (simp add: algebra_simps)
  also have "\<dots> \<le> 1 / 2 ^ 18 * 2 ^ 51" using Q P by simp
  also have "\<dots> \<le> 1 / 2 ^ 18 * T" using T by (intro mult_left_mono) auto
  finally have "x - Q - 1 \<le> 1 / 2 ^ 18" using T(3) by (rule mult_right_le_imp_le)
  then have up: "s \<le> Q + 1 + 1 / 2 ^ 10" using sx P by (simp add: err_def)
  have "of_int q \<le> fl s"
    using fl_mono [OF Q(1) Qs] fl_int [of q] q power_increasing [of db 53 "2::int"] db by (simp add: Q_def)
  then show "q \<le> quot_est fl db yt ri r1" unfolding est by (rule floor_bounds_rat)
  have s: "0 \<le> s" using Q Qs by simp
  have "s \<le> 2 powi 31" using up Q P by simp
  from fl_error [OF s this] have "fl s \<le> s + 1 / 2 ^ 23"
    unfolding abs_le_iff by (simp add: power_int_def power_one_over)
  then have "fl s < of_int (q + 2)" using up by (simp add: Q_def)
  then show "quot_est fl db yt ri r1 \<le> q + 1" unfolding est by (rule floor_bounds_rat)
qed

text \<open>Two leading zeros give the digit 0.\<close>

lemma quot_est_zero:
  fixes yt :: int
  assumes db: "28 \<le> db" "db \<le> 30" and yt: "2 ^ 51 \<le> yt" "yt < 2 ^ 52"
  shows "quot_est fl db yt 0 0 = 0"
proof -
  define e :: int where "e = 2 ^ (2 * db - 52)"
  define T P s where "T = (of_int yt :: rat)" and "P = (2::rat) ^ db"
    and "s = fl (of_int 0 * fl (2 ^ 52 / of_int yt)) + fl (of_int (0 + e) * fl (of_int (2 ^ (52 - db)) / of_int yt))"
  have est: "quot_est fl db yt 0 0 = \<lfloor>fl s\<rfloor>" by (simp add: quot_est_def Let_def s_def e_def)
  have "(of_int (2 ^ 51) :: rat) \<le> of_int yt" using yt by (simp only: of_int_le_iff)
  then have T: "2 ^ 51 \<le> T" "0 < T" by (simp_all add: T_def)
  have "(2::rat) ^ db \<le> 2 ^ 30" using db by (intro power_increasing; simp)
  then have P: "P \<le> 2 ^ 30" "0 < P" by (simp_all add: P_def)
  have e: "of_int e * of_int (2 ^ (52 - db)) = P" using db by (simp add: e_def P_def flip: power_add)
  have "(2::int) ^ (52 - db) \<le> 2 ^ 51" using db by (intro power_increasing) auto
  then have F: "(0 + 1) * 2 ^ (52 - db) \<le> yt" using yt(1) by simp
  have "\<bar>s - P / T\<bar> \<le> 3 * (P / 2 ^ 54) + 1 / 2 ^ 50"
    using quot_error [OF db yt order_refl F order_refl _ e_def] e
    by (simp add: s_def P_def T_def)
  moreover have "P / T \<le> 1 / 2 ^ 20" using P T by (simp add: divide_le_eq)
  ultimately have s1: "s \<le> 1 / 2" using P(1) unfolding abs_le_iff by simp
  have "0 \<le> e" by (simp add: e_def)
  then have s0: "0 \<le> s" using yt by (auto simp: s_def intro!: add_nonneg_nonneg fl_nonneg mult_nonneg_nonneg)
  have "s \<le> 2 powi 1" using s1 by simp
  from fl_error [OF s0 this] have "fl s < 1"
    using s1 unfolding abs_le_iff by (simp add: power_int_def power_one_over)
  then show ?thesis using fl_nonneg [OF s0] unfolding est by linarith
qed

end

end
