(* ===== verification/Bn_Div.thy ===== *)
theory Bn_Div
  imports Bn_Mul Bn_Quot
begin

text \<open>
  Division with remainder of jsbn's big integers (\<open>bnpDivRemTo\<close>, \<open>bnMod\<close> of
  encrypt/jsbn.js): the divisor is normalised so that its top digit is at least half the base,
  each quotient digit is estimated in floating point, and the product with the complement of
  the divisor is added and, if the estimate was one too large, taken back.
\<close>

section \<open>The code\<close>

definition div_qd :: "bnproto \<Rightarrow> int \<Rightarrow> int \<Rightarrow> int \<Rightarrow> int \<Rightarrow> int" where
  "div_qd E y0 yt ri r1 = (if ri = y0 then DM E else quot_est fl64 (DB E) yt ri r1)"

partial_function (option) div_fix :: "bnproto \<Rightarrow> nat \<Rightarrow> bn \<Rightarrow> int \<Rightarrow> bn \<Rightarrow> bn option" where
  \<comment> \<open>while(r[i] < --qd) r.subTo(t,r);\<close>
  "div_fix E i t qd r =
     (if get (bn_d r) i < qd - 1 then div_fix E i t (qd - 1) (bnpSubTo E Self (Obj t) r) else Some r)"

definition div_round :: "bnproto \<Rightarrow> bn \<Rightarrow> nat \<Rightarrow> int \<Rightarrow> int \<Rightarrow> nat \<Rightarrow> bn \<times> bn \<Rightarrow> (bn \<times> bn) option" where
  \<comment> \<open>the body of while(--j >= 0), with i = j + ys\<close>
  "div_round E y ys y0 yt j rt =
     (let (r, t) = rt; i = j + ys;
          qd = div_qd E y0 yt (get (bn_d r) i) (get (bn_d r) (i - 1));
          old = get (bn_d r) i;
          (w, c) = am E (bn_d y) 0 qd (bn_d r) j 0 ys;
          r = r\<lparr>bn_d := put w i (old + c)\<rparr>
      in if get (bn_d r) i < qd then
           let t = bnpDLShiftTo (Obj y) j t;
               r = bnpSubTo E Self (Obj t) r
           in map_option (\<lambda>r. (r, t)) (div_fix E i t qd r)
         else Some (r, t))"

definition dlShift_int :: "operand \<Rightarrow> int \<Rightarrow> bn \<Rightarrow> bn" where
  \<comment> \<open>y.dlShiftTo(j,t) for a \<open>j\<close> that may be negative: r[i+n] = this[i] then moves digits down, and the
     negative indices are no digits\<close>
  "dlShift_int this n r = (if 0 \<le> n then bnpDLShiftTo this (nat n) r else bnpDRShiftTo this (nat (- n)) r)"

definition div_pad :: "nat \<Rightarrow> bn \<Rightarrow> bn" where
  \<comment> \<open>while(y.t < ys) y[y.t++] = 0;\<close>
  "div_pad ys y = y\<lparr>bn_d := for_up (bn_t y) ys (\<lambda>i w. put w i 0) (bn_d y), bn_t := max (bn_t y) ys\<rparr>"

definition bnpDivRemTo :: "bnproto \<Rightarrow> operand \<Rightarrow> bn \<Rightarrow> bn option \<Rightarrow> bn option \<Rightarrow> (bn option \<times> bn option) option" where
  \<comment> \<open>None as \<open>q\<close> or \<open>r\<close> is null; \<open>Self\<close> as receiver is \<open>r\<close> itself\<close>
  "bnpDivRemTo E this m qo ro =
     (let pm = bnAbs E m in
      if bn_t pm \<le> 0 then Some (qo, ro)
      else
        let r = (case ro of None \<Rightarrow> nbi | Some r \<Rightarrow> r);
            x = obj this r;
            pt = (if bn_s x < 0 then Obj (bnNegate E x) else this)
        in if bn_t (obj pt r) < bn_t pm then
             Some (map_option (bnpFromInt E 0) qo, map_option (bnpCopyTo this) ro)
           else
             let ts = bn_s x; ms = bn_s m;
                 nsh = DB E - nbits (get (bn_d pm) (bn_t pm - 1));
                 (y, r) = (if nsh > 0 then (bnpLShiftTo E (Obj pm) nsh nbi, bnpLShiftTo E pt nsh r)
                           else (bnpCopyTo (Obj pm) nbi, bnpCopyTo pt r));
                 ys = bn_t y;
                 y0 = get (bn_d y) (ys - 1)
             in if y0 = 0 then Some (qo, map_option (\<lambda>_. r) ro)
                else
                  let yt = y0 * 2 ^ (52 - DB E)
                         + (if ys > 1 then js_sar (get (bn_d y) (ys - 2)) (2 * DB E - 52) else 0);
                      i = bn_t r; j = int i - int ys;
                      t = (case qo of None \<Rightarrow> nbi | Some q \<Rightarrow> q);
                      t = dlShift_int (Obj y) j t;
                      r = (if bnCompareTo r t \<ge> 0
                           then bnpSubTo E Self (Obj t)
                                  (r\<lparr>bn_d := put (bn_d r) (bn_t r) 1, bn_t := bn_t r + 1\<rparr>)
                           else r);
                      t = bnpDLShiftTo (Obj (bn_ONE E)) ys t;
                      y = div_pad ys (bnpSubTo E (Obj t) Self y)
                  in case foldM (div_round E y ys y0 yt) (rev [0..<nat j]) (r, t) of
                       None \<Rightarrow> None
                     | Some (r, t) \<Rightarrow>
                         let qo = (if qo = None then None
                                   else let q = bnpDRShiftTo (Obj r) ys t
                                        in Some (if ts \<noteq> ms then bnpSubTo E (Obj (bn_ZERO E)) Self q else q));
                             r = bnpClamp E (r\<lparr>bn_t := ys\<rparr>);
                             r = (if nsh > 0 then bnpRShiftTo E Self nsh r else r);
                             r = (if ts < 0 then bnpSubTo E (Obj (bn_ZERO E)) Self r else r)
                         in Some (qo, map_option (\<lambda>_. r) ro))"

definition bnMod :: "bnproto \<Rightarrow> bn \<Rightarrow> bn \<Rightarrow> bn option" where
  "bnMod E this a =
     (case bnpDivRemTo E (Obj (bnAbs E this)) a None (Some nbi) of
        Some (_, Some r) \<Rightarrow>
          Some (if bn_s this < 0 \<and> bnCompareTo r (bn_ZERO E) > 0 then bnpSubTo E (Obj a) Self r else r)
      | _ \<Rightarrow> None)"

section \<open>The quotient digit\<close>

locale div_engine = digit_engine +
  assumes DB_div: "28 \<le> DB E"
begin

definition normal_yt :: "int list \<Rightarrow> nat \<Rightarrow> int" where
  "normal_yt y ys = get y (ys - 1) * 2 ^ (52 - DB E)
     + (if ys > 1 then js_sar (get y (ys - 2)) (2 * DB E - 52) else 0)"

lemma base_split: "base E = 2 ^ (52 - DB E) * 2 ^ (2 * DB E - 52)"
  using DB_div DB_upper by (simp add: base_def flip: power_add)

text \<open>\<open>yt\<close> holds the leading 52 bits of the divisor.\<close>

lemma yt_bounds:
  assumes ys: "0 < ys" and dig: "digits (base E) y 0 ys" and norm: "base E \<le> 2 * get y (ys - 1)"
  shows "2 ^ 51 \<le> normal_yt y ys" "normal_yt y ys < 2 ^ 52"
    "normal_yt y ys * base E ^ (ys - 1) \<le> uval (base E) y 0 ys * 2 ^ (52 - DB E)"
    "uval (base E) y 0 ys * 2 ^ (52 - DB E) < (normal_yt y ys + 1) * base E ^ (ys - 1)"
    "get y (ys - 1) * 2 ^ (52 - DB E) \<le> normal_yt y ys" "normal_yt y ys < (get y (ys - 1) + 1) * 2 ^ (52 - DB E)"
proof -
  let ?b = "base E"
  define F G :: int where "F = 2 ^ (52 - DB E)" and "G = 2 ^ (2 * DB E - 52)"
  have b: "?b = F * G" and FG: "0 < F" "0 < G" by (simp_all add: base_split F_def G_def)
  have bF: "?b * F = 2 ^ 52" using DB_div DB_upper by (simp add: base_def F_def flip: power_add)
  let ?y0 = "get y (ys - 1)"
  have y0: "?y0 < ?b" using digitsD [OF dig, of "ys - 1"] ys by simp
  have main: "0 \<le> normal_yt y ys - ?y0 * F \<and> normal_yt y ys - ?y0 * F < F \<and>
    normal_yt y ys * ?b ^ (ys - 1) \<le> uval ?b y 0 ys * F \<and>
    uval ?b y 0 ys * F < (normal_yt y ys + 1) * ?b ^ (ys - 1)"
  proof (cases "ys = 1")
    case True
    then show ?thesis using FG by (simp add: normal_yt_def F_def uval_Suc algebra_simps)
  next
    case False
    with ys obtain n where n: "ys = Suc (Suc n)" by (metis One_nat_def gr0_implies_Suc not_gr0)
    define y1 where "y1 = get y n"
    define U where "U = uval ?b y 0 n"
    have d1: "0 \<le> y1" "y1 < ?b" using digitsD [OF dig, of n] n by (simp_all add: y1_def)
    have U: "0 \<le> U" "U < ?b ^ n" using digits_sub [OF dig, of 0 n] n
      by (auto simp: U_def intro: uval_nonneg uval_less)
    have sar: "js_sar y1 (2 * DB E - 52) = y1 div G"
      using d1 base_num DB_upper by (simp add: js_sar_div G_def)
    define h where "h = y1 div G"
    have yt: "normal_yt y ys = ?y0 * F + h" using n sar by (simp add: normal_yt_def F_def y1_def h_def)
    have "0 \<le> h" using d1 FG by (simp add: h_def pos_imp_zdiv_nonneg_iff)
    moreover have "h < F" unfolding h_def using d1 FG by (intro div_less_int) (simp_all add: b)
    moreover have hG: "h * G \<le> y1" "y1 + 1 \<le> (h + 1) * G"
      using div_mult_mod_eq [of y1 G] pos_mod_bound [OF FG(2), of y1] pos_mod_sign [OF FG(2), of y1]
      unfolding h_def distrib_right by linarith+
    define P Q where "P = F * ?b ^ n" and "Q = ?b * ?b ^ n"
    have PQ: "G * P = Q" "0 < P" using FG by (simp_all add: P_def Q_def b)
    have "h * G * P \<le> y1 * P" "(y1 + 1) * P \<le> (h + 1) * G * P"
      using hG PQ by (intro mult_right_mono; simp)+
    then have "h * Q \<le> y1 * P" "y1 * P + P \<le> h * Q + Q"
      by (simp_all add: PQ(1) [symmetric] algebra_simps)
    moreover have "0 \<le> U * F" "U * F < P" using U FG by (simp_all add: P_def mult.commute)
    moreover have "uval ?b y 0 ys * F = U * F + y1 * P + ?y0 * F * Q"
      using n by (simp add: uval_Suc U_def y1_def P_def Q_def algebra_simps)
    moreover have "normal_yt y ys * ?b ^ (ys - 1) = ?y0 * F * Q + h * Q"
      "(normal_yt y ys + 1) * ?b ^ (ys - 1) = ?y0 * F * Q + h * Q + Q"
      unfolding yt Q_def using n by (simp_all add: algebra_simps)
    ultimately show ?thesis using yt by linarith
  qed
  then show "normal_yt y ys * ?b ^ (ys - 1) \<le> uval ?b y 0 ys * 2 ^ (52 - DB E)"
    "uval ?b y 0 ys * 2 ^ (52 - DB E) < (normal_yt y ys + 1) * ?b ^ (ys - 1)"
    "?y0 * 2 ^ (52 - DB E) \<le> normal_yt y ys" "normal_yt y ys < (?y0 + 1) * 2 ^ (52 - DB E)"
    unfolding F_def [symmetric] by (simp_all add: distrib_right)
  have "?b * F \<le> 2 * ?y0 * F" using norm FG by (intro mult_right_mono) auto
  then show "2 ^ 51 \<le> normal_yt y ys" unfolding bF using main by (simp add: mult.commute [of F])
  have "(?y0 + 1) * F \<le> ?b * F" using y0 FG by (intro mult_right_mono) auto
  then show "normal_yt y ys < 2 ^ 52" unfolding bF using main by (simp add: distrib_right)
qed

lemma qd_ok:
  assumes ys: "0 < ys" and dig: "digits (base E) y 0 ys" and norm: "base E \<le> 2 * get y (ys - 1)"
    and r: "digits (base E) r j (ys + 1)"
    and W: "uval (base E) r j (ys + 1) < uval (base E) y 0 ys * base E"
  defines "q \<equiv> uval (base E) r j (ys + 1) div uval (base E) y 0 ys"
    and "qd \<equiv> div_qd E (get y (ys - 1)) (normal_yt y ys) (get r (j + ys)) (get r (j + ys - 1))"
  shows "0 \<le> q" "q < base E" "q \<le> qd" "qd \<le> q + 1"
proof -
  let ?b = "base E" let ?c = "?b ^ (ys - 1)"
  define F Y V yt y0 ri r1 where "F = (2 :: int) ^ (52 - DB E)" and "Y = uval ?b y 0 ys"
    and "V = uval ?b r j (ys + 1)" and "yt = normal_yt y ys" and "y0 = get y (ys - 1)"
    and "ri = get r (j + ys)" and "r1 = get r (j + ys - 1)"
  note ytb = yt_bounds [OF ys dig norm, folded F_def Y_def yt_def y0_def]
  have F: "0 < F" and c: "0 < ?c" by (simp_all add: F_def)
  obtain n where n: "ys = Suc n" using ys by (cases ys) auto
  have d: "0 \<le> ri" "ri < ?b" "0 \<le> r1" "r1 < ?b"
    using digitsD [OF r, of "j + ys"] digitsD [OF r, of "j + ys - 1"] ys by (simp_all add: ri_def r1_def)
  have y0: "?b \<le> 2 * y0" "y0 < ?b" using norm digitsD [OF dig, of "ys - 1"] ys by (simp_all add: y0_def)
  define U where "U = uval ?b r j n"
  have U: "0 \<le> U" "U < ?c" using digits_sub [OF r, of j n] n by (auto simp: U_def intro: uval_nonneg uval_less)
  have V: "V = U + (ri * ?b + r1) * ?c"
    using n by (simp add: V_def U_def uval_Suc ri_def r1_def algebra_simps)
  define N where "N = ri * ?b + r1"
  have VN: "N * ?c \<le> V" "V < (N + 1) * ?c" using U by (simp_all add: V N_def distrib_right)
  define T where "T = uval ?b y 0 n"
  have T: "0 \<le> T" "T < ?c" using digits_sub [OF dig, of 0 n] n by (auto simp: T_def intro: uval_nonneg uval_less)
  have Y: "Y = T + y0 * ?c" using n by (simp add: Y_def T_def uval_Suc y0_def)
  have Yb: "y0 * ?c \<le> Y" "Y < (y0 + 1) * ?c" using T by (simp_all add: Y distrib_right)
  have Y0: "0 < Y" using y0 Yb(1) c base_num by (smt (verit) mult_pos_pos)
  have qV: "q = V div Y" by (simp add: q_def V_def Y_def)
  have N0: "0 \<le> N" using d by (simp add: N_def)
  then have "0 \<le> N * ?c" using c by simp
  then have V0: "0 \<le> V" using VN(1) by linarith
  show q0: "0 \<le> q" using V0 Y0 by (simp add: qV pos_imp_zdiv_nonneg_iff)
  have WY: "V < ?b * Y" using W by (simp add: V_def Y_def mult.commute)
  show qb: "q < ?b" unfolding qV using Y0 WY by (rule div_less_int)
  have qm: "q * Y \<le> V" "V < (q + 1) * Y"
    using div_mult_mod_eq [of V Y] pos_mod_bound [OF Y0, of V] pos_mod_sign [OF Y0, of V]
    unfolding qV distrib_right by linarith+
  have "q \<le> qd \<and> qd \<le> q + 1"
  proof (cases "ri = y0")
    case True
    have qd: "qd = ?b - 1" using True by (simp add: qd_def div_qd_def ri_def y0_def DM_base)
    have "(?b - 2) * Y \<le> (?b - 2) * ((y0 + 1) * ?c)" using Yb(2) base_num by (intro mult_left_mono) auto
    also have "\<dots> = (?b - 2) * (y0 + 1) * ?c" by (rule mult.assoc [symmetric])
    also have "\<dots> \<le> N * ?c"
    proof (rule mult_right_mono)
      have "(?b - 2) * (y0 + 1) = y0 * ?b + (?b - 2 * y0) - 2" by (simp add: algebra_simps)
      then show "(?b - 2) * (y0 + 1) \<le> N" using y0 d by (simp add: N_def True)
    qed (use c in simp)
    also have "\<dots> \<le> V" by (rule VN)
    also have "\<dots> < (q + 1) * Y" by (rule qm)
    finally have "?b - 2 < q + 1" by (rule mult_right_less_imp_less) (use Y0 in simp)
    then show ?thesis using qd qb by simp
  next
    case False
    have "(ri * ?b) * ?c \<le> N * ?c" using d c by (intro mult_right_mono) (auto simp: N_def)
    also have "\<dots> \<le> V" by (rule VN)
    also have "\<dots> < ?b * ((y0 + 1) * ?c)"
      by (rule order_less_trans [OF WY mult_strict_left_mono [OF Yb(2) base_pos(1)]])
    finally have "ri * (?b * ?c) < (y0 + 1) * (?b * ?c)" by (simp add: algebra_simps)
    then have "ri < y0 + 1" by (rule mult_right_less_imp_less) (use c in simp)
    with False have "ri + 1 \<le> y0" by simp
    then have "(ri + 1) * F \<le> y0 * F" using F by (intro mult_right_mono) auto
    then have riF: "(ri + 1) * F \<le> yt" using ytb by linarith
    have "q * yt * ?c \<le> q * (Y * F)" using ytb(3) q0 by (simp add: mult.assoc mult_left_mono)
    also have "\<dots> \<le> V * F" using qm F by (simp add: mult.assoc [symmetric])
    also have "\<dots> \<le> (N + 1) * F * ?c" using VN F by (simp add: mult.commute mult.left_commute mult_left_mono)
    finally have lo: "q * yt \<le> (N + 1) * F" by (rule mult_right_le_imp_le) (rule c)
    have "N * F * ?c \<le> V * F" using VN F by (simp add: mult.commute mult.left_commute mult_left_mono)
    also have "\<dots> \<le> (q + 1) * (Y * F)" using qm F by (simp add: mult.assoc [symmetric])
    also have "\<dots> \<le> (q + 1) * ((yt + 1) * ?c)" using ytb(4) q0 by (intro mult_left_mono) auto
    also have "\<dots> = (q + 1) * (yt + 1) * ?c" by (rule mult.assoc [symmetric])
    finally have hi: "N * F \<le> (q + 1) * (yt + 1)" by (rule mult_right_le_imp_le) (rule c)
    have "qd = quot_est fl64 (DB E) yt ri r1"
      using False by (simp add: qd_def div_qd_def ri_def r1_def y0_def yt_def)
    then show ?thesis
      using double.quot_est_bounds [OF DB_div DB_upper ytb(1,2) d(1) riF [unfolded F_def] d(3)
        d(4) [unfolded base_def] q0 qb [unfolded base_def] lo [unfolded N_def F_def base_def]
        hi [unfolded N_def F_def base_def]] by simp
  qed
  then show "q \<le> qd" "qd \<le> q + 1" by simp_all
qed

section \<open>One round of the division\<close>

text \<open>
  Before the round for \<open>j = k - 1\<close> the low \<open>k + ys\<close> digits hold what is left of the dividend,
  less than the divisor shifted by \<open>k\<close> digits; the digits above hold the quotient so far. The
  length \<open>t\<close> may be shorter, when a correction has clamped leading zeros.
\<close>

definition div_inv :: "int \<Rightarrow> nat \<Rightarrow> int \<Rightarrow> nat \<Rightarrow> bn \<Rightarrow> bool" where
  "div_inv Y ys v k r \<longleftrightarrow> bn_s r = 0 \<and> digits (base E) (bn_d r) 0 (bn_t r) \<and>
     digits (base E) (bn_d r) 0 (k + ys) \<and> (\<forall>c. bn_t r \<le> c \<and> c < k + ys \<longrightarrow> get (bn_d r) c = 0) \<and>
     uval (base E) (bn_d r) 0 (k + ys) < Y * base E ^ k \<and> uval (base E) (bn_d r) 0 (k + ys) mod Y = v mod Y"

lemma uval_high_zero:
  assumes "digits (base E) xs i (n + m)" "uval (base E) xs i (n + m) < base E ^ n" "n \<le> k" "k < n + m"
  shows "get xs (i + k) = 0"
proof (rule ccontr)
  assume "get xs (i + k) \<noteq> 0"
  then have g: "1 \<le> get xs (i + k)" using digitsD(1) [OF assms(1), of "i + k"] assms(4) by force
  have d: "digits (base E) xs i k" "digits (base E) xs (i + Suc k) (n + m - Suc k)"
    using assms by (auto elim!: digits_sub)
  have e: "n + m = Suc k + (n + m - Suc k)" using assms(4) by simp
  have "uval (base E) xs i (n + m) = uval (base E) xs i k + get xs (i + k) * base E ^ k
      + base E ^ Suc k * uval (base E) xs (i + Suc k) (n + m - Suc k)"
    by (subst e) (simp only: uval_add uval_Suc)
  moreover have "0 \<le> uval (base E) xs i k" "0 \<le> base E ^ Suc k * uval (base E) xs (i + Suc k) (n + m - Suc k)"
    using uval_nonneg [OF d(1)] uval_nonneg [OF d(2)] by simp_all
  moreover have "1 * base E ^ k \<le> get xs (i + k) * base E ^ k" using g by (intro mult_right_mono) auto
  moreover have "base E ^ n \<le> base E ^ k" using assms(3) base_num by (intro power_increasing) auto
  ultimately show False using assms(2) by linarith
qed

lemma div_fix_stop: "qd - 1 \<le> get (bn_d r) i \<Longrightarrow> div_fix E i t qd r = Some r"
  by (subst div_fix.simps) simp

text \<open>
  The window of \<open>ys + 1\<close> digits from \<open>j\<close> on after the multiply-accumulate: its value is reduced by
  \<open>qd\<close> times the divisor, and \<open>qd\<close> is added to the digit above. Either the digit is \<open>qd\<close> and the
  estimate was right, or it is \<open>qd - 1\<close> and the divisor has to be added back once.
\<close>

lemma window:
  fixes Y P W q qd W1 v :: int
  assumes Y: "0 < Y" "Y \<le> P" and q: "q = W div Y" "0 \<le> W" and qd: "q \<le> qd" "qd \<le> q + 1"
    and W1: "0 \<le> W1" "W1 < P" and eq: "W1 + v * P = W + qd * (P - Y)"
  shows "(qd = q \<and> v = q \<and> W1 = W mod Y) \<or> (qd = q + 1 \<and> v = q \<and> W1 = W mod Y + (P - Y))"
proof -
  have m: "W = q * Y + W mod Y" "0 \<le> W mod Y" "W mod Y < Y"
    using Y(1) div_mult_mod_eq [of W Y] by (simp_all add: q(1))
  have unique: "a = 0" if "a * P = d" "-P < d" "d < P" for a d :: int
  proof -
    have "(-1) * P < a * P" "a * P < 1 * P" using that by simp_all
    moreover have "0 < P" using Y by simp
    ultimately have "-1 < a" "a < 1" by (simp_all only: mult_less_cancel_right_pos)
    then show ?thesis by simp
  qed
  consider "qd = q" | "qd = q + 1" using qd by linarith
  then show ?thesis
  proof cases
    case 1
    have "W1 + v * P = W mod Y + q * P" using eq m(1) 1 by (simp add: algebra_simps)
    then have "(v - q) * P = W mod Y - W1" by (simp add: algebra_simps)
    from unique [OF this] have "v - q = 0" using m W1 Y by linarith
    then show ?thesis using 1 \<open>W1 + v * P = W mod Y + q * P\<close> by simp
  next
    case 2
    have "W1 + v * P = W mod Y - Y + (q + 1) * P" using eq m(1) 2 by (simp add: algebra_simps)
    then have e: "(v - q) * P = W mod Y + (P - Y) - W1" by (simp add: algebra_simps)
    from unique [OF this] have "v - q = 0" using m W1 Y by linarith
    then show ?thesis using 2 e by simp
  qed
qed

lemma low_part:
  fixes u W Y P :: int
  assumes "u < P" "0 < Y" "0 < P"
  shows "u + P * (W mod Y) < Y * P" "(u + P * (W mod Y)) mod Y = (u + P * W) mod Y"
proof -
  have "P * (W mod Y) \<le> P * (Y - 1)" using assms pos_mod_bound [of Y W] by (intro mult_left_mono) auto
  then show "u + P * (W mod Y) < Y * P" using assms by (simp add: algebra_simps)
  show "(u + P * (W mod Y)) mod Y = (u + P * W) mod Y"
    by (metis mod_add_right_eq mod_mult_right_eq)
qed

definition divisor :: "int \<Rightarrow> nat \<Rightarrow> int list \<Rightarrow> bn \<Rightarrow> bool" where
  "divisor Y ys y yn \<longleftrightarrow> 0 < ys \<and> digits (base E) y 0 ys \<and> base E \<le> 2 * get y (ys - 1) \<and>
     Y = uval (base E) y 0 ys \<and> bn_t yn = ys \<and> bn_s yn = 0 \<and> digits (base E) (bn_d yn) 0 ys \<and>
     uval (base E) (bn_d yn) 0 ys = base E ^ ys - Y"

lemma divisor_bounds:
  assumes "divisor Y ys y yn"
  shows "0 < Y" "Y < base E ^ ys" "base E ^ (ys - 1) \<le> Y"
proof -
  have ys: "0 < ys" and d: "digits (base E) y 0 ys" and n: "base E \<le> 2 * get y (ys - 1)"
    and Y: "Y = uval (base E) y 0 ys" using assms by (auto simp: divisor_def)
  show "Y < base E ^ ys" unfolding Y using d by (rule uval_less) simp
  from ys obtain n where n': "ys = Suc n" by (cases ys) auto
  have "0 \<le> uval (base E) y 0 n" using digits_sub [OF d, of 0 n] n' by (intro uval_nonneg) auto
  moreover have "1 * base E ^ n \<le> get y n * base E ^ n" using n n' base_num by (intro mult_right_mono) auto
  ultimately show le: "base E ^ (ys - 1) \<le> Y" unfolding Y n' uval_Suc add_0 diff_Suc_1 by linarith
  show "0 < Y" using le by (rule order_less_le_trans [rotated]) simp
qed

lemma div_trial:
  assumes dv: "divisor Y ys y yn" and inv: "div_inv Y ys v (Suc j) r"
  defines "W \<equiv> uval (base E) (bn_d r) j (ys + 1)" and "old \<equiv> get (bn_d r) (j + ys)"
    and "qd \<equiv> div_qd E (get y (ys - 1)) (normal_yt y ys) (get (bn_d r) (j + ys)) (get (bn_d r) (j + ys - 1))"
  obtains w c where "am E (bn_d yn) 0 qd (bn_d r) j 0 ys = (w, c)" "digits (base E) w j ys"
    "\<And>k. k < j \<or> j + ys \<le> k \<Longrightarrow> get w k = get (bn_d r) k"
    "0 \<le> W div Y" "W div Y < base E" "old + c = W div Y"
    "(qd = W div Y \<and> uval (base E) w j ys = W mod Y) \<or>
     (qd = W div Y + 1 \<and> uval (base E) w j ys = W mod Y + (base E ^ ys - Y))"
    "bn_t r < j + ys \<Longrightarrow> qd = 0"
proof -
  let ?b = "base E"
  have ys: "0 < ys" and d: "digits ?b y 0 ys" and n: "?b \<le> 2 * get y (ys - 1)"
    and Y: "uval ?b y 0 ys = Y" and yn: "digits ?b (bn_d yn) 0 ys" "uval ?b (bn_d yn) 0 ys = ?b ^ ys - Y"
    using dv by (auto simp: divisor_def)
  note Yb = divisor_bounds [OF dv]
  have dr: "digits ?b (bn_d r) 0 (Suc j + ys)" and L: "uval ?b (bn_d r) 0 (Suc j + ys) < Y * ?b ^ Suc j"
    and z: "\<And>c. bn_t r \<le> c \<Longrightarrow> c < Suc j + ys \<Longrightarrow> get (bn_d r) c = 0"
    using inv by (auto simp: div_inv_def)
  have dw: "digits ?b (bn_d r) j (ys + 1)" "digits ?b (bn_d r) j ys" using dr by (auto elim!: digits_sub)
  have W0: "0 \<le> W" using uval_nonneg [OF dw(1)] by (simp add: W_def)
  have "0 \<le> uval ?b (bn_d r) 0 j" using digits_sub [OF dr, of 0 j] by (intro uval_nonneg) auto
  moreover have "uval ?b (bn_d r) 0 (Suc j + ys) = uval ?b (bn_d r) 0 j + ?b ^ j * W"
    using uval_add [of ?b "bn_d r" 0 j "ys + 1"] by (simp add: W_def)
  moreover have "Y * ?b ^ Suc j = ?b ^ j * (Y * ?b)" by simp
  ultimately have "?b ^ j * W < ?b ^ j * (Y * ?b)" using L by linarith
  then have W: "W < Y * ?b" by (rule mult_left_less_imp_less) simp
  note q = qd_ok [OF ys d n dw(1), unfolded Y, folded W_def, OF W, folded qd_def]
  have "0 \<le> qd" "qd < 2 * ?b" using q base_num by auto
  moreover have "0 < 3 * ?b" by simp
  ultimately obtain w c
    where am: "am E (bn_d yn) 0 qd (bn_d r) j 0 ys = (w, c)" and dg: "digits ?b w j ys"
      and eq: "uval ?b w j ys + c * ?b ^ ys = uval ?b (bn_d r) j ys + qd * (?b ^ ys - Y) + 0"
      and fr: "\<And>k. k < j \<or> j + ys \<le> k \<Longrightarrow> get w k = get (bn_d r) k"
    using am_ok [OF _ _ order_refl _ yn(1) dw(2), of qd] unfolding yn(2) by metis
  have Ws: "W = uval ?b (bn_d r) j ys + old * ?b ^ ys" by (simp add: W_def uval_Suc old_def)
  have "uval ?b w j ys + (old + c) * ?b ^ ys = W + qd * (?b ^ ys - Y)"
    using eq unfolding Ws by (simp add: algebra_simps)
  from window [OF Yb(1) _ refl W0 q(3,4) uval_nonneg [OF dg] uval_less [OF dg] this]
  have cases: "(qd = W div Y \<and> old + c = W div Y \<and> uval ?b w j ys = W mod Y) \<or>
     (qd = W div Y + 1 \<and> old + c = W div Y \<and> uval ?b w j ys = W mod Y + (?b ^ ys - Y))" using Yb by auto
  have "qd = 0" if "bn_t r < j + ys"
  proof -
    have "get (bn_d r) (j + ys) = 0" "get (bn_d r) (j + ys - 1) = 0" using z that ys by auto
    moreover have "get y (ys - 1) \<noteq> 0" using n base_num by auto
    ultimately show ?thesis
      using double.quot_est_zero [OF DB_div DB_upper yt_bounds(1,2) [OF ys d n]]
      by (simp add: qd_def div_qd_def)
  qed
  then show thesis using that [OF am dg fr q(1,2)] cases by auto
qed

lemma low_split:
  assumes "div_inv Y ys v (Suc j) r"
  shows "0 \<le> uval (base E) (bn_d r) 0 j" "uval (base E) (bn_d r) 0 j < base E ^ j"
    "uval (base E) (bn_d r) 0 (Suc j + ys) = uval (base E) (bn_d r) 0 j + base E ^ j * uval (base E) (bn_d r) j (ys + 1)"
    "digits (base E) (bn_d r) j (ys + 1)"
proof -
  have dr: "digits (base E) (bn_d r) 0 (Suc j + ys)" using assms by (simp add: div_inv_def)
  then have "digits (base E) (bn_d r) 0 j" by (rule digits_sub) auto
  then show "0 \<le> uval (base E) (bn_d r) 0 j" "uval (base E) (bn_d r) 0 j < base E ^ j"
    by (auto intro: uval_nonneg uval_less)
  show "uval (base E) (bn_d r) 0 (Suc j + ys) = uval (base E) (bn_d r) 0 j + base E ^ j * uval (base E) (bn_d r) j (ys + 1)"
    using uval_add [of "base E" "bn_d r" 0 j "ys + 1"] by simp
  show "digits (base E) (bn_d r) j (ys + 1)" using dr by (rule digits_sub) auto
qed

lemma trial_digits:
  assumes inv: "div_inv Y ys v (Suc j) r" and dw: "digits (base E) w j ys"
    and fr: "\<And>k. k < j \<or> j + ys \<le> k \<Longrightarrow> get w k = get (bn_d r) k" and q: "0 \<le> q" "q < base E"
  shows "digits (base E) (put w (j + ys) q) 0 (bn_t r)" "digits (base E) (put w (j + ys) q) 0 (j + ys)"
    "uval (base E) (put w (j + ys) q) 0 (j + ys)
      = uval (base E) (bn_d r) 0 j + base E ^ j * uval (base E) w j ys"
proof -
  have cell: "0 \<le> get (put w (j + ys) q) k \<and> get (put w (j + ys) q) k < base E" if "k < Suc j + ys \<or> k < bn_t r" for k
  proof -
    consider "j \<le> k \<and> k < j + ys" | "k = j + ys" | "k < j \<or> j + ys < k" by linarith
    then show ?thesis
      using that digitsD [OF dw, of k] fr [of k] q inv
      by cases (auto simp: div_inv_def digits_def)
  qed
  then show "digits (base E) (put w (j + ys) q) 0 (bn_t r)" "digits (base E) (put w (j + ys) q) 0 (j + ys)"
    by (intro digitsI cell; simp)+
  have "uval (base E) (put w (j + ys) q) 0 j = uval (base E) (bn_d r) 0 j" using fr by (intro uval_cong) auto
  moreover have "uval (base E) (put w (j + ys) q) j ys = uval (base E) w j ys" by (rule uval_put_other) simp
  ultimately show "uval (base E) (put w (j + ys) q) 0 (j + ys)
      = uval (base E) (bn_d r) 0 j + base E ^ j * uval (base E) w j ys"
    by (simp add: uval_add)
qed

lemma div_keep:
  assumes dv: "divisor Y ys y yn" and inv: "div_inv Y ys v (Suc j) r" and dw: "digits (base E) w j ys"
    and fr: "\<And>k. k < j \<or> j + ys \<le> k \<Longrightarrow> get w k = get (bn_d r) k" and q: "0 \<le> q" "q < base E"
    and W1: "uval (base E) w j ys = uval (base E) (bn_d r) j (ys + 1) mod Y"
  shows "div_inv Y ys v j (r\<lparr>bn_d := put w (j + ys) q\<rparr>)"
proof -
  let ?b = "base E" let ?W = "uval ?b (bn_d r) j (ys + 1)"
  note Y = divisor_bounds(1) [OF dv] and low = low_split [OF inv] and td = trial_digits [OF inv dw fr q]
  have W0: "0 \<le> ?W" using low(4) by (rule uval_nonneg) simp
  have zero: "get w c = 0" if c: "bn_t r \<le> c" "c < j + ys" for c
  proof (cases "c < j")
    case True
    with c fr [of c] inv show ?thesis by (simp add: div_inv_def)
  next
    case False
    define n where "n = bn_t r - j"
    have n: "n \<le> ys" "n \<le> c - j" using c False by (auto simp: n_def)
    have "uval ?b (bn_d r) (j + n) (ys + 1 - n) = 0"
      using inv n by (intro uval_zero) (auto simp: div_inv_def n_def)
    then have "?W = uval ?b (bn_d r) j n" using uval_add [of ?b "bn_d r" j n "ys + 1 - n"] n by simp
    also have "\<dots> < ?b ^ n" using digits_sub [OF low(4), of j n] n by (intro uval_less) auto
    finally have "?W < ?b ^ n" .
    moreover have "?W mod Y \<le> ?W" using W0 Y by (simp add: zmod_le_nonneg_dividend)
    ultimately have "uval ?b w j ys < ?b ^ n" using W1 by simp
    then show ?thesis using uval_high_zero [of w j n "ys - n" "c - j"] dw n c False by simp
  qed
  have "uval ?b (put w (j + ys) q) 0 (j + ys) = uval ?b (bn_d r) 0 j + ?b ^ j * (?W mod Y)"
    using td(3) W1 by simp
  then show ?thesis
    using inv td(1,2) zero low_part [OF low(2) Y, of ?W] low(3) by (auto simp: div_inv_def)
qed

lemma div_back:
  assumes dv: "divisor Y ys y yn" and inv: "div_inv Y ys v (Suc j) r" and dw: "digits (base E) w j ys"
    and fr: "\<And>k. k < j \<or> j + ys \<le> k \<Longrightarrow> get w k = get (bn_d r) k" and q: "0 \<le> q" "q < base E"
    and W1: "uval (base E) w j ys = uval (base E) (bn_d r) j (ys + 1) mod Y + (base E ^ ys - Y)"
    and t: "j + ys \<le> bn_t r"
    and r2: "r2 = bnpSubTo E Self (Obj (bnpDLShiftTo (Obj yn) j t0)) (r\<lparr>bn_d := put w (j + ys) q\<rparr>)"
  shows "div_inv Y ys v j r2" "get (bn_d r2) (j + ys) = q"
proof -
  let ?b = "base E" let ?W = "uval ?b (bn_d r) j (ys + 1)" let ?i = "j + ys"
  note Y = divisor_bounds [OF dv] and low = low_split [OF inv] and td = trial_digits [OF inv dw fr q]
  define r1 where "r1 = r\<lparr>bn_d := put w ?i q\<rparr>"
  define t1 where "t1 = bnpDLShiftTo (Obj yn) j t0"
  define h where "h = bn_t r - ?i"
  have M: "bn_t r1 = ?i + h" "bn_t t1 = ?i" "max (?i + h) ?i = ?i + h" using t dv
    by (simp_all add: r1_def t1_def h_def divisor_def)
  have yn: "dok E yn" "bval E yn = ?b ^ ys - Y" using dv by (simp_all add: divisor_def dok_def bval_def)
  have t1: "dok E t1" "bval E t1 = (?b ^ ys - Y) * ?b ^ j"
    using dlShift_dok [of "Obj yn" t0 j] dlShift_val [of "Obj yn" j t0] yn by (simp_all add: t1_def)
  have d1: "digits ?b (bn_d r1) 0 (?i + h)" "bn_s r1 = 0"
    using td(1) inv M(1) by (simp_all add: r1_def div_inv_def)
  have r1: "dok E r1" using d1 M by (simp add: dok_def)
  define lo H where "lo = uval ?b (bn_d r) 0 j + ?b ^ j * (?W mod Y)" and "H = uval ?b (bn_d r1) ?i h"
  have H: "0 \<le> H" using digits_sub [OF d1(1), of ?i h] by (auto simp: H_def intro: uval_nonneg)
  have lo: "lo < Y * ?b ^ j" "lo mod Y = uval ?b (bn_d r) 0 (Suc j + ys) mod Y"
    using low_part [OF low(2) Y(1), of ?W] low(3) by (simp_all add: lo_def)
  have "Y * ?b ^ j \<le> ?b ^ ys * ?b ^ j" using Y by (intro mult_right_mono) auto
  then have "lo < ?b ^ ys * ?b ^ j" using lo(1) by linarith
  then have loi: "0 \<le> lo" "lo < ?b ^ ?i" using low(1) Y by (simp_all add: lo_def power_add mult.commute)
  have "uval ?b (bn_d r1) 0 ?i = lo + (?b ^ ys - Y) * ?b ^ j"
    using td(3) W1 by (simp add: r1_def lo_def algebra_simps)
  then have diff: "bval E r1 - bval E t1 = lo + ?b ^ ?i * H"
    using d1(2) M(1) uval_add [of ?b "bn_d r1" 0 ?i h] t1(2) by (simp add: bval_def H_def)
  have "bval E r1 < ?b ^ (?i + h)" using bval_bounds(1) [OF r1] M(1) by simp
  moreover have "0 \<le> bval E t1" using t1(2) Y by simp
  ultimately have lt: "bval E r1 - bval E t1 < ?b ^ (?i + h)" by linarith
  have nn: "0 \<le> bval E r1 - bval E t1" unfolding diff using loi H by simp
  have r2': "r2 = bnpSubTo E Self (Obj t1) r1" by (simp add: r2 r1_def t1_def)
  note c = subTo_cells [of Self r1 "Obj t1", unfolded obj.simps M, OF r1 t1(1) nn lt, folded r2']
  have d2: "digits ?b (bn_d r2) 0 ?i" "digits ?b (bn_d r2) ?i h" using c(2) by (auto elim!: digits_sub)
  have eq: "uval ?b (bn_d r2) 0 ?i + ?b ^ ?i * uval ?b (bn_d r2) ?i h = lo + ?b ^ ?i * H"
    using c(3) uval_add [of ?b "bn_d r2" 0 ?i h] unfolding diff by simp
  have u2: "0 \<le> uval ?b (bn_d r2) 0 ?i" "uval ?b (bn_d r2) 0 ?i < ?b ^ ?i"
    using d2(1) by (auto intro: uval_nonneg uval_less)
  have "(uval ?b (bn_d r2) 0 ?i + ?b ^ ?i * uval ?b (bn_d r2) ?i h) mod ?b ^ ?i = uval ?b (bn_d r2) 0 ?i"
    "(lo + ?b ^ ?i * H) mod ?b ^ ?i = lo" using u2 loi by simp_all
  then have lo2: "uval ?b (bn_d r2) 0 ?i = lo" using eq by simp
  with eq have hi2: "uval ?b (bn_d r2) ?i h = H" by simp
  show "get (bn_d r2) ?i = q"
  proof (cases h)
    case 0
    then show ?thesis using c(6) [of ?i] by (simp add: r1_def)
  next
    case (Suc h')
    have "get (bn_d r2) ?i = uval ?b (bn_d r2) ?i h mod ?b" "get (bn_d r1) ?i = H mod ?b"
      using digitsD [OF d2(2), of ?i] digitsD [OF d1(1), of ?i] by (simp_all add: Suc uval_step H_def)
    then show ?thesis using hi2 by (simp add: r1_def)
  qed
  have "digits ?b (bn_d r2) 0 (bn_t r2)" using c(2) by (rule digits_sub) (use c(4) in auto)
  then show "div_inv Y ys v j r2"
    using c(1,5) d2(1) lo lo2 inv by (auto simp: div_inv_def)
qed

lemma div_step:
  assumes dv: "divisor Y ys y yn" and inv: "div_inv Y ys v (Suc j) r"
  shows "\<exists>r' t'. div_round E yn ys (get y (ys - 1)) (normal_yt y ys) j (r, t) = Some (r', t') \<and> div_inv Y ys v j r'"
proof -
  let ?W = "uval (base E) (bn_d r) j (ys + 1)" let ?i = "j + ys"
  define qd where "qd = div_qd E (get y (ys - 1)) (normal_yt y ys) (get (bn_d r) ?i) (get (bn_d r) (?i - 1))"
  obtain w c where am: "am E (bn_d yn) 0 qd (bn_d r) j 0 ys = (w, c)" and dw: "digits (base E) w j ys"
    and fr: "\<And>k. k < j \<or> ?i \<le> k \<Longrightarrow> get w k = get (bn_d r) k"
    and q: "0 \<le> ?W div Y" "?W div Y < base E" and v: "get (bn_d r) ?i + c = ?W div Y"
    and alt: "(qd = ?W div Y \<and> uval (base E) w j ys = ?W mod Y) \<or>
     (qd = ?W div Y + 1 \<and> uval (base E) w j ys = ?W mod Y + (base E ^ ys - Y))"
    and short: "bn_t r < ?i \<Longrightarrow> qd = 0"
    using div_trial [OF dv inv] unfolding qd_def by blast
  from alt show ?thesis
  proof
    assume a: "qd = ?W div Y \<and> uval (base E) w j ys = ?W mod Y"
    then have "div_round E yn ys (get y (ys - 1)) (normal_yt y ys) j (r, t) = Some (r\<lparr>bn_d := put w ?i (?W div Y)\<rparr>, t)"
      unfolding div_round_def Let_def prod.case qd_def [symmetric] am v by simp
    then show ?thesis using div_keep [OF dv inv dw fr q] a by blast
  next
    assume b: "qd = ?W div Y + 1 \<and> uval (base E) w j ys = ?W mod Y + (base E ^ ys - Y)"
    have "\<not> bn_t r < ?i" using short b q by auto
    then have t: "?i \<le> bn_t r" by simp
    note fixed = div_back [OF dv inv dw fr q conjunct2 [OF b] t]
    have "div_round E yn ys (get y (ys - 1)) (normal_yt y ys) j (r, t)
      = Some (bnpSubTo E Self (Obj (bnpDLShiftTo (Obj yn) j t)) (r\<lparr>bn_d := put w ?i (?W div Y)\<rparr>), bnpDLShiftTo (Obj yn) j t)"
      unfolding div_round_def Let_def prod.case qd_def [symmetric] am v
      using b fixed(2) div_fix_stop [of qd] by simp
    then show ?thesis using fixed(1) by blast
  qed
qed

section \<open>The division\<close>

lemma wf_len:
  assumes "bn_wf E x" "bn_s x = 0"
  shows "bval E x < base E ^ n \<Longrightarrow> bn_t x \<le> n" "base E ^ n \<le> bval E x \<Longrightarrow> n < bn_t x"
proof -
  have pow: "base E ^ k \<le> base E ^ l" if "k \<le> l" for k l
    using that base_num by (intro power_increasing) auto
  show "bn_t x \<le> n" if "bval E x < base E ^ n"
  proof (rule ccontr)
    assume "\<not> bn_t x \<le> n"
    then obtain k where k: "bn_t x = Suc k" "n \<le> k" by (cases "bn_t x") auto
    show False using bval_ge_top [OF assms k(1)] pow [OF k(2)] that by linarith
  qed
  show "n < bn_t x" if "base E ^ n \<le> bval E x"
  proof (rule ccontr)
    assume "\<not> n < bn_t x"
    then have "base E ^ bn_t x \<le> base E ^ n" by (intro pow) simp
    then show False using bval_bounds(1) [OF bn_wfD(1) [OF assms(1)]] that by linarith
  qed
qed

text \<open>Normalisation: the shifted divisor has the same number of digits and a large top digit.\<close>

lemma normalise:
  assumes m: "bn_wf E m" "bn_s m = 0" "bn_t m = Suc n"
    and y: "bn_wf E y" "bval E y = bval E m * 2 ^ (DB E - nbits (get (bn_d m) n))"
  shows "bn_s y = 0" "bn_t y = Suc n" "base E \<le> 2 * get (bn_d y) n" "base E ^ Suc n \<le> 2 * bval E y"
    "bval E y = uval (base E) (bn_d y) 0 (Suc n)"
proof -
  let ?b = "base E" let ?a = "get (bn_d m) n" let ?k = "nbits (get (bn_d m) n)"
  have dm: "digits ?b (bn_d m) 0 (Suc n)" using m by (simp add: bn_wf_def dok_def)
  have "?a \<noteq> 0" using m by (simp add: bn_wf_def clamped_def)
  then have a: "0 < ?a" "?a < ?b" using digitsD [OF dm, of n] by auto
  then have a31: "?a < 2 ^ 32" using base_num by simp
  note nb = nbits_bounds [OF a(1) a31]
  have "(2::int) ^ (?k - 1) < 2 ^ DB E" by (rule order_le_less_trans [OF nb(2) a(2) [unfolded base_def]])
  then have "?k - 1 < DB E" by (rule power_less_imp_less_exp [rotated]) simp
  then have k: "?k \<le> DB E" using nb(1) by simp
  define s where "s = (2::int) ^ (DB E - ?k)"
  have s: "0 < s" by (simp add: s_def)
  have bs: "?b = 2 ^ ?k * s" using k by (simp add: base_def s_def flip: power_add)
  have "2 ^ ?k = 2 * (2::int) ^ (?k - 1)" using nb(1) by (cases ?k) auto
  then have "2 ^ ?k \<le> 2 * ?a" "?a + 1 \<le> 2 ^ ?k" using nb by simp_all
  then have as: "?b \<le> 2 * (?a * s)" "(?a + 1) * s \<le> ?b"
    unfolding bs using mult_right_mono [of "2 ^ ?k" "2 * ?a" s] mult_right_mono [of "?a + 1" "2 ^ ?k" s] s by simp_all
  define U where "U = uval ?b (bn_d m) 0 n"
  have U: "0 \<le> U" "U < ?b ^ n" using digits_sub [OF dm, of 0 n] by (auto simp: U_def intro: uval_nonneg uval_less)
  have v: "bval E m = U + ?a * ?b ^ n" using m by (simp add: bval_def uval_Suc U_def)
  have y2: "bval E y = U * s + ?a * s * ?b ^ n" unfolding y(2) v s_def [symmetric] by (simp add: algebra_simps)
  have Us: "0 \<le> U * s" "U * s < ?b ^ n * s" using U s by simp_all
  have "?b * ?b ^ n \<le> 2 * (?a * s) * ?b ^ n" using as(1) by (intro mult_right_mono) auto
  then have "?b * ?b ^ n \<le> 2 * (?a * s * ?b ^ n)" by (simp only: mult.assoc)
  also have "\<dots> \<le> 2 * bval E y" unfolding y2 using Us(1) by simp
  finally show half: "?b ^ Suc n \<le> 2 * bval E y" by simp
  have "(?a + 1) * s * ?b ^ n \<le> ?b * ?b ^ n" using as(2) by (intro mult_right_mono) auto
  then have lt: "bval E y < ?b ^ Suc n" using Us unfolding y2 by (simp add: algebra_simps)
  have pos: "0 < ?b ^ Suc n" "0 < ?b ^ n" by simp_all
  have "2 * ?b ^ n \<le> ?b * ?b ^ n" using base_num by (intro mult_right_mono) auto
  then have ge: "?b ^ n \<le> bval E y" using half unfolding power_Suc by linarith
  have "0 \<le> bval E y" using half pos by linarith
  then show sy: "bn_s y = 0" using bval_nonneg_iff bn_wfD(1) [OF y(1)] by simp
  show t: "bn_t y = Suc n" using wf_len(1) [OF y(1) sy lt] wf_len(2) [OF y(1) sy ge] by simp
  show val: "bval E y = uval ?b (bn_d y) 0 (Suc n)" using sy t by (simp add: bval_def)
  have "digits ?b (bn_d y) 0 n" using y(1) t by (auto simp: bn_wf_def dok_def elim!: digits_sub)
  then have "uval ?b (bn_d y) 0 n < ?b ^ n" by (rule uval_less) simp
  then have "?b * ?b ^ n < (2 * get (bn_d y) n + 2) * ?b ^ n"
    using half unfolding val uval_Suc by (simp add: algebra_simps)
  then have "?b < 2 * get (bn_d y) n + 2" by (rule mult_right_less_imp_less) simp
  moreover have "even ?b" using DB_lower by (simp add: base_def)
  ultimately show "?b \<le> 2 * get (bn_d y) n" by presburger
qed

text \<open>The complement of the divisor, padded to its length.\<close>

lemma complement:
  assumes y: "bn_wf E y" "bn_s y = 0" "bn_t y = ys" "base E \<le> 2 * get (bn_d y) (ys - 1)" "0 < ys"
    and Y: "Y = bval E y"
  shows "divisor Y ys (bn_d y) (div_pad ys (bnpSubTo E (Obj (bnpDLShiftTo (Obj (bn_ONE E)) ys t)) Self y))"
proof -
  let ?b = "base E"
  define u where "u = bnpDLShiftTo (Obj (bn_ONE E)) ys t"
  define z where "z = bnpSubTo E (Obj u) Self y"
  have u: "dok E u" "bval E u = ?b ^ ys" "bn_t u = Suc ys"
    using dlShift_dok [of "Obj (bn_ONE E)" t ys] dlShift_val [of "Obj (bn_ONE E)" ys t] by (simp_all add: u_def bn_wfD)
  have dy: "dok E y" "digits ?b (bn_d y) 0 ys" using y by (auto simp: bn_wf_def dok_def)
  have Yv: "Y = uval ?b (bn_d y) 0 ys" using y Y by (simp add: bval_def)
  then have Y0: "0 \<le> Y" "Y < ?b ^ ys" using dy(2) by (auto intro: uval_nonneg uval_less)
  have "0 < Y"
  proof -
    have "0 < get (bn_d y) (ys - 1) * ?b ^ (ys - 1)" using y(4) base_num by auto
    moreover have "Y = uval ?b (bn_d y) 0 (ys - 1) + get (bn_d y) (ys - 1) * ?b ^ (ys - 1)"
      using uval_Suc [of ?b "bn_d y" 0 "ys - 1"] y(5) by (simp add: Yv)
    moreover have "0 \<le> uval ?b (bn_d y) 0 (ys - 1)"
      using digits_sub [OF dy(2), of 0 "ys - 1"] by (intro uval_nonneg) auto
    ultimately show ?thesis by linarith
  qed
  have M: "max (bn_t u) (bn_t y) = Suc ys" using u y by simp
  have big: "?b ^ ys \<le> ?b ^ Suc ys" using base_num by (intro power_increasing) auto
  have nn: "0 \<le> bval E u - bval E y" and lt: "bval E u - bval E y < ?b ^ Suc ys"
    using u(2) Y Y0 \<open>0 < Y\<close> big by linarith+
  note c = subTo_cells [of "Obj u" y Self, unfolded obj.simps M, OF u(1) dy(1) nn lt, folded z_def]
  have top: "get (bn_d z) ys = 0"
    using uval_high_zero [of "bn_d z" 0 ys 1 ys] c(2,3) u(2) Y \<open>0 < Y\<close> by simp
  have zero: "get (bn_d z) k = 0" if "bn_t z \<le> k" "k < ys" for k using c(5) [of k] that by simp
  have "bn_t z \<le> ys"
  proof -
    have wf: "bn_wf E z" "bval E z = ?b ^ ys - Y"
      using subTo_ok [of "Obj u" y Self] u dy Y by (simp_all add: z_def)
    show ?thesis using wf_len(1) [OF wf(1) c(1), of ys] wf(2) \<open>0 < Y\<close> by simp
  qed
  have pad: "\<forall>k. get (for_up (bn_t z) ys (\<lambda>i w. put w i 0) (bn_d z)) k
      = (if bn_t z \<le> k \<and> k < ys then 0 else get (bn_d z) k)"
    by (rule for_up_inv [OF \<open>bn_t z \<le> ys\<close>, where P = "\<lambda>i w. \<forall>k. get w k = (if bn_t z \<le> k \<and> k < i then 0 else get (bn_d z) k)"])
      (auto simp: get_put)
  then have same: "get (bn_d (div_pad ys z)) k = get (bn_d z) k" for k
    using zero by (simp add: div_pad_def)
  have "digits ?b (bn_d z) 0 ys" using c(2) by (rule digits_sub) auto
  then have "digits ?b (bn_d (div_pad ys z)) 0 ys" by (rule digits_cong) (simp add: same)
  moreover have "uval ?b (bn_d (div_pad ys z)) 0 ys = uval ?b (bn_d z) 0 (Suc ys)"
    unfolding uval_Suc using top by (simp add: same cong: uval_cong) (auto intro!: uval_cong simp: same)
  ultimately show ?thesis
    using y dy(2) Yv c(1,3) u(2) Y \<open>bn_t z \<le> ys\<close>
    unfolding u_def [symmetric] z_def [symmetric] by (simp add: divisor_def div_pad_def)
qed

text \<open>The first digit: the dividend is at most once the shifted divisor.\<close>

lemma first_digit:
  assumes r: "bn_wf E r" "bn_s r = 0" "ys \<le> bn_t r" and y: "bn_wf E y" "bn_s y = 0" "bn_t y = ys" "0 < ys"
    and half: "base E ^ ys \<le> 2 * bval E y"
  shows "div_inv (bval E y) ys (bval E r) (bn_t r - ys)
     (if bnCompareTo r (bnpDLShiftTo (Obj y) (bn_t r - ys) t) \<ge> 0
      then bnpSubTo E Self (Obj (bnpDLShiftTo (Obj y) (bn_t r - ys) t))
             (r\<lparr>bn_d := put (bn_d r) (bn_t r) 1, bn_t := bn_t r + 1\<rparr>)
      else r)"
proof -
  let ?b = "base E" let ?i = "bn_t r" let ?j = "bn_t r - ys"
  define Y V where "Y = bval E y" and "V = bval E r"
  define u where "u = bnpDLShiftTo (Obj y) ?j t"
  have dr: "dok E r" "digits ?b (bn_d r) 0 ?i" using r by (auto simp: bn_wf_def dok_def)
  have Vv: "V = uval ?b (bn_d r) 0 ?i" using r by (simp add: bval_def V_def)
  have V: "0 \<le> V" "V < ?b ^ ?i" unfolding Vv using dr(2) by (auto intro: uval_nonneg uval_less)
  have u: "bn_wf E u" "bval E u = Y * ?b ^ ?j" "bn_t u = ?i" "bn_s u = 0"
    using dlShift_wf [of "Obj y" t ?j] dlShift_val [of "Obj y" ?j t] y r(3) by (simp_all add: u_def Y_def)
  have uval: "0 \<le> Y * ?b ^ ?j" "Y * ?b ^ ?j < ?b ^ ?i"
    using bval_nonneg_iff [OF bn_wfD(1) [OF u(1)]] bval_bounds(1) [OF bn_wfD(1) [OF u(1)]] u by auto
  have ij: "?j + ys = ?i" using r(3) by simp
  have "?b ^ ys * ?b ^ ?j \<le> 2 * Y * ?b ^ ?j" using half by (intro mult_right_mono) (auto simp: Y_def)
  then have V2: "V < 2 * (Y * ?b ^ ?j)" using V ij by (simp add: mult.commute flip: power_add)
  show ?thesis
  proof (cases "bnCompareTo r u \<ge> 0")
    case False
    then have "V < Y * ?b ^ ?j" using compareTo_iff(1) [OF r(1) u(1)] u(2) by (simp add: V_def)
    then show ?thesis
      unfolding u_def [symmetric] Y_def [symmetric] V_def [symmetric] using False r dr(2) ij Vv
      by (simp add: div_inv_def)
  next
    case True
    then have ge: "Y * ?b ^ ?j \<le> V" using compareTo_iff(1) [OF r(1) u(1)] u(2) by (simp add: V_def)
    define r1 where "r1 = r\<lparr>bn_d := put (bn_d r) ?i 1, bn_t := ?i + 1\<rparr>"
    define r2 where "r2 = bnpSubTo E Self (Obj u) r1"
    have dig1: "digits ?b (bn_d r1) 0 (?i + 1)"
      using dr(2) base_num by (auto simp: r1_def digits_def get_put)
    then have r1: "dok E r1" "bn_t r1 = ?i + 1" using r by (simp_all add: dok_def r1_def)
    have v1: "bval E r1 = V + ?b ^ ?i" using r by (simp add: bval_def r1_def uval_Suc uval_put_other Vv)
    have M: "max (?i + 1) ?i = ?i + 1" by simp
    have "2 * ?b ^ ?i \<le> ?b * ?b ^ ?i" using base_num by (intro mult_right_mono) auto
    then have b2: "2 * ?b ^ ?i \<le> ?b ^ (?i + 1)" by simp
    have nn: "0 \<le> bval E r1 - bval E u" and lt: "bval E r1 - bval E u < ?b ^ (?i + 1)"
      using b2 V uval ge unfolding v1 u(2) by linarith+
    note c = subTo_cells [of Self r1 "Obj u", unfolded obj.simps r1(2) u(3) M, OF r1(1) bn_wfD(1) [OF u(1)] nn lt, folded r2_def]
    have d2: "digits ?b (bn_d r2) 0 ?i" "digits ?b (bn_d r2) 0 (bn_t r2)"
      by (rule digits_sub [OF c(2)]; use c(4) in simp)+
    have "uval ?b (bn_d r2) 0 ?i + ?b ^ ?i * get (bn_d r2) ?i = (V - Y * ?b ^ ?j) + ?b ^ ?i * 1"
      using c(3) v1 u(2) by (simp add: uval_Suc mult.commute)
    moreover have "0 \<le> uval ?b (bn_d r2) 0 ?i" "uval ?b (bn_d r2) 0 ?i < ?b ^ ?i"
      using d2(1) by (auto intro: uval_nonneg uval_less)
    moreover have "0 \<le> V - Y * ?b ^ ?j" "V - Y * ?b ^ ?j < ?b ^ ?i" using ge V uval by linarith+
    ultimately have lo: "uval ?b (bn_d r2) 0 ?i = V - Y * ?b ^ ?j"
      by (metis mod_mult_self2 mod_pos_pos_trivial)
    then have "uval ?b (bn_d r2) 0 ?i < Y * ?b ^ ?j" using V2 by simp
    moreover have "(V - Y * ?b ^ ?j) mod Y = V mod Y" using mod_mult_self2 [of V Y "- (?b ^ ?j)"] by simp
    ultimately have "div_inv Y ys V ?j r2"
      using c(1,5) d2 lo ij by (auto simp: div_inv_def)
    then show ?thesis
      unfolding u_def [symmetric] Y_def [symmetric] V_def [symmetric] using True by (simp add: r2_def r1_def)
  qed
qed

definition trem :: "int \<Rightarrow> int \<Rightarrow> int" where
  \<comment> \<open>the remainder of division truncated towards zero\<close>
  "trem a m = (if a < 0 then - (\<bar>a\<bar> mod \<bar>m\<bar>) else \<bar>a\<bar> mod \<bar>m\<bar>)"

text \<open>The rounds together leave the remainder of the normalised dividend.\<close>

lemma div_rounds:
  assumes dv: "divisor Y ys y yn" and inv: "div_inv Y ys v j r"
  obtains r' t' where "foldM (div_round E yn ys (get y (ys - 1)) (normal_yt y ys)) (rev [0..<j]) (r, t) = Some (r', t')"
    "bn_wf E (bnpClamp E (r'\<lparr>bn_t := ys\<rparr>))" "bval E (bnpClamp E (r'\<lparr>bn_t := ys\<rparr>)) = v mod Y"
proof -
  have "\<exists>s'. foldM (div_round E yn ys (get y (ys - 1)) (normal_yt y ys)) (rev [0..<j]) (r, t) = Some s' \<and>
      div_inv Y ys v 0 (fst s')"
    by (rule foldM_down_inv [where P = "\<lambda>k s. div_inv Y ys v k (fst s)"])
      (use inv div_step [OF dv] in \<open>fastforce+\<close>)
  then obtain r' t' where f: "foldM (div_round E yn ys (get y (ys - 1)) (normal_yt y ys)) (rev [0..<j]) (r, t) = Some (r', t')"
    and i: "div_inv Y ys v 0 r'" by fastforce
  have "dok E (r'\<lparr>bn_t := ys\<rparr>)" using i by (simp add: div_inv_def dok_def)
  moreover have "bval E (r'\<lparr>bn_t := ys\<rparr>) = v mod Y"
  proof -
    have d: "digits (base E) (bn_d r') 0 ys" "uval (base E) (bn_d r') 0 ys < Y"
      "uval (base E) (bn_d r') 0 ys mod Y = v mod Y" "bn_s r' = 0" using i by (auto simp: div_inv_def)
    have "0 \<le> uval (base E) (bn_d r') 0 ys" using d(1) by (rule uval_nonneg) simp
    then show ?thesis using d by (simp add: bval_def)
  qed
  ultimately show thesis using that [OF f] wf_clamp [of "r'\<lparr>bn_t := ys\<rparr>"] bval_clamp [of "r'\<lparr>bn_t := ys\<rparr>"] i
    by (simp add: div_inv_def)
qed

text \<open>
  What follows the first digit, for any value \<open>v\<close> left in the remainder: it is reduced,
  shifted back and given the sign of the dividend.
\<close>

lemma div_tail:
  assumes m: "bn_wf E m" and n: "bn_t (bnAbs E m) = Suc n" and sx: "bn_s (obj this r) = 0 \<or> bn_s (obj this r) = -1"
  defines "pm \<equiv> bnAbs E m"
    and "pt \<equiv> (if bn_s (obj this r) < 0 then Obj (bnNegate E (obj this r)) else this)"
    and "nsh \<equiv> DB E - nbits (get (bn_d (bnAbs E m)) n)"
  assumes long: "\<not> bn_t (obj pt r) < bn_t pm"
    and y: "y = (if nsh > 0 then bnpLShiftTo E (Obj pm) nsh nbi else bnpCopyTo (Obj pm) nbi)"
    and r0: "r0 = (if nsh > 0 then bnpLShiftTo E pt nsh r else bnpCopyTo pt r)"
    and j: "j = int (bn_t r0) - int (Suc n)"
    and t1: "t1 = dlShift_int (Obj y) j (case qo of None \<Rightarrow> nbi | Some q \<Rightarrow> q)"
    and r1: "r1 = (if bnCompareTo r0 t1 \<ge> 0
                 then bnpSubTo E Self (Obj t1) (r0\<lparr>bn_d := put (bn_d r0) (bn_t r0) 1, bn_t := bn_t r0 + 1\<rparr>)
                 else r0)"
    and inv: "div_inv (bval E y) (Suc n) v (nat j) r1"
  shows "\<exists>q' r'. bnpDivRemTo E this m qo (Some r) = Some (q', Some r') \<and> bn_wf E r' \<and>
      bval E r' = (if bn_s (obj this r) < 0 then -1 else 1) * ((v mod (\<bar>bval E m\<bar> * 2 ^ nsh)) div 2 ^ nsh)"
proof -
  let ?x = "obj this r"
  note pm = abs_ok [OF m, folded pm_def] and n = n [folded pm_def]
  have yw: "bn_wf E y" and yv: "bval E y = bval E pm * 2 ^ nsh"
    using pm lShift_ok [of "Obj pm" nbi nsh] copyTo_wf [of "Obj pm" nbi] copyTo_val [of "Obj pm" nbi]
    by (auto simp: y bn_wfD)
  note nm = normalise [OF pm(1,3) n yw yv [unfolded nsh_def pm_def [symmetric]]]
  define t2 yn where "t2 = bnpDLShiftTo (Obj (bn_ONE E)) (Suc n) t1"
    and "yn = div_pad (Suc n) (bnpSubTo E (Obj t2) Self y)"
  have dv: "divisor (bval E y) (Suc n) (bn_d y) yn"
    using complement [OF yw nm(1,2) _ _ refl, of t1] nm(3) by (simp add: yn_def t2_def)
  obtain r2 t3 where f: "foldM (div_round E yn (Suc n) (get (bn_d y) n) (normal_yt (bn_d y) (Suc n))) (rev [0..<nat j]) (r1, t2) = Some (r2, t3)"
    and r2: "bn_wf E (bnpClamp E (r2\<lparr>bn_t := Suc n\<rparr>))" "bval E (bnpClamp E (r2\<lparr>bn_t := Suc n\<rparr>)) = v mod bval E y"
    using div_rounds [OF dv inv, of t2] by auto
  define r3 r4 r5 where "r3 = bnpClamp E (r2\<lparr>bn_t := Suc n\<rparr>)"
    and "r4 = (if nsh > 0 then bnpRShiftTo E Self nsh r3 else r3)"
    and "r5 = (if bn_s ?x < 0 then bnpSubTo E (Obj (bn_ZERO E)) Self r4 else r4)"
  have r4: "bn_wf E r4" "bval E r4 = (v mod (\<bar>bval E m\<bar> * 2 ^ nsh)) div 2 ^ nsh"
    using r2 rShift_ok [of Self r3 nsh] yv pm(2) by (auto simp: r4_def r3_def bn_wfD)
  have r5: "bn_wf E r5" "bval E r5 = (if bn_s ?x < 0 then -1 else 1) * bval E r4"
    using r4(1) subTo_ok [of "Obj (bn_ZERO E)" r4 Self] by (auto simp: r5_def bn_wfD)
  have y0: "get (bn_d y) n \<noteq> 0" using nm(3) base_num by auto
  define q' where "q' = (if qo = None then None
                 else let q = bnpDRShiftTo (Obj r2) (Suc n) t3
                      in Some (if bn_s ?x \<noteq> bn_s m then bnpSubTo E (Obj (bn_ZERO E)) Self q else q))"
  have nz: "\<not> bn_t pm \<le> 0" using n by simp
  have top: "Suc n - 1 = n" by simp
  have pair: "(if nsh > 0 then (bnpLShiftTo E (Obj pm) nsh nbi, bnpLShiftTo E pt nsh r)
        else (bnpCopyTo (Obj pm) nbi, bnpCopyTo pt r)) = (y, r0)" by (simp add: y r0)
  have nsh: "nsh = DB E - nbits (get (bn_d pm) n)" by (simp add: nsh_def pm_def)
  have "bnpDivRemTo E this m qo (Some r) = Some (q', Some r5)"
    unfolding bnpDivRemTo_def Let_def pm_def [symmetric] option.case pt_def [symmetric] if_not_P [OF nz]
        if_not_P [OF long] n top nsh [symmetric] pair prod.case nm(2) if_not_P [OF y0]
        j [symmetric] t1 [symmetric] r1 [symmetric] t2_def [symmetric] yn_def [symmetric]
        normal_yt_def [of "bn_d y" "Suc n", unfolded top, symmetric] f
        r3_def [symmetric] r4_def [symmetric] r5_def [symmetric] option.map
    using long [unfolded n] by (simp add: q'_def Let_def)
  then show ?thesis using r5 r4(2) by simp
qed

lemma divRemTo_ok:
  assumes m: "bn_wf E m" "bval E m \<noteq> 0" and x: "bn_wf E (obj this r)"
  shows "\<exists>q' r'. bnpDivRemTo E this m qo (Some r) = Some (q', Some r') \<and> bn_wf E r' \<and>
           bval E r' = trem (bval E (obj this r)) (bval E m)"
proof -
  let ?x = "obj this r"
  define pm where "pm = bnAbs E m"
  define pt where "pt = (if bn_s ?x < 0 then Obj (bnNegate E ?x) else this)"
  note pm = abs_ok [OF m(1), folded pm_def]
  have dx: "dok E ?x" using x by (rule bn_wfD)
  have sx: "bn_s ?x = 0 \<or> bn_s ?x = -1" "0 \<le> bval E ?x \<longleftrightarrow> bn_s ?x = 0" using dx bval_nonneg_iff by (auto dest: dokD)
  have pt: "bn_wf E (obj pt r)" "bval E (obj pt r) = \<bar>bval E ?x\<bar>"
    using x negate_ok [OF dx] sx by (auto simp: pt_def)
  have spt: "bn_s (obj pt r) = 0" using pt bval_nonneg_iff [OF bn_wfD(1) [OF pt(1)]] by simp
  have pos: "0 < bval E pm" using pm m by simp
  then have "0 < bn_t pm" using pm(3) by (cases "bn_t pm") (simp_all add: bval_def)
  then obtain n where n: "bn_t pm = Suc n" by (cases "bn_t pm") auto
  show ?thesis
  proof (cases "bn_t (obj pt r) < bn_t pm")
    case True
    then have "bval E (obj pt r) < bval E pm" using bval_less_of_t [OF pt(1) pm(1)] spt pm(3) by simp
    then have "bval E ?x = trem (bval E ?x) (bval E m)" using pt pm by (auto simp: trem_def)
    moreover have "bnpDivRemTo E this m qo (Some r) = Some (map_option (bnpFromInt E 0) qo, Some (bnpCopyTo this r))"
      unfolding bnpDivRemTo_def Let_def pm_def [symmetric] option.case pt_def [symmetric] using True n by simp
    ultimately show ?thesis using copyTo_wf [OF x] copyTo_val [of this r] by auto
  next
    case False
    define nsh where "nsh = DB E - nbits (get (bn_d pm) n)"
    define y r0 where "y = (if nsh > 0 then bnpLShiftTo E (Obj pm) nsh nbi else bnpCopyTo (Obj pm) nbi)"
      and "r0 = (if nsh > 0 then bnpLShiftTo E pt nsh r else bnpCopyTo pt r)"
    have y: "bn_wf E y" "bval E y = bval E pm * 2 ^ nsh"
      using pm lShift_ok [of "Obj pm" nbi nsh] copyTo_wf [of "Obj pm" nbi] copyTo_val [of "Obj pm" nbi]
      by (auto simp: y_def bn_wfD)
    have r0: "bn_wf E r0" "bval E r0 = \<bar>bval E ?x\<bar> * 2 ^ nsh"
      using pt lShift_ok [of pt r nsh] copyTo_wf [of pt r] copyTo_val [of pt r]
      by (auto simp: r0_def bn_wfD)
    note nm = normalise [OF pm(1,3) n y [unfolded nsh_def]]
    have sr0: "bn_s r0 = 0" using r0 bval_nonneg_iff [OF bn_wfD(1) [OF r0(1)]] by simp
    have len: "Suc n \<le> bn_t r0"
    proof -
      obtain k where k: "bn_t (obj pt r) = Suc k" "n \<le> k" using False n by (cases "bn_t (obj pt r)") auto
      have "base E ^ n \<le> base E ^ k" using k(2) base_num by (intro power_increasing) auto
      also have "\<dots> \<le> \<bar>bval E ?x\<bar>" using bval_ge_top [OF pt(1) spt k(1)] pt(2) by simp
      also have "\<dots> \<le> bval E r0" unfolding r0(2) by (simp add: mult_le_cancel_left1)
      finally show ?thesis using wf_len(2) [OF r0(1) sr0] by (simp add: Suc_le_eq)
    qed
    define j where "j = int (bn_t r0) - int (Suc n)"
    have nj: "nat j = bn_t r0 - Suc n" "0 \<le> j" using len by (simp_all add: j_def)
    define t1 where "t1 = dlShift_int (Obj y) j (case qo of None \<Rightarrow> nbi | Some q \<Rightarrow> q)"
    have t1: "t1 = bnpDLShiftTo (Obj y) (bn_t r0 - Suc n) (case qo of None \<Rightarrow> nbi | Some q \<Rightarrow> q)"
      using nj by (simp add: t1_def dlShift_int_def)
    have inv: "div_inv (bval E y) (Suc n) (bval E r0) (nat j) (if bnCompareTo r0 t1 \<ge> 0
                 then bnpSubTo E Self (Obj t1) (r0\<lparr>bn_d := put (bn_d r0) (bn_t r0) 1, bn_t := bn_t r0 + 1\<rparr>)
                 else r0)"
      unfolding t1 nj(1) by (rule first_digit [OF r0(1) sr0 len y(1) nm(1,2) _ nm(4)]) simp
    have "(bval E r0 mod (\<bar>bval E m\<bar> * 2 ^ nsh)) div 2 ^ nsh = \<bar>bval E ?x\<bar> mod \<bar>bval E m\<bar>"
      unfolding r0(2) mod_mult_mult2 by simp
    then show ?thesis
      using div_tail [OF m(1) n [unfolded pm_def] sx(1) False [unfolded pm_def pt_def]
          y_def [unfolded nsh_def pm_def] r0_def [unfolded nsh_def pt_def pm_def] j_def t1_def refl inv]
        sx unfolding nsh_def pm_def by (auto simp: trem_def)
  qed
qed

text \<open>
  A dividend of zero digits of the same length as the divisor, which is not in normal form, is
  what \<open>montConvert\<close> passes for 0. When the divisor has to be normalised, the shifted dividend is
  clamped to no digits at all, and the code subtracts nothing from a 1 it appended; the final
  shift drops it again.
\<close>

lemma lShift_clamp: "\<exists>w. bnpLShiftTo E this n r =
    bnpClamp E (r\<lparr>bn_d := w, bn_t := bn_t (obj this r) + n div DB E + 1, bn_s := bn_s (obj this r)\<rparr>)"
  by (simp add: bnpLShiftTo_def Let_def split: prod.split) blast

lemma zero_shift:
  assumes x: "dok E (obj this r)" "bval E (obj this r) = 0" and n: "n < DB E"
  shows "bn_t (bnpLShiftTo E this n r) = 0" "bn_s (bnpLShiftTo E this n r) = 0"
    "k \<le> bn_t (obj this r) \<Longrightarrow> get (bn_d (bnpLShiftTo E this n r)) k = 0"
proof -
  let ?r = "bnpLShiftTo E this n r"
  have r: "bn_wf E ?r" "bval E ?r = 0" using lShift_ok [OF x(1), of n] x(2) by simp_all
  show s: "bn_s ?r = 0" using r bval_nonneg_iff [OF bn_wfD(1) [OF r(1)]] by simp
  show t: "bn_t ?r = 0" using wf_len(1) [OF r(1) s, of 0] r(2) by simp
  have sx: "bn_s (obj this r) = 0" using x bval_nonneg_iff [OF x(1)] by simp
  obtain w where w: "?r = bnpClamp E (r\<lparr>bn_d := w, bn_t := bn_t (obj this r) + 1, bn_s := 0\<rparr>)"
    using lShift_clamp [of this n r] n sx by auto
  assume "k \<le> bn_t (obj this r)"
  then show "get (bn_d ?r) k = 0"
    using clamp_cut [of "r\<lparr>bn_d := w, bn_t := bn_t (obj this r) + 1, bn_s := 0\<rparr>" k] t unfolding w by simp
qed

lemma first_digit_zero:
  assumes y: "bn_s y = 0" "bn_t y = Suc n" "1 < bval E y"
    and r: "bn_t r = 0" "bn_s r = 0" "\<And>k. k \<le> n \<Longrightarrow> get (bn_d r) k = 0"
    and t1: "t1 = bnpDRShiftTo (Obj y) (Suc n) t"
  shows "div_inv (bval E y) (Suc n) 1 0 (if bnCompareTo r t1 \<ge> 0
                 then bnpSubTo E Self (Obj t1) (r\<lparr>bn_d := put (bn_d r) (bn_t r) 1, bn_t := bn_t r + 1\<rparr>)
                 else r)"
proof -
  let ?b = "base E"
  have t: "bn_t t1 = 0" "bn_s t1 = 0" "dok E t1" "bval E t1 = 0" using y by (simp_all add: t1 dok_def bval_def)
  have cmp: "bnCompareTo r t1 \<ge> 0" using r t by (simp add: bnCompareTo_def)
  define ra where "ra = r\<lparr>bn_d := put (bn_d r) 0 1, bn_t := 1\<rparr>"
  define r1 where "r1 = bnpSubTo E Self (Obj t1) ra"
  have ra: "dok E ra" "bn_t ra = 1" "bval E ra = 1"
    using r base_num by (simp_all add: ra_def dok_def digits_1 bval_def uval_Suc)
  have M: "max (1::nat) 0 = 1" by simp
  have nn: "0 \<le> bval E ra - bval E t1" "bval E ra - bval E t1 < ?b ^ 1" using ra t base_num by simp_all
  note c = subTo_cells [of Self ra "Obj t1", unfolded obj.simps ra(2) t(1) M, OF ra(1) t(3) nn, folded r1_def]
  have c0: "get (bn_d r1) 0 = 1" using c(3) ra(3) t(4) by (simp add: uval_Suc)
  have cz: "get (bn_d r1) k = 0" if "1 \<le> k" "k \<le> n" for k using c(6) [of k] r(3) [of k] that by (simp add: ra_def)
  have "uval ?b (bn_d r1) 1 n = 0" using cz by (intro uval_zero) auto
  then have v: "uval ?b (bn_d r1) 0 (Suc n) = 1" using c0 by (simp add: uval_step)
  have "digits ?b (bn_d r1) 0 (Suc n)"
  proof (rule digitsI)
    fix k assume "0 \<le> k" "k < 0 + Suc n"
    then show "0 \<le> get (bn_d r1) k \<and> get (bn_d r1) k < ?b" using c0 cz [of k] base_num by (cases k) auto
  qed
  moreover have "digits ?b (bn_d r1) 0 (bn_t r1)" using c(2) by (rule digits_sub) (use c(4) in auto)
  moreover have "get (bn_d r1) k = 0" if "bn_t r1 \<le> k" "k < 0 + Suc n" for k
    using c(5) [of k] cz [of k] that by (cases k) auto
  ultimately have "div_inv (bval E y) (Suc n) 1 0 r1" using c(1) v y(3) by (simp add: div_inv_def)
  then show ?thesis using cmp r(1) by (simp add: r1_def ra_def)
qed

lemma divRemTo_zero:
  assumes m: "bn_wf E m" "bval E m \<noteq> 0" and x: "dok E (obj this r)" "bval E (obj this r) = 0"
    "bn_t (obj this r) = bn_t (bnAbs E m)"
  shows "\<exists>q' r'. bnpDivRemTo E this m qo (Some r) = Some (q', Some r') \<and> bn_wf E r' \<and> bval E r' = 0"
proof -
  let ?x = "obj this r"
  define pm where "pm = bnAbs E m"
  note pm = abs_ok [OF m(1), folded pm_def]
  have sx: "bn_s ?x = 0" using x bval_nonneg_iff [OF x(1)] by simp
  define pt where "pt = (if bn_s ?x < 0 then Obj (bnNegate E ?x) else this)"
  have pt: "pt = this" using sx by (simp add: pt_def)
  have "0 < bval E pm" using pm m by simp
  then have "0 < bn_t pm" using pm(3) by (cases "bn_t pm") (simp_all add: bval_def)
  then obtain n where n: "bn_t pm = Suc n" by (cases "bn_t pm") auto
  have long: "\<not> bn_t (obj pt r) < bn_t pm" using x(3) by (simp add: pt pm_def)
  define nsh where "nsh = DB E - nbits (get (bn_d pm) n)"
  define y r0 where "y = (if nsh > 0 then bnpLShiftTo E (Obj pm) nsh nbi else bnpCopyTo (Obj pm) nbi)"
    and "r0 = (if nsh > 0 then bnpLShiftTo E pt nsh r else bnpCopyTo pt r)"
  have y: "bn_wf E y" "bval E y = bval E pm * 2 ^ nsh"
    using pm lShift_ok [of "Obj pm" nbi nsh] copyTo_wf [of "Obj pm" nbi] copyTo_val [of "Obj pm" nbi]
    by (auto simp: y_def bn_wfD)
  note nm = normalise [OF pm(1,3) n y [unfolded nsh_def]]
  have "1 \<le> base E ^ n" using base_num by (intro one_le_power) simp
  then have "base E * 1 \<le> base E * base E ^ n" by (intro mult_left_mono) simp_all
  then have Y1: "1 < bval E y" using nm(4) base_num unfolding power_Suc by linarith
  define j t1 where "j = int (bn_t r0) - int (Suc n)"
    and "t1 = dlShift_int (Obj y) (int (bn_t r0) - int (Suc n)) (case qo of None \<Rightarrow> nbi | Some q \<Rightarrow> q)"
  define r1 where "r1 = (if bnCompareTo r0 t1 \<ge> 0
                 then bnpSubTo E Self (Obj t1) (r0\<lparr>bn_d := put (bn_d r0) (bn_t r0) 1, bn_t := bn_t r0 + 1\<rparr>)
                 else r0)"
  have "\<exists>v. div_inv (bval E y) (Suc n) v (nat j) r1 \<and> (v mod (\<bar>bval E m\<bar> * 2 ^ nsh)) div 2 ^ nsh = 0"
  proof (cases "nsh > 0")
    case True
    have "digits (base E) (bn_d pm) 0 (Suc n)" using pm n by (simp add: bn_wf_def dok_def)
    from digitsD [OF this, of n] have a: "0 \<le> get (bn_d pm) n" "get (bn_d pm) n < base E" by simp_all
    have "get (bn_d pm) n \<noteq> 0" using pm n by (simp add: bn_wf_def clamped_def)
    then have "1 \<le> nbits (get (bn_d pm) n)" using nbits_bounds(1) [of "get (bn_d pm) n"] a base_num by simp
    then have nDB: "nsh < DB E" using DB_lower by (simp add: nsh_def)
    have r0: "r0 = bnpLShiftTo E this nsh r" using True by (simp add: r0_def pt)
    note z = zero_shift [OF x(1,2) nDB, folded r0]
    have tn: "bn_t ?x = Suc n" using x(3) n by (simp add: pm_def)
    have "t1 = bnpDRShiftTo (Obj y) (Suc n) (case qo of None \<Rightarrow> nbi | Some q \<Rightarrow> q)"
      using z(1) by (simp add: t1_def dlShift_int_def nat_add_distrib)
    then have "div_inv (bval E y) (Suc n) 1 0 r1"
      unfolding r1_def using z tn by (intro first_digit_zero [OF nm(1,2) Y1]) auto
    moreover have "nat j = 0" using z(1) by (simp add: j_def)
    moreover have "(1 mod (\<bar>bval E m\<bar> * 2 ^ nsh)) div 2 ^ nsh = (0::int)"
      using True Y1 y(2) pm(2) by (simp add: div_pos_pos_trivial one_less_power)
    ultimately show ?thesis by metis
  next
    case False
    then have r0: "r0 = bnpCopyTo this r" by (simp add: r0_def pt)
    have tn: "bn_t r0 = Suc n" "bn_s r0 = 0" using x(3) n sx by (simp_all add: r0 pm_def)
    have d0: "digits (base E) (bn_d r0) 0 (Suc n)"
      using x(1,3) n by (auto simp: r0 dok_def digits_def copyTo_cells pm_def)
    have v0: "uval (base E) (bn_d r0) 0 (Suc n) = 0"
      using copyTo_val [of this r] x(2) tn by (simp add: r0 bval_def sx)
    have "t1 = bnpDLShiftTo (Obj y) 0 (case qo of None \<Rightarrow> nbi | Some q \<Rightarrow> q)"
      using tn by (simp add: t1_def dlShift_int_def)
    then have t1: "bn_t t1 = Suc n" "bn_s t1 = 0" "digits (base E) (bn_d t1) 0 (Suc n)" "uval (base E) (bn_d t1) 0 (Suc n) = bval E y"
      using nm y(1) by (auto simp: bn_wf_def dok_def digits_def dlShift_cells intro!: uval_cong)
    have "sgn (bnCompareTo r0 t1) = sgn (0 - bval E y)"
      using compare_digits_sgn [OF d0 t1(3)] tn t1 v0 by (simp add: bnCompareTo_def)
    then have "\<not> bnCompareTo r0 t1 \<ge> 0" using Y1 by (auto simp: sgn_if split: if_splits)
    then have "div_inv (bval E y) (Suc n) 0 (nat j) r1"
      using tn d0 v0 Y1 by (simp add: r1_def j_def div_inv_def)
    then show ?thesis by (intro exI [of _ 0]) simp
  qed
  then obtain v where v: "div_inv (bval E y) (Suc n) v (nat j) r1" "(v mod (\<bar>bval E m\<bar> * 2 ^ nsh)) div 2 ^ nsh = 0" by blast
  then show ?thesis
    using div_tail [OF m(1) n [unfolded pm_def] disjI1 [OF sx] long [unfolded pm_def pt_def]
        y_def [unfolded nsh_def pm_def] r0_def [unfolded nsh_def pt_def pm_def] j_def t1_def [folded j_def] r1_def v(1)]
      sx unfolding nsh_def pm_def by auto
qed

lemma mod_ok:
  assumes a: "bn_wf E a" "0 < bval E a" and x: "bn_wf E x"
  shows "\<exists>r. bnMod E x a = Some r \<and> bn_wf E r \<and> bval E r = bval E x mod bval E a"
proof -
  note ax = abs_ok [OF x]
  obtain q r where d: "bnpDivRemTo E (Obj (bnAbs E x)) a None (Some nbi) = Some (q, Some r)"
    and r: "bn_wf E r" "bval E r = \<bar>bval E x\<bar> mod bval E a"
    using divRemTo_ok [OF a(1), of "Obj (bnAbs E x)" nbi None] a(2) ax by (auto simp: trem_def)
  have sx: "bn_s x < 0 \<longleftrightarrow> bval E x < 0"
    using bval_neg_iff [OF bn_wfD(1) [OF x]] dokD(2) [OF bn_wfD(1) [OF x]] by auto
  have c: "bnCompareTo r (bn_ZERO E) > 0 \<longleftrightarrow> 0 < bval E r" using compareTo_iff(2) [OF r(1), of "bn_ZERO E"] by simp
  have s: "bn_wf E (bnpSubTo E (Obj a) Self r)" "bval E (bnpSubTo E (Obj a) Self r) = bval E a - bval E r"
    using subTo_ok [of "Obj a" r Self] a r by (simp_all add: bn_wfD)
  have r0: "0 \<le> bval E r" using a(2) by (simp add: r(2))
  have neg: "bval E x mod bval E a = (if bval E r > 0 then bval E a - bval E r else bval E r)" if "bval E x < 0"
    using that r(2) r0 zmod_zminus1_eq_if [of "\<bar>bval E x\<bar>" "bval E a"] by auto
  show ?thesis
  proof (cases "bval E x < 0")
    case True
    then show ?thesis using d r s neg sx c by (auto simp: bnMod_def)
  next
    case False
    then show ?thesis using d r sx by (auto simp: bnMod_def)
  qed
qed

end

interpretation div2: div_engine "\<lparr>am = am2, DB = 30\<rparr>"
  by unfold_locales simp

interpretation div3: div_engine "\<lparr>am = am3, DB = 28\<rparr>"
  by unfold_locales simp

end
