(* ===== verification/Bn_Modexp.thy ===== *)
theory Bn_Modexp
  imports Bn_Div
begin

text \<open>
  Modular exponentiation of jsbn (\<open>bnModPowInt\<close> of encrypt/jsbn.js) with its two reducers. The
  interface \<open>reducer\<close> states what \<open>bnpExp\<close> needs of either; \<open>Classic\<close> reduces by division,
  \<open>Montgomery\<close> keeps residues multiplied by \<open>R = base ^ t\<close> and reduces by adding multiples of
  the modulus.
\<close>

section \<open>The code\<close>

text \<open>JavaScript's remainder has the sign of the dividend.\<close>

definition js_rem :: "int \<Rightarrow> int \<Rightarrow> int" where
  "js_rem a b = sgn a * (\<bar>a\<bar> mod \<bar>b\<bar>)"

definition cConvert :: "bnproto \<Rightarrow> bn \<Rightarrow> bn \<Rightarrow> bn option" where
  "cConvert E m x = (if bn_s x < 0 \<or> bnCompareTo x m \<ge> 0 then bnMod E x m else Some x)"

definition cRevert :: "bn \<Rightarrow> bn option" where
  "cRevert x = Some x"

definition cReduce :: "bnproto \<Rightarrow> bn \<Rightarrow> bn \<Rightarrow> bn option" where
  "cReduce E m x = Option.bind (bnpDivRemTo E Self m None (Some x)) snd"

definition cMulTo :: "bnproto \<Rightarrow> bn \<Rightarrow> bn \<Rightarrow> bn \<Rightarrow> bn \<Rightarrow> bn option" where
  "cMulTo E m x y r = cReduce E m (bnpMultiplyTo E x y r)"

definition cSqrTo :: "bnproto \<Rightarrow> bn \<Rightarrow> bn \<Rightarrow> bn \<Rightarrow> bn option" where
  "cSqrTo E m x r = cReduce E m (bnpSquareTo E x r)"

definition bnpInvDigit :: "bnproto \<Rightarrow> bn \<Rightarrow> int" where
  "bnpInvDigit E this =
     (if bn_t this < 1 then 0
      else let x = get (bn_d this) 0
           in if js_and x 1 = 0 then 0
              else
                let y = js_and x 3;
                    y = js_and (y * (2 - js_and x 0xf * y)) 0xf;
                    y = js_and (y * (2 - js_and x 0xff * y)) 0xff;
                    y = js_and (y * (2 - js_and (js_and x 0xffff * y) 0xffff)) 0xffff;
                    y = js_rem (y * (2 - js_rem (x * y) (DV E))) (DV E)
                in if y > 0 then DV E - y else - y)"

record mont =
  mo_m :: bn
  mp :: int
  mpl :: int
  mph :: int
  um :: int
  mt2 :: nat

definition Montgomery :: "bnproto \<Rightarrow> bn \<Rightarrow> mont" where
  "Montgomery E m =
     (let mp = bnpInvDigit E m
      in \<lparr>mo_m = m, mp = mp, mpl = js_and mp 0x7fff, mph = js_sar mp 15,
          um = js_shl 1 (DB E - 15) - 1, mt2 = 2 * bn_t m\<rparr>)"

definition mont_u0 :: "bnproto \<Rightarrow> mont \<Rightarrow> int \<Rightarrow> int" where
  "mont_u0 E z xi =
     (let j = js_and xi 0x7fff
      in js_and (j * mpl z + js_shl (js_and (j * mph z + js_sar xi 15 * mpl z) (um z)) 15) (DM E))"

partial_function (option) mont_carry :: "bnproto \<Rightarrow> nat \<Rightarrow> int list \<Rightarrow> int list option" where
  \<comment> \<open>while(x[j] >= x.DV) { x[j] -= x.DV; x[++j]++; }\<close>
  "mont_carry E j x =
     (if get x j \<ge> DV E
      then let x = put x j (get x j - DV E) in mont_carry E (j + 1) (put x (j + 1) (get x (j + 1) + 1))
      else Some x)"

definition mont_round :: "bnproto \<Rightarrow> mont \<Rightarrow> nat \<Rightarrow> int list \<Rightarrow> int list option" where
  \<comment> \<open>the body of for(var i = 0; i < this.m.t; ++i) of montReduce\<close>
  "mont_round E z i w =
     (let m = mo_m z; n = bn_t m;
          u0 = mont_u0 E z (get w i);
          j = i + n; old = get w j;
          (w, c) = am E (bn_d m) 0 u0 w i 0 n;
          w = put w j (old + c)
      in mont_carry E j w)"

definition montReduce :: "bnproto \<Rightarrow> mont \<Rightarrow> bn \<Rightarrow> bn option" where
  "montReduce E z x =
     (let m = mo_m z; n = bn_t m;
          t = max (bn_t x) (mt2 z + 1);
          w = for_up (bn_t x) t (\<lambda>i w. put w i 0) (bn_d x)
      in case foldM (mont_round E z) [0..<n] w of
           None \<Rightarrow> None
         | Some w \<Rightarrow>
             let x = bnpClamp E (x\<lparr>bn_d := w, bn_t := t\<rparr>);
                 x = bnpDRShiftTo Self n x
             in Some (if bnCompareTo x m \<ge> 0 then bnpSubTo E Self (Obj m) x else x))"

definition montConvert :: "bnproto \<Rightarrow> mont \<Rightarrow> bn \<Rightarrow> bn option" where
  "montConvert E z x =
     (let m = mo_m z;
          r = bnpDLShiftTo (Obj (bnAbs E x)) (bn_t m) nbi
      in case bnpDivRemTo E Self m None (Some r) of
           Some (_, Some r) \<Rightarrow>
             Some (if bn_s x < 0 \<and> bnCompareTo r (bn_ZERO E) > 0 then bnpSubTo E (Obj m) Self r else r)
         | _ \<Rightarrow> None)"

definition montRevert :: "bnproto \<Rightarrow> mont \<Rightarrow> bn \<Rightarrow> bn option" where
  "montRevert E z x = montReduce E z (bnpCopyTo (Obj x) nbi)"

definition montSqrTo :: "bnproto \<Rightarrow> mont \<Rightarrow> bn \<Rightarrow> bn \<Rightarrow> bn option" where
  "montSqrTo E z x r = montReduce E z (bnpSquareTo E x r)"

definition montMulTo :: "bnproto \<Rightarrow> mont \<Rightarrow> bn \<Rightarrow> bn \<Rightarrow> bn \<Rightarrow> bn option" where
  "montMulTo E z x y r = montReduce E z (bnpMultiplyTo E x y r)"

text \<open>The object \<open>z\<close> of the source, dispatching on its prototype.\<close>

datatype reducer = Classic bn | Mont mont

fun z_convert :: "bnproto \<Rightarrow> reducer \<Rightarrow> bn \<Rightarrow> bn option" where
  "z_convert E (Classic m) x = cConvert E m x"
| "z_convert E (Mont z) x = montConvert E z x"

fun z_revert :: "bnproto \<Rightarrow> reducer \<Rightarrow> bn \<Rightarrow> bn option" where
  "z_revert E (Classic m) x = cRevert x"
| "z_revert E (Mont z) x = montRevert E z x"

fun z_mulTo :: "bnproto \<Rightarrow> reducer \<Rightarrow> bn \<Rightarrow> bn \<Rightarrow> bn \<Rightarrow> bn option" where
  "z_mulTo E (Classic m) x y r = cMulTo E m x y r"
| "z_mulTo E (Mont z) x y r = montMulTo E z x y r"

fun z_sqrTo :: "bnproto \<Rightarrow> reducer \<Rightarrow> bn \<Rightarrow> bn \<Rightarrow> bn option" where
  "z_sqrTo E (Classic m) x r = cSqrTo E m x r"
| "z_sqrTo E (Mont z) x r = montSqrTo E z x r"

definition bnpIsEven :: "bn \<Rightarrow> bool" where
  "bnpIsEven this = ((if bn_t this > 0 then js_and (get (bn_d this) 0) 1 else bn_s this) = 0)"

definition bnpExp :: "bnproto \<Rightarrow> bn \<Rightarrow> int \<Rightarrow> reducer \<Rightarrow> bn option" where
  "bnpExp E this e z =
     (if e > 0xffffffff \<or> e < 1 then Some (bn_ONE E)
      else
        Option.bind (z_convert E z this) (\<lambda>g.
        Option.bind
          (foldM (\<lambda>i (r, r2).
             Option.bind (z_sqrTo E z r r2) (\<lambda>r2.
               if js_and e (js_shl 1 i) > 0
               then Option.bind (z_mulTo E z r2 g r) (\<lambda>r. Some (r, r2))
               else Some (r2, r)))
             (rev [0..<nbits e - 1]) (bnpCopyTo (Obj g) nbi, nbi))
          (\<lambda>(r, r2). z_revert E z r)))"

definition bnModPowInt :: "bnproto \<Rightarrow> bn \<Rightarrow> int \<Rightarrow> bn \<Rightarrow> bn option" where
  "bnModPowInt E this e m =
     bnpExp E this e (if e < 256 \<or> bnpIsEven m then Classic m else Mont (Montgomery E m))"

section \<open>Exponentiation over any reducer\<close>

lemma bit_test:
  assumes "i \<le> 30"
  shows "js_and e (js_shl 1 i) > 0 \<longleftrightarrow> odd (e div 2 ^ i)"
proof -
  have "(2::int) ^ i \<le> 2 ^ 30" using assms by (intro power_increasing) auto
  then have p: "js_shl 1 i = 2 ^ i" "to_int32 (2 ^ i) = 2 ^ i" using assms by (simp_all add: js_shl_mult)
  then have "js_and e (js_shl 1 i) = to_int32 e AND 2 ^ i" by (simp add: js_and_def)
  moreover have "0 \<le> to_int32 e AND 2 ^ i" by simp
  moreover have "to_int32 e AND 2 ^ i = 0 \<longleftrightarrow> \<not> bit (to_int32 e) i"
    by (rule and_exp_eq_0_iff_not_bit)
  moreover have "bit (to_int32 e) i \<longleftrightarrow> bit e i"
    using assms by (simp add: to_int32_def bit_signed_take_bit_iff min_def)
  moreover have "bit e i \<longleftrightarrow> odd (e div 2 ^ i)" by (rule bit_iff_odd)
  ultimately show ?thesis by linarith
qed

text \<open>
  A reducer: \<open>rep m r a\<close> says that \<open>r\<close> represents the residue of \<open>a\<close> for the modulus \<open>m\<close>. The
  destination of a product may hold anything.
\<close>

locale reducer_laws =
  fixes conv unconv :: "bn \<Rightarrow> bn \<Rightarrow> bn option" and mul :: "bn \<Rightarrow> bn \<Rightarrow> bn \<Rightarrow> bn \<Rightarrow> bn option"
    and sqr :: "bn \<Rightarrow> bn \<Rightarrow> bn \<Rightarrow> bn option"
    and ok modulus :: "bn \<Rightarrow> bool" and val :: "bn \<Rightarrow> int" and rep :: "bn \<Rightarrow> bn \<Rightarrow> int \<Rightarrow> bool"
  assumes conv_rep: "modulus m \<Longrightarrow> ok x \<Longrightarrow> \<exists>g. conv m x = Some g \<and> rep m g (val x)"
    and mul_rep: "modulus m \<Longrightarrow> rep m x a \<Longrightarrow> rep m y b \<Longrightarrow> \<exists>p. mul m x y r = Some p \<and> rep m p (a * b)"
    and sqr_rep: "modulus m \<Longrightarrow> rep m x a \<Longrightarrow> \<exists>p. sqr m x r = Some p \<and> rep m p (a * a)"
    and unconv_rep: "modulus m \<Longrightarrow> rep m x a \<Longrightarrow> \<exists>y. unconv m x = Some y \<and> ok y \<and> val y = a mod val m"
    and copy_rep: "rep m x a \<Longrightarrow> rep m (bnpCopyTo (Obj x) r) a"
begin

lemma power_loop:
  assumes m: "modulus m" and g: "rep m g a" and e: "0 < e" "e < 2 ^ 32"
  shows "\<exists>r r2. foldM (\<lambda>i (r, r2).
             Option.bind (sqr m r r2) (\<lambda>r2.
               if js_and e (js_shl 1 i) > 0
               then Option.bind (mul m r2 g r) (\<lambda>r. Some (r, r2))
               else Some (r2, r)))
             (rev [0..<nbits e - 1]) (bnpCopyTo (Obj g) s, t) = Some (r, r2) \<and> rep m r (a ^ nat e)"
proof -
  note nb = nbits_bounds [OF e]
  have "(2::int) ^ (nbits e - 1) < 2 ^ 32" by (rule order_le_less_trans [OF nb(2) e(2)])
  then have n32: "nbits e - 1 < 32" by (rule power_less_imp_less_exp [rotated]) simp
  have one: "e div 2 ^ (nbits e - 1) = 1"
  proof (rule int_div_pos_eq [where r = "e - 2 ^ (nbits e - 1)"])
    have "(2::int) ^ nbits e = 2 * 2 ^ (nbits e - 1)" using nb(1) by (cases "nbits e") auto
    then show "e - 2 ^ (nbits e - 1) < 2 ^ (nbits e - 1)" using nb(3) by simp
  qed (use nb(2) in simp_all)
  let ?P = "\<lambda>i s. rep m (fst s) (a ^ nat (e div 2 ^ i))"
  let ?f = "\<lambda>i (r, r2). Option.bind (sqr m r r2) (\<lambda>r2.
               if js_and e (js_shl 1 i) > 0
               then Option.bind (mul m r2 g r) (\<lambda>r. Some (r, r2))
               else Some (r2, r))"
  have "\<exists>s'. foldM ?f (rev [0..<nbits e - 1]) (bnpCopyTo (Obj g) s, t) = Some s' \<and> ?P 0 s'"
  proof (rule foldM_down_inv [where P = ?P])
    show "?P (nbits e - 1) (bnpCopyTo (Obj g) s, t)" using copy_rep [OF g] unfolding one fst_conv by simp
  next
    fix i and s :: "bn \<times> bn" assume i: "i < nbits e - 1" and P: "?P (Suc i) s"
    obtain r r2 where s: "s = (r, r2)" by fastforce
    define n where "n = e div 2 ^ Suc i"
    have n: "0 \<le> n" "n = e div 2 ^ i div 2" using e
      by (simp_all add: n_def pos_imp_zdiv_nonneg_iff zdiv_zmult2_eq [symmetric] mult.commute)
    obtain p where p: "sqr m r r2 = Some p" "rep m p (a ^ nat n * a ^ nat n)"
      using sqr_rep [OF m] P unfolding s fst_conv n_def [symmetric] by blast
    have t: "js_and e (js_shl 1 i) > 0 \<longleftrightarrow> odd (e div 2 ^ i)" using i n32 by (intro bit_test) simp
    show "\<exists>s'. ?f i s = Some s' \<and> ?P i s'"
    proof (cases "odd (e div 2 ^ i)")
      case True
      then have "e div 2 ^ i = 2 * n + 1" using n(2) by simp
      then have "nat (e div 2 ^ i) = nat n + nat n + 1" using n(1) by simp
      then have v: "a ^ nat (e div 2 ^ i) = a ^ nat n * a ^ nat n * a" by (simp add: power_add)
      obtain q where q: "mul m p g r = Some q" "rep m q (a ^ nat n * a ^ nat n * a)" using mul_rep [OF m p(2) g] by blast
      then show ?thesis using p True t by (simp add: s v)
    next
      case False
      then have "e div 2 ^ i = 2 * n" using n(2) by simp
      then have "nat (e div 2 ^ i) = nat n + nat n" using n(1) by simp
      then have v: "a ^ nat (e div 2 ^ i) = a ^ nat n * a ^ nat n" by (simp add: power_add)
      then show ?thesis using p False t by (simp add: s)
    qed
  qed
  then show ?thesis by auto
qed

text \<open>The whole of \<open>bnpExp\<close>.\<close>

lemma power_ok:
  assumes m: "modulus m" and x: "ok x" and e: "0 < e" "e < 2 ^ 32"
  shows "\<exists>y. Option.bind (conv m x) (\<lambda>g.
        Option.bind
          (foldM (\<lambda>i (r, r2).
             Option.bind (sqr m r r2) (\<lambda>r2.
               if js_and e (js_shl 1 i) > 0
               then Option.bind (mul m r2 g r) (\<lambda>r. Some (r, r2))
               else Some (r2, r)))
             (rev [0..<nbits e - 1]) (bnpCopyTo (Obj g) nbi, nbi))
          (\<lambda>(r, r2). unconv m r)) = Some y \<and> ok y \<and> val y = val x ^ nat e mod val m"
proof -
  obtain g where g: "conv m x = Some g" "rep m g (val x)" using conv_rep [OF m x] by blast
  from power_loop [OF m g(2) e] obtain r r2 where
    r: "foldM (\<lambda>i (r, r2).
             Option.bind (sqr m r r2) (\<lambda>r2.
               if js_and e (js_shl 1 i) > 0
               then Option.bind (mul m r2 g r) (\<lambda>r. Some (r, r2))
               else Some (r2, r)))
             (rev [0..<nbits e - 1]) (bnpCopyTo (Obj g) nbi, nbi) = Some (r, r2)" "rep m r (val x ^ nat e)"
    by blast
  then show ?thesis using g unconv_rep [OF m r(2)] by simp
qed

end

section \<open>The classic reducer\<close>

definition positive_bn :: "bnproto \<Rightarrow> bn \<Rightarrow> bool" where
  "positive_bn E m \<longleftrightarrow> bn_wf E m \<and> 0 < bval E m"

definition odd_modulus :: "bnproto \<Rightarrow> bn \<Rightarrow> bool" where
  "odd_modulus E m \<longleftrightarrow> positive_bn E m \<and> odd (bval E m)"

definition classic_rep :: "bnproto \<Rightarrow> bn \<Rightarrow> bn \<Rightarrow> int \<Rightarrow> bool" where
  "classic_rep E m r a \<longleftrightarrow> bn_wf E r \<and> bval E r = a mod bval E m"

definition mont_rep :: "bnproto \<Rightarrow> bn \<Rightarrow> bn \<Rightarrow> int \<Rightarrow> bool" where
  "mont_rep E m r a \<longleftrightarrow> bn_wf E r \<and> bval E r = (a * base E ^ bn_t m) mod bval E m"

context div_engine
begin

lemma copy_of: "bn_wf E x \<Longrightarrow> bn_wf E (bnpCopyTo (Obj x) r) \<and> bval E (bnpCopyTo (Obj x) r) = bval E x"
  using copyTo_wf [of "Obj x" r] copyTo_val [of "Obj x" r] by simp

lemma cReduce_ok:
  assumes "positive_bn E m" "bn_wf E x" "0 \<le> bval E x"
  shows "\<exists>y. cReduce E m x = Some y \<and> bn_wf E y \<and> bval E y = bval E x mod bval E m"
  using divRemTo_ok [of m Self x None] assms by (auto simp: cReduce_def positive_bn_def trem_def)

lemma cConvert_ok:
  assumes "positive_bn E m" "bn_wf E x"
  shows "\<exists>y. cConvert E m x = Some y \<and> classic_rep E m y (bval E x)"
proof (cases "bn_s x < 0 \<or> bnCompareTo x m \<ge> 0")
  case True
  then show ?thesis using mod_ok [of m x] assms by (auto simp: cConvert_def positive_bn_def classic_rep_def)
next
  case False
  have "0 \<le> bval E x" using False assms(2) bval_nonneg_iff [OF bn_wfD(1) [OF assms(2)]] dokD(2) [OF bn_wfD(1) [OF assms(2)]] by auto
  moreover have "bval E x < bval E m"
    using False compareTo_iff(1) [OF assms(2), of m] assms(1) by (auto simp: positive_bn_def)
  ultimately show ?thesis using False assms by (auto simp: cConvert_def classic_rep_def)
qed

lemma classic_laws:
  "reducer_laws (\<lambda>m. z_convert E (Classic m)) (\<lambda>m. z_revert E (Classic m)) (\<lambda>m. z_mulTo E (Classic m))
     (\<lambda>m. z_sqrTo E (Classic m)) (bn_wf E) (positive_bn E) (bval E) (classic_rep E)"
proof
  fix m x y r a b
  show "positive_bn E m \<Longrightarrow> bn_wf E x \<Longrightarrow> \<exists>g. z_convert E (Classic m) x = Some g \<and> classic_rep E m g (bval E x)"
    using cConvert_ok by simp
  show "positive_bn E m \<Longrightarrow> classic_rep E m x a \<Longrightarrow>
      \<exists>y. z_revert E (Classic m) x = Some y \<and> bn_wf E y \<and> bval E y = a mod bval E m"
    by (simp add: cRevert_def classic_rep_def)
  show "classic_rep E m x a \<Longrightarrow> classic_rep E m (bnpCopyTo (Obj x) r) a"
    using copy_of [of x r] by (simp add: classic_rep_def)
  assume m: "positive_bn E m" and x: "classic_rep E m x a"
  have x0: "bn_wf E x" "0 \<le> bval E x" using m x by (simp_all add: classic_rep_def positive_bn_def)
  show "\<exists>p. z_sqrTo E (Classic m) x r = Some p \<and> classic_rep E m p (a * a)"
    using cReduce_ok [OF m, of "bnpSquareTo E x r"] squareTo_ok [OF x0(1), of r] x
    by (auto simp: cSqrTo_def classic_rep_def power2_eq_square mod_mult_eq)
  assume y: "classic_rep E m y b"
  have y0: "bn_wf E y" "0 \<le> bval E y" using m y by (simp_all add: classic_rep_def positive_bn_def)
  show "\<exists>p. z_mulTo E (Classic m) x y r = Some p \<and> classic_rep E m p (a * b)"
    using cReduce_ok [OF m, of "bnpMultiplyTo E x y r"] multiplyTo_ok [OF x0(1) y0(1), of r] x y x0 y0
    by (auto simp: cMulTo_def classic_rep_def mod_mult_eq)
qed

end

interpretation classic2: reducer_laws "\<lambda>m. z_convert \<lparr>am = am2, DB = 30\<rparr> (Classic m)"
    "\<lambda>m. z_revert \<lparr>am = am2, DB = 30\<rparr> (Classic m)" "\<lambda>m. z_mulTo \<lparr>am = am2, DB = 30\<rparr> (Classic m)"
    "\<lambda>m. z_sqrTo \<lparr>am = am2, DB = 30\<rparr> (Classic m)" "bn_wf \<lparr>am = am2, DB = 30\<rparr>"
    "positive_bn \<lparr>am = am2, DB = 30\<rparr>" "bval \<lparr>am = am2, DB = 30\<rparr>" "classic_rep \<lparr>am = am2, DB = 30\<rparr>"
  by (rule div2.classic_laws)

interpretation classic3: reducer_laws "\<lambda>m. z_convert \<lparr>am = am3, DB = 28\<rparr> (Classic m)"
    "\<lambda>m. z_revert \<lparr>am = am3, DB = 28\<rparr> (Classic m)" "\<lambda>m. z_mulTo \<lparr>am = am3, DB = 28\<rparr> (Classic m)"
    "\<lambda>m. z_sqrTo \<lparr>am = am3, DB = 28\<rparr> (Classic m)" "bn_wf \<lparr>am = am3, DB = 28\<rparr>"
    "positive_bn \<lparr>am = am3, DB = 28\<rparr>" "bval \<lparr>am = am3, DB = 28\<rparr>" "classic_rep \<lparr>am = am3, DB = 28\<rparr>"
  by (rule div3.classic_laws)

section \<open>The negative inverse of the low digit\<close>

lemma inverse_step:
  fixes x y y' n N :: int
  assumes "n dvd x * y - 1" "N dvd n * n" "N dvd y' - y * (2 - x * y)"
  shows "N dvd x * y' - 1"
proof -
  have "n * n dvd (x * y - 1) * (x * y - 1)" using assms(1) by (intro mult_dvd_mono)
  then have "N dvd (x * y - 1) * (x * y - 1)" using assms(2) by (rule dvd_trans [rotated])
  moreover have "N dvd x * (y' - y * (2 - x * y))" using assms(3) by (rule dvd_mult)
  ultimately have "N dvd x * (y' - y * (2 - x * y)) - (x * y - 1) * (x * y - 1)" by (rule dvd_diff [rotated])
  then show ?thesis by (simp add: algebra_simps)
qed

lemma dvd_mod_diff: "(N :: int) dvd a mod N - a"
  by (rule dvdI [where k = "- (a div N)"]) (simp add: minus_mult_div_eq_mod [symmetric])

lemma dvd_js_rem: "b dvd js_rem a b - a"
proof -
  have "b dvd \<bar>a\<bar> mod \<bar>b\<bar> - \<bar>a\<bar>" using dvd_mod_diff [of "\<bar>b\<bar>" "\<bar>a\<bar>"] by simp
  then have "b dvd sgn a * (\<bar>a\<bar> mod \<bar>b\<bar> - \<bar>a\<bar>)" by (rule dvd_mult)
  moreover have "sgn a * (\<bar>a\<bar> mod \<bar>b\<bar> - \<bar>a\<bar>) = js_rem a b - a"
    by (simp add: js_rem_def right_diff_distrib mult_sgn_abs)
  ultimately show ?thesis by simp
qed

lemma js_rem_bound: "0 < b \<Longrightarrow> \<bar>js_rem a b\<bar> < b"
  using pos_mod_bound [of "\<bar>b\<bar>" "\<bar>a\<bar>"] pos_mod_sign [of "\<bar>b\<bar>" "\<bar>a\<bar>"]
  by (auto simp: js_rem_def abs_mult sgn_if)

context div_engine
begin

lemma js_mask [simp]:
  "js_and x 1 = x mod 2" "js_and x 3 = x mod 4" "js_and x 15 = x mod 16" "js_and x 255 = x mod 256"
  "js_and x 65535 = x mod 65536" "js_and x 32767 = x mod 32768"
  by (rule js_and_mask [of 1, simplified] js_and_mask [of 2, simplified] js_and_mask [of 4, simplified]
      js_and_mask [of 8, simplified] js_and_mask [of 16, simplified] js_and_mask [of 15, simplified])+

lemma inverse_mod_step:
  fixes x y :: int
  assumes "n dvd x * y - 1" "N dvd n * n"
  shows "N dvd x * ((y * (2 - x mod N * y)) mod N) - 1"
proof (rule inverse_step [OF assms])
  have "N dvd (y * (2 - x mod N * y)) mod N - y * (2 - x mod N * y)" by (rule dvd_mod_diff)
  moreover have "N dvd (x mod N - x) * (- (y * y))" by (intro dvd_mult2 dvd_mod_diff)
  ultimately have "N dvd ((y * (2 - x mod N * y)) mod N - y * (2 - x mod N * y)) + (x mod N - x) * (- (y * y))"
    by (rule dvd_add)
  then show "N dvd (y * (2 - x mod N * y)) mod N - y * (2 - x * y)" by (simp add: algebra_simps)
qed

lemma invDigit_ok:
  assumes m: "dok E m" "0 < bn_t m" and odd: "odd (get (bn_d m) 0)"
  shows "0 \<le> bnpInvDigit E m" "bnpInvDigit E m < base E" "base E dvd get (bn_d m) 0 * bnpInvDigit E m + 1"
proof -
  define x where "x = get (bn_d m) 0"
  define y0 y1 y2 y3 where "y0 = x mod 4" and "y1 = (y0 * (2 - x mod 16 * y0)) mod 16"
    and "y2 = (y1 * (2 - x mod 256 * y1)) mod 256"
    and "y3 = (y2 * (2 - (x mod 65536 * y2) mod 65536)) mod 65536"
  define y4 where "y4 = js_rem (y3 * (2 - js_rem (x * y3) (base E))) (base E)"
  have "x mod 4 = 1 \<or> x mod 4 = 3" using odd unfolding x_def [symmetric] by presburger
  then have d0: "4 dvd x * y0 - 1"
  proof
    assume "x mod 4 = 1"
    then show ?thesis unfolding y0_def by (simp add: mod_eq_dvd_iff [symmetric])
  next
    assume "x mod 4 = 3"
    then show ?thesis unfolding y0_def by simp presburger
  qed
  have d1: "16 dvd x * y1 - 1" unfolding y1_def by (rule inverse_mod_step [OF d0]) simp
  have d2: "256 dvd x * y2 - 1" unfolding y2_def by (rule inverse_mod_step [OF d1]) simp
  have "y3 = (y2 * (2 - x mod 65536 * y2)) mod 65536"
    unfolding y3_def by (metis mod_diff_right_eq mod_mult_right_eq)
  then have d3: "65536 dvd x * y3 - 1" using inverse_mod_step [OF d2, of 65536] by simp
  have b32: "base E dvd 65536 * 65536"
    using le_imp_power_dvd [of "DB E" 32 "2::int"] DB_upper by (simp add: base_def)
  have "base E dvd y4 - y3 * (2 - js_rem (x * y3) (base E))" unfolding y4_def by (rule dvd_js_rem)
  moreover have "base E dvd (js_rem (x * y3) (base E) - x * y3) * (- y3)" by (intro dvd_mult2 dvd_js_rem)
  ultimately have "base E dvd (y4 - y3 * (2 - js_rem (x * y3) (base E))) + (js_rem (x * y3) (base E) - x * y3) * (- y3)"
    by (rule dvd_add)
  then have "base E dvd y4 - y3 * (2 - x * y3)" by (simp add: algebra_simps)
  then have d4: "base E dvd x * y4 - 1" by (rule inverse_step [OF d3 b32])
  have b4: "\<bar>y4\<bar> < base E" unfolding y4_def by (rule js_rem_bound) simp
  have "x mod 2 \<noteq> 0" using odd by (simp add: x_def odd_iff_mod_2_eq_one)
  then have inv: "bnpInvDigit E m = (if y4 > 0 then base E - y4 else - y4)"
    unfolding bnpInvDigit_def Let_def x_def [symmetric] js_mask DV_base y0_def [symmetric]
      y1_def [symmetric] y2_def [symmetric] y3_def [symmetric] y4_def [symmetric]
    using m(2) by simp
  show "0 \<le> bnpInvDigit E m" "bnpInvDigit E m < base E" using b4 by (auto simp: inv)
  have "base E dvd 1 - x * y4" using d4 by (metis dvd_minus_iff minus_diff_eq)
  then have "base E dvd x * base E + (1 - x * y4)" by (intro dvd_add) simp_all
  then show "base E dvd get (bn_d m) 0 * bnpInvDigit E m + 1"
    using \<open>base E dvd 1 - x * y4\<close> unfolding inv x_def [symmetric] by (auto simp: algebra_simps)
qed

section \<open>Montgomery reduction\<close>

lemma mont_fields [simp]:
  "mo_m (Montgomery E m) = m" "mp (Montgomery E m) = bnpInvDigit E m" "mt2 (Montgomery E m) = 2 * bn_t m"
  "mpl (Montgomery E m) = js_and (bnpInvDigit E m) 0x7fff" "mph (Montgomery E m) = js_sar (bnpInvDigit E m) 15"
  "um (Montgomery E m) = js_shl 1 (DB E - 15) - 1"
  by (simp_all add: Montgomery_def Let_def)

text \<open>The multiplier is computed from 15-bit halves, without exceeding 2 ^ 31.\<close>

lemma mont_u0_ok:
  assumes mp: "0 \<le> bnpInvDigit E m" "bnpInvDigit E m < base E" and x: "0 \<le> x" "x < base E"
  shows "mont_u0 E (Montgomery E m) x = (x * bnpInvDigit E m) mod base E"
proof -
  let ?b = "base E"
  define p where "p = bnpInvDigit E m"
  define k where "k = DB E - 15"
  define j h pl ph where "j = x mod 32768" and "h = x div 32768" and "pl = p mod 32768" and "ph = p div 32768"
  have kb: "(2::int) ^ k * 32768 = ?b" using DB_lower power_add [of "2::int" k 15] by (simp add: k_def base_def)
  have k31: "k \<le> 15" using DB_upper by (simp add: k_def)
  have "(2::int) ^ k \<le> 2 ^ 15" using k31 by (rule power_increasing) simp
  then have k15: "(2::int) ^ k \<le> 32768" by simp
  have one: "js_shl 1 k = 2 ^ k" using k15 k31 by (simp add: js_shl_mult)
  have sar: "js_sar x 15 = h" "js_sar p 15 = ph"
    using x mp base_num by (simp_all add: js_sar_div h_def ph_def p_def)
  define mid where "mid = (j * ph + h * pl) mod 2 ^ k"
  have mid: "0 \<le> mid" "mid < 2 ^ k" by (simp_all add: mid_def)
  have "js_and (j * ph + h * pl) (2 ^ k - 1) = mid" using k31 by (simp add: js_and_mask mid_def)
  moreover have "js_shl mid 15 = mid * 32768"
    using mid k15 js_shl_mult [of mid 15] by simp
  ultimately have u: "mont_u0 E (Montgomery E m) x = (j * pl + mid * 32768) mod ?b"
    unfolding mont_u0_def Let_def mont_fields p_def [symmetric] k_def [symmetric] one sar js_mask
      j_def [symmetric] pl_def [symmetric] and_DM by simp
  have dk: "?b dvd (mid - (j * ph + h * pl)) * 32768"
    unfolding kb [symmetric] mid_def by (intro mult_dvd_mono dvd_mod_diff) simp
  have b30: "?b dvd 1073741824" using le_imp_power_dvd [of "DB E" 30 "2::int"] DB_upper by (simp add: base_def)
  have xp: "x = j + 32768 * h" "p = pl + 32768 * ph" by (simp_all add: j_def h_def pl_def ph_def)
  have "j * pl + mid * 32768 - x * p = (mid - (j * ph + h * pl)) * 32768 - 1073741824 * (h * ph)"
    unfolding xp by (simp add: algebra_simps)
  moreover have "?b dvd (mid - (j * ph + h * pl)) * 32768 - 1073741824 * (h * ph)"
    by (rule dvd_diff [OF dk dvd_mult2 [OF b30]])
  ultimately have "?b dvd j * pl + mid * 32768 - x * p" by (simp only:)
  then show ?thesis unfolding u p_def [symmetric] by (simp add: mod_eq_dvd_iff)
qed

text \<open>Carrying within \<open>N\<close> digits that are enough for the value.\<close>

lemma carry_ok:
  assumes "j < N" "\<And>c. c < N \<Longrightarrow> c \<noteq> j \<Longrightarrow> 0 \<le> get x c \<and> get x c < base E"
    and "0 \<le> get x j" "get x j < 2 * base E" "uval (base E) x 0 N < base E ^ N"
  shows "\<exists>x'. mont_carry E j x = Some x' \<and> digits (base E) x' 0 N \<and>
    uval (base E) x' 0 N = uval (base E) x 0 N \<and> (\<forall>c < j. get x' c = get x c)"
  using assms
proof (induction "N - j" arbitrary: j x)
  case (Suc d)
  let ?b = "base E"
  show ?case
  proof (cases "get x j \<ge> ?b")
    case False
    then have "mont_carry E j x = Some x" by (subst mont_carry.simps) (simp add: DV_base)
    moreover have "digits ?b x 0 N"
    proof (rule digitsI)
      fix c assume "0 \<le> c" "c < 0 + N"
      then show "0 \<le> get x c \<and> get x c < ?b" using Suc.prems False by (cases "c = j") auto
    qed
    ultimately show ?thesis by simp
  next
    case True
    have "Suc j < N"
    proof (rule ccontr)
      assume "\<not> Suc j < N"
      then have N: "N = Suc j" using Suc.prems(1) by simp
      have "digits ?b x 0 j" using Suc.prems(2) N by (intro digitsI) auto
      then have "0 \<le> uval ?b x 0 j" by (rule uval_nonneg) simp
      moreover have "?b * ?b ^ j \<le> get x j * ?b ^ j" using True by (intro mult_right_mono) auto
      ultimately show False using Suc.prems(5) unfolding N uval_Suc add_0 power_Suc by linarith
    qed
    define x1 where "x1 = put x j (get x j - ?b)"
    define x2 where "x2 = put x1 (Suc j) (get x1 (Suc j) + 1)"
    have step: "mont_carry E j x = mont_carry E (Suc j) x2"
      using True by (subst mont_carry.simps) (simp add: DV_base Let_def x1_def x2_def)
    have cell: "0 \<le> get x (Suc j) \<and> get x (Suc j) < ?b" using Suc.prems(2) [of "Suc j"] \<open>Suc j < N\<close> by simp
    have v: "uval ?b x2 0 N = uval ?b x 0 N"
      using uval_put [of "Suc j" N ?b x1 0] uval_put [of j N ?b x 0] \<open>Suc j < N\<close> Suc.prems(1)
      by (simp add: x2_def x1_def)
    have "\<exists>x'. mont_carry E (Suc j) x2 = Some x' \<and> digits ?b x' 0 N \<and>
        uval ?b x' 0 N = uval ?b x2 0 N \<and> (\<forall>c < Suc j. get x' c = get x2 c)"
    proof (rule Suc.hyps(1))
      show "d = N - Suc j" using Suc.hyps(2) by simp
      show "0 \<le> get x2 c \<and> get x2 c < ?b" if "c < N" "c \<noteq> Suc j" for c
        using that Suc.prems True by (auto simp: x2_def x1_def get_put)
      show "0 \<le> get x2 (Suc j)" "get x2 (Suc j) < 2 * ?b" using cell base_num by (simp_all add: x2_def x1_def)
      show "uval ?b x2 0 N < ?b ^ N" using v Suc.prems(5) by simp
    qed (rule \<open>Suc j < N\<close>)
    then show ?thesis unfolding step v by (auto simp: x2_def x1_def)
  qed
qed simp

abbreviation mont_ok :: "bn \<Rightarrow> bool" where
  "mont_ok \<equiv> odd_modulus E"

lemma mont_okD:
  assumes "mont_ok m"
  shows "dok E m" "bn_s m = 0" "bval E m = uval (base E) (bn_d m) 0 (bn_t m)" "0 < bval E m"
    "bval E m < base E ^ bn_t m" "0 < bn_t m" "odd (get (bn_d m) 0)"
proof -
  show d: "dok E m" and p: "0 < bval E m" using assms by (auto simp: odd_modulus_def positive_bn_def bn_wfD)
  show s: "bn_s m = 0" using p bval_nonneg_iff [OF d] by simp
  show v: "bval E m = uval (base E) (bn_d m) 0 (bn_t m)" using s by (simp add: bval_def)
  show "bval E m < base E ^ bn_t m" using bval_bounds [OF d] by simp
  show t: "0 < bn_t m" using p v by (cases "bn_t m") auto
  then obtain n where n: "bn_t m = Suc n" by (cases "bn_t m") auto
  have "even (base E)" using DB_lower by (simp add: base_def)
  then show "odd (get (bn_d m) 0)" using assms v n by (simp add: odd_modulus_def uval_step)
qed

text \<open>Before round \<open>i\<close> the value is the input plus a multiple of the modulus, with \<open>i\<close> low zeros.\<close>

definition mont_inv :: "bn \<Rightarrow> int \<Rightarrow> nat \<Rightarrow> int list \<Rightarrow> bool" where
  "mont_inv m v i w \<longleftrightarrow> digits (base E) w 0 (2 * bn_t m + 1) \<and> (\<forall>c < i. get w c = 0) \<and>
     (\<exists>k. 0 \<le> k \<and> k < base E ^ i \<and> uval (base E) w 0 (2 * bn_t m + 1) = v + bval E m * k)"

lemma mont_room:
  assumes m: "mont_ok m" and v: "v < bval E m * base E ^ bn_t m" and k: "k \<le> base E ^ bn_t m"
  shows "v + bval E m * k < base E ^ (2 * bn_t m + 1)"
proof -
  let ?R = "base E ^ bn_t m"
  note mo = mont_okD [OF m]
  have "bval E m * k \<le> bval E m * ?R" using k mo(4) by (intro mult_left_mono) auto
  moreover have "bval E m * ?R < ?R * ?R" using mo(5) by (intro mult_strict_right_mono) auto
  moreover have "2 * (?R * ?R) \<le> base E * (?R * ?R)" using base_num by (intro mult_right_mono) auto
  moreover have "base E * (?R * ?R) = base E ^ (2 * bn_t m + 1)" by (simp add: mult_2 power_add)
  moreover have "0 < ?R * ?R" by simp
  ultimately show ?thesis using v by linarith
qed

lemma mont_step:
  assumes m: "mont_ok m" and v: "0 \<le> v" "v < bval E m * base E ^ bn_t m"
    and i: "i < bn_t m" and inv: "mont_inv m v i w"
  shows "\<exists>w'. mont_round E (Montgomery E m) i w = Some w' \<and> mont_inv m v (Suc i) w'"
proof -
  let ?b = "base E" let ?n = "bn_t m" let ?N = "2 * bn_t m + 1" let ?j = "i + bn_t m" let ?p = "bnpInvDigit E m"
  note mo = mont_okD [OF m] and p = invDigit_ok [OF mont_okD(1,6,7) [OF m]]
  have dw: "digits ?b w 0 ?N" and z: "\<And>c. c < i \<Longrightarrow> get w c = 0" using inv by (auto simp: mont_inv_def)
  obtain k where k: "0 \<le> k" "k < ?b ^ i" "uval ?b w 0 ?N = v + bval E m * k" using inv by (auto simp: mont_inv_def)
  define u where "u = mont_u0 E (Montgomery E m) (get w i)"
  have wi: "0 \<le> get w i" "get w i < ?b" using digitsD [OF dw, of i] i by simp_all
  have ue: "u = (get w i * ?p) mod ?b" unfolding u_def by (rule mont_u0_ok [OF p(1,2) wi])
  then have u: "0 \<le> u" "u < ?b" by simp_all
  have dm: "digits ?b (bn_d m) 0 ?n" and dwi: "digits ?b w i ?n"
    using mo(1) digits_sub [OF dw, of i ?n] i by (auto simp: dok_def)
  have u2: "u < 2 * ?b" using u by simp
  obtain w1 c where am: "am E (bn_d m) 0 u w i 0 ?n = (w1, c)" and c: "0 \<le> c" and d1: "digits ?b w1 i ?n"
    and eq: "uval ?b w1 i ?n + c * ?b ^ ?n = uval ?b w i ?n + u * bval E m"
    and fr: "\<And>c. c < i \<or> i + ?n \<le> c \<Longrightarrow> get w1 c = get w c"
    using am_ok [OF u(1) u2 order_refl _ dm dwi] unfolding mo(3) by (metis add.right_neutral base_pos(1) zero_less_mult_iff zero_less_numeral)
  define w2 where "w2 = put w1 ?j (get w ?j + c)"
  have f: "mont_round E (Montgomery E m) i w = mont_carry E ?j w2" by (simp add: mont_round_def u_def [symmetric] am w2_def Let_def)
  have "uval ?b w i ?n + u * bval E m < ?b ^ ?n + (?b - 1) * ?b ^ ?n"
    using uval_less [OF dwi] u mo(4,5) mult_mono [of u "?b - 1" "bval E m" "?b ^ ?n"] by fastforce
  moreover have "0 \<le> uval ?b w1 i ?n" using d1 by (rule uval_nonneg) simp
  moreover have "?b ^ ?n + (?b - 1) * ?b ^ ?n = ?b * ?b ^ ?n" by (simp add: algebra_simps)
  ultimately have "c * ?b ^ ?n < ?b * ?b ^ ?n" using eq by linarith
  then have cb: "c < ?b" by (rule mult_right_less_imp_less) simp
  have old: "0 \<le> get w ?j" "get w ?j < ?b" using digitsD [OF dw, of ?j] i by simp_all
  have N: "?N = i + (?n + (1 + (?n - i)))" using i by simp
  have "uval ?b w1 0 i = uval ?b w 0 i" using fr by (intro uval_cong) auto
  moreover have "uval ?b w2 0 i = uval ?b w1 0 i" "uval ?b w2 i ?n = uval ?b w1 i ?n"
    by (simp_all add: w2_def uval_put_other)
  moreover have "uval ?b w2 (i + ?n + 1) (?n - i) = uval ?b w (i + ?n + 1) (?n - i)"
    using fr by (intro uval_cong) (auto simp: w2_def)
  moreover have "uval ?b w2 (i + ?n) 1 = uval ?b w (i + ?n) 1 + c" by (simp add: uval_def w2_def)
  ultimately have "uval ?b w2 0 ?N = uval ?b w 0 ?N
      + ?b ^ i * (uval ?b w1 i ?n + c * ?b ^ ?n - uval ?b w i ?n)"
    unfolding N uval_add by (simp add: algebra_simps)
  then have val: "uval ?b w2 0 ?N = v + bval E m * (k + u * ?b ^ i)"
    unfolding eq k(3) by (simp add: algebra_simps)
  have "u * ?b ^ i \<le> (?b - 1) * ?b ^ i" using u by (intro mult_right_mono) auto
  then have kb: "k + u * ?b ^ i < ?b ^ Suc i" using k(2) by (simp add: algebra_simps)
  also have "?b ^ Suc i \<le> ?b ^ ?n" using i base_num by (intro power_increasing) auto
  finally have "k + u * ?b ^ i \<le> ?b ^ ?n" by simp
  then have room: "uval ?b w2 0 ?N < ?b ^ ?N" unfolding val by (rule mont_room [OF m v(2)])
  have dig: "0 \<le> get w2 c \<and> get w2 c < ?b" if "c < ?N" "c \<noteq> ?j" for c
    using that digitsD [OF dw, of c] digitsD [OF d1, of c] fr [of c] by (cases "c < i \<or> i + ?n \<le> c") (auto simp: w2_def)
  obtain w' where w': "mont_carry E ?j w2 = Some w'" "digits ?b w' 0 ?N" "uval ?b w' 0 ?N = uval ?b w2 0 ?N"
    "\<forall>c < ?j. get w' c = get w2 c"
    using carry_ok [of ?j ?N w2, OF _ dig _ _ room] i old c cb by (auto simp: w2_def)
  have low: "get w1 i = 0"
  proof -
    obtain n' where n': "?n = Suc n'" using mo(6) by (cases ?n) auto
    have d: "?b dvd get (bn_d m) 0 * ?p + 1" by (rule p(3))
    define A B where "A = uval ?b w1 (Suc i) n' + c * ?b ^ n'"
      and "B = uval ?b w (Suc i) n' + u * uval ?b (bn_d m) (Suc 0) n'"
    have "get w1 i + ?b * A = get w i + u * get (bn_d m) 0 + ?b * B"
      using eq unfolding mo(3) n' uval_step A_def B_def by (simp add: algebra_simps)
    then have "(get w1 i + ?b * A) mod ?b = (get w i + u * get (bn_d m) 0 + ?b * B) mod ?b" by simp
    then have "get w1 i mod ?b = (get w i + u * get (bn_d m) 0) mod ?b" unfolding mod_mult_self2 .
    then have "get w1 i = (get w i + u * get (bn_d m) 0) mod ?b" using digitsD [OF d1, of i] n' by simp
    also have "\<dots> = (get w i + get w i * ?p * get (bn_d m) 0) mod ?b"
      unfolding ue by (metis mod_add_right_eq mod_mult_left_eq)
    also have "get w i + get w i * ?p * get (bn_d m) 0 = get w i * (get (bn_d m) 0 * ?p + 1)"
      by (simp add: algebra_simps)
    also have "(get w i * (get (bn_d m) 0 * ?p + 1)) mod ?b = 0"
      using dvd_mult [OF d, of "get w i"] by (rule dvd_imp_mod_0)
    finally show ?thesis .
  qed
  have "\<forall>c < Suc i. get w' c = 0"
    using w'(4) low z fr mo(6) by (auto simp: w2_def less_Suc_eq)
  then have "mont_inv m v (Suc i) w'"
    using w'(2,3) val k(1) u(1) kb by (auto simp: mont_inv_def intro!: exI [of _ "k + u * ?b ^ i"])
  then show ?thesis using f w'(1) by simp
qed

lemma mont_init:
  assumes m: "mont_ok m" and x: "bn_wf E x" "0 \<le> bval E x" "bval E x < bval E m * base E ^ bn_t m"
  shows "bn_t x \<le> 2 * bn_t m"
    "mont_inv m (bval E x) 0 (for_up (bn_t x) (2 * bn_t m + 1) (\<lambda>i w. put w i 0) (bn_d x))"
proof -
  let ?b = "base E" let ?n = "bn_t m" let ?N = "2 * bn_t m + 1"
  note mo = mont_okD [OF m]
  have dx: "dok E x" "digits ?b (bn_d x) 0 (bn_t x)" using x(1) by (auto simp: bn_wf_def dok_def)
  have sx: "bn_s x = 0" using x(2) bval_nonneg_iff [OF dx(1)] by simp
  have "bval E m * ?b ^ ?n \<le> ?b ^ ?n * ?b ^ ?n" using mo(5) by (intro mult_right_mono) auto
  then have "bval E x < ?b ^ ?n * ?b ^ ?n" using x(3) by linarith
  then have "bval E x < ?b ^ (2 * ?n)" by (simp add: mult_2 power_add)
  then show t: "bn_t x \<le> 2 * ?n" by (rule wf_len(1) [OF x(1) sx])
  define w where "w = for_up (bn_t x) ?N (\<lambda>i w. put w i 0) (bn_d x)"
  have "\<forall>k. get w k = (if bn_t x \<le> k \<and> k < ?N then 0 else get (bn_d x) k)"
    unfolding w_def using t
    by (intro for_up_inv [where P = "\<lambda>i w. \<forall>k. get w k = (if bn_t x \<le> k \<and> k < i then 0 else get (bn_d x) k)"])
      (auto simp: get_put)
  then have cell: "get w k = (if bn_t x \<le> k \<and> k < ?N then 0 else get (bn_d x) k)" for k by blast
  have "uval ?b w 0 ?N = uval ?b w 0 (bn_t x) + ?b ^ bn_t x * uval ?b w (bn_t x) (?N - bn_t x)"
    using uval_add [of ?b w 0 "bn_t x" "?N - bn_t x"] t by simp
  also have "uval ?b w 0 (bn_t x) = bval E x" unfolding bval_def sx by (simp add: cell cong: uval_cong) (auto intro!: uval_cong simp: cell)
  also have "uval ?b w (bn_t x) (?N - bn_t x) = 0" using t by (intro uval_zero) (simp add: cell)
  finally have v: "uval ?b w 0 ?N = bval E x" by simp
  have "digits ?b w 0 ?N"
  proof (rule digitsI)
    fix k assume "0 \<le> k" "k < 0 + ?N"
    then show "0 \<le> get w k \<and> get w k < ?b"
      using digitsD [OF dx(2), of k] by (cases "bn_t x \<le> k") (simp_all add: cell)
  qed
  then show "mont_inv m (bval E x) 0 w" using v by (auto simp: mont_inv_def intro!: exI [of _ 0])
qed

lemma mont_finish:
  assumes m: "mont_ok m" and v: "0 \<le> v" "v < bval E m * base E ^ bn_t m"
    and inv: "mont_inv m v (bn_t m) w" and x: "bn_s x = 0"
  defines "y \<equiv> bnpDRShiftTo Self (bn_t m) (bnpClamp E (x\<lparr>bn_d := w, bn_t := 2 * bn_t m + 1\<rparr>))"
  shows "bn_wf E y" "0 \<le> bval E y" "bval E y < 2 * bval E m" "bval E m dvd bval E y * base E ^ bn_t m - v"
proof -
  let ?b = "base E" let ?n = "bn_t m" let ?N = "2 * bn_t m + 1"
  note mo = mont_okD [OF m]
  obtain k where k: "0 \<le> k" "k < ?b ^ ?n" "uval ?b w 0 ?N = v + bval E m * k"
    and d: "digits ?b w 0 ?N" and z: "\<And>c. c < ?n \<Longrightarrow> get w c = 0" using inv by (auto simp: mont_inv_def)
  define x1 where "x1 = x\<lparr>bn_d := w, bn_t := ?N\<rparr>"
  have x1: "dok E x1" "bval E x1 = v + bval E m * k" using d k(3) x by (simp_all add: x1_def dok_def bval_def)
  have c: "bn_wf E (bnpClamp E x1)" "bval E (bnpClamp E x1) = v + bval E m * k"
    using wf_clamp [OF x1(1)] bval_clamp [of x1] x1(2) x by (simp_all add: x1_def)
  define U where "U = uval ?b w ?n (?n + 1)"
  have "uval ?b w 0 ?N = ?b ^ ?n * U"
    using uval_add [of ?b w 0 ?n "?n + 1"] uval_zero [of 0 ?n w ?b] z by (simp add: U_def mult_2)
  then have U: "v + bval E m * k = ?b ^ ?n * U" using k(3) by simp
  have y: "bval E y = U"
    unfolding y_def x1_def [symmetric] using drShift_val [of Self "bnpClamp E x1" ?n] c bn_wfD U by simp
  show "bn_wf E y" unfolding y_def x1_def [symmetric] using drShift_wf [of Self "bnpClamp E x1"] c(1) by simp
  have "0 \<le> v + bval E m * k" using v(1) k(1) mo(4) by simp
  then have "?b ^ ?n * 0 \<le> ?b ^ ?n * U" using U by simp
  then have "0 \<le> U" by (rule mult_left_le_imp_le) simp
  then show "0 \<le> bval E y" by (simp add: y)
  have "bval E m * k \<le> bval E m * ?b ^ ?n" using k(2) mo(4) by (intro mult_left_mono) auto
  moreover have "?b ^ ?n * (2 * bval E m) = bval E m * ?b ^ ?n + bval E m * ?b ^ ?n" by simp
  ultimately have "?b ^ ?n * U < ?b ^ ?n * (2 * bval E m)" using U v(2) by linarith
  then have "U < 2 * bval E m" by (rule mult_left_less_imp_less) simp
  then show "bval E y < 2 * bval E m" by (simp add: y)
  have "bval E y * ?b ^ ?n - v = bval E m * k" using U by (simp add: y algebra_simps)
  then show "bval E m dvd bval E y * ?b ^ ?n - v" by simp
qed

lemma montReduce_ok:
  assumes m: "mont_ok m" and x: "bn_wf E x" "0 \<le> bval E x" "bval E x < bval E m * base E ^ bn_t m"
  shows "\<exists>y. montReduce E (Montgomery E m) x = Some y \<and> bn_wf E y \<and> 0 \<le> bval E y \<and> bval E y < bval E m \<and>
    bval E m dvd bval E y * base E ^ bn_t m - bval E x"
proof -
  let ?n = "bn_t m"
  note mo = mont_okD [OF m] and ini = mont_init [OF m x]
  have sx: "bn_s x = 0" using x(2) bval_nonneg_iff [OF bn_wfD(1) [OF x(1)]] by simp
  have wm: "bn_wf E m" using m by (simp add: odd_modulus_def positive_bn_def)
  define w0 where "w0 = for_up (bn_t x) (2 * ?n + 1) (\<lambda>i w. put w i 0) (bn_d x)"
  have "\<exists>w. foldM (mont_round E (Montgomery E m)) [0..<?n] w0 = Some w \<and> mont_inv m (bval E x) ?n w"
  proof (rule foldM_up_inv [where P = "mont_inv m (bval E x)"])
    show "mont_inv m (bval E x) 0 w0" using ini(2) by (simp add: w0_def)
    show "\<exists>w'. mont_round E (Montgomery E m) i w = Some w' \<and> mont_inv m (bval E x) (Suc i) w'" if "i < ?n" "mont_inv m (bval E x) i w" for i w
      by (rule mont_step [OF m x(2,3) that])
  qed
  then obtain w where w: "foldM (mont_round E (Montgomery E m)) [0..<?n] w0 = Some w" "mont_inv m (bval E x) ?n w" by blast
  define y where "y = bnpDRShiftTo Self ?n (bnpClamp E (x\<lparr>bn_d := w, bn_t := 2 * ?n + 1\<rparr>))"
  note y = mont_finish [OF m x(2,3) w(2) sx, folded y_def]
  have t: "max (bn_t x) (2 * ?n + 1) = 2 * ?n + 1" using ini(1) by simp
  have res: "montReduce E (Montgomery E m) x = Some (if bnCompareTo y m \<ge> 0 then bnpSubTo E Self (Obj m) y else y)"
    unfolding montReduce_def Let_def mont_fields t w0_def [symmetric] w(1) option.case y_def [symmetric] ..
  have c: "bnCompareTo y m \<ge> 0 \<longleftrightarrow> bval E m \<le> bval E y" by (rule compareTo_iff(1) [OF y(1) wm])
  have sub: "bn_wf E (bnpSubTo E Self (Obj m) y)" "bval E (bnpSubTo E Self (Obj m) y) = bval E y - bval E m"
    using subTo_ok [of Self y "Obj m"] y(1) mo(1) by (simp_all add: bn_wfD)
  have "bval E m dvd (bval E y * base E ^ ?n - bval E x) - bval E m * base E ^ ?n" using y(4) by simp
  then have "bval E m dvd (bval E y - bval E m) * base E ^ ?n - bval E x" by (simp add: algebra_simps)
  then show ?thesis using res c sub y by auto
qed

lemma base_invertible:
  assumes m: "mont_ok m" and d: "bval E m dvd a * base E ^ bn_t m - b * base E ^ bn_t m"
  shows "a mod bval E m = b mod bval E m"
proof -
  have "coprime (bval E m) (2 ^ DB E)" using m by (simp add: odd_modulus_def)
  then have "coprime (bval E m) (base E ^ bn_t m)" unfolding base_def by simp
  moreover have "bval E m dvd (a - b) * base E ^ bn_t m" using d by (simp add: left_diff_distrib)
  ultimately have "bval E m dvd a - b" by (simp add: coprime_dvd_mult_left_iff)
  then show ?thesis by (simp add: mod_eq_dvd_iff)
qed

lemma montReduce_rep:
  assumes m: "mont_ok m" and x: "bn_wf E x" "0 \<le> bval E x" "bval E x < bval E m * base E ^ bn_t m"
    and a: "bval E m dvd bval E x - a * base E ^ bn_t m"
  shows "\<exists>y. montReduce E (Montgomery E m) x = Some y \<and> bn_wf E y \<and> bval E y = a mod bval E m"
proof -
  obtain y where y: "montReduce E (Montgomery E m) x = Some y" "bn_wf E y" "0 \<le> bval E y" "bval E y < bval E m"
    "bval E m dvd bval E y * base E ^ bn_t m - bval E x" using montReduce_ok [OF m x] by blast
  have "bval E m dvd (bval E y * base E ^ bn_t m - bval E x) + (bval E x - a * base E ^ bn_t m)"
    by (rule dvd_add [OF y(5) a])
  then have "bval E y mod bval E m = a mod bval E m" by (intro base_invertible [OF m]) simp
  then show ?thesis using y by simp
qed

lemma montConvert_ok:
  assumes m: "mont_ok m" and x: "bn_wf E x"
  shows "\<exists>r. montConvert E (Montgomery E m) x = Some r \<and> mont_rep E m r (bval E x)"
proof -
  let ?R = "base E ^ bn_t m"
  note mo = mont_okD [OF m] and ax = abs_ok [OF x]
  have wm: "bn_wf E m" using m by (simp add: odd_modulus_def positive_bn_def)
  define r0 where "r0 = bnpDLShiftTo (Obj (bnAbs E x)) (bn_t m) nbi"
  have v0: "bval E r0 = \<bar>bval E x\<bar> * ?R" using dlShift_val [of "Obj (bnAbs E x)" "bn_t m" nbi] ax(2) by (simp add: r0_def)
  have red: "\<exists>q r. bnpDivRemTo E Self m None (Some r0) = Some (q, Some r) \<and> bn_wf E r \<and>
      bval E r = (\<bar>bval E x\<bar> * ?R) mod bval E m"
  proof (cases "bn_t (bnAbs E x) = 0")
    case True
    then have "bval E (bnAbs E x) = 0" using ax(3) by (simp add: bval_def)
    then have x0: "bval E x = 0" using ax(2) by simp
    have "bnAbs E m = m" using mo(2) by (simp add: bnAbs_def)
    moreover have "dok E r0" "bn_t r0 = bn_t m"
      using dlShift_dok [of "Obj (bnAbs E x)" nbi "bn_t m"] ax(1) True by (simp_all add: r0_def bn_wfD)
    ultimately show ?thesis using divRemTo_zero [of m Self r0 None] wm mo(4) v0 x0 by simp
  next
    case False
    then have "bn_wf E r0" using dlShift_wf [of "Obj (bnAbs E x)" nbi "bn_t m"] ax(1) by (simp add: r0_def)
    moreover have "0 \<le> \<bar>bval E x\<bar> * ?R" by simp
    then have "trem (\<bar>bval E x\<bar> * ?R) (bval E m) = (\<bar>bval E x\<bar> * ?R) mod bval E m"
      using mo(4) unfolding trem_def by (simp only: not_less [symmetric] if_False abs_of_nonneg abs_of_pos)
    ultimately show ?thesis using divRemTo_ok [of m Self r0 None] wm mo(4) v0 by simp
  qed
  then obtain q r where r: "bnpDivRemTo E Self m None (Some r0) = Some (q, Some r)" "bn_wf E r"
    "bval E r = (\<bar>bval E x\<bar> * ?R) mod bval E m" by blast
  have sx: "bn_s x < 0 \<longleftrightarrow> bval E x < 0"
    using bval_neg_iff [OF bn_wfD(1) [OF x]] dokD(2) [OF bn_wfD(1) [OF x]] by auto
  have c: "bnCompareTo r (bn_ZERO E) > 0 \<longleftrightarrow> 0 < bval E r" using compareTo_iff(2) [OF r(2), of "bn_ZERO E"] by simp
  have s: "bn_wf E (bnpSubTo E (Obj m) Self r)" "bval E (bnpSubTo E (Obj m) Self r) = bval E m - bval E r"
    using subTo_ok [of "Obj m" r Self] mo(1) r(2) by (simp_all add: bn_wfD)
  have res: "montConvert E (Montgomery E m) x
      = Some (if bn_s x < 0 \<and> bnCompareTo r (bn_ZERO E) > 0 then bnpSubTo E (Obj m) Self r else r)"
    unfolding montConvert_def Let_def mont_fields r0_def [symmetric] r(1) by simp
  have r0: "0 \<le> bval E r" using mo(4) by (simp add: r(3))
  have "(bval E x * ?R) mod bval E m = (if bval E r > 0 then bval E m - bval E r else bval E r)" if "bval E x < 0"
    using that r(3) r0 zmod_zminus1_eq_if [of "\<bar>bval E x\<bar> * ?R" "bval E m"] by auto
  then show ?thesis using res r s sx c by (auto simp: mont_rep_def)
qed

lemma mont_rep_bounds:
  assumes "mont_ok m" "mont_rep E m x a"
  shows "bn_wf E x" "0 \<le> bval E x" "bval E x < bval E m" "bval E m dvd bval E x - a * base E ^ bn_t m"
  using assms mont_okD(4) [OF assms(1)] dvd_mod_diff by (simp_all add: mont_rep_def)

lemma mont_product:
  assumes m: "mont_ok m" and x: "mont_rep E m x a" and y: "mont_rep E m y b"
    and p: "bn_wf E p" "bval E p = bval E x * bval E y"
  shows "\<exists>q. montReduce E (Montgomery E m) p = Some q \<and> mont_rep E m q (a * b)"
proof -
  let ?R = "base E ^ bn_t m"
  note mo = mont_okD [OF m] and xb = mont_rep_bounds [OF m x] and yb = mont_rep_bounds [OF m y]
  have "bval E x * bval E y \<le> bval E m * bval E y" using xb yb by (intro mult_right_mono) auto
  also have "\<dots> < bval E m * ?R" using yb mo by (intro mult_strict_left_mono) auto
  finally have lt: "bval E p < bval E m * ?R" by (simp add: p)
  have nn: "0 \<le> bval E p" using xb yb by (simp add: p)
  have "bval E m dvd (bval E x - a * ?R) * bval E y" "bval E m dvd a * ?R * (bval E y - b * ?R)"
    by (rule dvd_mult2 [OF xb(4)], rule dvd_mult [OF yb(4)])
  then have "bval E m dvd (bval E x - a * ?R) * bval E y + a * ?R * (bval E y - b * ?R)" by (rule dvd_add)
  then have "bval E m dvd bval E p - (a * b * ?R) * ?R" by (simp add: p algebra_simps)
  from montReduce_rep [OF m p(1) nn lt this] show ?thesis by (simp add: mont_rep_def)
qed

lemma mont_laws:
  "reducer_laws (\<lambda>m. z_convert E (Mont (Montgomery E m))) (\<lambda>m. z_revert E (Mont (Montgomery E m)))
     (\<lambda>m. z_mulTo E (Mont (Montgomery E m))) (\<lambda>m. z_sqrTo E (Mont (Montgomery E m)))
     (bn_wf E) (odd_modulus E) (bval E) (mont_rep E)"
proof
  fix m x y r a b
  show "mont_ok m \<Longrightarrow> bn_wf E x \<Longrightarrow> \<exists>g. z_convert E (Mont (Montgomery E m)) x = Some g \<and> mont_rep E m g (bval E x)"
    using montConvert_ok by simp
  show "mont_rep E m x a \<Longrightarrow> mont_rep E m (bnpCopyTo (Obj x) r) a"
    using copy_of [of x r] by (simp add: mont_rep_def)
  assume m: "mont_ok m" and x: "mont_rep E m x a"
  note xb = mont_rep_bounds [OF m x] and mo = mont_okD [OF m]
  show "\<exists>p. z_sqrTo E (Mont (Montgomery E m)) x r = Some p \<and> mont_rep E m p (a * a)"
    using mont_product [OF m x x, of "bnpSquareTo E x r"] squareTo_ok [OF xb(1), of r]
    by (simp add: montSqrTo_def power2_eq_square)
  have "1 \<le> base E ^ bn_t m" using base_num by (intro one_le_power) simp
  then have "bval E m * 1 \<le> bval E m * base E ^ bn_t m" using mo(4) by (intro mult_left_mono) simp_all
  then have "bval E x < bval E m * base E ^ bn_t m" using xb(3) by linarith
  then show "\<exists>y. z_revert E (Mont (Montgomery E m)) x = Some y \<and> bn_wf E y \<and> bval E y = a mod bval E m"
    using montReduce_rep [OF m, of "bnpCopyTo (Obj x) nbi" a] copy_of [of x nbi] xb by (simp add: montRevert_def)
  assume y: "mont_rep E m y b"
  note yb = mont_rep_bounds [OF m y]
  show "\<exists>p. z_mulTo E (Mont (Montgomery E m)) x y r = Some p \<and> mont_rep E m p (a * b)"
    using mont_product [OF m x y, of "bnpMultiplyTo E x y r"] multiplyTo_ok [OF xb(1) yb(1), of r]
    by (simp add: montMulTo_def)
qed

section \<open>Modular exponentiation\<close>

lemma isEven_iff:
  assumes "bn_wf E m" "0 \<le> bval E m"
  shows "bnpIsEven m \<longleftrightarrow> even (bval E m)"
proof -
  have s: "bn_s m = 0" using assms bval_nonneg_iff [OF bn_wfD(1) [OF assms(1)]] by simp
  have ev: "even (base E)" using DB_lower by (simp add: base_def)
  show ?thesis
  proof (cases "bn_t m")
    case 0
    then show ?thesis using s by (simp add: bnpIsEven_def bval_def)
  next
    case (Suc n)
    then have "bval E m = get (bn_d m) 0 + base E * uval (base E) (bn_d m) (Suc 0) n"
      using s by (simp add: bval_def uval_step)
    then have "even (bval E m) \<longleftrightarrow> even (get (bn_d m) 0)" using ev by simp
    then show ?thesis using Suc by (simp add: bnpIsEven_def even_iff_mod_2_eq_zero)
  qed
qed

lemma exp_as_loop:
  assumes e: "0 < e" "e < 2 ^ 32"
  shows "bnpExp E x e z = Option.bind (z_convert E z x) (\<lambda>g.
        Option.bind
          (foldM (\<lambda>i (r, r2).
             Option.bind (z_sqrTo E z r r2) (\<lambda>r2.
               if js_and e (js_shl 1 i) > 0
               then Option.bind (z_mulTo E z r2 g r) (\<lambda>r. Some (r, r2))
               else Some (r2, r)))
             (rev [0..<nbits e - 1]) (bnpCopyTo (Obj g) nbi, nbi))
          (\<lambda>(r, r2). z_revert E z r))"
  using e unfolding bnpExp_def by simp

lemma modPowInt_ok:
  assumes x: "bn_wf E x" and m: "bn_wf E m" "0 < bval E m" and e: "0 < e" "e < 2 ^ 32"
  shows "\<exists>r. bnModPowInt E x e m = Some r \<and> bn_wf E r \<and> bval E r = bval E x ^ nat e mod bval E m"
proof (cases "e < 256 \<or> bnpIsEven m")
  case True
  then show ?thesis
    using reducer_laws.power_ok [OF classic_laws _ x e, of m] m
    by (simp add: bnModPowInt_def exp_as_loop [OF e] positive_bn_def del: z_convert.simps z_revert.simps z_mulTo.simps z_sqrTo.simps)
next
  case False
  then have "odd_modulus E m" using isEven_iff [OF m(1)] m by (simp add: odd_modulus_def positive_bn_def)
  then show ?thesis
    using reducer_laws.power_ok [OF mont_laws _ x e, of m] False
    by (simp add: bnModPowInt_def exp_as_loop [OF e] del: z_convert.simps z_revert.simps z_mulTo.simps z_sqrTo.simps)
qed

end

interpretation mont2: reducer_laws "\<lambda>m. z_convert \<lparr>am = am2, DB = 30\<rparr> (Mont (Montgomery \<lparr>am = am2, DB = 30\<rparr> m))"
    "\<lambda>m. z_revert \<lparr>am = am2, DB = 30\<rparr> (Mont (Montgomery \<lparr>am = am2, DB = 30\<rparr> m))"
    "\<lambda>m. z_mulTo \<lparr>am = am2, DB = 30\<rparr> (Mont (Montgomery \<lparr>am = am2, DB = 30\<rparr> m))"
    "\<lambda>m. z_sqrTo \<lparr>am = am2, DB = 30\<rparr> (Mont (Montgomery \<lparr>am = am2, DB = 30\<rparr> m))"
    "bn_wf \<lparr>am = am2, DB = 30\<rparr>" "odd_modulus \<lparr>am = am2, DB = 30\<rparr>" "bval \<lparr>am = am2, DB = 30\<rparr>"
    "mont_rep \<lparr>am = am2, DB = 30\<rparr>"
  by (rule div2.mont_laws)

interpretation mont3: reducer_laws "\<lambda>m. z_convert \<lparr>am = am3, DB = 28\<rparr> (Mont (Montgomery \<lparr>am = am3, DB = 28\<rparr> m))"
    "\<lambda>m. z_revert \<lparr>am = am3, DB = 28\<rparr> (Mont (Montgomery \<lparr>am = am3, DB = 28\<rparr> m))"
    "\<lambda>m. z_mulTo \<lparr>am = am3, DB = 28\<rparr> (Mont (Montgomery \<lparr>am = am3, DB = 28\<rparr> m))"
    "\<lambda>m. z_sqrTo \<lparr>am = am3, DB = 28\<rparr> (Mont (Montgomery \<lparr>am = am3, DB = 28\<rparr> m))"
    "bn_wf \<lparr>am = am3, DB = 28\<rparr>" "odd_modulus \<lparr>am = am3, DB = 28\<rparr>" "bval \<lparr>am = am3, DB = 28\<rparr>"
    "mont_rep \<lparr>am = am3, DB = 28\<rparr>"
  by (rule div3.mont_laws)

end
