(* ===== verification/Bn_String.thy ===== *)
theory Bn_String
  imports Bn_Modexp
begin

text \<open>
  Reading and printing jsbn's big integers (\<open>bnpFromString\<close>, \<open>bnToString\<close> and the digit tables of
  encrypt/jsbn.js): strings in the radices that are powers of two, and big-endian byte arrays
  (radix 256). The radices that are not powers of two would call \<open>fromRadix\<close> and \<open>toRadix\<close>,
  which this subset of the library does not define; the call raises and is \<open>None\<close> here.
\<close>

section \<open>Digits as characters\<close>

definition BI_RM :: string where
  "BI_RM = ''0123456789abcdefghijklmnopqrstuvwxyz''"

text \<open>The table from character codes to digit values, \<open>None\<close> where it has no entry.\<close>

definition BI_RC :: "nat \<Rightarrow> int option" where
  "BI_RC n = (if 48 \<le> n \<and> n \<le> 57 then Some (int n - 48)
              else if 97 \<le> n \<and> n < 97 + 26 then Some (int n - 97 + 10)
              else if 65 \<le> n \<and> n < 65 + 26 then Some (int n - 65 + 10)
              else None)"

definition int2char :: "int \<Rightarrow> string" where
  "int2char n = (if 0 \<le> n \<and> n < int (length BI_RM) then [BI_RM ! nat n] else [])"

definition char_digit :: "char \<Rightarrow> int" where
  "char_digit c = (case BI_RC (of_char c) of None \<Rightarrow> -1 | Some v \<Rightarrow> v)"

definition intAt :: "string \<Rightarrow> nat \<Rightarrow> int" where
  "intAt s i = char_digit (s ! i)"

text \<open>The argument of \<open>fromString\<close>: a string, or an array of bytes when the radix is 256.\<close>

datatype source = Str string | Bytes "int list"

fun src_len :: "source \<Rightarrow> nat" where
  "src_len (Str s) = length s"
| "src_len (Bytes a) = length a"

fun src_digit :: "source \<Rightarrow> nat \<Rightarrow> int" where
  "src_digit (Str s) i = intAt s i"
| "src_digit (Bytes a) i = js_and (a ! i) 0xff"

fun src_minus :: "source \<Rightarrow> nat \<Rightarrow> bool" where
  "src_minus (Str s) i \<longleftrightarrow> s ! i = CHR ''-''"
| "src_minus (Bytes a) i \<longleftrightarrow> False"

definition radix_bits :: "nat \<Rightarrow> nat option" where
  "radix_bits b = (if b = 16 then Some 4 else if b = 8 then Some 3 else if b = 256 then Some 8
     else if b = 2 then Some 1 else if b = 32 then Some 5 else if b = 4 then Some 2 else None)"

definition pack_digit :: "bnproto \<Rightarrow> nat \<Rightarrow> int \<Rightarrow> int list \<times> nat \<times> nat \<Rightarrow> int list \<times> nat \<times> nat" where
  \<comment> \<open>one digit \<open>x\<close> of \<open>k\<close> bits at bit \<open>sh\<close> of the top digit\<close>
  "pack_digit E k x st =
     (let (w, t, sh) = st;
          (w, t) =
            (if sh = 0 then (put w t x, t + 1)
             else if sh + k > DB E then
               let w = put w (t - 1) (js_or (get w (t - 1)) (js_shl (js_and x (js_shl 1 (DB E - sh) - 1)) sh))
               in (put w t (js_sar x (DB E - sh)), t + 1)
             else (put w (t - 1) (js_or (get w (t - 1)) (js_shl x sh)), t));
          sh = sh + k;
          sh = (if sh \<ge> DB E then sh - DB E else sh)
      in (w, t, sh))"

definition bnpFromString :: "bnproto \<Rightarrow> source \<Rightarrow> nat \<Rightarrow> bn \<Rightarrow> bn option" where
  "bnpFromString E s b this =
     (case radix_bits b of
        None \<Rightarrow> None
      | Some k \<Rightarrow>
          let ((w, t, sh), mi) = for_down 0 (src_len s)
                (\<lambda>i (st, mi).
                   let x = src_digit s i
                   in if x < 0 then (st, if src_minus s i then True else mi)
                      else (pack_digit E k x st, False))
                ((bn_d this, 0, 0), False);
              neg = (k = 8 \<and> src_len s > 0 \<and> js_and (src_digit s 0) 0x80 \<noteq> 0);
              w = (if neg \<and> sh > 0
                   then put w (t - 1) (js_or (get w (t - 1)) (js_shl (js_shl 1 (DB E - sh) - 1) sh))
                   else w);
              r = bnpClamp E (this\<lparr>bn_d := w, bn_t := t, bn_s := (if neg then -1 else 0)\<rparr>)
          in Some (if mi then bnpSubTo E (Obj (bn_ZERO E)) Self r else r))"

text \<open>The constructor: \<open>new BigInteger(a)\<close> for an array, \<open>new BigInteger(a,b)\<close> for a string.\<close>

definition parse_bytes :: "bnproto \<Rightarrow> int list \<Rightarrow> bn option" where
  "parse_bytes E a = bnpFromString E (Bytes a) 256 nbi"

definition parse_string :: "bnproto \<Rightarrow> string \<Rightarrow> nat \<Rightarrow> bn option" where
  "parse_string E s b = bnpFromString E (Str s) b nbi"

partial_function (option) print_digits :: "bnproto \<Rightarrow> nat \<Rightarrow> int list \<Rightarrow> int \<Rightarrow> int \<Rightarrow> bool \<Rightarrow> string \<Rightarrow> (bool \<times> string) option" where
  \<comment> \<open>the loop while(i >= 0) of \<open>bnToString\<close>\<close>
  "print_digits E k x i p m r =
     (if i < 0 then Some (m, r)
      else
        let (d, i, p) =
              (if p < int k then
                 let d = js_shl (js_and (get x (nat i)) (js_shl 1 (nat p) - 1)) (k - nat p);
                     i = i - 1; p = p + int (DB E) - int k
                 in (js_or d (js_sar (get x (nat i)) (nat p)), i, p)
               else
                 let p = p - int k;
                     d = js_and (js_sar (get x (nat i)) (nat p)) (js_shl 1 k - 1)
                 in if p \<le> 0 then (d, i - 1, p + int (DB E)) else (d, i, p));
            m = (if d > 0 then True else m)
        in print_digits E k x i p m (if m then r @ int2char d else r))"

definition print_nonneg :: "bnproto \<Rightarrow> bn \<Rightarrow> nat \<Rightarrow> string option" where
  "print_nonneg E this b =
     (case (if b = 256 then None else radix_bits b) of
        None \<Rightarrow> None
      | Some k \<Rightarrow>
          let i = int (bn_t this);
              p = int (DB E) - (i * int (DB E)) mod int k
          in map_option (\<lambda>(m, r). if m then r else ''0'')
               (if i > 0 then
                  let i = i - 1;
                      d = js_sar (get (bn_d this) (nat i)) (nat p);
                      (m, r) = (if p < int (DB E) \<and> d > 0 then (True, int2char d) else (False, ''''))
                  in print_digits E k (bn_d this) i p m r
                else Some (False, '''')))"

definition bnToString :: "bnproto \<Rightarrow> bn \<Rightarrow> nat \<Rightarrow> string option" where
  "bnToString E this b =
     (if bn_s this < 0 then map_option (\<lambda>s. ''-'' @ s) (print_nonneg E (bnNegate E this) b)
      else print_nonneg E this b)"

section \<open>Values of digit strings\<close>

text \<open>The value of a list of digits, most significant first.\<close>

definition be_val :: "int \<Rightarrow> int list \<Rightarrow> int" where
  "be_val B xs = foldl (\<lambda>v x. v * B + x) 0 xs"

lemma be_val_simps [simp]:
  "be_val B [] = 0" "be_val B (xs @ [x]) = be_val B xs * B + x"
  by (simp_all add: be_val_def)

lemma foldl_shift: "foldl (\<lambda>v x. v * B + x) a xs = a * B ^ length xs + foldl (\<lambda>v x. v * B + x) (0::int) xs"
proof (induction xs rule: rev_induct)
  case (snoc x xs)
  then show ?case by (simp add: algebra_simps)
qed simp

lemma be_val_Cons: "be_val B (x # xs) = x * B ^ length xs + be_val B xs"
  unfolding be_val_def using foldl_shift [of B x xs] by simp

lemma be_val_less: "\<forall>x \<in> set xs. 0 \<le> x \<and> x < B \<Longrightarrow> 0 \<le> be_val B xs \<and> be_val B xs < B ^ length xs"
proof (induction xs)
  case (Cons x xs)
  then have "0 \<le> be_val B xs" "be_val B xs < B ^ length xs" "0 \<le> x" "x + 1 \<le> B" "0 < B" by auto
  moreover have "(x + 1) * B ^ length xs \<le> B * B ^ length xs" using calculation by (intro mult_right_mono) auto
  ultimately show ?case by (simp add: be_val_Cons algebra_simps)
qed simp

text \<open>A character is a digit of \<open>k\<close> bits.\<close>

definition is_digit :: "nat \<Rightarrow> char \<Rightarrow> bool" where
  "is_digit k c \<longleftrightarrow> 0 \<le> char_digit c \<and> char_digit c < 2 ^ k"

definition str_val :: "nat \<Rightarrow> string \<Rightarrow> int" where
  "str_val k s = be_val (2 ^ k) (map char_digit s)"

lemma radix_bits_cases:
  assumes "radix_bits b = Some k"
  shows "1 \<le> k" "k \<le> 8"
  using assms by (auto simp: radix_bits_def split: if_splits)

section \<open>Reading\<close>

lemma bit_mask:
  assumes "i \<le> 30"
  shows "js_and e (2 ^ i) \<noteq> 0 \<longleftrightarrow> odd (e div 2 ^ i)"
proof -
  have "(2::int) ^ i \<le> 2 ^ 30" using assms by (intro power_increasing) auto
  then have p: "js_shl 1 i = 2 ^ i" using assms by (simp add: js_shl_mult)
  then have "js_and e (2 ^ i) = to_int32 e AND 2 ^ i" using \<open>2 ^ i \<le> 2 ^ 30\<close> by (simp add: js_and_def)
  then have "0 \<le> js_and e (2 ^ i)" by simp
  then show ?thesis using bit_test [OF assms, of e] unfolding p by auto
qed

text \<open>The value of an array of bytes, most significant first, in two's complement.\<close>

definition bytes_val :: "int list \<Rightarrow> int" where
  "bytes_val a = be_val 256 (map (\<lambda>x. x mod 256) a) - (if a \<noteq> [] \<and> 128 \<le> a ! 0 mod 256 then 256 ^ length a else 0)"

context digit_width
begin

definition packed :: "nat \<Rightarrow> int \<Rightarrow> int list \<times> nat \<times> nat \<Rightarrow> bool" where
  "packed n v st \<longleftrightarrow> (case st of (w, t, sh) \<Rightarrow>
     sh < DB E \<and> (if sh = 0 then n = DB E * t else 0 < t \<and> n = DB E * (t - 1) + sh) \<and>
     digits (base E) w 0 t \<and> uval (base E) w 0 t = v \<and> 0 \<le> v \<and> v < 2 ^ n)"

lemma base_power: "base E ^ u = 2 ^ (DB E * u)"
  by (simp add: base_def power_mult)

lemma packed_top:
  assumes "digits (base E) w 0 (Suc u)" "uval (base E) w 0 (Suc u) < 2 ^ (DB E * u + sh)"
  shows "0 \<le> get w u" "get w u < 2 ^ sh"
proof -
  show "0 \<le> get w u" using digitsD(1) [OF assms(1), of u] by simp
  have "0 \<le> uval (base E) w 0 u" using digits_sub [OF assms(1), of 0 u] by (intro uval_nonneg) auto
  moreover have "2 ^ (DB E * u + sh) = 2 ^ sh * base E ^ u" by (simp add: base_power power_add)
  ultimately have "get w u * base E ^ u < 2 ^ sh * base E ^ u" using assms(2) unfolding uval_Suc add_0 by linarith
  then show "get w u < 2 ^ sh" by (rule mult_right_less_imp_less) simp
qed

lemma packed_grow: "0 \<le> v \<Longrightarrow> v < 2 ^ n \<Longrightarrow> 0 \<le> x \<Longrightarrow> x < 2 ^ k \<Longrightarrow> 0 \<le> v + x * 2 ^ n \<and> v + x * 2 ^ n < (2::int) ^ (n + k)"
proof -
  assume a: "0 \<le> v" "v < 2 ^ n" "0 \<le> x" "x < (2::int) ^ k"
  then have "(x + 1) * 2 ^ n \<le> 2 ^ k * (2::int) ^ n" by (intro mult_right_mono) auto
  then show ?thesis using a by (simp add: algebra_simps power_add)
qed

lemma pack_digit_ok:
  assumes p: "packed n v st" and k: "1 \<le> k" "k \<le> 8" and x: "0 \<le> x" "x < 2 ^ k"
  shows "packed (n + k) (v + x * 2 ^ n) (pack_digit E k x st)"
proof -
  obtain w t sh where st: "st = (w, t, sh)" by (cases st) auto
  have sh: "sh < DB E" and dig: "digits (base E) w 0 t" and v: "uval (base E) w 0 t = v" "0 \<le> v" "v < 2 ^ n"
    using p by (auto simp: packed_def st)
  have kDB: "k < DB E" using k DB_lower by simp
  have "(2::int) ^ k \<le> base E" unfolding base_def using kDB by (intro power_increasing) auto
  then have xb: "x < base E" using x by simp
  note grow = packed_grow [OF v(2,3) x]
  consider (new) "sh = 0" | (split) "0 < sh" "sh + k > DB E" | (fit) "0 < sh" "sh + k \<le> DB E" by linarith
  then show ?thesis
  proof cases
    case new
    then have n: "n = DB E * t" using p by (simp add: packed_def st)
    have "digits (base E) (put w t x) 0 (Suc t)" using dig x xb by (auto simp: digits_def get_put less_Suc_eq)
    moreover have "uval (base E) (put w t x) 0 (Suc t) = v + x * 2 ^ n"
      by (simp add: uval_Suc uval_put_other v base_power n)
    moreover have "pack_digit E k x st = (put w t x, Suc t, k)" using new kDB by (simp add: pack_digit_def st)
    ultimately show ?thesis using grow kDB k n by (simp add: packed_def)
  next
    case split
    then obtain u where u: "t = Suc u" "n = DB E * u + sh" using p by (cases t) (auto simp: packed_def st)
    let ?c = "DB E - sh" let ?y = "x mod 2 ^ ?c" let ?w = "put (put w u (get w u + ?y * 2 ^ sh)) t (x div 2 ^ ?c)"
    have c: "?c \<le> DB E" using sh by simp
    note top = packed_top [OF dig [unfolded u(1)]] v
    have t0: "0 \<le> get w u" "get w u < 2 ^ sh" using packed_top [of w u sh] dig v(1,3) u by simp_all
    have y: "0 \<le> ?y" "?y < 2 ^ ?c" by simp_all
    have "js_and x (js_shl 1 ?c - 1) = ?y" by (rule lo_bits [OF x(1) xb c])
    moreover have "js_shl ?y sh = ?y * 2 ^ sh" using raise_bits(1) [OF y] sh by simp
    moreover have "js_or (get w u) (?y * 2 ^ sh) = get w u + ?y * 2 ^ sh" using join_bits(1) [OF t0 y] sh by simp
    moreover have "js_sar x ?c = x div 2 ^ ?c" by (rule hi_bits [OF x(1) xb c])
    ultimately have res: "pack_digit E k x st = (?w, Suc t, sh + k - DB E)"
      using split u(1) by (simp add: pack_digit_def st)
    have j: "0 \<le> get w u + ?y * 2 ^ sh" "get w u + ?y * 2 ^ sh < base E" using join_bits(2,3) [OF t0 y] sh by simp_all
    have "base E * 1 \<le> base E * 2 ^ ?c" by (intro mult_left_mono) simp_all
    then have "x < base E * 2 ^ ?c" using xb by linarith
    then have q: "0 \<le> x div 2 ^ ?c" "x div 2 ^ ?c < base E"
      using x by (simp_all add: pos_imp_zdiv_nonneg_iff div_less_int)
    have "digits (base E) ?w 0 (Suc t)" using dig j q u(1) by (auto simp: digits_def get_put less_Suc_eq)
    moreover have "uval (base E) ?w 0 (Suc t) = v + x * 2 ^ n"
    proof -
      have "uval (base E) w 0 t = uval (base E) w 0 u + get w u * base E ^ u" by (simp add: u(1) uval_Suc)
      then have "uval (base E) ?w 0 (Suc t) = v + ?y * 2 ^ sh * base E ^ u + x div 2 ^ ?c * base E ^ t"
        by (simp add: u(1) uval_Suc uval_put_other v(1) [symmetric] algebra_simps)
      also have "base E ^ t = 2 ^ ?c * 2 ^ sh * base E ^ u"
        using sh by (simp add: u(1) base_def flip: power_add)
      also have "v + ?y * 2 ^ sh * base E ^ u + x div 2 ^ ?c * (2 ^ ?c * 2 ^ sh * base E ^ u)
          = v + (x div 2 ^ ?c * 2 ^ ?c + ?y) * (2 ^ sh * base E ^ u)"
        by (simp only: distrib_right mult.assoc add.assoc)
      also have "x div 2 ^ ?c * 2 ^ ?c + ?y = x" by (rule div_mult_mod_eq)
      also have "2 ^ sh * base E ^ u = 2 ^ n" by (simp add: base_power u(2) power_add)
      finally show ?thesis .
    qed
    moreover have "n + k = DB E * t + (sh + k - DB E)" using u split by simp
    ultimately show ?thesis unfolding res using grow split sh kDB by (auto simp: packed_def)
  next
    case fit
    then obtain u where u: "t = Suc u" "n = DB E * u + sh" using p by (cases t) (auto simp: packed_def st)
    let ?w = "put w u (get w u + x * 2 ^ sh)"
    have t0: "0 \<le> get w u" "get w u < 2 ^ sh" using packed_top [of w u sh] dig v(1,3) u by simp_all
    have "(2::int) ^ k \<le> 2 ^ (DB E - sh)" using fit by (intro power_increasing) auto
    then have x2: "x < 2 ^ (DB E - sh)" using x by linarith
    have "js_shl x sh = x * 2 ^ sh" using raise_bits(1) [OF x(1) x2] sh by simp
    moreover have "js_or (get w u) (x * 2 ^ sh) = get w u + x * 2 ^ sh" using join_bits(1) [OF t0 x(1) x2] sh by simp
    ultimately have res: "pack_digit E k x st = (?w, t, if sh + k = DB E then 0 else sh + k)"
      using fit u(1) by (auto simp: pack_digit_def st)
    have j: "0 \<le> get w u + x * 2 ^ sh" "get w u + x * 2 ^ sh < base E" using join_bits(2,3) [OF t0 x(1) x2] sh by simp_all
    have "digits (base E) ?w 0 t" using dig j u(1) by (auto simp: digits_def get_put)
    moreover have "uval (base E) ?w 0 t = v + x * 2 ^ n"
      using uval_put [of u t "base E" w 0] v(1) [unfolded u(1)] by (simp add: u base_power power_add)
    ultimately show ?thesis unfolding res using grow fit u kDB by (auto simp: packed_def)
  qed
qed

text \<open>Reading all digits, the last first; a sign is read only in front.\<close>

lemma read_loop:
  assumes k: "1 \<le> k" "k \<le> 8" and i: "i \<le> src_len s"
    and d: "\<And>j. i \<le> j \<Longrightarrow> j < src_len s \<Longrightarrow> 0 \<le> src_digit s j \<and> src_digit s j < 2 ^ k"
  defines "f \<equiv> (\<lambda>i (st, mi).
                   let x = src_digit s i
                   in if x < 0 then (st, if src_minus s i then True else mi)
                      else (pack_digit E k x st, False))"
  shows "\<exists>st. for_down i (src_len s) f ((w, 0, 0), False) = (st, False) \<and>
    packed (k * (src_len s - i)) (be_val (2 ^ k) (map (src_digit s) [i..<src_len s])) st"
proof -
  let ?P = "\<lambda>j st. \<not> snd st \<and> packed (k * (src_len s - j)) (be_val (2 ^ k) (map (src_digit s) [j..<src_len s])) (fst st)"
  have "?P i (for_down i (src_len s) f ((w, 0, 0), False))"
  proof (rule for_down_inv [where P = ?P])
    show "?P (src_len s) ((w, 0, 0), False)" using DB_lower by (simp add: packed_def)
  next
    fix j st assume j: "i \<le> j" "j < src_len s" and P: "?P (Suc j) st"
    obtain a mi where st: "st = (a, mi)" by fastforce
    have x: "0 \<le> src_digit s j" "src_digit s j < 2 ^ k" using d j by auto
    define n where "n = src_len s - Suc j"
    have n: "src_len s - j = Suc n" "[j..<src_len s] = j # [Suc j..<src_len s]"
      using j by (simp_all add: n_def upt_conv_Cons)
    have "packed (k * n + k) (be_val (2 ^ k) (map (src_digit s) [Suc j..<src_len s]) + src_digit s j * 2 ^ (k * n))
        (pack_digit E k (src_digit s j) a)"
      using P k x by (intro pack_digit_ok) (simp_all add: st n_def)
    moreover have "be_val (2 ^ k) (map (src_digit s) [j..<src_len s])
        = be_val (2 ^ k) (map (src_digit s) [Suc j..<src_len s]) + src_digit s j * 2 ^ (k * n)"
      by (simp add: n be_val_Cons n_def power_mult)
    ultimately show "?P j (f j st)" using x n(1) by (simp add: f_def st add.commute)
  qed (rule i)
  then show ?thesis by (metis prod.collapse)
qed

lemma packed_bn:
  assumes "packed n v (w, t, sh)"
  shows "bn_wf E (bnpClamp E (r\<lparr>bn_d := w, bn_t := t, bn_s := 0\<rparr>))"
    "bval E (bnpClamp E (r\<lparr>bn_d := w, bn_t := t, bn_s := 0\<rparr>)) = v"
proof -
  let ?x = "r\<lparr>bn_d := w, bn_t := t, bn_s := 0\<rparr>"
  have "dok E ?x" "bval E ?x = v" using assms by (simp_all add: packed_def dok_def bval_def)
  then show "bn_wf E (bnpClamp E ?x)" "bval E (bnpClamp E ?x) = v" using wf_clamp bval_clamp [of ?x] by simp_all
qed

lemma map_upt_nth: "map (\<lambda>i. g (xs ! i)) [0..<length xs] = map g xs"
  by (rule nth_equalityI) simp_all

lemma parse_string_ok:
  assumes b: "radix_bits b = Some k" "b \<noteq> 256" and s: "\<forall>c \<in> set s. is_digit k c"
  shows "\<exists>r. parse_string E s b = Some r \<and> bn_wf E r \<and> bval E r = str_val k s"
proof -
  have k: "1 \<le> k" "k \<le> 8" "k \<noteq> 8" using b by (auto simp: radix_bits_def split: if_splits)
  have d: "0 \<le> src_digit (Str s) j \<and> src_digit (Str s) j < 2 ^ k" if "j < src_len (Str s)" for j
    using s that by (auto simp: intAt_def is_digit_def)
  obtain st where st: "for_down 0 (src_len (Str s)) (\<lambda>i (st, mi).
                   let x = src_digit (Str s) i
                   in if x < 0 then (st, if src_minus (Str s) i then True else mi)
                      else (pack_digit E k x st, False)) (([], 0, 0), False) = (st, False)"
    "packed (k * length s) (be_val (2 ^ k) (map (src_digit (Str s)) [0..<length s])) st"
    using read_loop [OF k(1,2), of 0 "Str s" "[]"] d by auto
  obtain w t sh where sw: "st = (w, t, sh)" by (cases st) auto
  have "src_digit (Str s) = (\<lambda>i. char_digit (s ! i))" by (simp add: fun_eq_iff intAt_def)
  then have "map (src_digit (Str s)) [0..<length s] = map char_digit s"
    using map_upt_nth [of char_digit s] by (simp only:)
  then have "packed (k * length s) (str_val k s) (w, t, sh)" using st(2) by (simp add: str_val_def sw)
  note r = packed_bn [OF this, of nbi]
  have "parse_string E s b = Some (bnpClamp E (nbi\<lparr>bn_d := w, bn_t := t, bn_s := 0\<rparr>))"
    unfolding parse_string_def bnpFromString_def b(1) option.case
    using st(1) k(3) by (simp add: sw nbi_def Let_def)
  then show ?thesis using r by simp
qed

text \<open>Bytes are two's complement, most significant first.\<close>

lemma parse_bytes_ok: "\<exists>r. parse_bytes E a = Some r \<and> bn_wf E r \<and> bval E r = bytes_val a"
proof -
  let ?s = "Bytes a"
  have byte: "src_digit ?s j = a ! j mod 256" for j using js_and_mask [of 8 "a ! j"] by simp
  have d: "0 \<le> src_digit ?s j \<and> src_digit ?s j < 2 ^ 8" for j unfolding byte by simp
  obtain st where st: "for_down 0 (src_len ?s) (\<lambda>i (st, mi).
                   let x = src_digit ?s i
                   in if x < 0 then (st, if src_minus ?s i then True else mi)
                      else (pack_digit E 8 x st, False)) (([], 0, 0), False) = (st, False)"
    "packed (8 * length a) (be_val (2 ^ 8) (map (src_digit ?s) [0..<length a])) st"
    using read_loop [of 8 0 ?s "[]"] d by auto
  obtain w t sh where sw: "st = (w, t, sh)" by (cases st) auto
  define v where "v = be_val 256 (map (\<lambda>x. x mod 256) a)"
  have "src_digit ?s = (\<lambda>i. a ! i mod 256)" using byte by (simp add: fun_eq_iff)
  then have "map (src_digit ?s) [0..<length a] = map (\<lambda>x. x mod 256) a"
    using map_upt_nth [of "\<lambda>x. x mod 256" a] by (simp only:)
  then have pk: "packed (8 * length a) v (w, t, sh)" using st(2) by (simp add: v_def sw)
  define neg where "neg \<longleftrightarrow> length a > 0 \<and> js_and (src_digit ?s 0) 0x80 \<noteq> 0"
  define w' where "w' = (if neg \<and> sh > 0
                   then put w (t - 1) (js_or (get w (t - 1)) (js_shl (js_shl 1 (DB E - sh) - 1) sh))
                   else w)"
  have res: "parse_bytes E a = Some (bnpClamp E (nbi\<lparr>bn_d := w', bn_t := t, bn_s := (if neg then -1 else 0)\<rparr>))"
    unfolding parse_bytes_def bnpFromString_def using st(1)
    by (simp add: sw nbi_def Let_def radix_bits_def w'_def neg_def)
  have "js_and x 128 \<noteq> 0 \<longleftrightarrow> 128 \<le> x" if "0 \<le> x" "x < 256" for x
  proof -
    have "x div 128 = (if 128 \<le> x then 1 else 0)"
      using that by (simp add: div_pos_geq div_pos_pos_trivial)
    then show ?thesis using bit_mask [of 7 x] by simp
  qed
  then have neg: "neg \<longleftrightarrow> a \<noteq> [] \<and> 128 \<le> a ! 0 mod 256" using d [of 0] unfolding neg_def byte by auto
  then have bv: "bytes_val a = v - (if neg then 256 ^ length a else 0)" by (simp add: bytes_val_def v_def)
  show ?thesis
  proof (cases neg)
    case False
    then have "w' = w" by (simp add: w'_def)
    then show ?thesis using packed_bn [OF pk, of nbi] False bv by (simp add: res)
  next
    case True
    let ?x = "nbi\<lparr>bn_d := w', bn_t := t, bn_s := -1\<rparr>"
    have pw: "(2::int) ^ (8 * length a) = 256 ^ length a" by (simp add: power_mult)
    have dw: "digits (base E) w 0 t" "uval (base E) w 0 t = v" "v < 2 ^ (8 * length a)" "sh < DB E"
      using pk by (auto simp: packed_def)
    have "digits (base E) w' 0 t \<and> uval (base E) w' 0 t = v + base E ^ t - 256 ^ length a"
    proof (cases "sh = 0")
      case True
      then show ?thesis using pk dw by (simp add: packed_def w'_def base_power flip: pw)
    next
      case False
      then obtain u where u: "t = Suc u" "8 * length a = DB E * u + sh" using pk by (cases t) (auto simp: packed_def)
      let ?c = "DB E - sh" let ?y = "(2::int) ^ (DB E - sh) - 1"
      have t0: "0 \<le> get w u" "get w u < 2 ^ sh" using packed_top [of w u sh] dw u by simp_all
      have y: "0 \<le> ?y" "?y < 2 ^ ?c" by simp_all
      have "(2::int) ^ ?c \<le> 2 ^ 30" using DB_upper by (intro power_increasing) auto
      then have "js_shl 1 ?c = 2 ^ ?c" using DB_upper by (simp add: js_shl_mult)
      moreover have "js_shl ?y sh = ?y * 2 ^ sh" using raise_bits(1) [OF y] dw(4) by simp
      moreover have "js_or (get w u) (?y * 2 ^ sh) = get w u + ?y * 2 ^ sh" using join_bits(1) [OF t0 y] dw(4) by simp
      ultimately have w': "w' = put w u (get w u + ?y * 2 ^ sh)" using True False u(1) by (simp add: w'_def)
      have j: "0 \<le> get w u + ?y * 2 ^ sh" "get w u + ?y * 2 ^ sh < base E" using join_bits(2,3) [OF t0 y] dw(4) by simp_all
      have "digits (base E) w' 0 t" using dw(1) j u(1) unfolding w' by (auto simp: digits_def get_put)
      moreover have "uval (base E) w' 0 t = v + ?y * 2 ^ sh * base E ^ u"
        using uval_put [of u t "base E" w 0] dw(2) [unfolded u(1)] by (simp add: w' u(1))
      moreover have "?y * 2 ^ sh * base E ^ u = base E ^ t - 256 ^ length a"
      proof -
        have "?y * 2 ^ sh * base E ^ u = 2 ^ ?c * 2 ^ sh * base E ^ u - 2 ^ sh * base E ^ u"
          by (simp add: left_diff_distrib)
        also have "2 ^ ?c * 2 ^ sh = base E" using dw(4) by (simp add: base_def flip: power_add)
        also have "2 ^ sh * base E ^ u = 256 ^ length a" unfolding pw [symmetric] u(2) base_power by (simp add: power_add)
        finally show ?thesis by (simp add: u(1))
      qed
      ultimately show ?thesis by simp
    qed
    then have "dok E ?x" "bval E ?x = v - 256 ^ length a" by (simp_all add: dok_def bval_def)
    then show ?thesis using wf_clamp [of ?x] bval_clamp [of ?x] True bv by (simp add: res)
  qed
qed

end

section \<open>Printing\<close>

lemma char_digit_int2char:
  assumes "0 \<le> d" "d < 36"
  shows "\<exists>c. int2char d = [c] \<and> char_digit c = d"
proof -
  have len: "length BI_RM = 36" by (simp add: BI_RM_def)
  have "map char_digit BI_RM = map int [0..<36]"
    by (simp add: BI_RM_def char_digit_def BI_RC_def upt_rec)
  then have "map char_digit BI_RM ! nat d = map int [0..<36] ! nat d" by (rule arg_cong)
  then have "char_digit (BI_RM ! nat d) = d" using assms len by simp
  moreover note len
  ultimately show ?thesis using assms by (simp add: int2char_def)
qed

text \<open>
  The state of the loop: \<open>n = i * DB + p\<close> bits are left to print, and the digits so far are those
  of the number without its low \<open>n\<close> bits.
\<close>

definition printed :: "nat \<Rightarrow> int \<Rightarrow> nat \<Rightarrow> bool \<Rightarrow> string \<Rightarrow> bool" where
  "printed k x n m r \<longleftrightarrow> (m \<longleftrightarrow> r \<noteq> []) \<and> str_val k r = x div 2 ^ n \<and> (\<forall>c \<in> set r. is_digit k c) \<and>
     (r \<noteq> [] \<longrightarrow> char_digit (r ! 0) \<noteq> 0)"

lemma printed_step:
  assumes p: "printed k x (n + k) m r" and k: "1 \<le> k" "k \<le> 5" and d: "d = x div 2 ^ n mod 2 ^ k"
  shows "printed k x n (if d > 0 then True else m) (if (if d > 0 then True else m) then r @ int2char d else r)"
proof -
  have "(2::int) ^ k \<le> 32" using power_increasing [of k 5 "2::int"] k by simp
  moreover have d1: "0 \<le> d" "d < 2 ^ k" unfolding d by simp_all
  ultimately have d0: "0 \<le> d" "d < 2 ^ k" "d < 36" by linarith+
  then obtain c where c: "int2char d = [c]" "char_digit c = d" using char_digit_int2char by blast
  have "x div 2 ^ n div 2 ^ k = x div 2 ^ (n + k)" by (simp add: power_add zdiv_zmult2_eq)
  then have v: "x div 2 ^ n = x div 2 ^ (n + k) * 2 ^ k + d" unfolding d using div_mult_mod_eq [of "x div 2 ^ n" "2 ^ k"] by simp
  show ?thesis
  proof (cases "d > 0 \<or> m")
    case True
    then show ?thesis using p c d0 v
      by (auto simp: printed_def str_val_def is_digit_def nth_append)
  next
    case False
    then have "d = 0" using d0 by simp
    then show ?thesis using p False v by (auto simp: printed_def str_val_def)
  qed
qed

context digit_width
begin

lemma bval_cell:
  assumes x: "dok E x" "bn_s x = 0" "i < bn_t x"
  shows "bval E x div 2 ^ (DB E * i) mod base E = get (bn_d x) i"
proof -
  obtain j where j: "bn_t x = i + Suc j" using x(3) by (metis add_Suc_right less_imp_Suc_add)
  have dg: "digits (base E) (bn_d x) 0 (i + Suc j)" using x(1) j by (simp add: dok_def)
  have lo: "0 \<le> uval (base E) (bn_d x) 0 i" "uval (base E) (bn_d x) 0 i < base E ^ i"
    using digits_sub [OF dg, of 0 i] by (auto intro: uval_nonneg uval_less)
  have "bval E x = uval (base E) (bn_d x) 0 i + base E ^ i * uval (base E) (bn_d x) i (Suc j)"
    using x(2) j uval_add [of "base E" "bn_d x" 0 i "Suc j"] by (simp add: bval_def)
  then have "bval E x div base E ^ i = uval (base E) (bn_d x) i (Suc j)" using lo by simp
  then have "bval E x div base E ^ i mod base E = get (bn_d x) i" using digitsD [OF dg, of i] by (simp add: uval_step)
  then show ?thesis by (simp add: base_power)
qed

text \<open>A digit within one cell, and one across two cells.\<close>

lemma cell_bits:
  fixes x :: int
  assumes "c = x mod 2 ^ w" "q + k \<le> w"
  shows "c div 2 ^ q mod 2 ^ k = x div 2 ^ q mod 2 ^ k"
proof -
  have "min k (w - q) = k" using assms(2) by simp
  then have "take_bit k (drop_bit q (take_bit w x)) = take_bit k (drop_bit q x)"
    by (simp add: drop_bit_take_bit)
  then show ?thesis using assms(1) by (simp add: take_bit_eq_mod drop_bit_eq_div)
qed

lemma two_cells:
  fixes z c0 c1 :: int
  assumes z: "c0 = z mod 2 ^ w" "c1 = z div 2 ^ w mod 2 ^ w" and p: "p < k" "k \<le> w"
  shows "(c1 mod 2 ^ p) * 2 ^ (k - p) + c0 div 2 ^ (p + w - k) = z div 2 ^ (p + w - k) mod 2 ^ k"
    "0 \<le> c0 div 2 ^ (p + w - k)" "c0 div 2 ^ (p + w - k) < 2 ^ (k - p)"
proof -
  define s where "s = p + w - k"
  have w: "w = s + (k - p)" using p by (simp add: s_def)
  define h where "h = z div 2 ^ w"
  have "(2::int) ^ p dvd 2 ^ w" using p by (intro le_imp_power_dvd) simp
  then have c1: "c1 mod 2 ^ p = h mod 2 ^ p" unfolding z(2) h_def by (rule mod_mod_cancel)
  have "z = c0 + 2 ^ s * (2 ^ (k - p) * h)"
    using mod_mult_div_eq [of z "2 ^ w"] by (simp add: z(1) w power_add mult.assoc h_def)
  then have "z div 2 ^ s = (c0 + 2 ^ s * (2 ^ (k - p) * h)) div 2 ^ s" by simp
  also have "\<dots> = 2 ^ (k - p) * h + c0 div 2 ^ s" by simp
  finally have zs: "z div 2 ^ s = 2 ^ (k - p) * h + c0 div 2 ^ s" .
  have c0: "0 \<le> c0" "c0 < 2 ^ w" by (simp_all add: z(1))
  have "2 ^ w = (2::int) ^ (k - p) * 2 ^ s" by (simp add: w power_add)
  then have "c0 div 2 ^ s < 2 ^ (k - p)" using c0(2) by (intro div_less_int) simp_all
  moreover have "0 \<le> c0 div 2 ^ s" using c0(1) by (simp add: pos_imp_zdiv_nonneg_iff)
  ultimately have lo: "0 \<le> c0 div 2 ^ s" "c0 div 2 ^ s < 2 ^ (k - p)" by simp_all
  then show "0 \<le> c0 div 2 ^ (p + w - k)" "c0 div 2 ^ (p + w - k) < 2 ^ (k - p)" by (simp_all add: s_def)
  define r where "r = 2 ^ (k - p) * (h mod 2 ^ p) + c0 div 2 ^ s"
  have k2: "(2::int) ^ k = 2 ^ (k - p) * 2 ^ p" using p by (simp flip: power_add)
  have hp: "0 \<le> h mod 2 ^ p" "h mod 2 ^ p \<le> 2 ^ p - 1" by (simp_all add: zle_diff1_eq)
  have "2 ^ (k - p) * (h mod 2 ^ p) \<le> 2 ^ (k - p) * (2 ^ p - (1::int))"
    using hp(2) by (rule mult_left_mono) simp
  moreover have "2 ^ (k - p) * (2 ^ p - (1::int)) = 2 ^ k - 2 ^ (k - p)" by (simp add: k2 right_diff_distrib)
  moreover have "0 \<le> 2 ^ (k - p) * (h mod 2 ^ p)" by simp
  ultimately have "0 \<le> r" "r < 2 ^ k" using lo unfolding r_def by linarith+
  moreover have "2 ^ (k - p) * h + c0 div 2 ^ s = r + 2 ^ k * (h div 2 ^ p)"
  proof -
    have "h = 2 ^ p * (h div 2 ^ p) + h mod 2 ^ p" by simp
    then have "2 ^ (k - p) * h = 2 ^ (k - p) * (2 ^ p * (h div 2 ^ p) + h mod 2 ^ p)" by (simp only:)
    then show ?thesis unfolding r_def k2 distrib_left by (simp only: mult.assoc add.assoc add.commute)
  qed
  ultimately have "(2 ^ (k - p) * h + c0 div 2 ^ s) mod 2 ^ k = r" by simp
  then show "(c1 mod 2 ^ p) * 2 ^ (k - p) + c0 div 2 ^ (p + w - k) = z div 2 ^ (p + w - k) mod 2 ^ k"
    unfolding s_def [symmetric] zs c1 by (simp add: r_def mult.commute)
qed

text \<open>The loop, by induction on the number of bits left.\<close>

text \<open>The next k bits, when they lie in one cell and when they lie in two.\<close>

lemma digit_in_cell:
  assumes x: "dok E x" "bn_s x = 0" "j < bn_t x" and k: "k \<le> 5" "k \<le> q" "q \<le> DB E"
  shows "js_and (js_sar (get (bn_d x) j) (q - k)) (js_shl 1 k - 1) = bval E x div 2 ^ (DB E * j + q - k) mod 2 ^ k"
proof -
  note cell = bval_cell [OF x, folded base_def]
  have cb: "0 \<le> get (bn_d x) j" "get (bn_d x) j < base E" using dok_cell [OF x(1,3)] by auto
  have "(2::int) ^ k \<le> 32" using power_increasing [of k 5 "2::int"] k by simp
  then have "js_shl 1 k = 2 ^ k" using k by (simp add: js_shl_mult)
  moreover have "js_sar (get (bn_d x) j) (q - k) = get (bn_d x) j div 2 ^ (q - k)" using cb k by (intro hi_bits) auto
  ultimately have "js_and (js_sar (get (bn_d x) j) (q - k)) (js_shl 1 k - 1) = get (bn_d x) j div 2 ^ (q - k) mod 2 ^ k"
    using js_and_mask [of k] k by simp
  also have "\<dots> = bval E x div 2 ^ (DB E * j) div 2 ^ (q - k) mod 2 ^ k"
    using cell_bits [of "get (bn_d x) j" "bval E x div 2 ^ (DB E * j)" "DB E" "q - k" k] cell k by (simp add: base_def)
  also have "bval E x div 2 ^ (DB E * j) div 2 ^ (q - k) = bval E x div 2 ^ (DB E * j + q - k)"
    using k by (simp add: zdiv_zmult2_eq [symmetric] power_add [symmetric])
  finally show ?thesis .
qed

lemma digit_in_two_cells:
  assumes x: "dok E x" "bn_s x = 0" "Suc l < bn_t x" and k: "k \<le> 5" "q < k"
  shows "js_or (js_shl (js_and (get (bn_d x) (Suc l)) (js_shl 1 q - 1)) (k - q)) (js_sar (get (bn_d x) l) (q + DB E - k)) =
    bval E x div 2 ^ (DB E * Suc l + q - k) mod 2 ^ k"
proof -
  define s where "s = q + DB E - k"
  have kw: "k < DB E" using k DB_lower by simp
  have lt: "l < bn_t x" using x(3) by simp
  have cb: "0 \<le> get (bn_d x) (Suc l)" "get (bn_d x) (Suc l) < base E" using dok_cell [OF x(1,3)] by auto
  have cl: "0 \<le> get (bn_d x) l" "get (bn_d x) l < base E" using dok_cell [OF x(1) lt] by auto
  let ?z = "bval E x div 2 ^ (DB E * l)"
  have z1: "get (bn_d x) l = ?z mod 2 ^ DB E" using bval_cell [OF x(1,2) lt] by (simp add: base_def)
  have z2: "get (bn_d x) (Suc l) = ?z div 2 ^ DB E mod 2 ^ DB E"
    using bval_cell [OF x] by (simp add: base_def zdiv_zmult2_eq [symmetric] power_add [symmetric] add.commute)
  note tc = two_cells [OF z1 z2 k(2) less_imp_le [OF kw], folded s_def]
  let ?a = "get (bn_d x) (Suc l) mod 2 ^ q" and ?b = "get (bn_d x) l div 2 ^ s"
  have a: "?a < 2 ^ (DB E - (k - q))"
  proof -
    have "(2::int) ^ q \<le> 2 ^ (DB E - (k - q))" using k(2) kw by (intro power_increasing) auto
    moreover have "?a < 2 ^ q" by simp
    ultimately show ?thesis by linarith
  qed
  have "js_and (get (bn_d x) (Suc l)) (js_shl 1 q - 1) = ?a" using cb k kw by (intro lo_bits) auto
  moreover have "js_shl ?a (k - q) = ?a * 2 ^ (k - q)" by (rule raise_bits(1)) (use a kw in simp_all)
  moreover have "js_sar (get (bn_d x) l) s = ?b" using cl k kw by (intro hi_bits) (auto simp: s_def)
  moreover have "js_or ?b (?a * 2 ^ (k - q)) = ?b + ?a * 2 ^ (k - q)" by (rule join_bits(1)) (use a tc kw in simp_all)
  ultimately have "js_or (js_shl (js_and (get (bn_d x) (Suc l)) (js_shl 1 q - 1)) (k - q)) (js_sar (get (bn_d x) l) s) = ?z div 2 ^ s mod 2 ^ k"
    using tc(1) by (simp add: js_or_commute)
  also have "?z div 2 ^ s = bval E x div 2 ^ (DB E * Suc l + q - k)"
    using k(2) kw by (simp add: zdiv_zmult2_eq [symmetric] power_add [symmetric] s_def algebra_simps)
  finally show ?thesis by (simp add: s_def)
qed

lemma print_digits_ok:
  assumes x: "dok E x" "bn_s x = 0" and k: "1 \<le> k" "k \<le> 5"
    and i: "-1 \<le> i" "i < int (bn_t x)" and p: "0 < p" "p \<le> int (DB E)"
    and n: "int n = i * int (DB E) + p" "k dvd n"
    and pr: "printed k (bval E x) n m r"
  shows "\<exists>m' r'. print_digits E k (bn_d x) i p m r = Some (m', r') \<and> printed k (bval E x) 0 m' r'"
  using i p n pr
proof (induction n arbitrary: i p m r rule: less_induct)
  case (less n)
  let ?X = "bval E x" let ?D = "bn_d x" let ?w = "DB E"
  have kw: "k < ?w" using k DB_lower by simp
  show ?case
  proof (cases "i < 0")
    case True
    then have "i = -1" using less.prems(1) by simp
    then have "n = 0" using less.prems(4,5) by simp
    then show ?thesis using less.prems True by (subst print_digits.simps) simp
  next
    case False
    then obtain j where j: "i = int j" by (metis int_eq_iff linorder_not_less)
    have "0 \<le> i * int ?w" using False by simp
    then have "0 < n" using less.prems(3,5) by linarith
    then have nk: "k \<le> n" using less.prems(6) by (rule dvd_imp_le [rotated])
    define n' where "n' = n - k"
    have n': "n' < n" "n = n' + k" "k dvd n'" using nk k less.prems(6) by (auto simp: n'_def)
    have jt: "j < bn_t x" using less.prems(2) j by simp
    have pj: "p \<le> int ?w" "0 < p" using less.prems by auto
    define q where "q = nat p"
    have q: "p = int q" "0 < q" "q \<le> ?w" using pj by (simp_all add: q_def)
    have nj: "n = ?w * j + q" using less.prems(5) unfolding j q(1)
      by (metis (mono_tags) mult.commute of_nat_add of_nat_eq_iff of_nat_mult)
    show ?thesis
    proof (cases "q < k")
      case False
      define d where "d = js_and (js_sar (get ?D j) (q - k)) (js_shl 1 k - 1)"
      define i2 p2 where "i2 = (if q = k then i - 1 else i)" and "p2 = (if q = k then int ?w else p - int k)"
      define m2 where "m2 = (if d > 0 then True else m)"
      have step: "print_digits E k ?D i p m r = print_digits E k ?D i2 p2 m2 (if m2 then r @ int2char d else r)"
        using False j q by (subst print_digits.simps) (auto simp: Let_def d_def i2_def p2_def m2_def nat_diff_distrib)
      have d: "d = ?X div 2 ^ n' mod 2 ^ k"
        using digit_in_cell [OF x jt k(2) _ q(3)] False by (simp add: d_def n'_def nj)
      have "printed k ?X n' m2 (if m2 then r @ int2char d else r)"
        unfolding m2_def using printed_step [OF _ k d, of m r] less.prems(7) n'(2) by simp
      moreover have "int n' = i2 * int ?w + p2"
        using less.prems(5) False q unfolding n'_def i2_def p2_def by (auto simp: nj j algebra_simps)
      moreover have "-1 \<le> i2" "i2 < int (bn_t x)" "0 < p2" "p2 \<le> int ?w"
        using less.prems \<open>\<not> i < 0\<close> False q kw by (auto simp: i2_def p2_def)
      ultimately show ?thesis unfolding step using n' by (intro less.IH) auto
    next
      case True
      have "j \<noteq> 0"
      proof
        assume "j = 0"
        then have "n = q" unfolding nj by (simp only: mult_0_right add_0)
        then show False using True nk by linarith
      qed
      then obtain l where l: "j = Suc l" by (cases j) auto
      define s where "s = q + ?w - k"
      define d where "d = js_or (js_shl (js_and (get ?D j) (js_shl 1 q - 1)) (k - q)) (js_sar (get ?D l) s)"
      define m2 where "m2 = (if d > 0 then True else m)"
      have sw: "nat (p + int ?w - int k) = s" "int s = p + int ?w - int k" using q kw by (simp_all add: s_def nat_diff_distrib)
      have step: "print_digits E k ?D i p m r = print_digits E k ?D (i - 1) (int s) m2 (if m2 then r @ int2char d else r)"
      proof -
        have n1: "nat i = j" "nat (i - 1) = l" "nat p = q" using j l by (simp_all add: q_def)
        have n2: "(p < int k) = True" "(i < 0) = False" using True j q(1) by simp_all
        show ?thesis
          by (subst print_digits.simps)
            (simp only: n1 n2 if_True if_False Let_def prod.case d_def m2_def sw(1) sw(2) [symmetric] nat_int)
      qed
      have d: "d = ?X div 2 ^ n' mod 2 ^ k"
        using digit_in_two_cells [OF x _ k(2) True, of l] jt by (simp add: d_def s_def n'_def nj l)
      have "printed k ?X n' m2 (if m2 then r @ int2char d else r)"
        unfolding m2_def using printed_step [OF _ k d, of m r] less.prems(7) n'(2) by simp
      moreover have "int n' = (i - 1) * int ?w + int s"
        using True kw l j by (simp add: n'_def nj s_def algebra_simps)
      moreover have "-1 \<le> i - 1" "i - 1 < int (bn_t x)" "0 < int s" "int s \<le> int ?w"
        using less.prems(2) l j True kw by (auto simp: s_def)
      ultimately show ?thesis unfolding step using n' by (intro less.IH) auto
    qed
  qed
qed


text \<open>
  The text of a number: digits of the radix without leading zeros, whose value is the number.
\<close>

lemma print_nonneg_ok:
  assumes b: "radix_bits b = Some k" "b \<noteq> 256" and x: "bn_wf E x" "bn_s x = 0"
  shows "\<exists>s. print_nonneg E x b = Some s \<and> s \<noteq> [] \<and> (\<forall>c \<in> set s. is_digit k c) \<and>
    str_val k s = bval E x \<and> (s \<noteq> ''0'' \<longrightarrow> char_digit (s ! 0) \<noteq> 0)"
proof -
  let ?w = "DB E" let ?X = "bval E x" let ?t = "bn_t x"
  have k: "1 \<le> k" "k \<le> 5" using b by (auto simp: radix_bits_def split: if_splits)
  have dx: "dok E x" using x(1) by (rule bn_wfD)
  have kw: "k < ?w" using k DB_lower by simp
  have zero: "is_digit k CHR ''0''" "char_digit CHR ''0'' = 0"
    by (simp_all add: is_digit_def char_digit_def BI_RC_def)
  define l where "l = (?t * ?w) mod k"
  have l: "l < k" "l \<le> ?t * ?w" using k by (simp_all add: l_def)
  define p where "p = int ?w - (int ?t * int ?w) mod int k"
  have p: "p = int (?w - l)" using l kw by (simp add: p_def l_def zmod_int of_nat_diff)
  have fin: "\<exists>s. map_option (\<lambda>(m, r). if m then r else ''0'') (Some (m', r')) = Some s \<and> s \<noteq> [] \<and>
      (\<forall>c \<in> set s. is_digit k c) \<and> str_val k s = ?X \<and> (s \<noteq> ''0'' \<longrightarrow> char_digit (s ! 0) \<noteq> 0)"
    if "printed k ?X 0 m' r'" for m' r'
    using that zero by (auto simp: printed_def str_val_def be_val_Cons)
  have unf: "print_nonneg E x b = map_option (\<lambda>(m, r). if m then r else ''0'')
               (if int ?t > 0 then
                  let i = int ?t - 1; d = js_sar (get (bn_d x) (nat i)) (nat p);
                      (m, r) = (if p < int ?w \<and> d > 0 then (True, int2char d) else (False, []))
                  in print_digits E k (bn_d x) i p m r
                else Some (False, []))"
    using b by (simp add: print_nonneg_def Let_def p_def)
  show ?thesis
  proof (cases ?t)
    case 0
    then have "?X = 0" using x(2) by (simp add: bval_def)
    then have "printed k ?X 0 False []" by (simp add: printed_def str_val_def)
    from fin [OF this] show ?thesis unfolding unf using 0 by simp
  next
    case (Suc u)
    define d where "d = js_sar (get (bn_d x) u) (?w - l)"
    define m r where "m = (l > 0 \<and> d > 0)" and "r = (if l > 0 \<and> d > 0 then int2char d else [])"
    define n where "n = ?w * u + (?w - l)"
    have cb: "0 \<le> get (bn_d x) u" "get (bn_d x) u < base E" using dok_cell [OF dx, of u] Suc by auto
    have dv: "d = get (bn_d x) u div 2 ^ (?w - l)" unfolding d_def using cb by (intro hi_bits) auto
    have Xb: "0 \<le> ?X" "?X < base E ^ Suc u" using bval_nonneg_iff [OF dx] bval_bounds(1) [OF dx] x(2) Suc by auto
    have top: "get (bn_d x) u = ?X div 2 ^ (?w * u)"
    proof -
      have "?X div 2 ^ (?w * u) < base E" using Xb by (intro div_less_int) (simp_all add: base_power mult.commute)
      moreover have "0 \<le> ?X div 2 ^ (?w * u)" using Xb by (simp add: pos_imp_zdiv_nonneg_iff)
      ultimately show ?thesis using bval_cell [OF dx x(2), of u] Suc by simp
    qed
    have dX: "d = ?X div 2 ^ n" unfolding dv top by (simp add: n_def zdiv_zmult2_eq power_add)
    have dl: "0 \<le> d" "d < 2 ^ l"
      using dv cb div_hi_less [of "get (bn_d x) u" l] l kw by (simp_all add: pos_imp_zdiv_nonneg_iff)
    have "(2::int) ^ l \<le> 32" using power_increasing [of l 5 "2::int"] l k by simp
    then have d36: "d < 36" using dl by linarith
    have "(2::int) ^ l \<le> 2 ^ k" using l by (intro power_increasing) auto
    then have dk: "d < 2 ^ k" using dl by linarith
    have "printed k ?X n m r"
    proof (cases "d > 0")
      case True
      then have "l > 0" using dl by (cases l) auto
      then show ?thesis using True char_digit_int2char [OF dl(1) d36] dX dk
        by (auto simp: printed_def m_def r_def str_val_def is_digit_def be_val_Cons)
    next
      case False
      then show ?thesis using dX dl by (simp add: printed_def m_def r_def str_val_def)
    qed
    moreover have "int n = int u * int ?w + p" by (simp add: n_def p)
    moreover have "k dvd n"
    proof -
      have "n = ?t * ?w - l" using l kw Suc by (simp add: n_def algebra_simps)
      then show ?thesis by (simp add: l_def dvd_minus_mod)
    qed
    moreover have "0 < p" "p \<le> int ?w" using l kw by (simp_all add: p)
    ultimately obtain m' r' where res: "print_digits E k (bn_d x) (int u) p m r = Some (m', r')" "printed k ?X 0 m' r'"
      using print_digits_ok [OF dx x(2) k, of "int u" p n m r] Suc by auto
    have fst: "(if p < int ?w \<and> js_sar (get (bn_d x) u) (nat p) > 0
        then (True, int2char (js_sar (get (bn_d x) u) (nat p))) else (False, [])) = (m, r)"
      unfolding p nat_int d_def [symmetric] using l kw by (auto simp: m_def r_def)
    have nums: "int (Suc u) - 1 = int u" "(int (Suc u) > 0) = True" by simp_all
    have "print_nonneg E x b = map_option (\<lambda>(m, r). if m then r else ''0'') (Some (m', r'))"
      unfolding unf Suc by (simp only: nums Let_def nat_int if_True fst prod.case res(1))
    then show ?thesis using fin [OF res(2)] by (simp only:)
  qed
qed


lemma for_down_last: "0 < n \<Longrightarrow> for_down 0 n f s = f 0 (for_down 1 n f s)"
  by (simp add: for_down_def upt_conv_Cons)

lemma parse_neg_ok:
  assumes b: "radix_bits b = Some k" "b \<noteq> 256" and s: "\<forall>c \<in> set s. is_digit k c"
  shows "\<exists>r. parse_string E (CHR ''-'' # s) b = Some r \<and> bn_wf E r \<and> bval E r = - str_val k s"
proof -
  let ?s = "CHR ''-'' # s"
  define f where "f = (\<lambda>i (st, mi).
                   let x = src_digit (Str ?s) i
                   in if x < 0 then (st, if src_minus (Str ?s) i then True else mi)
                      else (pack_digit E k x st, False))"
  have k: "1 \<le> k" "k \<le> 8" "k \<noteq> 8" using b by (auto simp: radix_bits_def split: if_splits)
  have d: "0 \<le> src_digit (Str ?s) j \<and> src_digit (Str ?s) j < 2 ^ k" if "1 \<le> j" "j < src_len (Str ?s)" for j
    using s that by (auto simp: intAt_def is_digit_def nth_Cons')
  obtain st where st: "for_down 1 (src_len (Str ?s)) f (([], 0, 0), False) = (st, False)"
    "packed (k * length s) (be_val (2 ^ k) (map (src_digit (Str ?s)) [1..<Suc (length s)])) st"
    using read_loop [OF k(1,2), of 1 "Str ?s" "[]"] d unfolding f_def by auto
  obtain w t sh where sw: "st = (w, t, sh)" by (cases st) auto
  have "src_digit (Str ?s) \<circ> Suc = (\<lambda>i. char_digit (s ! i))" by (simp add: fun_eq_iff intAt_def)
  then have "map (src_digit (Str ?s)) [1..<Suc (length s)] = map char_digit s"
    using map_upt_nth [of char_digit s]
    unfolding One_nat_def map_Suc_upt [symmetric] map_map by (simp only:)
  then have pk: "packed (k * length s) (str_val k s) (w, t, sh)" using st(2) by (simp add: str_val_def sw)
  have "src_digit (Str ?s) 0 < 0" by (simp add: intAt_def char_digit_def BI_RC_def)
  then have "f 0 (st, False) = (st, True)" by (simp add: f_def)
  then have "for_down 0 (src_len (Str ?s)) f (([], 0, 0), False) = ((w, t, sh), True)"
    using for_down_last [of "src_len (Str ?s)" f] st(1) by (simp add: sw)
  then have "parse_string E ?s b = Some (bnpSubTo E (Obj (bn_ZERO E)) Self (bnpClamp E (nbi\<lparr>bn_d := w, bn_t := t, bn_s := 0\<rparr>)))"
    unfolding parse_string_def bnpFromString_def b(1) option.case f_def
    using k(3) by (simp add: nbi_def Let_def)
  then show ?thesis
    using packed_bn [OF pk, of nbi] subTo_ok [of "Obj (bn_ZERO E)" _ Self] by (simp add: bn_wfD)
qed

lemma toString_parse:
  assumes b: "radix_bits b = Some k" "b \<noteq> 256" and x: "bn_wf E x"
  shows "\<exists>s y. bnToString E x b = Some s \<and> parse_string E s b = Some y \<and> bn_wf E y \<and> bval E y = bval E x"
proof (cases "bn_s x < 0")
  case True
  have n: "bn_wf E (bnNegate E x)" "bval E (bnNegate E x) = - bval E x" using negate_ok bn_wfD(1) [OF x] by auto
  have "0 \<le> bval E (bnNegate E x)"
    using True bval_nonneg_iff [OF bn_wfD(1) [OF x]] unfolding n(2) by linarith
  then have "bn_s (bnNegate E x) = 0" using bval_nonneg_iff [OF bn_wfD(1) [OF n(1)]] by simp
  from print_nonneg_ok [OF b n(1) this] obtain s where s: "print_nonneg E (bnNegate E x) b = Some s"
    "\<forall>c \<in> set s. is_digit k c" "str_val k s = - bval E x" unfolding n(2) by blast
  then show ?thesis using parse_neg_ok [OF b s(2)] True by (simp add: bnToString_def)
next
  case False
  then have "bn_s x = 0" using dokD(2) [OF bn_wfD(1) [OF x]] by auto
  from print_nonneg_ok [OF b x this] obtain s where s: "print_nonneg E x b = Some s"
    "\<forall>c \<in> set s. is_digit k c" "str_val k s = bval E x" by blast
  then show ?thesis using parse_string_ok [OF b s(2)] False by (simp add: bnToString_def)
qed

lemma bitLength_ok:
  assumes x: "bn_wf E x" "0 \<le> bval E x"
  shows "bval E x < 2 ^ bnBitLength E x" "0 < bval E x \<Longrightarrow> 2 ^ (bnBitLength E x - 1) \<le> bval E x"
    "bval E x = 0 \<Longrightarrow> bnBitLength E x = 0"
proof -
  have dx: "dok E x" using x(1) by (rule bn_wfD)
  have s: "bn_s x = 0" using x bval_nonneg_iff [OF dx] by simp
  have "bval E x < 2 ^ bnBitLength E x \<and> (0 < bval E x \<longrightarrow> 2 ^ (bnBitLength E x - 1) \<le> bval E x) \<and>
      (bval E x = 0 \<longrightarrow> bnBitLength E x = 0)"
  proof (cases "bn_t x")
    case 0
    then show ?thesis using s by (simp add: bnBitLength_def bval_def)
  next
    case (Suc n)
    define a where "a = get (bn_d x) n"
    have dg: "digits (base E) (bn_d x) 0 (Suc n)" using dx Suc by (simp add: dok_def)
    have "a \<noteq> 0" using x(1) s Suc by (simp add: bn_wf_def clamped_def a_def)
    then have a: "0 < a" "a < base E" using digitsD [OF dg, of n] by (auto simp: a_def)
    then have a32: "a < 2 ^ 32" using base_num by simp
    note nb = nbits_bounds [OF a(1) a32]
    have "js_xor a (js_and 0 (DM E)) = a" using a base_num by (simp add: js_xor_def js_and_def)
    then have bl: "bnBitLength E x = DB E * n + nbits a" using Suc s by (simp add: bnBitLength_def a_def)
    define U where "U = uval (base E) (bn_d x) 0 n"
    have U: "0 \<le> U" "U < base E ^ n" using digits_sub [OF dg, of 0 n] by (auto simp: U_def intro: uval_nonneg uval_less)
    have v: "bval E x = U + a * base E ^ n" using s Suc by (simp add: bval_def uval_Suc U_def a_def)
    have "(a + 1) * base E ^ n \<le> 2 ^ nbits a * base E ^ n" using nb(3) by (intro mult_right_mono) auto
    then have up: "bval E x < 2 ^ bnBitLength E x" using U unfolding v bl base_power power_add
      by (simp add: algebra_simps)
    have "2 ^ (nbits a - 1) * base E ^ n \<le> a * base E ^ n" using nb(2) by (intro mult_right_mono) auto
    then have "2 ^ (nbits a - 1) * base E ^ n \<le> bval E x" using U unfolding v by linarith
    moreover have "bnBitLength E x - 1 = DB E * n + (nbits a - 1)" using nb(1) bl by simp
    ultimately have lo: "2 ^ (bnBitLength E x - 1) \<le> bval E x" by (simp add: base_power power_add mult.commute)
    have "bval E x \<noteq> 0" using lo by (metis not_le zero_less_numeral zero_less_power)
    then show ?thesis using up lo by simp
  qed
  then show "bval E x < 2 ^ bnBitLength E x" "0 < bval E x \<Longrightarrow> 2 ^ (bnBitLength E x - 1) \<le> bval E x"
    "bval E x = 0 \<Longrightarrow> bnBitLength E x = 0" by auto
qed


end

end
