(* ===== verification/Bn_Props.thy ===== *)
theory Bn_Props
  imports Bn_String
begin

text \<open>
  The properties of jsbn's big integers (encrypt/jsbn.js) for the prototype the code installs:
  \<open>bn_prototype appName\<close> is the engine chosen from \<open>navigator.appName\<close>. Every current browser
  reports Netscape; Internet Explorer gets 30-bit digits. The third engine (26-bit digits, any
  other name) is covered by the properties that do not divide.
\<close>

lemma prototype_div:
  "appName = ''Netscape'' \<or> appName = ''Microsoft Internet Explorer'' \<Longrightarrow> div_engine (bn_prototype appName)"
  using div2.div_engine_axioms div3.div_engine_axioms by (auto simp: bn_prototype_def)

lemma prototype_nbv:
  "- 67108864 \<le> x \<Longrightarrow> x < 67108864 \<Longrightarrow>
   bn_wf (bn_prototype appName) (nbv (bn_prototype appName) x) \<and> bval (bn_prototype appName) (nbv (bn_prototype appName) x) = x"
  using eng1.nbv_ok [of x] eng2.nbv_ok [of x] eng3.nbv_ok [of x] by (auto simp: bn_prototype_def base_def)

lemma prototype_engine: "digit_engine (bn_prototype appName)" "digit_width (bn_prototype appName)"
  using bn_prototype_engine digit_engine.axioms(1) by auto

section \<open>Modular exponentiation\<close>

text \<open>C1: \<open>modPowInt\<close> terminates and returns the modular power \<open>this^e % m\<close>, by the classic reducer
  for small exponents and even moduli and by Montgomery's otherwise; a negative base gives the
  representative between 0 and \<open>m\<close>. The result is in normal form.\<close>

theorem modPowInt_correct:
  assumes "appName = ''Netscape'' \<or> appName = ''Microsoft Internet Explorer''"
  defines "E \<equiv> bn_prototype appName"
  assumes "bn_wf E x" "bn_wf E m" "0 < bval E m" "0 < e" "e < 2 ^ 32"
  shows "\<exists>r. bnModPowInt E x e m = Some r \<and> bn_wf E r \<and> bval E r = bval E x ^ nat e mod bval E m"
  using div_engine.modPowInt_ok [OF prototype_div [OF assms(1)]] assms(3-) unfolding E_def by simp

theorem modPowInt_correct_witness:
  "\<exists>r. bnModPowInt (bn_prototype ''Netscape'') (nbv (bn_prototype ''Netscape'') (-7)) 257
         (nbv (bn_prototype ''Netscape'') 1000003) = Some r
     \<and> bval (bn_prototype ''Netscape'') r = (-7) ^ 257 mod 1000003"
proof -
  let ?E = "bn_prototype ''Netscape''"
  have x: "bn_wf ?E (nbv ?E (-7))" "bval ?E (nbv ?E (-7)) = -7" and m: "bn_wf ?E (nbv ?E 1000003)" "bval ?E (nbv ?E 1000003) = 1000003"
    using prototype_nbv [of "-7" "''Netscape''"] prototype_nbv [of 1000003 "''Netscape''"] by simp_all
  obtain r where r: "bnModPowInt ?E (nbv ?E (-7)) 257 (nbv ?E 1000003) = Some r"
    "bval ?E r = bval ?E (nbv ?E (-7)) ^ nat 257 mod bval ?E (nbv ?E 1000003)"
  proof -
    have "0 < bval ?E (nbv ?E 1000003)" unfolding m(2) by simp
    note c = modPowInt_correct [OF _ x(1) m(1) this, of 257]
    show thesis by (rule exE [OF c]) (use that in blast | simp)+
  qed
  have "nat 257 = (257 :: nat)" by simp
  with r(2) have "bval ?E r = (-7) ^ 257 mod 1000003" unfolding x(2) m(2) by (simp only:)
  with r(1) show ?thesis by blast
qed

section \<open>The arithmetic\<close>

text \<open>C20: The multiply-accumulate loop the prototype installs, whichever of the three it is, computes
  what the schoolbook loop computes: the digits of \<open>w\<close> plus \<open>x\<close> times those of \<open>this\<close> plus the carry, with the
  carry out of the last digit. The bounds are those multiplyTo, squareTo and the reducers keep: a
  doubled digit and a carry below three times the base.\<close>

theorem am_equals_schoolbook:
  assumes "0 \<le> x" "x < 2 * base (bn_prototype appName)" "0 \<le> c" "c < 3 * base (bn_prototype appName)"
    and "digits (base (bn_prototype appName)) this i n" "digits (base (bn_prototype appName)) w j n"
  shows "am (bn_prototype appName) this i x w j c n = am_ref (base (bn_prototype appName)) this i x w j c n"
  using assms by (rule digit_engine.am_reference [OF prototype_engine(1)])

theorem am_equals_schoolbook_witness:
  "am (bn_prototype ''Netscape'') [268435455, 7, 268435455] 0 536870911 [1, 2, 268435455] 0 805306367 3
   = am_ref (2 ^ 28) [268435455, 7, 268435455] 0 536870911 [1, 2, 268435455] 0 805306367 3"
proof -
  have b: "base (bn_prototype ''Netscape'') = 2 ^ 28" by (simp add: bn_prototype_def base_def)
  have d: "digits (2 ^ 28) [268435455, 7, 268435455] 0 3" "digits (2 ^ 28) [1, 2, 268435455] 0 3"
    by (auto simp: digits_def get_def less_Suc_eq numeral_3_eq_3 nth_Cons' split: if_splits)
  show ?thesis using am_equals_schoolbook [of 536870911 "''Netscape''" 805306367] d unfolding b by simp
qed

text \<open>C26: Multiplication and squaring are exact at every size and sign, on every engine, whatever the
  destination held before, and leave their result in normal form.\<close>

theorem multiply_and_square_exact:
  assumes "bn_wf (bn_prototype appName) x" "bn_wf (bn_prototype appName) y"
  shows "bn_wf (bn_prototype appName) (bnpMultiplyTo (bn_prototype appName) x y r) \<and>
    bval (bn_prototype appName) (bnpMultiplyTo (bn_prototype appName) x y r) = bval (bn_prototype appName) x * bval (bn_prototype appName) y \<and>
    bn_wf (bn_prototype appName) (bnpSquareTo (bn_prototype appName) x r) \<and>
    bval (bn_prototype appName) (bnpSquareTo (bn_prototype appName) x r) = (bval (bn_prototype appName) x)\<^sup>2"
  using digit_engine.multiplyTo_ok [OF prototype_engine(1) assms] digit_engine.squareTo_ok [OF prototype_engine(1) assms(1)]
  by simp

theorem multiply_and_square_exact_witness:
  "bval (bn_prototype ''Opera'') (bnpMultiplyTo (bn_prototype ''Opera'') (nbv (bn_prototype ''Opera'') (-60000000))
     (nbv (bn_prototype ''Opera'') 60000001) nbi) = -3600000060000000"
  using multiply_and_square_exact [of "''Opera''" "nbv (bn_prototype ''Opera'') (-60000000)" "nbv (bn_prototype ''Opera'') 60000001" nbi]
    prototype_nbv [of "-60000000" "''Opera''"] prototype_nbv [of 60000001 "''Opera''"] by simp

text \<open>C27: Subtraction is exact also when the destination is one of the operands or both: the digits are
  read before they are overwritten. \<open>Self\<close> stands for the destination \<open>r\<close>.\<close>

theorem subTo_any_aliasing:
  assumes "bn_wf (bn_prototype appName) (obj this r)" "bn_wf (bn_prototype appName) (obj a r)"
  shows "bn_wf (bn_prototype appName) (bnpSubTo (bn_prototype appName) this a r) \<and>
    bval (bn_prototype appName) (bnpSubTo (bn_prototype appName) this a r)
      = bval (bn_prototype appName) (obj this r) - bval (bn_prototype appName) (obj a r)"
  using digit_width.subTo_ok [OF prototype_engine(2)] assms [THEN bn_wfD(1)] by blast

theorem subTo_any_aliasing_witness:
  "bval (bn_prototype ''Netscape'') (bnpSubTo (bn_prototype ''Netscape'') (Obj (nbv (bn_prototype ''Netscape'') 5)) Self
     (nbv (bn_prototype ''Netscape'') 12)) = -7"
  using subTo_any_aliasing [of "''Netscape''" "Obj (nbv (bn_prototype ''Netscape'') 5)" "nbv (bn_prototype ''Netscape'') 12" Self]
    prototype_nbv [of 5 "''Netscape''"] prototype_nbv [of 12 "''Netscape''"] by simp

text \<open>Shifting left multiplies by a power of two, shifting right divides by it and rounds towards
  minus infinity, for negative numbers too, in place or into another object.\<close>

theorem shifts_exact:
  assumes "bn_wf (bn_prototype appName) (obj this r)"
  shows "bn_wf (bn_prototype appName) (bnpLShiftTo (bn_prototype appName) this n r) \<and>
    bval (bn_prototype appName) (bnpLShiftTo (bn_prototype appName) this n r) = bval (bn_prototype appName) (obj this r) * 2 ^ n \<and>
    bn_wf (bn_prototype appName) (bnpRShiftTo (bn_prototype appName) this n r) \<and>
    bval (bn_prototype appName) (bnpRShiftTo (bn_prototype appName) this n r) = bval (bn_prototype appName) (obj this r) div 2 ^ n"
  using digit_width.lShift_ok [OF prototype_engine(2) bn_wfD(1) [OF assms]]
    digit_width.rShift_ok [OF prototype_engine(2) bn_wfD(1) [OF assms]] by simp

theorem shifts_exact_witness:
  "bval (bn_prototype ''Netscape'') (bnpRShiftTo (bn_prototype ''Netscape'') Self 2 (nbv (bn_prototype ''Netscape'') (-13))) = -4"
  using shifts_exact [of "''Netscape''" Self "nbv (bn_prototype ''Netscape'') (-13)" 2] prototype_nbv [of "-13" "''Netscape''"]
  by simp

text \<open>The comparison orders the numbers: its sign is the sign of the difference, negative operands
  included.\<close>

theorem compareTo_orders:
  assumes "bn_wf (bn_prototype appName) x" "bn_wf (bn_prototype appName) y"
  shows "sgn (bnCompareTo x y) = sgn (bval (bn_prototype appName) x - bval (bn_prototype appName) y)"
  using digit_width.compareTo_sgn [OF prototype_engine(2) assms] .

theorem compareTo_orders_witness:
  "sgn (bnCompareTo (nbv (bn_prototype ''Netscape'') (-3)) (nbv (bn_prototype ''Netscape'') 2)) = -1"
  using compareTo_orders [of "''Netscape''" "nbv (bn_prototype ''Netscape'') (-3)" "nbv (bn_prototype ''Netscape'') 2"]
    prototype_nbv [of "-3" "''Netscape''"] prototype_nbv [of 2 "''Netscape''"] by simp

text \<open>\<open>bitLength\<close> is exact: a positive number lies between the powers of two it names, and zero has
  no bits.\<close>

theorem bitLength_exact:
  assumes "bn_wf (bn_prototype appName) x" "0 \<le> bval (bn_prototype appName) x"
  shows "bval (bn_prototype appName) x < 2 ^ bnBitLength (bn_prototype appName) x \<and>
    (if bval (bn_prototype appName) x = 0 then bnBitLength (bn_prototype appName) x = 0
     else 2 ^ (bnBitLength (bn_prototype appName) x - 1) \<le> bval (bn_prototype appName) x)"
  using digit_width.bitLength_ok [OF prototype_engine(2) assms] assms(2) by simp

theorem bitLength_exact_witness:
  "bval (bn_prototype ''Netscape'') (nbv (bn_prototype ''Netscape'') 1000003)
     < 2 ^ bnBitLength (bn_prototype ''Netscape'') (nbv (bn_prototype ''Netscape'') 1000003)"
  using bitLength_exact [of "''Netscape''" "nbv (bn_prototype ''Netscape'') 1000003"] prototype_nbv [of 1000003 "''Netscape''"]
  by simp

section \<open>Division and reduction\<close>

text \<open>C14: Division by a non-zero number terminates: the estimated quotient digits need no more
  corrections than the loop makes. The remainder it leaves has the sign of the dividend, as the
  remainder of truncated division.\<close>

theorem divRemTo_correct:
  assumes "appName = ''Netscape'' \<or> appName = ''Microsoft Internet Explorer''"
  defines "E \<equiv> bn_prototype appName"
  assumes "bn_wf E m" "bval E m \<noteq> 0" "bn_wf E (obj this r)"
  shows "\<exists>q' r'. bnpDivRemTo E this m q (Some r) = Some (q', Some r') \<and> bn_wf E r' \<and>
    bval E r' = (if bval E (obj this r) < 0 then - (\<bar>bval E (obj this r)\<bar> mod \<bar>bval E m\<bar>) else \<bar>bval E (obj this r)\<bar> mod \<bar>bval E m\<bar>)"
proof -
  note d = prototype_div [OF assms(1), folded E_def]
  show ?thesis using div_engine.divRemTo_ok [OF d assms(3-)] unfolding div_engine.trem_def [OF d] .
qed

theorem divRemTo_correct_witness:
  "\<exists>q' r'. bnpDivRemTo (bn_prototype ''Netscape'') (Obj (nbv (bn_prototype ''Netscape'') (-50000000)))
      (nbv (bn_prototype ''Netscape'') 70001) None (Some nbi) = Some (q', Some r')
     \<and> bval (bn_prototype ''Netscape'') r' = -19286"
  using divRemTo_correct [of "''Netscape''" "nbv (bn_prototype ''Netscape'') 70001" "Obj (nbv (bn_prototype ''Netscape'') (-50000000))" nbi None]
    prototype_nbv [of "-50000000" "''Netscape''"] prototype_nbv [of 70001 "''Netscape''"] by auto

text \<open>\<open>invDigit\<close> gives, by four Newton steps on machine numbers, the negated inverse of the lowest
  digit of an odd number modulo the base, the constant Montgomery reduction needs.\<close>

theorem invDigit_inverse:
  assumes "appName = ''Netscape'' \<or> appName = ''Microsoft Internet Explorer''"
  defines "E \<equiv> bn_prototype appName"
  assumes "bn_wf E m" "0 < bval E m" "odd (bval E m)"
  shows "0 \<le> bnpInvDigit E m \<and> bnpInvDigit E m < base E \<and> (get (bn_d m) 0 * bnpInvDigit E m) mod base E = base E - 1"
proof -
  note d = prototype_div [OF assms(1), folded E_def]
  have "odd_modulus E m" using assms(3-5) by (simp add: odd_modulus_def positive_bn_def)
  note o = div_engine.mont_okD [OF d this]
  note i = div_engine.invDigit_ok [OF d o(1,6,7)]
  have "(get (bn_d m) 0 * bnpInvDigit E m) mod base E = (- 1) mod base E" using i(3) by (simp add: mod_eq_dvd_iff)
  moreover have "1 < base E" using digit_width.base_num(2) [OF prototype_engine(2), of appName] by (simp add: E_def)
  ultimately show ?thesis using i(1,2) by (simp add: zmod_minus1)
qed

theorem invDigit_inverse_witness:
  "(1000003 * bnpInvDigit (bn_prototype ''Netscape'') (nbv (bn_prototype ''Netscape'') 1000003)) mod 268435456 = 268435455"
proof -
  have b: "base (bn_prototype ''Netscape'') = 268435456" "get (bn_d (nbv (bn_prototype ''Netscape'') 1000003)) 0 = 1000003"
    by (simp_all add: bn_prototype_def base_def nbv_def bnpFromInt_def get_def put_def nbi_def Let_def)
  show ?thesis
    using invDigit_inverse [of "''Netscape''" "nbv (bn_prototype ''Netscape'') 1000003"] prototype_nbv [of 1000003 "''Netscape''"]
    unfolding b by simp
qed

text \<open>C19: One Montgomery reduction of a product of two residues terminates with a residue that is the
  input divided by the power \<open>base ^ t\<close> modulo \<open>m\<close>: multiplying it back gives the input.\<close>

theorem montReduce_correct:
  assumes "appName = ''Netscape'' \<or> appName = ''Microsoft Internet Explorer''"
  defines "E \<equiv> bn_prototype appName"
  assumes "bn_wf E m" "0 < bval E m" "odd (bval E m)"
    and "bn_wf E x" "0 \<le> bval E x" "bval E x < bval E m * base E ^ bn_t m"
  shows "\<exists>y. montReduce E (Montgomery E m) x = Some y \<and> bn_wf E y \<and> 0 \<le> bval E y \<and> bval E y < bval E m \<and>
    (bval E y * base E ^ bn_t m) mod bval E m = bval E x mod bval E m"
  using div_engine.montReduce_ok [OF prototype_div [OF assms(1)], of m x] assms(3-)
  unfolding E_def odd_modulus_def positive_bn_def mod_eq_dvd_iff by blast

theorem montReduce_correct_witness:
  "\<exists>y. montReduce (bn_prototype ''Netscape'') (Montgomery (bn_prototype ''Netscape'') (nbv (bn_prototype ''Netscape'') 1000003))
      (nbv (bn_prototype ''Netscape'') 12345) = Some y
     \<and> (bval (bn_prototype ''Netscape'') y * 2 ^ 28) mod 1000003 = 12345"
proof -
  have b: "base (bn_prototype ''Netscape'') = 2 ^ 28" "bn_t (nbv (bn_prototype ''Netscape'') 1000003) = 1"
    by (simp_all add: bn_prototype_def base_def nbv_def bnpFromInt_def)
  show ?thesis
    using montReduce_correct [of "''Netscape''" "nbv (bn_prototype ''Netscape'') 1000003" "nbv (bn_prototype ''Netscape'') 12345"]
      prototype_nbv [of 1000003 "''Netscape''"] prototype_nbv [of 12345 "''Netscape''"] unfolding b by auto
qed

section \<open>Reading and printing\<close>

text \<open>C25: Printing a number in radix 2, 4, 8, 16 or 32 and parsing the text gives the number back, minus
  signs included. (Radix 10 goes through a library file the pages do not load.)\<close>

theorem print_parse_round_trip:
  assumes "b \<in> {2, 4, 8, 16, 32}" "bn_wf (bn_prototype appName) x"
  shows "\<exists>s y. bnToString (bn_prototype appName) x b = Some s \<and> parse_string (bn_prototype appName) s b = Some y \<and>
    bn_wf (bn_prototype appName) y \<and> bval (bn_prototype appName) y = bval (bn_prototype appName) x"
proof -
  obtain k where "radix_bits b = Some k" "b \<noteq> 256" using assms(1) by (auto simp: radix_bits_def)
  then show ?thesis using digit_width.toString_parse [OF prototype_engine(2) _ _ assms(2)] by blast
qed

theorem print_parse_round_trip_witness:
  "\<exists>s y. bnToString (bn_prototype ''Netscape'') (nbv (bn_prototype ''Netscape'') (-48879)) 16 = Some s
     \<and> parse_string (bn_prototype ''Netscape'') s 16 = Some y \<and> bval (bn_prototype ''Netscape'') y = -48879"
  using print_parse_round_trip [of 16 "''Netscape''" "nbv (bn_prototype ''Netscape'') (-48879)"] prototype_nbv [of "-48879" "''Netscape''"]
  by auto

text \<open>A list of bytes is read as the big-endian two's complement number it spells, of any length: the
  top bit of the first byte gives the sign, and the digits above it are extended.\<close>

theorem bytes_twos_complement:
  "\<exists>r. parse_bytes (bn_prototype appName) a = Some r \<and> bn_wf (bn_prototype appName) r \<and>
    bval (bn_prototype appName) r = foldl (\<lambda>v x. 256 * v + x mod 256) 0 a - (if a \<noteq> [] \<and> 128 \<le> a ! 0 mod 256 then 256 ^ length a else 0)"
proof -
  have "foldl (\<lambda>v x. 256 * v + x mod 256) v a = foldl (\<lambda>v x. v * 256 + x) v (map (\<lambda>x. x mod 256) a)" for v :: int
    by (simp add: foldl_map mult.commute)
  then show ?thesis using digit_width.parse_bytes_ok [OF prototype_engine(2)] unfolding bytes_val_def be_val_def by simp
qed

end
