(* ===== verification/Prng.thy ===== *)
theory Prng
  imports Prelude "HOL-Library.Multiset"
begin

text \<open>
  The random number generator of the RSA encryption: Arcfour (encrypt/prng4.js) over a pool of
  256 bytes (encrypt/rng.js). The sources of entropy - the Web Crypto generator, Netscape 4's,
  \<open>Math.random\<close> and the clock - are arguments of the operations that read them.
\<close>

section \<open>Arcfour\<close>

record arcfour =
  arc_i :: int
  arc_j :: int
  arc_S :: "int list"

definition Arcfour :: arcfour where
  "Arcfour = \<lparr>arc_i = 0, arc_j = 0, arc_S = []\<rparr>"

definition byte_at :: "int list \<Rightarrow> int \<Rightarrow> int" where
  "byte_at S i = get S (nat i)"

definition swap_bytes :: "int list \<Rightarrow> int \<Rightarrow> int \<Rightarrow> int list" where
  \<comment> \<open>t = S[i]; S[i] = S[j]; S[j] = t;\<close>
  "swap_bytes S i j = (let t = byte_at S i; S = put S (nat i) (byte_at S j) in put S (nat j) t)"

definition ARC4init :: "int list \<Rightarrow> arcfour \<Rightarrow> arcfour" where
  "ARC4init key this =
     (let S = for_up 0 256 (\<lambda>i S. put S i (int i)) (arc_S this);
          (j, S) = for_up 0 256
             (\<lambda>i (j, S).
                let j = js_and (j + get S i + get key (i mod length key)) 255
                in (j, swap_bytes S (int i) j)) (0, S)
      in this\<lparr>arc_S := S, arc_i := 0, arc_j := 0\<rparr>)"

definition ARC4next :: "arcfour \<Rightarrow> int \<times> arcfour" where
  "ARC4next this =
     (let i = js_and (arc_i this + 1) 255;
          j = js_and (arc_j this + byte_at (arc_S this) i) 255;
          t = byte_at (arc_S this) i;
          S = swap_bytes (arc_S this) i j
      in (byte_at S (js_and (t + byte_at S i) 255), this\<lparr>arc_i := i, arc_j := j, arc_S := S\<rparr>))"

definition prng_newstate :: arcfour where
  "prng_newstate = Arcfour"

section \<open>The pool\<close>

definition rng_psize :: nat where
  "rng_psize = 256"

record rng =
  rng_state :: "arcfour option"
  rng_pool :: "int list"
  rng_pptr :: nat

definition mix :: "int \<Rightarrow> rng \<Rightarrow> rng" where
  \<comment> \<open>rng_pool[rng_pptr++] ^= b;\<close>
  "mix b g = g\<lparr>rng_pool := put (rng_pool g) (rng_pptr g) (js_xor (get (rng_pool g) (rng_pptr g)) b),
     rng_pptr := rng_pptr g + 1\<rparr>"

definition rng_seed_int :: "int \<Rightarrow> rng \<Rightarrow> rng" where
  "rng_seed_int x g =
     (let g = mix (js_and x 255) g;
          g = mix (js_and (js_sar x 8) 255) g;
          g = mix (js_and (js_sar x 16) 255) g;
          g = mix (js_and (js_sar x 24) 255) g
      in if rng_pptr g \<ge> rng_psize then g\<lparr>rng_pptr := rng_pptr g - rng_psize\<rparr> else g)"

definition rng_seed_time :: "int \<Rightarrow> rng \<Rightarrow> rng" where
  "rng_seed_time now g = rng_seed_int now g"

text \<open>
  Filling the pool when the page loads. A browser with \<open>window.crypto\<close> may offer
  \<open>getRandomValues\<close>, here with the 32 bytes it gives, and \<open>random(32)\<close>, here with the character
  codes it gives, read in Netscape 4 only; \<open>rnd t\<close> is the value of
  \<open>Math.floor(65536 * Math.random())\<close> at the draw for position \<open>t\<close>.
\<close>

record window_crypto =
  getRandomValues :: "int list option"
  random32 :: "int list"

definition below_five :: "string \<Rightarrow> bool" where
  \<comment> \<open>navigator.appVersion < "5", compared as strings\<close>
  "below_five v = (case v of [] \<Rightarrow> True | c # _ \<Rightarrow> (of_char c :: int) < of_char (CHR ''5''))"

definition push_byte :: "int \<Rightarrow> rng \<Rightarrow> rng" where
  "push_byte b g = g\<lparr>rng_pool := put (rng_pool g) (rng_pptr g) b, rng_pptr := rng_pptr g + 1\<rparr>"

function rng_fill :: "(nat \<Rightarrow> int) \<Rightarrow> rng \<Rightarrow> rng" where
  \<comment> \<open>while(rng_pptr < rng_psize) { .. }\<close>
  "rng_fill rnd g =
     (if rng_pptr g < rng_psize
      then let t = rnd (rng_pptr g)
           in rng_fill rnd (push_byte (js_and t 255) (push_byte (js_shr t 8) g))
      else g)"
  by auto
termination
  by (relation "measure (\<lambda>(_, g). rng_psize - rng_pptr g)") (auto simp: push_byte_def Let_def)

definition rng_load :: "string \<Rightarrow> string \<Rightarrow> window_crypto option \<Rightarrow> (nat \<Rightarrow> int) \<Rightarrow> int \<Rightarrow> rng" where
  "rng_load appName appVersion crypto rnd now =
     (let g = \<lparr>rng_state = None, rng_pool = [], rng_pptr = 0\<rparr>;
          g = (case crypto \<bind> getRandomValues of
                 None \<Rightarrow> g
               | Some ua \<Rightarrow> for_up 0 32 (\<lambda>t. push_byte (get ua t)) g);
          g = (case crypto of
                 None \<Rightarrow> g
               | Some c \<Rightarrow>
                   if appName = ''Netscape'' \<and> below_five appVersion
                   then for_up 0 (length (random32 c)) (\<lambda>t. push_byte (js_and (get (random32 c) t) 255)) g
                   else g);
          g = rng_fill rnd g;
          g = g\<lparr>rng_pptr := 0\<rparr>
      in rng_seed_time now g)"

definition rng_start :: "int \<Rightarrow> rng \<Rightarrow> arcfour \<times> rng" where
  \<comment> \<open>if(rng_state == null) { .. }, the state then being an object\<close>
  "rng_start now g =
     (case rng_state g of
        Some s \<Rightarrow> (s, g)
      | None \<Rightarrow>
          let g = rng_seed_time now g;
              s = ARC4init (rng_pool g) prng_newstate;
              g = g\<lparr>rng_pool := for_up 0 (length (rng_pool g)) (\<lambda>p w. put w p 0) (rng_pool g)\<rparr>
          in (s, g\<lparr>rng_pptr := 0\<rparr>))"

definition rng_get_byte :: "int \<Rightarrow> rng \<Rightarrow> int \<times> rng" where
  "rng_get_byte now g =
     (let (s, g) = rng_start now g;
          (b, s) = ARC4next s
      in (b, g\<lparr>rng_state := Some s\<rparr>))"

definition rng_get_bytes :: "int \<Rightarrow> int list \<Rightarrow> rng \<Rightarrow> int list \<times> rng" where
  "rng_get_bytes now ba g =
     for_up 0 (length ba) (\<lambda>i (ba, g). let (b, g) = rng_get_byte now g in (put ba i b, g)) (ba, g)"

section \<open>Arcfour keeps a permutation\<close>

definition byte_values :: "int list" where
  "byte_values = map int [0..<256]"

definition arc_ok :: "arcfour \<Rightarrow> bool" where
  "arc_ok a \<longleftrightarrow> mset (arc_S a) = mset byte_values \<and> 0 \<le> arc_i a \<and> arc_i a < 256 \<and> 0 \<le> arc_j a \<and> arc_j a < 256"

lemma mask255: "js_and x 255 = x mod 256"
  using js_and_mask [of 8 x] by simp

lemma perm_facts:
  assumes "mset S = mset byte_values"
  shows "length S = 256" "\<forall>b \<in> set S. 0 \<le> b \<and> b < 256"
proof -
  show "length S = 256" using mset_eq_length [OF assms] by (simp only: byte_values_def length_map length_upt)
  have "set S = int ` {0..<256}" using mset_eq_setD [OF assms] by (simp only: byte_values_def set_map set_upt)
  then show "\<forall>b \<in> set S. 0 \<le> b \<and> b < 256" by auto
qed

lemma get_nth: "i < length S \<Longrightarrow> get S i = S ! i"
  by (simp add: get_def)

lemma byte_range:
  assumes "mset S = mset byte_values" "0 \<le> i" "i < 256"
  shows "0 \<le> byte_at S i" "byte_at S i < 256"
proof -
  have "nat i < length S" using perm_facts(1) [OF assms(1)] assms(2,3) by simp
  then have "byte_at S i \<in> set S" by (simp add: byte_at_def get_nth)
  then show "0 \<le> byte_at S i" "byte_at S i < 256" using perm_facts(2) [OF assms(1)] by auto
qed

lemma swap_perm:
  assumes "mset S = mset byte_values" "0 \<le> i" "i < 256" "0 \<le> j" "j < 256"
  shows "mset (swap_bytes S i j) = mset byte_values"
proof -
  have l: "nat i < length S" "nat j < length S" using perm_facts(1) [OF assms(1)] assms(2-) by auto
  have "swap_bytes S i j = S[nat i := S ! nat j, nat j := S ! nat i]"
    using l by (simp add: swap_bytes_def byte_at_def put_def get_nth)
  then show ?thesis using mset_swap [OF l(2,1)] assms(1) by simp
qed

lemma put_ramp:
  assumes "i < 256" "i \<le> length S" "length S \<le> 256" "\<And>k. k < i \<Longrightarrow> S ! k = int k"
  shows "Suc i \<le> length (put S i (int i))" "length (put S i (int i)) \<le> 256"
    "k < Suc i \<Longrightarrow> put S i (int i) ! k = int k"
  using assms by (auto simp: put_def nth_append less_Suc_eq)

definition ramp :: "nat \<Rightarrow> int list \<Rightarrow> bool" where
  "ramp i S \<longleftrightarrow> i \<le> length S \<and> length S \<le> 256 \<and> (\<forall>k < i. S ! k = int k)"

lemma ramp_full: "ramp 256 S \<Longrightarrow> S = byte_values"
proof (rule nth_equalityI)
  assume r: "ramp 256 S"
  have l: "length byte_values = 256" by (simp only: byte_values_def length_map length_upt diff_zero)
  with r show "length S = length byte_values" by (simp add: ramp_def)
  show "S ! i = byte_values ! i" if "i < length S" for i
  proof -
    have i: "i < 256" using that r by (simp add: ramp_def)
    then have "byte_values ! i = int ([0..<256] ! i)"
      unfolding byte_values_def by (intro nth_map) (simp only: length_upt diff_zero)
    also have "[0..<256] ! i = i" using i by (subst nth_upt) (simp_all only: add_0)
    finally show ?thesis using r i by (simp add: ramp_def)
  qed
qed

lemma ramp_loop: "length S \<le> 256 \<Longrightarrow> for_up 0 256 (\<lambda>i S. put S i (int i)) S = byte_values"
proof (rule ramp_full, rule for_up_inv [where P = ramp])
  show "ramp 0 S" if "length S \<le> 256" using that by (simp add: ramp_def)
  show "ramp (Suc i) (put T i (int i))" if "i < 256" "ramp i T" for i T
    using that put_ramp [of i T] unfolding ramp_def by blast
qed simp_all

lemma ARC4init_ok: "length (arc_S a) \<le> 256 \<Longrightarrow> arc_ok (ARC4init key a)"
proof -
  assume "length (arc_S a) \<le> 256"
  then have S0: "for_up 0 256 (\<lambda>i S. put S i (int i)) (arc_S a) = byte_values" by (rule ramp_loop)
  define f where "f = (\<lambda>i (j, S). let j = js_and (j + get S i + get key (i mod length key)) 255
                in (j, swap_bytes S (int i) j))"
  have "mset (snd (for_up 0 256 f (0, byte_values))) = mset byte_values"
  proof (rule for_up_inv [where P = "\<lambda>i js. mset (snd js) = mset byte_values"])
    show "mset (snd (f i js)) = mset byte_values" if "i < 256" "mset (snd js) = mset byte_values" for i js
      using that swap_perm by (cases js) (simp add: f_def Let_def mask255)
  qed simp_all
  moreover have "ARC4init key a = a\<lparr>arc_S := snd (for_up 0 256 f (0, byte_values)), arc_i := 0, arc_j := 0\<rparr>"
    unfolding ARC4init_def S0 f_def Let_def by (simp only: case_prod_beta)
  ultimately show ?thesis by (simp add: arc_ok_def)
qed

lemma ARC4next_ok:
  assumes "arc_ok a" "ARC4next a = (b, a')"
  shows "arc_ok a'" "0 \<le> b" "b < 256"
proof -
  let ?i = "(arc_i a + 1) mod 256" let ?j = "(arc_j a + byte_at (arc_S a) ?i) mod 256"
  have m: "mset (arc_S a) = mset byte_values" using assms(1) by (simp add: arc_ok_def)
  have s: "mset (swap_bytes (arc_S a) ?i ?j) = mset byte_values" using m by (rule swap_perm) simp_all
  define S' where "S' = swap_bytes (arc_S a) ?i ?j"
  have r: "a' = a\<lparr>arc_i := ?i, arc_j := ?j, arc_S := S'\<rparr>" "b = byte_at S' ((byte_at (arc_S a) ?i + byte_at S' ?i) mod 256)"
    using assms(2) by (simp_all add: ARC4next_def Let_def mask255 S'_def)
  have s': "mset S' = mset byte_values" using s by (simp only: S'_def)
  show "arc_ok a'" using s' by (simp add: r(1) arc_ok_def)
  show "0 \<le> b" "b < 256" unfolding r(2) by (rule byte_range [OF s']; simp)+
qed

section \<open>The generator\<close>

text \<open>The pool is 256 bytes and the pointer is aligned, so that mixing in four bytes stays inside.\<close>

definition rng_ok :: "rng \<Rightarrow> bool" where
  "rng_ok g \<longleftrightarrow> length (rng_pool g) = rng_psize \<and> rng_pptr g < rng_psize \<and> 4 dvd rng_pptr g \<and>
     (\<forall>b \<in> set (rng_pool g). 0 \<le> b \<and> b < 256) \<and> (case rng_state g of None \<Rightarrow> True | Some a \<Rightarrow> arc_ok a)"

lemma js_xor_byte:
  assumes "0 \<le> a" "a < 256" "0 \<le> b" "b < 256"
  shows "0 \<le> js_xor a b" "js_xor a b < 256"
proof -
  have "js_xor a b = a XOR b" using assms by (simp add: js_xor_def)
  moreover have "take_bit 8 (a XOR b) = a XOR b"
    using assms by (simp add: take_bit_xor take_bit_int_eq_self)
  ultimately have "js_xor a b = (a XOR b) mod 256" by (simp add: take_bit_eq_mod)
  then show "0 \<le> js_xor a b" "js_xor a b < 256" by simp_all
qed

text \<open>A full pool of bytes, which is what every write inside it keeps.\<close>

definition byte_pool :: "int list \<Rightarrow> bool" where
  "byte_pool w \<longleftrightarrow> length w = rng_psize \<and> (\<forall>b \<in> set w. 0 \<le> b \<and> b < 256)"

lemma put_bytes:
  assumes "byte_pool w" "i < rng_psize" "0 \<le> v" "v < 256"
  shows "byte_pool (put w i v)"
  using assms by (auto simp: byte_pool_def put_def dest: set_update_subset_insert [THEN subsetD])

lemma pool_get:
  assumes "byte_pool w" "i < rng_psize"
  shows "0 \<le> get w i" "get w i < 256"
  using assms by (auto simp: byte_pool_def get_def)

lemma rng_ok_iff:
  "rng_ok g \<longleftrightarrow> byte_pool (rng_pool g) \<and> rng_pptr g < rng_psize \<and> 4 dvd rng_pptr g \<and>
     (case rng_state g of None \<Rightarrow> True | Some a \<Rightarrow> arc_ok a)"
  by (auto simp: rng_ok_def byte_pool_def)

lemma mix_ok:
  assumes "byte_pool (rng_pool g)" "rng_pptr g < rng_psize"
  shows "byte_pool (rng_pool (mix (js_and v 255) g))"
    "rng_pptr (mix (js_and v 255) g) = rng_pptr g + 1" "rng_state (mix (js_and v 255) g) = rng_state g"
proof -
  have "byte_pool (put (rng_pool g) (rng_pptr g) (js_xor (get (rng_pool g) (rng_pptr g)) (js_and v 255)))"
    by (intro put_bytes assms js_xor_byte pool_get) (simp_all add: mask255)
  then show "byte_pool (rng_pool (mix (js_and v 255) g))" by (simp add: mix_def)
qed (simp_all add: mix_def)

lemma rng_seed_int_ok: "rng_ok g \<Longrightarrow> rng_ok (rng_seed_int x g)"
proof -
  assume g: "rng_ok g"
  define g1 g2 g3 g4 where "g1 = mix (js_and x 255) g" and "g2 = mix (js_and (js_sar x 8) 255) g1"
    and "g3 = mix (js_and (js_sar x 16) 255) g2" and "g4 = mix (js_and (js_sar x 24) 255) g3"
  from g obtain k where k: "rng_pptr g = 4 * k" "k < 64" "byte_pool (rng_pool g)"
    by (auto simp: rng_ok_iff rng_psize_def elim: dvdE)
  have p1: "byte_pool (rng_pool g1)" "rng_pptr g1 = 4 * k + 1" "rng_state g1 = rng_state g"
    using mix_ok [of g x] k by (simp_all add: g1_def rng_psize_def)
  have p2: "byte_pool (rng_pool g2)" "rng_pptr g2 = 4 * k + 2" "rng_state g2 = rng_state g"
    using mix_ok [of g1 "js_sar x 8"] p1 k(2) by (simp_all add: g2_def rng_psize_def)
  have p3: "byte_pool (rng_pool g3)" "rng_pptr g3 = 4 * k + 3" "rng_state g3 = rng_state g"
    using mix_ok [of g2 "js_sar x 16"] p2 k(2) by (simp_all add: g3_def rng_psize_def)
  have p4: "byte_pool (rng_pool g4)" "rng_pptr g4 = 4 * k + 4" "rng_state g4 = rng_state g"
    using mix_ok [of g3 "js_sar x 24"] p3 k(2) by (simp_all add: g4_def rng_psize_def)
  have r: "rng_seed_int x g = (if rng_pptr g4 \<ge> rng_psize then g4\<lparr>rng_pptr := rng_pptr g4 - rng_psize\<rparr> else g4)"
    unfolding rng_seed_int_def Let_def g1_def g2_def g3_def g4_def by (rule refl)
  have s: "case rng_state g of None \<Rightarrow> True | Some a \<Rightarrow> arc_ok a" using g by (simp add: rng_ok_iff)
  show ?thesis
  proof (cases "k = 63")
    case True
    then show ?thesis unfolding r using p4 s by (simp add: rng_ok_iff rng_psize_def)
  next
    case False
    then show ?thesis unfolding r using p4 s k(2) by (simp add: rng_ok_iff rng_psize_def)
  qed
qed

lemma wipe_ok: "byte_pool w \<Longrightarrow> byte_pool (for_up 0 (length w) (\<lambda>p w. put w p 0) w)"
  by (rule for_up_inv [where P = "\<lambda>_. byte_pool"]) (auto intro: put_bytes simp: byte_pool_def [of w])

lemma rng_start_ok:
  assumes g: "rng_ok g" and r: "rng_start now g = (a, g')"
  shows "rng_ok g'" "arc_ok a"
proof -
  have seed: "rng_ok (rng_seed_time now g)" using rng_seed_int_ok [OF g] by (simp add: rng_seed_time_def)
  have "arc_ok (ARC4init key prng_newstate)" for key
    by (rule ARC4init_ok) (simp add: prng_newstate_def Arcfour_def)
  then show "rng_ok g'" "arc_ok a"
    using g seed wipe_ok [of "rng_pool (rng_seed_time now g)"] r
    by (auto simp: rng_start_def Let_def rng_ok_iff rng_psize_def split: option.splits)
qed

lemma rng_get_byte_ok:
  assumes g: "rng_ok g" and r: "rng_get_byte now g = (b, g')"
  shows "rng_ok g'" "0 \<le> b" "b < 256" "rng_state g' \<noteq> None"
proof -
  obtain a g1 where s: "rng_start now g = (a, g1)" by fastforce
  obtain c a' where n: "ARC4next a = (c, a')" by fastforce
  note start = rng_start_ok [OF g s]
  have "b = c" "g' = g1\<lparr>rng_state := Some a'\<rparr>" using r by (simp_all add: rng_get_byte_def s n)
  then show "rng_ok g'" "0 \<le> b" "b < 256" "rng_state g' \<noteq> None"
    using start(1) ARC4next_ok [OF start(2) n] by (simp_all add: rng_ok_iff)
qed

text \<open>Loading the page leaves a well-formed generator, whatever the sources of entropy give.\<close>

definition filling :: "nat \<Rightarrow> rng \<Rightarrow> bool" where
  \<comment> \<open>the pool holds its first \<open>n\<close> bytes\<close>
  "filling n g \<longleftrightarrow> rng_pptr g = n \<and> length (rng_pool g) = n \<and> rng_state g = None \<and>
     (\<forall>b \<in> set (rng_pool g). 0 \<le> b \<and> b < 256)"

lemma push_filling: "filling n g \<Longrightarrow> 0 \<le> b \<Longrightarrow> b < 256 \<Longrightarrow> filling (Suc n) (push_byte b g)"
  by (auto simp: filling_def push_byte_def put_def)

lemma rng_fill_ok:
  assumes "filling (2 * n) g" "n \<le> 128" "\<And>t. 0 \<le> rnd t \<and> rnd t < 65536"
  shows "filling 256 (rng_fill rnd g)"
  using assms
proof (induction rnd g arbitrary: n rule: rng_fill.induct)
  case (1 rnd g)
  define g' where "g' = push_byte (js_and (rnd (rng_pptr g)) 255) (push_byte (js_shr (rnd (rng_pptr g)) 8) g)"
  have p: "rng_pptr g = 2 * n" using "1.prems"(1) by (simp add: filling_def)
  show ?case
  proof (cases "n < 128")
    case True
    let ?t = "rnd (rng_pptr g)"
    have t: "0 \<le> ?t" "?t < 65536" using "1.prems"(3) by auto
    then have "js_shr ?t 8 = ?t div 256" by (subst js_shr_div) simp_all
    then have "filling (Suc (2 * n)) (push_byte (js_shr ?t 8) g)" using t "1.prems"(1) by (intro push_filling) auto
    then have "filling (Suc (Suc (2 * n))) g'" unfolding g'_def by (rule push_filling) (simp_all add: mask255)
    then have "filling (2 * Suc n) g'" by simp
    moreover have less: "rng_pptr g < rng_psize" using True p by (simp add: rng_psize_def)
    ultimately have "filling 256 (rng_fill rnd g')"
      using "1.IH" [OF less refl, folded g'_def, of "Suc n"] "1.prems"(3) True by simp
    then show ?thesis using less by (subst rng_fill.simps) (simp add: Let_def g'_def)
  next
    case False
    then have "n = 128" using "1.prems"(2) by simp
    then show ?thesis using "1.prems"(1) p by (subst rng_fill.simps) (simp add: rng_psize_def)
  qed
qed

lemma fill_loop:
  assumes "filling n g" "\<And>t. t < m \<Longrightarrow> 0 \<le> f t \<and> f t < 256"
  shows "filling (n + m) (for_up 0 m (\<lambda>t. push_byte (f t)) g)"
  using for_up_inv [of 0 m "\<lambda>t. filling (n + t)" g "\<lambda>t. push_byte (f t)"] assms push_filling by simp

lemma rng_load_ok:
  assumes "\<And>c ua. crypto = Some c \<Longrightarrow> getRandomValues c = Some ua \<Longrightarrow> \<forall>t < 32. 0 \<le> get ua t \<and> get ua t < 256"
    and "\<And>c. crypto = Some c \<Longrightarrow> length (random32 c) = 32" and "\<And>t. 0 \<le> rnd t \<and> rnd t < 65536"
  shows "rng_ok (rng_load appName appVersion crypto rnd now)"
proof -
  define g0 where "g0 = \<lparr>rng_state = None, rng_pool = [], rng_pptr = 0\<rparr>"
  define g1 where "g1 = (case crypto \<bind> getRandomValues of
                 None \<Rightarrow> g0
               | Some ua \<Rightarrow> for_up 0 32 (\<lambda>t. push_byte (get ua t)) g0)"
  define g2 where "g2 = (case crypto of
                 None \<Rightarrow> g1
               | Some c \<Rightarrow>
                   if appName = ''Netscape'' \<and> below_five appVersion
                   then for_up 0 (length (random32 c)) (\<lambda>t. push_byte (js_and (get (random32 c) t) 255)) g1
                   else g1)"
  have f0: "filling (2 * 0) g0" by (simp add: filling_def g0_def)
  have "\<exists>n. filling (2 * n) g1 \<and> n \<le> 16"
  proof (cases "crypto \<bind> getRandomValues")
    case None
    then have "g1 = g0" by (simp add: g1_def)
    then show ?thesis using f0 by (intro exI [of _ 0]) simp
  next
    case (Some ua)
    then have "\<forall>t < 32. 0 \<le> get ua t \<and> get ua t < 256" using assms(1) by (cases crypto) auto
    then have "filling (2 * 0 + 32) g1" unfolding g1_def Some option.case by (intro fill_loop f0) blast
    then show ?thesis by (intro exI [of _ 16]) simp
  qed
  then obtain n where f1: "filling (2 * n) g1" "n \<le> 16" by blast
  have "\<exists>n. filling (2 * n) g2 \<and> n \<le> 32"
  proof (cases "\<exists>c. crypto = Some c \<and> appName = ''Netscape'' \<and> below_five appVersion")
    case False
    then have "g2 = g1" by (auto simp: g2_def split: option.split)
    then show ?thesis using f1 by (intro exI [of _ n]) simp
  next
    case True
    then obtain c where c: "crypto = Some c" "appName = ''Netscape''" "below_five appVersion" by blast
    have "g2 = for_up 0 32 (\<lambda>t. push_byte (js_and (get (random32 c) t) 255)) g1"
      using c assms(2) by (simp add: g2_def)
    moreover have "filling (2 * n + 32) (for_up 0 32 (\<lambda>t. push_byte (js_and (get (random32 c) t) 255)) g1)"
      by (rule fill_loop [OF f1(1)]) (simp add: mask255)
    ultimately show ?thesis using f1(2) by (intro exI [of _ "n + 16"]) simp
  qed
  then obtain m where "filling (2 * m) g2" "m \<le> 32" by blast
  then have "filling 256 (rng_fill rnd g2)" using assms(3) by (intro rng_fill_ok) auto
  then have "rng_ok ((rng_fill rnd g2)\<lparr>rng_pptr := 0\<rparr>)" by (simp add: filling_def rng_ok_def rng_psize_def)
  then have "rng_ok (rng_seed_time now ((rng_fill rnd g2)\<lparr>rng_pptr := 0\<rparr>))"
    unfolding rng_seed_time_def by (rule rng_seed_int_ok)
  then show ?thesis unfolding rng_load_def Let_def g0_def [symmetric] g1_def [symmetric] g2_def [symmetric] .
qed

end
