(* ===== verification/Js_Text.thy ===== *)
theory Js_Text
  imports Prelude
begin

text \<open>
  What the components use of JavaScript's strings and of its number syntax: the positional
  operations, \<open>parseInt\<close> and \<open>toString\<close> for radix 16. A string is a list of characters here;
  components that read character codes take the list of code units.
\<close>

section \<open>Positions\<close>

definition substring :: "nat \<Rightarrow> nat \<Rightarrow> 'a list \<Rightarrow> 'a list" where
  \<comment> \<open>s.substring(i, j) for i \<open>\<le>\<close> j\<close>
  "substring i j s = take (j - i) (drop i s)"

definition charAt :: "'a list \<Rightarrow> int \<Rightarrow> 'a list" where
  \<comment> \<open>s.charAt(i): the empty string outside the string\<close>
  "charAt s i = (if 0 \<le> i \<and> i < int (length s) then [s ! nat i] else [])"

fun index_of :: "'a \<Rightarrow> 'a list \<Rightarrow> int" where
  \<comment> \<open>s.indexOf(c) for one character\<close>
  "index_of c [] = -1"
| "index_of c (x # xs) = (if x = c then 0 else (let i = index_of c xs in if i < 0 then -1 else i + 1))"

lemma substring_append: "i \<le> length s \<Longrightarrow> take i s @ substring i (length s) s = s"
  by (simp add: substring_def)

lemma index_of_nth:
  assumes "distinct s" "i < length s"
  shows "index_of (s ! i) s = int i"
  using assms by (induction s arbitrary: i) (auto simp: nth_Cons' Let_def)

lemma index_of_less: "index_of c s < int (length s)"
  by (induction s) (auto simp: Let_def)

lemma index_of_neg: "index_of c s < 0 \<longleftrightarrow> c \<notin> set s"
  by (induction s) (auto simp: Let_def)

lemma index_of_charAt: "0 \<le> index_of c s \<Longrightarrow> charAt s (index_of c s) = [c]"
proof (induction s)
  case (Cons x s)
  then have "index_of c s < int (length s)" by (intro index_of_less)
  with Cons show ?case by (auto simp: Let_def charAt_def nat_add_distrib split: if_splits)
qed simp

section \<open>Hexadecimal numbers\<close>

definition hex_digit :: "char \<Rightarrow> int option" where
  "hex_digit c =
     (let n = (of_char c :: int)
      in if 48 \<le> n \<and> n \<le> 57 then Some (n - 48)
         else if 97 \<le> n \<and> n \<le> 102 then Some (n - 87)
         else if 65 \<le> n \<and> n \<le> 70 then Some (n - 55)
         else None)"

definition is_white :: "char \<Rightarrow> bool" where
  "is_white c \<longleftrightarrow> (of_char c :: nat) \<in> {9, 10, 11, 12, 13, 32, 160}"

fun hex_prefix :: "string \<Rightarrow> int list" where
  "hex_prefix [] = []"
| "hex_prefix (c # cs) = (case hex_digit c of None \<Rightarrow> [] | Some d \<Rightarrow> d # hex_prefix cs)"

definition hex_value :: "int list \<Rightarrow> int" where
  "hex_value ds = foldl (\<lambda>v d. v * 16 + d) 0 ds"

text \<open>
  \<open>parseInt(s, 16)\<close>: white space, a sign, \<open>0x\<close>, then the longest run of digits; \<open>None\<close> is NaN. The
  value is the exact one, which a double holds below 2 ^ 53.
\<close>

definition parseInt16 :: "string \<Rightarrow> int option" where
  "parseInt16 s =
     (let s = dropWhile is_white s;
          (neg, s) = (case s of CHR ''-'' # r \<Rightarrow> (True, r) | CHR ''+'' # r \<Rightarrow> (False, r) | _ \<Rightarrow> (False, s));
          s = (case s of CHR ''0'' # c # r \<Rightarrow> if c = CHR ''x'' \<or> c = CHR ''X'' then r else s | _ \<Rightarrow> s);
          ds = hex_prefix s
      in if ds = [] then None else Some (if neg then - hex_value ds else hex_value ds))"

definition hex_char :: "int \<Rightarrow> char" where
  "hex_char d = ''0123456789abcdef'' ! nat d"

function hex_digits :: "int \<Rightarrow> string" where
  "hex_digits n = (if n < 16 then [hex_char n] else hex_digits (n div 16) @ [hex_char (n mod 16)])"
  by auto
termination by (relation "measure nat") auto

declare hex_digits.simps [simp del]

definition toString16 :: "int \<Rightarrow> string" where
  \<comment> \<open>n.toString(16) for an integer\<close>
  "toString16 n = (if n < 0 then CHR ''-'' # hex_digits (- n) else hex_digits n)"

text \<open>Two digits for each byte.\<close>

definition hex_of_bytes :: "int list \<Rightarrow> string" where
  "hex_of_bytes bs = concat (map (\<lambda>b. map hex_char [b div 16, b mod 16]) bs)"

definition lower_hex :: "char \<Rightarrow> bool" where
  "lower_hex c \<longleftrightarrow> c \<in> set ''0123456789abcdef''"

lemma sixteen_cases:
  assumes "0 \<le> d" "d < (16::int)"
  shows "d = 0 \<or> d = 1 \<or> d = 2 \<or> d = 3 \<or> d = 4 \<or> d = 5 \<or> d = 6 \<or> d = 7 \<or> d = 8 \<or> d = 9
    \<or> d = 10 \<or> d = 11 \<or> d = 12 \<or> d = 13 \<or> d = 14 \<or> d = 15"
  using assms by presburger

lemma hex_digit_char: "0 \<le> d \<Longrightarrow> d < 16 \<Longrightarrow> hex_digit (hex_char d) = Some d"
  by (drule (1) sixteen_cases) (elim disjE; simp add: hex_digit_def hex_char_def)

lemma hex_char_lower: "0 \<le> d \<Longrightarrow> d < 16 \<Longrightarrow> lower_hex (hex_char d)"
  by (drule (1) sixteen_cases) (elim disjE; simp add: lower_hex_def hex_char_def)

lemma lower_hex_digit:
  assumes "lower_hex c"
  obtains d where "0 \<le> d" "d < 16" "c = hex_char d" "hex_digit c = Some d"
proof -
  have "length ''0123456789abcdef'' = 16" by simp
  with assms obtain i where i: "i < 16" "c = ''0123456789abcdef'' ! i"
    unfolding lower_hex_def in_set_conv_nth by metis
  have "c = hex_char (int i)" unfolding hex_char_def nat_int by (rule i(2))
  with i(1) hex_digit_char [of "int i"] show ?thesis by (intro that [of "int i"]) simp_all
qed

section \<open>Absent values\<close>

text \<open>A property that may be missing is an option: \<open>None\<close> is undefined (or null).\<close>

definition truthy :: "string option \<Rightarrow> bool" where
  \<comment> \<open>a string attribute in a condition: absent and empty are both false\<close>
  "truthy a \<longleftrightarrow> (case a of None \<Rightarrow> False | Some s \<Rightarrow> s \<noteq> '''')"

definition js_string :: "string option \<Rightarrow> string" where
  \<comment> \<open>the value in a concatenation\<close>
  "js_string a = (case a of None \<Rightarrow> ''undefined'' | Some s \<Rightarrow> s)"

definition blank :: "string option \<Rightarrow> bool" where
  \<comment> \<open>v == null || v == ""\<close>
  "blank a \<longleftrightarrow> a = None \<or> a = Some ''''"

definition setting :: "'a option \<Rightarrow> 'a \<Rightarrow> 'a" where
  \<comment> \<open>a field of $.extend(defaults, settings): undefined does not override\<close>
  "setting a d = (case a of None \<Rightarrow> d | Some v \<Rightarrow> v)"

definition quoted :: "string \<Rightarrow> string" where
  "quoted s = CHR 0x27 # s @ [CHR 0x27]"

lemma truthy_simps [simp]: "\<not> truthy None" "truthy (Some s) \<longleftrightarrow> s \<noteq> ''''"
  by (simp_all add: truthy_def)

lemma truthy_iff: "truthy a \<longleftrightarrow> \<not> blank a"
  by (cases a) (simp_all add: blank_def)

lemma js_string_simps [simp]: "js_string None = ''undefined''" "js_string (Some s) = s"
  by (simp_all add: js_string_def)

lemma setting_simps [simp]: "setting None d = d" "setting (Some v) d = v"
  by (simp_all add: setting_def)


section \<open>Case, parts, decimal numbers\<close>

definition lower_char :: "char \<Rightarrow> char" where
  \<comment> \<open>the letters among the first 256 code points\<close>
  "lower_char c =
     (let n = (of_char c :: nat)
      in if 65 \<le> n \<and> n \<le> 90 \<or> 192 \<le> n \<and> n \<le> 222 \<and> n \<noteq> 215 then char_of (n + 32) else c)"

definition toLowerCase :: "string \<Rightarrow> string" where
  "toLowerCase s = map lower_char s"

definition last_index_of :: "'a \<Rightarrow> 'a list \<Rightarrow> int" where
  \<comment> \<open>s.lastIndexOf(c) for one character\<close>
  "last_index_of c s = (if c \<in> set s then int (length s) - 1 - index_of c (rev s) else -1)"

fun contains :: "'a list \<Rightarrow> 'a list \<Rightarrow> bool" where
  \<comment> \<open>s.indexOf(v) > -1\<close>
  "contains v [] \<longleftrightarrow> v = []"
| "contains v (x # xs) \<longleftrightarrow> take (length v) (x # xs) = v \<or> contains v xs"

fun split_on :: "'a \<Rightarrow> 'a list \<Rightarrow> 'a list list" where
  \<comment> \<open>s.split(c) for one character\<close>
  "split_on c [] = [[]]"
| "split_on c (x # xs) =
     (if x = c then [] # split_on c xs
      else case split_on c xs of [] \<Rightarrow> [[x]] | p # ps \<Rightarrow> (x # p) # ps)"

fun join_with :: "'a list \<Rightarrow> 'a list list \<Rightarrow> 'a list" where
  \<comment> \<open>ps.join(sep)\<close>
  "join_with sep [] = []"
| "join_with sep [p] = p"
| "join_with sep (p # q # ps) = p @ sep @ join_with sep (q # ps)"

definition replace_char :: "char \<Rightarrow> string \<Rightarrow> string \<Rightarrow> string" where
  \<comment> \<open>s.replace(/c/g, r) for one character\<close>
  "replace_char c r s = concat (map (\<lambda>x. if x = c then r else [x]) s)"

fun decimal :: "nat \<Rightarrow> string" where
  \<comment> \<open>a number in a concatenation\<close>
  "decimal n = (if n < 10 then [char_of (48 + n)] else decimal (n div 10) @ [char_of (48 + n mod 10)])"

declare decimal.simps [simp del]

end
