(* ===== verification/Rsa.thy ===== *)
theory Rsa
  imports Bn_String Prng Js_Text
begin

text \<open>
  RSA encryption with PKCS#1 type 2 padding (encrypt/rsa.js), on the big integers of jsbn and the
  Arcfour generator. A text is the list of its UTF-16 code units. The clock is read once, when the
  generator starts, and is an argument.
\<close>

section \<open>The operations\<close>

text \<open>What a call that does not produce its value does: an exception, or an alert and \<open>null\<close>.\<close>

datatype rsa_error = Type_Error | Alert string

definition parseBigInt :: "bnproto \<Rightarrow> string \<Rightarrow> nat \<Rightarrow> bn option" where
  "parseBigInt E str r = parse_string E str r"

partial_function (option) linebrk_loop :: "'a list \<Rightarrow> nat \<Rightarrow> nat \<Rightarrow> 'a list \<Rightarrow> 'a \<Rightarrow> (nat \<times> 'a list) option" where
  "linebrk_loop s n i ret nl =
     (if i + n < length s
      then linebrk_loop s n (i + n) (ret @ substring i (i + n) s @ [nl]) nl
      else Some (i, ret))"

definition linebrk :: "string \<Rightarrow> nat \<Rightarrow> string option" where
  \<comment> \<open>\<open>None\<close>: the loop does not end\<close>
  "linebrk s n =
     Option.bind (linebrk_loop s n 0 [] (CHR 0x0A)) (\<lambda>(i, ret). Some (ret @ substring i (length s) s))"

definition byte2Hex :: "int \<Rightarrow> string" where
  "byte2Hex b = (if b < 0x10 then ''0'' @ toString16 b else toString16 b)"

text \<open>
  The array of bytes is filled from its end. An index below 0 names a property that nothing
  reads, so that such a write has no effect.
\<close>

definition ba_put :: "int list \<Rightarrow> int \<Rightarrow> int \<Rightarrow> int list" where
  "ba_put ba i v = (if i < 0 then ba else put ba (nat i) v)"

definition put_unit :: "int \<Rightarrow> int list \<times> int \<Rightarrow> int list \<times> int" where
  \<comment> \<open>one code unit of the text, encoded in UTF-8\<close>
  "put_unit c st =
     (let (ba, n) = st
      in if c < 128 then (ba_put ba (n - 1) c, n - 1)
         else if c > 127 \<and> c < 2048 then
           (let ba = ba_put ba (n - 1) (js_or (js_and c 63) 128);
                ba = ba_put ba (n - 2) (js_or (js_sar c 6) 192)
            in (ba, n - 2))
         else
           (let ba = ba_put ba (n - 1) (js_or (js_and c 63) 128);
                ba = ba_put ba (n - 2) (js_or (js_and (js_sar c 6) 63) 128);
                ba = ba_put ba (n - 3) (js_or (js_sar c 12) 224)
            in (ba, n - 3)))"

fun pad_text :: "int list \<Rightarrow> int list \<times> int \<Rightarrow> int list \<times> int" where
  \<comment> \<open>while(i >= 0 && n > 0), over the units from the last to the first\<close>
  "pad_text [] st = st"
| "pad_text (c # cs) st = (if snd st > 0 then pad_text cs (put_unit c st) else st)"

partial_function (option) rng_nonzero :: "int \<Rightarrow> rng \<Rightarrow> (int \<times> rng) option" where
  \<comment> \<open>x[0] = 0; while(x[0] == 0) rng.nextBytes(x);\<close>
  "rng_nonzero now g =
     (let (x, g) = rng_get_bytes now [0] g
      in if get x 0 = 0 then rng_nonzero now g else Some (get x 0, g))"

function pad_random :: "int \<Rightarrow> int list \<Rightarrow> int \<Rightarrow> rng \<Rightarrow> (int list \<times> int \<times> rng) option" where
  "pad_random now ba n g =
     (if n > 2 then
        (case rng_nonzero now g of
           None \<Rightarrow> None
         | Some (x, g) \<Rightarrow> pad_random now (ba_put ba (n - 1) x) (n - 1) g)
      else Some (ba, n, g))"
  by auto
termination by (relation "measure (\<lambda>(now, ba, n, g). nat n)") auto

declare pad_random.simps [simp del]

definition pkcs1pad2 :: "bnproto \<Rightarrow> int \<Rightarrow> int list \<Rightarrow> int \<Rightarrow> rng \<Rightarrow> ((rsa_error + bn) \<times> rng) option" where
  "pkcs1pad2 E now s n g =
     (if n < int (length s) + 11 then Some (Inl (Alert ''Message too long for RSA''), g)
      else
        let (ba, n) = pad_text (rev s) ([], n);
            ba = ba_put ba (n - 1) 0
        in case pad_random now ba (n - 1) g of
             None \<Rightarrow> None
           | Some (ba, n, g) \<Rightarrow>
               let ba = ba_put ba (n - 1) 2;
                   ba = ba_put ba (n - 2) 0
               in Option.bind (parse_bytes E ba) (\<lambda>m. Some (Inr m, g)))"

text \<open>The key. The private fields stay \<open>null\<close>; the exponent is \<open>None\<close> when it is NaN.\<close>

record rsa_key =
  rsa_n :: "bn option"
  rsa_e :: "int option"
  rsa_d :: "bn option"
  rsa_p :: "bn option"
  rsa_q :: "bn option"
  rsa_dmp1 :: "bn option"
  rsa_dmq1 :: "bn option"
  rsa_coeff :: "bn option"

definition RSAKey :: rsa_key where
  "RSAKey = \<lparr>rsa_n = None, rsa_e = Some 0, rsa_d = None, rsa_p = None, rsa_q = None,
     rsa_dmp1 = None, rsa_dmq1 = None, rsa_coeff = None\<rparr>"

definition RSASetPublic :: "bnproto \<Rightarrow> string option \<Rightarrow> string option \<Rightarrow> rsa_key \<Rightarrow> (string option \<times> rsa_key) option" where
  \<comment> \<open>the message of the alert, if there is one, and the key\<close>
  "RSASetPublic E N_opt E_opt this =
     (case (N_opt, E_opt) of
        (Some N, Some X) \<Rightarrow>
          if length N > 0 \<and> length X > 0
          then Option.bind (parseBigInt E N 16) (\<lambda>n. Some (None, this\<lparr>rsa_n := Some n, rsa_e := parseInt16 X\<rparr>))
          else Some (Some ''Invalid RSA public key'', this)
      | _ \<Rightarrow> Some (Some ''Invalid RSA public key'', this))"

text \<open>
  With \<open>e\<close> NaN every comparison in \<open>modPowInt\<close> and \<open>exp\<close> is false and \<open>nbits\<close> is 1: no squaring is
  done.
\<close>

definition exp_NaN :: "bnproto \<Rightarrow> bn \<Rightarrow> bn \<Rightarrow> bn option" where
  "exp_NaN E x m =
     (let z = (if bnpIsEven m then Classic m else Mont (Montgomery E m))
      in Option.bind (z_convert E z x) (\<lambda>g. z_revert E z (bnpCopyTo (Obj g) nbi)))"

definition RSADoPublic :: "bnproto \<Rightarrow> bn \<Rightarrow> bn \<Rightarrow> rsa_key \<Rightarrow> bn option" where
  "RSADoPublic E x n this =
     (case rsa_e this of Some e \<Rightarrow> bnModPowInt E x e n | None \<Rightarrow> exp_NaN E x n)"

definition RSAEncrypt :: "bnproto \<Rightarrow> int \<Rightarrow> rsa_key \<Rightarrow> int list \<Rightarrow> rng \<Rightarrow> ((rsa_error + string) \<times> rng) option" where
  "RSAEncrypt E now this text g =
     (case rsa_n this of
        None \<Rightarrow> Some (Inl Type_Error, g)
      | Some n \<Rightarrow>
          (case pkcs1pad2 E now text (js_sar (int (bnBitLength E n) + 7) 3) g of
             None \<Rightarrow> None
           | Some (Inl err, g) \<Rightarrow> Some (Inl err, g)
           | Some (Inr m, g) \<Rightarrow>
               Option.bind (RSADoPublic E m n this) (\<lambda>c.
               Option.bind (bnToString E c 16) (\<lambda>h.
                 Some (Inr (if js_and (int (length h)) 1 = 0 then h else ''0'' @ h), g)))))"

section \<open>The text in UTF-8\<close>

text \<open>The encoding of one code unit; a surrogate is encoded on its own, as the code does.\<close>

definition utf8_unit :: "int \<Rightarrow> int list" where
  "utf8_unit c =
     (if c < 128 then [c]
      else if c < 2048 then [192 + c div 64, 128 + c mod 64]
      else [224 + c div 4096, 128 + c div 64 mod 64, 128 + c mod 64])"

definition utf8 :: "int list \<Rightarrow> int list" where
  "utf8 s = concat (map utf8_unit s)"

definition units :: "int list \<Rightarrow> bool" where
  "units s \<longleftrightarrow> (\<forall>c \<in> set s. 0 \<le> c \<and> c < 65536)"

lemma utf8_simps [simp]: "utf8 [] = []" "utf8 (c # s) = utf8_unit c @ utf8 s" "utf8 (s @ t) = utf8 s @ utf8 t"
  by (simp_all add: utf8_def)

lemma utf8_unit_length: "1 \<le> length (utf8_unit c)" "length (utf8_unit c) \<le> 3"
  by (simp_all add: utf8_unit_def)

lemma utf8_length: "length s \<le> length (utf8 s)"
proof (induction s)
  case (Cons c s)
  then show ?case using utf8_unit_length(1) [of c] by simp
qed simp

lemma utf8_bytes:
  assumes "units s" "b \<in> set (utf8 s)"
  shows "0 \<le> b" "b < 256"
proof -
  from assms obtain c where c: "0 \<le> c" "c < 65536" "b \<in> set (utf8_unit c)" by (auto simp: utf8_def units_def)
  show "0 \<le> b" "b < 256" using c(3,1,2) by (auto simp: utf8_unit_def split: if_splits)
qed

text \<open>The bytes from index \<open>n\<close> on are written, down from the end of the block.\<close>

definition filled :: "nat \<Rightarrow> int list \<times> int \<Rightarrow> int list \<Rightarrow> bool" where
  "filled N st bs \<longleftrightarrow> length bs \<le> N \<and> snd st = int (N - length bs) \<and>
     (if bs = [] then fst st = [] else length (fst st) = N \<and> drop (N - length bs) (fst st) = bs)"

lemma filled_put:
  assumes "filled N (ba, n) bs" "n > 0"
  shows "filled N (ba_put ba (n - 1) v, n - 1) (v # bs)"
proof -
  let ?k = "N - length bs"
  have k: "n = int ?k" "0 < ?k" using assms by (auto simp: filled_def)
  have e: "nat (n - 1) = ?k - 1" using k by linarith
  show ?thesis
  proof (cases "bs = []")
    case True
    then show ?thesis using assms k e by (auto simp: filled_def ba_put_def put_def nat_diff_distrib)
  next
    case False
    then have f: "length ba = N" "drop ?k ba = bs" using assms(1) by (auto simp: filled_def)
    have "drop (?k - 1) (ba[?k - 1 := v]) = v # drop ?k ba"
      using k(2) f(1) by (subst Cons_nth_drop_Suc [symmetric]) (auto simp: Suc_diff_Suc)
    then show ?thesis using k e f by (simp add: filled_def ba_put_def put_def)
  qed
qed

lemma js_or_high:
  assumes "0 \<le> a" "a < 2 ^ k" "0 \<le> b" "a + b * 2 ^ k < 2 ^ 31" "c = b * 2 ^ k"
  shows "js_or a c = c + a"
  using js_or_add [OF assms(1-4)] assms(5) by simp

lemma utf8_marks:
  shows "0 \<le> a \<Longrightarrow> a < 64 \<Longrightarrow> js_or a 128 = 128 + a" "0 \<le> a \<Longrightarrow> a < 64 \<Longrightarrow> js_or a 192 = 192 + a"
    "0 \<le> a \<Longrightarrow> a < 32 \<Longrightarrow> js_or a 224 = 224 + a"
    by (rule js_or_high [of a 7 1 128]; simp) (rule js_or_high [of a 6 3 192] js_or_high [of a 5 7 224]; simp)+

lemma put_unit_filled:
  assumes "filled N (ba, n) bs" "int (length (utf8_unit c)) \<le> n" "0 \<le> c" "c < 65536"
  shows "filled N (put_unit c (ba, n)) (utf8_unit c @ bs)"
proof -
  have six: "js_or (js_and x 63) 128 = 128 + x mod 64" for x
    using js_and_mask [of 6 x] utf8_marks(1) [of "x mod 64"] by simp
  have low: "js_or (js_and c 63) 128 = 128 + c mod 64" by (rule six)
  have sar: "js_sar c 6 = c div 64" "js_sar c 12 = c div 4096" using assms by (simp_all add: js_sar_div)
  have mid: "js_or (js_and (js_sar c 6) 63) 128 = 128 + c div 64 mod 64" unfolding sar by (rule six)
  have two: "js_or (js_sar c 6) 192 = 192 + c div 64" if "c < 2048"
    unfolding sar by (rule utf8_marks) (use that assms in auto)
  have three: "js_or (js_sar c 12) 224 = 224 + c div 4096"
    unfolding sar by (rule utf8_marks) (use assms in auto)
  consider "c < 128" | "128 \<le> c" "c < 2048" | "2048 \<le> c" by linarith
  then show ?thesis
  proof cases
    case 1
    then have "put_unit c (ba, n) = (ba_put ba (n - 1) c, n - 1)" "n > 0" "utf8_unit c = [c]"
      using assms(2) by (simp_all add: put_unit_def utf8_unit_def)
    then show ?thesis using filled_put [OF assms(1), of c] by simp
  next
    case 2
    then have u: "utf8_unit c = [192 + c div 64, 128 + c mod 64]" by (simp add: utf8_unit_def)
    then have n: "n > 0" "n - 1 > 0" using assms(2) by simp_all
    have "put_unit c (ba, n) = (ba_put (ba_put ba (n - 1) (128 + c mod 64)) (n - 1 - 1) (192 + c div 64), n - 1 - 1)"
      using 2 by (simp add: put_unit_def low two)
    then show ?thesis using filled_put [OF filled_put [OF assms(1) n(1)] n(2)] u by simp
  next
    case 3
    then have u: "utf8_unit c = [224 + c div 4096, 128 + c div 64 mod 64, 128 + c mod 64]" by (simp add: utf8_unit_def)
    then have n: "n > 0" "n - 1 > 0" "n - 1 - 1 > 0" using assms(2) by simp_all
    have "put_unit c (ba, n) = (ba_put (ba_put (ba_put ba (n - 1) (128 + c mod 64))
        (n - 1 - 1) (128 + c div 64 mod 64)) (n - 1 - 1 - 1) (224 + c div 4096), n - 1 - 1 - 1)"
      using 3 by (simp add: put_unit_def low mid three)
    then show ?thesis using filled_put [OF filled_put [OF filled_put [OF assms(1) n(1)] n(2)] n(3)] u by simp
  qed
qed

lemma pad_text_filled:
  assumes "filled N st bs" "int (length (utf8 (rev cs))) \<le> snd st" "units cs"
  shows "filled N (pad_text cs st) (utf8 (rev cs) @ bs)"
  using assms
proof (induction cs arbitrary: st bs)
  case Nil
  then show ?case by simp
next
  case (Cons c cs)
  obtain ba n where st: "st = (ba, n)" by fastforce
  have len: "int (length (utf8_unit c)) \<le> n" "int (length (utf8 (rev cs))) \<le> n - int (length (utf8_unit c))"
    using Cons.prems(2) by (simp_all add: st)
  have c: "0 \<le> c" "c < 65536" "units cs" using Cons.prems(3) by (auto simp: units_def)
  have f: "filled N (put_unit c (ba, n)) (utf8_unit c @ bs)"
    by (rule put_unit_filled) (use Cons.prems(1) len c st in auto)
  have "snd (put_unit c (ba, n)) = n - int (length (utf8_unit c))"
    by (simp add: put_unit_def utf8_unit_def Let_def)
  then have "filled N (pad_text cs (put_unit c (ba, n))) (utf8 (rev cs) @ utf8_unit c @ bs)"
    by (intro Cons.IH f) (use len c in auto)
  moreover have "n > 0" using len(1) utf8_unit_length(1) [of c] by linarith
  ultimately show ?case by (simp add: st)
qed

section \<open>The random padding\<close>

fun draws :: "int \<Rightarrow> rng \<Rightarrow> nat \<Rightarrow> int list" where
  \<comment> \<open>the next \<open>k\<close> bytes of the generator\<close>
  "draws now g 0 = []"
| "draws now g (Suc k) = (let (b, g) = rng_get_byte now g in b # draws now g k)"

abbreviation nonzero :: "int list \<Rightarrow> int list" where
  "nonzero \<equiv> filter (\<lambda>b. b \<noteq> 0)"

lemma get_one: "rng_get_bytes now [0] g = (let (b, g) = rng_get_byte now g in ([b], g))"
  by (simp add: rng_get_bytes_def for_up_def put_def)

lemma rng_nonzero_draws:
  assumes "nonzero (draws now g k) = x # xs"
  shows "\<exists>g' k'. rng_nonzero now g = Some (x, g') \<and> nonzero (draws now g' k') = xs \<and> (rng_ok g \<longrightarrow> rng_ok g')"
  using assms
proof (induction k arbitrary: g)
  case 0
  then show ?case by simp
next
  case (Suc k)
  obtain b g' where b: "rng_get_byte now g = (b, g')" by fastforce
  show ?case
  proof (cases "b = 0")
    case True
    then have "nonzero (draws now g' k) = x # xs" using Suc.prems b by simp
    from Suc.IH [OF this] show ?thesis
      using True b rng_get_byte_ok(1) [OF _ b]
      by (subst rng_nonzero.simps) (auto simp: get_one get_def)
  next
    case False
    then have "x = b" "nonzero (draws now g' k) = xs" using Suc.prems b by simp_all
    then show ?thesis using False b rng_get_byte_ok(1) [OF _ b]
      by (subst rng_nonzero.simps) (auto simp: get_one get_def)
  qed
qed

lemma pad_random_filled:
  assumes "filled N (ba, n) bs" "int p = n - 2" "p \<le> length (nonzero (draws now g k))"
  shows "\<exists>ba' g'. pad_random now ba n g = Some (ba', 2, g') \<and>
    filled N (ba', 2) (rev (take p (nonzero (draws now g k))) @ bs) \<and> (rng_ok g \<longrightarrow> rng_ok g')"
  using assms
proof (induction p arbitrary: ba n bs g k)
  case 0
  then have "n = 2" by simp
  then show ?case using "0.prems"(1) by (subst pad_random.simps) simp
next
  case (Suc p)
  obtain x xs where x: "nonzero (draws now g k) = x # xs" using Suc.prems(3) by (cases "nonzero (draws now g k)") auto
  from rng_nonzero_draws [OF this] obtain g' k' where g':
    "rng_nonzero now g = Some (x, g')" "nonzero (draws now g' k') = xs" "rng_ok g \<longrightarrow> rng_ok g'" by blast
  have n: "n > 2" using Suc.prems(2) by linarith
  then have "filled N (ba_put ba (n - 1) x, n - 1) (x # bs)" by (intro filled_put Suc.prems(1)) simp
  moreover have "int p = n - 1 - 2" "p \<le> length (nonzero (draws now g' k'))"
    using Suc.prems(2,3) g'(2) x by simp_all
  ultimately obtain ba' g'' where r: "pad_random now (ba_put ba (n - 1) x) (n - 1) g' = Some (ba', 2, g'')"
    "filled N (ba', 2) (rev (take p xs) @ x # bs)" "rng_ok g' \<longrightarrow> rng_ok g''"
    using Suc.IH [of "ba_put ba (n - 1) x" "n - 1" "x # bs" g' k'] g'(2) by auto
  have "pad_random now ba n g = Some (ba', 2, g'')" using n g'(1) r(1) by (subst pad_random.simps) simp
  then show ?case using r x g'(3) by auto
qed


section \<open>The encryption block\<close>

definition pad_bytes :: "int \<Rightarrow> rng \<Rightarrow> nat \<Rightarrow> nat \<Rightarrow> int list" where
  \<comment> \<open>the padding, from the first \<open>p\<close> non-zero bytes of the next \<open>k\<close>\<close>
  "pad_bytes now g k p = rev (take p (nonzero (draws now g k)))"

definition pkcs1_block :: "int \<Rightarrow> rng \<Rightarrow> nat \<Rightarrow> int list \<Rightarrow> nat \<Rightarrow> int list" where
  "pkcs1_block now g k s n = [0, 2] @ pad_bytes now g k (n - length (utf8 s) - 3) @ [0] @ utf8 s"

lemma draws_bytes:
  assumes "rng_ok g" "b \<in> set (draws now g k)"
  shows "0 \<le> b" "b < 256"
proof -
  have "0 \<le> b \<and> b < 256" using assms
  proof (induction k arbitrary: g)
    case (Suc k)
    obtain c g' where c: "rng_get_byte now g = (c, g')" by fastforce
    then show ?case using Suc rng_get_byte_ok [OF Suc.prems(1) c] by auto
  qed simp
  then show "0 \<le> b" "b < 256" by auto
qed

lemma pkcs1_block_bytes:
  assumes "rng_ok g" "units s" "b \<in> set (pkcs1_block now g k s n)"
  shows "0 \<le> b" "b < 256"
proof -
  from assms(3) consider "b = 0" | "b = 2" | "b \<in> set (draws now g k)" | "b \<in> set (utf8 s)"
    by (auto simp: pkcs1_block_def pad_bytes_def dest: in_set_takeD)
  then have "0 \<le> b \<and> b < 256"
    using draws_bytes [OF assms(1)] utf8_bytes [OF assms(2)] by cases auto
  then show "0 \<le> b" "b < 256" by auto
qed

lemma pkcs1_block_length:
  assumes "length (utf8 s) + 3 \<le> n" "n - length (utf8 s) - 3 \<le> length (nonzero (draws now g k))"
  shows "length (pkcs1_block now g k s n) = n"
  using assms by (simp add: pkcs1_block_def pad_bytes_def)

lemma block_value:
  assumes "\<forall>b \<in> set bs. 0 \<le> b \<and> b < 256"
  shows "bytes_val (0 # bs) = be_val 256 bs" "0 \<le> be_val 256 bs" "be_val 256 bs < 256 ^ length bs"
proof -
  have "map (\<lambda>x. x mod 256) bs = bs" using assms by (intro map_idI) simp
  then show "bytes_val (0 # bs) = be_val 256 bs" by (simp add: bytes_val_def be_val_Cons)
  show "0 \<le> be_val 256 bs" "be_val 256 bs < 256 ^ length bs" using be_val_less [OF assms] by auto
qed

lemma filled_full: "filled N (ba, n) bs \<Longrightarrow> length bs = N \<Longrightarrow> bs \<noteq> [] \<Longrightarrow> ba = bs"
  by (simp add: filled_def)

lemma pkcs1pad2_ok:
  assumes "digit_width E" "units s" "length s + 11 \<le> n" "length (utf8 s) + 3 \<le> n"
    and "n - length (utf8 s) - 3 \<le> length (nonzero (draws now g k))"
  shows "\<exists>m g'. pkcs1pad2 E now s (int n) g = Some (Inr m, g') \<and> bn_wf E m \<and>
    bval E m = bytes_val (pkcs1_block now g k s n) \<and> (rng_ok g \<longrightarrow> rng_ok g')"
proof -
  let ?p = "n - length (utf8 s) - 3"
  obtain ba0 n0 where p0: "pad_text (rev s) ([], int n) = (ba0, n0)" by fastforce
  have "filled n ([], int n) []" by (simp add: filled_def)
  then have "filled n (pad_text (rev s) ([], int n)) (utf8 (rev (rev s)) @ [])"
    by (rule pad_text_filled) (use assms in \<open>auto simp: units_def\<close>)
  then have f0: "filled n (ba0, n0) (utf8 s)" by (simp add: p0)
  then have n0: "n0 = int (n - length (utf8 s))" by (simp add: filled_def)
  then have "n0 > 0" using assms(4) by simp
  with f0 have f1: "filled n (ba_put ba0 (n0 - 1) 0, n0 - 1) (0 # utf8 s)" by (rule filled_put)
  have "int ?p = n0 - 1 - 2" using n0 assms(4) by simp
  from pad_random_filled [OF f1 this assms(5)] obtain ba1 g' where r:
    "pad_random now (ba_put ba0 (n0 - 1) 0) (n0 - 1) g = Some (ba1, 2, g')"
    "filled n (ba1, 2) (pad_bytes now g k ?p @ 0 # utf8 s)" "rng_ok g \<longrightarrow> rng_ok g'"
    unfolding pad_bytes_def by blast
  have "filled n (ba_put ba1 (2 - 1) 2, 2 - 1) (2 # pad_bytes now g k ?p @ 0 # utf8 s)"
    by (rule filled_put [OF r(2)]) simp
  then have "filled n (ba_put (ba_put ba1 1 2) 0 0, 0) (pkcs1_block now g k s n)"
    using filled_put [of n "ba_put ba1 1 2" 1 _ 0] by (simp add: pkcs1_block_def)
  then have "ba_put (ba_put ba1 1 2) 0 0 = pkcs1_block now g k s n"
    by (rule filled_full [OF _ pkcs1_block_length [OF assms(4,5)]]) (simp add: pkcs1_block_def)
  moreover obtain m where "parse_bytes E (pkcs1_block now g k s n) = Some m" "bn_wf E m"
    "bval E m = bytes_val (pkcs1_block now g k s n)"
    using digit_width.parse_bytes_ok [OF assms(1)] by blast
  ultimately show ?thesis using assms(3) r(1,3) by (simp add: pkcs1pad2_def p0)
qed

text \<open>A text whose encoding alone fills the block leaves no trace of what comes before it.\<close>

lemma pad_text_stop: "snd st \<le> 0 \<Longrightarrow> pad_text cs st = st"
  by (cases cs) auto

lemma pad_text_append: "pad_text (xs @ ys) st = pad_text ys (pad_text xs st)"
  by (induction xs arbitrary: st) (auto simp: pad_text_stop)

lemma put_unit_snd: "snd (put_unit c st) = snd st - int (length (utf8_unit c))"
  by (simp add: put_unit_def utf8_unit_def Let_def split: prod.split)

lemma pad_text_full: "snd st \<le> int (length (utf8 cs)) \<Longrightarrow> snd (pad_text cs st) \<le> 0"
  by (induction cs arbitrary: st) (auto simp: put_unit_snd)

lemma utf8_rev: "length (utf8 (rev s)) = length (utf8 s)"
  by (induction s) simp_all

lemma pad_text_drops:
  "int n \<le> int (length (utf8 t)) \<Longrightarrow> pad_text (rev (p @ t)) ([], int n) = pad_text (rev t) ([], int n)"
  by (simp add: pad_text_append pad_text_stop pad_text_full utf8_rev)

text \<open>What is left in the block then are the last bytes of that encoding, and nothing else is written.\<close>

lemma filled_drop:
  assumes "filled N (ba, 0) bs"
  shows "ba = bs \<and> length bs = N"
proof -
  have "length bs = N" using assms by (simp add: filled_def)
  then show ?thesis using assms by (cases "bs = []") (simp_all add: filled_def)
qed

lemma filled_room: "filled N (ba, n) bs \<Longrightarrow> int N = n + int (length bs)"
  by (simp add: filled_def)

lemma put_unit_over:
  assumes "filled N (ba, n) bs" "0 < n" "n < int (length (utf8_unit c))" "0 \<le> c" "c < 65536"
  shows "fst (put_unit c (ba, n)) = drop (length (utf8_unit c @ bs) - N) (utf8_unit c @ bs)"
proof -
  have six: "js_or (js_and x 63) 128 = 128 + x mod 64" for x
    using js_and_mask [of 6 x] utf8_marks(1) [of "x mod 64"] by simp
  have sar: "js_sar c 6 = c div 64" using assms by (simp add: js_sar_div)
  have marks: "js_or (js_and c 63) 128 = 128 + c mod 64" "js_or (js_and (js_sar c 6) 63) 128 = 128 + c div 64 mod 64"
    unfolding sar by (rule six)+
  have neg: "ba_put a i v = a" if "i < 0" for a i v using that by (simp add: ba_put_def)
  have len: "N = nat n + length bs" using filled_room [OF assms(1)] assms(2) by linarith
  have c: "128 \<le> c" using assms(2,3) by (auto simp: utf8_unit_def split: if_splits)
  show ?thesis
  proof (cases "n = 1")
    case True
    then have "filled N (ba_put ba 0 (128 + c mod 64), 0) ((128 + c mod 64) # bs)"
      using filled_put [OF assms(1,2), of "128 + c mod 64"] by simp
    then have "fst (put_unit c (ba, n)) = (128 + c mod 64) # bs"
      using True c filled_drop by (auto simp: put_unit_def marks neg)
    moreover have "drop (length (utf8_unit c @ bs) - N) (utf8_unit c @ bs) = (128 + c mod 64) # bs"
      using True c by (simp add: utf8_unit_def len)
    ultimately show ?thesis by simp
  next
    case False
    then have n: "n = 2" and w: "2048 \<le> c" using assms(2,3) by (auto simp: utf8_unit_def split: if_splits)
    have f: "filled N (ba_put ba 1 (128 + c mod 64), 1) ((128 + c mod 64) # bs)"
      using filled_put [OF assms(1,2), of "128 + c mod 64"] by (simp add: n)
    have "filled N (ba_put (ba_put ba 1 (128 + c mod 64)) 0 (128 + c div 64 mod 64), 0) ((128 + c div 64 mod 64) # (128 + c mod 64) # bs)"
      using filled_put [OF f, of "128 + c div 64 mod 64"] by simp
    then have "fst (put_unit c (ba, n)) = (128 + c div 64 mod 64) # (128 + c mod 64) # bs"
      using n w filled_drop by (auto simp: put_unit_def marks neg)
    moreover have "drop (length (utf8_unit c @ bs) - N) (utf8_unit c @ bs) = (128 + c div 64 mod 64) # (128 + c mod 64) # bs"
      using n w by (simp add: utf8_unit_def len)
    ultimately show ?thesis by simp
  qed
qed

lemma pad_text_over:
  assumes "filled N st bs" "snd st \<le> int (length (utf8 (rev cs)))" "units cs"
  shows "fst (pad_text cs st) = drop (length (utf8 (rev cs) @ bs) - N) (utf8 (rev cs) @ bs)"
  using assms
proof (induction cs arbitrary: st bs)
  case Nil
  obtain ba n where st: "st = (ba, n)" by fastforce
  have n: "n = 0" using Nil.prems(1,2) by (simp add: st filled_def)
  have "ba = bs \<and> length bs = N" by (rule filled_drop) (use Nil.prems(1) in \<open>simp add: st n\<close>)
  then show ?case by (simp add: st)
next
  case (Cons c cs)
  obtain ba n where st: "st = (ba, n)" by fastforce
  have c: "0 \<le> c" "c < 65536" "units cs" using Cons.prems(3) by (auto simp: units_def)
  have later: "drop (length (xs @ ys) - N) (xs @ ys) = drop (length ys - N) ys" if "N \<le> length ys" for xs ys :: "int list"
    using that by simp
  consider "n = 0" | "0 < n" "int (length (utf8_unit c)) \<le> n" | "0 < n" "n < int (length (utf8_unit c))"
    using filled_room [of N ba n bs] Cons.prems(1) by (simp add: st filled_def) linarith
  then show ?case
  proof cases
    case 1
    have "ba = bs \<and> length bs = N" by (rule filled_drop) (use Cons.prems(1) 1 in \<open>simp add: st\<close>)
    then show ?thesis using later [of bs "utf8 (rev (c # cs))"] 1 by (simp add: st)
  next
    case 2
    have f: "filled N (put_unit c (ba, n)) (utf8_unit c @ bs)"
      by (rule put_unit_filled) (use Cons.prems(1) 2 c st in auto)
    have "snd (put_unit c (ba, n)) \<le> int (length (utf8 (rev cs)))"
      using Cons.prems(2) by (simp add: st put_unit_def utf8_unit_def Let_def split: if_splits)
    from Cons.IH [OF f this c(3)] show ?thesis using 2 by (simp add: st)
  next
    case 3
    have l: "N \<le> length (utf8_unit c @ bs)" using filled_room [of N ba n bs] Cons.prems(1) 3 by (simp add: st)
    have "snd (put_unit c (ba, n)) \<le> 0" using 3 by (simp add: put_unit_def utf8_unit_def Let_def split: if_splits)
    then have "fst (pad_text (c # cs) st) = drop (length (utf8_unit c @ bs) - N) (utf8_unit c @ bs)"
      using 3 put_unit_over [OF _ 3 c(1,2), of N ba bs] Cons.prems(1) by (simp add: st pad_text_stop)
    then show ?thesis using later [OF l, of "utf8 (rev cs)"] by simp
  qed
qed

lemma pkcs1pad2_over:
  assumes "digit_width E" "units t" "n \<le> length (utf8 t)" "length p + length t + 11 \<le> n"
  shows "\<exists>m. parse_bytes E (drop (length (utf8 t) - n) (utf8 t)) = Some m \<and> bn_wf E m \<and>
    bval E m = bytes_val (drop (length (utf8 t) - n) (utf8 t)) \<and> pkcs1pad2 E now (p @ t) (int n) g = Some (Inr m, g)"
proof -
  obtain ba k where r: "pad_text (rev (p @ t)) ([], int n) = (ba, k)" by fastforce
  then have r': "pad_text (rev t) ([], int n) = (ba, k)" using assms(3) by (simp only: pad_text_drops of_nat_le_iff)
  have "filled n ([], int n) []" by (simp add: filled_def)
  then have "fst (pad_text (rev t) ([], int n)) = drop (length (utf8 (rev (rev t)) @ []) - n) (utf8 (rev (rev t)) @ [])"
    by (rule pad_text_over) (use assms(2,3) in \<open>auto simp: units_def\<close>)
  then have ba: "ba = drop (length (utf8 t) - n) (utf8 t)" by (simp add: r')
  have k: "k \<le> 0" using pad_text_full [of "([], int n)" "rev t"] assms(3) by (simp add: r' utf8_rev)
  have "pad_random now (ba_put ba (k - 1) 0) (k - 1) g = Some (ba, k - 1, g)"
    using k by (subst pad_random.simps) (simp add: ba_put_def)
  then have "pkcs1pad2 E now (p @ t) (int n) g = Option.bind (parse_bytes E ba) (\<lambda>m. Some (Inr m, g))"
    using assms(4) k r by (simp add: pkcs1pad2_def ba_put_def)
  then show ?thesis using digit_width.parse_bytes_ok [OF assms(1), of ba] by (auto simp: ba)
qed

section \<open>Encryption\<close>

context div_engine
begin

lemma key_bytes:
  assumes "bn_wf E n" "0 < bval E n" "int (bnBitLength E n) + 7 < 2 ^ 31"
  shows "js_sar (int (bnBitLength E n) + 7) 3 = int ((bnBitLength E n + 7) div 8)"
    "256 ^ ((bnBitLength E n + 7) div 8 - 1) \<le> bval E n"
proof -
  let ?b = "bnBitLength E n"
  show "js_sar (int ?b + 7) 3 = int ((?b + 7) div 8)" using assms(3) by (subst js_sar_div) (auto simp: zdiv_int)
  have "?b \<noteq> 0" using bitLength_ok(1) [OF assms(1)] assms(2) by (intro notI) simp
  then have "8 * ((?b + 7) div 8 - 1) \<le> ?b - 1" by linarith
  then have "(2::int) ^ (8 * ((?b + 7) div 8 - 1)) \<le> 2 ^ (?b - 1)" by (intro power_increasing) simp_all
  also have "\<dots> \<le> bval E n" using bitLength_ok(2) [OF assms(1)] assms(2) by simp
  finally show "256 ^ ((?b + 7) div 8 - 1) \<le> bval E n" by (simp add: power_mult)
qed

lemma encrypt_ok:
  assumes n: "bn_wf E n" "0 < bval E n" "int (bnBitLength E n) + 7 < 2 ^ 31" "N = (bnBitLength E n + 7) div 8"
    and k: "rsa_n K = Some n" "rsa_e K = Some e" "0 < e" "e < 2 ^ 32"
    and s: "units s" "length s + 11 \<le> N" "length (utf8 s) + 3 \<le> N"
    and g: "rng_ok g" "N - length (utf8 s) - 3 \<le> length (nonzero (draws now g c))"
  shows "\<exists>h g'. RSAEncrypt E now K s g = Some (Inr h, g') \<and> even (length h) \<and> (\<forall>c \<in> set h. is_digit 4 c) \<and>
    str_val 4 h = bytes_val (pkcs1_block now g c s N) ^ nat e mod bval E n \<and>
    bytes_val (pkcs1_block now g c s N) < bval E n \<and> rng_ok g'"
proof -
  have dw: "digit_width E" by (rule digit_width_axioms)
  obtain m g' where m: "pkcs1pad2 E now s (int N) g = Some (Inr m, g')" "bn_wf E m"
    "bval E m = bytes_val (pkcs1_block now g c s N)" "rng_ok g'"
    using pkcs1pad2_ok [OF dw s g(2)] g(1) by blast
  obtain r where r: "bnModPowInt E m e n = Some r" "bn_wf E r" "bval E r = bval E m ^ nat e mod bval E n"
    using modPowInt_ok [OF m(2) n(1,2) k(3,4)] by blast
  have "0 \<le> bval E r" using n(2) by (simp add: r(3))
  then have s0: "bn_s r = 0" using bval_nonneg_iff [OF bn_wfD(1) [OF r(2)]] by simp
  obtain h where h: "print_nonneg E r 16 = Some h" "\<forall>c \<in> set h. is_digit 4 c" "str_val 4 h = bval E r"
    using print_nonneg_ok [of 16 4, OF _ _ r(2) s0] by (auto simp: radix_bits_def)
  define h' where "h' = (if js_and (int (length h)) 1 = 0 then h else ''0'' @ h)"
  have "js_and (int (length h)) 1 = int (length h) mod 2" using js_and_mask [of 1 "int (length h)"] by simp
  then have "js_and (int (length h)) 1 = 0 \<longleftrightarrow> even (length h)" by presburger
  then have even: "even (length h')" by (simp add: h'_def)
  have zero: "is_digit 4 CHR ''0''" "char_digit CHR ''0'' = 0" by (simp_all add: is_digit_def char_digit_def BI_RC_def)
  then have v: "str_val 4 h' = bval E r" "\<forall>c \<in> set h'. is_digit 4 c"
    using h(2,3) by (auto simp: h'_def str_val_def be_val_Cons)
  have enc: "RSAEncrypt E now K s g = Some (Inr h', g')"
    unfolding RSAEncrypt_def k(1) option.case key_bytes(1) [OF n(1-3)] n(4) [symmetric] m(1)
    using r(1) s0 h(1) by (simp add: RSADoPublic_def k(2) bnToString_def h'_def)
  define bs where "bs = [2] @ pad_bytes now g c (N - length (utf8 s) - 3) @ [0] @ utf8 s"
  have b: "pkcs1_block now g c s N = 0 # bs" by (simp add: pkcs1_block_def bs_def)
  have "\<forall>x \<in> set bs. 0 \<le> x \<and> x < 256"
    using pkcs1_block_bytes [OF g(1) s(1), of _ now c N] by (auto simp: b)
  then have "bytes_val (pkcs1_block now g c s N) < 256 ^ length bs" unfolding b using block_value [of bs] by simp
  also have "length bs = N - 1" using pkcs1_block_length [OF s(3) g(2)] b by simp
  also have "256 ^ (N - 1) \<le> bval E n" using key_bytes(2) [OF n(1-3)] n(4) by simp
  finally show ?thesis using enc even v r(3) m(3,4) by auto
qed

end


section \<open>Line breaks\<close>

fun lines_of :: "nat \<Rightarrow> 'a list \<Rightarrow> 'a \<Rightarrow> nat \<Rightarrow> 'a list" where
  \<comment> \<open>at most \<open>k\<close> breaks, one after every \<open>n\<close> characters that more characters follow\<close>
  "lines_of n s nl 0 = s"
| "lines_of n s nl (Suc k) = (if n < length s then take n s @ nl # lines_of n (drop n s) nl k else s)"

lemma linebrk_loop_ok:
  assumes "0 < n" "i \<le> length s" "length s \<le> i + k"
  shows "\<exists>j. linebrk_loop s n i ret nl = Some j \<and>
    snd j @ substring (fst j) (length s) s = ret @ lines_of n (drop i s) nl k"
  using assms(2,3)
proof (induction k arbitrary: i ret)
  case 0
  then show ?case using assms(1) by (subst linebrk_loop.simps) (simp add: substring_def)
next
  case (Suc k)
  show ?case
  proof (cases "i + n < length s")
    case True
    moreover from True have "n < length s - i" by simp
    ultimately show ?thesis
      using Suc.IH [of "i + n" "ret @ substring i (i + n) s @ [nl]"] Suc.prems assms(1)
      by (subst linebrk_loop.simps) (simp add: substring_def add.commute)
  next
    case False
    then show ?thesis using Suc.prems by (subst linebrk_loop.simps) (auto simp: substring_def)
  qed
qed

lemma linebrk_ok: "0 < n \<Longrightarrow> linebrk s n = Some (lines_of n s (CHR 0x0A) (length s))"
  using linebrk_loop_ok [of n 0 s "length s" "[]" "CHR 0x0A"] by (auto simp: linebrk_def)


end
