(* ===== verification/Base64.thy ===== *)
theory Base64
  imports Bn_String Js_Text
begin

text \<open>
  Base64 of hexadecimal strings (encrypt/base64.js): the encoder, the decoder with its four-state
  automaton, and the decoder to an array of bytes.
\<close>

section \<open>The operations\<close>

definition b64map :: string where
  "b64map = ''ABCDEFGHIJKLMNOPQRSTUVWXYZabcdefghijklmnopqrstuvwxyz0123456789+/''"

definition b64padchar :: char where
  "b64padchar = CHR ''=''"

definition parsed :: "string \<Rightarrow> int" where
  \<comment> \<open>parseInt(s,16) as the bitwise operators see it: NaN is 0\<close>
  "parsed s = (case parseInt16 s of None \<Rightarrow> 0 | Some c \<Rightarrow> c)"

function b64_groups :: "string \<Rightarrow> nat \<Rightarrow> string \<Rightarrow> nat \<times> string" where
  \<comment> \<open>for(i = 0; i+3 <= h.length; i+=3)\<close>
  "b64_groups h i ret =
     (if i + 3 \<le> length h
      then let c = parsed (substring i (i + 3) h)
           in b64_groups h (i + 3) (ret @ charAt b64map (js_sar c 6) @ charAt b64map (js_and c 63))
      else (i, ret))"
  by auto
termination by (relation "measure (\<lambda>(h, i, ret). length h - i)") auto

declare b64_groups.simps [simp del]

definition b64_tail :: "string \<Rightarrow> nat \<Rightarrow> string \<Rightarrow> string" where
  "b64_tail h i ret =
     (if i + 1 = length h then
        let c = parsed (substring i (i + 1) h)
        in ret @ charAt b64map (js_shl c 2)
      else if i + 2 = length h then
        let c = parsed (substring i (i + 2) h)
        in ret @ charAt b64map (js_sar c 2) @ charAt b64map (js_shl (js_and c 3) 4)
      else ret)"

function b64_pad :: "string \<Rightarrow> string" where
  \<comment> \<open>while((ret.length & 3) > 0) ret += b64padchar;\<close>
  "b64_pad ret = (if length ret mod 4 > 0 then b64_pad (ret @ [b64padchar]) else ret)"
  by auto
termination by (relation "measure (\<lambda>s. (4 - length s mod 4) mod 4)") (auto simp: mod_Suc)

declare b64_pad.simps [simp del]

definition hex2b64 :: "string \<Rightarrow> string" where
  "hex2b64 h = (let (i, ret) = b64_groups h 0 '''' in b64_pad (b64_tail h i ret))"

definition b64_digit :: "int \<Rightarrow> string \<times> nat \<times> int \<Rightarrow> string \<times> nat \<times> int" where
  \<comment> \<open>one digit \<open>v\<close> in the state (ret, k, slop)\<close>
  "b64_digit v st =
     (let (ret, k, slop) = st
      in if k = 0 then (ret @ int2char (js_sar v 2), 1, js_and v 3)
         else if k = 1 then (ret @ int2char (js_or (js_shl slop 2) (js_sar v 4)), 2, js_and v 0xf)
         else if k = 2 then (ret @ int2char slop @ int2char (js_sar v 2), 3, js_and v 3)
         else (ret @ int2char (js_or (js_shl slop 2) (js_sar v 4)) @ int2char (js_and v 0xf), 0, slop))"

fun b64_scan :: "string \<Rightarrow> string \<times> nat \<times> int \<Rightarrow> string \<times> nat \<times> int" where
  \<comment> \<open>for(i = 0; i < s.length; ++i), with its break and continue\<close>
  "b64_scan [] st = st"
| "b64_scan (c # s) st =
     (if c = b64padchar then st
      else let v = index_of c b64map
           in if v < 0 then b64_scan s st else b64_scan s (b64_digit v st))"

definition b64tohex :: "string \<Rightarrow> string" where
  \<comment> \<open>slop is undefined before the first digit and not read then\<close>
  "b64tohex s =
     (let (ret, k, slop) = b64_scan s ('''', 0, 0)
      in if k = 1 then ret @ int2char (js_shl slop 2) else ret)"

definition b64toBA :: "string \<Rightarrow> int option list" where
  \<comment> \<open>an element is \<open>None\<close> when it is NaN\<close>
  "b64toBA s =
     (let h = b64tohex s
      in map (\<lambda>i. parseInt16 (substring (2 * i) (2 * i + 2) h)) [0..<(length h + 1) div 2])"

section \<open>Digits\<close>

lemma b64_digits: "length b64map = 64" "distinct b64map" "b64padchar \<notin> set b64map"
  by (simp_all add: b64map_def b64padchar_def)

lemma scan_value:
  assumes "0 \<le> v" "v < 64"
  shows "b64_scan (charAt b64map v @ s) st = b64_scan s (b64_digit v st)"
proof -
  have n: "nat v < length b64map" using assms b64_digits(1) by simp
  then have "b64map ! nat v \<noteq> b64padchar" using b64_digits(3) nth_mem by metis
  moreover have "index_of (b64map ! nat v) b64map = v" using index_of_nth [OF b64_digits(2) n] assms by simp
  moreover have "charAt b64map v = [b64map ! nat v]" using assms b64_digits(1) by (simp add: charAt_def)
  ultimately show ?thesis using assms by simp
qed

lemma int2char_hex: "0 \<le> d \<Longrightarrow> d < 16 \<Longrightarrow> int2char d = [hex_char d]"
  by (drule (1) sixteen_cases) (elim disjE; simp add: int2char_def BI_RM_def hex_char_def)

lemma js_digit_ops:
  assumes "0 \<le> v" "v < 64"
  shows "js_sar v 2 = v div 4" "js_sar v 4 = v div 16" "js_and v 3 = v mod 4" "js_and v 0xf = v mod 16"
  using assms js_and_mask [of 2 v] js_and_mask [of 4 v] by (simp_all add: js_sar_div)

lemma js_join:
  assumes "0 \<le> a" "a < 4" "0 \<le> b" "b < 4"
  shows "js_or (js_shl a 2) b = 4 * a + b"
proof -
  have "js_shl a 2 = a * 2 ^ 2" using assms by (intro js_shl_mult) simp_all
  then show ?thesis using js_or_add [of b 2 a] assms by (simp add: js_or_commute)
qed

lemma hex_char_not_special:
  assumes "0 \<le> d" "d < 16"
  shows "\<not> is_white (hex_char d)" "hex_char d \<noteq> CHR ''-''" "hex_char d \<noteq> CHR ''+''"
    "hex_char d \<noteq> CHR ''x''" "hex_char d \<noteq> CHR ''X''"
  using sixteen_cases [OF assms] by (elim disjE; simp add: is_white_def hex_char_def)+

text \<open>A string of lower-case digits is read as its value; no digit is taken for \<open>0x\<close>.\<close>

lemma hex_prefix_digits: "\<forall>d \<in> set ds. 0 \<le> d \<and> d < 16 \<Longrightarrow> hex_prefix (map hex_char ds) = ds"
  by (induction ds) (simp_all add: hex_digit_char)

lemma parsed_digits:
  assumes "ds \<noteq> []" "\<forall>d \<in> set ds. 0 \<le> d \<and> d < 16"
  shows "parseInt16 (map hex_char ds) = Some (hex_value ds)"
proof -
  obtain d es where ds: "ds = d # es" using assms(1) by (cases ds) auto
  let ?s = "map hex_char ds"
  have d: "0 \<le> d" "d < 16" using assms(2) ds by auto
  have 1: "dropWhile is_white ?s = ?s" using hex_char_not_special(1) [OF d] by (simp add: ds)
  have 2: "(case ?s of CHR ''-'' # r \<Rightarrow> (True, r) | CHR ''+'' # r \<Rightarrow> (False, r) | _ \<Rightarrow> (False, ?s)) = (False, ?s)"
    using hex_char_not_special(2,3) [OF d] by (auto simp: ds split: list.splits char.splits bool.splits)
  have 3: "(case ?s of CHR ''0'' # c # r \<Rightarrow> if c = CHR ''x'' \<or> c = CHR ''X'' then r else ?s | _ \<Rightarrow> ?s) = ?s"
  proof (cases es)
    case (Cons e fs)
    then have "hex_char e \<noteq> CHR ''x''" "hex_char e \<noteq> CHR ''X''" using hex_char_not_special assms(2) ds by auto
    then show ?thesis by (auto simp: ds Cons split: list.splits char.splits bool.splits)
  qed (auto simp: ds split: list.splits char.splits bool.splits)
  show ?thesis unfolding parseInt16_def 1 Let_def 2 case_prod_conv 3 hex_prefix_digits [OF assms(2)] using assms(1) by simp
qed

section \<open>Round trip\<close>

text \<open>The 6-bit digits of a list of hexadecimal digits: three of them make two.\<close>

fun sextets :: "int list \<Rightarrow> int list" where
  "sextets [] = []"
| "sextets [x] = [4 * x]"
| "sextets [x, y] = [4 * x + y div 4, y mod 4 * 16]"
| "sextets (x # y # z # r) = (4 * x + y div 4) # (y mod 4 * 16 + z) # sextets r"

definition hexits :: "int list \<Rightarrow> bool" where
  "hexits ds \<longleftrightarrow> (\<forall>d \<in> set ds. 0 \<le> d \<and> d < 16)"

abbreviation b64_chars :: "int list \<Rightarrow> string" where
  "b64_chars vs \<equiv> concat (map (charAt b64map) vs)"

lemma hexits_simps [simp]: "hexits []" "hexits (d # ds) \<longleftrightarrow> 0 \<le> d \<and> d < 16 \<and> hexits ds"
  by (auto simp: hexits_def)

lemma sextets_range: "hexits ds \<Longrightarrow> \<forall>v \<in> set (sextets ds). 0 \<le> v \<and> v < 64"
proof (induction ds rule: sextets.induct)
  case (4 x y z r)
  then have "4 * x + y div 4 < 64" "0 \<le> 4 * x + y div 4" "y mod 4 * 16 + z < 64" "0 \<le> y mod 4 * 16 + z" by (simp_all, linarith+)
  with 4 show ?case by simp
next
  case (3 x y)
  then have "4 * x + y div 4 < 64" "0 \<le> 4 * x + y div 4" "y mod 4 * 16 < 64" by (simp_all, linarith+)
  with 3 show ?case by simp
qed simp_all

lemma three_digits:
  assumes "0 \<le> x" "x < 16" "0 \<le> y" "y < 16" "0 \<le> z" "z < (16::int)"
  shows "((x * 16 + y) * 16 + z) div 64 = 4 * x + y div 4" "((x * 16 + y) * 16 + z) mod 64 = y mod 4 * 16 + z"
    "(x * 16 + y) div 4 = 4 * x + y div 4" "(x * 16 + y) mod 4 = y mod 4"
proof -
  have split: "(n * q + r) div n = q" "(n * q + r) mod n = r" if "0 \<le> r" "r < n" for n q r :: int using that by auto
  define q r where "q = y div 4" and "r = y mod 4"
  have y: "y = 4 * q + r" "0 \<le> r" "r < 4" unfolding q_def r_def by simp_all
  have "(x * 16 + y) * 16 + z = 64 * (4 * x + q) + (r * 16 + z)" unfolding y(1) by simp
  moreover have "0 \<le> r * 16 + z" "r * 16 + z < 64" using y(2,3) assms(5,6) by auto
  ultimately show "((x * 16 + y) * 16 + z) div 64 = 4 * x + y div 4" "((x * 16 + y) * 16 + z) mod 64 = y mod 4 * 16 + z"
    unfolding q_def [symmetric] r_def [symmetric] by (simp_all only: split)
  have "x * 16 + y = 4 * (4 * x + q) + r" unfolding y(1) by simp
  then show "(x * 16 + y) div 4 = 4 * x + y div 4" "(x * 16 + y) mod 4 = y mod 4"
    unfolding q_def [symmetric] r_def [symmetric] by (simp_all only: split y(2,3))
qed

lemma parsed_hexits: "hexits ds \<Longrightarrow> ds \<noteq> [] \<Longrightarrow> parsed (map hex_char ds) = hex_value ds"
  using parsed_digits [of ds] by (simp add: parsed_def hexits_def)

lemma parsed_small:
  "hexits [x] \<Longrightarrow> parsed (map hex_char [x]) = x"
  "hexits [x, y] \<Longrightarrow> parsed (map hex_char [x, y]) = x * 16 + y"
  "hexits [x, y, z] \<Longrightarrow> parsed (map hex_char [x, y, z]) = (x * 16 + y) * 16 + z"
  by (subst parsed_hexits; simp add: hex_value_def)+

lemma js_group:
  assumes "hexits [x, y, z]"
  shows "js_sar (parsed (map hex_char [x, y, z])) 6 = 4 * x + y div 4"
    "js_and (parsed (map hex_char [x, y, z])) 63 = y mod 4 * 16 + z"
proof -
  have d: "0 \<le> x" "x < 16" "0 \<le> y" "y < 16" "0 \<le> z" "z < 16" using assms by simp_all
  have r: "0 \<le> (x * 16 + y) * 16 + z" "(x * 16 + y) * 16 + z < 4096" using d by simp_all
  show "js_sar (parsed (map hex_char [x, y, z])) 6 = 4 * x + y div 4"
    unfolding parsed_small(3) [OF assms] using r three_digits(1) [OF d] by (subst js_sar_div) simp_all
  show "js_and (parsed (map hex_char [x, y, z])) 63 = y mod 4 * 16 + z"
    unfolding parsed_small(3) [OF assms] using js_and_mask [of 6 "(x * 16 + y) * 16 + z"] three_digits(2) [OF d] by simp
qed

lemma js_rest:
  assumes "hexits [x]"
  shows "js_shl (parsed (map hex_char [x])) 2 = 4 * x"
  unfolding parsed_small(1) [OF assms] using assms js_shl_mult [of x 2] by simp

lemma js_rest2:
  assumes "hexits [x, y]"
  shows "js_sar (parsed (map hex_char [x, y])) 2 = 4 * x + y div 4"
    "js_shl (js_and (parsed (map hex_char [x, y])) 3) 4 = y mod 4 * 16"
proof -
  have d: "0 \<le> x" "x < 16" "0 \<le> y" "y < 16" using assms by simp_all
  have r: "0 \<le> x * 16 + y" "x * 16 + y < 256" using d by simp_all
  show "js_sar (parsed (map hex_char [x, y])) 2 = 4 * x + y div 4"
    unfolding parsed_small(2) [OF assms] using r three_digits(3) [OF d, of 0] by (subst js_sar_div) simp_all
  have "js_and (x * 16 + y) 3 = y mod 4" using js_and_mask [of 2 "x * 16 + y"] three_digits(4) [OF d, of 0] by simp
  moreover have "js_shl (y mod 4) 4 = y mod 4 * 2 ^ 4"
    by (rule js_shl_mult) (use pos_mod_bound [of 4 y] in \<open>simp_all del: pos_mod_bound\<close>)
  ultimately show "js_shl (js_and (parsed (map hex_char [x, y])) 3) 4 = y mod 4 * 16"
    unfolding parsed_small(2) [OF assms] by simp
qed

lemma hex2b64_tail:
  assumes "hexits ds" "h = map hex_char ds"
  shows "(case b64_groups h i ret of (i, ret) \<Rightarrow> b64_tail h i ret) = ret @ b64_chars (sextets (drop i ds))"
  using assms
proof (induction h i ret rule: b64_groups.induct)
  case (1 h i ret)
  note ds = "1.prems"(1) and h = "1.prems"(2)
  have dr: "hexits (drop i ds)" using ds by (auto simp: hexits_def dest: in_set_dropD)
  show ?case
  proof (cases "i + 3 \<le> length h")
    case True
    then obtain x y z r where r: "drop i ds = x # y # z # r"
      using h by (metis Suc_le_length_iff add_diff_cancel_left' diff_le_mono length_drop length_map numeral_3_eq_3)
    have sub: "substring i (i + 3) h = map hex_char [x, y, z]"
      using r by (simp add: substring_def h drop_map)
    have r': "drop (i + 3) ds = r"
    proof -
      have "drop (i + 3) ds = drop 3 (drop i ds)" by (simp add: add.commute)
      then show ?thesis by (simp add: r)
    qed
    have x: "hexits [x, y, z]" using dr r by simp
    have "(case b64_groups h (i + 3) (ret @ charAt b64map (4 * x + y div 4) @ charAt b64map (y mod 4 * 16 + z)) of
        (i, ret) \<Rightarrow> b64_tail h i ret)
      = (ret @ charAt b64map (4 * x + y div 4) @ charAt b64map (y mod 4 * 16 + z)) @ b64_chars (sextets r)"
      using "1.IH" [OF True refl ds h] unfolding sub js_group [OF x] r' .
    moreover have "b64_chars (sextets (drop i ds)) = charAt b64map (4 * x + y div 4) @ charAt b64map (y mod 4 * 16 + z) @ b64_chars (sextets r)"
      by (simp add: r)
    ultimately show ?thesis
      using True by (subst b64_groups.simps) (simp only: if_True Let_def sub js_group [OF x] append_assoc)
  next
    case False
    then have g: "b64_groups h i ret = (i, ret)" by (subst b64_groups.simps) simp
    consider "drop i ds = []" "length ds \<le> i" | x where "drop i ds = [x]" "length ds = i + 1" | x y where "drop i ds = [x, y]" "length ds = i + 2"
    proof -
      have "length (drop i ds) < 3" using False h by simp
      then have "drop i ds = [] \<or> (\<exists>x. drop i ds = [x]) \<or> (\<exists>x y. drop i ds = [x, y])"
        by (cases "drop i ds" rule: sextets.cases) auto
      moreover have "length (drop i ds) = length ds - i" by simp
      ultimately show ?thesis
        using that by (metis One_nat_def Suc_1 diff_diff_cancel diff_is_0_eq drop_eq_Nil length_Cons list.size(3) nat_le_linear add_diff_inverse_nat less_imp_le not_less zero_neq_one nat.simps(3))
    qed
    then show ?thesis
    proof cases
      case 1
      moreover from this have "length h \<le> i" by (simp add: h)
      ultimately show ?thesis unfolding g by (simp add: b64_tail_def)
    next
      case (2 x)
      then have "substring i (i + 1) h = map hex_char [x]" "hexits [x]" "length h = i + 1"
        using dr by (simp_all add: substring_def h drop_map)
      then show ?thesis using 2 js_rest [of x] by (simp add: g b64_tail_def)
    next
      case (3 x y)
      then have "substring i (i + 2) h = map hex_char [x, y]" "hexits [x, y]" "length h = i + 2"
        using dr by (simp_all add: substring_def h drop_map)
      then show ?thesis using 3 js_rest2 [of x y] by (simp add: g b64_tail_def)
    qed
  qed
qed


lemma b64_pad_ok: "\<exists>n. b64_pad s = s @ replicate n b64padchar \<and> 4 dvd length (b64_pad s)"
proof (induction s rule: b64_pad.induct)
  case (1 ret)
  show ?case
  proof (cases "length ret mod 4 > 0")
    case True
    then obtain n where "b64_pad (ret @ [b64padchar]) = (ret @ [b64padchar]) @ replicate n b64padchar"
      "4 dvd length (b64_pad (ret @ [b64padchar]))" using "1.IH" by blast
    then show ?thesis using True by (subst (1 2) b64_pad.simps) (auto intro: exI [of _ "Suc n"])
  next
    case False
    then show ?thesis by (subst (1 2) b64_pad.simps) (auto intro: exI [of _ 0])
  qed
qed

lemma scan_values:
  "\<forall>v \<in> set vs. 0 \<le> v \<and> v < 64 \<Longrightarrow> b64_scan (b64_chars vs @ replicate n b64padchar) st = fold b64_digit vs st"
proof (induction vs arbitrary: st)
  case Nil
  then show ?case by (cases n) simp_all
next
  case (Cons v vs)
  then show ?case using scan_value [of v "b64_chars vs @ replicate n b64padchar" st] by simp
qed

definition b64_finish :: "string \<times> nat \<times> int \<Rightarrow> string" where
  "b64_finish st = (let (ret, k, slop) = st in if k = 1 then ret @ int2char (js_shl slop 2) else ret)"

lemma digit_pair:
  assumes "0 \<le> x" "x < 16" "0 \<le> y" "y < 16" "0 \<le> z" "z < 16"
  shows "b64_digit (y mod 4 * 16 + z) (b64_digit (4 * x + y div 4) (ret, 0, sl)) = (ret @ [hex_char x, hex_char y], 2, z)"
    "b64_digit (y mod 4 * 16 + z) (b64_digit (4 * x + y div 4) (ret, 2, w)) =
       (ret @ int2char w @ [hex_char x, hex_char y, hex_char z], 0, y div 4)"
    "b64_digit (4 * x) (ret, 2, w) = (ret @ int2char w @ [hex_char x], 3, 0)"
proof -
  have q: "0 \<le> y div 4" "y div 4 < 4" "0 \<le> y mod 4" "y mod 4 < 4" using assms by auto
  define a b where "a = 4 * x + y div 4" and "b = y mod 4 * 16 + z"
  have a: "0 \<le> a" "a < 64" "a div 4 = x" "a mod 4 = y div 4" using q assms by (simp_all add: a_def)
  have b: "0 \<le> b" "b < 64" "b div 16 = y mod 4" "b mod 16 = z" using q assms by (simp_all add: b_def)
  have j: "js_or (js_shl (y div 4) 2) (y mod 4) = y" using js_join [OF q] by simp
  note ops = js_digit_ops [OF a(1,2)] js_digit_ops [OF b(1,2)]
  show "b64_digit (y mod 4 * 16 + z) (b64_digit (4 * x + y div 4) (ret, 0, sl)) = (ret @ [hex_char x, hex_char y], 2, z)"
    unfolding a_def [symmetric] b_def [symmetric] using assms by (simp add: b64_digit_def ops a(3,4) b(3,4) j int2char_hex)
  show "b64_digit (y mod 4 * 16 + z) (b64_digit (4 * x + y div 4) (ret, 2, w)) =
       (ret @ int2char w @ [hex_char x, hex_char y, hex_char z], 0, y div 4)"
    unfolding a_def [symmetric] b_def [symmetric] using assms by (simp add: b64_digit_def ops a(3,4) b(3,4) j int2char_hex)
  show "b64_digit (4 * x) (ret, 2, w) = (ret @ int2char w @ [hex_char x], 3, 0)"
    using assms js_digit_ops [of "4 * x"] by (simp add: b64_digit_def int2char_hex)
qed

lemma decode_sextets:
  "hexits ds \<Longrightarrow> even (length ds) \<Longrightarrow>
     b64_finish (fold b64_digit (sextets ds) (ret, 0, sl)) = ret @ map hex_char ds"
  "hexits ds \<Longrightarrow> odd (length ds) \<Longrightarrow> 0 \<le> w \<Longrightarrow> w < 16 \<Longrightarrow>
     b64_finish (fold b64_digit (sextets ds) (ret, 2, w)) = ret @ hex_char w # map hex_char ds"
proof (induction ds arbitrary: ret sl w rule: sextets.induct)
  case 1
  { case 1 show ?case by (simp add: b64_finish_def) }
  { case 2 then show ?case by simp }
next
  case (2 x)
  { case 1 then show ?case by simp }
  { case 2 then show ?case using digit_pair(3) [of x 0 0] by (simp add: b64_finish_def int2char_hex) }
next
  case (3 x y)
  { case 1 then show ?case using digit_pair(1) [of x y 0] by (simp add: b64_finish_def) }
  { case 2 then show ?case by simp }
next
  case (4 x y z r)
  { case 1
    then have "0 \<le> x" "x < 16" "0 \<le> y" "y < 16" "0 \<le> z" "z < 16" "hexits r" "odd (length r)" by simp_all
    then show ?case using digit_pair(1) [of x y z ret sl] "4.IH"(2) by simp }
  { case 2
    then have "0 \<le> x" "x < 16" "0 \<le> y" "y < 16" "0 \<le> z" "z < 16" "hexits r" "even (length r)" by simp_all
    then show ?case using digit_pair(2) [of x y z ret w] "4.IH"(1) 2 by (simp add: int2char_hex) }
qed

lemma hexits_of:
  assumes "\<forall>c \<in> set h. lower_hex c"
  obtains ds where "hexits ds" "h = map hex_char ds"
proof -
  have "\<exists>ds. hexits ds \<and> h = map hex_char ds" using assms
  proof (induction h)
    case (Cons c h)
    then obtain ds where "hexits ds" "h = map hex_char ds" by auto
    moreover obtain d where "0 \<le> d" "d < 16" "c = hex_char d" using lower_hex_digit Cons.prems by auto
    ultimately show ?case by (intro exI [of _ "d # ds"]) simp
  qed (auto intro: exI [of _ "[]"])
  then show ?thesis using that by blast
qed

lemma hex2b64_chars:
  assumes "hexits ds"
  shows "hex2b64 (map hex_char ds) = b64_pad (b64_chars (sextets ds))"
  using hex2b64_tail [OF assms refl, of 0 "[]"] by (simp add: hex2b64_def case_prod_unfold Let_def)

lemma b64_round_trip:
  assumes "\<forall>c \<in> set h. lower_hex c" "even (length h)"
  shows "b64tohex (hex2b64 h) = h"
proof -
  obtain ds where ds: "hexits ds" "h = map hex_char ds" using assms(1) by (rule hexits_of)
  obtain n where "hex2b64 h = b64_chars (sextets ds) @ replicate n b64padchar"
    using hex2b64_chars [OF ds(1)] b64_pad_ok ds(2) by metis
  then have "b64tohex (hex2b64 h) = b64_finish (fold b64_digit (sextets ds) ([], 0, 0))"
    using scan_values [OF sextets_range [OF ds(1)]] by (simp add: b64tohex_def b64_finish_def)
  then show ?thesis using decode_sextets(1) [OF ds(1)] assms(2) ds(2) by simp
qed


text \<open>Two digits for each byte: the array of bytes comes back.\<close>

lemma hex_of_bytes_pair:
  "i < length bs \<Longrightarrow> substring (2 * i) (2 * i + 2) (hex_of_bytes bs) = map hex_char [bs ! i div 16, bs ! i mod 16]"
proof (induction bs arbitrary: i)
  case (Cons b bs)
  show ?case
  proof (cases i)
    case 0
    then show ?thesis by (simp add: hex_of_bytes_def substring_def)
  next
    case (Suc j)
    then show ?thesis using Cons.IH [of j] Cons.prems by (simp add: hex_of_bytes_def substring_def)
  qed
qed simp

lemma b64toBA_ok:
  assumes "\<forall>b \<in> set bs. 0 \<le> b \<and> b < 256"
  shows "b64toBA (hex2b64 (hex_of_bytes bs)) = map Some bs"
proof -
  have len: "length (hex_of_bytes bs) = 2 * length bs" by (induction bs) (simp_all add: hex_of_bytes_def)
  have low: "\<forall>c \<in> set (hex_of_bytes bs). lower_hex c"
    using assms by (auto simp: hex_of_bytes_def intro!: hex_char_lower)
  have "parseInt16 (substring (2 * i) (2 * i + 2) (hex_of_bytes bs)) = Some (bs ! i)" if "i < length bs" for i
  proof -
    have b: "0 \<le> bs ! i" "bs ! i < 256" using assms that by auto
    then have "parseInt16 (map hex_char [bs ! i div 16, bs ! i mod 16]) = Some (hex_value [bs ! i div 16, bs ! i mod 16])"
      by (intro parsed_digits) auto
    then show ?thesis unfolding hex_of_bytes_pair [OF that] by (simp add: hex_value_def)
  qed
  moreover have "(2 * length bs + 1) div 2 = length bs" by simp
  ultimately show ?thesis
    unfolding b64toBA_def Let_def b64_round_trip [OF low, unfolded len, simplified] len
    by (intro nth_equalityI) simp_all
qed


end
