(* ===== verification/Crypto_Props.thy ===== *)
theory Crypto_Props
  imports Rsa Base64 Bn_Props
begin

text \<open>
  The properties of the encryption (encrypt/rsa.js, rng.js, prng4.js, base64.js), over the
  arithmetic of \<open>Bn_Props\<close>.
\<close>

section \<open>RSA\<close>

lemma byte_count:
  assumes "div_engine E" "bn_wf E n" "256 ^ (k - 1) \<le> bval E n" "bval E n < 256 ^ k" "1 \<le> k"
  shows "(bnBitLength E n + 7) div 8 = k"
proof -
  let ?b = "bnBitLength E n" let ?v = "bval E n"
  have pos: "0 < ?v"
  proof -
    have "(1::int) \<le> 256 ^ (k - 1)" by simp
    then show ?thesis using assms(3) by linarith
  qed
  have dw: "digit_width E" using assms(1) by (rule div_engine.axioms(1) [THEN digit_engine.axioms(1)])
  note b = digit_width.bitLength_ok(1) [OF dw assms(2) less_imp_le [OF pos]]
    digit_width.bitLength_ok(2) [OF dw assms(2) less_imp_le [OF pos] pos]
  have "(2::int) ^ (8 * (k - 1)) < 2 ^ ?b" using assms(3) b(1) by (simp add: power_mult)
  then have "8 * (k - 1) < ?b" by (simp add: power_strict_increasing_iff)
  moreover have "(2::int) ^ (?b - 1) < 2 ^ (8 * k)" using assms(4) b(2) by (simp add: power_mult)
  then have "?b - 1 < 8 * k" by (simp add: power_strict_increasing_iff)
  ultimately show ?thesis using assms(5) by linarith
qed

text \<open>C2: Encrypting a text with a public key set from hexadecimal strings returns an even number of
  hexadecimal digits whose value is the padded block to the power of the exponent modulo the key.
  The block is smaller than the modulus, so that it can be recovered. It is assumed that the text's
  UTF-8 encoding fits and that the generator gives enough non-zero bytes among its next \<open>d\<close>.\<close>

theorem RSAEncrypt_correct:
  assumes "appName = ''Netscape'' \<or> appName = ''Microsoft Internet Explorer''"
  defines "E \<equiv> bn_prototype appName"
  assumes "N \<noteq> []" "\<forall>c \<in> set N. is_digit 4 c" "256 ^ (k - 1) \<le> str_val 4 N" "str_val 4 N < 256 ^ k" "1 \<le> k" "k < 2 ^ 27"
    and "X \<noteq> []" "parseInt16 X = Some e" "0 < e" "e < 2 ^ 32"
    and "units s" "length s + 11 \<le> k" "length (utf8 s) + 3 \<le> k"
    and "rng_ok g" "k - length (utf8 s) - 3 \<le> length (nonzero (draws now g d))"
  shows "\<exists>K h g'. RSASetPublic E (Some N) (Some X) RSAKey = Some (None, K) \<and>
    RSAEncrypt E now K s g = Some (Inr h, g') \<and> even (length h) \<and> (\<forall>c \<in> set h. is_digit 4 c) \<and>
    str_val 4 h = bytes_val (pkcs1_block now g d s k) ^ nat e mod str_val 4 N \<and>
    bytes_val (pkcs1_block now g d s k) < str_val 4 N \<and> rng_ok g'"
proof -
  have de: "div_engine E" unfolding E_def by (rule prototype_div [OF assms(1)])
  then have dw: "digit_width E" by (rule div_engine.axioms(1) [THEN digit_engine.axioms(1)])
  obtain n where n: "parse_string E N 16 = Some n" "bn_wf E n" "bval E n = str_val 4 N"
    using digit_width.parse_string_ok [OF dw, of 16 4 N] assms(4) by (auto simp: radix_bits_def)
  let ?K = "RSAKey\<lparr>rsa_n := Some n, rsa_e := Some e\<rparr>"
  have k: "(bnBitLength E n + 7) div 8 = k" by (rule byte_count [OF de n(2)]) (use assms(5-7) n(3) in simp_all)
  have pos: "0 < bval E n"
  proof -
    have "(1::int) \<le> 256 ^ (k - 1)" by simp
    then show ?thesis using assms(5) n(3) by linarith
  qed
  have small: "int (bnBitLength E n) + 7 < 2 ^ 31" using k assms(8) by simp
  have "RSASetPublic E (Some N) (Some X) RSAKey = Some (None, ?K)"
    using assms(3,9,10) n(1) by (simp add: RSASetPublic_def parseBigInt_def)
  moreover have "rsa_n ?K = Some n" "rsa_e ?K = Some e" by simp_all
  ultimately show ?thesis
    using div_engine.encrypt_ok [OF de n(2) pos small k [symmetric], of ?K e s g now d] assms(11-) n(3) by auto
qed

definition sample_rng :: rng where
  "sample_rng = \<lparr>rng_state = Some \<lparr>arc_i = 0, arc_j = 0, arc_S = map int [0..<256]\<rparr>,
     rng_pool = replicate 256 0, rng_pptr = 0\<rparr>"

lemma sample_rng_ok: "rng_ok sample_rng"
  unfolding rng_ok_iff sample_rng_def arc_ok_def byte_values_def byte_pool_def rng_psize_def by simp

lemma sample_draws: "draws 0 sample_rng 8 = [2, 5, 7, 13, 13, 23, 31, 40]"
  unfolding sample_rng_def by code_simp

theorem RSAEncrypt_correct_witness:
  "\<exists>K h g'. RSASetPublic (bn_prototype ''Netscape'') (Some ''c1d2e3f405162738495a6b7d'') (Some ''10001'') RSAKey = Some (None, K) \<and>
     RSAEncrypt (bn_prototype ''Netscape'') 0 K [104] sample_rng = Some (Inr h, g') \<and> even (length h)"
proof -
  have v: "str_val 4 ''c1d2e3f405162738495a6b7d'' = 0xc1d2e3f405162738495a6b7d"
    by (simp add: str_val_def be_val_def char_digit_def BI_RC_def)
  have d: "\<forall>c \<in> set ''c1d2e3f405162738495a6b7d''. is_digit 4 c"
    by (simp add: is_digit_def char_digit_def BI_RC_def)
  have e: "parseInt16 ''10001'' = Some 65537"
    by (simp add: parseInt16_def is_white_def hex_digit_def hex_value_def Let_def)
  have u: "utf8 [104] = [104]" by (simp add: utf8_unit_def)
  show ?thesis
    using RSAEncrypt_correct [of "''Netscape''" "''c1d2e3f405162738495a6b7d''" 12 "''10001''" 65537 "[104]" sample_rng 0 8]
      v d e u sample_rng_ok sample_draws by (auto simp: units_def)
qed

text \<open>C23: The padding: when the text's encoding fits, the encoded block is 00 02, non-zero padding, 00 and
  the UTF-8 bytes of the text; it has the size asked for and its value is the big integer returned.\<close>

theorem pkcs1pad2_block:
  assumes "units s" "length s + 11 \<le> n" "length (utf8 s) + 3 \<le> n" "rng_ok g"
    and "n - length (utf8 s) - 3 \<le> length (nonzero (draws now g d))"
  shows "\<exists>ps m g'. pkcs1pad2 (bn_prototype appName) now s (int n) g = Some (Inr m, g') \<and>
    bval (bn_prototype appName) m = bytes_val ([0, 2] @ ps @ [0] @ utf8 s) \<and>
    length ([0, 2] @ ps @ [0] @ utf8 s) = n \<and> (\<forall>b \<in> set ps. 0 < b \<and> b < 256) \<and> rng_ok g'"
proof -
  let ?ps = "pad_bytes now g d (n - length (utf8 s) - 3)"
  have dw: "digit_width (bn_prototype appName)" by (rule bn_prototype_engine [THEN digit_engine.axioms(1)])
  have b: "pkcs1_block now g d s n = [0, 2] @ ?ps @ [0] @ utf8 s" by (simp add: pkcs1_block_def)
  have "\<forall>b \<in> set ?ps. 0 < b \<and> b < 256"
    using draws_bytes [OF assms(4)] by (force simp: pad_bytes_def dest: in_set_takeD)
  then show ?thesis
    using pkcs1pad2_ok [OF dw assms(1-3,5)] pkcs1_block_length [OF assms(3,5)] assms(4) unfolding b by blast
qed

theorem pkcs1pad2_block_witness:
  "\<exists>ps m g'. pkcs1pad2 (bn_prototype ''Netscape'') 0 [104] 12 sample_rng = Some (Inr m, g') \<and> length ps = 8 \<and>
     bval (bn_prototype ''Netscape'') m = bytes_val ([0, 2] @ ps @ [0] @ [104])"
proof -
  have u: "utf8 [104] = [104]" by (simp add: utf8_unit_def)
  have "units [104]" by (simp add: units_def)
  then show ?thesis
    using pkcs1pad2_block [of "[104]" 12 sample_rng 0 8 "''Netscape''"] sample_rng_ok sample_draws unfolding u by force
qed

text \<open>Encryption refuses without side effect: a key that was never set raises, a text whose length
  leaves no room for the padding gives the alert and \<open>null\<close>, and an empty key is not accepted.\<close>

theorem RSAEncrypt_refuses:
  assumes "n < int (length s) + 11"
  shows "pkcs1pad2 E now s n g = Some (Inl (Alert ''Message too long for RSA''), g) \<and>
    RSAEncrypt E now RSAKey s g = Some (Inl Type_Error, g) \<and>
    RSASetPublic E (Some []) X K = Some (Some ''Invalid RSA public key'', K) \<and>
    RSASetPublic E None X K = Some (Some ''Invalid RSA public key'', K)"
  using assms by (simp add: RSAEncrypt_def RSAKey_def pkcs1pad2_def RSASetPublic_def split: option.split)

theorem RSAEncrypt_refuses_witness:
  "pkcs1pad2 (bn_prototype ''Netscape'') 0 [104, 105] 12 sample_rng = Some (Inl (Alert ''Message too long for RSA''), sample_rng)"
  using RSAEncrypt_refuses [of 12 "[104, 105]" "bn_prototype ''Netscape''" 0 sample_rng] by simp

text \<open>C33: The length check counts UTF-16 units, not bytes. When the encoding of the end t of a text alone fills
  the block, the check passes all the same and a block results, without a message: it holds the last n bytes of
  that encoding and nothing else - no 00 02 header, no padding, for which no byte of the generator is drawn -, and
  what comes before t is dropped, so that texts with different beginnings become the same block.\<close>

theorem pkcs1pad2_drops_head:
  assumes "units t" "n \<le> length (utf8 t)" "length p + length t + 11 \<le> n" "length q + length t + 11 \<le> n"
  shows "\<exists>m. bn_wf (bn_prototype appName) m \<and>
    bval (bn_prototype appName) m = bytes_val (drop (length (utf8 t) - n) (utf8 t)) \<and>
    pkcs1pad2 (bn_prototype appName) now (p @ t) (int n) g = Some (Inr m, g) \<and>
    pkcs1pad2 (bn_prototype appName) now (q @ t) (int n) g = Some (Inr m, g)"
proof -
  have dw: "digit_width (bn_prototype appName)" by (rule bn_prototype_engine [THEN digit_engine.axioms(1)])
  show ?thesis
    using pkcs1pad2_over [OF dw assms(1-3), of now g] pkcs1pad2_over [OF dw assms(1,2,4), of now g] by fastforce
qed

theorem pkcs1pad2_drops_head_witness:
  \<comment> \<open>eight Chinese characters, of 24 bytes, in a block of 20; before them a y or an n\<close>
  "\<exists>m. bval (bn_prototype ''Netscape'') m = bytes_val (drop 4 (concat (replicate 8 [0xE4, 0xB8, 0xAD]))) \<and>
     pkcs1pad2 (bn_prototype ''Netscape'') 0 (0x79 # replicate 8 0x4E2D) 20 sample_rng = Some (Inr m, sample_rng) \<and>
     pkcs1pad2 (bn_prototype ''Netscape'') 0 (0x6E # replicate 8 0x4E2D) 20 sample_rng = Some (Inr m, sample_rng)"
proof -
  let ?t = "replicate 8 0x4E2D :: int list"
  have u: "units ?t" "utf8 ?t = concat (replicate 8 [0xE4, 0xB8, 0xAD])"
    by (simp_all add: units_def utf8_def utf8_unit_def eval_nat_numeral)
  have l: "length (concat (replicate 8 [0xE4, 0xB8, 0xAD :: int])) = 24" by (simp add: eval_nat_numeral)
  show ?thesis
    using pkcs1pad2_drops_head [of ?t 20 "[0x79]" "[0x6E]" "''Netscape''" 0 sample_rng] u(1) unfolding u(2) l by auto
qed

text \<open>Breaking a string into lines ends for every positive line length and puts a line feed after
  every \<open>n\<close> characters that are followed by more.\<close>

theorem linebrk_correct:
  assumes "0 < n"
  shows "linebrk s n = Some (lines_of n s (CHR 0x0A) (length s))"
  using assms by (rule linebrk_ok)

theorem linebrk_correct_witness: "linebrk ''abcde'' 2 = Some ''ab\<newline>cd\<newline>e''"
  using linebrk_correct [of 2 "''abcde''"] by (simp add: numeral_eq_Suc)

section \<open>Random numbers\<close>

text \<open>C40: Loading the page leaves a well-formed generator whatever the sources of entropy give: a full
  pool of bytes and an aligned pointer.\<close>

theorem rng_load_well_formed:
  assumes "\<And>c ua. crypto = Some c \<Longrightarrow> getRandomValues c = Some ua \<Longrightarrow> \<forall>t < 32. 0 \<le> get ua t \<and> get ua t < 256"
    and "\<And>c. crypto = Some c \<Longrightarrow> length (random32 c) = 32" and "\<And>t. 0 \<le> rnd t \<and> rnd t < 65536"
  shows "rng_ok (rng_load appName appVersion crypto rnd now)"
  using assms by (rule rng_load_ok)

theorem rng_load_well_formed_witness: "rng_ok (rng_load ''Netscape'' ''5.0'' None (\<lambda>t. 1000 + int t mod 7) 1700000000000)"
proof (rule rng_load_well_formed)
  show "0 \<le> 1000 + int t mod 7 \<and> 1000 + int t mod 7 < 65536" for t
  proof -
    have "int t mod 7 < 7" "0 \<le> int t mod 7" by simp_all
    then show ?thesis by linarith
  qed
qed simp_all

text \<open>C32: Drawing a byte keeps the generator well formed - its state array stays a permutation of the
  bytes, its pool a pool of bytes - and gives a byte; seeding it again keeps it well formed too.\<close>

theorem rng_invariant:
  assumes "rng_ok g" "rng_get_byte now g = (b, g')"
  shows "rng_ok g' \<and> 0 \<le> b \<and> b < 256 \<and> rng_state g' \<noteq> None \<and> rng_ok (rng_seed_int x g')"
  using rng_get_byte_ok [OF assms] rng_seed_int_ok by blast

theorem rng_invariant_witness: "rng_ok (snd (rng_get_byte 0 sample_rng)) \<and> rng_ok (rng_seed_int 77 (snd (rng_get_byte 0 sample_rng)))"
  using rng_invariant [OF sample_rng_ok, of 0 "fst (rng_get_byte 0 sample_rng)" "snd (rng_get_byte 0 sample_rng)" 77] by simp

text \<open>C28: Initialising Arcfour with any key gives a permutation of the 256 bytes, and every output step
  keeps one and gives a byte.\<close>

theorem ARC4_permutation:
  assumes "ARC4next (ARC4init key Arcfour) = (b, a)"
  shows "mset (arc_S (ARC4init key Arcfour)) = mset (map int [0..<256]) \<and> mset (arc_S a) = mset (map int [0..<256]) \<and>
    0 \<le> b \<and> b < 256"
proof -
  have ok: "arc_ok (ARC4init key Arcfour)" by (rule ARC4init_ok) (simp add: Arcfour_def)
  then show ?thesis using ARC4next_ok [OF ok assms] unfolding arc_ok_def byte_values_def by blast
qed

theorem ARC4_permutation_witness:
  "mset (arc_S (snd (ARC4next (ARC4init [1, 2, 3] Arcfour)))) = mset (map int [0..<256])"
  using ARC4_permutation [of "[1, 2, 3]" "fst (ARC4next (ARC4init [1, 2, 3] Arcfour))" "snd (ARC4next (ARC4init [1, 2, 3] Arcfour))"]
  by (simp only: prod.collapse simp_thms)

section \<open>Base64\<close>

text \<open>C24: Decoding what the encoder gives for a string of whole bytes in lower-case hexadecimal returns
  the string.\<close>

theorem base64_round_trip:
  assumes "\<forall>c \<in> set h. lower_hex c" "even (length h)"
  shows "b64tohex (hex2b64 h) = h"
  using assms by (rule b64_round_trip)

theorem base64_round_trip_witness: "b64tohex (hex2b64 ''68692e7f'') = ''68692e7f''"
  by (rule base64_round_trip) (simp_all add: lower_hex_def)

text \<open>Encoding bytes and decoding them to an array of bytes returns the bytes, and the encoding is
  padded to a multiple of four characters.\<close>

theorem base64_bytes_round_trip:
  assumes "\<forall>b \<in> set bs. 0 \<le> b \<and> b < 256"
  shows "b64toBA (hex2b64 (hex_of_bytes bs)) = map Some bs \<and> 4 dvd length (hex2b64 (hex_of_bytes bs))"
  using b64toBA_ok [OF assms] b64_pad_ok unfolding hex2b64_def by (auto simp: case_prod_unfold Let_def)

theorem base64_bytes_round_trip_witness: "b64toBA (hex2b64 (hex_of_bytes [0, 104, 255])) = [Some 0, Some 104, Some 255]"
  using base64_bytes_round_trip [of "[0, 104, 255]"] by simp

end
