(* ===== verification/Md5.thy ===== *)
theory Md5
  imports Js_Text
begin

text \<open>
  MD5 and HMAC-MD5 (encrypt/jquery.md5.js): additions over 16-bit halves, the four unrolled rounds,
  the padding of an array of little-endian words, and the entry point \<open>$.md5\<close>. A number under the
  bitwise operators is a word of 32 bits; a raw string is the list of its character codes.
\<close>

section \<open>Words\<close>

type_synonym word32 = "32 word"
type_synonym quad = "word32 \<times> word32 \<times> word32 \<times> word32"

text \<open>A cell that was never written is \<open>undefined\<close>, which the bitwise operators read as 0.\<close>

definition wget :: "word32 list \<Rightarrow> nat \<Rightarrow> word32" where
  "wget x i = (if i < length x then x ! i else 0)"

definition wput :: "word32 list \<Rightarrow> int \<Rightarrow> word32 \<Rightarrow> word32 list" where
  \<comment> \<open>x[i] = v; a negative index is not an element\<close>
  "wput x i v =
     (if i < 0 then x
      else if nat i < length x then x[nat i := v]
      else x @ replicate (nat i - length x) 0 @ [v])"

definition safe_add :: "word32 \<Rightarrow> word32 \<Rightarrow> word32" where
  "safe_add x y =
     (let lsw = (x AND 0xFFFF) + (y AND 0xFFFF);
          msw = signed_drop_bit 16 x + signed_drop_bit 16 y + signed_drop_bit 16 lsw
      in push_bit 16 msw OR (lsw AND 0xFFFF))"

definition bit_rol :: "word32 \<Rightarrow> nat \<Rightarrow> word32" where
  "bit_rol num cnt = push_bit cnt num OR drop_bit (32 - cnt) num"

definition md5_cmn :: "word32 \<Rightarrow> word32 \<Rightarrow> word32 \<Rightarrow> word32 \<Rightarrow> nat \<Rightarrow> word32 \<Rightarrow> word32" where
  "md5_cmn q a b x s t = safe_add (bit_rol (safe_add (safe_add a q) (safe_add x t)) s) b"

definition md5_ff :: "word32 \<Rightarrow> word32 \<Rightarrow> word32 \<Rightarrow> word32 \<Rightarrow> word32 \<Rightarrow> nat \<Rightarrow> word32 \<Rightarrow> word32" where
  "md5_ff a b c d x s t = md5_cmn ((b AND c) OR ((NOT b) AND d)) a b x s t"

definition md5_gg :: "word32 \<Rightarrow> word32 \<Rightarrow> word32 \<Rightarrow> word32 \<Rightarrow> word32 \<Rightarrow> nat \<Rightarrow> word32 \<Rightarrow> word32" where
  "md5_gg a b c d x s t = md5_cmn ((b AND d) OR (c AND (NOT d))) a b x s t"

definition md5_hh :: "word32 \<Rightarrow> word32 \<Rightarrow> word32 \<Rightarrow> word32 \<Rightarrow> word32 \<Rightarrow> nat \<Rightarrow> word32 \<Rightarrow> word32" where
  "md5_hh a b c d x s t = md5_cmn ((b XOR c) XOR d) a b x s t"

definition md5_ii :: "word32 \<Rightarrow> word32 \<Rightarrow> word32 \<Rightarrow> word32 \<Rightarrow> word32 \<Rightarrow> nat \<Rightarrow> word32 \<Rightarrow> word32" where
  "md5_ii a b c d x s t = md5_cmn (c XOR (b OR (NOT d))) a b x s t"

section \<open>The four unrolled rounds\<close>

definition md5_round1 :: "word32 list \<Rightarrow> nat \<Rightarrow> quad \<Rightarrow> quad" where
  "md5_round1 x i st =
     (let (a, b, c, d) = st;
          a = md5_ff a b c d (wget x i) 7 (-680876936);
          d = md5_ff d a b c (wget x (i + 1)) 12 (-389564586);
          c = md5_ff c d a b (wget x (i + 2)) 17 606105819;
          b = md5_ff b c d a (wget x (i + 3)) 22 (-1044525330);
          a = md5_ff a b c d (wget x (i + 4)) 7 (-176418897);
          d = md5_ff d a b c (wget x (i + 5)) 12 1200080426;
          c = md5_ff c d a b (wget x (i + 6)) 17 (-1473231341);
          b = md5_ff b c d a (wget x (i + 7)) 22 (-45705983);
          a = md5_ff a b c d (wget x (i + 8)) 7 1770035416;
          d = md5_ff d a b c (wget x (i + 9)) 12 (-1958414417);
          c = md5_ff c d a b (wget x (i + 10)) 17 (-42063);
          b = md5_ff b c d a (wget x (i + 11)) 22 (-1990404162);
          a = md5_ff a b c d (wget x (i + 12)) 7 1804603682;
          d = md5_ff d a b c (wget x (i + 13)) 12 (-40341101);
          c = md5_ff c d a b (wget x (i + 14)) 17 (-1502002290);
          b = md5_ff b c d a (wget x (i + 15)) 22 1236535329
      in (a, b, c, d))"

definition md5_round2 :: "word32 list \<Rightarrow> nat \<Rightarrow> quad \<Rightarrow> quad" where
  "md5_round2 x i st =
     (let (a, b, c, d) = st;
          a = md5_gg a b c d (wget x (i + 1)) 5 (-165796510);
          d = md5_gg d a b c (wget x (i + 6)) 9 (-1069501632);
          c = md5_gg c d a b (wget x (i + 11)) 14 643717713;
          b = md5_gg b c d a (wget x i) 20 (-373897302);
          a = md5_gg a b c d (wget x (i + 5)) 5 (-701558691);
          d = md5_gg d a b c (wget x (i + 10)) 9 38016083;
          c = md5_gg c d a b (wget x (i + 15)) 14 (-660478335);
          b = md5_gg b c d a (wget x (i + 4)) 20 (-405537848);
          a = md5_gg a b c d (wget x (i + 9)) 5 568446438;
          d = md5_gg d a b c (wget x (i + 14)) 9 (-1019803690);
          c = md5_gg c d a b (wget x (i + 3)) 14 (-187363961);
          b = md5_gg b c d a (wget x (i + 8)) 20 1163531501;
          a = md5_gg a b c d (wget x (i + 13)) 5 (-1444681467);
          d = md5_gg d a b c (wget x (i + 2)) 9 (-51403784);
          c = md5_gg c d a b (wget x (i + 7)) 14 1735328473;
          b = md5_gg b c d a (wget x (i + 12)) 20 (-1926607734)
      in (a, b, c, d))"

definition md5_round3 :: "word32 list \<Rightarrow> nat \<Rightarrow> quad \<Rightarrow> quad" where
  "md5_round3 x i st =
     (let (a, b, c, d) = st;
          a = md5_hh a b c d (wget x (i + 5)) 4 (-378558);
          d = md5_hh d a b c (wget x (i + 8)) 11 (-2022574463);
          c = md5_hh c d a b (wget x (i + 11)) 16 1839030562;
          b = md5_hh b c d a (wget x (i + 14)) 23 (-35309556);
          a = md5_hh a b c d (wget x (i + 1)) 4 (-1530992060);
          d = md5_hh d a b c (wget x (i + 4)) 11 1272893353;
          c = md5_hh c d a b (wget x (i + 7)) 16 (-155497632);
          b = md5_hh b c d a (wget x (i + 10)) 23 (-1094730640);
          a = md5_hh a b c d (wget x (i + 13)) 4 681279174;
          d = md5_hh d a b c (wget x i) 11 (-358537222);
          c = md5_hh c d a b (wget x (i + 3)) 16 (-722521979);
          b = md5_hh b c d a (wget x (i + 6)) 23 76029189;
          a = md5_hh a b c d (wget x (i + 9)) 4 (-640364487);
          d = md5_hh d a b c (wget x (i + 12)) 11 (-421815835);
          c = md5_hh c d a b (wget x (i + 15)) 16 530742520;
          b = md5_hh b c d a (wget x (i + 2)) 23 (-995338651)
      in (a, b, c, d))"

definition md5_round4 :: "word32 list \<Rightarrow> nat \<Rightarrow> quad \<Rightarrow> quad" where
  "md5_round4 x i st =
     (let (a, b, c, d) = st;
          a = md5_ii a b c d (wget x i) 6 (-198630844);
          d = md5_ii d a b c (wget x (i + 7)) 10 1126891415;
          c = md5_ii c d a b (wget x (i + 14)) 15 (-1416354905);
          b = md5_ii b c d a (wget x (i + 5)) 21 (-57434055);
          a = md5_ii a b c d (wget x (i + 12)) 6 1700485571;
          d = md5_ii d a b c (wget x (i + 3)) 10 (-1894986606);
          c = md5_ii c d a b (wget x (i + 10)) 15 (-1051523);
          b = md5_ii b c d a (wget x (i + 1)) 21 (-2054922799);
          a = md5_ii a b c d (wget x (i + 8)) 6 1873313359;
          d = md5_ii d a b c (wget x (i + 15)) 10 (-30611744);
          c = md5_ii c d a b (wget x (i + 6)) 15 (-1560198380);
          b = md5_ii b c d a (wget x (i + 13)) 21 1309151649;
          a = md5_ii a b c d (wget x (i + 4)) 6 (-145523070);
          d = md5_ii d a b c (wget x (i + 11)) 10 (-1120210379);
          c = md5_ii c d a b (wget x (i + 2)) 15 718787259;
          b = md5_ii b c d a (wget x (i + 9)) 21 (-343485551)
      in (a, b, c, d))"

section \<open>The digest\<close>

definition md5_block :: "word32 list \<Rightarrow> nat \<Rightarrow> quad \<Rightarrow> quad" where
  \<comment> \<open>the body of the loop over the blocks\<close>
  "md5_block x i st =
     (let (olda, oldb, oldc, oldd) = st;
          (a, b, c, d) = md5_round4 x i (md5_round3 x i (md5_round2 x i (md5_round1 x i st)))
      in (safe_add a olda, safe_add b oldb, safe_add c oldc, safe_add d oldd))"

function md5_blocks :: "word32 list \<Rightarrow> nat \<Rightarrow> quad \<Rightarrow> quad" where
  \<comment> \<open>for (i = 0; i < x.length; i += 16)\<close>
  "md5_blocks x i st = (if i < length x then md5_blocks x (i + 16) (md5_block x i st) else st)"
  by auto
termination by (relation "measure (\<lambda>(x, i, st). length x - i)") auto

declare md5_blocks.simps [simp del]

definition md5_padding :: "word32 list \<Rightarrow> int \<Rightarrow> word32 list" where
  "md5_padding x len =
     (let i = js_sar len 5;
          x = wput x i (wget x (nat i) OR push_bit (nat (len mod 32)) 0x80)
      in wput x (js_shl (js_shr (len + 64) 9) 4 + 14) (word_of_int len))"

definition binl_md5 :: "word32 list \<Rightarrow> int \<Rightarrow> word32 list" where
  "binl_md5 x len =
     (let (a, b, c, d) = md5_blocks (md5_padding x len) 0 (1732584193, -271733879, -1732584194, 271733878)
      in [a, b, c, d])"

section \<open>Raw strings\<close>

definition binl2rstr :: "word32 list \<Rightarrow> int list" where
  \<comment> \<open>the loop over the bits counts bytes here: i = 8 * j\<close>
  "binl2rstr input =
     map (\<lambda>j. uint (drop_bit (8 * j mod 32) (input ! (8 * j div 32)) AND 0xFF)) [0..<length input * 4]"

definition rstr2binl :: "int list \<Rightarrow> word32 list" where
  "rstr2binl input =
     for_up 0 (length input)
       (\<lambda>j out. wput out (int (8 * j div 32))
          (wget out (8 * j div 32) OR push_bit (8 * j mod 32) (word_of_int (input ! j) AND 0xFF)))
       (replicate (length input div 4) 0)"

definition rstr_md5 :: "int list \<Rightarrow> int list" where
  "rstr_md5 s = binl2rstr (binl_md5 (rstr2binl s) (int (length s) * 8))"

definition rstr_hmac_md5 :: "int list \<Rightarrow> int list \<Rightarrow> int list" where
  "rstr_hmac_md5 key data =
     (let bkey = rstr2binl key;
          bkey = (if length bkey > 16 then binl_md5 bkey (int (length key) * 8) else bkey);
          ipad = map (\<lambda>i. wget bkey i XOR 0x36363636) [0..<16];
          opad = map (\<lambda>i. wget bkey i XOR 0x5C5C5C5C) [0..<16];
          hash = binl_md5 (ipad @ rstr2binl data) (512 + int (length data) * 8)
      in binl2rstr (binl_md5 (opad @ hash) (512 + 128)))"

definition rstr2hex :: "int list \<Rightarrow> string" where
  "rstr2hex input =
     concat (map (\<lambda>x. charAt ''0123456789abcdef'' (js_and (js_shr x 4) 0x0F) @
                      charAt ''0123456789abcdef'' (js_and x 0x0F)) input)"

text \<open>
  \<open>unescape(encodeURIComponent(input))\<close>: the bytes of the UTF-8 encoding of the code points of the
  UTF-16 string. \<open>None\<close> is the URIError raised for a surrogate without its partner.
\<close>

definition utf8_point :: "int \<Rightarrow> int list" where
  "utf8_point c =
     (if c < 128 then [c]
      else if c < 2048 then [192 + c div 64, 128 + c mod 64]
      else if c < 65536 then [224 + c div 4096, 128 + c div 64 mod 64, 128 + c mod 64]
      else [240 + c div 262144, 128 + c div 4096 mod 64, 128 + c div 64 mod 64, 128 + c mod 64])"

fun str2rstr_utf8 :: "int list \<Rightarrow> int list option" where
  "str2rstr_utf8 [] = Some []"
| "str2rstr_utf8 (c # s) =
     (if 0xD800 \<le> c \<and> c \<le> 0xDBFF then
        (case s of
           [] \<Rightarrow> None
         | d # s' \<Rightarrow>
             if 0xDC00 \<le> d \<and> d \<le> 0xDFFF
             then map_option ((@) (utf8_point ((c - 0xD800) * 0x400 + (d - 0xDC00) + 0x10000))) (str2rstr_utf8 s')
             else None)
      else if 0xDC00 \<le> c \<and> c \<le> 0xDFFF then None
      else map_option ((@) (utf8_point c)) (str2rstr_utf8 s))"

definition raw_md5 :: "int list \<Rightarrow> int list option" where
  "raw_md5 s = Option.bind (str2rstr_utf8 s) (\<lambda>r. Some (rstr_md5 r))"

definition hex_md5 :: "int list \<Rightarrow> string option" where
  "hex_md5 s = Option.bind (raw_md5 s) (\<lambda>r. Some (rstr2hex r))"

definition raw_hmac_md5 :: "int list \<Rightarrow> int list \<Rightarrow> int list option" where
  "raw_hmac_md5 k d =
     Option.bind (str2rstr_utf8 k) (\<lambda>k. Option.bind (str2rstr_utf8 d) (\<lambda>d. Some (rstr_hmac_md5 k d)))"

definition hex_hmac_md5 :: "int list \<Rightarrow> int list \<Rightarrow> string option" where
  "hex_hmac_md5 k d = Option.bind (raw_hmac_md5 k d) (\<lambda>r. Some (rstr2hex r))"

datatype digest = Hex string | Raw "int list"

definition jq_md5 :: "int list \<Rightarrow> int list option \<Rightarrow> bool \<Rightarrow> digest option" where
  \<comment> \<open>$.md5(string, key, raw); no key and the empty key are both false\<close>
  "jq_md5 str key raw =
     (case key of
        Some (k # ks) \<Rightarrow>
          if \<not> raw then map_option Hex (hex_hmac_md5 (k # ks) str)
          else map_option Raw (raw_hmac_md5 (k # ks) str)
      | _ \<Rightarrow>
          if \<not> raw then map_option Hex (hex_md5 str)
          else map_option Raw (raw_md5 str))"

section \<open>The halves of an addition\<close>

lemma mask16: "(0xFFFF :: word32) = mask 16"
  by (simp add: mask_eq_exp_minus_1)

lemma high_low_disjoint: "push_bit 16 (h :: word32) AND (x AND mask 16) = 0"
  by (rule bit_word_eqI, simp add: bit_simps)

lemma high_or_low: "push_bit 16 (signed_drop_bit 16 (x :: word32)) OR (x AND mask 16) = x"
  by (rule bit_word_eqI, simp add: bit_simps, auto simp: not_less)

lemma or_is_add: "push_bit 16 (h :: word32) OR (x AND mask 16) = push_bit 16 h + (x AND mask 16)"
  by (rule disjunctive_add_eq_or [symmetric], rule high_low_disjoint)

lemma halves: "push_bit 16 (signed_drop_bit 16 (x :: word32)) + (x AND mask 16) = x"
  using high_or_low [of x] by (simp only: or_is_add)

lemma safe_add_eq [simp]: "safe_add x y = x + y"
proof -
  define lsw where "lsw = (x AND mask 16) + (y AND mask 16)"
  define m where "m = signed_drop_bit 16 x + signed_drop_bit 16 y + signed_drop_bit 16 lsw"
  have "push_bit 16 m = push_bit 16 (signed_drop_bit 16 x) + push_bit 16 (signed_drop_bit 16 y) + push_bit 16 (signed_drop_bit 16 lsw)"
    by (simp add: m_def push_bit_add)
  then have "push_bit 16 m + (lsw AND mask 16)
    = push_bit 16 (signed_drop_bit 16 x) + push_bit 16 (signed_drop_bit 16 y) + lsw"
    using halves [of lsw] by (simp only: add.assoc)
  also have "\<dots> = (push_bit 16 (signed_drop_bit 16 x) + (x AND mask 16)) + (push_bit 16 (signed_drop_bit 16 y) + (y AND mask 16))"
    unfolding lsw_def by (simp only: ac_simps)
  finally have "push_bit 16 m + (lsw AND mask 16) = x + y" by (simp only: halves)
  then show ?thesis unfolding safe_add_def Let_def mask16 lsw_def [symmetric] m_def [symmetric] or_is_add .
qed

lemma bit_rol_rotl: "0 < n \<Longrightarrow> n < 32 \<Longrightarrow> bit_rol x n = word_rotl n x"
proof (rule bit_word_eqI)
  fix m assume n: "0 < n" "n < 32" and "m < LENGTH(32)"
  then have m: "m < 32" by simp
  show "bit (bit_rol x n) m \<longleftrightarrow> bit (word_rotl n x) m"
  proof (cases "n \<le> m")
    case True
    then have "(m + 32 - n) mod 32 = m - n" using m n by (simp add: mod_if)
    moreover have "\<not> bit x (32 - n + m)" using True n bit_imp_le_length [of x "32 - n + m"] by auto
    ultimately show ?thesis using True m n by (simp add: bit_rol_def bit_simps)
  next
    case False
    then have "(m + 32 - n) mod 32 = 32 + m - n" using m n by simp
    then show ?thesis using False m n by (simp add: bit_rol_def bit_simps)
  qed
qed

section \<open>The message digest of RFC 1321\<close>

text \<open>The algorithm of the RFC, one round function per step, over a block of sixteen words.\<close>

definition rfc_T :: "word32 list" where
  "rfc_T =
    [0xd76aa478, 0xe8c7b756, 0x242070db, 0xc1bdceee, 0xf57c0faf, 0x4787c62a, 0xa8304613, 0xfd469501,
     0x698098d8, 0x8b44f7af, 0xffff5bb1, 0x895cd7be, 0x6b901122, 0xfd987193, 0xa679438e, 0x49b40821,
     0xf61e2562, 0xc040b340, 0x265e5a51, 0xe9b6c7aa, 0xd62f105d, 0x02441453, 0xd8a1e681, 0xe7d3fbc8,
     0x21e1cde6, 0xc33707d6, 0xf4d50d87, 0x455a14ed, 0xa9e3e905, 0xfcefa3f8, 0x676f02d9, 0x8d2a4c8a,
     0xfffa3942, 0x8771f681, 0x6d9d6122, 0xfde5380c, 0xa4beea44, 0x4bdecfa9, 0xf6bb4b60, 0xbebfbc70,
     0x289b7ec6, 0xeaa127fa, 0xd4ef3085, 0x04881d05, 0xd9d4d039, 0xe6db99e5, 0x1fa27cf8, 0xc4ac5665,
     0xf4292244, 0x432aff97, 0xab9423a7, 0xfc93a039, 0x655b59c3, 0x8f0ccc92, 0xffeff47d, 0x85845dd1,
     0x6fa87e4f, 0xfe2ce6e0, 0xa3014314, 0x4e0811a1, 0xf7537e82, 0xbd3af235, 0x2ad7d2bb, 0xeb86d391]"

definition rfc_shift :: "nat \<Rightarrow> nat" where
  "rfc_shift i = [[7, 12, 17, 22], [5, 9, 14, 20], [4, 11, 16, 23], [6, 10, 15, 21]] ! (i div 16) ! (i mod 4)"

definition rfc_index :: "nat \<Rightarrow> nat" where
  "rfc_index i = (if i < 16 then i else if i < 32 then 5 * i + 1 else if i < 48 then 3 * i + 5 else 7 * i) mod 16"

definition rfc_F :: "nat \<Rightarrow> word32 \<Rightarrow> word32 \<Rightarrow> word32 \<Rightarrow> word32" where
  "rfc_F i x y z =
     (if i < 16 then (x AND y) OR ((NOT x) AND z)
      else if i < 32 then (x AND z) OR (y AND (NOT z))
      else if i < 48 then x XOR y XOR z
      else y XOR (x OR (NOT z)))"

definition rfc_step :: "(nat \<Rightarrow> word32) \<Rightarrow> nat \<Rightarrow> quad \<Rightarrow> quad" where
  "rfc_step M i st =
     (let (a, b, c, d) = st
      in (d, b + word_rotl (rfc_shift i) (a + rfc_F i b c d + M (rfc_index i) + rfc_T ! i), b, c))"

definition rfc_block :: "(nat \<Rightarrow> word32) \<Rightarrow> quad \<Rightarrow> quad" where
  "rfc_block M st =
     (let (a0, b0, c0, d0) = st; (a, b, c, d) = fold (rfc_step M) [0..<64] st
      in (a + a0, b + b0, c + c0, d + d0))"

text \<open>Each unrolled round is sixteen steps of the loop: every step computes one new word.\<close>

lemma step_let:
  "fold (rfc_step M) (i # is) (a, b, c, d) =
     (let n = b + word_rotl (rfc_shift i) (a + rfc_F i b c d + M (rfc_index i) + rfc_T ! i)
      in fold (rfc_step M) is (d, n, b, c))"
  by (simp add: rfc_step_def)

lemma steps:
  "i < 16 \<Longrightarrow> 0 < s \<Longrightarrow> s < 32 \<Longrightarrow> md5_ff a b c d x s t = b + word_rotl s (a + rfc_F i b c d + x + t)"
  "16 \<le> i \<Longrightarrow> i < 32 \<Longrightarrow> 0 < s \<Longrightarrow> s < 32 \<Longrightarrow> md5_gg a b c d x s t = b + word_rotl s (a + rfc_F i b c d + x + t)"
  "32 \<le> i \<Longrightarrow> i < 48 \<Longrightarrow> 0 < s \<Longrightarrow> s < 32 \<Longrightarrow> md5_hh a b c d x s t = b + word_rotl s (a + rfc_F i b c d + x + t)"
  "48 \<le> i \<Longrightarrow> 0 < s \<Longrightarrow> s < 32 \<Longrightarrow> md5_ii a b c d x s t = b + word_rotl s (a + rfc_F i b c d + x + t)"
  by (simp_all add: md5_ff_def md5_gg_def md5_hh_def md5_ii_def md5_cmn_def bit_rol_rotl rfc_F_def ac_simps)

lemma unrolled_step:
  "i < 16 \<Longrightarrow> rfc_index i = g \<Longrightarrow> rfc_shift i = s \<Longrightarrow> rfc_T ! i = t \<Longrightarrow> 0 < s \<Longrightarrow> s < 32 \<Longrightarrow>
    rfc_step (\<lambda>j. wget x (k + j)) i (a, b, c, d) = (d, md5_ff a b c d (wget x (k + g)) s t, b, c)"
  "16 \<le> i \<Longrightarrow> i < 32 \<Longrightarrow> rfc_index i = g \<Longrightarrow> rfc_shift i = s \<Longrightarrow> rfc_T ! i = t \<Longrightarrow> 0 < s \<Longrightarrow> s < 32 \<Longrightarrow>
    rfc_step (\<lambda>j. wget x (k + j)) i (a, b, c, d) = (d, md5_gg a b c d (wget x (k + g)) s t, b, c)"
  "32 \<le> i \<Longrightarrow> i < 48 \<Longrightarrow> rfc_index i = g \<Longrightarrow> rfc_shift i = s \<Longrightarrow> rfc_T ! i = t \<Longrightarrow> 0 < s \<Longrightarrow> s < 32 \<Longrightarrow>
    rfc_step (\<lambda>j. wget x (k + j)) i (a, b, c, d) = (d, md5_hh a b c d (wget x (k + g)) s t, b, c)"
  "48 \<le> i \<Longrightarrow> rfc_index i = g \<Longrightarrow> rfc_shift i = s \<Longrightarrow> rfc_T ! i = t \<Longrightarrow> 0 < s \<Longrightarrow> s < 32 \<Longrightarrow>
    rfc_step (\<lambda>j. wget x (k + j)) i (a, b, c, d) = (d, md5_ii a b c d (wget x (k + g)) s t, b, c)"
  by (simp_all add: rfc_step_def steps)

lemma rfc_steps1:
  "rfc_step (\<lambda>j. wget x (k + j)) 0 (a, b, c, d) = (d, md5_ff a b c d (wget x (k + 0)) 7 (- 680876936), b, c)"
  "rfc_step (\<lambda>j. wget x (k + j)) 1 (a, b, c, d) = (d, md5_ff a b c d (wget x (k + 1)) 12 (- 389564586), b, c)"
  "rfc_step (\<lambda>j. wget x (k + j)) 2 (a, b, c, d) = (d, md5_ff a b c d (wget x (k + 2)) 17 606105819, b, c)"
  "rfc_step (\<lambda>j. wget x (k + j)) 3 (a, b, c, d) = (d, md5_ff a b c d (wget x (k + 3)) 22 (- 1044525330), b, c)"
  "rfc_step (\<lambda>j. wget x (k + j)) 4 (a, b, c, d) = (d, md5_ff a b c d (wget x (k + 4)) 7 (- 176418897), b, c)"
  "rfc_step (\<lambda>j. wget x (k + j)) 5 (a, b, c, d) = (d, md5_ff a b c d (wget x (k + 5)) 12 1200080426, b, c)"
  "rfc_step (\<lambda>j. wget x (k + j)) 6 (a, b, c, d) = (d, md5_ff a b c d (wget x (k + 6)) 17 (- 1473231341), b, c)"
  "rfc_step (\<lambda>j. wget x (k + j)) 7 (a, b, c, d) = (d, md5_ff a b c d (wget x (k + 7)) 22 (- 45705983), b, c)"
  "rfc_step (\<lambda>j. wget x (k + j)) 8 (a, b, c, d) = (d, md5_ff a b c d (wget x (k + 8)) 7 1770035416, b, c)"
  "rfc_step (\<lambda>j. wget x (k + j)) 9 (a, b, c, d) = (d, md5_ff a b c d (wget x (k + 9)) 12 (- 1958414417), b, c)"
  "rfc_step (\<lambda>j. wget x (k + j)) 10 (a, b, c, d) = (d, md5_ff a b c d (wget x (k + 10)) 17 (- 42063), b, c)"
  "rfc_step (\<lambda>j. wget x (k + j)) 11 (a, b, c, d) = (d, md5_ff a b c d (wget x (k + 11)) 22 (- 1990404162), b, c)"
  "rfc_step (\<lambda>j. wget x (k + j)) 12 (a, b, c, d) = (d, md5_ff a b c d (wget x (k + 12)) 7 1804603682, b, c)"
  "rfc_step (\<lambda>j. wget x (k + j)) 13 (a, b, c, d) = (d, md5_ff a b c d (wget x (k + 13)) 12 (- 40341101), b, c)"
  "rfc_step (\<lambda>j. wget x (k + j)) 14 (a, b, c, d) = (d, md5_ff a b c d (wget x (k + 14)) 17 (- 1502002290), b, c)"
  "rfc_step (\<lambda>j. wget x (k + j)) 15 (a, b, c, d) = (d, md5_ff a b c d (wget x (k + 15)) 22 1236535329, b, c)"
  by (rule unrolled_step(1); simp add: rfc_index_def rfc_shift_def rfc_T_def)+

lemma rfc_steps2:
  "rfc_step (\<lambda>j. wget x (k + j)) 16 (a, b, c, d) = (d, md5_gg a b c d (wget x (k + 1)) 5 (- 165796510), b, c)"
  "rfc_step (\<lambda>j. wget x (k + j)) 17 (a, b, c, d) = (d, md5_gg a b c d (wget x (k + 6)) 9 (- 1069501632), b, c)"
  "rfc_step (\<lambda>j. wget x (k + j)) 18 (a, b, c, d) = (d, md5_gg a b c d (wget x (k + 11)) 14 643717713, b, c)"
  "rfc_step (\<lambda>j. wget x (k + j)) 19 (a, b, c, d) = (d, md5_gg a b c d (wget x (k + 0)) 20 (- 373897302), b, c)"
  "rfc_step (\<lambda>j. wget x (k + j)) 20 (a, b, c, d) = (d, md5_gg a b c d (wget x (k + 5)) 5 (- 701558691), b, c)"
  "rfc_step (\<lambda>j. wget x (k + j)) 21 (a, b, c, d) = (d, md5_gg a b c d (wget x (k + 10)) 9 38016083, b, c)"
  "rfc_step (\<lambda>j. wget x (k + j)) 22 (a, b, c, d) = (d, md5_gg a b c d (wget x (k + 15)) 14 (- 660478335), b, c)"
  "rfc_step (\<lambda>j. wget x (k + j)) 23 (a, b, c, d) = (d, md5_gg a b c d (wget x (k + 4)) 20 (- 405537848), b, c)"
  "rfc_step (\<lambda>j. wget x (k + j)) 24 (a, b, c, d) = (d, md5_gg a b c d (wget x (k + 9)) 5 568446438, b, c)"
  "rfc_step (\<lambda>j. wget x (k + j)) 25 (a, b, c, d) = (d, md5_gg a b c d (wget x (k + 14)) 9 (- 1019803690), b, c)"
  "rfc_step (\<lambda>j. wget x (k + j)) 26 (a, b, c, d) = (d, md5_gg a b c d (wget x (k + 3)) 14 (- 187363961), b, c)"
  "rfc_step (\<lambda>j. wget x (k + j)) 27 (a, b, c, d) = (d, md5_gg a b c d (wget x (k + 8)) 20 1163531501, b, c)"
  "rfc_step (\<lambda>j. wget x (k + j)) 28 (a, b, c, d) = (d, md5_gg a b c d (wget x (k + 13)) 5 (- 1444681467), b, c)"
  "rfc_step (\<lambda>j. wget x (k + j)) 29 (a, b, c, d) = (d, md5_gg a b c d (wget x (k + 2)) 9 (- 51403784), b, c)"
  "rfc_step (\<lambda>j. wget x (k + j)) 30 (a, b, c, d) = (d, md5_gg a b c d (wget x (k + 7)) 14 1735328473, b, c)"
  "rfc_step (\<lambda>j. wget x (k + j)) 31 (a, b, c, d) = (d, md5_gg a b c d (wget x (k + 12)) 20 (- 1926607734), b, c)"
  by (rule unrolled_step(2); simp add: rfc_index_def rfc_shift_def rfc_T_def)+

lemma rfc_steps3:
  "rfc_step (\<lambda>j. wget x (k + j)) 32 (a, b, c, d) = (d, md5_hh a b c d (wget x (k + 5)) 4 (- 378558), b, c)"
  "rfc_step (\<lambda>j. wget x (k + j)) 33 (a, b, c, d) = (d, md5_hh a b c d (wget x (k + 8)) 11 (- 2022574463), b, c)"
  "rfc_step (\<lambda>j. wget x (k + j)) 34 (a, b, c, d) = (d, md5_hh a b c d (wget x (k + 11)) 16 1839030562, b, c)"
  "rfc_step (\<lambda>j. wget x (k + j)) 35 (a, b, c, d) = (d, md5_hh a b c d (wget x (k + 14)) 23 (- 35309556), b, c)"
  "rfc_step (\<lambda>j. wget x (k + j)) 36 (a, b, c, d) = (d, md5_hh a b c d (wget x (k + 1)) 4 (- 1530992060), b, c)"
  "rfc_step (\<lambda>j. wget x (k + j)) 37 (a, b, c, d) = (d, md5_hh a b c d (wget x (k + 4)) 11 1272893353, b, c)"
  "rfc_step (\<lambda>j. wget x (k + j)) 38 (a, b, c, d) = (d, md5_hh a b c d (wget x (k + 7)) 16 (- 155497632), b, c)"
  "rfc_step (\<lambda>j. wget x (k + j)) 39 (a, b, c, d) = (d, md5_hh a b c d (wget x (k + 10)) 23 (- 1094730640), b, c)"
  "rfc_step (\<lambda>j. wget x (k + j)) 40 (a, b, c, d) = (d, md5_hh a b c d (wget x (k + 13)) 4 681279174, b, c)"
  "rfc_step (\<lambda>j. wget x (k + j)) 41 (a, b, c, d) = (d, md5_hh a b c d (wget x (k + 0)) 11 (- 358537222), b, c)"
  "rfc_step (\<lambda>j. wget x (k + j)) 42 (a, b, c, d) = (d, md5_hh a b c d (wget x (k + 3)) 16 (- 722521979), b, c)"
  "rfc_step (\<lambda>j. wget x (k + j)) 43 (a, b, c, d) = (d, md5_hh a b c d (wget x (k + 6)) 23 76029189, b, c)"
  "rfc_step (\<lambda>j. wget x (k + j)) 44 (a, b, c, d) = (d, md5_hh a b c d (wget x (k + 9)) 4 (- 640364487), b, c)"
  "rfc_step (\<lambda>j. wget x (k + j)) 45 (a, b, c, d) = (d, md5_hh a b c d (wget x (k + 12)) 11 (- 421815835), b, c)"
  "rfc_step (\<lambda>j. wget x (k + j)) 46 (a, b, c, d) = (d, md5_hh a b c d (wget x (k + 15)) 16 530742520, b, c)"
  "rfc_step (\<lambda>j. wget x (k + j)) 47 (a, b, c, d) = (d, md5_hh a b c d (wget x (k + 2)) 23 (- 995338651), b, c)"
  by (rule unrolled_step(3); simp add: rfc_index_def rfc_shift_def rfc_T_def)+

lemma rfc_steps4:
  "rfc_step (\<lambda>j. wget x (k + j)) 48 (a, b, c, d) = (d, md5_ii a b c d (wget x (k + 0)) 6 (- 198630844), b, c)"
  "rfc_step (\<lambda>j. wget x (k + j)) 49 (a, b, c, d) = (d, md5_ii a b c d (wget x (k + 7)) 10 1126891415, b, c)"
  "rfc_step (\<lambda>j. wget x (k + j)) 50 (a, b, c, d) = (d, md5_ii a b c d (wget x (k + 14)) 15 (- 1416354905), b, c)"
  "rfc_step (\<lambda>j. wget x (k + j)) 51 (a, b, c, d) = (d, md5_ii a b c d (wget x (k + 5)) 21 (- 57434055), b, c)"
  "rfc_step (\<lambda>j. wget x (k + j)) 52 (a, b, c, d) = (d, md5_ii a b c d (wget x (k + 12)) 6 1700485571, b, c)"
  "rfc_step (\<lambda>j. wget x (k + j)) 53 (a, b, c, d) = (d, md5_ii a b c d (wget x (k + 3)) 10 (- 1894986606), b, c)"
  "rfc_step (\<lambda>j. wget x (k + j)) 54 (a, b, c, d) = (d, md5_ii a b c d (wget x (k + 10)) 15 (- 1051523), b, c)"
  "rfc_step (\<lambda>j. wget x (k + j)) 55 (a, b, c, d) = (d, md5_ii a b c d (wget x (k + 1)) 21 (- 2054922799), b, c)"
  "rfc_step (\<lambda>j. wget x (k + j)) 56 (a, b, c, d) = (d, md5_ii a b c d (wget x (k + 8)) 6 1873313359, b, c)"
  "rfc_step (\<lambda>j. wget x (k + j)) 57 (a, b, c, d) = (d, md5_ii a b c d (wget x (k + 15)) 10 (- 30611744), b, c)"
  "rfc_step (\<lambda>j. wget x (k + j)) 58 (a, b, c, d) = (d, md5_ii a b c d (wget x (k + 6)) 15 (- 1560198380), b, c)"
  "rfc_step (\<lambda>j. wget x (k + j)) 59 (a, b, c, d) = (d, md5_ii a b c d (wget x (k + 13)) 21 1309151649, b, c)"
  "rfc_step (\<lambda>j. wget x (k + j)) 60 (a, b, c, d) = (d, md5_ii a b c d (wget x (k + 4)) 6 (- 145523070), b, c)"
  "rfc_step (\<lambda>j. wget x (k + j)) 61 (a, b, c, d) = (d, md5_ii a b c d (wget x (k + 11)) 10 (- 1120210379), b, c)"
  "rfc_step (\<lambda>j. wget x (k + j)) 62 (a, b, c, d) = (d, md5_ii a b c d (wget x (k + 2)) 15 718787259, b, c)"
  "rfc_step (\<lambda>j. wget x (k + j)) 63 (a, b, c, d) = (d, md5_ii a b c d (wget x (k + 9)) 21 (- 343485551), b, c)"
  by (rule unrolled_step(4); simp add: rfc_index_def rfc_shift_def rfc_T_def)+

lemma round1: "md5_round1 x k st = fold (rfc_step (\<lambda>j. wget x (k + j))) [0, 1, 2, 3, 4, 5, 6, 7, 8, 9, 10, 11, 12, 13, 14, 15] st"
  by (cases st) (simp only: md5_round1_def fold.simps o_apply id_apply rfc_steps1 prod.case Let_def add_0_right)

lemma round2: "md5_round2 x k st = fold (rfc_step (\<lambda>j. wget x (k + j))) [16, 17, 18, 19, 20, 21, 22, 23, 24, 25, 26, 27, 28, 29, 30, 31] st"
  by (cases st) (simp only: md5_round2_def fold.simps o_apply id_apply rfc_steps2 prod.case Let_def add_0_right)

lemma round3: "md5_round3 x k st = fold (rfc_step (\<lambda>j. wget x (k + j))) [32, 33, 34, 35, 36, 37, 38, 39, 40, 41, 42, 43, 44, 45, 46, 47] st"
  by (cases st) (simp only: md5_round3_def fold.simps o_apply id_apply rfc_steps3 prod.case Let_def add_0_right)

lemma round4: "md5_round4 x k st = fold (rfc_step (\<lambda>j. wget x (k + j))) [48, 49, 50, 51, 52, 53, 54, 55, 56, 57, 58, 59, 60, 61, 62, 63] st"
  by (cases st) (simp only: md5_round4_def fold.simps o_apply id_apply rfc_steps4 prod.case Let_def add_0_right)


lemma upt_64: "[0..<64] = [0, 1, 2, 3, 4, 5, 6, 7, 8, 9, 10, 11, 12, 13, 14, 15 :: nat]
   @ [16, 17, 18, 19, 20, 21, 22, 23, 24, 25, 26, 27, 28, 29, 30, 31]
   @ [32, 33, 34, 35, 36, 37, 38, 39, 40, 41, 42, 43, 44, 45, 46, 47]
   @ [48, 49, 50, 51, 52, 53, 54, 55, 56, 57, 58, 59, 60, 61, 62, 63]"
  by code_simp

lemma md5_block_rfc: "md5_block x k st = rfc_block (\<lambda>j. wget x (k + j)) st"
  unfolding md5_block_def rfc_block_def upt_64 fold_append comp_apply round1 round2 round3 round4
  by (simp only: Let_def case_prod_beta safe_add_eq)

section \<open>Padding\<close>

text \<open>
  A message is a list of bytes. \<open>rfc_pad\<close> appends the bit 1, zeros and the length in bits as a
  64-bit little-endian number; \<open>le_word\<close> reads the word at a position of the list.
\<close>

definition le_bytes :: "nat \<Rightarrow> int \<Rightarrow> int list" where
  "le_bytes n v = map (\<lambda>k. v div 2 ^ (8 * k) mod 256) [0..<n]"

definition rfc_pad :: "int list \<Rightarrow> int list" where
  "rfc_pad bs = bs @ [0x80] @ replicate ((119 - length bs mod 64) mod 64) 0 @ le_bytes 8 (8 * int (length bs))"

definition byte_word :: "int list \<Rightarrow> nat \<Rightarrow> word32" where
  "byte_word bs i = (if i < length bs then word_of_int (bs ! i) AND 0xFF else 0)"

definition le_word :: "int list \<Rightarrow> nat \<Rightarrow> word32" where
  "le_word bs j = byte_word bs (4 * j) OR push_bit 8 (byte_word bs (4 * j + 1)) OR
     push_bit 16 (byte_word bs (4 * j + 2)) OR push_bit 24 (byte_word bs (4 * j + 3))"

definition rfc_md5 :: "int list \<Rightarrow> quad" where
  "rfc_md5 bs =
     fold (\<lambda>k. rfc_block (\<lambda>j. le_word (rfc_pad bs) (16 * k + j))) [0..<length (rfc_pad bs) div 64]
       (0x67452301, 0xefcdab89, 0x98badcfe, 0x10325476)"

lemma byte_word_append:
  "byte_word (xs @ ys) i = (if i < length xs then byte_word xs i else byte_word ys (i - length xs))"
  by (auto simp: byte_word_def nth_append)

lemma byte_word_out: "length xs \<le> i \<Longrightarrow> byte_word xs i = 0"
  by (simp add: byte_word_def)

lemma le_word_zeros: "le_word (bs @ replicate k 0) j = le_word bs j"
proof -
  have "byte_word (bs @ replicate k 0) i = byte_word bs i" for i
    by (auto simp: byte_word_def nth_append)
  then show ?thesis by (simp only: le_word_def)
qed

lemma le_word_aligned:
  assumes "length xs = 4 * p"
  shows "le_word (xs @ ys) j = (if j < p then le_word xs j else le_word ys (j - p))"
proof (cases "j < p")
  case True
  then have "byte_word (xs @ ys) (4 * j + r) = byte_word xs (4 * j + r)" if "r < 4" for r
    using that assms by (simp add: byte_word_append)
  from this [of 0] this [of 1] this [of 2] this [of 3] show ?thesis using True by (simp add: le_word_def)
next
  case False
  then have "byte_word (xs @ ys) (4 * j + r) = byte_word ys (4 * (j - p) + r)" for r
    using assms by (simp add: byte_word_append diff_mult_distrib2)
  from this [of 0] this [of 1] this [of 2] this [of 3] show ?thesis using False by (simp add: le_word_def)
qed

lemma le_word_snoc:
  "le_word (bs @ [v]) j =
     (if j = length bs div 4 then le_word bs j OR push_bit (8 * length bs mod 32) (word_of_int v AND 0xFF) else le_word bs j)"
proof -
  define p r where "p = length bs div 4" and "r = length bs mod 4"
  have n: "length bs = 4 * p + r" "r < 4" by (simp_all add: p_def r_def)
  have b: "byte_word (bs @ [v]) i = (if i = length bs then word_of_int v AND 0xFF else byte_word bs i)" for i
    by (auto simp: byte_word_def nth_append)
  have s: "8 * length bs mod 32 = 8 * r" using n by simp
  have o: "byte_word bs i = 0" if "length bs \<le> i" for i using that by (rule byte_word_out)
  show ?thesis
  proof (cases "j = p")
    case True
    consider "r = 0" | "r = 1" | "r = 2" | "r = 3" using n(2) by linarith
    then show ?thesis
      unfolding p_def [symmetric] s using True n(1) by cases (simp_all add: le_word_def b o or.commute or.left_commute or.assoc)
  next
    case False
    then have "4 * j + k \<noteq> length bs" if "k < 4" for k using that n by presburger
    from this [of 0] this [of 1] this [of 2] this [of 3] show ?thesis
      unfolding p_def [symmetric] using False by (simp add: le_word_def b)
  qed
qed

text \<open>The code's words of a message: those of the list of bytes, one more where it is not full.\<close>

definition words_of :: "word32 list \<Rightarrow> int list \<Rightarrow> bool" where
  "words_of x bs \<longleftrightarrow> length x = (length bs + 3) div 4 \<and> (\<forall>j. wget x j = le_word bs j)"

lemma wget_wput: "0 \<le> i \<Longrightarrow> wget (wput x i v) j = (if int j = i then v else wget x j)"
  by (auto simp: wget_def wput_def nth_append nth_list_update nth_Cons' nat_eq_iff)

lemma length_wput: "0 \<le> i \<Longrightarrow> length (wput x i v) = max (length x) (nat i + 1)"
  by (auto simp: wput_def)


lemma rstr2binl_words: "words_of (rstr2binl s) s"
proof -
  define f where "f = (\<lambda>j out. wput out (int (8 * j div 32))
          (wget out (8 * j div 32) OR push_bit (8 * j mod 32) (word_of_int (s ! j) AND 0xFF)))"
  define P where "P = (\<lambda>i out. length out = max (length s div 4) ((i + 3) div 4) \<and> (\<forall>j. wget out j = le_word (take i s) j))"
  have "P (length s) (for_up 0 (length s) f (replicate (length s div 4) 0))"
  proof (rule for_up_inv [where P = P])
    have "le_word (take 0 s) j = 0" for j by (simp add: le_word_def byte_word_def)
    then show "P 0 (replicate (length s div 4) 0)" by (simp add: P_def wget_def)
  next
    fix i out assume i: "i < length s" and p: "P i out"
    have q: "8 * i div 32 = i div 4" by simp
    have t: "take (Suc i) s = take i s @ [s ! i]" and l: "length (take i s) = i" using i by (simp_all add: take_Suc_conv_app_nth)
    have "length (f i out) = max (length out) (i div 4 + 1)"
      unfolding f_def q by (simp add: length_wput)
    moreover have "max (max (length s div 4) ((i + 3) div 4)) (i div 4 + 1) = max (length s div 4) ((Suc i + 3) div 4)" by simp
    moreover have "wget (f i out) j = le_word (take (Suc i) s) j" for j
      unfolding t le_word_snoc l f_def q using p by (simp add: wget_wput P_def)
    ultimately show "P (Suc i) (f i out)" using p by (simp add: P_def)
  qed simp
  then have "length (rstr2binl s) = max (length s div 4) ((length s + 3) div 4)" "wget (rstr2binl s) j = le_word s j" for j
    unfolding rstr2binl_def f_def P_def by simp_all
  then show ?thesis by (simp add: words_of_def max_def div_le_mono)
qed

lemma bytes_join:
  "(w AND mask 8) OR push_bit 8 (drop_bit 8 w AND mask 8) OR push_bit 16 (drop_bit 16 w AND mask 8) OR
     push_bit 24 (drop_bit 24 w AND mask 8) = (w :: word32)"
proof (rule bit_word_eqI)
  fix n assume "n < LENGTH(32)"
  then consider "n < 8" | "8 \<le> n" "n < 16" | "16 \<le> n" "n < 24" | "24 \<le> n" "n < 32" by force
  then show "bit ((w AND mask 8) OR push_bit 8 (drop_bit 8 w AND mask 8) OR push_bit 16 (drop_bit 16 w AND mask 8) OR
     push_bit 24 (drop_bit 24 w AND mask 8)) n = bit w n"
    by cases (simp_all add: bit_simps, linarith+)
qed

lemma mask8: "(0xFF :: word32) = mask 8"
  by (simp add: mask_eq_exp_minus_1)

lemma le_bytes_words:
  assumes "0 \<le> v" "v < 2 ^ 32"
  shows "le_word (le_bytes 8 v) 0 = word_of_int v" "le_word (le_bytes 8 v) 1 = 0" "2 \<le> j \<Longrightarrow> le_word (le_bytes 8 v) j = 0"
proof -
  have len: "length (le_bytes 8 v) = 8" by (simp add: le_bytes_def)
  have b: "byte_word (le_bytes 8 v) i = drop_bit (8 * i) (word_of_int v) AND mask 8" if "i < 4" for i
  proof -
    have "le_bytes 8 v ! i = take_bit 8 (drop_bit (8 * i) v)"
      using that by (simp add: le_bytes_def take_bit_eq_mod drop_bit_eq_div)
    moreover have "word_of_int (take_bit 8 (drop_bit (8 * i) v)) AND mask 8 = drop_bit (8 * i) (word_of_int v :: word32) AND mask 8"
      by (rule bit_word_eqI) (use that in \<open>auto simp: bit_simps\<close>)
    ultimately show ?thesis using that len by (simp add: byte_word_def mask8)
  qed
  show "le_word (le_bytes 8 v) 0 = word_of_int v"
  proof -
    have "byte_word (le_bytes 8 v) 0 = word_of_int v AND mask 8" "byte_word (le_bytes 8 v) 1 = drop_bit 8 (word_of_int v) AND mask 8"
      "byte_word (le_bytes 8 v) 2 = drop_bit 16 (word_of_int v) AND mask 8" "byte_word (le_bytes 8 v) 3 = drop_bit 24 (word_of_int v) AND mask 8"
      using b [of 0] b [of 1] b [of 2] b [of 3] by simp_all
    then show ?thesis by (simp only: le_word_def mult_0_right add_0 bytes_join)
  qed
  have z: "byte_word (le_bytes 8 v) i = 0" if "4 \<le> i" for i
  proof (cases "i < 8")
    case True
    have "(2::int) ^ 32 \<le> 2 ^ (8 * i)" using that by (intro power_increasing) auto
    then have "v div 2 ^ (8 * i) = 0" using assms by (intro div_pos_pos_trivial) linarith+
    then have "le_bytes 8 v ! i = 0" using True by (simp add: le_bytes_def)
    then show ?thesis by (simp add: byte_word_def)
  qed (simp add: byte_word_def len)
  show "le_word (le_bytes 8 v) 1 = 0" by (simp add: le_word_def z)
  show "2 \<le> j \<Longrightarrow> le_word (le_bytes 8 v) j = 0" by (simp add: le_word_def z)
qed


definition block_count :: "nat \<Rightarrow> nat" where
  "block_count n = (n + 8) div 64 + 1"

lemma pad_zeros:
  "n + 1 + (119 - n mod 64) mod 64 = 64 * (block_count n - 1) + 56" for n :: nat
proof -
  define q r where "q = n div 64" and "r = n mod 64"
  have n: "n = 64 * q + r" "r < 64" by (simp_all add: q_def r_def)
  show ?thesis
  proof (cases "r < 56")
    case True
    then have "(119 - r) mod 64 = 55 - r" by (simp add: mod_if)
    moreover have "block_count n = q + 1" using True n by (simp add: block_count_def)
    ultimately show ?thesis unfolding r_def [symmetric] using n True by simp
  next
    case False
    then have "(119 - r) mod 64 = 119 - r" using n by simp
    moreover have "block_count n = q + 2" using False n by (simp add: block_count_def)
    ultimately show ?thesis unfolding r_def [symmetric] using n False by simp
  qed
qed

lemma length_rfc_pad: "length (rfc_pad bs) = 64 * block_count (length bs)"
proof -
  have "length (rfc_pad bs) = length bs + 1 + (119 - length bs mod 64) mod 64 + 8"
    by (simp add: rfc_pad_def le_bytes_def)
  also have "\<dots> = 64 * (block_count (length bs) - 1) + 56 + 8" by (simp only: pad_zeros)
  also have "\<dots> = 64 * block_count (length bs)" by (simp add: block_count_def)
  finally show ?thesis .
qed

lemma le_word_rfc_pad:
  assumes "8 * int (length bs) < 2 ^ 32" "j < 16 * block_count (length bs)"
  shows "le_word (rfc_pad bs) j =
    (if j < 16 * block_count (length bs) - 2 then le_word (bs @ [0x80]) j
     else if j = 16 * block_count (length bs) - 2 then word_of_int (8 * int (length bs)) else 0)"
proof -
  let ?B = "block_count (length bs)" let ?z = "(119 - length bs mod 64) mod 64"
  have B: "1 \<le> ?B" by (simp add: block_count_def)
  have len: "length ((bs @ [0x80]) @ replicate ?z 0) = 4 * (16 * ?B - 2)"
  proof -
    have "length ((bs @ [0x80]) @ replicate ?z 0) = length bs + 1 + ?z" by simp
    also have "\<dots> = 64 * (?B - 1) + 56" by (rule pad_zeros)
    finally show ?thesis using B by simp
  qed
  have "le_word (rfc_pad bs) j = le_word (((bs @ [0x80]) @ replicate ?z 0) @ le_bytes 8 (8 * int (length bs))) j"
    by (simp only: rfc_pad_def append_assoc)
  also have "\<dots> = (if j < 16 * ?B - 2 then le_word (bs @ [0x80]) j
      else le_word (le_bytes 8 (8 * int (length bs))) (j - (16 * ?B - 2)))"
    unfolding le_word_aligned [OF len] le_word_zeros ..
  finally have p: "le_word (rfc_pad bs) j = (if j < 16 * ?B - 2 then le_word (bs @ [0x80]) j
      else le_word (le_bytes 8 (8 * int (length bs))) (j - (16 * ?B - 2)))" .
  have v: "0 \<le> 8 * int (length bs)" by simp
  consider "j < 16 * ?B - 2" | "j = 16 * ?B - 2" | "j = 16 * ?B - 2 + 1" using assms(2) B by linarith
  then show ?thesis
  proof cases
    case 3
    then have "j - (16 * ?B - 2) = 1" "\<not> j < 16 * ?B - 2" "j \<noteq> 16 * ?B - 2" by simp_all
    then show ?thesis using p le_bytes_words(2) [OF v assms(1)] by simp
  qed (use p le_bytes_words(1) [OF v assms(1)] in simp_all)
qed

lemma md5_padding_words:
  assumes x: "words_of x bs" and n: "n = length bs" "8 * n + 64 < 2 ^ 31"
  shows "length (md5_padding x (8 * int n)) = 16 * block_count n - 1"
    "j < 16 * block_count n \<Longrightarrow> wget (md5_padding x (8 * int n)) j = le_word (rfc_pad bs) j"
proof -
  let ?B = "block_count n"
  have i: "js_sar (8 * int n) 5 = int (n div 4)"
    using n(2) by (subst js_sar_div) (auto simp: zdiv_int)
  have s: "nat (8 * int n mod 32) = 8 * n mod 32" by (simp add: nat_mod_distrib nat_mult_distrib)
  have "js_shr (8 * int n + 64) 9 = int (?B - 1)"
    using n(2) by (subst js_shr_div) (auto simp: block_count_def zdiv_int)
  moreover have "js_shl (int (?B - 1)) 4 = int (?B - 1) * 2 ^ 4"
    by (rule js_shl_mult) (use n(2) in \<open>auto simp: block_count_def\<close>)
  moreover have "1 \<le> ?B" by (simp add: block_count_def)
  ultimately have t: "js_shl (js_shr (8 * int n + 64) 9) 4 + 14 = int (16 * ?B - 2)" by simp
  define y where "y = wput x (int (n div 4)) (wget x (n div 4) OR push_bit (8 * n mod 32) 0x80)"
  have pad: "md5_padding x (8 * int n) = wput y (int (16 * ?B - 2)) (word_of_int (8 * int n))"
    unfolding md5_padding_def Let_def i s t y_def by simp
  have le: "n div 4 < 16 * ?B - 2" "(n + 3) div 4 \<le> 16 * ?B - 2"
    using pad_zeros [of n] \<open>1 \<le> ?B\<close> by linarith+
  have "length y \<le> 16 * ?B - 2" using x le n(1) by (simp add: y_def length_wput words_of_def)
  then show "length (md5_padding x (8 * int n)) = 16 * ?B - 1" using le unfolding pad by (simp add: length_wput)
  have y: "wget y k = le_word (bs @ [0x80]) k" for k
    unfolding le_word_snoc n(1) [symmetric] y_def using x by (simp add: wget_wput words_of_def)
  have big: "le_word (bs @ [0x80]) k = 0" if "16 * ?B - 2 \<le> k" for k
  proof -
    have "length (bs @ [0x80]) \<le> 4 * k" using that pad_zeros [of n] n(1) \<open>1 \<le> ?B\<close> by simp
    then show ?thesis by (simp add: le_word_def byte_word_out)
  qed
  show "wget (md5_padding x (8 * int n)) j = le_word (rfc_pad bs) j" if "j < 16 * ?B"
  proof -
    have "8 * int (length bs) < 2 ^ 32" using n by simp
    note w = le_word_rfc_pad [OF this that [unfolded n(1)], folded n(1)]
    have "wget (md5_padding x (8 * int n)) j = (if int j = int (16 * ?B - 2) then word_of_int (8 * int n) else wget y j)"
      unfolding pad by (rule wget_wput) simp
    also have "(int j = int (16 * ?B - 2)) = (j = 16 * ?B - 2)" by (rule of_nat_eq_iff)
    finally show ?thesis unfolding w using y [of j] big [of j] by (cases "j < 16 * ?B - 2") simp_all
  qed
qed

lemma md5_blocks_fold:
  assumes "length x = 16 * B - 1" "k \<le> B" "1 \<le> B"
  shows "md5_blocks x (16 * k) st = fold (\<lambda>k. md5_block x (16 * k)) [k..<B] st"
  using assms
proof (induction "B - k" arbitrary: k st)
  case 0
  then have "k = B" "\<not> 16 * B < length x" by simp_all
  then show ?case by (subst md5_blocks.simps) simp
next
  case (Suc m)
  then have k: "k < B" "16 * k < length x" by simp_all
  have "md5_blocks x (16 * k) st = md5_blocks x (16 * Suc k) (md5_block x (16 * k) st)"
    using k(2) by (subst md5_blocks.simps) (simp add: add.commute)
  also have "\<dots> = fold (\<lambda>k. md5_block x (16 * k)) [Suc k..<B] (md5_block x (16 * k) st)"
    using Suc k by (intro Suc.hyps(1)) auto
  finally show ?case using k by (simp add: upt_conv_Cons)
qed

definition quad_list :: "quad \<Rightarrow> word32 list" where
  "quad_list q = (let (a, b, c, d) = q in [a, b, c, d])"

lemma rfc_block_cong: 
  assumes "\<And>j. j < 16 \<Longrightarrow> M j = N j"
  shows "rfc_block M st = rfc_block N st"
proof -
  have "rfc_step M i q = rfc_step N i q" for i q
    using assms [of "rfc_index i"] by (simp add: rfc_step_def rfc_index_def)
  then have "rfc_step M = rfc_step N" by (intro ext)
  then show ?thesis unfolding rfc_block_def by simp
qed

lemma binl_md5_rfc:
  assumes x: "words_of x bs" and n: "8 * length bs + 64 < 2 ^ 31"
  shows "binl_md5 x (8 * int (length bs)) = quad_list (rfc_md5 bs)"
proof -
  let ?n = "length bs" let ?B = "block_count ?n" let ?x = "md5_padding x (8 * int ?n)"
  let ?init = "(1732584193, -271733879, -1732584194, 271733878) :: quad"
  have len: "length ?x = 16 * ?B - 1" using md5_padding_words(1) [OF x refl n] .
  have "1 \<le> ?B" by (simp add: block_count_def)
  then have "md5_blocks ?x (16 * 0) ?init = fold (\<lambda>k. md5_block ?x (16 * k)) [0..<?B] ?init"
    by (intro md5_blocks_fold len) simp_all
  also have "\<dots> = fold (\<lambda>k. rfc_block (\<lambda>j. le_word (rfc_pad bs) (16 * k + j))) [0..<?B] ?init"
  proof (rule fold_cong)
    fix k assume k: "k \<in> set [0..<?B]"
    show "md5_block ?x (16 * k) = rfc_block (\<lambda>j. le_word (rfc_pad bs) (16 * k + j))"
    proof
      fix st
      show "md5_block ?x (16 * k) st = rfc_block (\<lambda>j. le_word (rfc_pad bs) (16 * k + j)) st"
        unfolding md5_block_rfc
        by (rule rfc_block_cong) (use k in \<open>auto intro!: md5_padding_words(2) [OF x refl n]\<close>)
    qed
  qed simp_all
  also have "\<dots> = rfc_md5 bs"
  proof -
    have init: "?init = (0x67452301, 0xefcdab89, 0x98badcfe, 0x10325476)" by simp
    have count: "64 * ?B div 64 = ?B" by simp
    show ?thesis unfolding rfc_md5_def length_rfc_pad count init ..
  qed
  finally show ?thesis by (simp add: binl_md5_def quad_list_def)
qed


section \<open>Digests as bytes\<close>

definition rfc_digest :: "int list \<Rightarrow> int list" where
  "rfc_digest bs = concat (map (\<lambda>w. le_bytes 4 (uint w)) (quad_list (rfc_md5 bs)))"

lemma four_bytes:
  "map (\<lambda>j. g (8 * j mod 32) (ws ! (8 * j div 32))) [0..<length ws * 4]
   = concat (map (\<lambda>w. [g 0 w, g 8 w, g 16 w, g (24::nat) w]) ws)"
proof (induction ws rule: rev_induct)
  case (snoc w ws)
  define n where "n = length ws * 4"
  have four: "[0..<4] = [0, 1, 2, 3 :: nat]" by (simp add: upt_rec)
  have "[0..<n + 4] = [0..<n] @ [n..<n + 4]" by (rule upt_add_eq_append) simp
  also have "[n..<n + 4] = map (\<lambda>k. k + n) [0, 1, 2, 3]" using map_add_upt [of n 4] by (simp only: four add.commute)
  finally have upt: "[0..<length (ws @ [w]) * 4] = [0..<length ws * 4] @ map (\<lambda>k. length ws * 4 + k) [0, 1, 2, 3]"
    by (simp add: n_def add.commute)
  have "map (\<lambda>j. g (8 * j mod 32) ((ws @ [w]) ! (8 * j div 32))) [0..<length ws * 4]
      = map (\<lambda>j. g (8 * j mod 32) (ws ! (8 * j div 32))) [0..<length ws * 4]"
    by (rule map_cong) (auto simp: nth_append)
  moreover have "map (\<lambda>j. g (8 * j mod 32) ((ws @ [w]) ! (8 * j div 32))) (map (\<lambda>k. length ws * 4 + k) [0, 1, 2, 3])
      = [g 0 w, g 8 w, g 16 w, g 24 w]"
  proof -
    have "8 * (length ws * 4 + k) div 32 = length ws" "8 * (length ws * 4 + k) mod 32 = 8 * k" if "k < 4" for k
      using that by (simp_all add: distrib_left)
    from this [of 0] this [of 1] this [of 2] this [of 3] show ?thesis
      by (simp only: list.map nth_append_length) simp
  qed
  ultimately show ?case unfolding upt map_append snoc.IH by simp
qed simp

lemma word_byte: "uint (drop_bit n w AND 0xFF) = uint w div 2 ^ n mod 256" for w :: word32
proof -
  have "uint (drop_bit n w AND 0xFF) = take_bit 8 (uint (drop_bit n w))"
    unfolding mask8 take_bit_eq_mask [symmetric] by (rule unsigned_take_bit_eq)
  also have "uint (drop_bit n w) = drop_bit n (take_bit 32 (uint w))" by (simp add: unsigned_drop_bit_eq)
  also have "take_bit 32 (uint w) = uint w"
    by (rule take_bit_int_eq_self) (use unsigned_less [of w, where ?'a = int] in simp_all)
  finally show ?thesis by (simp only: take_bit_eq_mod drop_bit_eq_div) simp
qed

lemma binl2rstr_bytes: "binl2rstr ws = concat (map (\<lambda>w. le_bytes 4 (uint w)) ws)"
proof -
  have "le_bytes 4 v = [v div 2 ^ 0 mod 256, v div 2 ^ 8 mod 256, v div 2 ^ 16 mod 256, v div 2 ^ 24 mod 256]" for v
    by (simp add: le_bytes_def upt_rec numeral_eq_Suc)
  then show ?thesis
    unfolding binl2rstr_def using four_bytes [of "\<lambda>n w. uint (drop_bit n w AND 0xFF)" ws] by (simp only: word_byte)
qed

lemma rstr_md5_ok: "8 * length s + 64 < 2 ^ 31 \<Longrightarrow> rstr_md5 s = rfc_digest s"
  using binl_md5_rfc [OF rstr2binl_words, of s]
  by (simp add: rstr_md5_def rfc_digest_def binl2rstr_bytes mult.commute)

lemma byte_word_of_word:
  assumes "r < 4"
  shows "byte_word xs (4 * j + r) = drop_bit (8 * r) (le_word xs j) AND mask 8"
proof (rule bit_word_eqI)
  fix n assume "n < LENGTH(32)"
  have z: "\<not> bit (byte_word xs i) m" if "8 \<le> m" for i m
    using that by (simp add: byte_word_def mask8 bit_simps)
  from assms consider "r = 0" | "r = 1" | "r = 2" | "r = 3" by linarith
  then show "bit (byte_word xs (4 * j + r)) n = bit (drop_bit (8 * r) (le_word xs j) AND mask 8) n"
    by cases (cases "n < 8"; simp add: le_word_def bit_simps z)+
qed

lemma digest_words: "words_of ws (binl2rstr ws)"
proof -
  have len: "length (le_bytes 4 v) = 4" for v by (simp add: le_bytes_def)
  have w: "le_word (le_bytes 4 (uint w)) 0 = w" for w :: word32
  proof -
    have "byte_word (le_bytes 4 (uint w)) i = drop_bit (8 * i) w AND mask 8" if "i < 4" for i
    proof -
      have "le_bytes 4 (uint w) ! i = uint (drop_bit (8 * i) w AND mask 8)"
        using that word_byte [of "8 * i" w] by (simp add: le_bytes_def mask8)
      then show ?thesis using that by (simp add: byte_word_def len mask8)
    qed
    from this [of 0] this [of 1] this [of 2] this [of 3]
    have "byte_word (le_bytes 4 (uint w)) 0 = w AND mask 8" "byte_word (le_bytes 4 (uint w)) 1 = drop_bit 8 w AND mask 8"
      "byte_word (le_bytes 4 (uint w)) 2 = drop_bit 16 w AND mask 8" "byte_word (le_bytes 4 (uint w)) 3 = drop_bit 24 w AND mask 8"
      by simp_all
    then show ?thesis by (simp only: le_word_def mult_0_right add_0 bytes_join)
  qed
  have "wget ws j = le_word (concat (map (\<lambda>w. le_bytes 4 (uint w)) ws)) j" for j
  proof (induction ws arbitrary: j)
    case Nil
    then show ?case by (simp add: wget_def le_word_def byte_word_def)
  next
    case (Cons v ws)
    have a: "le_word (le_bytes 4 (uint v) @ ys) j = (if j < 1 then le_word (le_bytes 4 (uint v)) j else le_word ys (j - 1))" for ys
      by (rule le_word_aligned) (simp add: len)
    show ?case
    proof (cases j)
      case 0
      then show ?thesis using a w [of v] by (simp add: wget_def)
    next
      case (Suc i)
      then have "wget (v # ws) j = wget ws i" by (simp add: wget_def)
      then show ?thesis using a Suc Cons.IH [of i] by simp
    qed
  qed
  moreover have "length (concat (map (\<lambda>w. le_bytes 4 (uint w)) ws)) = 4 * length ws"
    by (induction ws) (simp_all add: len)
  ultimately show ?thesis by (simp add: words_of_def binl2rstr_bytes)
qed

section \<open>HMAC of RFC 2104\<close>

definition hmac_key :: "int list \<Rightarrow> int list" where
  "hmac_key k = (let k = (if length k > 64 then rfc_digest k else k) in k @ replicate (64 - length k) 0)"

definition hmac_md5 :: "int list \<Rightarrow> int list \<Rightarrow> int list" where
  "hmac_md5 k d =
     rfc_digest (map (\<lambda>b. b XOR 0x5C) (hmac_key k) @ rfc_digest (map (\<lambda>b. b XOR 0x36) (hmac_key k) @ d))"

lemma length_digest: "length (rfc_digest bs) = 16"
  by (simp add: rfc_digest_def quad_list_def le_bytes_def split: prod.split)

lemma length_hmac_key: "length (hmac_key k) = 64"
  by (simp add: hmac_key_def Let_def length_digest)

lemma hmac_key_words:
  assumes "8 * length key + 64 < 2 ^ 31"
  shows "wget (if length (rstr2binl key) > 16 then binl_md5 (rstr2binl key) (int (length key) * 8) else rstr2binl key) j
    = le_word (hmac_key key) j"
proof (cases "length key > 64")
  case True
  have "length (rstr2binl key) > 16" using True rstr2binl_words [of key] by (simp add: words_of_def)
  moreover have "binl_md5 (rstr2binl key) (int (length key) * 8) = quad_list (rfc_md5 key)"
    using binl_md5_rfc [OF rstr2binl_words assms] by (simp add: mult.commute)
  moreover have "wget (quad_list (rfc_md5 key)) j = le_word (rfc_digest key) j"
    using digest_words [of "quad_list (rfc_md5 key)"] by (simp add: words_of_def rfc_digest_def binl2rstr_bytes)
  ultimately show ?thesis using True unfolding hmac_key_def Let_def by (simp add: le_word_zeros)
next
  case False
  then have "\<not> length (rstr2binl key) > 16" using rstr2binl_words [of key] by (simp add: words_of_def)
  then show ?thesis using False rstr2binl_words [of key] unfolding hmac_key_def Let_def
    by (simp add: le_word_zeros words_of_def)
qed

lemma le_word_xor:
  assumes "4 * j + 3 < length xs" "c = 0x36 \<and> C = 0x36363636 \<or> c = 0x5C \<and> C = 0x5C5C5C5C"
  shows "le_word (map (\<lambda>b. b XOR c) xs) j = le_word xs j XOR C"
proof -
  let ?w = "le_word xs j"
  have C: "drop_bit 8 C AND mask 8 = C AND mask 8" "drop_bit 16 C AND mask 8 = C AND mask 8"
    "drop_bit 24 C AND mask 8 = C AND mask 8" "word_of_int c = C AND mask 8"
    using assms(2) unfolding mask8 [symmetric] by (elim disjE; simp)+
  have "byte_word (map (\<lambda>b. b XOR c) xs) (4 * j + r) = drop_bit (8 * r) (?w XOR C) AND mask 8" if r: "r < 4" for r
  proof -
    have "drop_bit (8 * r) C AND mask 8 = C AND mask 8"
    proof -
      from r consider "r = 0" | "r = 1" | "r = 2" | "r = 3" by linarith
      then show ?thesis using C by cases simp_all
    qed
    moreover have "byte_word (map (\<lambda>b. b XOR c) xs) (4 * j + r) = byte_word xs (4 * j + r) XOR (C AND mask 8)"
      using r assms(1) C(4) by (simp add: byte_word_def mask8 of_int_xor_eq bit.conj_xor_distrib2)
    ultimately show ?thesis using byte_word_of_word [OF r, of xs j] by (simp add: bit.conj_xor_distrib2 drop_bit_xor)
  qed
  from this [of 0] this [of 1] this [of 2] this [of 3]
  have "byte_word (map (\<lambda>b. b XOR c) xs) (4 * j) = (?w XOR C) AND mask 8"
    "byte_word (map (\<lambda>b. b XOR c) xs) (4 * j + 1) = drop_bit 8 (?w XOR C) AND mask 8"
    "byte_word (map (\<lambda>b. b XOR c) xs) (4 * j + 2) = drop_bit 16 (?w XOR C) AND mask 8"
    "byte_word (map (\<lambda>b. b XOR c) xs) (4 * j + 3) = drop_bit 24 (?w XOR C) AND mask 8" by simp_all
  then show ?thesis by (simp only: le_word_def [of "map (\<lambda>b. b XOR c) xs"] bytes_join)
qed

lemma keyed_words:
  assumes "\<And>j. wget bkey j = le_word (hmac_key key) j" "words_of x bs"
    "c = 0x36 \<and> C = 0x36363636 \<or> c = 0x5C \<and> C = 0x5C5C5C5C"
  shows "words_of (map (\<lambda>i. wget bkey i XOR C) [0..<16] @ x) (map (\<lambda>b. b XOR c) (hmac_key key) @ bs)"
proof -
  let ?p = "map (\<lambda>i. wget bkey i XOR C) [0..<16]" let ?k = "map (\<lambda>b. b XOR c) (hmac_key key)"
  have lp: "length ?p = 16" by simp
  have lk: "length ?k = 4 * 16" by (simp add: length_hmac_key)
  have "wget (?p @ x) j = le_word (?k @ bs) j" for j
  proof (cases "j < 16")
    case True
    then have "wget (?p @ x) j = wget bkey j XOR C" unfolding wget_def by (simp add: nth_append del: upt_rec_numeral)
    also have "\<dots> = le_word ?k j" using le_word_xor [of j "hmac_key key", OF _ assms(3)] True assms(1) by (simp add: length_hmac_key)
    finally show ?thesis unfolding le_word_aligned [OF lk] using True by simp
  next
    case False
    then have "wget (?p @ x) j = wget x (j - 16)" unfolding wget_def using lp by (auto simp: nth_append simp del: upt_rec_numeral)
    then show ?thesis unfolding le_word_aligned [OF lk] using False assms(2) by (simp add: words_of_def)
  qed
  moreover have "length (?p @ x) = (length (?k @ bs) + 3) div 4"
    using assms(2) unfolding length_append lp lk by (simp add: words_of_def)
  ultimately show ?thesis by (simp only: words_of_def simp_thms)
qed

lemma rstr_hmac_md5_ok:
  assumes "8 * length key + 64 < 2 ^ 31" "8 * length data + 576 < 2 ^ 31"
  shows "rstr_hmac_md5 key data = hmac_md5 key data"
proof -
  define bkey where "bkey = (if length (rstr2binl key) > 16 then binl_md5 (rstr2binl key) (int (length key) * 8) else rstr2binl key)"
  have k: "wget bkey j = le_word (hmac_key key) j" for j unfolding bkey_def by (rule hmac_key_words [OF assms(1)])
  let ?i = "map (\<lambda>b. b XOR 0x36) (hmac_key key) @ data"
  have "binl_md5 (map (\<lambda>i. wget bkey i XOR 0x36363636) [0..<16] @ rstr2binl data) (8 * int (length ?i)) = quad_list (rfc_md5 ?i)"
    by (rule binl_md5_rfc, rule keyed_words [OF k rstr2binl_words]) (use assms(2) in \<open>simp_all add: length_hmac_key\<close>)
  then have i: "binl_md5 (map (\<lambda>i. wget bkey i XOR 0x36363636) [0..<16] @ rstr2binl data) (512 + int (length data) * 8)
    = quad_list (rfc_md5 ?i)" by (simp add: length_hmac_key algebra_simps del: upt_rec_numeral)
  let ?o = "map (\<lambda>b. b XOR 0x5C) (hmac_key key) @ rfc_digest ?i"
  have d: "words_of (quad_list (rfc_md5 ?i)) (rfc_digest ?i)"
    using digest_words [of "quad_list (rfc_md5 ?i)"] unfolding binl2rstr_bytes rfc_digest_def .
  have "binl_md5 (map (\<lambda>i. wget bkey i XOR 0x5C5C5C5C) [0..<16] @ quad_list (rfc_md5 ?i)) (8 * int (length ?o)) = quad_list (rfc_md5 ?o)"
    by (rule binl_md5_rfc, rule keyed_words [OF k d]) (simp_all add: length_hmac_key length_digest)
  then have o: "binl_md5 (map (\<lambda>i. wget bkey i XOR 0x5C5C5C5C) [0..<16] @ quad_list (rfc_md5 ?i)) (512 + 128) = quad_list (rfc_md5 ?o)"
    by (simp add: length_hmac_key length_digest del: upt_rec_numeral)
  show ?thesis
    unfolding rstr_hmac_md5_def Let_def bkey_def [symmetric] i o hmac_md5_def binl2rstr_bytes rfc_digest_def [of ?o] ..
qed


section \<open>The entry point\<close>

lemma rstr2hex_ok:
  assumes "\<forall>b \<in> set bs. 0 \<le> b \<and> b < 256"
  shows "rstr2hex bs = hex_of_bytes bs"
proof -
  have "charAt ''0123456789abcdef'' (js_and (js_shr x 4) 0x0F) @ charAt ''0123456789abcdef'' (js_and x 0x0F)
      = map hex_char [x div 16, x mod 16]" if "0 \<le> x" "x < 256" for x
  proof -
    have "js_shr x 4 = x div 16" using js_shr_div [of x 4] that by simp
    moreover have "js_and (x div 16) 15 = x div 16 mod 16" "js_and x 15 = x mod 16"
      using js_and_mask [of 4 "x div 16"] js_and_mask [of 4 x] by simp_all
    moreover have "x div 16 mod 16 = x div 16" "0 \<le> x div 16" "x div 16 < 16" using that by simp_all
    ultimately show ?thesis by (simp add: charAt_def hex_char_def)
  qed
  then show ?thesis using assms unfolding rstr2hex_def hex_of_bytes_def by (intro arg_cong [of _ _ concat] map_cong) auto
qed

lemma digest_bytes: "\<forall>b \<in> set (rfc_digest bs). 0 \<le> b \<and> b < 256"
  by (auto simp: rfc_digest_def le_bytes_def)

lemma hex_md5_ok:
  assumes "str2rstr_utf8 s = Some bs" "8 * length bs + 64 < 2 ^ 31"
  shows "hex_md5 s = Some (hex_of_bytes (rfc_digest bs))"
  using assms by (simp add: hex_md5_def raw_md5_def rstr_md5_ok rstr2hex_ok [OF digest_bytes])

lemma hex_hmac_md5_ok:
  assumes "str2rstr_utf8 k = Some kb" "str2rstr_utf8 d = Some db"
    and "8 * length kb + 64 < 2 ^ 31" "8 * length db + 576 < 2 ^ 31"
  shows "hex_hmac_md5 k d = Some (hex_of_bytes (hmac_md5 kb db))"
proof -
  have "rstr2hex (hmac_md5 kb db) = hex_of_bytes (hmac_md5 kb db)"
    unfolding hmac_md5_def by (rule rstr2hex_ok [OF digest_bytes])
  then show ?thesis using assms by (simp add: hex_hmac_md5_def raw_hmac_md5_def rstr_hmac_md5_ok)
qed


end
