(* ===== verification/Password.thy ===== *)
theory Password
  imports Js_Text Complex_Main
begin

text \<open>
  The password meter (passwordStrength/passwordStrength.js): the score of a password, the class of
  the meter it selects, the key handler and the generator of passwords. \<open>draw i max\<close> stands for the
  value of \<open>Math.floor(Math.random() * max)\<close> at the i-th draw.
\<close>

section \<open>The score\<close>

definition is_decimal :: "char \<Rightarrow> bool" where
  "is_decimal c \<longleftrightarrow> (of_char c :: nat) \<in> {48..57}"

definition is_upper :: "char \<Rightarrow> bool" where
  "is_upper c \<longleftrightarrow> (of_char c :: nat) \<in> {65..90}"

definition is_lower :: "char \<Rightarrow> bool" where
  "is_lower c \<longleftrightarrow> (of_char c :: nat) \<in> {97..122}"

definition is_word_char :: "char \<Rightarrow> bool" where
  \<comment> \<open>the characters that \<open>\W\<close> does not match\<close>
  "is_word_char c \<longleftrightarrow> is_decimal c \<or> is_upper c \<or> is_lower c \<or> c = CHR ''_''"

definition getPasswordStrength :: "string \<Rightarrow> int" where
  "getPasswordStrength H =
     (let D = int (length H);
          D = (if D > 5 then 5 else D);
          F = filter (\<lambda>c. \<not> is_decimal c) H;
          G = int (length H) - int (length F);
          G = (if G > 3 then 3 else G);
          A = filter is_word_char H;
          C = int (length H) - int (length A);
          C = (if C > 3 then 3 else C);
          B = filter (\<lambda>c. \<not> is_upper c) H;
          I = int (length H) - int (length B);
          I = (if I > 3 then 3 else I);
          E = (D * 10 - 20) + G * 10 + C * 15 + I * 10;
          E = (if E < 0 then 0 else E);
          E = (if E > 100 then 100 else E)
      in E)"

section \<open>The meter\<close>

text \<open>
  The options and what the plugin keeps on the input: the class attribute the meter had, and the
  percentage of a class, a quotient of numbers that is exact for the ten default classes.
\<close>

record meter =
  meter_classes :: "string list"
  meter_targetDiv :: string
  meter_default :: "string option"
  meter_percents :: rat

definition passwordStrength_defaults :: "string list \<times> string" where
  "passwordStrength_defaults =
     ([''ten10'', ''ten20'', ''ten30'', ''ten40'', ''ten50'', ''ten60'', ''ten70'', ''ten80'', ''ten90'', ''ten100''],
      ''#password'')"

definition passwordStrength :: "string list option \<Rightarrow> string option \<Rightarrow> (string \<Rightarrow> string option) \<Rightarrow> meter" where
  \<comment> \<open>\<open>cls\<close> reads the class attribute of the target\<close>
  "passwordStrength classes target cls =
     (let classes = (case classes of None \<Rightarrow> fst passwordStrength_defaults | Some c \<Rightarrow> c);
          target = (case target of None \<Rightarrow> snd passwordStrength_defaults | Some t \<Rightarrow> t)
      in \<lparr>meter_classes = classes, meter_targetDiv = target, meter_default = cls target,
          meter_percents = (if length classes \<noteq> 0 then 100 / of_nat (length classes) else 100)\<rparr>)"

definition addClass :: "string option \<Rightarrow> string list \<Rightarrow> string list" where
  \<comment> \<open>adding a class that is \<open>undefined\<close> or there already changes nothing\<close>
  "addClass c cs = (case c of None \<Rightarrow> cs | Some c \<Rightarrow> if c \<in> set cs then cs else cs @ [c])"

definition element :: "'a list \<Rightarrow> int \<Rightarrow> 'a option" where
  \<comment> \<open>an index outside the array gives \<open>undefined\<close>\<close>
  "element xs i = (if 0 \<le> i \<and> i < int (length xs) then Some (xs ! nat i) else None)"

definition meter_index :: "meter \<Rightarrow> string \<Rightarrow> int" where
  "meter_index m value =
     (let s = getPasswordStrength value;
          p = meter_percents m;
          t = \<lfloor>of_int s / p\<rfloor>
      in if 100 \<le> s then int (length (meter_classes m)) - 1 else t)"

definition keyup :: "meter \<Rightarrow> string \<Rightarrow> string list" where
  \<comment> \<open>the classes of the target after a key\<close>
  "keyup m value =
     addClass (element (meter_classes m) (meter_index m value)) (addClass (meter_default m) [])"

definition password_chars :: string where
  "password_chars = ''abcdefghijklmnopqrstuvwxyzABCDEFGHIJKLMNOPQRSTUVWXYZ0123456789!@#$_+''"

definition randomPassword :: "(nat \<Rightarrow> nat \<Rightarrow> nat) \<Rightarrow> string" where
  "randomPassword draw =
     for_up 1 11 (\<lambda>i ret. let max = length password_chars - 1; num = draw i max
                          in ret @ substring num (num + 1) password_chars) ''''"

definition generate_click :: "meter \<Rightarrow> (nat \<Rightarrow> nat \<Rightarrow> nat) \<Rightarrow> string \<times> string list" where
  \<comment> \<open>the link after the input: the new value and the classes of the target\<close>
  "generate_click m draw = (let v = randomPassword draw in (v, keyup m v))"

section \<open>Facts\<close>

text \<open>The score as a capped sum over the characters, and its bounds.\<close>

definition count_of :: "(char \<Rightarrow> bool) \<Rightarrow> string \<Rightarrow> int" where
  "count_of P s = int (length (filter P s))"

lemma count_complement: "int (length s) - int (length (filter (\<lambda>c. \<not> P c) s)) = count_of P s"
  using sum_length_filter_compl [of P s] by (simp add: count_of_def)

lemma strength_eq:
  "getPasswordStrength s =
     max 0 (min 100 (min 5 (int (length s)) * 10 - 20 + min 3 (count_of is_decimal s) * 10
       + min 3 (count_of (\<lambda>c. \<not> is_word_char c) s) * 15 + min 3 (count_of is_upper s) * 10))"
proof -
  have cap: "(if k < n then k else n) = min k n" "(if n < 0 then 0 else n) = max 0 n" "min 100 (max 0 n) = max 0 (min 100 n)" for n k :: int
    by simp_all
  have w: "int (length s) - int (length (filter is_word_char s)) = count_of (\<lambda>c. \<not> is_word_char c) s"
    using count_complement [of s "\<lambda>c. \<not> is_word_char c"] by simp
  show ?thesis
    unfolding getPasswordStrength_def Let_def count_complement w by (simp only: cap)
qed

lemma strength_range: "0 \<le> getPasswordStrength s" "getPasswordStrength s \<le> 100"
  unfolding strength_eq by simp_all

lemma count_append: "count_of P (xs @ ys) = count_of P xs + count_of P ys"
  by (simp add: count_of_def)

lemma count_nonneg: "0 \<le> count_of P s"
  by (simp add: count_of_def)

text \<open>More characters never lower the score.\<close>

lemma strength_mono: "getPasswordStrength s \<le> getPasswordStrength (pre @ s @ post)"
proof -
  have grow: "count_of P s \<le> count_of P (pre @ s @ post)" for P
    using count_nonneg [of P pre] count_nonneg [of P post] by (simp add: count_append)
  have "min 5 (int (length s)) \<le> min 5 (int (length (pre @ s @ post)))" by simp
  with grow [of is_decimal] grow [of "\<lambda>c. \<not> is_word_char c"] grow [of is_upper] show ?thesis
    unfolding strength_eq by (intro max.mono min.mono order_refl add_mono diff_mono mult_right_mono) simp_all
qed

lemma meter_index_range:
  assumes "m = passwordStrength classes target cls" "meter_classes m \<noteq> []"
  shows "0 \<le> meter_index m v \<and> meter_index m v < int (length (meter_classes m))"
proof -
  let ?n = "of_nat (length (meter_classes m)) :: rat" let ?s = "getPasswordStrength v"
  have n: "0 < ?n" using assms(2) by simp
  have p: "meter_percents m = 100 / ?n" using assms by (auto simp: passwordStrength_def Let_def)
  have q: "of_int ?s / meter_percents m = of_int ?s * ?n / 100" unfolding p by simp
  show ?thesis
  proof (cases "100 \<le> ?s")
    case True
    then show ?thesis using assms(2) by (cases "meter_classes m") (auto simp: meter_index_def Let_def)
  next
    case False
    then have "(of_int ?s :: rat) < 100" by simp
    then have "of_int ?s * ?n < 100 * ?n" using n by (rule mult_strict_right_mono)
    then have "of_int ?s * ?n / 100 < of_int (int (length (meter_classes m)))" by simp
    then have "\<lfloor>of_int ?s * ?n / 100\<rfloor> < int (length (meter_classes m))" by (simp only: floor_less_iff)
    moreover have "0 \<le> of_int ?s * ?n / 100" using strength_range(1) n by simp
    ultimately show ?thesis using False by (simp add: meter_index_def Let_def q)
  qed
qed

lemma password_chars_length: "length password_chars = 68"
  by (simp add: password_chars_def)

lemma randomPassword_ok:
  assumes "\<And>i. draw i 67 < 67"
  shows "length (randomPassword draw) = 10" "set (randomPassword draw) \<subseteq> set (butlast password_chars)"
proof -
  define f where "f = (\<lambda>i ret. let max = length password_chars - 1; num = draw i max
                          in ret @ substring num (num + 1) password_chars)"
  have "length (for_up 1 11 f []) + 1 = 11 \<and> set (for_up 1 11 f []) \<subseteq> set (butlast password_chars)"
  proof (rule for_up_inv [where P = "\<lambda>i s. length s + 1 = i \<and> set s \<subseteq> set (butlast password_chars)"])
    fix i s assume s: "length s + 1 = i \<and> set s \<subseteq> set (butlast password_chars)"
    have d: "draw i 67 < length (butlast password_chars)" using assms by (simp add: password_chars_length)
    then have "substring (draw i 67) (draw i 67 + 1) password_chars = [butlast password_chars ! draw i 67]"
      using password_chars_length by (simp add: substring_def take_Suc_conv_app_nth nth_butlast take_Suc hd_drop_conv_nth)
    then have "f i s = s @ [butlast password_chars ! draw i 67]" by (simp add: f_def password_chars_length)
    then show "length (f i s) + 1 = Suc i \<and> set (f i s) \<subseteq> set (butlast password_chars)"
      using s d nth_mem by auto
  qed simp_all
  then show "length (randomPassword draw) = 10" "set (randomPassword draw) \<subseteq> set (butlast password_chars)"
    unfolding randomPassword_def f_def by simp_all
qed

end
