(* ===== verification/Tool_Props.thy ===== *)
theory Tool_Props
  imports Md5 Password
begin

text \<open>
  The properties of the digest (encrypt/jquery.md5.js) and of the password meter
  (passwordStrength/passwordStrength.js).
\<close>

section \<open>MD5\<close>

text \<open>The test vector "abc" of the standard: one block, with two words that are not 0.\<close>

definition abc_word :: "nat \<Rightarrow> word32" where
  "abc_word j = (if j = 0 then 0x80636261 else if j = 14 then 24 else 0)"

lemma abc_words: "list_all (\<lambda>j. le_word (rfc_pad [97, 98, 99]) j = abc_word j) [0..<16]"
  by code_simp

lemma abc_block: "rfc_block abc_word (0x67452301, 0xefcdab89, 0x98badcfe, 0x10325476) = (0x98500190, 0xb04fd23c, 0x7d3f96d6, 0x727fe128)"
  by code_simp

lemma digest_abc: "hex_of_bytes (rfc_digest [97, 98, 99]) = ''900150983cd24fb0d6963f7d28e17f72''"
proof -
  have len: "length (rfc_pad [97, 98, 99]) div 64 = 1" by (simp add: length_rfc_pad block_count_def)
  have "rfc_block (\<lambda>j. le_word (rfc_pad [97, 98, 99]) (16 * 0 + j)) st = rfc_block abc_word st" for st
    by (rule rfc_block_cong) (use abc_words in \<open>simp add: list_all_iff\<close>)
  then have md5: "rfc_md5 [97, 98, 99] = (0x98500190, 0xb04fd23c, 0x7d3f96d6, 0x727fe128)"
    unfolding rfc_md5_def len by (simp add: abc_block)
  show ?thesis unfolding rfc_digest_def md5 by code_simp
qed

text \<open>C21: The hexadecimal digest of a string is the MD5 of RFC 1321 of its UTF-8 encoding, for messages of
  less than 2^31 bits: the unrolled rounds, the additions in halves and the little-endian packing compute
  exactly the loop of the standard. A string with a lone surrogate raises.\<close>

theorem hex_md5_rfc1321:
  assumes "case str2rstr_utf8 s of None \<Rightarrow> True | Some bs \<Rightarrow> 8 * length bs + 64 < 2 ^ 31"
  shows "hex_md5 s = map_option (\<lambda>bs. hex_of_bytes (rfc_digest bs)) (str2rstr_utf8 s)"
  using assms hex_md5_ok by (auto simp: hex_md5_def raw_md5_def split: option.splits)

theorem hex_md5_rfc1321_witness:
  "hex_md5 [97, 98, 99] = Some ''900150983cd24fb0d6963f7d28e17f72''"
proof -
  have "str2rstr_utf8 [97, 98, 99] = Some [97, 98, 99]" by code_simp
  then show ?thesis using hex_md5_rfc1321 [of "[97, 98, 99]"] digest_abc by simp
qed

text \<open>C22: The keyed digest is the HMAC of RFC 2104 over that digest: keys of more than 64 bytes are hashed
  first, shorter ones padded with zeros.\<close>

theorem hex_hmac_md5_rfc2104:
  assumes "str2rstr_utf8 k = Some kb" "str2rstr_utf8 d = Some db"
    and "8 * length kb + 64 < 2 ^ 31" "8 * length db + 576 < 2 ^ 31"
  defines "key \<equiv> (let h = (if length kb > 64 then rfc_digest kb else kb) in h @ replicate (64 - length h) 0)"
  shows "hex_hmac_md5 k d = Some (hex_of_bytes
    (rfc_digest (map (\<lambda>b. b XOR 0x5C) key @ rfc_digest (map (\<lambda>b. b XOR 0x36) key @ db))))"
  using hex_hmac_md5_ok [OF assms(1-4)] unfolding hmac_md5_def hmac_key_def key_def by simp

theorem hex_hmac_md5_rfc2104_witness:
  "\<exists>h. hex_hmac_md5 [107] [228] = Some (hex_of_bytes h) \<and> length h = 16"
proof -
  have u: "str2rstr_utf8 [107] = Some [107]" "str2rstr_utf8 [228] = Some [195, 164]" by code_simp+
  show ?thesis using hex_hmac_md5_rfc2104 [OF u] length_digest by auto
qed

section \<open>The password meter\<close>

text \<open>C38: The score lies between 0 and 100, and no added character lowers it, wherever it is put.\<close>

theorem strength_bounded_monotone:
  "0 \<le> getPasswordStrength s \<and> getPasswordStrength s \<le> getPasswordStrength (pre @ s @ post) \<and>
   getPasswordStrength (pre @ s @ post) \<le> 100"
  using strength_range strength_mono by simp

text \<open>The meter always selects one of its classes: with any non-empty list of classes and any password
  the index is inside the list.\<close>

theorem meter_class_exists:
  assumes "m = passwordStrength classes target cls" "meter_classes m \<noteq> []"
  shows "\<exists>c \<in> set (meter_classes m). c \<in> set (keyup m pw)"
proof -
  have "element (meter_classes m) (meter_index m pw) = Some (meter_classes m ! nat (meter_index m pw))"
    using meter_index_range [OF assms] by (simp add: element_def)
  then have "meter_classes m ! nat (meter_index m pw) \<in> set (keyup m pw)"
    by (simp add: keyup_def addClass_def)
  moreover have "nat (meter_index m pw) < length (meter_classes m)" using meter_index_range [OF assms, of pw] by linarith
  ultimately show ?thesis using nth_mem by blast
qed

theorem meter_class_exists_witness:
  "\<exists>c \<in> {''weak'', ''good'', ''strong''}. c \<in> set (keyup (passwordStrength (Some [''weak'', ''good'', ''strong'']) None (\<lambda>_. None)) ''Abc123!'')"
  using meter_class_exists [of "passwordStrength (Some [''weak'', ''good'', ''strong'']) None (\<lambda>_. None)"
      "Some [''weak'', ''good'', ''strong'']" None "\<lambda>_. None" "''Abc123!''"]
  by (simp add: passwordStrength_def)

text \<open>C39: A generated password has ten characters of the alphabet, but never the last one, \<open>+\<close>: the
  random index stays below the length minus one.\<close>

theorem generated_passwords:
  assumes "\<And>i. draw i (length password_chars - 1) < length password_chars - 1"
  shows "length (randomPassword draw) = 10 \<and> set (randomPassword draw) \<subseteq> set password_chars - {CHR ''+''}"
proof -
  have d: "draw i 67 < 67" for i using assms by (simp add: password_chars_length)
  have "set (butlast password_chars) = set password_chars - {CHR ''+''}" by (simp add: password_chars_def; auto)
  then show ?thesis using randomPassword_ok [of draw, OF d] by simp
qed

theorem generated_passwords_witness:
  "length (randomPassword (\<lambda>i n. min i (n - 1))) = 10 \<and> CHR ''+'' \<notin> set (randomPassword (\<lambda>i n. min i (n - 1)))"
proof -
  have "min i (67 - 1) < (67 :: nat)" for i :: nat by simp
  then show ?thesis using generated_passwords [of "\<lambda>i n. min i (n - 1)"]
    by (auto simp: password_chars_length)
qed

end
