(* ===== verification/Page.thy ===== *)
theory Page
  imports Js_Text Complex_Main
begin

text \<open>
  The page the event handlers of jquery/platform.common.js work on: the attributes, values and
  visibility of its elements, addressed by their selectors; the stack of open dialogs with what
  their buttons do; the requests in flight; and the log of what the handlers did, in order.
  jQuery, blockUI, artDialog and the grids are read through their documented interface: setting
  a value, opening a modal dialog, reading the selection. What the tables have selected is part of
  the page: the user changes it, and one handler overwrites it.
\<close>

named_theorems handler_defs \<open>the handlers' definitions\<close>

section \<open>The page\<close>

datatype effect =
    Navigate string
  | Open_Tab string
  | Block_UI string rat rat
  | Unblock_UI
  | Open_Dialog string
  | Footer bool
  | Close_Window
  | Close_Dialog
  | Hook string
  | Refresh_Grid string
  | Post string "(string \<times> string) list"
  | Ajax_Submit string
  | Click string
  | Prevent_Default
  | Stop_Propagation
  | Load_Form string string
  | Reset_Form string

text \<open>
  The portal reads a jqGrid, which is not part of the sources: the selected row, the array of the
  selected rows - an object that \<open>getGridParam\<close> hands out itself, named by an address -, whether its
  settings allow several, and the field \<open>id\<close> of the data of a row.
\<close>

record jqgrid =
  jg_selrow :: "string option"
  jg_selarrrow :: nat
  jg_multiselect :: bool
  jg_rowid :: "string option \<Rightarrow> string option"

text \<open>What a handler keeps of a selection: a text, or the array of a grid.\<close>

datatype selection = Ids_Text string | Ids_Array nat

text \<open>What a button of a dialog calls, besides closing it.\<close>

datatype callback =
    No_Callback
  | Delete_Rows string selection
  | Submit_Result

record dialog =
  dlg_title :: string
  dlg_content :: string
  dlg_width :: string
  dlg_height :: string
  dlg_icon :: "string option"
  dlg_ok :: "callback option"
  dlg_button :: "(string \<times> callback) option"

text \<open>The requests in flight; of those for nodes of a tree, the ones of the tree that is shown.\<close>

datatype request = Delete_Request | Submit_Request | Tree_Request

record page =
  pg_has :: "string \<Rightarrow> bool"
  pg_attr :: "string \<Rightarrow> string \<Rightarrow> string option"
  pg_val :: "string \<Rightarrow> string option"
  pg_html :: "string \<Rightarrow> string option"
  pg_visible :: "string \<Rightarrow> bool"
  pg_class :: "string \<Rightarrow> string \<Rightarrow> bool"
  pg_checked :: "string \<Rightarrow> bool"
  pg_height :: rat
  pg_width :: rat
  pg_blocked :: bool
  pg_parent :: bool
  pg_grid :: "string \<Rightarrow> jqgrid"
  pg_arrays :: "nat \<Rightarrow> string option list"
  pg_rows :: "string option list"
  pg_dialogs :: "dialog list"
  pg_requests :: "request list"
  pg_log :: "effect list"

text \<open>
  The grids by selector and the arrays they refer to are \<open>pg_grid\<close> and \<open>pg_arrays\<close>; the console's table,
  of which the field \<open>id\<close> of each selected row is read, is \<open>pg_rows\<close>.
\<close>

text \<open>The texts of the locale file, an argument of the operations that show one.\<close>

record messages =
  msg_window_title :: string
  msg_alert_title :: string
  msg_alert_closeText :: string
  msg_conform_yes :: string
  msg_conform_no :: string
  msg_select_alertText :: string
  msg_del_conformText :: string
  msg_submit_errorText :: string

text \<open>
  The functions a page may define for the handlers to call. What they do is the page's own; a
  handler sees whether one is defined and, where it uses one, the value it returns.
\<close>

record hooks =
  hk_defined :: "string \<Rightarrow> bool"
  hk_url :: "string \<Rightarrow> string"
  hk_canSubmit :: bool
  hk_beforeSubmit :: "bool option"

definition emit :: "effect \<Rightarrow> page \<Rightarrow> page" where
  "emit e p = p\<lparr>pg_log := pg_log p @ [e]\<rparr>"

definition call_hook :: "hooks \<Rightarrow> string \<Rightarrow> page \<Rightarrow> page" where
  \<comment> \<open>if (typeof(f) == "function") f(..);\<close>
  "call_hook h f p = (if hk_defined h f then emit (Hook f) p else p)"

definition set_visible :: "string \<Rightarrow> bool \<Rightarrow> page \<Rightarrow> page" where
  "set_visible e v p = (if pg_has p e then p\<lparr>pg_visible := (pg_visible p)(e := v)\<rparr> else p)"

definition set_val :: "string \<Rightarrow> string option \<Rightarrow> page \<Rightarrow> page" where
  "set_val e v p = (if pg_has p e then p\<lparr>pg_val := (pg_val p)(e := v)\<rparr> else p)"

definition set_html :: "string \<Rightarrow> string \<Rightarrow> page \<Rightarrow> page" where
  "set_html e v p = (if pg_has p e then p\<lparr>pg_html := (pg_html p)(e := Some v)\<rparr> else p)"

definition set_class :: "string \<Rightarrow> string \<Rightarrow> bool \<Rightarrow> page \<Rightarrow> page" where
  "set_class e c v p =
     (if pg_has p e then p\<lparr>pg_class := (pg_class p)(e := (pg_class p e)(c := v))\<rparr> else p)"

definition set_checked :: "string \<Rightarrow> bool \<Rightarrow> page \<Rightarrow> page" where
  "set_checked e v p = (if pg_has p e then p\<lparr>pg_checked := (pg_checked p)(e := v)\<rparr> else p)"

definition by_id :: "string option \<Rightarrow> string" where
  \<comment> \<open>"#" + id\<close>
  "by_id i = ''#'' @ js_string i"

definition js_join :: "string option list \<Rightarrow> string" where
  \<comment> \<open>an array as a string: its elements separated by commas, \<open>undefined\<close> as nothing\<close>
  "js_join xs = concat (case map (\<lambda>x. case x of None \<Rightarrow> '''' | Some s \<Rightarrow> s) xs of [] \<Rightarrow> [] | y # ys \<Rightarrow> y # map ((#) (CHR '','')) ys)"

definition selection_text :: "page \<Rightarrow> selection \<Rightarrow> string" where
  \<comment> \<open>as a comparison or a concatenation sees it, at that time\<close>
  "selection_text p s = (case s of Ids_Text t \<Rightarrow> t | Ids_Array a \<Rightarrow> js_join (pg_arrays p a))"

text \<open>The parts of the page that the handlers change only on purpose, and those that the tables depend on.\<close>

definition outward :: "page \<Rightarrow> dialog list \<times> request list \<times> bool \<times> effect list" where
  "outward p = (pg_dialogs p, pg_requests p, pg_blocked p, pg_log p)"

definition tables :: "page \<Rightarrow> (string \<Rightarrow> jqgrid) \<times> (nat \<Rightarrow> string option list) \<times> string option list \<times> (string \<Rightarrow> bool)" where
  "tables p = (pg_grid p, pg_arrays p, pg_rows p, pg_has p)"

lemma quiet_setters [simp]:
  "outward (set_visible e v p) = outward p" "outward (set_val e w p) = outward p"
  "outward (set_html e t p) = outward p" "outward (set_class e c v p) = outward p"
  "outward (set_checked e v p) = outward p"
  by (simp_all add: outward_def set_visible_def set_val_def set_html_def set_class_def set_checked_def)

lemma quiet_tables [simp]:
  "tables (set_visible e v p) = tables p" "tables (set_val e w p) = tables p" "tables (set_html e t p) = tables p"
  "tables (set_class e c v p) = tables p" "tables (set_checked e v p) = tables p" "tables (emit f p) = tables p"
  by (simp_all add: tables_def set_visible_def set_val_def set_html_def set_class_def set_checked_def emit_def)

lemma tables_updates [simp]:
  "tables (pg_log_update l p) = tables p" "tables (pg_dialogs_update d p) = tables p"
  "tables (pg_requests_update r p) = tables p" "tables (pg_blocked_update b p) = tables p"
  by (simp_all add: tables_def)

lemma selection_text_tables: "tables p' = tables p \<Longrightarrow> selection_text p' s = selection_text p s"
  by (simp add: tables_def selection_text_def split: selection.split)

lemma outward_emit [simp]: "outward (emit e p) = (pg_dialogs p, pg_requests p, pg_blocked p, pg_log p @ [e])"
  by (simp add: outward_def emit_def)

lemma outward_eq:
  "outward p = (ds, rs, b, l) \<longleftrightarrow> pg_dialogs p = ds \<and> pg_requests p = rs \<and> pg_blocked p = b \<and> pg_log p = l"
  by (auto simp: outward_def)

end
