(* ===== verification/Page_Steps.thy ===== *)
theory Page_Steps
  imports Page
begin

text \<open>
  The events of a page over any set of handlers: what a user and the server can cause, as a step
  relation, and its runs. The locale \<open>page_laws\<close> states what the handlers promise - what each adds to
  the dialogs, the requests and the log - and shows once that a deletion is sent only from a question
  that was confirmed, for the rows that were selected when it was put, and that the page is masked only
  while an answer is awaited. Both web applications are instances.
\<close>

section \<open>Events\<close>

record response =
  rs_message :: "string option"
  rs_messageType :: "string option"
  rs_errors :: "(string \<times> string) list option"

record handlers =
  hd_press :: "string \<Rightarrow> page \<Rightarrow> page"
  hd_submit :: "bool \<Rightarrow> string \<Rightarrow> page \<Rightarrow> page"
  hd_deleted :: "string \<Rightarrow> string \<Rightarrow> selection \<Rightarrow> page \<Rightarrow> page"
  hd_result :: "page \<Rightarrow> page"
  hd_delete_reply :: "response \<Rightarrow> page \<Rightarrow> page"
  hd_submit_reply :: "response \<Rightarrow> page \<Rightarrow> page"
  hd_submit_error :: "page \<Rightarrow> page"
  hd_before_async :: "page \<Rightarrow> page"
  hd_async_success :: "page \<Rightarrow> page"

definition run_callback :: "handlers \<Rightarrow> string \<Rightarrow> callback \<Rightarrow> page \<Rightarrow> page" where
  \<comment> \<open>what the button of a dialog does, at the time \<open>now\<close>\<close>
  "run_callback H now cb p =
     (case cb of
        No_Callback \<Rightarrow> p
      | Delete_Rows this ids \<Rightarrow> hd_deleted H now this ids p
      | Submit_Result \<Rightarrow> hd_result H p)"

definition held :: "page \<Rightarrow> nat set" where
  \<comment> \<open>the arrays that an open question refers to\<close>
  "held p = {a. \<exists>d \<in> set (pg_dialogs p). \<exists>this. dlg_ok d = Some (Delete_Rows this (Ids_Array a))}"

text \<open>
  Every dialog locks the page (\<open>lock: true\<close>): while one is open the user reaches only its buttons. The
  tables change under the hands of the user, and when a reload ends; a grid that reloads starts a new
  array for its selection, so that an array held by an open question stays as it is. A request for
  nodes of a tree is preceded by \<open>beforeAsync\<close>, its answer followed by \<open>onAsyncSuccess\<close>; nothing is
  called when it fails, or when its rows cannot be read. A tree that is set up anew ignores the answers
  to the requests of the old one.
\<close>

datatype event =
    Press string
  | Submit bool string
  | Tables_Change
  | Dialog_Ok string
  | Dialog_Button string
  | Dialog_Cancel
  | Delete_Reply response
  | Submit_Reply response
  | Submit_Error
  | Tree_Init
  | Tree_Load
  | Tree_Reply
  | Tree_Error

inductive page_step :: "handlers \<Rightarrow> event \<Rightarrow> page \<Rightarrow> page \<Rightarrow> bool" for H :: handlers where
  step_press: "pg_dialogs p = [] \<Longrightarrow> page_step H (Press e) p (hd_press H e p)"
| step_submit: "pg_dialogs p = [] \<Longrightarrow> page_step H (Submit valid form) p (hd_submit H valid form p)"
| step_tables: "\<forall>a \<in> held p. A a = pg_arrays p a \<Longrightarrow>
    page_step H Tables_Change p (p\<lparr>pg_grid := G, pg_arrays := A, pg_rows := R\<rparr>)"
| step_ok: "pg_dialogs p = d # ds \<Longrightarrow> dlg_ok d = Some cb \<Longrightarrow>
    page_step H (Dialog_Ok now) p (run_callback H now cb (p\<lparr>pg_dialogs := ds\<rparr>))"
| step_button: "pg_dialogs p = d # ds \<Longrightarrow> dlg_button d = Some (label, cb) \<Longrightarrow>
    page_step H (Dialog_Button now) p (run_callback H now cb (p\<lparr>pg_dialogs := ds\<rparr>))"
| step_cancel: "pg_dialogs p = d # ds \<Longrightarrow> page_step H Dialog_Cancel p (p\<lparr>pg_dialogs := ds\<rparr>)"
| step_delete_reply: "pg_requests p = rs @ Delete_Request # rs' \<Longrightarrow>
    page_step H (Delete_Reply data) p (hd_delete_reply H data (p\<lparr>pg_requests := rs @ rs'\<rparr>))"
| step_submit_reply: "pg_requests p = rs @ Submit_Request # rs' \<Longrightarrow>
    page_step H (Submit_Reply data) p (hd_submit_reply H data (p\<lparr>pg_requests := rs @ rs'\<rparr>))"
| step_submit_error: "pg_requests p = rs @ Submit_Request # rs' \<Longrightarrow>
    page_step H Submit_Error p (hd_submit_error H (p\<lparr>pg_requests := rs @ rs'\<rparr>))"
| step_tree_init: "page_step H Tree_Init p
    ((hd_before_async H p)\<lparr>pg_requests := filter (\<lambda>r. r \<noteq> Tree_Request) (pg_requests p) @ [Tree_Request]\<rparr>)"
| step_tree_load: "page_step H Tree_Load p ((hd_before_async H p)\<lparr>pg_requests := pg_requests p @ [Tree_Request]\<rparr>)"
| step_tree_reply: "pg_requests p = rs @ Tree_Request # rs' \<Longrightarrow>
    page_step H Tree_Reply p (hd_async_success H (p\<lparr>pg_requests := rs @ rs'\<rparr>))"
| step_tree_error: "pg_requests p = rs @ Tree_Request # rs' \<Longrightarrow> page_step H Tree_Error p (p\<lparr>pg_requests := rs @ rs'\<rparr>)"

inductive page_run :: "handlers \<Rightarrow> page \<Rightarrow> event list \<Rightarrow> page \<Rightarrow> bool" for H :: handlers and p0 :: page where
  run_start: "page_run H p0 [] p0"
| run_step: "page_run H p0 es p \<Longrightarrow> page_step H e p p' \<Longrightarrow> page_run H p0 (es @ [e]) p'"

inductive_cases page_stepE: "page_step H e p p'"

inductive_cases press_stepE: "page_step H (Press e) p p'"

definition fresh_page :: "page \<Rightarrow> bool" where
  "fresh_page p \<longleftrightarrow> pg_dialogs p = [] \<and> pg_requests p = [] \<and> \<not> pg_blocked p \<and> pg_log p = []"

section \<open>What a handler adds\<close>

definition adds :: "dialog list \<Rightarrow> request list \<Rightarrow> effect list \<Rightarrow> page \<Rightarrow> page \<Rightarrow> bool" where
  \<comment> \<open>the dialogs it opened, the requests it sent and the effects it had\<close>
  "adds ds rs es p p' \<longleftrightarrow> pg_dialogs p' = ds @ pg_dialogs p \<and> pg_requests p' = pg_requests p @ rs \<and>
     pg_log p' = pg_log p @ es"

definition is_deletion :: "effect \<Rightarrow> bool" where
  \<comment> \<open>a request that the server takes for a deletion\<close>
  "is_deletion e \<longleftrightarrow> (case e of Post u d \<Rightarrow> map_of d ''_method'' = Some ''delete'' | _ \<Rightarrow> False)"

definition innocent :: "dialog \<Rightarrow> bool" where
  \<comment> \<open>no button deletes\<close>
  "innocent d \<longleftrightarrow>
     (case dlg_ok d of Some (Delete_Rows this ids) \<Rightarrow> False | _ \<Rightarrow> True) \<and>
     (case dlg_button d of Some (l, Delete_Rows this ids) \<Rightarrow> False | _ \<Rightarrow> True)"

definition tame :: "request list \<Rightarrow> page \<Rightarrow> page \<Rightarrow> bool" where
  \<comment> \<open>opens innocent dialogs, deletes nothing, sends the requests listed and leaves the tables\<close>
  "tame rs p p' \<longleftrightarrow>
     (\<exists>ds es. adds ds rs es p p' \<and> (\<forall>d \<in> set ds. innocent d) \<and> (\<forall>e \<in> set es. \<not> is_deletion e)) \<and> tables p' = tables p"

definition calm :: "page \<Rightarrow> page \<Rightarrow> bool" where
  "calm p p' \<longleftrightarrow> tame [] p p' \<and> pg_blocked p' = pg_blocked p"

named_theorems calm_intros \<open>handlers that open innocent dialogs, delete nothing, send nothing, leave mask and tables\<close>

lemma tame_trans: "tame rs p q \<Longrightarrow> tame rs' q r \<Longrightarrow> tame (rs @ rs') p r"
proof -
  assume a: "tame rs p q" "tame rs' q r"
  then obtain ds es ds' es' where "adds ds rs es p q" "\<forall>d \<in> set ds. innocent d" "\<forall>e \<in> set es. \<not> is_deletion e"
    "adds ds' rs' es' q r" "\<forall>d \<in> set ds'. innocent d" "\<forall>e \<in> set es'. \<not> is_deletion e" unfolding tame_def by blast
  moreover have "tables r = tables p" using a by (simp add: tame_def)
  ultimately show ?thesis unfolding tame_def adds_def
    by (intro conjI exI [of _ "ds' @ ds"] exI [of _ "es @ es'"]) auto
qed

lemma calm_refl [calm_intros]: "calm p p"
  unfolding calm_def tame_def adds_def by (auto intro: exI [of _ "[]"])

lemma calm_trans: "calm p q \<Longrightarrow> calm q r \<Longrightarrow> calm p r"
  unfolding calm_def using tame_trans [of "[]" p q "[]" r] by simp

lemma calm_outward: "outward p' = outward p \<Longrightarrow> tables p' = tables p \<Longrightarrow> calm p p'"
  unfolding calm_def tame_def adds_def outward_def by (auto intro!: exI [of _ "[]"])

lemma calm_emit: "\<not> is_deletion e \<Longrightarrow> calm p (emit e p)"
  unfolding calm_def tame_def adds_def by (intro conjI exI [of _ "[]"] exI [of _ "[e]"]) (simp_all, simp_all add: emit_def)

lemma calm_effects [calm_intros]:
  "calm p (emit (Navigate u) p)" "calm p (emit (Hook f) p)" "calm p (emit (Refresh_Grid g) p)"
  "calm p (emit Close_Window p)" "calm p (emit Close_Dialog p)" "calm p (emit (Click c) p)"
  "calm p (emit Prevent_Default p)" "calm p (emit Stop_Propagation p)" "calm p (emit (Open_Tab u) p)"
  "calm p (emit (Reset_Form g) p)" "calm p (emit (Footer v) p)" "calm p (emit (Load_Form g u) p)"
  by (rule calm_emit, simp add: is_deletion_def)+

lemma calm_setters [calm_intros]:
  "calm p (set_visible e v p)" "calm p (set_val e w p)" "calm p (set_html e t p)"
  "calm p (set_class e c v p)" "calm p (set_checked e v p)"
  by (rule calm_outward; simp)+

lemma calm_hook [calm_intros]: "calm p (call_hook h f p)"
  by (simp add: call_hook_def calm_intros)

lemma calm_if [calm_intros]:
  "(b \<Longrightarrow> calm p q) \<Longrightarrow> (\<not> b \<Longrightarrow> calm p r) \<Longrightarrow> calm p (if b then q else r)"
  by simp

lemma calm_fold: "(\<And>x p. calm p (f x p)) \<Longrightarrow> calm p (fold f xs p)"
  by (induction xs arbitrary: p) (auto intro: calm_refl calm_trans)

text \<open>A press puts a question: its ok button deletes the rows of this text, which its array or its own text gives.\<close>

definition asks_for :: "messages \<Rightarrow> string \<Rightarrow> page \<Rightarrow> dialog \<Rightarrow> bool" where
  "asks_for msg t p d \<longleftrightarrow> t \<noteq> '''' \<and> dlg_content d = msg_del_conformText msg \<and> dlg_button d = None \<and>
     (\<exists>ids. dlg_ok d = Some (Delete_Rows ''#deleteBtn'' ids) \<and> selection_text p ids = t)"

definition asks :: "messages \<Rightarrow> string \<Rightarrow> page \<Rightarrow> page \<Rightarrow> bool" where
  \<comment> \<open>the dialogs it opens are innocent or ask for these rows; the tables may change\<close>
  "asks msg t p p' \<longleftrightarrow> (\<exists>ds es. adds ds [] es p p' \<and> (\<forall>d \<in> set ds. innocent d \<or> asks_for msg t p' d) \<and>
     (\<forall>e \<in> set es. \<not> is_deletion e)) \<and> pg_blocked p' = pg_blocked p"

lemma calm_asks: "calm p q \<Longrightarrow> asks msg t q r \<Longrightarrow> asks msg t p r"
proof -
  assume a: "calm p q" "asks msg t q r"
  then obtain ds es ds' es' where "adds ds [] es p q" "\<forall>d \<in> set ds. innocent d" "\<forall>e \<in> set es. \<not> is_deletion e"
    "adds ds' [] es' q r" "\<forall>d \<in> set ds'. innocent d \<or> asks_for msg t r d" "\<forall>e \<in> set es'. \<not> is_deletion e"
    unfolding asks_def calm_def tame_def by blast
  moreover have "pg_blocked r = pg_blocked p" using a by (simp add: calm_def asks_def)
  ultimately show ?thesis unfolding asks_def adds_def
    by (intro conjI exI [of _ "ds' @ ds"] exI [of _ "es @ es'"]) auto
qed

lemma asks_outward: "outward q = outward p \<Longrightarrow> asks msg t q r \<Longrightarrow> asks msg t p r"
  by (simp add: asks_def adds_def outward_def)

lemma calm_is_asks: "calm p q \<Longrightarrow> asks msg t p q"
  unfolding calm_def tame_def asks_def by blast

section \<open>The laws of the handlers\<close>

locale page_laws =
  fixes msg :: messages and H :: handlers and veto :: bool and chosen :: "page \<Rightarrow> string"
  assumes press_law: "calm p (hd_press H e p) \<or> e = ''#deleteBtn'' \<and> asks msg (chosen p) p (hd_press H e p)"
    and submit_law: "calm p (hd_submit H valid form p) \<or>
      tame [Submit_Request] p (hd_submit H valid form p) \<or>
      veto \<and> tame [] p (hd_submit H valid form p)"
    and deleted_law: "adds [] [Delete_Request]
        [Post (js_string (pg_attr p this ''wurl'') @ ''?id='' @ selection_text p ids) [(''_method'', ''delete''), (''currTime'', now)]]
        p (hd_deleted H now this ids p) \<and> tables (hd_deleted H now this ids p) = tables p \<and>
      pg_blocked (hd_deleted H now this ids p) = pg_blocked p"
    and result_law: "calm p (hd_result H p)"
    and delete_reply_law: "calm p (hd_delete_reply H data p)"
    and submit_reply_law: "tame [] p (hd_submit_reply H data p) \<and> \<not> pg_blocked (hd_submit_reply H data p)"
    and submit_error_law: "tame [] p (hd_submit_error H p) \<and> \<not> pg_blocked (hd_submit_error H p)"
    and before_async_law: "tame [] p (hd_before_async H p)"
    and async_success_law: "tame [] p (hd_async_success H p) \<and> \<not> pg_blocked (hd_async_success H p)"
begin

text \<open>The deletions a step adds to the log.\<close>

definition deletions :: "page \<Rightarrow> page \<Rightarrow> effect list" where
  "deletions p p' = filter is_deletion (drop (length (pg_log p)) (pg_log p'))"

lemma tame_deletions: "tame rs p p' \<Longrightarrow> deletions p p' = []"
  unfolding deletions_def tame_def adds_def by (auto simp: filter_empty_conv)

lemma calm_deletions: "calm p p' \<Longrightarrow> deletions p p' = []"
  using tame_deletions [of "[]" p p'] by (simp add: calm_def)

text \<open>
  A step outside of the buttons of the dialogs deletes nothing, and keeps the open dialogs below the ones it
  opens: these are innocent, or the question for what is selected.
\<close>

definition opens_safely :: "event \<Rightarrow> page \<Rightarrow> page \<Rightarrow> bool" where
  "opens_safely e p p' \<longleftrightarrow> (\<exists>ds. pg_dialogs p' = ds @ pg_dialogs p \<and>
     (\<forall>d \<in> set ds. innocent d \<or> e = Press ''#deleteBtn'' \<and> asks_for msg (chosen p) p' d))"

lemma tame_opens: "tame rs p p' \<Longrightarrow> opens_safely e p p'"
  unfolding tame_def adds_def opens_safely_def by blast

lemma calm_opens: "calm p p' \<Longrightarrow> opens_safely e p p'"
  using tame_opens [of "[]" p p'] by (simp add: calm_def)

lemma asks_opens: "asks msg (chosen p) p p' \<Longrightarrow> opens_safely (Press ''#deleteBtn'') p p' \<and> deletions p p' = []"
  unfolding asks_def adds_def opens_safely_def deletions_def by (auto simp: filter_empty_conv)

lemma press_opens: "opens_safely (Press e) p (hd_press H e p) \<and> deletions p (hd_press H e p) = []"
  using press_law [of p e] calm_opens calm_deletions asks_opens by blast

lemma submit_opens: "opens_safely e p (hd_submit H valid form p) \<and> deletions p (hd_submit H valid form p) = []"
  using submit_law [of p valid form] tame_opens tame_deletions by (auto simp: calm_def)

lemma same_dialogs: "opens_safely e p q = opens_safely e (p\<lparr>pg_requests := rs\<rparr>) q \<or> e = Press ''#deleteBtn''"
  "opens_safely e p (q\<lparr>pg_requests := rs\<rparr>) = opens_safely e p q \<or> e = Press ''#deleteBtn''"
  "deletions p q = deletions (p\<lparr>pg_requests := rs\<rparr>) q" "deletions p (q\<lparr>pg_requests := rs\<rparr>) = deletions p q"
  by (auto simp: opens_safely_def deletions_def)

lemma tame_reply:
  assumes "tame rs (p\<lparr>pg_requests := rs'\<rparr>) q" "e \<noteq> Press ''#deleteBtn''"
  shows "opens_safely e p q \<and> deletions p q = []"
  using tame_opens [OF assms(1), of e] tame_deletions [OF assms(1)] same_dialogs(1,3) assms(2) by metis

lemma tame_request:
  assumes "tame rs p q" "e \<noteq> Press ''#deleteBtn''"
  shows "opens_safely e p (q\<lparr>pg_requests := rs'\<rparr>) \<and> deletions p (q\<lparr>pg_requests := rs'\<rparr>) = []"
  using tame_opens [OF assms(1), of e] tame_deletions [OF assms(1)] same_dialogs(2,4) assms(2) by metis

lemma step_opens:
  assumes "page_step H e p p'"
  shows "opens_safely e p p' \<and> deletions p p' = [] \<or>
    (\<exists>d ds cb now q. pg_dialogs p = d # ds \<and> q = p\<lparr>pg_dialogs := ds\<rparr> \<and>
       (e = Dialog_Ok now \<and> dlg_ok d = Some cb \<and> p' = run_callback H now cb q \<or>
        e = Dialog_Button now \<and> (\<exists>l. dlg_button d = Some (l, cb)) \<and> p' = run_callback H now cb q \<or>
        e = Dialog_Cancel \<and> p' = q))"
  using assms
proof (cases rule: page_step.cases)
  case (step_press b)
  then show ?thesis using press_opens by blast
next
  case (step_submit valid form)
  then show ?thesis using submit_opens by blast
next
  case (step_tables A G R)
  then show ?thesis by (simp add: opens_safely_def deletions_def)
next
  case (step_delete_reply rs rs' data)
  then show ?thesis using tame_reply [where rs = "[]" and p = p and rs' = "rs @ rs'" and q = p' and e = e] delete_reply_law by (simp add: calm_def)
next
  case (step_submit_reply rs rs' data)
  then show ?thesis using tame_reply [where rs = "[]" and p = p and rs' = "rs @ rs'" and q = p' and e = e] submit_reply_law by simp
next
  case (step_submit_error rs rs')
  then show ?thesis using tame_reply [where rs = "[]" and p = p and rs' = "rs @ rs'" and q = p' and e = e] submit_error_law by simp
next
  case step_tree_init
  then show ?thesis using tame_request [OF before_async_law, where e = Tree_Init] by simp
next
  case step_tree_load
  then show ?thesis using tame_request [OF before_async_law, where e = Tree_Load] by simp
next
  case (step_tree_reply rs rs')
  then show ?thesis using tame_reply [where rs = "[]" and p = p and rs' = "rs @ rs'" and q = p' and e = e] async_success_law by simp
next
  case (step_tree_error rs rs')
  then show ?thesis by (simp add: opens_safely_def deletions_def)
qed blast+

section \<open>Questions\<close>

text \<open>While a question is open, what it asks for does not change.\<close>

lemma callback_tables: "tables (run_callback H now cb p) = tables p"
  using deleted_law result_law unfolding run_callback_def calm_def tame_def by (simp split: callback.split)

lemma step_keeps_text:
  assumes "page_step H e p p'" "d \<in> set (pg_dialogs p)" "dlg_ok d = Some (Delete_Rows this ids)"
  shows "selection_text p' ids = selection_text p ids"
proof -
  have drop: "tables (p\<lparr>pg_dialogs := ds\<rparr>) = tables p" "tables (p\<lparr>pg_requests := rs\<rparr>) = tables p" for ds rs p
    by (simp_all add: tables_def)
  have other: "tables p' = tables p" if "e \<noteq> Tables_Change"
    using assms(1)
  proof (cases rule: page_step.cases)
    case (step_delete_reply rs rs' data)
    then show ?thesis using delete_reply_law [of "p\<lparr>pg_requests := rs @ rs'\<rparr>" data] drop(2) by (simp add: calm_def tame_def)
  next
    case (step_submit_reply rs rs' data)
    then show ?thesis using submit_reply_law [of "p\<lparr>pg_requests := rs @ rs'\<rparr>" data] drop(2) by (simp add: tame_def)
  next
    case (step_submit_error rs rs')
    then show ?thesis using submit_error_law [of "p\<lparr>pg_requests := rs @ rs'\<rparr>"] drop(2) by (simp add: tame_def)
  next
    case (step_tree_reply rs rs')
    then show ?thesis using async_success_law [of "p\<lparr>pg_requests := rs @ rs'\<rparr>"] drop(2) by (simp add: tame_def)
  qed (use assms(2) that before_async_law [of p] in \<open>simp_all add: callback_tables drop tame_def\<close>)
  show ?thesis
  proof (cases "e = Tables_Change")
    case True
    then obtain A G R where A: "\<forall>a \<in> held p. A a = pg_arrays p a" "p' = p\<lparr>pg_grid := G, pg_arrays := A, pg_rows := R\<rparr>"
      using assms(1) by (auto elim: page_stepE)
    have "a \<in> held p" if "ids = Ids_Array a" for a using assms(2,3) that by (auto simp: held_def)
    then show ?thesis using A by (simp add: selection_text_def split: selection.split)
  next
    case False
    then show ?thesis by (intro selection_text_tables other)
  qed
qed

text \<open>A question that is open: the press that put it, and the run since then.\<close>

definition put_at :: "page \<Rightarrow> event list \<Rightarrow> page \<Rightarrow> dialog \<Rightarrow> bool" where
  "put_at p0 es p d \<longleftrightarrow> (\<exists>es1 es2 q. es = es1 @ Press ''#deleteBtn'' # es2 \<and> page_run H p0 es1 q \<and>
     page_run H (hd_press H ''#deleteBtn'' q) es2 p \<and> d \<in> set (pg_dialogs (hd_press H ''#deleteBtn'' q)) \<and> asks_for msg (chosen q) p d)"

lemma put_at_step:
  assumes "put_at p0 es p d" "page_step H e p p'" "d \<in> set (pg_dialogs p)"
  shows "put_at p0 (es @ [e]) p' d"
proof -
  obtain es1 es2 q where q: "es = es1 @ Press ''#deleteBtn'' # es2" "page_run H p0 es1 q"
    "page_run H (hd_press H ''#deleteBtn'' q) es2 p" "d \<in> set (pg_dialogs (hd_press H ''#deleteBtn'' q))" "asks_for msg (chosen q) p d"
    using assms(1) unfolding put_at_def by blast
  have "asks_for msg (chosen q) p' d"
    using q(5) step_keeps_text [OF assms(2,3)] unfolding asks_for_def by metis
  then show ?thesis
    unfolding put_at_def using q run_step [OF q(3) assms(2)] by (intro exI [of _ es1] exI [of _ "es2 @ [e]"] exI [of _ q]) simp
qed

lemma callback_dialogs: "pg_dialogs p = d # ds \<Longrightarrow> \<exists>ds'. pg_dialogs (run_callback H now cb (p\<lparr>pg_dialogs := ds\<rparr>)) = ds' @ ds \<and> (\<forall>d \<in> set ds'. innocent d)"
  using deleted_law [of "p\<lparr>pg_dialogs := ds\<rparr>"] result_law [of "p\<lparr>pg_dialogs := ds\<rparr>"]
  unfolding run_callback_def calm_def tame_def adds_def by (cases cb) auto

lemma run_dialogs:
  assumes "page_run H p0 es p" "fresh_page p0"
  shows "\<forall>d \<in> set (pg_dialogs p). innocent d \<or> put_at p0 es p d"
  using assms(1)
proof (induction rule: page_run.induct)
  case run_start
  then show ?case using assms(2) by (simp add: fresh_page_def)
next
  case (run_step es p e p')
  have old: "innocent d \<or> put_at p0 (es @ [e]) p' d" if "d \<in> set (pg_dialogs p)" for d
    using run_step.IH put_at_step [OF _ run_step.hyps(2) that] that by blast
  show ?case
  proof (cases "opens_safely e p p'")
    case True
    then obtain ds where ds: "pg_dialogs p' = ds @ pg_dialogs p"
      "\<forall>d \<in> set ds. innocent d \<or> e = Press ''#deleteBtn'' \<and> asks_for msg (chosen p) p' d" unfolding opens_safely_def by blast
    have "put_at p0 (es @ [e]) p' d" if d: "d \<in> set ds" "\<not> innocent d" for d
    proof -
      have a: "e = Press ''#deleteBtn''" "asks_for msg (chosen p) p' d" using ds(2) d by blast+
      then have "p' = hd_press H ''#deleteBtn'' p" using run_step.hyps(2) by (auto elim: press_stepE)
      then show ?thesis
        unfolding put_at_def using a d(1) ds(1) run_step.hyps(1) page_run.run_start
        by (intro exI [of _ es] exI [of _ "[]"] exI [of _ p]) auto
    qed
    then show ?thesis using old ds(1) by auto
  next
    case False
    then obtain d ds cb now where "pg_dialogs p = d # ds"
      "p' = run_callback H now cb (p\<lparr>pg_dialogs := ds\<rparr>) \<or> p' = p\<lparr>pg_dialogs := ds\<rparr>"
      using step_opens [OF run_step.hyps(2)] by blast
    then have "\<forall>d \<in> set (pg_dialogs p'). innocent d \<or> d \<in> set (pg_dialogs p)"
      using callback_dialogs [of p d ds now cb] by auto
    then show ?thesis using old by blast
  qed
qed

lemma callback_deletions:
  assumes "deletions p (run_callback H now cb q) \<noteq> []" "pg_log q = pg_log p" "pg_attr q = pg_attr p" "tables q = tables p"
  shows "\<exists>this ids. cb = Delete_Rows this ids \<and> deletions p (run_callback H now cb q) =
    [Post (js_string (pg_attr p this ''wurl'') @ ''?id='' @ selection_text p ids) [(''_method'', ''delete''), (''currTime'', now)]]"
proof (cases cb)
  case No_Callback
  then show ?thesis using assms by (simp add: run_callback_def deletions_def)
next
  case (Delete_Rows this ids)
  then show ?thesis using deleted_law [of q this ids now] assms(2,3) selection_text_tables [OF assms(4)]
    by (simp add: run_callback_def deletions_def adds_def is_deletion_def)
next
  case Submit_Result
  then have "deletions q (run_callback H now cb q) = []"
    using result_law [of q] by (simp add: run_callback_def calm_deletions)
  then show ?thesis using assms(1,2) by (simp add: deletions_def)
qed

lemma deletion_needs_confirmation:
  assumes "page_run H p0 es p" "fresh_page p0" "page_step H e p p'" "deletions p p' \<noteq> []"
  shows "\<exists>now d ds es1 es2 q. e = Dialog_Ok now \<and> pg_dialogs p = d # ds \<and> dlg_content d = msg_del_conformText msg \<and>
    es = es1 @ Press ''#deleteBtn'' # es2 \<and> page_run H p0 es1 q \<and> page_run H (hd_press H ''#deleteBtn'' q) es2 p \<and>
    d \<in> set (pg_dialogs (hd_press H ''#deleteBtn'' q)) \<and> chosen q \<noteq> '''' \<and>
    deletions p p' = [Post (js_string (pg_attr p ''#deleteBtn'' ''wurl'') @ ''?id='' @ chosen q) [(''_method'', ''delete''), (''currTime'', now)]]"
proof -
  obtain d ds cb now where s: "pg_dialogs p = d # ds"
    "e = Dialog_Ok now \<and> dlg_ok d = Some cb \<and> p' = run_callback H now cb (p\<lparr>pg_dialogs := ds\<rparr>) \<or>
     e = Dialog_Button now \<and> (\<exists>l. dlg_button d = Some (l, cb)) \<and> p' = run_callback H now cb (p\<lparr>pg_dialogs := ds\<rparr>)"
    using step_opens [OF assms(3)] assms(4) by (auto simp: deletions_def)
  have "tables (p\<lparr>pg_dialogs := ds\<rparr>) = tables p" by (simp add: tables_def)
  then obtain this ids where c: "cb = Delete_Rows this ids" "deletions p p' =
    [Post (js_string (pg_attr p this ''wurl'') @ ''?id='' @ selection_text p ids) [(''_method'', ''delete''), (''currTime'', now)]]"
    using callback_deletions [of p now cb "p\<lparr>pg_dialogs := ds\<rparr>"] assms(4) s(2) by auto
  then have "\<not> innocent d" using s(2) by (auto simp: innocent_def)
  then have "put_at p0 es p d" using run_dialogs [OF assms(1,2)] s(1) by simp
  then obtain es1 es2 q where q: "es = es1 @ Press ''#deleteBtn'' # es2" "page_run H p0 es1 q"
    "page_run H (hd_press H ''#deleteBtn'' q) es2 p" "d \<in> set (pg_dialogs (hd_press H ''#deleteBtn'' q))" "asks_for msg (chosen q) p d"
    unfolding put_at_def by blast
  then have "e = Dialog_Ok now" "this = ''#deleteBtn''" "selection_text p ids = chosen q" "chosen q \<noteq> ''''"
    "dlg_content d = msg_del_conformText msg"
    using s(2) c(1) unfolding asks_for_def by auto
  then show ?thesis using s(1) c(2) q(1-4)
    by (intro exI [of _ now] exI [of _ d] exI [of _ ds] exI [of _ es1] exI [of _ es2] exI [of _ q]) simp
qed

section \<open>The mask\<close>

text \<open>The page waits for an answer that will take the mask away.\<close>

definition waits :: "page \<Rightarrow> bool" where
  "waits p \<longleftrightarrow> Submit_Request \<in> set (pg_requests p) \<or> Tree_Request \<in> set (pg_requests p)"

lemma calm_waits: "calm p q \<Longrightarrow> pg_blocked q = pg_blocked p \<and> waits q = waits p"
  by (auto simp: calm_def tame_def adds_def waits_def)

lemma callback_waits: "pg_blocked (run_callback H now cb p) = pg_blocked p \<and> waits (run_callback H now cb p) = waits p"
  using deleted_law [of p] calm_waits [OF result_law [of p]]
  unfolding run_callback_def by (cases cb) (auto simp: waits_def adds_def)

lemma step_waits:
  assumes "page_step H e p p'" "pg_blocked p \<longrightarrow> waits p" "\<not> veto" "e \<noteq> Tree_Error"
  shows "pg_blocked p' \<longrightarrow> waits p'"
  using assms(1)
proof (cases rule: page_step.cases)
  case (step_press b)
  have "pg_blocked p' = pg_blocked p \<and> waits p' = waits p"
    using press_law [of p b] calm_waits [of p p'] unfolding step_press(2) by (auto simp: asks_def adds_def waits_def)
  then show ?thesis using assms(2) by simp
next
  case (step_submit valid form)
  then show ?thesis using submit_law [of p valid form] assms(2,3) calm_waits [of p p']
    by (auto simp: tame_def adds_def waits_def)
next
  case (step_ok d ds cb now)
  then show ?thesis using assms(2) callback_waits [of now cb "p\<lparr>pg_dialogs := ds\<rparr>"] by (simp add: waits_def)
next
  case (step_button d ds l cb now)
  then show ?thesis using assms(2) callback_waits [of now cb "p\<lparr>pg_dialogs := ds\<rparr>"] by (simp add: waits_def)
next
  case (step_delete_reply rs rs' data)
  then show ?thesis using assms(2) calm_waits [OF delete_reply_law [of "p\<lparr>pg_requests := rs @ rs'\<rparr>" data]] by (auto simp: waits_def)
qed (use assms(2,4) submit_reply_law submit_error_law async_success_law in \<open>auto simp: waits_def\<close>)

lemma masked_waits:
  "page_run H p0 es p \<Longrightarrow> fresh_page p0 \<Longrightarrow> \<not> veto \<Longrightarrow> Tree_Error \<notin> set es \<Longrightarrow> pg_blocked p \<Longrightarrow> waits p"
proof (induction rule: page_run.induct)
  case (run_step es p e p')
  then show ?case using step_waits [of e p p'] by auto
qed (simp add: fresh_page_def)

end

end
