(* ===== verification/Platform.thy ===== *)
theory Platform
  imports Page_Steps
begin

text \<open>
  The handlers of the user portal (maxkey-web-maxkey, jquery/platform.common.js), one definition
  each, on the page of \<open>Page\<close>; then the events a user and the server cause, as steps, and what
  holds in every state the page can reach.
\<close>

section \<open>Queries of the grid\<close>

definition dataGridQueryParams :: "(string \<Rightarrow> (string \<rightharpoonup> string)) \<Rightarrow> (string \<rightharpoonup> string) \<Rightarrow> (string \<rightharpoonup> string)" where
  \<comment> \<open>\<open>serializeObject\<close> gives the fields of a form, none when it does not exist; a jQuery object is
     never false, so both conditions hold\<close>
  "dataGridQueryParams serializeObject params =
     (let postData = serializeObject ''#basic_search_form'';
          postData = postData ++ serializeObject ''#advanced_search_form''
      in params ++ postData)"

section \<open>Forward, masks, dialogs\<close>

record forward_config =
  fw_url :: "string option"
  fw_href :: "string option"
  fw_elem :: "string option"

datatype forward = Forward_To string | Forward_Config forward_config

definition jq_forward :: "forward \<Rightarrow> page \<Rightarrow> page" where
  "jq_forward config p =
     (case config of
        Forward_To u \<Rightarrow> emit (Navigate u) p
      | Forward_Config c \<Rightarrow>
          if truthy (fw_url c) then emit (Navigate (js_string (fw_url c))) p
          else if truthy (fw_href c) then emit (Navigate (js_string (fw_href c))) p
          else if truthy (fw_elem c) then
            (let w = pg_attr p (by_id (fw_elem c)) ''wurl''
             in if truthy w then emit (Navigate (js_string w)) p else p)
          else emit (Navigate ''[object Object]'') p)"

definition jq_loading :: "page \<Rightarrow> page" where
  "jq_loading p =
     (emit (Block_UI (''<div class='' @ quoted ''ajaxloading'' @ ''></div>'') ((pg_height p - 80) / 2) ((pg_width p - 80) / 2)) p)
       \<lparr>pg_blocked := True\<rparr>"

definition jq_unloading :: "page \<Rightarrow> page" where
  "jq_unloading p = (emit Unblock_UI p)\<lparr>pg_blocked := False\<rparr>"

definition jq_mask :: "page \<Rightarrow> page" where
  "jq_mask p = (emit (Block_UI '''' (pg_height p / 2) (pg_width p / 2)) p)\<lparr>pg_blocked := True\<rparr>"

definition jq_unmask :: "page \<Rightarrow> page" where
  "jq_unmask p = (emit Unblock_UI p)\<lparr>pg_blocked := False\<rparr>"

definition messageType :: "string \<Rightarrow> string option" where
  "messageType t =
     (if t = ''information'' then Some ''information''
      else if t = ''error'' then Some ''error''
      else if t = ''question'' then Some ''question''
      else if t = ''warning'' then Some ''warning''
      else if t = ''succeed'' then Some ''succeed''
      else if t = ''success'' then Some ''succeed''
      else if t = ''fail'' then Some ''error''
      else if t = ''info'' then Some ''information''
      else if t = ''prompt'' then Some ''information''
      else None)"

definition box_span :: "string \<Rightarrow> string" where
  \<comment> \<open>the span that is put after the input with this id\<close>
  "box_span i = by_id (Some i) @ ''+span''"

definition checkbox_setup :: "string list \<Rightarrow> page \<Rightarrow> page" where
  \<comment> \<open>over the ids of the inputs of class checkbox\<close>
  "checkbox_setup ids p =
     fold (\<lambda>i p.
       let s = box_span i;
           p = p\<lparr>pg_has := (pg_has p)(s := True), pg_attr := (pg_attr p)(s := [''for'' \<mapsto> i]),
                 pg_class := (pg_class p)(s := (\<lambda>c. c = ''checkboxspan'' \<or> c = ''icon_checkbox'')),
                 pg_visible := (pg_visible p)(s := True)\<rparr>
       in set_visible (by_id (Some i)) False p) ids p"

definition checkbox_label_click :: "string \<Rightarrow> page \<Rightarrow> page" where
  \<comment> \<open>\<open>checkboxElem\<close> is the span inside the label\<close>
  "checkbox_label_click checkboxElem p =
     (let forElem = by_id (pg_attr p checkboxElem ''for'')
      in if pg_class p checkboxElem ''icon_checkbox'' then
           (let p = set_checked forElem True p;
                p = set_class checkboxElem ''icon_checkbox'' False p
            in set_class checkboxElem ''icon_checkbox_selected'' True p)
         else
           (let p = set_class checkboxElem ''icon_checkbox_selected'' False p;
                p = set_class checkboxElem ''icon_checkbox'' True p
            in set_checked forElem False p))"

text \<open>A click on the label of such a box checks its input, the next one unchecks it, and the span shows which.\<close>

lemma checkbox_setup_click:
  assumes "pg_has p (by_id (Some i))"
  defines "q \<equiv> checkbox_label_click (box_span i) (checkbox_setup [i] p)"
  shows "pg_checked q (by_id (Some i))" "\<not> pg_class q (box_span i) ''icon_checkbox''"
    "\<not> pg_checked (checkbox_label_click (box_span i) q) (by_id (Some i))"
    "pg_class (checkbox_label_click (box_span i) q) (box_span i) ''icon_checkbox''"
    "\<not> pg_visible q (by_id (Some i))"
  using assms
  by (simp_all add: q_def checkbox_setup_def checkbox_label_click_def set_checked_def set_class_def set_visible_def Let_def box_span_def)

text \<open>
  The dialog library opens a modal dialog with the given fields on top of the others. It reads
  \<open>initialize\<close>, not the field \<open>init\<close> that the settings pass, so that no mask is put up
  when a window opens.
\<close>

definition jq_dialog :: "dialog \<Rightarrow> page \<Rightarrow> page" where
  "jq_dialog d p = (emit (Open_Dialog (dlg_content d)) p)\<lparr>pg_dialogs := d # pg_dialogs p\<rparr>"

record window_settings =
  ws_url :: string
  ws_title :: "string option"
  ws_width :: "string option"
  ws_height :: "string option"

definition jq_window :: "messages \<Rightarrow> window_settings \<Rightarrow> page \<Rightarrow> page" where
  "jq_window msg s p =
     (let title = setting (ws_title s) (msg_window_title msg);
          width = setting (ws_width s) ''400'';
          height = setting (ws_height s) ''340'';
          winContent = ''<iframe scrolling='' @ quoted ''no'' @ '' frameborder='' @ quoted ''0'' @
            '' width='' @ quoted width @ '' height='' @ quoted height @ '' src='' @ quoted (ws_url s) @ ''></iframe>'';
          p = jq_dialog \<lparr>dlg_title = title, dlg_content = winContent, dlg_width = width, dlg_height = height,
                 dlg_icon = None, dlg_ok = Some No_Callback, dlg_button = Some (''undefined'', No_Callback)\<rparr> p
      in emit (Footer False) p)"

definition jq_closeWindow :: "page \<Rightarrow> page" where
  "jq_closeWindow p = emit Close_Window p"

record alert_settings =
  al_content :: string
  al_type :: "string option"
  al_callback :: "callback option"

definition jq_alert :: "messages \<Rightarrow> alert_settings \<Rightarrow> page \<Rightarrow> page" where
  "jq_alert msg s p =
     (let p = jq_dialog \<lparr>dlg_title = msg_alert_title msg, dlg_content = al_content s, dlg_width = ''300'',
                 dlg_height = ''80'', dlg_icon = Some (setting (al_type s) ''warning''), dlg_ok = None,
                 dlg_button = Some (msg_alert_closeText msg, setting (al_callback s) No_Callback)\<rparr> p
      in emit (Footer True) p)"

definition jq_conform :: "messages \<Rightarrow> alert_settings \<Rightarrow> page \<Rightarrow> page" where
  "jq_conform msg s p =
     (let p = jq_dialog \<lparr>dlg_title = msg_alert_title msg, dlg_content = al_content s, dlg_width = ''300'',
                 dlg_height = ''80'', dlg_icon = Some (setting (al_type s) ''question''),
                 dlg_ok = Some (setting (al_callback s) No_Callback), dlg_button = None\<rparr> p
      in emit (Footer True) p)"

section \<open>Buttons that open a page\<close>

definition window_of :: "string \<Rightarrow> string \<Rightarrow> page \<Rightarrow> window_settings" where
  \<comment> \<open>the settings every handler builds from the element \<open>this\<close>\<close>
  "window_of this url p =
     \<lparr>ws_url = url, ws_title = pg_attr p this ''wtitle'', ws_width = pg_attr p this ''wwidth'',
      ws_height = pg_attr p this ''wheight''\<rparr>"

definition window_click :: "messages \<Rightarrow> hooks \<Rightarrow> string \<Rightarrow> page \<Rightarrow> page" where
  "window_click msg h this p =
     (let p = call_hook h ''beforeWindow'' p;
          url = js_string (pg_attr p this ''wurl'');
          url = (if truthy (pg_attr p this ''ref'')
                 then url @ ''/'' @ js_string (pg_val p (by_id (pg_attr p this ''ref''))) else url)
      in jq_window msg (window_of this url p) p)"

definition forward_click :: "string \<Rightarrow> page \<Rightarrow> page" where
  "forward_click this p =
     jq_forward (Forward_Config \<lparr>fw_url = pg_attr p this ''wurl'', fw_href = pg_attr p this ''wurl'', fw_elem = None\<rparr>) p"

definition advanced_click :: "string \<Rightarrow> page \<Rightarrow> page" where
  "advanced_click this p =
     (let p = set_visible ''#advanced_search'' (\<not> pg_visible p ''#advanced_search'') p
      in if pg_has p ''#advanced_search'' \<and> pg_visible p ''#advanced_search''
         then set_val this (pg_attr p this ''collapseValue'') p
         else emit (Reset_Form ''#advanced_search_form'') (set_val this (pg_attr p this ''expandValue'') p))"

definition search_click :: "hooks \<Rightarrow> page \<Rightarrow> page" where
  "search_click h p =
     (let p = set_visible ''#list_pager'' True p;
          p = call_hook h ''beforeSearch'' p;
          p = emit (Refresh_Grid ''#datagrid'') p
      in call_hook h ''afterSearch'' p)"

definition close_click :: "page \<Rightarrow> page" where
  "close_click p = jq_closeWindow p"

definition ref_url :: "string \<Rightarrow> page \<Rightarrow> string" where
  \<comment> \<open>the address of the add button: wurl, and the value of the field ref names unless it is empty\<close>
  "ref_url this p =
     (let wurl = js_string (pg_attr p this ''wurl'')
      in if truthy (pg_attr p this ''ref'') then
           (let v = pg_val p (by_id (pg_attr p this ''ref''))
            in if v = Some '''' then wurl else wurl @ ''/'' @ js_string v)
         else wurl)"

definition add_click :: "messages \<Rightarrow> hooks \<Rightarrow> page \<Rightarrow> page" where
  "add_click msg h p =
     (let this = ''#addBtn''
      in if hk_defined h ''addAction'' then emit (Navigate (hk_url h ''addAction'')) (emit (Hook ''addAction'') p)
         else
           let p = call_hook h ''beforeAdd'' p
           in if pg_attr p this ''target'' = Some ''forward''
              then jq_forward (Forward_To (ref_url this p)) p
              else jq_window msg (window_of this (ref_url this p) p) p)"

section \<open>The selection of a grid\<close>

definition selected_row :: "page \<Rightarrow> string option" where
  \<comment> \<open>the id the modify button uses\<close>
  "selected_row p =
     (if pg_has p ''#list2'' then jg_rowid (pg_grid p ''#list2'') (jg_selrow (pg_grid p ''#list2''))
      else if pg_has p ''#list'' then jg_rowid (pg_grid p ''#list'') (jg_selrow (pg_grid p ''#list''))
      else None)"

definition grid_ids :: "string \<Rightarrow> page \<Rightarrow> selection option \<times> page" where
  \<comment> \<open>\<open>selectIds\<close>: with several rows the grid's own array, whose entries the loop overwrites\<close>
  "grid_ids e p =
     (let g = pg_grid p e; a = jg_selarrrow g
      in if jg_multiselect g
         then (Some (Ids_Array a), p\<lparr>pg_arrays := (pg_arrays p)(a := map (jg_rowid g) (pg_arrays p a))\<rparr>)
         else (map_option Ids_Text (jg_rowid g (jg_selrow g)), p))"

definition selected_ids :: "page \<Rightarrow> selection option \<times> page" where
  "selected_ids p =
     (if pg_has p ''#list2'' then grid_ids ''#list2'' p
      else if pg_has p ''#list'' then grid_ids ''#list'' p
      else (None, p))"

definition open_selected :: "messages \<Rightarrow> string \<Rightarrow> string \<Rightarrow> page \<Rightarrow> page" where
  "open_selected msg this selectId p =
     (let url = js_string (pg_attr p this ''wurl'') @ ''/'' @ selectId
      in if pg_attr p this ''target'' = Some ''forward'' then jq_forward (Forward_To url) p
         else jq_window msg (window_of this url p) p)"

definition alert_select :: "messages \<Rightarrow> page \<Rightarrow> page" where
  "alert_select msg p = jq_alert msg \<lparr>al_content = msg_select_alertText msg, al_type = None, al_callback = None\<rparr> p"

definition modify_click :: "messages \<Rightarrow> hooks \<Rightarrow> page \<Rightarrow> page" where
  "modify_click msg h p =
     (let this = ''#modifyBtn''
      in if hk_defined h ''updateAction'' then emit (Navigate (hk_url h ''updateAction'')) (emit (Hook ''updateAction'') p)
         else
           let p = call_hook h ''beforeUpdate'' p;
               selectId = selected_row p
           in if blank selectId then alert_select msg p
              else open_selected msg this (js_string selectId) p)"

definition view_click :: "messages \<Rightarrow> hooks \<Rightarrow> page \<Rightarrow> page" where
  "view_click msg h p =
     (let this = ''#viewBtn''
      in if hk_defined h ''viewAction'' then emit (Navigate (hk_url h ''viewAction'')) (emit (Hook ''viewAction'') p)
         else
           let p = call_hook h ''beforeView'' p
           in if pg_has p ''#list2'' then
                (let selectId = jg_selrow (pg_grid p ''#list2'')
                 in if blank selectId then alert_select msg p
                    else open_selected msg this (js_string (jg_rowid (pg_grid p ''#list2'') selectId)) p)
              else if pg_has p ''#list'' then
                (let selectId = jg_selrow (pg_grid p ''#list'')
                 in if blank selectId then alert_select msg p
                    else open_selected msg this (js_string (jg_rowid (pg_grid p ''#list'') selectId)) p)
              else open_selected msg this '''' p)"

section \<open>Deleting\<close>

definition delete_click :: "messages \<Rightarrow> hooks \<Rightarrow> page \<Rightarrow> page" where
  "delete_click msg h p =
     (let this = ''#deleteBtn'';
          p = call_hook h ''beforeDelete'' p;
          (selectIds, p) = selected_ids p
      in case selectIds of
           None \<Rightarrow> alert_select msg p
         | Some ids \<Rightarrow>
             if selection_text p ids = '''' then alert_select msg p
             else jq_conform msg \<lparr>al_content = msg_del_conformText msg, al_type = None,
                    al_callback = Some (Delete_Rows this ids)\<rparr> p)"

definition delete_confirmed :: "string \<Rightarrow> string \<Rightarrow> selection \<Rightarrow> page \<Rightarrow> page" where
  \<comment> \<open>the ids become a text only here\<close>
  "delete_confirmed now this selectIds p =
     (let url = js_string (pg_attr p this ''wurl'') @ ''?id='' @ selection_text p selectIds;
          p = emit (Post url [(''_method'', ''delete''), (''currTime'', now)]) p
      in p\<lparr>pg_requests := pg_requests p @ [Delete_Request]\<rparr>)"

definition response_type :: "response \<Rightarrow> string option" where
  "response_type data = messageType (js_string (rs_messageType data))"

definition reload_list :: "page \<Rightarrow> page" where
  "reload_list p =
     (if pg_has p ''#list2'' then emit (Refresh_Grid ''#list2'') p
      else if pg_has p ''#list'' then emit (Refresh_Grid ''#list'') p else p)"

definition delete_reply :: "messages \<Rightarrow> hooks \<Rightarrow> response \<Rightarrow> page \<Rightarrow> page" where
  "delete_reply msg h data p =
     (let p = call_hook h ''afterDelete'' p;
          p = jq_alert msg \<lparr>al_content = js_string (rs_message data), al_type = response_type data, al_callback = None\<rparr> p
      in reload_list p)"

section \<open>Back and submit\<close>

definition back_click :: "hooks \<Rightarrow> page \<Rightarrow> page" where
  \<comment> \<open>the reload of the parent's list is inside a try: it can only do nothing\<close>
  "back_click h p =
     (if truthy (pg_attr p ''#actionForm'' ''autoclose'') \<and> pg_parent p
      then emit Close_Dialog (emit (Refresh_Grid ''parent #list'') p)
      else if truthy (pg_attr p ''#actionForm'' ''forward'')
      then emit (Navigate (js_string (pg_attr p ''#actionForm'' ''forward''))) p
      else if truthy (pg_attr p ''form'' ''forward'')
      then emit (Navigate (js_string (pg_attr p ''form'' ''forward''))) p
      else if hk_defined h ''beforeBack''
      then emit (Navigate (hk_url h ''beforeBack'')) (emit (Hook ''beforeBack'') p)
      else emit (Navigate (js_string (pg_attr p ''#backBtn'' ''wurl''))) p)"

definition submit_click :: "hooks \<Rightarrow> page \<Rightarrow> page" where
  "submit_click h p =
     (let canSubmit = (if hk_defined h ''beforeAction'' then hk_canSubmit h else True);
          p = call_hook h ''beforeAction'' p
      in if canSubmit then emit (Click ''#submitButton'') p else p)"

definition before_submit :: "hooks \<Rightarrow> page \<Rightarrow> bool \<times> page" where
  \<comment> \<open>false only when the page's own function returns false\<close>
  "before_submit h p =
     (let p = jq_loading p
      in if hk_defined h ''beforeSubmit'' then (hk_beforeSubmit h \<noteq> Some False, emit (Hook ''beforeSubmit'') p)
         else (True, p))"

definition ajaxSubmit :: "hooks \<Rightarrow> page \<Rightarrow> page" where
  "ajaxSubmit h p =
     (let (ok, p) = before_submit h p
      in if ok then (emit (Ajax_Submit ''#actionForm'') p)\<lparr>pg_requests := pg_requests p @ [Submit_Request]\<rparr> else p)"

definition form_submit :: "hooks \<Rightarrow> bool \<Rightarrow> string \<Rightarrow> page \<Rightarrow> page" where
  \<comment> \<open>the submit listener of the form, with the result of checkValidity\<close>
  "form_submit h valid form p =
     (let p = (if \<not> valid then emit Stop_Propagation (emit Prevent_Default p)
               else if pg_has p ''#actionForm'' then emit Stop_Propagation (emit Prevent_Default (ajaxSubmit h p))
               else p)
      in set_class form ''was-validated'' True p)"

definition error_text :: "response \<Rightarrow> (string \<times> string) list \<Rightarrow> string" where
  "error_text data errors =
     fold (\<lambda>(field, message) t. t @ message @ ''<br>'') errors (js_string (rs_message data) @ ''<br>'')"

definition error_labels :: "(string \<times> string) list \<Rightarrow> page \<Rightarrow> page" where
  "error_labels errors p =
     fold (\<lambda>(field, message). set_html (''label[for='' @ quoted field @ '']'') message) errors p"

definition show_errors :: "messages \<Rightarrow> string \<Rightarrow> response \<Rightarrow> (string \<times> string) list \<Rightarrow> page \<Rightarrow> page" where
  "show_errors msg formErrorType data errors p =
     (if formErrorType = ''alert''
      then jq_alert msg \<lparr>al_content = error_text data errors, al_type = Some ''error'', al_callback = None\<rparr> p
      else
        let p = error_labels errors p
        in if formErrorType \<noteq> ''label'' then set_visible (''#'' @ formErrorType) True p else p)"

definition submit_reply :: "messages \<Rightarrow> hooks \<Rightarrow> response \<Rightarrow> page \<Rightarrow> page" where
  "submit_reply msg h data p =
     (let p = jq_unloading p
      in if hk_defined h ''afterSubmit'' then emit (Hook ''afterSubmit'') p
         else
           let formErrorType = pg_attr p ''#actionForm'' ''type''
           in case rs_errors data of
                Some errors \<Rightarrow>
                  if truthy formErrorType then show_errors msg (js_string formErrorType) data errors p
                  else jq_alert msg \<lparr>al_content = js_string (rs_message data), al_type = response_type data,
                         al_callback = Some Submit_Result\<rparr> p
              | None \<Rightarrow>
                  jq_alert msg \<lparr>al_content = js_string (rs_message data), al_type = response_type data,
                    al_callback = Some Submit_Result\<rparr> p)"

definition submit_result :: "hooks \<Rightarrow> page \<Rightarrow> page" where
  \<comment> \<open>the callback of the result's alert\<close>
  "submit_result h p =
     (if truthy (pg_attr p ''#actionForm'' ''autoclose'') then
        (if truthy (pg_attr p ''#backBtn'' ''id'') then back_click h (emit (Click ''#backBtn'') p) else jq_closeWindow p)
      else if truthy (pg_attr p ''#actionForm'' ''forward'')
      then emit (Navigate (js_string (pg_attr p ''#actionForm'' ''forward''))) p
      else p)"

definition submit_error :: "messages \<Rightarrow> page \<Rightarrow> page" where
  "submit_error msg p =
     jq_alert msg \<lparr>al_content = msg_submit_errorText msg, al_type = Some ''error'', al_callback = None\<rparr> (jq_unloading p)"

definition init_form :: "page \<Rightarrow> page" where
  "init_form p =
     (let a = pg_attr p ''#actionForm'' ''loadaction''
      in if truthy a then
           (emit (Load_Form ''#actionForm'' (js_string a)) p)
             \<lparr>pg_attr := (pg_attr p)(''#actionForm'' := (pg_attr p ''#actionForm'')(''loadaction'' := None))\<rparr>
         else p)"

section \<open>The portal as a set of handlers\<close>

text \<open>
  Which handlers a click on an element runs, in the order the file binds them: those bound to a
  class of the element, then those bound to its id. A checkbox label runs its handler on the span
  inside it, which \<open>Press\<close> names.
\<close>

record env =
  ev_msg :: messages
  ev_hooks :: hooks

definition bound :: "bool \<Rightarrow> (page \<Rightarrow> page) \<Rightarrow> page \<Rightarrow> page" where
  "bound b f p = (if b then f p else p)"

definition portal_press :: "env \<Rightarrow> string \<Rightarrow> page \<Rightarrow> page" where
  "portal_press ev e p =
     (let msg = ev_msg ev; h = ev_hooks ev; has = pg_class p e;
          p = bound (has ''checkboxspan'') (checkbox_label_click e) p;
          p = bound (has ''window'') (window_click msg h e) p;
          p = bound (has ''forward'') (forward_click e) p;
          p = bound (e = ''#advancedSearchExpandBtn'') (advanced_click e) p;
          p = bound (e = ''#searchBtn'') (search_click h) p;
          p = bound (e = ''#closeBtn'') close_click p;
          p = bound (e = ''#addBtn'') (add_click msg h) p;
          p = bound (e = ''#modifyBtn'') (modify_click msg h) p;
          p = bound (e = ''#viewBtn'') (view_click msg h) p;
          p = bound (e = ''#deleteBtn'') (delete_click msg h) p;
          p = bound (e = ''#backBtn'') (back_click h) p
      in bound (e = ''#submitBtn'') (submit_click h) p)"

definition portal_handlers :: "env \<Rightarrow> handlers" where
  "portal_handlers ev =
     \<lparr>hd_press = portal_press ev, hd_submit = form_submit (ev_hooks ev), hd_deleted = delete_confirmed,
      hd_result = submit_result (ev_hooks ev), hd_delete_reply = delete_reply (ev_msg ev) (ev_hooks ev),
      hd_submit_reply = submit_reply (ev_msg ev) (ev_hooks ev), hd_submit_error = submit_error (ev_msg ev),
      hd_before_async = jq_loading, hd_async_success = jq_unloading\<rparr>"

definition vetoes :: "hooks \<Rightarrow> bool" where
  \<comment> \<open>the page's function refuses a submission\<close>
  "vetoes h \<longleftrightarrow> hk_defined h ''beforeSubmit'' \<and> hk_beforeSubmit h = Some False"

section \<open>The laws\<close>

lemma calm_dialog: "innocent d \<Longrightarrow> calm p (jq_dialog d p)"
  unfolding calm_def tame_def adds_def jq_dialog_def emit_def
  by (intro conjI exI [of _ "[d]"] exI [of _ "[Open_Dialog (dlg_content d)]"]) (simp_all add: is_deletion_def)

lemma calm_then: "calm p q \<Longrightarrow> (\<And>q. calm q (f q)) \<Longrightarrow> calm p (f q)"
  using calm_trans by blast

lemma calm_bound [calm_intros]: "(\<And>q. calm q (f q)) \<Longrightarrow> calm p (bound b f p)"
  by (simp add: bound_def calm_intros)

lemma calm_forward [calm_intros]: "calm p (jq_forward c p)"
  by (auto simp: jq_forward_def Let_def intro: calm_intros split: forward.split)

lemma calm_window [calm_intros]: "calm p (jq_window m s p)"
  unfolding jq_window_def Let_def
  by (rule calm_trans [OF calm_dialog]) (auto simp: innocent_def intro: calm_intros)

lemma calm_closeWindow [calm_intros]: "calm p (jq_closeWindow p)"
  by (simp add: jq_closeWindow_def calm_intros)

lemma calm_alert [calm_intros]:
  "al_callback s = None \<or> al_callback s = Some Submit_Result \<Longrightarrow> calm p (jq_alert m s p)"
  unfolding jq_alert_def Let_def
  by (rule calm_trans [OF calm_dialog]) (auto simp: innocent_def setting_def intro: calm_intros)

lemma calm_alert_select [calm_intros]: "calm p (alert_select m p)"
  by (simp add: alert_select_def calm_intros)

lemma calm_open_selected [calm_intros]: "calm p (open_selected m this i p)"
  by (simp add: open_selected_def Let_def calm_intros)

text \<open>A handler that calls a page function, or has an effect, first.\<close>

lemma calm_after_hook: "(\<And>q. calm q (f q)) \<Longrightarrow> calm p (f (call_hook h n p))"
  by (rule calm_then [OF calm_hook])

lemma calm_two_effects [calm_intros]: "\<not> is_deletion e \<Longrightarrow> \<not> is_deletion e' \<Longrightarrow> calm p (emit e (emit e' p))"
  by (rule calm_trans [OF calm_emit calm_emit])

lemma calm_checkbox [calm_intros]: "calm p (checkbox_label_click e p)"
  unfolding checkbox_label_click_def Let_def by (rule calm_outward) simp_all

lemma calm_window_click [calm_intros]: "calm p (window_click m h this p)"
  unfolding window_click_def Let_def by (rule calm_after_hook) (rule calm_intros)

lemma calm_forward_click [calm_intros]: "calm p (forward_click this p)"
  unfolding forward_click_def by (rule calm_intros)

lemma calm_advanced [calm_intros]: "calm p (advanced_click this p)"
  unfolding advanced_click_def Let_def
  by (rule calm_then [OF calm_setters(1)]) (auto intro: calm_intros calm_trans [OF calm_setters(2)])

lemma calm_search [calm_intros]: "calm p (search_click h p)"
  unfolding search_click_def Let_def
  by (rule calm_trans [OF calm_setters(1)], rule calm_trans [OF calm_hook], rule calm_trans [OF calm_effects(3) calm_hook])

lemma calm_close [calm_intros]: "calm p (close_click p)"
  unfolding close_click_def by (rule calm_intros)

lemma calm_let_hook: "(\<And>q. calm q (f q)) \<Longrightarrow> calm p (Let (call_hook h n p) f)"
  unfolding Let_def by (rule calm_after_hook)

lemma calm_let: "calm p (f c) \<Longrightarrow> calm p (Let c f)"
  by simp

lemma calm_add [calm_intros]: "calm p (add_click m h p)"
  unfolding add_click_def
  by (rule calm_let, rule calm_if, rule calm_two_effects, simp add: is_deletion_def, simp add: is_deletion_def, rule calm_let_hook)
    (auto intro: calm_intros)

lemma calm_modify [calm_intros]: "calm p (modify_click m h p)"
  unfolding modify_click_def
  by (rule calm_let, rule calm_if, rule calm_two_effects, simp add: is_deletion_def, simp add: is_deletion_def, rule calm_let_hook)
    (auto simp: Let_def intro: calm_intros)

lemma calm_view [calm_intros]: "calm p (view_click m h p)"
  unfolding view_click_def
  by (rule calm_let, rule calm_if, rule calm_two_effects, simp add: is_deletion_def, simp add: is_deletion_def, rule calm_let_hook)
    (auto simp: Let_def intro: calm_intros)

lemma calm_back [calm_intros]: "calm p (back_click h p)"
  unfolding back_click_def by (auto simp: is_deletion_def intro: calm_intros)

lemma calm_submit_click [calm_intros]: "calm p (submit_click h p)"
  unfolding submit_click_def Let_def by (rule calm_after_hook) (auto intro: calm_intros)

text \<open>
  The rows that are selected, read from the page without regard to the code: the ids of the selected rows,
  as the tables give them, separated by commas.
\<close>

definition comma_separated :: "string option list \<Rightarrow> string" where
  "comma_separated ids = join_with '','' (map (\<lambda>i. case i of None \<Rightarrow> '''' | Some s \<Rightarrow> s) ids)"

definition grid_selection :: "jqgrid \<Rightarrow> page \<Rightarrow> string option list" where
  "grid_selection g p = map (jg_rowid g) (if jg_multiselect g then pg_arrays p (jg_selarrrow g) else [jg_selrow g])"

definition portal_selection :: "page \<Rightarrow> string" where
  \<comment> \<open>the ids of the rows selected in the page's grid\<close>
  "portal_selection p =
     comma_separated
       (if pg_has p ''#list2'' then grid_selection (pg_grid p ''#list2'') p
        else if pg_has p ''#list'' then grid_selection (pg_grid p ''#list'') p
        else [])"

lemma js_join_comma: "js_join ids = comma_separated ids"
proof -
  have "join_with '','' (y # ys) = y @ concat (map ((#) (CHR '','')) ys)" for y :: string and ys
    by (induction ys arbitrary: y) simp_all
  then show ?thesis by (cases ids) (simp_all add: js_join_def comma_separated_def)
qed

lemma comma_separated_single: "comma_separated [i] = (case i of None \<Rightarrow> '''' | Some s \<Rightarrow> s)"
  by (simp add: comma_separated_def)

lemma portal_selection_tables: "tables p' = tables p \<Longrightarrow> portal_selection p' = portal_selection p"
  by (simp add: tables_def portal_selection_def grid_selection_def)

lemma grid_ids_selection:
  assumes "grid_ids e p = (ids, p')"
  shows "comma_separated (grid_selection (pg_grid p e) p) = (case ids of None \<Rightarrow> '''' | Some s \<Rightarrow> selection_text p' s)"
    "outward p' = outward p"
  using assms
  by (auto simp: grid_ids_def grid_selection_def Let_def selection_text_def js_join_comma comma_separated_single outward_def
      split: if_splits option.split)

lemma selected_ids_selection:
  assumes "selected_ids p = (ids, p')"
  shows "portal_selection p = (case ids of None \<Rightarrow> '''' | Some s \<Rightarrow> selection_text p' s)" "outward p' = outward p"
  using assms grid_ids_selection [of "''#list2''" p ids p'] grid_ids_selection [of "''#list''" p ids p']
  by (auto simp: selected_ids_def portal_selection_def comma_separated_def split: if_splits)

text \<open>The question of the delete button is for what is selected, and only that button puts one.\<close>

lemma conform_asks:
  assumes "selection_text q ids = t" "t \<noteq> ''''"
  shows "asks msg t q (jq_conform msg \<lparr>al_content = msg_del_conformText msg, al_type = None,
    al_callback = Some (Delete_Rows ''#deleteBtn'' ids)\<rparr> q)"
proof -
  let ?r = "jq_conform msg \<lparr>al_content = msg_del_conformText msg, al_type = None, al_callback = Some (Delete_Rows ''#deleteBtn'' ids)\<rparr> q"
  define d where "d = hd (pg_dialogs ?r)"
  have "selection_text ?r ids = t"
    using assms(1) by (simp add: selection_text_def jq_conform_def jq_dialog_def emit_def Let_def split: selection.splits)
  then have "asks_for msg t ?r d" using assms(2)
    by (simp add: asks_for_def d_def jq_conform_def jq_dialog_def emit_def Let_def setting_def)
  moreover have "adds [d] [] [Open_Dialog (dlg_content d), Footer True] q ?r" "pg_blocked ?r = pg_blocked q"
    by (simp_all add: d_def adds_def jq_conform_def jq_dialog_def emit_def Let_def)
  ultimately show ?thesis
    unfolding asks_def by (intro conjI exI [of _ "[d]"] exI [of _ "[Open_Dialog (dlg_content d), Footer True]"])
      (simp_all add: is_deletion_def)
qed

lemma delete_asks: "asks msg (portal_selection p) p (delete_click msg h p)"
proof -
  define x where "x = call_hook h ''beforeDelete'' p"
  obtain ids y where y: "selected_ids x = (ids, y)" by fastforce
  note sel = selected_ids_selection [OF y]
  have x: "calm p x" unfolding x_def by (rule calm_hook)
  then have t: "portal_selection p = portal_selection x" using portal_selection_tables [of x p] by (simp add: calm_def tame_def)
  have "asks msg (portal_selection x) y (delete_click msg h p)"
  proof (cases "portal_selection x = ''''")
    case True
    then have "delete_click msg h p = alert_select msg y"
      using sel(1) y by (auto simp: delete_click_def Let_def x_def split: option.splits)
    then show ?thesis by (simp add: calm_is_asks calm_alert_select)
  next
    case False
    then obtain s where s: "ids = Some s" "selection_text y s = portal_selection x" using sel(1) by (cases ids) auto
    then have "delete_click msg h p = jq_conform msg \<lparr>al_content = msg_del_conformText msg, al_type = None,
        al_callback = Some (Delete_Rows ''#deleteBtn'' s)\<rparr> y"
      using y False by (simp add: delete_click_def Let_def x_def)
    then show ?thesis using conform_asks [OF s(2) False] by simp
  qed
  then have "asks msg (portal_selection x) x (delete_click msg h p)" by (rule asks_outward [OF sel(2)])
  then show ?thesis unfolding t by (rule calm_asks [OF x])
qed

lemma then_bound: "calm p q \<Longrightarrow> (\<And>q. calm q (f q)) \<Longrightarrow> calm p (bound b f q)"
  using calm_trans calm_bound by blast

lemma press_calm:
  assumes "e \<noteq> ''#deleteBtn''"
  shows "calm p (portal_press ev e p)"
proof -
  have other: "calm p q \<Longrightarrow> calm p (bound (e = ''#deleteBtn'') f q)" for f q using assms by (simp add: bound_def)
  show ?thesis unfolding portal_press_def Let_def
    by (rule then_bound [OF then_bound [OF other]]) (intro then_bound calm_refl calm_intros)+
qed

lemma press_asks: "asks (ev_msg ev) (portal_selection p) p (portal_press ev ''#deleteBtn'' p)"
proof -
  define e where "e = ''#deleteBtn''"
  define q where "q = (let msg = ev_msg ev; h = ev_hooks ev; has = pg_class p e;
          p = bound (has ''checkboxspan'') (checkbox_label_click e) p;
          p = bound (has ''window'') (window_click msg h e) p
      in bound (has ''forward'') (forward_click e) p)"
  have q: "calm p q" unfolding q_def Let_def by (intro then_bound calm_refl calm_intros)
  then have t: "portal_selection q = portal_selection p"
    by (intro portal_selection_tables) (simp add: calm_def tame_def)
  have n: "(e = ''#advancedSearchExpandBtn'') = False" "(e = ''#searchBtn'') = False" "(e = ''#closeBtn'') = False"
    "(e = ''#addBtn'') = False" "(e = ''#modifyBtn'') = False" "(e = ''#viewBtn'') = False" "(e = ''#deleteBtn'') = True"
    "(e = ''#backBtn'') = False" "(e = ''#submitBtn'') = False" by (simp_all add: e_def)
  have b: "bound False f r = r" "bound True f r = f r" for f r by (simp_all add: bound_def)
  have "portal_press ev e p = delete_click (ev_msg ev) (ev_hooks ev) q"
    by (simp only: portal_press_def q_def Let_def n b)
  then show ?thesis using calm_asks [OF q delete_asks [of _ q]] unfolding e_def [symmetric] by (simp only: t)
qed

lemma calm_result: "calm p (submit_result h p)"
  unfolding submit_result_def
  by (auto intro: calm_intros calm_trans [OF calm_effects(6)])

lemma calm_reload [calm_intros]: "calm p (reload_list p)"
  unfolding reload_list_def by (auto intro: calm_intros)

lemma calm_delete_reply: "calm p (delete_reply m h data p)"
  unfolding delete_reply_def Let_def
  by (rule calm_trans [OF calm_hook], rule calm_trans [OF calm_alert calm_reload]) simp

lemma calm_show_errors [calm_intros]: "calm p (show_errors m t data errors p)"
proof -
  have "calm p (error_labels errors p)" for p
    unfolding error_labels_def by (rule calm_fold) (auto intro: calm_intros)
  then show ?thesis unfolding show_errors_def Let_def
    by (auto intro: calm_intros calm_trans)
qed

lemma unloading_tame: "tame [] p (jq_unloading p)" "\<not> pg_blocked (jq_unloading p)"
  unfolding tame_def adds_def jq_unloading_def emit_def by (auto simp: is_deletion_def intro!: exI [of _ "[]"])

lemma tame_then_calm: "tame rs p q \<Longrightarrow> calm q r \<Longrightarrow> tame rs p r"
  using tame_trans [of rs p q "[]" r] by (simp add: calm_def)

lemma after_unloading:
  "(\<And>q. calm q (f q)) \<Longrightarrow> tame [] p (f (jq_unloading p)) \<and> \<not> pg_blocked (f (jq_unloading p))"
  using tame_then_calm [OF unloading_tame(1)] unloading_tame(2) by (metis calm_def)

lemma submit_reply_law: "tame [] p (submit_reply m h data p) \<and> \<not> pg_blocked (submit_reply m h data p)"
  unfolding submit_reply_def Let_def
  by (rule after_unloading) (auto intro: calm_intros split: option.split)

lemma submit_error_law: "tame [] p (submit_error m p) \<and> \<not> pg_blocked (submit_error m p)"
  unfolding submit_error_def by (rule after_unloading) (auto intro: calm_intros)

lemma loading_tame: "tame [] p (jq_loading p)"
  unfolding tame_def adds_def jq_loading_def emit_def by (auto simp: is_deletion_def intro!: exI [of _ "[]"])

lemma before_submit_law: "before_submit h p = (ok, q) \<Longrightarrow> tame [] p q"
  by (auto simp: before_submit_def Let_def split: if_splits
      intro: loading_tame tame_then_calm [OF loading_tame calm_effects(2)])

lemma before_submit_result: "fst (before_submit h p) \<longleftrightarrow> \<not> vetoes h"
  by (simp add: before_submit_def vetoes_def Let_def)

lemma ajaxSubmit_law:
  "tame (if vetoes h then [] else [Submit_Request]) p (ajaxSubmit h p)"
proof -
  obtain q where q: "before_submit h p = (\<not> vetoes h, q)" using before_submit_result [of h p] by (cases "before_submit h p") auto
  have t: "tame [] p q" using q by (rule before_submit_law)
  show ?thesis
  proof (cases "vetoes h")
    case True
    then show ?thesis using q t by (simp add: ajaxSubmit_def)
  next
    case False
    have "tame [Submit_Request] q ((emit (Ajax_Submit ''#actionForm'') q)\<lparr>pg_requests := pg_requests q @ [Submit_Request]\<rparr>)"
      unfolding tame_def adds_def emit_def by (auto simp: is_deletion_def intro!: exI [of _ "[]"])
    then show ?thesis using q False tame_trans [OF t] by (simp add: ajaxSubmit_def)
  qed
qed

lemma form_submit_law:
  "calm p (form_submit h valid form p) \<or> tame [Submit_Request] p (form_submit h valid form p) \<or>
   vetoes h \<and> tame [] p (form_submit h valid form p)"
proof -
  have e: "calm q (set_class form ''was-validated'' True (emit Stop_Propagation (emit Prevent_Default q)))" for q
    by (rule calm_trans [OF calm_two_effects calm_setters(4)]) (simp_all add: is_deletion_def)
  consider "\<not> valid" | "valid" "pg_has p ''#actionForm''" | "valid" "\<not> pg_has p ''#actionForm''" by blast
  then show ?thesis
  proof cases
    case 1
    then show ?thesis using e by (simp add: form_submit_def)
  next
    case 2
    have "tame (if vetoes h then [] else [Submit_Request]) p
        (set_class form ''was-validated'' True (emit Stop_Propagation (emit Prevent_Default (ajaxSubmit h p))))"
      by (rule tame_then_calm [OF ajaxSubmit_law e])
    then show ?thesis using 2 by (simp add: form_submit_def split: if_splits)
  next
    case 3
    then show ?thesis using calm_setters(4) by (simp add: form_submit_def)
  qed
qed

lemma deleted_law:
  "adds [] [Delete_Request]
     [Post (js_string (pg_attr p this ''wurl'') @ ''?id='' @ selection_text p ids) [(''_method'', ''delete''), (''currTime'', now)]]
     p (delete_confirmed now this ids p) \<and> tables (delete_confirmed now this ids p) = tables p \<and>
   pg_blocked (delete_confirmed now this ids p) = pg_blocked p"
  by (simp add: adds_def delete_confirmed_def emit_def tables_def Let_def)

interpretation portal: page_laws "ev_msg ev" "portal_handlers ev" "vetoes (ev_hooks ev)" portal_selection for ev
proof unfold_locales
  show "calm p (hd_press (portal_handlers ev) e p) \<or>
      e = ''#deleteBtn'' \<and> asks (ev_msg ev) (portal_selection p) p (hd_press (portal_handlers ev) e p)" for p e
    using press_calm [of e p ev] press_asks [of ev p] by (auto simp: portal_handlers_def)
  show "calm p (hd_submit (portal_handlers ev) valid form p) \<or> tame [Submit_Request] p (hd_submit (portal_handlers ev) valid form p) \<or>
      vetoes (ev_hooks ev) \<and> tame [] p (hd_submit (portal_handlers ev) valid form p)" for p valid form
    unfolding portal_handlers_def handlers.simps by (rule form_submit_law)
  show "tame [] p (hd_async_success (portal_handlers ev) p) \<and> \<not> pg_blocked (hd_async_success (portal_handlers ev) p)" for p
    unfolding portal_handlers_def handlers.simps using unloading_tame by blast
qed (unfold portal_handlers_def handlers.simps,
    (rule deleted_law calm_result calm_delete_reply submit_reply_law submit_error_law loading_tame)+)

section \<open>Queries\<close>

text \<open>The advanced form wins over the basic one, and both over the grid's own parameters.\<close>

lemma query_lookup:
  "dataGridQueryParams serialize params k =
     (case serialize ''#advanced_search_form'' k of
        Some v \<Rightarrow> Some v
      | None \<Rightarrow> (case serialize ''#basic_search_form'' k of Some v \<Rightarrow> Some v | None \<Rightarrow> params k))"
  by (simp add: dataGridQueryParams_def Let_def map_add_def split: option.split)

end
