(* ===== verification/Manage.thy ===== *)
theory Manage
  imports Platform
begin

text \<open>
  The handlers of the administration console (maxkey-web-manage, jquery/platform.common.js). They
  share the portal's dialogs and masks and differ where the console moved to bootstrap-table: the
  modify and delete buttons read the rows selected in \<open>#datagrid\<close>, a submission refreshes it, and
  a forward may open a new tab. The table's selection - the field \<open>id\<close> of each selected row - is
  \<open>pg_rows\<close> of the page; its ids become a text when the button is pressed.
\<close>

section \<open>The handlers\<close>

record manage_config = forward_config +
  fw_target :: "string option"

definition manage_forward :: "manage_config \<Rightarrow> page \<Rightarrow> page" where
  "manage_forward config p =
     (if truthy (fw_target config) then emit (Open_Tab (js_string (fw_url config))) p
      else if truthy (fw_url config) then emit (Navigate (js_string (fw_url config))) p
      else if truthy (fw_href config) then emit (Navigate (js_string (fw_href config))) p
      else if truthy (fw_elem config) then
        (let w = pg_attr p (by_id (fw_elem config)) ''wurl''
         in if truthy w then emit (Navigate (js_string w)) p else p)
      else emit (Navigate ''[object Object]'') p)"

definition manage_forward_click :: "string \<Rightarrow> page \<Rightarrow> page" where
  "manage_forward_click this p =
     manage_forward \<lparr>fw_url = pg_attr p this ''wurl'', fw_href = pg_attr p this ''wurl'', fw_elem = None,
       fw_target = None\<rparr> p"

definition selections_text :: "string option list \<Rightarrow> string" where
  \<comment> \<open>selectIds = selectIds + "," + row.id over the rows, then substring(1)\<close>
  "selections_text rows = drop 1 (fold (\<lambda>r s. s @ '','' @ js_string r) rows '''')"

definition manage_modify_click :: "messages \<Rightarrow> hooks \<Rightarrow> page \<Rightarrow> page" where
  "manage_modify_click msg h p =
     (let this = ''#modifyBtn''
      in if hk_defined h ''updateAction'' then emit (Navigate (hk_url h ''updateAction'')) (emit (Hook ''updateAction'') p)
         else
           let p = call_hook h ''beforeUpdate'' p;
               selectId = (if pg_has p ''#datagrid'' then selections_text (take 1 (pg_rows p)) else '''')
           in if selectId = '''' then alert_select msg p
              else open_selected msg this selectId p)"

definition manage_delete_click :: "messages \<Rightarrow> hooks \<Rightarrow> page \<Rightarrow> page" where
  "manage_delete_click msg h p =
     (let this = ''#deleteBtn'';
          p = call_hook h ''beforeDelete'' p;
          selectIds = (if pg_has p ''#datagrid'' then selections_text (pg_rows p) else '''')
      in if selectIds = '''' then alert_select msg p
         else jq_conform msg \<lparr>al_content = msg_del_conformText msg, al_type = None,
                al_callback = Some (Delete_Rows this (Ids_Text selectIds))\<rparr> p)"

definition refresh_datagrid :: "page \<Rightarrow> page" where
  "refresh_datagrid p = (if pg_has p ''#datagrid'' then emit (Refresh_Grid ''#datagrid'') p else p)"

definition manage_delete_reply :: "messages \<Rightarrow> hooks \<Rightarrow> response \<Rightarrow> page \<Rightarrow> page" where
  "manage_delete_reply msg h data p =
     (let p = call_hook h ''afterDelete'' p;
          p = jq_alert msg \<lparr>al_content = js_string (rs_message data), al_type = response_type data, al_callback = None\<rparr> p
      in refresh_datagrid p)"

definition manage_back_click :: "hooks \<Rightarrow> page \<Rightarrow> page" where
  "manage_back_click h p =
     (if truthy (pg_attr p ''#actionForm'' ''autoclose'') \<and> pg_parent p then emit Close_Dialog p
      else if truthy (pg_attr p ''#actionForm'' ''forward'')
      then emit (Navigate (js_string (pg_attr p ''#actionForm'' ''forward''))) p
      else if truthy (pg_attr p ''form'' ''forward'')
      then emit (Navigate (js_string (pg_attr p ''form'' ''forward''))) p
      else if hk_defined h ''beforeBack''
      then emit (Navigate (hk_url h ''beforeBack'')) (emit (Hook ''beforeBack'') p)
      else emit (Navigate (js_string (pg_attr p ''#backBtn'' ''wurl''))) p)"

definition manage_submit_reply :: "messages \<Rightarrow> hooks \<Rightarrow> response \<Rightarrow> page \<Rightarrow> page" where
  "manage_submit_reply msg h data p =
     (let p = jq_unloading p;
          formErrorType = pg_attr p ''#actionForm'' ''type''
      in if rs_errors data \<noteq> None \<and> truthy formErrorType
         then show_errors msg (js_string formErrorType) data (case rs_errors data of None \<Rightarrow> [] | Some e \<Rightarrow> e) p
         else
           let p = jq_alert msg \<lparr>al_content = js_string (rs_message data), al_type = response_type data,
                      al_callback = Some Submit_Result\<rparr> p;
               p = refresh_datagrid p
           in call_hook h ''afterSubmit'' p)"

definition manage_submit_result :: "hooks \<Rightarrow> page \<Rightarrow> page" where
  "manage_submit_result h p =
     (if truthy (pg_attr p ''#actionForm'' ''autoclose'') then
        (if truthy (pg_attr p ''#backBtn'' ''id'') then manage_back_click h (emit (Click ''#backBtn'') p) else jq_closeWindow p)
      else if truthy (pg_attr p ''#actionForm'' ''forward'')
      then emit (Navigate (js_string (pg_attr p ''#actionForm'' ''forward''))) p
      else p)"

section \<open>The console as a set of handlers\<close>

record manage_env =
  mv_msg :: messages
  mv_hooks :: hooks

definition manage_press :: "manage_env \<Rightarrow> string \<Rightarrow> page \<Rightarrow> page" where
  \<comment> \<open>the submit button of the forms is a real one here and needs no handler\<close>
  "manage_press ev e p =
     (let msg = mv_msg ev; h = mv_hooks ev; has = pg_class p e;
          p = bound (has ''checkboxspan'') (checkbox_label_click e) p;
          p = bound (has ''window'') (window_click msg h e) p;
          p = bound (has ''forward'') (manage_forward_click e) p;
          p = bound (e = ''#advancedSearchExpandBtn'') (advanced_click e) p;
          p = bound (e = ''#searchBtn'') (search_click h) p;
          p = bound (e = ''#closeBtn'') close_click p;
          p = bound (e = ''#addBtn'') (add_click msg h) p;
          p = bound (e = ''#modifyBtn'') (manage_modify_click msg h) p;
          p = bound (e = ''#viewBtn'') (view_click msg h) p;
          p = bound (e = ''#deleteBtn'') (manage_delete_click msg h) p
      in bound (e = ''#backBtn'') (manage_back_click h) p)"

definition manage_handlers :: "manage_env \<Rightarrow> handlers" where
  "manage_handlers ev =
     \<lparr>hd_press = manage_press ev, hd_submit = form_submit (mv_hooks ev), hd_deleted = delete_confirmed,
      hd_result = manage_submit_result (mv_hooks ev), hd_delete_reply = manage_delete_reply (mv_msg ev) (mv_hooks ev),
      hd_submit_reply = manage_submit_reply (mv_msg ev) (mv_hooks ev), hd_submit_error = submit_error (mv_msg ev),
      hd_before_async = jq_loading, hd_async_success = jq_unloading\<rparr>"

section \<open>The laws\<close>

lemma calm_manage_forward [calm_intros]: "calm p (manage_forward c p)"
  unfolding manage_forward_def Let_def by (auto intro: calm_intros)

lemma calm_manage_forward_click [calm_intros]: "calm p (manage_forward_click e p)"
  unfolding manage_forward_click_def by (rule calm_intros)

lemma calm_manage_modify [calm_intros]: "calm p (manage_modify_click m h p)"
  unfolding manage_modify_click_def
  by (rule calm_let, rule calm_if, rule calm_two_effects, simp add: is_deletion_def, simp add: is_deletion_def, rule calm_let_hook)
    (auto simp: Let_def intro: calm_intros)

lemma calm_manage_back [calm_intros]: "calm p (manage_back_click h p)"
  unfolding manage_back_click_def by (auto simp: is_deletion_def intro: calm_intros)

lemma calm_refresh_datagrid [calm_intros]: "calm p (refresh_datagrid p)"
  unfolding refresh_datagrid_def by (auto intro: calm_intros)

text \<open>The rows that are selected, read from the page without regard to the code.\<close>

definition console_selection :: "page \<Rightarrow> string" where
  \<comment> \<open>the ids of the rows selected in the page's table\<close>
  "console_selection p = (if pg_has p ''#datagrid'' then join_with '','' (map js_string (pg_rows p)) else '''')"

lemma selections_text_fold:
  "fold (\<lambda>r s. s @ '','' @ js_string r) rows acc = acc @ concat (map (\<lambda>r. '','' @ js_string r) rows)"
  by (induction rows arbitrary: acc) simp_all

lemma selections_text_eq: "selections_text rows = join_with '','' (map js_string rows)"
proof -
  have "drop 1 (concat (map (\<lambda>r. '','' @ js_string r) rows)) = join_with '','' (map js_string rows)"
  proof (induction rows)
    case (Cons a r)
    then show ?case by (cases r) simp_all
  qed simp
  then show ?thesis unfolding selections_text_def selections_text_fold by simp
qed

lemma console_selection_tables: "tables p' = tables p \<Longrightarrow> console_selection p' = console_selection p"
  by (simp add: tables_def console_selection_def)

lemma manage_delete_asks: "asks msg (console_selection p) p (manage_delete_click msg h p)"
proof -
  define x where "x = call_hook h ''beforeDelete'' p"
  have x: "calm p x" unfolding x_def by (rule calm_hook)
  then have t: "console_selection x = console_selection p"
    by (intro console_selection_tables) (simp add: calm_def tame_def)
  have e: "manage_delete_click msg h p = (if console_selection x = '''' then alert_select msg x
      else jq_conform msg \<lparr>al_content = msg_del_conformText msg, al_type = None,
        al_callback = Some (Delete_Rows ''#deleteBtn'' (Ids_Text (console_selection x)))\<rparr> x)"
    by (simp add: manage_delete_click_def Let_def x_def console_selection_def selections_text_eq)
  have "asks msg (console_selection x) x (manage_delete_click msg h p)"
    unfolding e using conform_asks [of x "Ids_Text (console_selection x)" _ msg]
    by (simp add: calm_is_asks calm_alert_select selection_text_def)
  then show ?thesis unfolding t by (rule calm_asks [OF x])
qed

lemma manage_press_calm:
  assumes "e \<noteq> ''#deleteBtn''"
  shows "calm p (manage_press ev e p)"
proof -
  have other: "calm p q \<Longrightarrow> calm p (bound (e = ''#deleteBtn'') f q)" for f q using assms by (simp add: bound_def)
  show ?thesis unfolding manage_press_def Let_def
    by (rule then_bound [OF other]) (intro then_bound calm_refl calm_intros)+
qed

lemma manage_press_asks: "asks (mv_msg ev) (console_selection p) p (manage_press ev ''#deleteBtn'' p)"
proof -
  define e where "e = ''#deleteBtn''"
  define q where "q = (let msg = mv_msg ev; h = mv_hooks ev; has = pg_class p e;
          p = bound (has ''checkboxspan'') (checkbox_label_click e) p;
          p = bound (has ''window'') (window_click msg h e) p
      in bound (has ''forward'') (manage_forward_click e) p)"
  have q: "calm p q" unfolding q_def Let_def by (intro then_bound calm_refl calm_intros)
  then have t: "console_selection q = console_selection p" by (intro console_selection_tables) (simp add: calm_def tame_def)
  have n: "(e = ''#advancedSearchExpandBtn'') = False" "(e = ''#searchBtn'') = False" "(e = ''#closeBtn'') = False"
    "(e = ''#addBtn'') = False" "(e = ''#modifyBtn'') = False" "(e = ''#viewBtn'') = False" "(e = ''#deleteBtn'') = True"
    "(e = ''#backBtn'') = False" by (simp_all add: e_def)
  have b: "bound False f r = r" "bound True f r = f r" for f r by (simp_all add: bound_def)
  have "manage_press ev e p = manage_delete_click (mv_msg ev) (mv_hooks ev) q"
    by (simp only: manage_press_def q_def Let_def n b)
  then show ?thesis using calm_asks [OF q manage_delete_asks [of _ q]] unfolding e_def [symmetric] by (simp only: t)
qed

lemma calm_manage_result: "calm p (manage_submit_result h p)"
  unfolding manage_submit_result_def by (auto intro: calm_intros calm_trans [OF calm_effects(6)])

lemma calm_manage_delete_reply: "calm p (manage_delete_reply m h data p)"
  unfolding manage_delete_reply_def Let_def
  by (rule calm_trans [OF calm_hook], rule calm_trans [OF calm_alert calm_refresh_datagrid]) simp

lemma calm_alert_refresh [calm_intros]:
  "al_callback s = Some Submit_Result \<Longrightarrow> calm p (call_hook h n (refresh_datagrid (jq_alert m s p)))"
  by (rule calm_trans [OF calm_trans [OF calm_alert calm_refresh_datagrid] calm_hook]) simp

lemma manage_submit_reply_law:
  "tame [] p (manage_submit_reply m h data p) \<and> \<not> pg_blocked (manage_submit_reply m h data p)"
  unfolding manage_submit_reply_def Let_def
  by (rule after_unloading, rule calm_if, rule calm_show_errors, rule calm_alert_refresh, simp)

interpretation console: page_laws "mv_msg ev" "manage_handlers ev" "vetoes (mv_hooks ev)" console_selection for ev
proof unfold_locales
  show "calm p (hd_press (manage_handlers ev) e p) \<or>
      e = ''#deleteBtn'' \<and> asks (mv_msg ev) (console_selection p) p (hd_press (manage_handlers ev) e p)" for p e
    using manage_press_calm [of e p ev] manage_press_asks [of ev p] by (auto simp: manage_handlers_def)
  show "calm p (hd_submit (manage_handlers ev) valid form p) \<or> tame [Submit_Request] p (hd_submit (manage_handlers ev) valid form p) \<or>
      vetoes (mv_hooks ev) \<and> tame [] p (hd_submit (manage_handlers ev) valid form p)" for p valid form
    unfolding manage_handlers_def handlers.simps by (rule form_submit_law)
  show "tame [] p (hd_async_success (manage_handlers ev) p) \<and> \<not> pg_blocked (hd_async_success (manage_handlers ev) p)" for p
    unfolding manage_handlers_def handlers.simps using unloading_tame by blast
qed (unfold manage_handlers_def handlers.simps,
    (rule deleted_law calm_manage_result calm_manage_delete_reply manage_submit_reply_law submit_error_law loading_tame)+)

section \<open>The selection\<close>

text \<open>The console's question names the rows as they are at the press.\<close>

lemma manage_delete_dialog:
  assumes "pg_has p ''#datagrid''" "selections_text (pg_rows p) \<noteq> ''''"
  shows "\<exists>d. pg_dialogs (manage_delete_click msg h p) = d # pg_dialogs p \<and>
    dlg_ok d = Some (Delete_Rows ''#deleteBtn'' (Ids_Text (join_with '','' (map js_string (pg_rows p))))) \<and> dlg_content d = msg_del_conformText msg"
  using assms unfolding selections_text_eq [symmetric]
  by (auto simp: manage_delete_click_def Let_def call_hook_def emit_def jq_conform_def jq_dialog_def)

text \<open>The view button still looks for the two jqGrids: with only the table of the console on the page it
  opens the address without an id, whatever is selected.\<close>

lemma view_without_grid:
  assumes "\<not> pg_has p ''#list2''" "\<not> pg_has p ''#list''" "\<not> hk_defined h ''viewAction''"
  shows "view_click msg h p = open_selected msg ''#viewBtn'' '''' (call_hook h ''beforeView'' p)"
  using assms by (simp add: view_click_def call_hook_def emit_def)

end
