(* ===== verification/Page_Props.thy ===== *)
theory Page_Props
  imports Manage
begin

text \<open>
  The properties of the pages' event handlers (jquery/platform.common.js) over every sequence of
  events, for the user portal (\<open>portal_handlers\<close>) and the administration console
  (\<open>manage_handlers\<close>), whatever functions the page defines and whatever the user selects.
\<close>

section \<open>A page to run on\<close>

definition sample_page :: page where
  "sample_page =
     \<lparr>pg_has = (\<lambda>e. e \<in> {''#list'', ''#datagrid'', ''#actionForm'', ''form''}),
      pg_attr = (\<lambda>e a. if a = ''wurl'' then Some ''/users/delete'' else None),
      pg_val = (\<lambda>e. None), pg_html = (\<lambda>e. None), pg_visible = (\<lambda>e. False), pg_class = (\<lambda>e c. False),
      pg_checked = (\<lambda>e. False), pg_height = 600, pg_width = 800, pg_blocked = False, pg_parent = False,
      pg_grid = (\<lambda>g. \<lparr>jg_selrow = Some ''r2'', jg_selarrrow = 0, jg_multiselect = True,
        jg_rowid = map_option (\<lambda>r. if r = ''r2'' then ''u42'' else ''u'' @ r)\<rparr>),
      pg_arrays = (\<lambda>a. [Some ''r2'', Some ''r5'']), pg_rows = [Some ''7'', Some ''9''],
      pg_dialogs = [], pg_requests = [], pg_log = []\<rparr>"

definition sample_messages :: messages where
  "sample_messages =
     \<lparr>msg_window_title = ''window'', msg_alert_title = ''alert'', msg_alert_closeText = ''close'',
      msg_conform_yes = ''yes'', msg_conform_no = ''no'', msg_select_alertText = ''select a row'',
      msg_del_conformText = ''delete?'', msg_submit_errorText = ''failed''\<rparr>"

definition sample_hooks :: "bool option \<Rightarrow> hooks" where
  \<comment> \<open>a page that defines \<open>beforeSubmit\<close>, with the value it returns\<close>
  "sample_hooks b = \<lparr>hk_defined = (\<lambda>f. f = ''beforeSubmit''), hk_url = (\<lambda>f. ''''), hk_canSubmit = True, hk_beforeSubmit = b\<rparr>"

definition sample_env :: env where
  "sample_env = \<lparr>ev_msg = sample_messages, ev_hooks = sample_hooks (Some True)\<rparr>"

definition sample_console :: manage_env where
  "sample_console = \<lparr>mv_msg = sample_messages, mv_hooks = sample_hooks (Some True)\<rparr>"

lemmas sample_defs = sample_page_def sample_messages_def sample_hooks_def sample_env_def sample_console_def

lemma sample_fresh: "fresh_page sample_page"
  by (simp add: fresh_page_def sample_page_def)

section \<open>Deleting\<close>


definition asked :: page where
  "asked = portal_press sample_env ''#deleteBtn'' sample_page"

text \<open>A run of one press.\<close>

lemma press_run: "pg_dialogs p0 = [] \<Longrightarrow> page_run H p0 [Press e] (hd_press H e p0)"
  using run_step [OF run_start step_press, of p0 H e] by simp

text \<open>What a press of the delete button comes to on the sample page, whose grid has the rows r2 and r5 selected.\<close>

lemma sample_press:
  assumes "tables p = tables sample_page" "pg_class p = pg_class sample_page" "jg_selarrrow (pg_grid p ''#list'') = 0"
  shows "portal_press sample_env ''#deleteBtn'' p = jq_conform sample_messages
    \<lparr>al_content = ''delete?'', al_type = None, al_callback = Some (Delete_Rows ''#deleteBtn'' (Ids_Array 0))\<rparr>
    (p\<lparr>pg_arrays := (pg_arrays p)(0 := [Some ''u42'', Some ''ur5''])\<rparr>)"
proof -
  let ?q = "p\<lparr>pg_arrays := (pg_arrays p)(0 := [Some ''u42'', Some ''ur5''])\<rparr>"
  have t: "pg_grid p = pg_grid sample_page" "pg_arrays p = pg_arrays sample_page" "pg_has p = pg_has sample_page"
    using assms(1) by (simp_all add: tables_def)
  have i: "selected_ids p = (Some (Ids_Array 0), ?q)"
    unfolding selected_ids_def grid_ids_def Let_def t by (simp add: sample_page_def)
  have x: "selection_text ?q (Ids_Array 0) \<noteq> ''''"
    by (simp add: selection_text_def js_join_comma comma_separated_def)
  have "delete_click sample_messages (sample_hooks (Some True)) p = jq_conform sample_messages
      \<lparr>al_content = ''delete?'', al_type = None, al_callback = Some (Delete_Rows ''#deleteBtn'' (Ids_Array 0))\<rparr> ?q"
    using x by (simp add: delete_click_def Let_def call_hook_def sample_hooks_def i) (simp add: sample_messages_def)
  then show ?thesis
    unfolding portal_press_def Let_def bound_def assms(2)
    by (simp add: sample_page_def) (simp add: sample_env_def)
qed



text \<open>
  The handler overwrites the grid's own array. Once the question has been cancelled, the next press looks
  the ids up as if they were rows, and asks for others.
\<close>

lemma delete_click_twice:
  "let p = portal_press sample_env ''#deleteBtn'' (asked\<lparr>pg_dialogs := []\<rparr>)
   in portal_selection sample_page = ''u42,ur5'' \<and> pg_arrays p 0 = [Some ''uu42'', Some ''uur5'']"
proof -
  let ?p = "asked\<lparr>pg_dialogs := []\<rparr>"
  have "jg_selarrrow (pg_grid sample_page ''#list'') = 0" by (simp add: sample_page_def)
  note e = sample_press [OF refl refl this, folded asked_def]
  have t: "pg_grid ?p = pg_grid sample_page" "pg_has ?p = pg_has sample_page" "pg_class ?p = pg_class sample_page"
    "pg_arrays ?p 0 = [Some ''u42'', Some ''ur5'']"
    unfolding e by (simp_all add: jq_conform_def jq_dialog_def emit_def Let_def)
  have i: "selected_ids ?p = (Some (Ids_Array 0), ?p\<lparr>pg_arrays := (pg_arrays ?p)(0 := [Some ''uu42'', Some ''uur5''])\<rparr>)"
  proof -
    have g: "\<not> pg_has sample_page ''#list2''" "pg_has sample_page ''#list''" "jg_multiselect (pg_grid sample_page ''#list'')"
      "jg_selarrrow (pg_grid sample_page ''#list'') = 0"
      "map (jg_rowid (pg_grid sample_page ''#list'')) [Some ''u42'', Some ''ur5''] = [Some ''uu42'', Some ''uur5'']"
      by (simp_all add: sample_page_def)
    show ?thesis unfolding selected_ids_def grid_ids_def Let_def t(1,2) using g t(4) by simp
  qed
  have "pg_arrays (delete_click sample_messages (sample_hooks (Some True)) ?p) 0 = [Some ''uu42'', Some ''uur5'']"
    by (simp add: delete_click_def Let_def call_hook_def sample_hooks_def i alert_select_def jq_alert_def jq_conform_def jq_dialog_def emit_def)
  moreover have "portal_press sample_env ''#deleteBtn'' ?p = delete_click sample_messages (sample_hooks (Some True)) ?p"
    unfolding portal_press_def Let_def bound_def t(3) by (simp add: sample_page_def) (simp add: sample_env_def)
  moreover have "portal_selection sample_page = ''u42,ur5''"
    by (simp add: portal_selection_def grid_selection_def comma_separated_def sample_page_def)
  ultimately show ?thesis by (simp add: Let_def)
qed

text \<open>C4: The same holds in the console, where the rows are those selected in the bootstrap table.\<close>

theorem console_delete_confirmed:
  assumes "page_run (manage_handlers ev) p0 es p" "fresh_page p0" "page_step (manage_handlers ev) e p p'"
    and "filter is_deletion (drop (length (pg_log p)) (pg_log p')) \<noteq> []"
  shows "\<exists>now d ds es1 es2 q. e = Dialog_Ok now \<and> pg_dialogs p = d # ds \<and> dlg_content d = msg_del_conformText (mv_msg ev) \<and>
    es = es1 @ Press ''#deleteBtn'' # es2 \<and> page_run (manage_handlers ev) p0 es1 q \<and>
    page_run (manage_handlers ev) (manage_press ev ''#deleteBtn'' q) es2 p \<and>
    d \<in> set (pg_dialogs (manage_press ev ''#deleteBtn'' q)) \<and> console_selection q \<noteq> '''' \<and>
    filter is_deletion (drop (length (pg_log p)) (pg_log p')) =
      [Post (js_string (pg_attr p ''#deleteBtn'' ''wurl'') @ ''?id='' @ console_selection q) [(''_method'', ''delete''), (''currTime'', now)]]"
  using console.deletion_needs_confirmation [OF assms(1-3)] assms(4) unfolding console.deletions_def
  by (simp add: manage_handlers_def)

definition console_asked :: page where
  "console_asked = manage_press sample_console ''#deleteBtn'' sample_page"

lemma console_asked_dialog:
  "\<exists>d. pg_dialogs console_asked = [d] \<and> dlg_ok d = Some (Delete_Rows ''#deleteBtn'' (Ids_Text ''7,9''))"
  "pg_attr console_asked ''#deleteBtn'' ''wurl'' = Some ''/users/delete''"
  by (simp_all add: console_asked_def manage_press_def bound_def Let_def sample_defs manage_delete_click_def call_hook_def
      selections_text_def jq_conform_def jq_dialog_def emit_def setting_def)

theorem console_delete_confirmed_witness:
  "\<exists>p'. page_step (manage_handlers sample_console) (Dialog_Ok ''1'') console_asked p' \<and>
     filter is_deletion (drop (length (pg_log console_asked)) (pg_log p')) =
       [Post ''/users/delete?id=7,9'' [(''_method'', ''delete''), (''currTime'', ''1'')]]"
proof -
  let ?H = "manage_handlers sample_console"
  obtain d where d: "pg_dialogs console_asked = [d]" "dlg_ok d = Some (Delete_Rows ''#deleteBtn'' (Ids_Text ''7,9''))"
    using console_asked_dialog(1) by blast
  have r: "page_run ?H sample_page [Press ''#deleteBtn''] console_asked"
    using press_run [of sample_page ?H "''#deleteBtn''"] sample_fresh by (simp add: fresh_page_def manage_handlers_def console_asked_def)
  define p' where "p' = run_callback ?H ''1'' (Delete_Rows ''#deleteBtn'' (Ids_Text ''7,9'')) (console_asked\<lparr>pg_dialogs := []\<rparr>)"
  have s: "page_step ?H (Dialog_Ok ''1'') console_asked p'"
    unfolding p'_def by (rule step_ok [where p = console_asked, OF d])
  have "filter is_deletion (drop (length (pg_log console_asked)) (pg_log p')) \<noteq> []"
    by (simp add: p'_def run_callback_def manage_handlers_def delete_confirmed_def Let_def emit_def is_deletion_def)
  from console_delete_confirmed [OF r sample_fresh s this] obtain es1 es2 q where q:
    "[Press ''#deleteBtn''] = es1 @ Press ''#deleteBtn'' # es2" "page_run ?H sample_page es1 q"
    "filter is_deletion (drop (length (pg_log console_asked)) (pg_log p')) =
      [Post (js_string (pg_attr console_asked ''#deleteBtn'' ''wurl'') @ ''?id='' @ console_selection q) [(''_method'', ''delete''), (''currTime'', ''1'')]]"
    by auto
  have "es1 = []" using q(1) by (cases es1) auto
  then have "q = sample_page" using q(2) by (auto elim: page_run.cases)
  then have "console_selection q = ''7,9''" by (simp add: console_selection_def sample_page_def)
  then show ?thesis using s q(3) console_asked_dialog(2) by auto
qed

text \<open>The delete button of the console asks with exactly the ids of the selected rows, separated by
  commas and in the order of the table; with no row selected it tells the user to select one and puts
  no question.\<close>

theorem console_delete_names_rows:
  assumes "pg_has p ''#datagrid''"
  shows "\<exists>d. pg_dialogs (manage_delete_click msg h p) = d # pg_dialogs p \<and>
    (if console_selection p = '''' then dlg_ok d = None \<and> dlg_content d = msg_select_alertText msg
     else dlg_ok d = Some (Delete_Rows ''#deleteBtn'' (Ids_Text (console_selection p))) \<and>
       dlg_content d = msg_del_conformText msg)"
proof (cases "selections_text (pg_rows p) = ''''")
  case True
  then show ?thesis using assms unfolding selections_text_eq console_selection_def
    by (auto simp: manage_delete_click_def Let_def call_hook_def emit_def alert_select_def jq_alert_def jq_dialog_def selections_text_eq)
next
  case False
  then show ?thesis using manage_delete_dialog [OF assms False, of msg h] assms unfolding selections_text_eq console_selection_def by auto
qed

theorem console_delete_names_rows_witness:
  "\<exists>d. pg_dialogs (manage_delete_click sample_messages (sample_hooks None) (sample_page\<lparr>pg_rows := [Some ''7'', None]\<rparr>)) = [d] \<and>
     dlg_ok d = Some (Delete_Rows ''#deleteBtn'' (Ids_Text ''7,undefined''))"
  using console_delete_names_rows [of "sample_page\<lparr>pg_rows := [Some ''7'', None]\<rparr>" sample_messages "sample_hooks None"]
  by (auto simp: sample_page_def console_selection_def)

section \<open>Submitting\<close>

text \<open>C5: As long as the page's own \<open>beforeSubmit\<close> does not refuse and no request for the nodes of a tree has
  failed, a masked page waits for an answer - to a submission, or to a request for nodes of its tree, before which
  the mask goes up as well -, in both applications; and the answer or the error of a submission and the answer
  with the nodes always take the mask away.\<close>

theorem mask_only_in_flight:
  assumes "\<not> vetoes h" "fresh_page p0" "Tree_Error \<notin> set es" "pg_blocked p"
    and "ev_hooks ev = h \<and> page_run (portal_handlers ev) p0 es p \<or> mv_hooks mv = h \<and> page_run (manage_handlers mv) p0 es p"
  shows "(Submit_Request \<in> set (pg_requests p) \<or> Tree_Request \<in> set (pg_requests p)) \<and>
    \<not> pg_blocked (submit_reply msg h data p) \<and> \<not> pg_blocked (manage_submit_reply msg h data p) \<and> \<not> pg_blocked (submit_error msg p) \<and>
    \<not> pg_blocked (hd_async_success (portal_handlers ev) p) \<and> \<not> pg_blocked (hd_async_success (manage_handlers mv) p)"
proof (intro conjI)
  show "Submit_Request \<in> set (pg_requests p) \<or> Tree_Request \<in> set (pg_requests p)"
    using assms(5) portal.masked_waits [of ev p0 es p] console.masked_waits [of mv p0 es p] assms(1-4)
    unfolding portal.waits_def console.waits_def by blast
qed (use submit_reply_law manage_submit_reply_law submit_error_law portal.async_success_law console.async_success_law in blast)+

theorem mask_only_in_flight_witness:
  \<comment> \<open>a page whose form was submitted, and the console page that sets up its tree\<close>
  "(let p = form_submit (sample_hooks (Some True)) True ''form'' sample_page
    in Submit_Request \<in> set (pg_requests p) \<and>
      \<not> pg_blocked (submit_reply sample_messages (sample_hooks (Some True)) \<lparr>rs_message = None, rs_messageType = None, rs_errors = None\<rparr> p)) \<and>
   (\<exists>p. page_run (manage_handlers sample_console) sample_page [Tree_Init] p \<and> pg_blocked p \<and> Tree_Request \<in> set (pg_requests p) \<and>
      \<not> pg_blocked (jq_unloading p))"
proof
  let ?p = "form_submit (sample_hooks (Some True)) True ''form'' sample_page"
  let ?data = "\<lparr>rs_message = None, rs_messageType = None, rs_errors = None\<rparr>"
  have "page_step (portal_handlers sample_env) (Submit True ''form'') sample_page
      (hd_submit (portal_handlers sample_env) True ''form'' sample_page)"
    by (rule step_submit) (simp add: sample_page_def)
  then have r: "page_run (portal_handlers sample_env) sample_page [Submit True ''form''] ?p"
    using run_step [OF run_start] by (fastforce simp: portal_handlers_def sample_env_def)
  have b: "pg_blocked ?p" "Tree_Request \<notin> set (pg_requests ?p)"
    by (simp_all add: form_submit_def ajaxSubmit_def before_submit_def jq_loading_def sample_defs emit_def set_class_def)
  have h: "\<not> vetoes (sample_hooks (Some True))" "ev_hooks sample_env = sample_hooks (Some True)" "mv_hooks sample_console = sample_hooks (Some True)"
    by (simp_all add: vetoes_def sample_env_def sample_console_def sample_hooks_def)
  show "let p = ?p in Submit_Request \<in> set (pg_requests p) \<and> \<not> pg_blocked (submit_reply sample_messages (sample_hooks (Some True)) ?data p)"
    unfolding Let_def
    using mask_only_in_flight [OF h(1) sample_fresh _ b(1), of "[Submit True ''form'']" sample_env
      sample_console sample_messages ?data] r b(2) h(2) by simp
  obtain q where q: "page_run (manage_handlers sample_console) sample_page [Tree_Init] q" "pg_blocked q" "Submit_Request \<notin> set (pg_requests q)"
    using run_step [OF run_start step_tree_init, of "manage_handlers sample_console" sample_page]
    by (auto simp: manage_handlers_def jq_loading_def emit_def sample_page_def)
  then show "\<exists>p. page_run (manage_handlers sample_console) sample_page [Tree_Init] p \<and> pg_blocked p \<and> Tree_Request \<in> set (pg_requests p) \<and>
      \<not> pg_blocked (jq_unloading p)"
    using mask_only_in_flight [OF h(1) sample_fresh _ q(2), of "[Tree_Init]" sample_env sample_console sample_messages ?data] h(3)
    by (intro exI [of _ q]) (simp add: manage_handlers_def)
qed

text \<open>C34: When \<open>beforeSubmit\<close> refuses a submission the page stays masked with nothing in flight: the mask
  is put up before the function is called and only an answer takes it away.\<close>

theorem veto_leaves_mask:
  assumes "vetoes h" "pg_has p ''#actionForm''"
  shows "pg_blocked (form_submit h True form p) \<and> pg_requests (form_submit h True form p) = pg_requests p"
  using assms by (simp add: form_submit_def ajaxSubmit_def before_submit_def jq_loading_def vetoes_def emit_def set_class_def Let_def)

theorem veto_leaves_mask_witness:
  "pg_blocked (form_submit (sample_hooks (Some False)) True ''form'' sample_page)
   \<and> pg_requests (form_submit (sample_hooks (Some False)) True ''form'' sample_page) = []"
  using veto_leaves_mask [of "sample_hooks (Some False)" sample_page]
  by (simp add: vetoes_def sample_hooks_def sample_page_def)

section \<open>The view button and the queries\<close>

text \<open>On a page that has only the bootstrap table the console's view button opens its address without
  any id, whatever rows are selected: it still looks for the grids of the old interface.\<close>

theorem console_view_ignores_selection:
  assumes "\<not> pg_has p ''#list2''" "\<not> pg_has p ''#list''" "\<not> hk_defined (mv_hooks ev) ''viewAction''"
    and "pg_class p ''#viewBtn'' = (\<lambda>c. False)"
  shows "hd_press (manage_handlers ev) ''#viewBtn'' p
    = open_selected (mv_msg ev) ''#viewBtn'' '''' (call_hook (mv_hooks ev) ''beforeView'' p)"
  using assms view_without_grid [OF assms(1-3)]
  by (simp add: manage_handlers_def manage_press_def bound_def)

theorem console_view_ignores_selection_witness:
  "\<exists>d. pg_dialogs (hd_press (manage_handlers sample_console) ''#viewBtn''
     (sample_page\<lparr>pg_has := (\<lambda>e. e = ''#datagrid'')\<rparr>)) = [d]"
  using console_view_ignores_selection [of "sample_page\<lparr>pg_has := (\<lambda>e. e = ''#datagrid'')\<rparr>" sample_console]
  by (simp add: sample_defs open_selected_def call_hook_def jq_window_def jq_dialog_def emit_def window_of_def Let_def)

text \<open>A query sends the advanced form's value of a field when the form has it, else the basic form's,
  else the grid's own parameter.\<close>

theorem query_precedence:
  "dataGridQueryParams serialize params k =
     (case serialize ''#advanced_search_form'' k of
        Some v \<Rightarrow> Some v
      | None \<Rightarrow> (case serialize ''#basic_search_form'' k of Some v \<Rightarrow> Some v | None \<Rightarrow> params k))"
  by (rule query_lookup)

end
