(* ===== verification/ZTree.thy ===== *)
theory ZTree
  imports Js_Text
begin

text \<open>
  The tree widget of the organisation pages (zTree-v3.5.40/js/jquery.ztree.core.js): its settings,
  its nodes and the operations of its \<open>data\<close> object. The nodes are objects that the code shares
  and mutates, so they live in a heap of addresses; address 0 is the root object. The widget's
  part of the document is the browser's: every change of it is an entry of a log, in order, and
  what the code reads from it - whether an element exists, its class, how many children it has -
  is answered by \<open>browser\<close>, a function of that log.
\<close>

named_theorems ztree_simps \<open>how the operations change the fields of the tree\<close>

section \<open>Nodes, settings, state\<close>

type_synonym nid = nat

text \<open>A field that may be absent, a boolean or a string when a user's data sets it.\<close>

datatype flag = FUndef | FBool bool | FStr string

fun flag_true :: "flag \<Rightarrow> bool" where
  "flag_true FUndef = False"
| "flag_true (FBool b) = b"
| "flag_true (FStr s) = (s \<noteq> '''')"

text \<open>
  The fields of a node. \<open>zn_attr\<close> holds the user's fields by name, absent or a string: the name, the
  ids, the icons. \<open>zn_detached\<close> stands for the methods \<open>getPreNode\<close> and \<open>getNextNode\<close> that \<open>removeNode\<close>
  replaces by ones that return null. The widget's own fields below stand beside the user's: a key of the
  data or of a search is assumed to be none of their names (\<open>tId\<close>, \<open>level\<close>, \<open>isFirstNode\<close> and so on), which in
  the code share one object with it.
\<close>

record znode =
  zn_attr :: "string \<Rightarrow> string option"
  zn_isParent :: flag
  zn_open :: flag
  zn_children :: "nid list option"
  zn_level :: nat
  zn_tId :: "string option"
  zn_parentTId :: "string option"
  zn_first :: bool
  zn_last :: bool
  zn_zAsync :: bool
  zn_isAjaxing :: bool
  zn_detached :: bool

text \<open>What an animation calls when it ends, and what a request for nodes calls.\<close>

datatype zcallback = No_Cb | Focus_Node nid bool | Then_Trigger zcallback nid

datatype async_callback = No_Async_Cb | Add_Nodes "nid option" int "nid list" bool | User_Cb string

datatype zeffect =
    Append string string
  | Insert_Before string nat string
  | Remove_Elem string
  | Empty_Elem string
  | Css string string string
  | Css_Map string "(string \<times> string) list"
  | Set_Attr string string string
  | Remove_Attr string string
  | Add_Class string string
  | Remove_Class string string
  | Set_Html string string
  | Set_Text string string
  | Show_Elem string
  | Hide_Elem string
  | Slide_Down string string zcallback
  | Slide_Up string string zcallback
  | Scroll_To string
  | Focus_Blur string
  | Diy_Dom nid
  | Trigger string "nid option"
  | Call_User string
  | Ajax "nid option" "(string \<times> string option) list"
  | Bind string
  | Unbind string

record zrequest =
  zr_node :: "nid option"
  zr_silent :: bool
  zr_callback :: async_callback
  zr_ver :: int

record ztree =
  zt_heap :: "nid \<Rightarrow> znode"
  zt_next :: nid
  zt_cache :: "string \<Rightarrow> nid option"
  zt_expandTrigger :: bool
  zt_selected :: "nid list"
  zt_created :: "nid list"
  zt_zId :: nat
  zt_ver :: int
  zt_pending :: "zrequest list"
  zt_log :: "zeffect list"

text \<open>A node as the user or the server gives it.\<close>

datatype jnode =
  JNode (j_attr: "(string \<times> string) list") (j_isParent: flag) (j_open: flag) (j_children: "jnode list option")

text \<open>
  The settings. A callback
  reads the tree and answers; \<open>None\<close> stands for a setting that is no
  function. A setting that may be a value or a function of the node is the function.
\<close>

type_synonym 'a per_node = "ztree \<Rightarrow> nid \<Rightarrow> 'a"

record zsetting =
  zs_treeId :: string
  zs_addDiyDom :: bool
  zs_autoCancelSelected :: bool
  zs_dblClickExpand :: "bool per_node"
  zs_expandSpeed :: string
  zs_fontCss :: "(string \<times> string) list per_node"
  zs_nameIsHTML :: bool
  zs_selectedMulti :: bool
  zs_showIcon :: "bool per_node"
  zs_showLine :: bool
  zs_showTitle :: "bool per_node"
  zs_txtSelectedEnable :: bool
  zs_nameKey :: string
  zs_titleKey :: string
  zs_urlKey :: string
  zs_iconKey :: string
  zs_simple :: bool
  zs_idKey :: string
  zs_pIdKey :: string
  zs_rootPId :: "string option"
  zs_keepParent :: bool
  zs_keepLeaf :: bool
  zs_async :: bool
  zs_asyncUrl :: string
  zs_autoParam :: "string list"
  zs_otherParam :: "(string \<times> string) list"
  zs_dataFilter :: "jnode list \<Rightarrow> jnode list"
  zs_before :: "string \<Rightarrow> (ztree \<Rightarrow> nid option \<Rightarrow> bool) option"
  zs_on :: "string \<Rightarrow> bool"
  br_has :: "zeffect list \<Rightarrow> string \<Rightarrow> bool"
  br_class :: "zeffect list \<Rightarrow> string \<Rightarrow> string option"
  br_count :: "zeffect list \<Rightarrow> string \<Rightarrow> nat"

section \<open>Small parts\<close>

definition zemit :: "zeffect \<Rightarrow> ztree \<Rightarrow> ztree" where
  "zemit e z = z\<lparr>zt_log := zt_log z @ [e]\<rparr>"

definition upd_node :: "nid \<Rightarrow> (znode \<Rightarrow> znode) \<Rightarrow> ztree \<Rightarrow> ztree" where
  "upd_node n f z = z\<lparr>zt_heap := (zt_heap z)(n := f (zt_heap z n))\<rparr>"

abbreviation (input) root :: nid where
  "root \<equiv> 0"

definition eqs :: "string \<Rightarrow> string \<Rightarrow> bool" where
  "eqs str1 str2 \<longleftrightarrow> toLowerCase str1 = toLowerCase str2"

definition elem_id :: "ztree \<Rightarrow> nid \<Rightarrow> string \<Rightarrow> string" where
  \<comment> \<open>$$(node, exp, setting)\<close>
  "elem_id z n e = js_string (zn_tId (zt_heap z n)) @ e"

definition may :: "zsetting \<Rightarrow> string \<Rightarrow> nid option \<Rightarrow> ztree \<Rightarrow> bool" where
  \<comment> \<open>a before-callback: true when there is none\<close>
  "may S cb n z = (case zs_before S cb of None \<Rightarrow> True | Some f \<Rightarrow> f z n)"

section \<open>Fields of a node\<close>

definition nodeChildren :: "ztree \<Rightarrow> nid \<Rightarrow> nid list option" where
  "nodeChildren z n = zn_children (zt_heap z n)"

definition set_children :: "nid \<Rightarrow> nid list option \<Rightarrow> ztree \<Rightarrow> ztree" where
  "set_children n cs = upd_node n (zn_children_update (\<lambda>_. cs))"

definition flag_bool :: "flag \<Rightarrow> bool" where
  \<comment> \<open>the boolean a raw field stands for\<close>
  "flag_bool f = (case f of FStr s \<Rightarrow> eqs s ''true'' | _ \<Rightarrow> flag_true f)"

definition isParent :: "ztree \<Rightarrow> nid \<Rightarrow> bool" where
  "isParent z n = flag_bool (zn_isParent (zt_heap z n))"

definition set_isParent :: "nid \<Rightarrow> bool \<Rightarrow> ztree \<Rightarrow> ztree" where
  "set_isParent n b = upd_node n (zn_isParent_update (\<lambda>_. FBool b))"

definition nodeIsParent :: "nid \<Rightarrow> ztree \<Rightarrow> bool \<times> ztree" where
  \<comment> \<open>reading it writes the boolean back\<close>
  "nodeIsParent n z = (isParent z n, set_isParent n (isParent z n) z)"

definition is_open :: "ztree \<Rightarrow> nid \<Rightarrow> bool" where
  \<comment> \<open>node.open in a condition\<close>
  "is_open z n = flag_true (zn_open (zt_heap z n))"

definition set_open :: "nid \<Rightarrow> bool \<Rightarrow> ztree \<Rightarrow> ztree" where
  "set_open n b = upd_node n (zn_open_update (\<lambda>_. FBool b))"

definition attr :: "ztree \<Rightarrow> nid \<Rightarrow> string \<Rightarrow> string option" where
  "attr z n k = zn_attr (zt_heap z n) k"

definition nodeName :: "zsetting \<Rightarrow> ztree \<Rightarrow> nid \<Rightarrow> string" where
  "nodeName S z n = js_string (attr z n (zs_nameKey S))"

definition nodeTitle :: "zsetting \<Rightarrow> ztree \<Rightarrow> nid \<Rightarrow> string" where
  "nodeTitle S z n = js_string (attr z n (if zs_titleKey S = '''' then zs_nameKey S else zs_titleKey S))"

section \<open>The cache\<close>

definition getNodeCacheId :: "string \<Rightarrow> string" where
  "getNodeCacheId tId = substring (nat (last_index_of (CHR ''_'') tId + 1)) (length tId) tId"

definition addNodeCache :: "nid \<Rightarrow> ztree \<Rightarrow> ztree" where
  "addNodeCache n z = z\<lparr>zt_cache := (zt_cache z)(getNodeCacheId (js_string (zn_tId (zt_heap z n))) := Some n)\<rparr>"

definition getNodeCache :: "ztree \<Rightarrow> string option \<Rightarrow> nid option" where
  "getNodeCache z tId = (if truthy tId then zt_cache z (getNodeCacheId (js_string tId)) else None)"

definition getParentNode :: "ztree \<Rightarrow> nid \<Rightarrow> nid option" where
  "getParentNode z n = getNodeCache z (zn_parentTId (zt_heap z n))"

definition parent_of :: "ztree \<Rightarrow> nid \<Rightarrow> nid option" where
  \<comment> \<open>node.parentTId ? node.getParentNode() : root\<close>
  "parent_of z n = (if truthy (zn_parentTId (zt_heap z n)) then getParentNode z n else Some root)"

fun removeNodeCache :: "nat \<Rightarrow> nid \<Rightarrow> ztree \<Rightarrow> ztree option" where
  "removeNodeCache 0 n z = None"
| "removeNodeCache (Suc k) n z =
     (case foldM (removeNodeCache k) (case nodeChildren z n of None \<Rightarrow> [] | Some cs \<Rightarrow> cs) z of
        None \<Rightarrow> None
      | Some z \<Rightarrow> Some (z\<lparr>zt_cache := (zt_cache z)(getNodeCacheId (js_string (zn_tId (zt_heap z n))) := None)\<rparr>))"

section \<open>Neighbours and paths\<close>

text \<open>\<open>None\<close> as a whole is a TypeError: a parent that is not in the tree any more or has no children.\<close>

definition siblings :: "ztree \<Rightarrow> nid \<Rightarrow> nid list option" where
  "siblings z n = Option.bind (parent_of z n) (nodeChildren z)"

definition position :: "nid \<Rightarrow> nid list \<Rightarrow> nat option" where
  \<comment> \<open>the loops that stop at the first child that is the node\<close>
  "position n cs = (if n \<in> set cs then Some (length (takeWhile (\<lambda>c. c \<noteq> n) cs)) else None)"

definition getNodeIndex :: "ztree \<Rightarrow> nid \<Rightarrow> int option" where
  "getNodeIndex z n =
     map_option (\<lambda>cs. case position n cs of None \<Rightarrow> -1 | Some i \<Rightarrow> int i) (siblings z n)"

definition getNextNode :: "ztree \<Rightarrow> nid \<Rightarrow> nid option option" where
  "getNextNode z n =
     map_option (\<lambda>cs. case position n cs of None \<Rightarrow> None | Some i \<Rightarrow> if i + 1 = length cs then None else Some (cs ! (i + 1)))
       (siblings z n)"

definition getPreNode :: "ztree \<Rightarrow> nid \<Rightarrow> nid option option" where
  "getPreNode z n =
     map_option (\<lambda>cs. case position n cs of None \<Rightarrow> None | Some i \<Rightarrow> if i = 0 then None else Some (cs ! (i - 1)))
       (siblings z n)"

definition node_getNextNode :: "ztree \<Rightarrow> nid \<Rightarrow> nid option option" where
  "node_getNextNode z n = (if zn_detached (zt_heap z n) then Some None else getNextNode z n)"

definition node_getPreNode :: "ztree \<Rightarrow> nid \<Rightarrow> nid option option" where
  "node_getPreNode z n = (if zn_detached (zt_heap z n) then Some None else getPreNode z n)"

fun getNodePath :: "nat \<Rightarrow> ztree \<Rightarrow> nid \<Rightarrow> nid list option" where
  "getNodePath 0 z n = None"
| "getNodePath (Suc k) z n =
     (if truthy (zn_parentTId (zt_heap z n)) then
        (case getParentNode z n of
           None \<Rightarrow> None
         | Some p \<Rightarrow> map_option (\<lambda>path. path @ [n]) (getNodePath k z p))
      else Some [n])"

section \<open>Searching\<close>

text \<open>
  Each search runs over a list of nodes and, under a node, over its children; the first argument
  bounds the depth. A field that a search compares is absent or a string.
\<close>

definition sub_nodes :: "ztree \<Rightarrow> nid \<Rightarrow> nid list" where
  "sub_nodes z n = (case nodeChildren z n of None \<Rightarrow> [] | Some cs \<Rightarrow> cs)"

fun getNodeByParam :: "nat \<Rightarrow> ztree \<Rightarrow> nid list \<Rightarrow> string \<Rightarrow> string option \<Rightarrow> nid option option" where
  "getNodeByParam 0 z nodes key v = None"
| "getNodeByParam (Suc k) z [] key v = Some None"
| "getNodeByParam (Suc k) z (n # nodes) key v =
     (if attr z n key = v then Some (Some n)
      else case getNodeByParam k z (sub_nodes z n) key v of
             None \<Rightarrow> None
           | Some (Some tmp) \<Rightarrow> Some (Some tmp)
           | Some None \<Rightarrow> getNodeByParam (Suc k) z nodes key v)"

fun getNodesByParam :: "nat \<Rightarrow> ztree \<Rightarrow> nid list \<Rightarrow> string \<Rightarrow> string option \<Rightarrow> nid list option" where
  "getNodesByParam 0 z nodes key v = None"
| "getNodesByParam (Suc k) z [] key v = Some []"
| "getNodesByParam (Suc k) z (n # nodes) key v =
     Option.bind (getNodesByParam k z (sub_nodes z n) key v) (\<lambda>below.
     Option.bind (getNodesByParam (Suc k) z nodes key v) (\<lambda>rest.
       Some ((if attr z n key = v then [n] else []) @ below @ rest)))"

definition fuzzy_match :: "ztree \<Rightarrow> string \<Rightarrow> string \<Rightarrow> nid \<Rightarrow> bool" where
  "fuzzy_match z key v n =
     (case attr z n key of None \<Rightarrow> False | Some s \<Rightarrow> contains v (toLowerCase s))"

fun getNodesByParamFuzzy :: "nat \<Rightarrow> ztree \<Rightarrow> nid list \<Rightarrow> string \<Rightarrow> string \<Rightarrow> nid list option" where
  "getNodesByParamFuzzy 0 z nodes key v = None"
| "getNodesByParamFuzzy (Suc k) z [] key v = Some []"
| "getNodesByParamFuzzy (Suc k) z (n # nodes) key v =
     Option.bind (getNodesByParamFuzzy k z (sub_nodes z n) key (toLowerCase v)) (\<lambda>below.
     Option.bind (getNodesByParamFuzzy (Suc k) z nodes key v) (\<lambda>rest.
       Some ((if fuzzy_match z key (toLowerCase v) n then [n] else []) @ below @ rest)))"

text \<open>With \<open>isSingle\<close> the result is the first match, a list of at most one node here.\<close>

fun getNodesByFilter :: "nat \<Rightarrow> ztree \<Rightarrow> nid list \<Rightarrow> (nid \<Rightarrow> bool) \<Rightarrow> bool \<Rightarrow> nid list option" where
  "getNodesByFilter 0 z nodes f isSingle = None"
| "getNodesByFilter (Suc k) z [] f isSingle = Some []"
| "getNodesByFilter (Suc k) z (n # nodes) f isSingle =
     (if f n \<and> isSingle then Some [n]
      else case getNodesByFilter k z (sub_nodes z n) f isSingle of
             None \<Rightarrow> None
           | Some tmp \<Rightarrow>
               if isSingle \<and> tmp \<noteq> [] then Some tmp
               else case getNodesByFilter (Suc k) z nodes f isSingle of
                      None \<Rightarrow> None
                    | Some rest \<Rightarrow> Some ((if f n then [n] else []) @ tmp @ rest))"

fun transformToArrayFormat :: "nat \<Rightarrow> ztree \<Rightarrow> nid list \<Rightarrow> nid list option" where
  "transformToArrayFormat 0 z nodes = None"
| "transformToArrayFormat (Suc k) z [] = Some []"
| "transformToArrayFormat (Suc k) z (n # nodes) =
     Option.bind (transformToArrayFormat k z (sub_nodes z n)) (\<lambda>below.
     Option.bind (transformToArrayFormat (Suc k) z nodes) (\<lambda>rest.
       Some (n # below @ rest)))"

section \<open>From rows with parent ids to a tree\<close>

text \<open>
  The rows by id, in an object: an id that is absent is the key \<open>undefined\<close>, a later row replaces
  an earlier one of the same id, and a name that every object inherits is found although no row
  has it. A row below such a name goes into the inherited function's own list and out of the tree.
  (The name \<open>__proto__\<close>, which would change the object itself, is left out.)
\<close>

definition inherited :: "string list" where
  "inherited =
     [''constructor'', ''hasOwnProperty'', ''isPrototypeOf'', ''propertyIsEnumerable'', ''toLocaleString'',
      ''toString'', ''valueOf'', ''__defineGetter__'', ''__defineSetter__'', ''__lookupGetter__'', ''__lookupSetter__'']"

definition rows_by_id :: "zsetting \<Rightarrow> ztree \<Rightarrow> nid list \<Rightarrow> (string \<rightharpoonup> nid)" where
  "rows_by_id S z rows = fold (\<lambda>n m. m(js_string (attr z n (zs_idKey S)) \<mapsto> n)) rows Map.empty"

definition add_child :: "nid \<Rightarrow> nid \<Rightarrow> ztree \<Rightarrow> ztree" where
  "add_child p n z = set_children p (Some (sub_nodes z p @ [n])) z"

definition place_row :: "zsetting \<Rightarrow> (string \<rightharpoonup> nid) \<Rightarrow> nid \<Rightarrow> nid list \<times> ztree \<Rightarrow> nid list \<times> ztree" where
  "place_row S tmpMap n rz =
     (let (r, z) = rz;
          key = js_string (attr z n (zs_pIdKey S))
      in if attr z n (zs_idKey S) = attr z n (zs_pIdKey S) then (r @ [n], z)
         else case tmpMap key of
                Some p \<Rightarrow> (r, add_child p n z)
              | None \<Rightarrow> if key \<in> set inherited then (r, z) else (r @ [n], z))"

definition transformTozTreeFormat :: "zsetting \<Rightarrow> nid list \<Rightarrow> ztree \<Rightarrow> nid list \<times> ztree" where
  "transformTozTreeFormat S rows z =
     (if zs_idKey S = '''' then ([], z)
      else fold (place_row S (rows_by_id S z rows)) rows ([], z))"

section \<open>Copies of the user's data\<close>

definition blank_node :: znode where
  "blank_node =
     \<lparr>zn_attr = Map.empty, zn_isParent = FUndef, zn_open = FUndef, zn_children = None, zn_level = 0, zn_tId = None,
      zn_parentTId = None, zn_first = False, zn_last = False, zn_zAsync = False, zn_isAjaxing = False, zn_detached = False\<rparr>"

definition alloc :: "znode \<Rightarrow> ztree \<Rightarrow> nid \<times> ztree" where
  "alloc v z = (zt_next z, z\<lparr>zt_heap := (zt_heap z)(zt_next z := v), zt_next := zt_next z + 1\<rparr>)"

fun clone_node :: "jnode \<Rightarrow> ztree \<Rightarrow> nid \<times> ztree" and clone_nodes :: "jnode list \<Rightarrow> ztree \<Rightarrow> nid list \<times> ztree" where
  "clone_node (JNode a p op ch) z =
     (let (n, z) = alloc (blank_node\<lparr>zn_attr := map_of a, zn_isParent := p, zn_open := op\<rparr>) z
      in case ch of
           None \<Rightarrow> (n, z)
         | Some js \<Rightarrow> (let (cs, z) = clone_nodes js z in (n, set_children n (Some cs) z)))"
| "clone_nodes [] z = ([], z)"
| "clone_nodes (j # js) z = (let (n, z) = clone_node j z; (ns, z) = clone_nodes js z in (n # ns, z))"

section \<open>Selection and creation\<close>

definition isSelectedNode :: "ztree \<Rightarrow> nid \<Rightarrow> bool" where
  "isSelectedNode z n \<longleftrightarrow> n \<in> set (zt_selected z)"

definition addSelectedNode :: "nid \<Rightarrow> ztree \<Rightarrow> ztree" where
  "addSelectedNode n z = (if isSelectedNode z n then z else z\<lparr>zt_selected := zt_selected z @ [n]\<rparr>)"

definition removeSelectedNode :: "nid option \<Rightarrow> ztree \<Rightarrow> ztree" where
  \<comment> \<open>the loop takes out the node, and every node that is not in the cache any more\<close>
  "removeSelectedNode node z =
     (let keep = (\<lambda>n. node \<noteq> Some n \<and> getNodeCache z (zn_tId (zt_heap z n)) \<noteq> None)
      in z\<lparr>zt_selected := filter keep (zt_selected z),
           zt_log := zt_log z @ map (\<lambda>_. Trigger ''ztree_unselected'' node) (filter (\<lambda>n. \<not> keep n) (zt_selected z))\<rparr>)"

definition addCreatedNode :: "zsetting \<Rightarrow> nid \<Rightarrow> ztree \<Rightarrow> ztree" where
  "addCreatedNode S n z =
     (if zs_on S ''onNodeCreated'' \<or> zs_addDiyDom S then z\<lparr>zt_created := zt_created z @ [n]\<rparr> else z)"

section \<open>Initialising a node\<close>

definition fixPIdKeyValue :: "zsetting \<Rightarrow> nid \<Rightarrow> ztree \<Rightarrow> ztree option" where
  "fixPIdKeyValue S n z =
     (if zs_simple S then
        (if truthy (zn_parentTId (zt_heap z n)) then
           (case getParentNode z n of
              None \<Rightarrow> None
            | Some p \<Rightarrow> Some (upd_node n (\<lambda>v. v\<lparr>zn_attr := (zn_attr v)(zs_pIdKey S := attr z p (zs_idKey S))\<rparr>) z))
         else Some (upd_node n (\<lambda>v. v\<lparr>zn_attr := (zn_attr v)(zs_pIdKey S := zs_rootPId S)\<rparr>) z))
      else Some z)"

definition initNode :: "zsetting \<Rightarrow> nat \<Rightarrow> nid \<Rightarrow> nid option \<Rightarrow> bool \<Rightarrow> bool \<Rightarrow> ztree \<Rightarrow> ztree option" where
  "initNode S level n parentNode isFirstNode isLastNode z =
     (let z = z\<lparr>zt_zId := zt_zId z + 1\<rparr>;
          v = zt_heap z n;
          isPar = flag_bool (zn_isParent v);
          op = flag_bool (zn_open v);
          v = v\<lparr>zn_level := level, zn_tId := Some (zs_treeId S @ ''_'' @ decimal (zt_zId z)),
                zn_parentTId := (case parentNode of None \<Rightarrow> None | Some p \<Rightarrow> zn_tId (zt_heap z p))\<rparr>;
          v = (if zn_children v \<noteq> None
               then v\<lparr>zn_isParent := FBool True, zn_open := FBool op, zn_zAsync := True\<rparr>
               else v\<lparr>zn_isParent := FBool isPar, zn_open := FBool (if isPar \<and> \<not> zs_async S then op else False),
                      zn_zAsync := \<not> isPar\<rparr>);
          v = v\<lparr>zn_first := isFirstNode, zn_last := isLastNode, zn_detached := False, zn_isAjaxing := False\<rparr>
      in fixPIdKeyValue S n (upd_node n (\<lambda>_. v) z))"

end
