(* ===== verification/ZTree_View.thy ===== *)
theory ZTree_View
  imports ZTree
begin

text \<open>
  The \<open>view\<close> object of zTree (jquery.ztree.core.js): the markup of a node, the classes of its
  icons, adding, showing, opening, selecting and removing nodes. Each operation that follows the
  tree downwards or upwards is bounded by the number of objects allocated, which is enough for
  every tree (\<open>ZTree_Shape\<close>); \<open>None\<close> stands for a TypeError or an endless recursion.
\<close>

section \<open>Classes and styles\<close>

definition dquoted :: "string \<Rightarrow> string" where
  "dquoted s = CHR 0x22 # s @ [CHR 0x22]"

definition folder_class :: "ztree \<Rightarrow> nid \<Rightarrow> string" where
  "folder_class z n = (if isParent z n then (if is_open z n then ''open'' else ''close'') else ''docu'')"

definition makeNodeLineClassEx :: "ztree \<Rightarrow> nid \<Rightarrow> string" where
  "makeNodeLineClassEx z n = ''button level'' @ decimal (zn_level (zt_heap z n)) @ '' switch ''"

definition makeNodeLineClass :: "zsetting \<Rightarrow> ztree \<Rightarrow> nid \<Rightarrow> string" where
  "makeNodeLineClass S z n =
     (let v = zt_heap z n;
          line = (if zs_showLine S then
                    (if zn_level v = 0 \<and> zn_first v \<and> zn_last v then ''root''
                     else if zn_level v = 0 \<and> zn_first v then ''roots''
                     else if zn_last v then ''bottom''
                     else ''center'')
                  else ''noline'')
      in makeNodeLineClassEx z n @ line @ ''_'' @ folder_class z n)"

definition makeUlLineClass :: "zsetting \<Rightarrow> ztree \<Rightarrow> nid \<Rightarrow> string" where
  "makeUlLineClass S z n = (if zs_showLine S \<and> \<not> zn_last (zt_heap z n) then ''line'' else '''')"

definition makeNodeIcoClass :: "zsetting \<Rightarrow> ztree \<Rightarrow> nid \<Rightarrow> string" where
  "makeNodeIcoClass S z n =
     ''button '' @
     (if zn_isAjaxing (zt_heap z n) then ''ico''
      else (if truthy (attr z n ''iconSkin'') then js_string (attr z n ''iconSkin'') @ ''_'' else '''') @ ''ico_'' @ folder_class z n)"

definition makeNodeIcoStyle :: "zsetting \<Rightarrow> ztree \<Rightarrow> nid \<Rightarrow> string" where
  "makeNodeIcoStyle S z n =
     (if zn_isAjaxing (zt_heap z n) then ''''
      else
        let icon = (if isParent z n \<and> truthy (attr z n ''iconOpen'') \<and> truthy (attr z n ''iconClose'')
                    then (if is_open z n then attr z n ''iconOpen'' else attr z n ''iconClose'')
                    else attr z n (zs_iconKey S))
        in (if truthy icon then ''background:url('' @ js_string icon @ '') 0 0 no-repeat;'' else '''')
           @ (if zs_showIcon S z n then '''' else ''width:0px;height:0px;''))"

definition makeNodeTarget :: "ztree \<Rightarrow> nid \<Rightarrow> string" where
  "makeNodeTarget z n = (if truthy (attr z n ''target'') then js_string (attr z n ''target'') else ''_blank'')"

definition makeNodeUrl :: "zsetting \<Rightarrow> ztree \<Rightarrow> nid \<Rightarrow> string option" where
  "makeNodeUrl S z n = (if truthy (attr z n (zs_urlKey S)) then attr z n (zs_urlKey S) else None)"

section \<open>Markup\<close>

definition escape_name :: "string \<Rightarrow> string" where
  "escape_name s =
     replace_char (CHR ''>'') ''&gt;'' (replace_char (CHR ''<'') ''&lt;'' (replace_char (CHR ''&'') ''&amp;'' s))"

definition escape_title :: "string \<Rightarrow> string" where
  "escape_title s =
     replace_char (CHR ''>'') ''&gt;'' (replace_char (CHR ''<'') ''&lt;'' (replace_char (CHR 0x27) ''&#39;'' s))"

definition tid :: "ztree \<Rightarrow> nid \<Rightarrow> string" where
  "tid z n = js_string (zn_tId (zt_heap z n))"

definition level_class :: "ztree \<Rightarrow> nid \<Rightarrow> string" where
  "level_class z n = ''level'' @ decimal (zn_level (zt_heap z n))"

definition makeDOMNodeMainBefore :: "ztree \<Rightarrow> nid \<Rightarrow> string" where
  "makeDOMNodeMainBefore z n =
     ''<li id='' @ quoted (tid z n) @ '' class='' @ quoted (level_class z n) @
     '' tabindex='' @ quoted ''0'' @ '' hidefocus='' @ quoted ''true'' @ '' treenode>''"

definition makeDOMNodeLine :: "zsetting \<Rightarrow> ztree \<Rightarrow> nid \<Rightarrow> string" where
  "makeDOMNodeLine S z n =
     ''<span id='' @ quoted (tid z n @ ''_switch'') @ '' title='' @ quoted '''' @ '' class='' @
     quoted (makeNodeLineClass S z n) @ '' treeNode_switch></span>''"

definition makeDOMNodeNameBefore :: "zsetting \<Rightarrow> ztree \<Rightarrow> nid \<Rightarrow> string" where
  "makeDOMNodeNameBefore S z n =
     (let title = nodeTitle S z n;
          url = makeNodeUrl S z n;
          fontStyle = concat (map (\<lambda>(f, v). f @ '':'' @ v @ '';'') (zs_fontCss S z n))
      in ''<a id='' @ quoted (tid z n @ ''_a'') @ '' class='' @ quoted (level_class z n) @ '' treeNode_a onclick='' @
         dquoted (if truthy (attr z n ''click'') then js_string (attr z n ''click'') else '''') @ '' '' @
         (case url of None \<Rightarrow> '''' | Some u \<Rightarrow> ''href='' @ quoted u) @ '' target='' @ quoted (makeNodeTarget z n) @
         '' style='' @ quoted fontStyle @
         (if zs_showTitle S z n \<and> title \<noteq> '''' then ''title='' @ quoted (escape_title title) else '''') @ ''>'')"

definition makeDOMNodeIcon :: "zsetting \<Rightarrow> ztree \<Rightarrow> nid \<Rightarrow> string" where
  "makeDOMNodeIcon S z n =
     (let nameStr = nodeName S z n;
          name = (if zs_nameIsHTML S then nameStr else escape_name nameStr)
      in ''<span id='' @ quoted (tid z n @ ''_ico'') @ '' title='' @ quoted '''' @ '' treeNode_ico class='' @
         quoted (makeNodeIcoClass S z n) @ '' style='' @ quoted (makeNodeIcoStyle S z n) @ ''></span><span id='' @
         quoted (tid z n @ ''_span'') @ '' class='' @ quoted ''node_name'' @ ''>'' @ name @ ''</span>'')"

definition makeDOMNodeNameAfter :: string where
  "makeDOMNodeNameAfter = ''</a>''"

definition makeDOMNodeMainAfter :: string where
  "makeDOMNodeMainAfter = ''</li>''"

definition makeUlHtml :: "zsetting \<Rightarrow> ztree \<Rightarrow> nid \<Rightarrow> string \<Rightarrow> string" where
  "makeUlHtml S z n content =
     ''<ul id='' @ quoted (tid z n @ ''_ul'') @ '' class='' @ quoted (level_class z n @ '' '' @ makeUlLineClass S z n) @
     '' style='' @ quoted (''display:'' @ (if is_open z n then ''block'' else ''none'')) @ ''>'' @ content @ ''</ul>''"

definition node_html :: "zsetting \<Rightarrow> ztree \<Rightarrow> nid \<Rightarrow> bool \<Rightarrow> string \<Rightarrow> string" where
  \<comment> \<open>what \<open>appendNodes\<close> pushes for one node\<close>
  "node_html S z n par childHtml =
     makeDOMNodeMainBefore z n @ makeDOMNodeLine S z n @ makeDOMNodeNameBefore S z n @ makeDOMNodeIcon S z n @
     makeDOMNodeNameAfter @ (if par \<and> is_open z n then makeUlHtml S z n childHtml else '''') @ makeDOMNodeMainAfter"

section \<open>Icons on the page\<close>

definition put_part :: "nat \<Rightarrow> string \<Rightarrow> string list \<Rightarrow> string list" where
  \<comment> \<open>tmpList[i] = s\<close>
  "put_part i s xs = (if i < length xs then xs[i := s] else xs @ replicate (i - length xs) '''' @ [s])"

definition replaceIcoClass :: "zsetting \<Rightarrow> nid \<Rightarrow> string \<Rightarrow> ztree \<Rightarrow> ztree" where
  "replaceIcoClass S n newName z =
     (let i = elem_id z n ''_ico''
      in if zn_isAjaxing (zt_heap z n) then z
         else case br_class S (zt_log z) i of
                None \<Rightarrow> z
              | Some tmpName \<Rightarrow>
                  let tmpList = split_on (CHR ''_'') tmpName;
                      tmpList = (if newName \<in> {''open'', ''close'', ''docu''} then put_part (length tmpList - 1) newName tmpList else tmpList)
                  in zemit (Set_Attr i ''class'' (join_with ''_'' tmpList)) z)"

definition replaceSwitchClass :: "zsetting \<Rightarrow> nid \<Rightarrow> string \<Rightarrow> ztree \<Rightarrow> ztree" where
  "replaceSwitchClass S n newName z =
     (let i = elem_id z n ''_switch''
      in case br_class S (zt_log z) i of
           None \<Rightarrow> z
         | Some tmpName \<Rightarrow>
             let tmpList = split_on (CHR ''_'') tmpName;
                 tmpList = (if newName \<in> {''root'', ''roots'', ''center'', ''bottom'', ''noline''}
                            then put_part 0 (makeNodeLineClassEx z n @ newName) tmpList
                            else if newName \<in> {''open'', ''close'', ''docu''} then put_part 1 newName tmpList
                            else tmpList);
                 z = zemit (Set_Attr i ''class'' (join_with ''_'' tmpList)) z
             in zemit (if newName \<noteq> ''docu'' then Remove_Attr i ''disabled'' else Set_Attr i ''disabled'' ''disabled'') z)"

definition setNodeLineIcos :: "zsetting \<Rightarrow> nid \<Rightarrow> ztree \<Rightarrow> ztree" where
  "setNodeLineIcos S n z =
     (let sw = elem_id z n ''_switch''; ul = elem_id z n ''_ul''; ico = elem_id z n ''_ico'';
          ulLine = makeUlLineClass S z n;
          z = zemit (if ulLine = '''' then Remove_Class ul ''line'' else Add_Class ul ulLine) z;
          z = zemit (Set_Attr sw ''class'' (makeNodeLineClass S z n)) z;
          (par, z) = nodeIsParent n z;
          z = zemit (if par then Remove_Attr sw ''disabled'' else Set_Attr sw ''disabled'' ''disabled'') z;
          z = zemit (Remove_Attr ico ''style'') z;
          z = zemit (Set_Attr ico ''style'' (makeNodeIcoStyle S z n)) z
      in zemit (Set_Attr ico ''class'' (makeNodeIcoClass S z n)) z)"

definition setNodeName :: "zsetting \<Rightarrow> nid \<Rightarrow> ztree \<Rightarrow> ztree" where
  "setNodeName S n z =
     (let title = nodeTitle S z n;
          z = zemit (Empty_Elem (elem_id z n ''_span'')) z;
          z = zemit ((if zs_nameIsHTML S then Set_Html else Set_Text) (elem_id z n ''_span'') (nodeName S z n)) z
      in if zs_showTitle S z n then zemit (Set_Attr (elem_id z n ''_a'') ''title'' title) z else z)"

definition setNodeTarget :: "nid \<Rightarrow> ztree \<Rightarrow> ztree" where
  "setNodeTarget n z = zemit (Set_Attr (elem_id z n ''_a'') ''target'' (makeNodeTarget z n)) z"

definition setNodeUrl :: "zsetting \<Rightarrow> nid \<Rightarrow> ztree \<Rightarrow> ztree" where
  "setNodeUrl S n z =
     zemit (case makeNodeUrl S z n of None \<Rightarrow> Remove_Attr (elem_id z n ''_a'') ''href''
            | Some u \<Rightarrow> Set_Attr (elem_id z n ''_a'') ''href'' u) z"

definition setNodeFontCss :: "zsetting \<Rightarrow> nid \<Rightarrow> ztree \<Rightarrow> ztree" where
  "setNodeFontCss S n z = zemit (Css_Map (elem_id z n ''_a'') (zs_fontCss S z n)) z"

section \<open>Adding nodes\<close>

definition addNodesData :: "zsetting \<Rightarrow> nid \<Rightarrow> int \<Rightarrow> nid list \<Rightarrow> ztree \<Rightarrow> ztree" where
  "addNodesData S p index nodes z =
     (let (children, index, z) =
            (case nodeChildren z p of
               None \<Rightarrow> ([], -1, set_children p (Some []) z)
             | Some cs \<Rightarrow> (cs, if int (length cs) \<le> index then -1 else index, z));
          z = (if children \<noteq> [] \<and> index = 0
               then setNodeLineIcos S (hd children) (upd_node (hd children) (zn_first_update (\<lambda>_. False)) z)
               else if children \<noteq> [] \<and> index < 0
               then setNodeLineIcos S (last children) (upd_node (last children) (zn_last_update (\<lambda>_. False)) z)
               else z);
          z = set_isParent p True z
      in set_children p (Some (if index < 0 then children @ nodes
                               else take (nat index) children @ nodes @ drop (nat index) children)) z)"

definition child_list :: "ztree \<Rightarrow> nid \<Rightarrow> nid list" where
  "child_list z n = (case nodeChildren z n of None \<Rightarrow> [] | Some cs \<Rightarrow> cs)"

text \<open>
  What happens to one node of the list, the i-th: its fields, its children, its markup; then the
  loop over the nodes. \<open>rec\<close> is the call for the children.
\<close>

definition append_one ::
  "(nid list \<Rightarrow> nid \<Rightarrow> bool \<Rightarrow> ztree \<Rightarrow> (string \<times> ztree) option) \<Rightarrow> zsetting \<Rightarrow> nat \<Rightarrow> nid option \<Rightarrow> (nat \<Rightarrow> bool) \<Rightarrow> (nat \<Rightarrow> bool) \<Rightarrow>
    bool \<Rightarrow> bool \<Rightarrow> nat \<times> nid \<Rightarrow> string \<times> ztree \<Rightarrow> (string \<times> ztree) option" where
  "append_one rec S level parentNode isFirstNode isLastNode initFlag openFlag = (\<lambda>(i, node) (html, z).
     Option.bind
       (if initFlag then
          map_option (addNodeCache node) (initNode S level node parentNode (isFirstNode i) (isLastNode i) z)
        else Some z) (\<lambda>z.
     let (par, z) = nodeIsParent node z in
     Option.bind
       (if child_list z node \<noteq> [] then rec (child_list z node) node (openFlag \<and> is_open z node) z
        else Some ('''', z)) (\<lambda>(childHtml, z).
       Some (if openFlag then (html @ node_html S z node par childHtml, addCreatedNode S node z)
             else (html, z)))))"

fun appendNodes :: "nat \<Rightarrow> zsetting \<Rightarrow> nat \<Rightarrow> nid list \<Rightarrow> nid option \<Rightarrow> int \<Rightarrow> bool \<Rightarrow> bool \<Rightarrow> ztree \<Rightarrow> (string \<times> ztree) option" where
  "appendNodes 0 S level nodes parentNode index initFlag openFlag z = None"
| "appendNodes (Suc k) S level nodes parentNode index initFlag openFlag z =
     (let pn = (case parentNode of None \<Rightarrow> root | Some p \<Rightarrow> p);
          tmpPChild = nodeChildren z pn;
          count = length (child_list z pn);
          index = (if tmpPChild = None \<or> int count - int (length nodes) \<le> index then -1 else index)
      in if tmpPChild = None \<and> initFlag \<and> nodes \<noteq> [] then None
         else foldM
           (append_one (\<lambda>children node openFlag. appendNodes k S (level + 1) children (Some node) (-1) initFlag openFlag)
             S level parentNode (\<lambda>i. (index = 0 \<or> count = length nodes) \<and> i = 0)
             (\<lambda>i. index < 0 \<and> Suc i = length nodes) initFlag openFlag)
           (enumerate 0 nodes) ('''', z))"

definition createNodeCallback :: "zsetting \<Rightarrow> ztree \<Rightarrow> ztree" where
  "createNodeCallback S z =
     (if zs_on S ''onNodeCreated'' \<or> zs_addDiyDom S then
        fold (\<lambda>n z. let z = (if zs_addDiyDom S then zemit (Diy_Dom n) z else z)
                    in if zs_on S ''onNodeCreated'' then zemit (Trigger ''ztree_nodeCreated'' (Some n)) z else z)
          (zt_created z) (z\<lparr>zt_created := []\<rparr>)
      else z)"

definition createNodes :: "zsetting \<Rightarrow> nat \<Rightarrow> nid list \<Rightarrow> nid option \<Rightarrow> int \<Rightarrow> ztree \<Rightarrow> ztree option" where
  "createNodes S level nodes parentNode index z =
     (if nodes = [] then Some z
      else
        let z0 = z; z = z\<lparr>zt_created := []\<rparr>
        in Option.bind
             (case parentNode of
                None \<Rightarrow> Some True
              | Some p \<Rightarrow>
                  if is_open z0 p then Some True
                  else case child_list z0 p of [] \<Rightarrow> None | c # cs \<Rightarrow> Some (br_has S (zt_log z0) (elem_id z0 c ''''))) (\<lambda>openFlag.
           Option.bind (appendNodes (zt_next z + 1) S level nodes parentNode index True openFlag z) (\<lambda>(zTreeHtml, z).
           let parentObj = (case parentNode of None \<Rightarrow> Some (zs_treeId S)
                 | Some p \<Rightarrow> if br_has S (zt_log z) (elem_id z p ''_ul'') then Some (elem_id z p ''_ul'') else None);
               z = (case parentObj of None \<Rightarrow> z
                    | Some e \<Rightarrow>
                        if 0 \<le> index \<and> index < int (br_count S (zt_log z) e)
                        then zemit (Insert_Before e (nat index) zTreeHtml) z
                        else zemit (Append e zTreeHtml) z)
           in Some (createNodeCallback S z))))"

fun appendParentULDom :: "nat \<Rightarrow> zsetting \<Rightarrow> nid \<Rightarrow> ztree \<Rightarrow> ztree option" where
  "appendParentULDom 0 S n z = None"
| "appendParentULDom (Suc k) S n z =
     Option.bind
       (if \<not> br_has S (zt_log z) (elem_id z n '''') \<and> truthy (zn_parentTId (zt_heap z n))
        then (case getParentNode z n of None \<Rightarrow> None | Some p \<Rightarrow> appendParentULDom k S p z)
        else Some z) (\<lambda>z.
     let z = (if br_has S (zt_log z) (elem_id z n ''_ul'') then zemit (Remove_Elem (elem_id z n ''_ul'')) z else z)
     in Option.bind (appendNodes (zt_next z + 1) S (zn_level (zt_heap z n) + 1) (child_list z n) (Some n) (-1) False True z)
          (\<lambda>(childHtml, z). Some (zemit (Append (elem_id z n '''') (makeUlHtml S z n childHtml)) z)))"

end
