(* ===== verification/ZTree_Ops.thy ===== *)
theory ZTree_Ops
  imports ZTree_View "HOL-Library.AList"
begin

text \<open>
  Opening and closing, adding and removing nodes, loading them from the server and selecting them:
  the rest of the \<open>view\<close> object of jquery.ztree.core.js. A request for nodes is pending until one of
  the two handlers of its answer runs.
\<close>

section \<open>Opening and closing\<close>

definition scrollIntoView :: "zsetting \<Rightarrow> nid \<Rightarrow> ztree \<Rightarrow> ztree" where
  \<comment> \<open>nothing without an element; the scrolling is the browser's\<close>
  "scrollIntoView S n z =
     (if br_has S (zt_log z) (elem_id z n '''') then zemit (Scroll_To (elem_id z n '''')) z else z)"

fun run_callback_of :: "zsetting \<Rightarrow> zcallback \<Rightarrow> ztree \<Rightarrow> ztree" where
  "run_callback_of S No_Cb z = z"
| "run_callback_of S (Focus_Node n wanted) z = (if wanted then scrollIntoView S n z else z)"
| "run_callback_of S (Then_Trigger cb n) z =
     (let z = run_callback_of S cb z
      in zemit (Trigger (if is_open z n then ''ztree_expand'' else ''ztree_collapse'') (Some n)) z)"

definition show_children :: "zsetting \<Rightarrow> nid \<Rightarrow> bool \<Rightarrow> zcallback \<Rightarrow> ztree \<Rightarrow> ztree" where
  \<comment> \<open>the part of \<open>expandCollapseNode\<close> that toggles a parent\<close>
  "show_children S n animateFlag cb z =
     (let z = set_open n (\<not> is_open z n) z;
          z = (if truthy (attr z n ''iconOpen'') \<and> truthy (attr z n ''iconClose'')
               then zemit (Set_Attr (elem_id z n ''_ico'') ''style'' (makeNodeIcoStyle S z n)) z else z);
          ul = elem_id z n ''_ul'';
          still = (\<not> animateFlag \<or> zs_expandSpeed S = '''' \<or> child_list z n = [])
      in if is_open z n then
           (let z = replaceIcoClass S n ''open'' (replaceSwitchClass S n ''open'' z)
            in if still then run_callback_of S cb (zemit (Show_Elem ul) z)
               else zemit (Slide_Down ul (zs_expandSpeed S) cb) z)
         else
           (let z = replaceIcoClass S n ''close'' (replaceSwitchClass S n ''close'' z)
            in if still then run_callback_of S cb (zemit (Hide_Elem ul) z)
               else zemit (Slide_Up ul (zs_expandSpeed S) cb) z))"

definition expandCollapseNode :: "zsetting \<Rightarrow> nid option \<Rightarrow> bool \<Rightarrow> bool \<Rightarrow> zcallback \<Rightarrow> ztree \<Rightarrow> ztree option" where
  "expandCollapseNode S node expandFlag animateFlag cb z =
     (case node of
        None \<Rightarrow> Some (run_callback_of S cb z)
      | Some n \<Rightarrow>
          let (par, z) = nodeIsParent n z;
              (cb, z) = (if zt_expandTrigger z then (Then_Trigger cb n, z\<lparr>zt_expandTrigger := False\<rparr>) else (cb, z))
          in Option.bind
               (if \<not> is_open z n \<and> par \<and>
                   (\<not> br_has S (zt_log z) (elem_id z n ''_ul'') \<or>
                    child_list z n \<noteq> [] \<and> \<not> br_has S (zt_log z) (elem_id z (hd (child_list z n)) ''''))
                then map_option (createNodeCallback S) (appendParentULDom (zt_next z + 1) S n z)
                else Some z) (\<lambda>z.
             if zn_open (zt_heap z n) = FBool expandFlag then Some (run_callback_of S cb z)
             else if par then Some (show_children S n animateFlag cb z)
             else Some (run_callback_of S cb z)))"

fun expandCollapseParentNode :: "nat \<Rightarrow> zsetting \<Rightarrow> nid option \<Rightarrow> bool \<Rightarrow> bool \<Rightarrow> zcallback \<Rightarrow> ztree \<Rightarrow> ztree option" where
  "expandCollapseParentNode 0 S node expandFlag animateFlag cb z = None"
| "expandCollapseParentNode (Suc k) S node expandFlag animateFlag cb z =
     (case node of
        None \<Rightarrow> Some z
      | Some n \<Rightarrow>
          if \<not> truthy (zn_parentTId (zt_heap z n)) then expandCollapseNode S node expandFlag animateFlag cb z
          else Option.bind (expandCollapseNode S node expandFlag animateFlag No_Cb z) (\<lambda>z.
                 expandCollapseParentNode k S (getParentNode z n) expandFlag animateFlag cb z))"

fun expandCollapseSonNode :: "nat \<Rightarrow> zsetting \<Rightarrow> nid option \<Rightarrow> bool \<Rightarrow> bool \<Rightarrow> zcallback \<Rightarrow> ztree \<Rightarrow> ztree option" where
  "expandCollapseSonNode 0 S node expandFlag animateFlag cb z = None"
| "expandCollapseSonNode (Suc k) S node expandFlag animateFlag cb z =
     (let treeNodes = child_list z (case node of None \<Rightarrow> root | Some n \<Rightarrow> n);
          selfAnimateSign = (case node of None \<Rightarrow> animateFlag | Some n \<Rightarrow> False);
          flag = zt_expandTrigger z
      in Option.bind
           (foldM (\<lambda>c. expandCollapseSonNode k S (Some c) expandFlag selfAnimateSign No_Cb) treeNodes
             (z\<lparr>zt_expandTrigger := False\<rparr>)) (\<lambda>z.
         expandCollapseNode S node expandFlag animateFlag cb (z\<lparr>zt_expandTrigger := flag\<rparr>)))"

section \<open>Adding\<close>

definition addNodes :: "zsetting \<Rightarrow> nid option \<Rightarrow> int \<Rightarrow> nid list \<Rightarrow> bool \<Rightarrow> ztree \<Rightarrow> ztree option" where
  "addNodes S parentNode index newNodes isSilent z =
     (case parentNode of
        None \<Rightarrow>
          let (newNodes, z) = (if zs_simple S then transformTozTreeFormat S newNodes z else (newNodes, z))
          in createNodes S 0 newNodes None index (addNodesData S root index newNodes z)
      | Some p \<Rightarrow>
          let (par, z) = nodeIsParent p z
          in if zs_keepLeaf S \<and> \<not> par then Some z
             else
               let (newNodes, z) = (if zs_simple S then transformTozTreeFormat S newNodes z else (newNodes, z));
                   z = (if is_open z p then z
                        else zemit (Css (elem_id z p ''_ul'') ''display'' ''none'')
                               (set_open p False (replaceIcoClass S p ''close'' (replaceSwitchClass S p ''close'' z))));
                   z = addNodesData S p index newNodes z
               in Option.bind (createNodes S (zn_level (zt_heap z p) + 1) newNodes parentNode index z) (\<lambda>z.
                    if isSilent then Some z
                    else expandCollapseParentNode (zt_next z + 1) S parentNode True True No_Cb z))"

section \<open>Nodes from the server\<close>

definition canAsync :: "zsetting \<Rightarrow> nid option \<Rightarrow> ztree \<Rightarrow> bool" where
  "canAsync S node z =
     (case node of
        None \<Rightarrow> False
      | Some n \<Rightarrow> zs_async S \<and> isParent z n \<and> \<not> (zn_zAsync (zt_heap z n) \<or> child_list z n \<noteq> []))"

definition run_async_callback :: "zsetting \<Rightarrow> async_callback \<Rightarrow> ztree \<Rightarrow> ztree option" where
  "run_async_callback S cb z =
     (case cb of
        No_Async_Cb \<Rightarrow> Some z
      | User_Cb f \<Rightarrow> Some (zemit (Call_User f) z)
      | Add_Nodes parentNode index nodes isSilent \<Rightarrow> addNodes S parentNode index nodes isSilent z)"

definition param_of :: "ztree \<Rightarrow> nid \<Rightarrow> string \<Rightarrow> string \<times> string option" where
  \<comment> \<open>an entry of \<open>autoParam\<close>: a field of the node, or a field and the name to send it under\<close>
  "param_of z n entry =
     (let field = (\<lambda>k. if k = ''level'' then Some (decimal (zn_level (zt_heap z n))) else attr z n k)
      in case split_on (CHR ''='') entry of
           pKey # spKey # others \<Rightarrow> (spKey, field pKey)
         | _ \<Rightarrow> (entry, field entry))"

definition set_params :: "(string \<times> string option) list \<Rightarrow> (string \<times> string option) list \<Rightarrow> (string \<times> string option) list" where
  \<comment> \<open>tmpParam[k] = v for each: a key that the object already has keeps its place and gets the new value\<close>
  "set_params kvs tmpParam = fold (\<lambda>(k, v). AList.update k v) kvs tmpParam"

text \<open>No key is sent twice, and the last value given for a key is the one that is sent.\<close>

lemma set_params_once: "distinct (map fst ps) \<Longrightarrow> distinct (map fst (set_params kvs ps))"
  unfolding set_params_def by (induction kvs arbitrary: ps) (auto simp: distinct_update)

lemma set_params_lookup: "map_of (set_params kvs ps) = map_of ps ++ map_of (rev kvs)"
  unfolding set_params_def by (induction kvs arbitrary: ps) (auto simp: update_conv' map_add_def fun_eq_iff split: option.splits)

definition asyncNode :: "zsetting \<Rightarrow> nid option \<Rightarrow> bool \<Rightarrow> async_callback \<Rightarrow> ztree \<Rightarrow> (bool \<times> ztree) option" where
  \<comment> \<open>whether a request was sent\<close>
  "asyncNode S node isSilent cb z =
     (let z = (case node of None \<Rightarrow> z | Some n \<Rightarrow> snd (nodeIsParent n z));
          refused = map_option (Pair False) (run_async_callback S cb z)
      in if (case node of None \<Rightarrow> False | Some n \<Rightarrow> \<not> isParent z n) then refused
         else if (case node of None \<Rightarrow> False | Some n \<Rightarrow> zn_isAjaxing (zt_heap z n)) then Some (False, z)
         else if \<not> may S ''beforeAsync'' node z then refused
         else
           let z = (case node of
                      None \<Rightarrow> z
                    | Some n \<Rightarrow>
                        let z = upd_node n (zn_isAjaxing_update (\<lambda>_. True)) z;
                            ico = elem_id z n ''_ico''
                        in zemit (Set_Attr ico ''class'' ''button ico_loading'') (zemit (Set_Attr ico ''style'' '''') z));
               tmpParam = set_params (case node of None \<Rightarrow> [] | Some n \<Rightarrow> map (param_of z n) (zs_autoParam S)) [];
               tmpParam = set_params (map (\<lambda>(k, v). (k, Some v)) (zs_otherParam S)) tmpParam;
               z = zemit (Ajax node tmpParam) z
           in Some (True, z\<lparr>zt_pending := zt_pending z @
                [\<lparr>zr_node = node, zr_silent = isSilent, zr_callback = cb, zr_ver = zt_ver z\<rparr>]\<rparr>))"

definition async_success :: "zsetting \<Rightarrow> zrequest \<Rightarrow> jnode list \<Rightarrow> ztree \<Rightarrow> ztree option" where
  \<comment> \<open>the nodes of the evaluated answer, none when it is empty\<close>
  "async_success S r newNodes z =
     (if zr_ver r \<noteq> zt_ver z then Some z
      else
        let z = (case zr_node r of
                   None \<Rightarrow> z
                 | Some n \<Rightarrow> setNodeLineIcos S n
                     (upd_node n (\<lambda>v. v\<lparr>zn_isAjaxing := False, zn_zAsync := True\<rparr>) z));
            (nodes, z) = clone_nodes (zs_dataFilter S newNodes) z
        in Option.bind (addNodes S (zr_node r) (-1) nodes (zr_silent r) z) (\<lambda>z.
             run_async_callback S (zr_callback r) (zemit (Trigger ''ztree_async_success'' (zr_node r)) z)))"

definition async_error :: "zsetting \<Rightarrow> zrequest \<Rightarrow> ztree \<Rightarrow> ztree" where
  "async_error S r z =
     (if zr_ver r \<noteq> zt_ver z then z
      else
        let z = (case zr_node r of
                   None \<Rightarrow> z
                 | Some n \<Rightarrow> setNodeLineIcos S n (upd_node n (zn_isAjaxing_update (\<lambda>_. False)) z))
        in zemit (Trigger ''ztree_async_error'' (zr_node r)) z)"

definition switchNode :: "zsetting \<Rightarrow> nid \<Rightarrow> ztree \<Rightarrow> ztree option" where
  "switchNode S n z =
     (let toggle = (\<lambda>z. expandCollapseNode S (Some n) (\<not> is_open z n) True No_Cb z)
      in if is_open z n \<or> \<not> canAsync S (Some n) z then toggle z
         else if zs_async S then
           Option.bind (asyncNode S (Some n) False No_Async_Cb z) (\<lambda>(sent, z). if sent then Some z else toggle z)
         else toggle z)"

section \<open>Selecting\<close>

fun cancel_from :: "zsetting \<Rightarrow> nid option \<Rightarrow> nid option \<Rightarrow> nat \<Rightarrow> ztree \<Rightarrow> ztree" where
  \<comment> \<open>the loop of \<open>cancelPreSelectedNode\<close>, from the last selected node down\<close>
  "cancel_from S node excludeNode 0 z = z"
| "cancel_from S node excludeNode (Suc i) z =
     (let n = zt_selected z ! i
      in if node = Some n \<or> node = None \<and> excludeNode \<noteq> Some n then
           (let z = zemit (Remove_Class (elem_id z n ''_a'') ''curSelectedNode'') z
            in case node of
                 Some m \<Rightarrow> removeSelectedNode (Some m) z
               | None \<Rightarrow> cancel_from S node excludeNode i
                   (zemit (Trigger ''ztree_unselected'' (Some n))
                     (z\<lparr>zt_selected := take i (zt_selected z) @ drop (Suc i) (zt_selected z)\<rparr>)))
         else cancel_from S node excludeNode i z)"

definition cancelPreSelectedNode :: "zsetting \<Rightarrow> nid option \<Rightarrow> nid option \<Rightarrow> ztree \<Rightarrow> ztree" where
  "cancelPreSelectedNode S node excludeNode z = cancel_from S node excludeNode (length (zt_selected z)) z"

definition selectNode :: "zsetting \<Rightarrow> nid \<Rightarrow> bool \<Rightarrow> ztree \<Rightarrow> ztree" where
  "selectNode S n addFlag z =
     (let z = (if addFlag then z else cancelPreSelectedNode S None (Some n) z);
          z = zemit (Add_Class (elem_id z n ''_a'') ''curSelectedNode'') z
      in zemit (Trigger ''ztree_selected'' (Some n)) (addSelectedNode n z))"

section \<open>Removing\<close>

definition removeChildNodes :: "zsetting \<Rightarrow> nid \<Rightarrow> ztree \<Rightarrow> ztree option" where
  "removeChildNodes S n z =
     (case nodeChildren z n of
        None \<Rightarrow> Some z
      | Some nodes \<Rightarrow>
          Option.bind (foldM (removeNodeCache (zt_next z + 1)) nodes z) (\<lambda>z.
            let z = set_children n None (removeSelectedNode None z)
            in Some (if zs_keepParent S then zemit (Empty_Elem (elem_id z n ''_ul'')) z
                     else
                       let z = set_open n False (set_isParent n False z);
                           z = replaceIcoClass S n ''docu'' (replaceSwitchClass S n ''docu'' z)
                       in zemit (Remove_Elem (elem_id z n ''_ul'')) z)))"

definition setFirstNode :: "nid \<Rightarrow> ztree \<Rightarrow> ztree" where
  "setFirstNode p z = (case child_list z p of [] \<Rightarrow> z | c # cs \<Rightarrow> upd_node c (zn_first_update (\<lambda>_. True)) z)"

definition setLastNode :: "nid \<Rightarrow> ztree \<Rightarrow> ztree" where
  "setLastNode p z = (case child_list z p of [] \<Rightarrow> z | c # cs \<Rightarrow> upd_node (last (c # cs)) (zn_last_update (\<lambda>_. True)) z)"

fun remove_first :: "('a \<Rightarrow> bool) \<Rightarrow> 'a list \<Rightarrow> 'a list" where
  "remove_first P [] = []"
| "remove_first P (x # xs) = (if P x then xs else x # remove_first P xs)"

definition repair_parent :: "zsetting \<Rightarrow> nid \<Rightarrow> ztree \<Rightarrow> ztree" where
  \<comment> \<open>the last part of \<open>removeNode\<close>: the icons of the old parent or of its new last child\<close>
  "repair_parent S p z =
     (let children = child_list z p
      in if \<not> zs_keepParent S \<and> children = [] then
           (let z = set_children p None (set_open p False (set_isParent p False z));
                z = replaceIcoClass S p ''docu'' (replaceSwitchClass S p ''docu'' z)
            in zemit (Css (elem_id z p ''_ul'') ''display'' ''none'') z)
         else if zs_showLine S \<and> children \<noteq> [] then
           (let newLast = last children;
                z = (if p = root then
                       (if length children = 1 then replaceSwitchClass S newLast ''root'' z
                        else replaceSwitchClass S newLast ''bottom'' (replaceSwitchClass S (hd children) ''roots'' z))
                     else replaceSwitchClass S newLast ''bottom'' z)
            in zemit (Remove_Class (elem_id z newLast ''_ul'') ''line'') z)
         else z)"

definition removeNode :: "zsetting \<Rightarrow> nid \<Rightarrow> ztree \<Rightarrow> ztree option" where
  "removeNode S n z =
     (let parentNode = parent_of z n;
          z = upd_node n (\<lambda>v. v\<lparr>zn_first := False, zn_last := False, zn_detached := True\<rparr>) z
      in if getNodeCache z (zn_tId (zt_heap z n)) = None then Some z
         else
           Option.bind (removeNodeCache (zt_next z + 1) n (zemit (Remove_Elem (elem_id z n '''')) z)) (\<lambda>z.
           let z = removeSelectedNode (Some n) z in
           Option.bind parentNode (\<lambda>p.
           Option.bind (nodeChildren z p) (\<lambda>children.
             let tId = zn_tId (zt_heap z n);
                 z = set_children p (Some (remove_first (\<lambda>c. zn_tId (zt_heap z c) = tId) children)) z
             in Some (repair_parent S p (setLastNode p (setFirstNode p z)))))))"

end
