(* ===== verification/ZTree_Tools.thy ===== *)
theory ZTree_Tools
  imports ZTree_Ops
begin

text \<open>
  The event handlers of zTree, the operations a page calls on the tree object (\<open>zTreeTools\<close>) and its
  creation (\<open>$.fn.zTree.init\<close>), in jquery.ztree.core.js.
\<close>

section \<open>Events\<close>

text \<open>
  A mouse event over the tree: its type, the id of the node whose switch is the target, the id of
  the node whose link contains the target, and whether the control or meta key is down.
\<close>

record zevent =
  ev_type :: string
  ev_switch :: "string option"
  ev_link :: "string option"
  ev_ctrl :: bool

datatype node_event = No_Node_Event | Switch_Event | Click_Event

definition eventProxy :: "zsetting \<Rightarrow> zevent \<Rightarrow> ztree \<Rightarrow> nid option \<times> node_event \<times> ztree" where
  "eventProxy S ev z =
     (let (tId, kind) =
            (if ev_type ev = ''click'' then
               (if ev_switch ev \<noteq> None then (ev_switch ev, Switch_Event)
                else if ev_link ev \<noteq> None then (ev_link ev, Click_Event) else (None, No_Node_Event))
             else if ev_type ev = ''dblclick'' then
               (if ev_link ev \<noteq> None then (ev_link ev, Switch_Event) else (None, No_Node_Event))
             else (None, No_Node_Event));
          tId = (if ev_type ev \<in> {''mousedown'', ''mouseup'', ''contextmenu'', ''dblclick''} \<and> tId = None then ev_link ev else tId);
          node = getNodeCache z tId
      in if \<not> truthy tId then (None, No_Node_Event, z)
         else if kind = Switch_Event then
           (case node of
              None \<Rightarrow> (node, No_Node_Event, z)
            | Some n \<Rightarrow>
                let (par, z) = nodeIsParent n z
                in if par \<and> (ev_type ev = ''click'' \<or> zs_dblClickExpand S z n) then (node, Switch_Event, z)
                   else (node, No_Node_Event, z))
         else (node, kind, z))"

definition onSwitchNode :: "zsetting \<Rightarrow> nid \<Rightarrow> ztree \<Rightarrow> ztree option" where
  "onSwitchNode S n z =
     (if \<not> may S (if is_open z n then ''beforeCollapse'' else ''beforeExpand'') (Some n) z then Some z
      else switchNode S n (z\<lparr>zt_expandTrigger := True\<rparr>))"

definition click_flag :: "zsetting \<Rightarrow> bool \<Rightarrow> nid \<Rightarrow> ztree \<Rightarrow> nat" where
  "click_flag S ctrl n z =
     (if zs_autoCancelSelected S \<and> ctrl \<and> isSelectedNode z n then 0
      else if zs_autoCancelSelected S \<and> ctrl \<and> zs_selectedMulti S then 2 else 1)"

definition onClickNode :: "zsetting \<Rightarrow> bool \<Rightarrow> nid \<Rightarrow> ztree \<Rightarrow> ztree" where
  "onClickNode S ctrl n z =
     (let clickFlag = click_flag S ctrl n z
      in if \<not> may S ''beforeClick'' (Some n) z then z
         else
           let z = (if clickFlag = 0 then cancelPreSelectedNode S (Some n) None z
                    else selectNode S n (clickFlag = 2) z)
           in zemit (Trigger ''ztree_click'' (Some n)) z)"

definition call_user :: "zsetting \<Rightarrow> string \<Rightarrow> ztree \<Rightarrow> ztree" where
  "call_user S f z = (if zs_on S f then zemit (Call_User f) z else z)"

definition onTreeEvent :: "zsetting \<Rightarrow> string \<Rightarrow> nid option \<Rightarrow> ztree \<Rightarrow> ztree" where
  \<comment> \<open>onZTreeMousedown, onZTreeMouseup, onZTreeDblclick, onZTreeContextmenu\<close>
  "onTreeEvent S ty node z =
     (if ty = ''mousedown'' then (if may S ''beforeMouseDown'' node z then call_user S ''onMouseDown'' z else z)
      else if ty = ''mouseup'' then (if may S ''beforeMouseUp'' node z then call_user S ''onMouseUp'' z else z)
      else if ty = ''dblclick'' then (if may S ''beforeDblClick'' node z then call_user S ''onDblClick'' z else z)
      else if ty = ''contextmenu'' then (if may S ''beforeRightClick'' node z then call_user S ''onRightClick'' z else z)
      else z)"

definition proxy :: "zsetting \<Rightarrow> zevent \<Rightarrow> ztree \<Rightarrow> ztree option" where
  "proxy S ev z =
     (let (node, kind, z) = eventProxy S ev z
      in Option.bind
           (case kind of
              No_Node_Event \<Rightarrow> Some z
            | Switch_Event \<Rightarrow> (case node of None \<Rightarrow> None | Some n \<Rightarrow> onSwitchNode S n z)
            | Click_Event \<Rightarrow> (case node of None \<Rightarrow> None | Some n \<Rightarrow> Some (onClickNode S (ev_ctrl ev) n z))) (\<lambda>z.
         Some (onTreeEvent S (ev_type ev) node z)))"

section \<open>Creation\<close>

definition initRoot :: "int \<Rightarrow> ztree \<Rightarrow> ztree" where
  \<comment> \<open>at the time \<open>now\<close>\<close>
  "initRoot now z =
     (set_children root (Some []) z)\<lparr>zt_expandTrigger := False, zt_selected := [], zt_created := [], zt_zId := 0, zt_ver := now\<rparr>"

definition initCache :: "ztree \<Rightarrow> ztree" where
  "initCache z = z\<lparr>zt_cache := Map.empty\<rparr>"

definition tree_events :: "string list" where
  "tree_events = [''click'', ''dblclick'', ''mouseover'', ''mouseout'', ''mousedown'', ''mouseup'', ''contextmenu'']"

definition bindTree :: "zsetting \<Rightarrow> ztree \<Rightarrow> ztree" where
  "bindTree S z =
     fold (\<lambda>e. zemit (Bind e)) tree_events
       (if zs_txtSelectedEnable S then z
        else zemit (Css (zs_treeId S) ''-moz-user-select'' ''-moz-none'') (zemit (Bind ''selectstart'') z))"

definition unbindTree :: "ztree \<Rightarrow> ztree" where
  "unbindTree z = fold (\<lambda>e. zemit (Unbind e)) (''selectstart'' # tree_events) z"

definition callback_events :: "string list" where
  "callback_events =
     [''ztree_nodeCreated'', ''ztree_click'', ''ztree_expand'', ''ztree_collapse'', ''ztree_async_success'',
      ''ztree_async_error'', ''ztree_remove'', ''ztree_selected'', ''ztree_unselected'']"

definition bindEvent :: "ztree \<Rightarrow> ztree" where
  "bindEvent z = fold (\<lambda>e. zemit (Bind e)) callback_events z"

definition unbindEvent :: "ztree \<Rightarrow> ztree" where
  "unbindEvent z = fold (\<lambda>e. zemit (Unbind e)) callback_events z"

definition new_ztree :: ztree where
  \<comment> \<open>before the first tree: only the root object\<close>
  "new_ztree =
     \<lparr>zt_heap = (\<lambda>_. blank_node), zt_next = 1, zt_cache = Map.empty, zt_expandTrigger = False, zt_selected = [],
      zt_created = [], zt_zId = 0, zt_ver = 0, zt_pending = [], zt_log = []\<rparr>"

definition zTree_init :: "zsetting \<Rightarrow> jnode list \<Rightarrow> int \<Rightarrow> ztree \<Rightarrow> ztree option" where
  "zTree_init S zNodes now z =
     (let z = initRoot now (zemit (Empty_Elem (zs_treeId S)) z);
          (zNodes, z) = clone_nodes zNodes z;
          (zNodes, z) = (if zs_simple S then transformTozTreeFormat S zNodes z else (zNodes, z));
          z = set_children root (Some zNodes) z;
          z = bindEvent (unbindEvent (bindTree S (unbindTree (initCache z))))
      in if zNodes \<noteq> [] then createNodes S 0 zNodes None (-1) z
         else if zs_async S \<and> zs_asyncUrl S \<noteq> '''' then map_option snd (asyncNode S None False No_Async_Cb z)
         else Some z)"

definition destroy :: "zsetting \<Rightarrow> int \<Rightarrow> ztree \<Rightarrow> ztree" where
  "destroy S now z = zemit (Empty_Elem (zs_treeId S)) (unbindEvent (unbindTree (initRoot now (initCache z))))"

section \<open>The tree object\<close>

definition tool_addNodes :: "zsetting \<Rightarrow> nid option \<Rightarrow> int option \<Rightarrow> jnode list \<Rightarrow> bool \<Rightarrow> ztree \<Rightarrow> (nid list option \<times> ztree) option" where
  \<comment> \<open>\<open>None\<close> as \<open>index\<close>: the call without an index\<close>
  "tool_addNodes S parentNode index newNodes isSilent z =
     (let z = (case parentNode of None \<Rightarrow> z | Some p \<Rightarrow> snd (nodeIsParent p z))
      in if (case parentNode of None \<Rightarrow> False | Some p \<Rightarrow> \<not> isParent z p \<and> zs_keepLeaf S) then Some (None, z)
         else
           let i = (case index of None \<Rightarrow> -1 | Some i \<Rightarrow> i);
               (xNewNodes, z) = clone_nodes newNodes z
           in map_option (Pair (Some xNewNodes))
                (if canAsync S parentNode z
                 then map_option snd (asyncNode S parentNode isSilent (Add_Nodes parentNode i xNewNodes isSilent) z)
                 else addNodes S parentNode i xNewNodes isSilent z))"

definition tool_cancelSelectedNode :: "zsetting \<Rightarrow> nid option \<Rightarrow> ztree \<Rightarrow> ztree" where
  "tool_cancelSelectedNode S node z = cancelPreSelectedNode S node None z"

definition tool_expandAll :: "zsetting \<Rightarrow> bool \<Rightarrow> ztree \<Rightarrow> ztree option" where
  "tool_expandAll S expandFlag z = expandCollapseSonNode (zt_next z + 1) S None expandFlag True No_Cb z"

definition tool_expandNode :: "zsetting \<Rightarrow> nid \<Rightarrow> bool option \<Rightarrow> bool \<Rightarrow> bool \<Rightarrow> bool \<Rightarrow> ztree \<Rightarrow> (bool option \<times> ztree) option" where
  "tool_expandNode S n flag sonSign focus callbackFlag z =
     (let (par, z) = nodeIsParent n z;
          expandFlag = (case flag of None \<Rightarrow> \<not> is_open z n | Some b \<Rightarrow> b)
      in if \<not> par then Some (None, z)
         else if callbackFlag \<and> \<not> may S (if expandFlag then ''beforeExpand'' else ''beforeCollapse'') (Some n) z then Some (None, z)
         else
           Option.bind
             (if expandFlag \<and> truthy (zn_parentTId (zt_heap z n))
              then expandCollapseParentNode (zt_next z + 1) S (getParentNode z n) expandFlag False No_Cb z else Some z) (\<lambda>z.
           if zn_open (zt_heap z n) = FBool expandFlag \<and> \<not> sonSign then Some (None, z)
           else
             let z = z\<lparr>zt_expandTrigger := callbackFlag\<rparr>
             in map_option (Pair (Some expandFlag))
                  (if \<not> canAsync S (Some n) z \<and> sonSign
                   then expandCollapseSonNode (zt_next z + 1) S (Some n) expandFlag True (Focus_Node n focus) z
                   else map_option (run_callback_of S (Focus_Node n focus)) (switchNode S n (set_open n (\<not> expandFlag) z)))))"

definition tool_getNodes :: "ztree \<Rightarrow> nid list option" where
  "tool_getNodes z = nodeChildren z root"

definition start_nodes :: "ztree \<Rightarrow> nid option \<Rightarrow> nid list" where
  \<comment> \<open>where a search starts\<close>
  "start_nodes z parentNode = child_list z (case parentNode of None \<Rightarrow> root | Some p \<Rightarrow> p)"

definition tool_getNodeByTId :: "ztree \<Rightarrow> string option \<Rightarrow> nid option" where
  "tool_getNodeByTId z tId = getNodeCache z tId"

definition tool_getNodeByParam :: "ztree \<Rightarrow> string \<Rightarrow> string option \<Rightarrow> nid option \<Rightarrow> nid option option" where
  "tool_getNodeByParam z key v parentNode =
     (if key = '''' then Some None else getNodeByParam (zt_next z + 1) z (start_nodes z parentNode) key v)"

text \<open>An empty key gives null, the inner \<open>None\<close>.\<close>

definition tool_getNodesByParam :: "ztree \<Rightarrow> string \<Rightarrow> string option \<Rightarrow> nid option \<Rightarrow> nid list option option" where
  "tool_getNodesByParam z key v parentNode =
     (if key = '''' then Some None
      else map_option Some (getNodesByParam (zt_next z + 1) z (start_nodes z parentNode) key v))"

definition tool_getNodesByParamFuzzy :: "ztree \<Rightarrow> string \<Rightarrow> string \<Rightarrow> nid option \<Rightarrow> nid list option option" where
  "tool_getNodesByParamFuzzy z key v parentNode =
     (if key = '''' then Some None
      else map_option Some (getNodesByParamFuzzy (zt_next z + 1) z (start_nodes z parentNode) key v))"

definition tool_getNodesByFilter :: "ztree \<Rightarrow> (nid \<Rightarrow> bool) \<Rightarrow> bool \<Rightarrow> nid option \<Rightarrow> nid list option" where
  "tool_getNodesByFilter z f isSingle parentNode =
     getNodesByFilter (zt_next z + 1) z (start_nodes z parentNode) f isSingle"

definition tool_getNodeIndex :: "ztree \<Rightarrow> nid \<Rightarrow> int option" where
  "tool_getNodeIndex z n =
     map_option (\<lambda>cs. case position n cs of None \<Rightarrow> -1 | Some i \<Rightarrow> int i) (siblings z n)"

definition tool_getSelectedNodes :: "ztree \<Rightarrow> nid list" where
  "tool_getSelectedNodes z = zt_selected z"

definition tool_reAsyncChildNodes :: "zsetting \<Rightarrow> nid option \<Rightarrow> string \<Rightarrow> bool \<Rightarrow> async_callback \<Rightarrow> ztree \<Rightarrow> ztree option" where
  "tool_reAsyncChildNodes S parentNode reloadType isSilent cb z =
     (if \<not> zs_async S then Some z
      else
        let p = (case parentNode of None \<Rightarrow> root | Some p \<Rightarrow> p)
        in Option.bind
             (if reloadType = ''refresh'' then
                Option.bind (foldM (removeNodeCache (zt_next z + 1)) (child_list z p) z) (\<lambda>z.
                  let z = set_children p (Some []) (removeSelectedNode None z)
                  in Some (zemit (Empty_Elem (case parentNode of None \<Rightarrow> zs_treeId S | Some p \<Rightarrow> elem_id z p ''_ul'')) z))
              else Some z) (\<lambda>z.
           map_option snd (asyncNode S parentNode isSilent cb z)))"

definition tool_refresh :: "zsetting \<Rightarrow> int \<Rightarrow> ztree \<Rightarrow> ztree option" where
  "tool_refresh S now z =
     (let z = zemit (Empty_Elem (zs_treeId S)) z;
          nodes = nodeChildren z root;
          z = initCache (set_children root nodes (initRoot now z))
      in createNodes S 0 (child_list z root) None (-1) z)"

definition tool_removeChildNodes :: "zsetting \<Rightarrow> nid \<Rightarrow> ztree \<Rightarrow> (nid list option \<times> ztree) option" where
  "tool_removeChildNodes S n z = map_option (Pair (nodeChildren z n)) (removeChildNodes S n z)"

definition tool_removeNode :: "zsetting \<Rightarrow> nid \<Rightarrow> bool \<Rightarrow> ztree \<Rightarrow> ztree option" where
  "tool_removeNode S n callbackFlag z =
     (if callbackFlag \<and> \<not> may S ''beforeRemove'' (Some n) z then Some z
      else map_option (\<lambda>z. if callbackFlag then zemit (Trigger ''ztree_remove'' (Some n)) z else z) (removeNode S n z))"

definition tool_selectNode :: "zsetting \<Rightarrow> nid \<Rightarrow> bool \<Rightarrow> bool \<Rightarrow> ztree \<Rightarrow> ztree option" where
  "tool_selectNode S n addFlag isSilent z =
     map_option (selectNode S n (zs_selectedMulti S \<and> addFlag))
       (if truthy (zn_parentTId (zt_heap z n))
        then expandCollapseParentNode (zt_next z + 1) S (getParentNode z n) True False (Focus_Node n (\<not> isSilent)) z
        else Some (if isSilent then z else zemit (Focus_Blur (elem_id z n '''')) z))"

definition tool_transformToArray :: "ztree \<Rightarrow> nid list \<Rightarrow> nid list option" where
  "tool_transformToArray z nodes = transformToArrayFormat (zt_next z + 1) z nodes"

definition tool_updateNode :: "zsetting \<Rightarrow> nid \<Rightarrow> ztree \<Rightarrow> ztree" where
  "tool_updateNode S n z =
     (if br_has S (zt_log z) (elem_id z n '''') then
        setNodeFontCss S n (setNodeLineIcos S n (setNodeUrl S n (setNodeTarget n (setNodeName S n z))))
      else z)"

end
