(* ===== verification/ZTree_Shape.thy ===== *)
theory ZTree_Shape
  imports ZTree_Tools
begin

text \<open>
  The tree that the objects of the heap form: a rose tree of addresses under the root object, the
  order in which the searches visit it, and the bound on the recursion, which the number of
  allocated objects exceeds.
\<close>

section \<open>Ids\<close>

fun digits_value :: "nat \<Rightarrow> string \<Rightarrow> nat" where
  "digits_value v [] = v"
| "digits_value v (c # cs) = digits_value (10 * v + (of_char c - 48)) cs"

lemma digits_value_append: "digits_value v (s @ t) = digits_value (digits_value v s) t"
  by (induction s arbitrary: v) simp_all

lemma decimal_value: "digits_value 0 (decimal n) = n"
proof (induction n rule: decimal.induct)
  case (1 n)
  then show ?case
    by (subst decimal.simps) (auto simp: digits_value_append)
qed

lemma decimal_inj: "decimal m = decimal n \<longleftrightarrow> m = n"
  using decimal_value by metis

lemma decimal_digits: "c \<in> set (decimal n) \<Longrightarrow> \<exists>d < 10. c = char_of (48 + d :: nat)"
proof (induction n rule: decimal.induct)
  case (1 n)
  have "n mod 10 < 10" by simp
  with 1 show ?case
    by (cases "n < 10") (force simp: decimal.simps [of n])+
qed

lemma decimal_no_underscore: "CHR ''_'' \<notin> set (decimal n)"
proof
  assume "CHR ''_'' \<in> set (decimal n)"
  then obtain d where d: "d < 10" "CHR ''_'' = char_of (48 + d :: nat)" using decimal_digits by blast
  then have "(of_char (CHR ''_'') :: nat) = of_char (char_of (48 + d :: nat) :: char)" by simp
  with d(1) show False by simp
qed

lemma decimal_nonempty: "decimal n \<noteq> []"
  by (subst decimal.simps) simp

definition make_tId :: "zsetting \<Rightarrow> nat \<Rightarrow> string" where
  "make_tId S k = zs_treeId S @ ''_'' @ decimal k"

lemma make_tId_inj: "make_tId S j = make_tId S k \<longleftrightarrow> j = k"
  by (simp add: make_tId_def decimal_inj)

lemma index_of_append_notin: "c \<notin> set s \<Longrightarrow> index_of c (s @ c # t) = int (length s)"
  by (induction s) (auto simp: Let_def)

lemma getNodeCacheId_make: "getNodeCacheId (make_tId S k) = decimal k"
proof -
  have "last_index_of (CHR ''_'') (make_tId S k) = int (length (zs_treeId S))"
    using index_of_append_notin [of "CHR ''_''" "rev (decimal k)" "rev (zs_treeId S)"] decimal_no_underscore [of k]
    by (simp add: last_index_of_def make_tId_def)
  then show ?thesis by (simp add: getNodeCacheId_def substring_def make_tId_def nat_add_distrib)
qed

section \<open>Trees of addresses\<close>

datatype rose = Rose (rid: nid) (subs: "rose list")

primrec nids :: "rose \<Rightarrow> nid list" where
  "nids (Rose n ts) = n # concat (map nids ts)"

primrec shape :: "ztree \<Rightarrow> rose \<Rightarrow> bool" where
  "shape z (Rose n ts) \<longleftrightarrow> child_list z n = map rid ts \<and> list_all id (map (shape z) ts)"

primrec height :: "rose \<Rightarrow> nat" where
  "height (Rose n ts) = Suc (Max (set (0 # map height ts)))"

lemma shape_simps [simp]: "shape z (Rose n ts) \<longleftrightarrow> child_list z n = map rid ts \<and> (\<forall>t \<in> set ts. shape z t)"
  by (auto simp: list_all_iff)

declare shape.simps [simp del]

lemma height_sub: "t \<in> set ts \<Longrightarrow> height t < height (Rose n ts)"
  by (simp add: less_Suc_eq_le)

lemma rid_nids: "rid t \<in> set (nids t)"
  by (cases t) simp

lemma height_bound: "height t \<le> length (nids t)"
proof (induction t)
  case (Rose n ts)
  have "length (nids t) \<le> length (concat (map nids ts))" if "t \<in> set ts" for t
    using that by (induction ts) auto
  with Rose have "\<forall>h \<in> set (map height ts). h \<le> length (concat (map nids ts))" by fastforce
  then show ?case by (auto simp: Max_le_iff)
qed

lemma sub_nodes_child_list: "sub_nodes z n = child_list z n"
  by (simp add: sub_nodes_def child_list_def)

section \<open>The order of the searches\<close>

text \<open>Every search is a filter over the nodes in the order parent before children.\<close>

definition forest_nids :: "rose list \<Rightarrow> nid list" where
  "forest_nids ts = concat (map nids ts)"

lemma forest_nids_simps [simp]:
  "forest_nids [] = []" "forest_nids (Rose n us # ts) = n # forest_nids us @ forest_nids ts"
  "forest_nids (ts @ us) = forest_nids ts @ forest_nids us" "nids (Rose n ts) = n # forest_nids ts"
  by (simp_all add: forest_nids_def)

declare nids.simps [simp del]

lemma in_forest_nids: "n \<in> set (forest_nids ts) \<longleftrightarrow> (\<exists>t \<in> set ts. n \<in> set (nids t))"
  by (simp add: forest_nids_def)

definition fits :: "nat \<Rightarrow> ztree \<Rightarrow> rose list \<Rightarrow> bool" where
  \<comment> \<open>the heap has these trees, and the bound suffices for them\<close>
  "fits k z ts \<longleftrightarrow> 0 < k \<and> (\<forall>t \<in> set ts. shape z t \<and> height t < k)"

lemma fits_down:
  assumes "fits (Suc k) z (Rose n us # ts)"
  shows "fits k z us" "child_list z n = map rid us" "fits (Suc k) z ts" "0 < k"
proof -
  have h: "height (Rose n us) < Suc k" using assms by (simp add: fits_def)
  show "0 < k" using h by (cases k) auto
  moreover have "height t < k" if "t \<in> set us" for t using height_sub [OF that, of n] h by linarith
  ultimately show "fits k z us" using assms by (simp add: fits_def)
  show "child_list z n = map rid us" "fits (Suc k) z ts" using assms by (simp_all add: fits_def)
qed

text \<open>Induction over the bound and the trees, as the searches recur.\<close>

lemma fits_induct [consumes 1, case_names Nil Cons]:
  assumes "fits k z ts"
    and "\<And>k. 0 < k \<Longrightarrow> P k []"
    and "\<And>k n us ts. child_list z n = map rid us \<Longrightarrow> P k us \<Longrightarrow> P (Suc k) ts \<Longrightarrow> fits (Suc k) z (Rose n us # ts) \<Longrightarrow>
      P (Suc k) (Rose n us # ts)"
  shows "P k ts"
  using assms(1)
proof (induction k arbitrary: ts)
  case 0
  then show ?case by (simp add: fits_def)
next
  case (Suc k)
  from Suc.prems show ?case
  proof (induction ts)
    case Nil
    then show ?case using assms(2) by simp
  next
    case (Cons t ts)
    obtain n us where t: "t = Rose n us" by (cases t) auto
    note d = fits_down [OF Cons.prems [unfolded t]]
    show ?case unfolding t using Cons.prems t d Cons.IH Suc.IH by (intro assms(3)) simp_all
  qed
qed

text \<open>
  What the searches have in common: the result for a node and its subtree, followed by the result
  for the nodes after it, is the result for the concatenated lists.
\<close>

locale preorder_search =
  fixes z :: ztree and search :: "nat \<Rightarrow> nid list \<Rightarrow> 'r option" and res :: "nid list \<Rightarrow> 'r"
  assumes search_Nil: "search (Suc k) [] = Some (res [])"
    and search_Cons: "search k (child_list z n) = Some (res xs) \<Longrightarrow> search (Suc k) ns = Some (res ys) \<Longrightarrow>
      search (Suc k) (n # ns) = Some (res (n # xs @ ys))"
begin

lemma preorder: "fits k z ts \<Longrightarrow> search k (map rid ts) = Some (res (forest_nids ts))"
proof (induction rule: fits_induct)
  case (Nil k)
  then show ?case using search_Nil by (cases k) simp_all
next
  case (Cons k n us ts)
  then show ?case using search_Cons [of k n "forest_nids us" "map rid ts" "forest_nids ts"] by simp
qed

end

interpretation to_array: preorder_search z "\<lambda>k. transformToArrayFormat k z" "\<lambda>ns. ns" for z
  by unfold_locales (simp_all add: sub_nodes_child_list)

interpretation by_param: preorder_search z "\<lambda>k ns. getNodesByParam k z ns key v" "filter (\<lambda>n. attr z n key = v)" for z key v
  by unfold_locales (simp_all add: sub_nodes_child_list)

lemma find_append: "find P (xs @ ys) = (case find P xs of None \<Rightarrow> find P ys | Some x \<Rightarrow> Some x)"
  by (induction xs) simp_all

interpretation first_by_param: preorder_search z "\<lambda>k ns. getNodeByParam k z ns key v" "find (\<lambda>n. attr z n key = v)" for z key v
  by unfold_locales (simp_all add: sub_nodes_child_list find_append split: option.split)

lemma lower_idem: "toLowerCase (toLowerCase v) = toLowerCase v"
proof -
  have "lower_char (lower_char c) = lower_char c" for c
  proof -
    define n where "n = (of_char c :: nat)"
    have "n < 256" by (simp add: n_def)
    then show ?thesis by (auto simp: lower_char_def Let_def n_def [symmetric])
  qed
  then show ?thesis by (simp add: toLowerCase_def)
qed

lemma fuzzy_lower: "getNodesByParamFuzzy k z ns key (toLowerCase v) = getNodesByParamFuzzy k z ns key v"
  by (induction k z ns key v rule: getNodesByParamFuzzy.induct) (simp_all add: lower_idem cong: Option.bind_cong)

interpretation fuzzy: preorder_search z "\<lambda>k ns. getNodesByParamFuzzy k z ns key v" "filter (fuzzy_match z key (toLowerCase v))" for z key v
  by unfold_locales (simp_all add: sub_nodes_child_list fuzzy_lower)

interpretation by_filter: preorder_search z "\<lambda>k ns. getNodesByFilter k z ns f isSingle"
    "\<lambda>ns. if isSingle then take 1 (filter f ns) else filter f ns" for z f isSingle
proof unfold_locales
  fix k n xs ns ys
  assume "getNodesByFilter k z (child_list z n) f isSingle = Some (if isSingle then take 1 (filter f xs) else filter f xs)"
    "getNodesByFilter (Suc k) z ns f isSingle = Some (if isSingle then take 1 (filter f ys) else filter f ys)"
  then show "getNodesByFilter (Suc k) z (n # ns) f isSingle =
      Some (if isSingle then take 1 (filter f (n # xs @ ys)) else filter f (n # xs @ ys))"
    by (cases "filter f xs") (auto simp: sub_nodes_child_list)
qed simp

end
