(* ===== verification/ZTree_Same.thy ===== *)
theory ZTree_Same
  imports ZTree_Shape
begin

text \<open>
  The operations that leave the structure of the tree alone: opening and closing, drawing, the
  callbacks. \<open>same\<close> relates two states with the same objects, children, ids, positions, cache and
  selection; every such operation is shown to stay within it, and those that recur to return.
\<close>

named_theorems same_intros \<open>operations that keep the structure of the tree\<close>

section \<open>The relation\<close>

definition node_same :: "znode \<Rightarrow> znode \<Rightarrow> bool" where
  "node_same v w \<longleftrightarrow> zn_attr w = zn_attr v \<and> zn_children w = zn_children v \<and> zn_level w = zn_level v \<and>
     zn_tId w = zn_tId v \<and> zn_parentTId w = zn_parentTId v \<and> zn_first w = zn_first v \<and> zn_last w = zn_last v \<and>
     zn_zAsync w = zn_zAsync v \<and> zn_isAjaxing w = zn_isAjaxing v \<and>
     zn_detached w = zn_detached v \<and> flag_bool (zn_isParent w) = flag_bool (zn_isParent v) \<and>
     (zn_isParent v \<in> range FBool \<longrightarrow> zn_isParent w \<in> range FBool) \<and>
     (zn_open v \<in> range FBool \<longrightarrow> zn_open w \<in> range FBool)"

definition same :: "ztree \<Rightarrow> ztree \<Rightarrow> bool" where
  "same z z' \<longleftrightarrow> zt_next z' = zt_next z \<and> zt_cache z' = zt_cache z \<and> zt_selected z' = zt_selected z \<and>
     zt_zId z' = zt_zId z \<and> zt_ver z' = zt_ver z \<and> zt_pending z' = zt_pending z \<and>
     (\<forall>n. node_same (zt_heap z n) (zt_heap z' n))"

lemma node_same_refl [simp]: "node_same v v"
  by (simp add: node_same_def)

lemma same_refl [same_intros]: "same z z"
  by (simp add: same_def)

lemma node_same_trans: "node_same u v \<Longrightarrow> node_same v w \<Longrightarrow> node_same u w"
  by (simp add: node_same_def)

lemma same_trans: "same x y \<Longrightarrow> same y z \<Longrightarrow> same x z"
  unfolding same_def using node_same_trans by metis

lemma same_upd_node: "node_same (zt_heap z n) (f (zt_heap z n)) \<Longrightarrow> same z (upd_node n f z)"
  by (simp add: same_def upd_node_def)

lemma sameD:
  assumes "same z z'"
  shows "child_list z' n = child_list z n" "zn_tId (zt_heap z' n) = zn_tId (zt_heap z n)"
    "zn_parentTId (zt_heap z' n) = zn_parentTId (zt_heap z n)" "isParent z' n = isParent z n"
    "getNodeCache z' t = getNodeCache z t" "getParentNode z' n = getParentNode z n" "attr z' n k = attr z n k"
    "zn_level (zt_heap z' n) = zn_level (zt_heap z n)" "nodeChildren z' n = nodeChildren z n" "zt_next z' = zt_next z"
  using assms
  by (simp_all add: same_def node_same_def child_list_def isParent_def getNodeCache_def getParentNode_def attr_def nodeChildren_def)

section \<open>Small operations\<close>

lemma same_zemit [same_intros]: "same z (zemit e z)"
  by (simp add: same_def zemit_def)

lemma same_trigger [same_intros]: "same z (z\<lparr>zt_expandTrigger := b\<rparr>)"
  by (simp add: same_def)

lemma same_created [same_intros]: "same z (z\<lparr>zt_created := ns\<rparr>)"
  by (simp add: same_def)

lemma same_isParent [same_intros]: "same z (set_isParent n (isParent z n) z)"
  unfolding set_isParent_def by (rule same_upd_node) (simp add: node_same_def isParent_def flag_bool_def)

lemma same_nodeIsParent [same_intros]: "same z (snd (nodeIsParent n z))"
  by (simp add: nodeIsParent_def same_intros)

lemma same_set_open [same_intros]: "same z (set_open n b z)"
  unfolding set_open_def by (rule same_upd_node) (simp add: node_same_def)

lemma same_if [same_intros]: "(b \<Longrightarrow> same z x) \<Longrightarrow> (\<not> b \<Longrightarrow> same z y) \<Longrightarrow> same z (if b then x else y)"
  by simp

lemma same_then: "same z x \<Longrightarrow> (\<And>y. same y (f y)) \<Longrightarrow> same z (f x)"
  using same_trans by blast

lemma same_replaceIcoClass [same_intros]: "same z (replaceIcoClass S n c z)"
  unfolding replaceIcoClass_def by (simp add: Let_def same_intros split: option.split)

lemma same_replaceSwitchClass [same_intros]: "same z (replaceSwitchClass S n c z)"
  unfolding replaceSwitchClass_def
  by (auto simp: Let_def split: option.split intro!: same_then [where f = "zemit _"] same_intros)

lemma same_setNodeLineIcos [same_intros]: "same z (setNodeLineIcos S n z)"
proof -
  have s: "same z (zemit e w)" if "same z w" for e w using that same_trans same_zemit by blast
  have p: "same z (set_isParent n (isParent w n) w)" if "same z w" for w using that same_trans same_isParent by blast
  show ?thesis unfolding setNodeLineIcos_def Let_def nodeIsParent_def prod.case by (intro s p same_refl)
qed

lemma same_scrollIntoView [same_intros]: "same z (scrollIntoView S n z)"
  by (simp add: scrollIntoView_def same_intros)

lemma same_run_callback_of [same_intros]: "same z (run_callback_of S cb z)"
  by (induction S cb z rule: run_callback_of.induct)
    (auto simp: Let_def intro: same_intros same_then [where f = "zemit _"])

lemma same_fold: "(\<And>x z. same z (f x z)) \<Longrightarrow> same z (fold f xs z)"
  by (induction xs arbitrary: z) (auto intro: same_refl same_trans)

lemma same_createNodeCallback [same_intros]: "same z (createNodeCallback S z)"
proof -
  have "same y (let y = if zs_addDiyDom S then zemit (Diy_Dom n) y else y
      in if zs_on S ''onNodeCreated'' then zemit (Trigger ''ztree_nodeCreated'' (Some n)) y else y)" for n y
    by (auto simp: Let_def intro: same_intros same_then [where f = "zemit _"])
  then have "same x (fold (\<lambda>n z. let z = (if zs_addDiyDom S then zemit (Diy_Dom n) z else z)
                    in if zs_on S ''onNodeCreated'' then zemit (Trigger ''ztree_nodeCreated'' (Some n)) z else z) ns x)" for x ns
    by (rule same_fold)
  note f = this
  show ?thesis unfolding createNodeCallback_def
    by (rule same_if) (rule same_trans [OF same_created f], rule same_refl)
qed

lemma same_addCreatedNode [same_intros]: "same z (addCreatedNode S n z)"
  by (simp add: addCreatedNode_def same_intros)

lemma same_show_children [same_intros]: "same z (show_children S n anim cb z)"
proof -
  note s = same_zemit [THEN same_trans [rotated]] same_replaceIcoClass [THEN same_trans [rotated]]
    same_replaceSwitchClass [THEN same_trans [rotated]] same_run_callback_of [THEN same_trans [rotated]]
    same_set_open [THEN same_trans [rotated]]
  show ?thesis unfolding show_children_def Let_def by (intro s same_if same_refl)
qed

section \<open>Drawing a subtree\<close>

lemma shape_child_list: "(\<And>n. n \<in> set (nids t) \<Longrightarrow> child_list z' n = child_list z n) \<Longrightarrow> shape z' t \<longleftrightarrow> shape z t"
proof (induction t)
  case (Rose n ts)
  have "shape z' t \<longleftrightarrow> shape z t" if t: "t \<in> set ts" for t
  proof (rule Rose.IH [OF t])
    show "child_list z' m = child_list z m" if "m \<in> set (nids t)" for m
      by (rule Rose.prems) (use t that in \<open>auto simp: in_forest_nids\<close>)
  qed
  with Rose.prems show ?case by auto
qed

lemma same_fits: "same z z' \<Longrightarrow> fits k z ts \<Longrightarrow> fits k z' ts"
  unfolding fits_def using shape_child_list sameD(1) by metis

definition draws :: "zsetting \<Rightarrow> ztree \<Rightarrow> (ztree \<Rightarrow> (string \<times> ztree) option) \<Rightarrow> bool" where
  "draws S z f \<longleftrightarrow> (\<forall>y. same z y \<longrightarrow> (\<exists>html z'. f y = Some (html, z') \<and> same z z'))"

lemma append_one_draws:
  assumes "\<And>y op. same z y \<Longrightarrow> child_list y n \<noteq> [] \<Longrightarrow> \<exists>h z'. rec (child_list y n) n op y = Some (h, z') \<and> same z z'"
    and "same z y"
  shows "\<exists>h z'. append_one rec S l p fs ls False op (i, n) (html, y) = Some (h, z') \<and> same z z'"
proof -
  define w where "w = set_isParent n (isParent y n) y"
  have w: "same z w" using assms(2) same_trans same_isParent unfolding w_def by blast
  have "\<exists>h x. (if child_list w n \<noteq> [] then rec (child_list w n) n (op \<and> is_open w n) w else Some ('''', w)) = Some (h, x) \<and> same z x"
    using assms(1) [OF w] w by simp
  then obtain h x where "(if child_list w n \<noteq> [] then rec (child_list w n) n (op \<and> is_open w n) w else Some ('''', w)) = Some (h, x)" "same z x"
    by blast
  then show ?thesis
    using same_trans [OF _ same_addCreatedNode, of z x]
    by (auto simp: append_one_def nodeIsParent_def w_def [symmetric])
qed

lemma appendNodes_draws:
  "fits k z ts \<Longrightarrow> same z y \<Longrightarrow> \<exists>html z'. appendNodes k S l (map rid ts) p j False op y = Some (html, z') \<and> same z z'"
proof (induction k arbitrary: ts y l p j op)
  case 0
  then show ?case by (simp add: fits_def)
next
  case (Suc k)
  have loop: "\<exists>h z'. foldM (append_one (\<lambda>children node openFlag. appendNodes k S (l + 1) children (Some node) (-1) False openFlag)
      S l p fs ls False op) (enumerate i (map rid ts)) (html, y) = Some (h, z') \<and> same z z'"
    if "fits (Suc k) z ts" "same z y" for ts y fs ls i html
    using that
  proof (induction ts arbitrary: y i html)
    case (Cons t ts)
    obtain n us where t: "t = Rose n us" by (cases t) auto
    note d = fits_down [OF Cons.prems(1) [unfolded t]]
    have "\<exists>h z'. append_one (\<lambda>children node openFlag. appendNodes k S (l + 1) children (Some node) (-1) False openFlag)
        S l p fs ls False op (i, n) (html, y) = Some (h, z') \<and> same z z'"
      by (rule append_one_draws) (use Suc.IH [OF d(1)] Cons.prems(2) d(2) sameD(1) in auto)
    then show ?case using Cons.IH [OF d(3)] by (fastforce simp: t)
  qed simp
  then show ?case using Suc.prems by (simp add: Let_def)
qed

end
