(* ===== verification/ZTree_Inv.thy ===== *)
theory ZTree_Inv
  imports ZTree_Same
begin

text \<open>
  What makes the state of the widget a tree: the objects under the root form a rose tree without
  sharing, every node knows its parent's id, its level and whether it is first or last, the ids
  are the numbers given out so far, the cache holds exactly the nodes of the tree, and only nodes
  of the tree are selected.
\<close>

section \<open>The invariant\<close>

definition placed :: "ztree \<Rightarrow> nid \<Rightarrow> bool" where
  "placed z p \<longleftrightarrow> (\<forall>i < length (child_list z p).
     let v = zt_heap z (child_list z p ! i)
     in zn_parentTId v = (if p = root then None else zn_tId (zt_heap z p)) \<and>
        zn_level v = (if p = root then 0 else Suc (zn_level (zt_heap z p))) \<and>
        (zn_first v \<longleftrightarrow> i = 0) \<and> (zn_last v \<longleftrightarrow> Suc i = length (child_list z p)))"

definition settled :: "znode \<Rightarrow> bool" where
  "settled v \<longleftrightarrow> zn_isParent v \<in> range FBool \<and> zn_open v \<in> range FBool \<and> \<not> zn_detached v"

definition tree_ok :: "zsetting \<Rightarrow> ztree \<Rightarrow> rose \<Rightarrow> bool" where
  "tree_ok S z T \<longleftrightarrow>
     rid T = root \<and> shape z T \<and> distinct (nids T) \<and> (\<forall>n \<in> set (nids T). n < zt_next z \<and> placed z n) \<and>
     (\<forall>n \<in> set (nids T) - {root}. settled (zt_heap z n) \<and>
        (\<exists>k. 1 \<le> k \<and> k \<le> zt_zId z \<and> zn_tId (zt_heap z n) = Some (make_tId S k))) \<and>
     inj_on (\<lambda>n. zn_tId (zt_heap z n)) (set (nids T) - {root}) \<and>
     (\<forall>key n. zt_cache z key = Some n \<longleftrightarrow>
        n \<in> set (nids T) - {root} \<and> key = getNodeCacheId (js_string (zn_tId (zt_heap z n)))) \<and>
     set (zt_selected z) \<subseteq> set (nids T) - {root} \<and> distinct (zt_selected z)"

abbreviation nodes_of :: "rose \<Rightarrow> nid set" where
  "nodes_of T \<equiv> set (nids T) - {0}"

section \<open>Consequences\<close>

lemma tree_okD:
  assumes "tree_ok S z T"
  shows "rid T = 0" "shape z T" "distinct (nids T)" "n \<in> set (nids T) \<Longrightarrow> n < zt_next z" "n \<in> set (nids T) \<Longrightarrow> placed z n"
    "n \<in> nodes_of T \<Longrightarrow> settled (zt_heap z n)"
    "n \<in> nodes_of T \<Longrightarrow> \<exists>k. 1 \<le> k \<and> k \<le> zt_zId z \<and> zn_tId (zt_heap z n) = Some (make_tId S k)"
    "inj_on (\<lambda>n. zn_tId (zt_heap z n)) (nodes_of T)"
    "zt_cache z key = Some n \<longleftrightarrow> n \<in> nodes_of T \<and> key = getNodeCacheId (js_string (zn_tId (zt_heap z n)))"
    "set (zt_selected z) \<subseteq> nodes_of T" "distinct (zt_selected z)"
proof -
  note a = assms [unfolded tree_ok_def]
  note b = a [THEN conjunct2] note c = b [THEN conjunct2] note d = c [THEN conjunct2] note e = d [THEN conjunct2]
  note f = e [THEN conjunct2] note g = f [THEN conjunct2] note h = g [THEN conjunct2] note i = h [THEN conjunct2]
  show "rid T = 0" by (rule a [THEN conjunct1])
  show "shape z T" by (rule b [THEN conjunct1])
  show "distinct (nids T)" by (rule c [THEN conjunct1])
  show "n \<in> set (nids T) \<Longrightarrow> n < zt_next z" "n \<in> set (nids T) \<Longrightarrow> placed z n" using d [THEN conjunct1] by blast+
  show "n \<in> nodes_of T \<Longrightarrow> settled (zt_heap z n)"
    "n \<in> nodes_of T \<Longrightarrow> \<exists>k. 1 \<le> k \<and> k \<le> zt_zId z \<and> zn_tId (zt_heap z n) = Some (make_tId S k)"
    using e [THEN conjunct1] by blast+
  show "inj_on (\<lambda>n. zn_tId (zt_heap z n)) (nodes_of T)" by (rule f [THEN conjunct1])
  show "zt_cache z key = Some n \<longleftrightarrow> n \<in> nodes_of T \<and> key = getNodeCacheId (js_string (zn_tId (zt_heap z n)))"
    by (rule g [THEN conjunct1, rule_format])
  show "set (zt_selected z) \<subseteq> nodes_of T" by (rule h [THEN conjunct1])
  show "distinct (zt_selected z)" by (rule i)
qed

lemma truthy_make_tId [simp]: "truthy (Some (make_tId S k))"
  by (simp add: make_tId_def)

lemma make_tId_nonempty [simp]: "make_tId S k \<noteq> []" "[] \<noteq> make_tId S k"
  by (simp_all add: make_tId_def)

lemma tree_nids_eq: "tree_ok S z T \<Longrightarrow> nids T = 0 # forest_nids (subs T)"
  using tree_okD(1) [of S z T] by (cases T) simp

lemma nodes_forest: "tree_ok S z T \<Longrightarrow> nodes_of T = set (forest_nids (subs T))"
  using tree_nids_eq [of S z T] tree_okD(3) [of S z T] by auto

lemma tree_tId:
  assumes "tree_ok S z T" "n \<in> nodes_of T"
  obtains k where "1 \<le> k" "k \<le> zt_zId z" "zn_tId (zt_heap z n) = Some (make_tId S k)"
  using tree_okD(7) [OF assms] by blast

lemma tree_cached:
  assumes "tree_ok S z T" "n \<in> nodes_of T"
  shows "getNodeCache z (zn_tId (zt_heap z n)) = Some n" "truthy (zn_tId (zt_heap z n))"
proof -
  obtain k where k: "zn_tId (zt_heap z n) = Some (make_tId S k)" by (rule tree_tId [OF assms])
  then show "truthy (zn_tId (zt_heap z n))" by (simp add: make_tId_def)
  have "zt_cache z (getNodeCacheId (js_string (zn_tId (zt_heap z n)))) = Some n"
    using tree_okD(9) [OF assms(1)] assms(2) by blast
  then show "getNodeCache z (zn_tId (zt_heap z n)) = Some n" using k by (simp add: getNodeCache_def)
qed

lemma tree_cache_id: "tree_ok S z T \<Longrightarrow> getNodeCache z t = Some n \<Longrightarrow> n \<in> nodes_of T"
  unfolding getNodeCache_def using tree_okD(9) by (metis option.distinct(1))

lemma placedD:
  assumes "placed z p" "c \<in> set (child_list z p)"
  shows "zn_parentTId (zt_heap z c) = (if p = 0 then None else zn_tId (zt_heap z p))"
    "zn_level (zt_heap z c) = (if p = 0 then 0 else Suc (zn_level (zt_heap z p)))"
  using assms by (auto simp: placed_def Let_def in_set_conv_nth)

lemma rid_forest: "t \<in> set ts \<Longrightarrow> rid t \<in> set (forest_nids ts)"
  unfolding in_forest_nids using rid_nids by blast

text \<open>Every node but the root is a child of a node of the tree.\<close>

lemma child_exists:
  "shape z t \<Longrightarrow> n \<in> set (nids t) \<Longrightarrow> n = rid t \<or> (\<exists>p \<in> set (nids t). n \<in> set (child_list z p))"
proof (induction t)
  case (Rose m ts)
  from Rose.prems(2) consider "n = m" | t where "t \<in> set ts" "n \<in> set (nids t)" by (auto simp: in_forest_nids)
  then show ?case
  proof cases
    case 2
    from Rose.IH [OF 2(1) _ 2(2)] Rose.prems(1) 2(1) consider "n = rid t" | p where "p \<in> set (nids t)" "n \<in> set (child_list z p)" by auto
    then show ?thesis
    proof cases
      case 1
      then have "n \<in> set (child_list z m)" using Rose.prems(1) \<open>t \<in> set ts\<close> by auto
      then show ?thesis by auto
    next
      case (2 p)
      then have "p \<in> set (nids (Rose m ts))" using \<open>t \<in> set ts\<close> by (auto simp: in_forest_nids)
      with 2 show ?thesis by blast
    qed
  qed simp
qed

lemma children_inside: "shape z t \<Longrightarrow> p \<in> set (nids t) \<Longrightarrow> set (child_list z p) \<subseteq> set (nids t)"
proof (induction t)
  case (Rose m ts)
  then consider "p = m" | t where "t \<in> set ts" "p \<in> set (nids t)" by (auto simp: in_forest_nids)
  then show ?case
  proof cases
    case 1
    then show ?thesis using Rose.prems rid_forest by auto
  next
    case 2
    then have "set (child_list z p) \<subseteq> set (nids t)" using Rose by auto
    then show ?thesis using 2 by (auto simp: in_forest_nids)
  qed
qed

lemma root_no_child: "tree_ok S z T \<Longrightarrow> p \<in> set (nids T) \<Longrightarrow> 0 \<notin> set (child_list z p)"
proof -
  have no: "rid t \<notin> set (child_list z p)" if "shape z t" "distinct (nids t)" "p \<in> set (nids t)" for t p
    using that
  proof (induction t)
    case (Rose m ts)
    from Rose.prems(3) consider "p = m" | t where "t \<in> set ts" "p \<in> set (nids t)" by (auto simp: in_forest_nids)
    then show ?case
    proof cases
      case 1
      then have "set (child_list z p) \<subseteq> set (forest_nids ts)" using Rose.prems(1) rid_forest by auto
      then show ?thesis using Rose.prems(2) by auto
    next
      case 2
      then have "set (child_list z p) \<subseteq> set (nids t)" using Rose.prems(1) children_inside [of z t p] by simp
      then show ?thesis using Rose.prems(2) 2(1) by (auto simp: in_forest_nids)
    qed
  qed
  assume "tree_ok S z T" "p \<in> set (nids T)"
  then show ?thesis using no [of T p] tree_okD(1-3) by metis
qed

lemma tree_parent:
  assumes "tree_ok S z T" "n \<in> nodes_of T"
  obtains p where "p \<in> set (nids T)" "n \<in> set (child_list z p)" "parent_of z n = Some p"
    "p = 0 \<longrightarrow> zn_parentTId (zt_heap z n) = None \<and> zn_level (zt_heap z n) = 0"
    "p \<noteq> 0 \<longrightarrow> truthy (zn_parentTId (zt_heap z n)) \<and> getParentNode z n = Some p \<and> zn_level (zt_heap z n) = Suc (zn_level (zt_heap z p))"
proof -
  from child_exists [of z T n] tree_okD(1,2) [OF assms(1)] assms(2) obtain p where p: "p \<in> set (nids T)" "n \<in> set (child_list z p)"
    by auto
  then have "placed z p" using tree_okD(5) [OF assms(1)] by simp
  note d = placedD [OF this p(2)]
  have c: "p \<noteq> 0 \<Longrightarrow> getNodeCache z (zn_tId (zt_heap z p)) = Some p \<and> truthy (zn_tId (zt_heap z p))"
    using tree_cached [OF assms(1), of p] p(1) by simp
  show thesis
  proof (rule that [OF p])
    show "parent_of z n = Some p"
      using d(1) c by (simp add: parent_of_def getParentNode_def)
    show "p \<noteq> 0 \<longrightarrow> truthy (zn_parentTId (zt_heap z n)) \<and> getParentNode z n = Some p \<and> zn_level (zt_heap z n) = Suc (zn_level (zt_heap z p))"
      using d c by (simp add: getParentNode_def)
  qed (use d in auto)
qed

section \<open>Bounds\<close>

lemma distinct_below: "distinct ns \<Longrightarrow> \<forall>n \<in> set ns. n < k \<Longrightarrow> length ns \<le> (k :: nat)"
  using card_mono [of "{..<k}" "set ns"] by (auto simp: distinct_card subset_eq)

lemma height_next: "tree_ok S z T \<Longrightarrow> height T \<le> zt_next z"
  using height_bound [of T] distinct_below [of "nids T" "zt_next z"] tree_okD(3,4) by fastforce

lemma tree_fits: "tree_ok S z T \<Longrightarrow> fits (zt_next z + 1) z [T]"
  using height_next [of S z T] tree_okD(2) by (simp add: fits_def)

lemma sub_fits: "fits k z ts \<Longrightarrow> n \<in> set (forest_nids ts) \<Longrightarrow> \<exists>us. child_list z n = map rid us \<and> fits k z us \<and> set (forest_nids us) \<subseteq> set (forest_nids ts)"
proof (induction rule: fits_induct)
  case (Cons k m us ts)
  have up: "fits (Suc k) z vs" if "fits k z vs" for vs using that by (auto simp: fits_def)
  from Cons.prems consider "n = m" | "n \<in> set (forest_nids us)" | "n \<in> set (forest_nids ts)" by auto
  then show ?case
  proof cases
    case 1
    then show ?thesis using Cons.hyps up [OF fits_down(1) [OF Cons.hyps(2)]] by auto
  next
    case 2
    then show ?thesis using Cons.IH(1) up by fastforce
  next
    case 3
    then show ?thesis using Cons.IH(2) by fastforce
  qed
qed simp

lemma node_fits:
  assumes "tree_ok S z T" "n \<in> set (nids T)"
  obtains us where "child_list z n = map rid us" "fits (zt_next z + 1) z us" "set (forest_nids us) \<subseteq> set (nids T)"
  using sub_fits [OF tree_fits [OF assms(1)], of n] assms(2) by (auto simp: forest_nids_def)

lemma level_below: "shape z t \<Longrightarrow> \<forall>p \<in> set (nids t). placed z p \<Longrightarrow> n \<in> set (nids t) \<Longrightarrow> n \<noteq> rid t \<Longrightarrow> 0 \<notin> set (nids t) \<Longrightarrow>
   zn_level (zt_heap z n) < zn_level (zt_heap z (rid t)) + height t"
proof (induction t)
  case (Rose m ts)
  from Rose.prems obtain t where t: "t \<in> set ts" "n \<in> set (nids t)" by (auto simp: in_forest_nids)
  have "rid t \<in> set (child_list z m)" "placed z m" "m \<noteq> 0" using Rose.prems t by auto
  then have l: "zn_level (zt_heap z (rid t)) = Suc (zn_level (zt_heap z m))" using placedD(2) by simp
  have h: "height t < height (Rose m ts)" by (rule height_sub [OF t(1)])
  show ?case
  proof (cases "n = rid t")
    case True
    have "0 < height t" by (cases t) simp
    then show ?thesis using True l h by simp
  next
    case False
    have "\<forall>p \<in> set (nids t). placed z p" "0 \<notin> set (nids t)" using Rose.prems t(1) by (auto simp: in_forest_nids)
    then have "zn_level (zt_heap z n) < zn_level (zt_heap z (rid t)) + height t"
      using Rose.IH [OF t(1) _ _ t(2) False] Rose.prems(1) t(1) by auto
    then show ?thesis using l h by simp
  qed
qed

lemma level_bound:
  assumes "tree_ok S z T" "n \<in> nodes_of T"
  shows "zn_level (zt_heap z n) < zt_next z"
proof -
  obtain ts where T: "T = Rose 0 ts" using tree_okD(1) [OF assms(1)] by (cases T) auto
  then obtain t where t: "t \<in> set ts" "n \<in> set (nids t)" using assms(2) by (auto simp: in_forest_nids)
  have "rid t \<in> set (child_list z 0)" "placed z 0" using tree_okD(2,5) [OF assms(1)] t by (auto simp: T)
  then have l: "zn_level (zt_heap z (rid t)) = 0" using placedD(2) by fastforce
  have h: "height t < height T" unfolding T by (rule height_sub [OF t(1)])
  have 0: "0 \<notin> set (nids t)" using tree_okD(3) [OF assms(1)] t(1) by (auto simp: T in_forest_nids)
  have s: "shape z t" "\<forall>p \<in> set (nids t). placed z p"
    using tree_okD(2,5) [OF assms(1)] t(1) by (auto simp: T in_forest_nids)
  show ?thesis
  proof (cases "n = rid t")
    case True
    then show ?thesis using l h height_next [OF assms(1)] by simp
  next
    case False
    then show ?thesis using level_below [OF s t(2) False 0] l h height_next [OF assms(1)] by simp
  qed
qed

section \<open>The operations that keep the structure\<close>

lemma same_placed: "same z z' \<Longrightarrow> placed z p \<Longrightarrow> placed z' p"
  unfolding placed_def Let_def sameD(1) by (auto simp: same_def node_same_def)

lemma same_settled: "same z z' \<Longrightarrow> settled (zt_heap z n) \<Longrightarrow> settled (zt_heap z' n)"
  by (auto simp: same_def node_same_def settled_def)

lemma same_tree_ok:
  assumes "same z z'" "tree_ok S z T"
  shows "tree_ok S z' T"
proof -
  have c: "zt_next z' = zt_next z" "zt_cache z' = zt_cache z" "zt_selected z' = zt_selected z" "zt_zId z' = zt_zId z"
    "\<And>n. zn_tId (zt_heap z' n) = zn_tId (zt_heap z n)" using assms(1) by (auto simp: same_def node_same_def)
  have "shape z' T = shape z T" by (rule shape_child_list) (rule sameD(1) [OF assms(1)])
  then show ?thesis using assms(2) same_placed [OF assms(1)] same_settled [OF assms(1)]
    unfolding tree_ok_def c by blast
qed

end
