(* ===== verification/ZTree_Keep.thy ===== *)
theory ZTree_Keep
  imports ZTree_Inv
begin

text \<open>
  Opening and closing nodes of a tree: each operation returns and keeps the structure, so the
  invariant holds of the result.
\<close>

declare appendNodes.simps [simp del]

lemma appendParentULDom_same:
  assumes "tree_ok S z T" "n \<in> nodes_of T" "zn_level (zt_heap z n) < k" "same z y"
  shows "\<exists>z'. appendParentULDom k S n y = Some z' \<and> same z z'"
  using assms(2-4)
proof (induction k arbitrary: n y)
  case (Suc k)
  obtain p where p: "p \<in> set (nids T)" "n \<in> set (child_list z p)" "parent_of z n = Some p"
    "p = 0 \<longrightarrow> zn_parentTId (zt_heap z n) = None \<and> zn_level (zt_heap z n) = 0"
    "p \<noteq> 0 \<longrightarrow> truthy (zn_parentTId (zt_heap z n)) \<and> getParentNode z n = Some p \<and> zn_level (zt_heap z n) = Suc (zn_level (zt_heap z p))"
    by (rule tree_parent [OF assms(1) Suc.prems(1)])
  note y = sameD [OF Suc.prems(3)]
  have "\<exists>w. (if \<not> br_has S (zt_log y) (elem_id y n '''') \<and> truthy (zn_parentTId (zt_heap y n))
        then (case getParentNode y n of None \<Rightarrow> None | Some p \<Rightarrow> appendParentULDom k S p y) else Some y) = Some w \<and> same z w"
  proof (cases "p = 0")
    case True
    then show ?thesis using p y Suc.prems(3) by simp
  next
    case False
    then show ?thesis using p y Suc.IH [of p y] Suc.prems by simp
  qed
  then obtain w where w: "(if \<not> br_has S (zt_log y) (elem_id y n '''') \<and> truthy (zn_parentTId (zt_heap y n))
        then (case getParentNode y n of None \<Rightarrow> None | Some p \<Rightarrow> appendParentULDom k S p y) else Some y) = Some w" "same z w" by blast
  define x where "x = (if br_has S (zt_log w) (elem_id w n ''_ul'') then zemit (Remove_Elem (elem_id w n ''_ul'')) w else w)"
  have x: "same z x" using w(2) same_trans [OF w(2) same_zemit] by (simp add: x_def)
  obtain us where us: "child_list z n = map rid us" "fits (zt_next z + 1) z us"
    using node_fits [OF assms(1), of n] Suc.prems(1) by auto
  have "\<exists>html v. appendNodes (zt_next x + 1) S (zn_level (zt_heap x n) + 1) (child_list x n) (Some n) (-1) False True x = Some (html, v) \<and> same z v"
    unfolding sameD(1) [OF x] sameD(10) [OF x] us(1) by (rule appendNodes_draws [OF us(2) x])
  then obtain html v where v: "appendNodes (zt_next x + 1) S (zn_level (zt_heap x n) + 1) (child_list x n) (Some n) (-1) False True x = Some (html, v)" "same z v"
    by blast
  have "appendParentULDom (Suc k) S n y = Some (zemit (Append (elem_id v n '''') (makeUlHtml S v n html)) v)"
    unfolding appendParentULDom.simps w(1) Option.bind.simps x_def [symmetric] Let_def v(1) by simp
  then show ?case using same_trans [OF v(2) same_zemit] by blast
qed simp

lemma expandCollapseNode_Some:
  "expandCollapseNode S (Some n) flag anim cb y =
     (let w = set_isParent n (isParent y n) y;
          x = (if zt_expandTrigger w then w\<lparr>zt_expandTrigger := False\<rparr> else w);
          cb' = (if zt_expandTrigger w then Then_Trigger cb n else cb)
      in Option.bind
           (if \<not> is_open x n \<and> isParent y n \<and>
               (\<not> br_has S (zt_log x) (elem_id x n ''_ul'') \<or>
                child_list x n \<noteq> [] \<and> \<not> br_has S (zt_log x) (elem_id x (hd (child_list x n)) ''''))
            then map_option (createNodeCallback S) (appendParentULDom (zt_next x + 1) S n x)
            else Some x) (\<lambda>v.
         if zn_open (zt_heap v n) = FBool flag then Some (run_callback_of S cb' v)
         else if isParent y n then Some (show_children S n anim cb' v) else Some (run_callback_of S cb' v)))"
  unfolding expandCollapseNode_def nodeIsParent_def Let_def option.case prod.case
  by (cases "zt_expandTrigger (set_isParent n (isParent y n) y)") (simp_all only: if_True if_False prod.case)

lemma expandCollapseNode_same:
  assumes "tree_ok S z T" "\<And>n. node = Some n \<Longrightarrow> n \<in> nodes_of T" "same z y"
  shows "\<exists>z'. expandCollapseNode S node flag anim cb y = Some z' \<and> same z z'"
proof (cases node)
  case None
  then show ?thesis using same_trans [OF assms(3) same_run_callback_of] by (simp add: expandCollapseNode_def)
next
  case (Some n)
  define w where "w = set_isParent n (isParent y n) y"
  define x where "x = (if zt_expandTrigger w then w\<lparr>zt_expandTrigger := False\<rparr> else w)"
  define cb' where "cb' = (if zt_expandTrigger w then Then_Trigger cb n else cb)"
  define g where "g \<longleftrightarrow> \<not> is_open x n \<and> isParent y n \<and> (\<not> br_has S (zt_log x) (elem_id x n ''_ul'') \<or>
      child_list x n \<noteq> [] \<and> \<not> br_has S (zt_log x) (elem_id x (hd (child_list x n)) ''''))"
  have w: "same z w" unfolding w_def by (rule same_trans [OF assms(3) same_isParent])
  have x: "same z x" unfolding x_def by (rule same_if) (rule same_trans [OF w same_trigger], rule w)
  have n: "n \<in> nodes_of T" by (rule assms(2) [OF Some])
  have l: "zn_level (zt_heap z n) < zt_next x + 1" using level_bound [OF assms(1) n] sameD(10) [OF x] by simp
  have "\<exists>v. (if g then map_option (createNodeCallback S) (appendParentULDom (zt_next x + 1) S n x) else Some x) = Some v \<and> same z v"
  proof (cases g)
    case True
    obtain v where v: "appendParentULDom (zt_next x + 1) S n x = Some v" "same z v"
      using appendParentULDom_same [OF assms(1) n l x] by blast
    have "same z (createNodeCallback S v)" by (rule same_trans [OF v(2) same_createNodeCallback])
    with True v(1) show ?thesis by (simp del: appendParentULDom.simps)
  qed (use x in simp)
  then obtain v where v: "(if g then map_option (createNodeCallback S) (appendParentULDom (zt_next x + 1) S n x) else Some x) = Some v" "same z v"
    by blast
  have e: "expandCollapseNode S node flag anim cb y =
     (if zn_open (zt_heap v n) = FBool flag then Some (run_callback_of S cb' v)
      else if isParent y n then Some (show_children S n anim cb' v) else Some (run_callback_of S cb' v))"
    unfolding Some expandCollapseNode_Some Let_def w_def [symmetric] x_def [symmetric] cb'_def [symmetric] g_def [symmetric] v(1)
    by (rule Option.bind.simps(2))
  have "same z (run_callback_of S cb' v)" "same z (show_children S n anim cb' v)"
    by (rule same_trans [OF v(2)], rule same_run_callback_of, rule same_trans [OF v(2)], rule same_show_children)
  then show ?thesis unfolding e by simp
qed

lemma expandCollapseParentNode_same:
  assumes "tree_ok S z T" "\<And>n. node = Some n \<Longrightarrow> n \<in> nodes_of T \<and> zn_level (zt_heap z n) < k" "0 < k" "same z y"
  shows "\<exists>z'. expandCollapseParentNode k S node flag anim cb y = Some z' \<and> same z z'"
  using assms(2-4)
proof (induction k arbitrary: node y)
  case (Suc k)
  show ?case
  proof (cases node)
    case None
    then show ?thesis using Suc.prems(3) by auto
  next
    case (Some n)
    then have n: "n \<in> nodes_of T" "zn_level (zt_heap z n) \<le> k" using Suc.prems(1) by auto
    obtain p where p: "p \<in> set (nids T)" "n \<in> set (child_list z p)" "parent_of z n = Some p"
      "p = 0 \<longrightarrow> zn_parentTId (zt_heap z n) = None \<and> zn_level (zt_heap z n) = 0"
      "p \<noteq> 0 \<longrightarrow> truthy (zn_parentTId (zt_heap z n)) \<and> getParentNode z n = Some p \<and> zn_level (zt_heap z n) = Suc (zn_level (zt_heap z p))"
      by (rule tree_parent [OF assms(1) n(1)])
    have e: "\<exists>z'. expandCollapseNode S (Some n) flag anim cb y = Some z' \<and> same z z'" for cb
      by (rule expandCollapseNode_same [OF assms(1) _ Suc.prems(3)]) (use n(1) in simp)
    show ?thesis
    proof (cases "p = 0")
      case True
      then show ?thesis using e p sameD(3) [OF Suc.prems(3)] Some by simp
    next
      case False
      obtain w where w: "expandCollapseNode S (Some n) flag anim No_Cb y = Some w" "same z w" using e by blast
      have "\<exists>z'. expandCollapseParentNode k S (Some p) flag anim cb w = Some z' \<and> same z z'"
        by (rule Suc.IH) (use p False n w in auto)
      then show ?thesis using p False w Some sameD(3) [OF Suc.prems(3)] sameD(6) [OF w(2)] by simp
    qed
  qed
qed simp

lemma expandCollapseSonNode_same:
  assumes "tree_ok S z T"
  shows "fits k z ts \<Longrightarrow> set (forest_nids ts) \<subseteq> nodes_of T \<Longrightarrow> same z y \<Longrightarrow>
    \<exists>z'. foldM (\<lambda>c. expandCollapseSonNode k S (Some c) flag anim No_Cb) (map rid ts) y = Some z' \<and> same z z'"
proof (induction arbitrary: y anim rule: fits_induct)
  case (Cons k n us ts)
  have in_T: "set (forest_nids us) \<subseteq> nodes_of T" "set (forest_nids ts) \<subseteq> nodes_of T" "n \<in> nodes_of T"
    using Cons.prems(1) by auto
  obtain w where w: "foldM (\<lambda>c. expandCollapseSonNode k S (Some c) flag False No_Cb) (map rid us) (y\<lparr>zt_expandTrigger := False\<rparr>) = Some w" "same z w"
    using Cons.IH(1) [OF in_T(1) same_trans [OF Cons.prems(2) same_trigger]] by blast
  have "\<exists>v. expandCollapseNode S (Some n) flag anim No_Cb (w\<lparr>zt_expandTrigger := zt_expandTrigger y\<rparr>) = Some v \<and> same z v"
    by (rule expandCollapseNode_same [OF assms]) (use in_T(3) same_trans [OF w(2) same_trigger] in auto)
  then obtain v where v: "expandCollapseNode S (Some n) flag anim No_Cb (w\<lparr>zt_expandTrigger := zt_expandTrigger y\<rparr>) = Some v" "same z v"
    by blast
  obtain x where x: "foldM (\<lambda>c. expandCollapseSonNode (Suc k) S (Some c) flag anim No_Cb) (map rid ts) v = Some x" "same z x"
    using Cons.IH(2) [OF in_T(2) v(2)] by blast
  have "child_list y n = map rid us" using Cons.hyps(1) sameD(1) [OF Cons.prems(2)] by simp
  then have "expandCollapseSonNode (Suc k) S (Some n) flag anim No_Cb y = Some v"
    using w(1) v(1) by (simp add: Let_def)
  then have "foldM (\<lambda>c. expandCollapseSonNode (Suc k) S (Some c) flag anim No_Cb) (map rid (Rose n us # ts)) y = Some x"
    using x(1) by (simp del: expandCollapseSonNode.simps)
  with x(2) show ?case by blast
qed auto

section \<open>Which nodes are open\<close>

definition opens :: "nid set \<Rightarrow> ztree \<Rightarrow> ztree \<Rightarrow> bool" where
  \<comment> \<open>the nodes outside the set stay open or closed\<close>
  "opens N z z' \<longleftrightarrow> (\<forall>n. n \<notin> N \<longrightarrow> zn_open (zt_heap z' n) = zn_open (zt_heap z n))"

lemma opens_refl: "opens N z z"
  by (simp add: opens_def)

lemma opens_trans: "opens N x y \<Longrightarrow> opens N y z \<Longrightarrow> opens N x z"
  by (simp add: opens_def)

lemma opens_mono: "opens M x y \<Longrightarrow> M \<subseteq> N \<Longrightarrow> opens N x y"
  by (auto simp: opens_def)

lemma opens_heap: "zt_heap z' = zt_heap z \<Longrightarrow> opens N z z'"
  by (simp add: opens_def)

lemma opens_set_isParent: "opens N z (set_isParent n b z)"
  by (simp add: opens_def set_isParent_def upd_node_def)

lemma heap_simps [simp]: "zt_heap (zemit e z) = zt_heap z" "zt_heap (addCreatedNode S n z) = zt_heap z"
  by (simp_all add: zemit_def addCreatedNode_def)

lemma heap_createNodeCallback [simp]: "zt_heap (createNodeCallback S z) = zt_heap z"
proof -
  have "zt_heap (fold (\<lambda>n z. let z = (if a then zemit (Diy_Dom n) z else z)
      in if b then zemit (Trigger ''ztree_nodeCreated'' (Some n)) z else z) ns z) = zt_heap z" for a b ns z
    by (induction ns arbitrary: z) (simp_all add: Let_def)
  then show ?thesis by (simp add: createNodeCallback_def)
qed

lemma heap_run_callback_of [simp]: "zt_heap (run_callback_of S cb z) = zt_heap z"
  by (induction S cb z rule: run_callback_of.induct) (simp_all add: scrollIntoView_def Let_def)

lemma heap_replace [simp]: "zt_heap (replaceIcoClass S n c z) = zt_heap z" "zt_heap (replaceSwitchClass S n c z) = zt_heap z"
  by (simp_all add: replaceIcoClass_def replaceSwitchClass_def Let_def split: option.split)

lemma foldM_keeps:
  assumes "\<And>x s s'. f x s = Some s' \<Longrightarrow> R s s'" "\<And>s. R s s" "\<And>a b c. R a b \<Longrightarrow> R b c \<Longrightarrow> R a c"
  shows "foldM f xs s = Some s' \<Longrightarrow> R s s'"
proof (induction xs arbitrary: s)
  case (Cons x xs)
  then obtain y where "f x s = Some y" "foldM f xs y = Some s'" by (auto split: option.splits)
  then show ?case using Cons.IH assms(1,3) by blast
qed (use assms(2) in simp)

lemma append_one_opens:
  assumes "\<And>cs m op y h y'. rec cs m op y = Some (h, y') \<Longrightarrow> opens {} y y'"
    and "append_one rec S l p fs ls False op (i, n) (html, y) = Some (h, z)"
  shows "opens {} y z"
proof -
  define w where "w = set_isParent n (isParent y n) y"
  obtain h' x where x: "(if child_list w n \<noteq> [] then rec (child_list w n) n (op \<and> is_open w n) w else Some ('''', w)) = Some (h', x)"
    "zt_heap z = zt_heap x"
    using assms(2) by (auto simp: append_one_def nodeIsParent_def w_def [symmetric] bind_eq_Some_conv split: if_splits)
  have "opens {} w x" using x(1) assms(1) opens_refl by (auto split: if_splits)
  then have "opens {} y x" using opens_trans opens_set_isParent unfolding w_def by blast
  then show ?thesis using x(2) by (simp add: opens_def)
qed

lemma appendNodes_opens: "appendNodes k S l ns p j False op y = Some (h, z) \<Longrightarrow> opens {} y z"
proof (induction k arbitrary: l ns p j op y h z)
  case (Suc k)
  define f where "f = append_one (\<lambda>children node openFlag. appendNodes k S (l + 1) children (Some node) (-1) False openFlag)
      S l p (\<lambda>i. ((if nodeChildren y (case p of None \<Rightarrow> 0 | Some p \<Rightarrow> p) = None \<or>
          int (length (child_list y (case p of None \<Rightarrow> 0 | Some p \<Rightarrow> p))) - int (length ns) \<le> j then -1 else j) = 0 \<or>
          length (child_list y (case p of None \<Rightarrow> 0 | Some p \<Rightarrow> p)) = length ns) \<and> i = 0)
        (\<lambda>i. (if nodeChildren y (case p of None \<Rightarrow> 0 | Some p \<Rightarrow> p) = None \<or>
          int (length (child_list y (case p of None \<Rightarrow> 0 | Some p \<Rightarrow> p))) - int (length ns) \<le> j then -1 else j) < 0 \<and> Suc i = length ns) False op"
  have run: "foldM f (enumerate 0 ns) ('''', y) = Some (h, z)" using Suc.prems by (simp add: appendNodes.simps Let_def f_def)
  have step: "opens {} (snd s) (snd s')" if "f x s = Some s'" for x s s'
    using append_one_opens [OF Suc.IH] that by (cases x; cases s; cases s') (auto simp: f_def)
  define R where "R = (\<lambda>(s :: string \<times> ztree) (s' :: string \<times> ztree). opens {} (snd s) (snd s'))"
  have "R ('''', y) (h, z)"
    by (rule foldM_keeps [OF _ _ _ run]) (auto simp: R_def step intro: opens_refl elim: opens_trans)
  then show ?case by (simp add: R_def)
qed (simp add: appendNodes.simps)

lemma appendParentULDom_opens: "appendParentULDom k S n y = Some z \<Longrightarrow> opens {} y z"
proof (induction k arbitrary: n y z)
  case (Suc k)
  obtain w where w: "(if \<not> br_has S (zt_log y) (elem_id y n '''') \<and> truthy (zn_parentTId (zt_heap y n))
        then (case getParentNode y n of None \<Rightarrow> None | Some p \<Rightarrow> appendParentULDom k S p y) else Some y) = Some w"
    using Suc.prems by (auto simp: bind_eq_Some_conv simp del: appendParentULDom.simps(1) split: if_splits option.splits)
  have "opens {} y w" using w Suc.IH opens_refl by (auto split: if_splits option.splits)
  moreover define x where "x = (if br_has S (zt_log w) (elem_id w n ''_ul'') then zemit (Remove_Elem (elem_id w n ''_ul'')) w else w)"
  have "opens {} w x" by (simp add: x_def opens_def)
  moreover obtain html v where v: "appendNodes (zt_next x + 1) S (zn_level (zt_heap x n) + 1) (child_list x n) (Some n) (-1) False True x = Some (html, v)"
    "z = zemit (Append (elem_id v n '''') (makeUlHtml S v n html)) v"
    using Suc.prems unfolding appendParentULDom.simps w Option.bind.simps Let_def x_def [symmetric] by (auto simp: bind_eq_Some_conv)
  moreover have "opens {} v z" by (simp add: v(2) opens_def)
  ultimately show ?case using appendNodes_opens [OF v(1)] opens_trans by blast
qed simp

lemma show_children_open:
  "zn_open (zt_heap (show_children S n anim cb z) m) = (if m = n then FBool (\<not> is_open z n) else zn_open (zt_heap z m))"
  by (simp add: show_children_def Let_def set_open_def upd_node_def)

text \<open>Opening or closing one node writes the wanted state into a parent and leaves the others.\<close>

lemma expandCollapseNode_opens:
  assumes "expandCollapseNode S (Some n) flag anim cb y = Some z" "zn_open (zt_heap y n) \<in> range FBool"
  shows "opens {n} y z" "zn_open (zt_heap z n) = (if isParent y n then FBool flag else zn_open (zt_heap y n))"
proof -
  define w where "w = set_isParent n (isParent y n) y"
  define x where "x = (if zt_expandTrigger w then w\<lparr>zt_expandTrigger := False\<rparr> else w)"
  define cb' where "cb' = (if zt_expandTrigger w then Then_Trigger cb n else cb)"
  define g where "g \<longleftrightarrow> \<not> is_open x n \<and> isParent y n \<and> (\<not> br_has S (zt_log x) (elem_id x n ''_ul'') \<or>
      child_list x n \<noteq> [] \<and> \<not> br_has S (zt_log x) (elem_id x (hd (child_list x n)) ''''))"
  obtain v where v: "(if g then map_option (createNodeCallback S) (appendParentULDom (zt_next x + 1) S n x) else Some x) = Some v"
    "(if zn_open (zt_heap v n) = FBool flag then Some (run_callback_of S cb' v)
      else if isParent y n then Some (show_children S n anim cb' v) else Some (run_callback_of S cb' v)) = Some z"
    using assms(1) unfolding expandCollapseNode_Some Let_def w_def [symmetric] x_def [symmetric] cb'_def [symmetric] g_def [symmetric]
      bind_eq_Some_conv by blast
  have "opens {} x v"
    using v(1) appendParentULDom_opens [of "zt_next x + 1" S n x]
    by (cases g) (auto simp: opens_def simp del: appendParentULDom.simps)
  moreover have "opens {} y x" by (simp add: x_def w_def opens_def set_isParent_def upd_node_def)
  ultimately have yv: "zn_open (zt_heap v m) = zn_open (zt_heap y m)" for m by (simp add: opens_def)
  obtain b where b: "zn_open (zt_heap y n) = FBool b" using assms(2) by auto
  show "zn_open (zt_heap z n) = (if isParent y n then FBool flag else zn_open (zt_heap y n))"
    using v(2) b yv by (auto simp: show_children_open is_open_def split: if_splits)
  show "opens {n} y z"
    using v(2) yv by (auto simp: opens_def show_children_open split: if_splits)
qed

lemma expandCollapseSonNode_opens:
  assumes "tree_ok S z T"
  shows "fits k z ts \<Longrightarrow> set (forest_nids ts) \<subseteq> nodes_of T \<Longrightarrow> distinct (forest_nids ts) \<Longrightarrow> same z y \<Longrightarrow>
    \<exists>z'. foldM (\<lambda>c. expandCollapseSonNode k S (Some c) flag anim No_Cb) (map rid ts) y = Some z' \<and> same z z' \<and>
      opens (set (forest_nids ts)) y z' \<and>
      (\<forall>n \<in> set (forest_nids ts). zn_open (zt_heap z' n) = (if isParent z n then FBool flag else zn_open (zt_heap y n)))"
proof (induction arbitrary: y anim rule: fits_induct)
  case (Cons k n us ts)
  have in_T: "set (forest_nids us) \<subseteq> nodes_of T" "set (forest_nids ts) \<subseteq> nodes_of T" "n \<in> nodes_of T"
    using Cons.prems(1) by auto
  have dist: "distinct (forest_nids us)" "distinct (forest_nids ts)" "n \<notin> set (forest_nids us)" "n \<notin> set (forest_nids ts)"
    "set (forest_nids us) \<inter> set (forest_nids ts) = {}" using Cons.prems(2) by auto
  obtain w where w: "foldM (\<lambda>c. expandCollapseSonNode k S (Some c) flag False No_Cb) (map rid us) (y\<lparr>zt_expandTrigger := False\<rparr>) = Some w" "same z w"
    "opens (set (forest_nids us)) y w" "\<forall>n \<in> set (forest_nids us). zn_open (zt_heap w n) = (if isParent z n then FBool flag else zn_open (zt_heap y n))"
    using Cons.IH(1) [OF in_T(1) dist(1) same_trans [OF Cons.prems(3) same_trigger], of False False] by (auto simp: opens_def)
  have sw: "same z (w\<lparr>zt_expandTrigger := zt_expandTrigger y\<rparr>)" by (rule same_trans [OF w(2) same_trigger])
  have "\<exists>v. expandCollapseNode S (Some n) flag anim No_Cb (w\<lparr>zt_expandTrigger := zt_expandTrigger y\<rparr>) = Some v \<and> same z v"
    by (rule expandCollapseNode_same [OF assms]) (use in_T(3) sw in auto)
  then obtain v where v: "expandCollapseNode S (Some n) flag anim No_Cb (w\<lparr>zt_expandTrigger := zt_expandTrigger y\<rparr>) = Some v" "same z v"
    by blast
  have "settled (zt_heap z n)" using tree_okD(6) [OF assms] in_T(3) by blast
  then have "settled (zt_heap w n)" by (rule same_settled [OF w(2)])
  then have "zn_open (zt_heap (w\<lparr>zt_expandTrigger := zt_expandTrigger y\<rparr>) n) \<in> range FBool" by (simp add: settled_def)
  note vo = expandCollapseNode_opens [OF v(1) this]
  obtain x where x: "foldM (\<lambda>c. expandCollapseSonNode (Suc k) S (Some c) flag anim No_Cb) (map rid ts) v = Some x" "same z x"
    "opens (set (forest_nids ts)) v x" "\<forall>n \<in> set (forest_nids ts). zn_open (zt_heap x n) = (if isParent z n then FBool flag else zn_open (zt_heap v n))"
    using Cons.IH(2) [OF in_T(2) dist(2) v(2)] by blast
  have "child_list y n = map rid us" using Cons.hyps(1) sameD(1) [OF Cons.prems(3)] by simp
  then have "expandCollapseSonNode (Suc k) S (Some n) flag anim No_Cb y = Some v"
    using w(1) v(1) by (simp add: Let_def)
  then have run: "foldM (\<lambda>c. expandCollapseSonNode (Suc k) S (Some c) flag anim No_Cb) (map rid (Rose n us # ts)) y = Some x"
    using x(1) by (simp del: expandCollapseSonNode.simps)
  have wo: "zn_open (zt_heap w m) = zn_open (zt_heap y m)" if "m \<notin> set (forest_nids us)" for m using w(3) that by (simp add: opens_def)
  have vw: "zn_open (zt_heap v m) = zn_open (zt_heap w m)" if "m \<noteq> n" for m using vo(1) that by (simp add: opens_def)
  have vn: "zn_open (zt_heap v n) = (if isParent z n then FBool flag else zn_open (zt_heap y n))"
    using vo(2) sameD(4) [OF sw] wo [OF dist(3)] by (simp add: isParent_def)
  have xv: "zn_open (zt_heap x m) = zn_open (zt_heap v m)" if "m \<notin> set (forest_nids ts)" for m using x(3) that by (simp add: opens_def)
  have "opens (set (forest_nids (Rose n us # ts))) y x" using xv vw wo by (simp add: opens_def)
  moreover have "zn_open (zt_heap x m) = (if isParent z m then FBool flag else zn_open (zt_heap y m))"
    if m: "m \<in> set (forest_nids (Rose n us # ts))" for m
  proof -
    consider "m = n" | "m \<in> set (forest_nids us)" | "m \<in> set (forest_nids ts)" using m by auto
    then show ?thesis
    proof cases
      case 1
      then show ?thesis using xv [OF dist(4)] vn by simp
    next
      case 2
      then have "m \<notin> set (forest_nids ts)" "m \<noteq> n" using dist by auto
      then show ?thesis using xv vw w(4) 2 by simp
    next
      case 3
      then have "m \<notin> set (forest_nids us)" "m \<noteq> n" using dist by auto
      then show ?thesis using x(4) 3 vw wo by simp
    qed
  qed
  ultimately show ?case using run x(2) by blast
qed (auto intro: opens_refl)

end
