(* ===== verification/ZTree_Init.thy ===== *)
theory ZTree_Init
  imports ZTree_Keep
begin

text \<open>
  What \<open>appendNodes\<close> does to a forest of new nodes: it numbers them in preorder, enters them in the
  cache and writes into each its place in the tree. \<open>inited\<close> says which fields of which objects change;
  two runs compose to one over the concatenated list of nodes.
\<close>

section \<open>Numbering a list of nodes\<close>

definition inited :: "zsetting \<Rightarrow> ztree \<Rightarrow> nid list \<Rightarrow> ztree \<Rightarrow> bool" where
  "inited S z ns z' \<longleftrightarrow>
     zt_next z' = zt_next z \<and> zt_selected z' = zt_selected z \<and> zt_ver z' = zt_ver z \<and> zt_pending z' = zt_pending z \<and>
     zt_expandTrigger z' = zt_expandTrigger z \<and> zt_log z' = zt_log z \<and> zt_zId z' = zt_zId z + length ns \<and>
     (\<forall>n. n \<notin> set ns \<longrightarrow> zt_heap z' n = zt_heap z n) \<and>
     (\<forall>n. zn_children (zt_heap z' n) = zn_children (zt_heap z n)) \<and>
     (\<forall>n k. \<not> zs_simple S \<or> k \<noteq> zs_pIdKey S \<longrightarrow> zn_attr (zt_heap z' n) k = zn_attr (zt_heap z n) k) \<and>
     (\<forall>i < length ns. zn_tId (zt_heap z' (ns ! i)) = Some (make_tId S (zt_zId z + 1 + i)) \<and>
        zt_cache z' (decimal (zt_zId z + 1 + i)) = Some (ns ! i)) \<and>
     (\<forall>key. (\<forall>i < length ns. key \<noteq> decimal (zt_zId z + 1 + i)) \<longrightarrow> zt_cache z' key = zt_cache z key) \<and>
     (\<forall>n \<in> set ns. settled (zt_heap z' n))"

lemma initedD:
  assumes "inited S z ns z'"
  shows "zt_next z' = zt_next z" "zt_selected z' = zt_selected z" "zt_ver z' = zt_ver z" "zt_pending z' = zt_pending z"
    "zt_expandTrigger z' = zt_expandTrigger z" "zt_log z' = zt_log z" "zt_zId z' = zt_zId z + length ns"
    "n \<notin> set ns \<Longrightarrow> zt_heap z' n = zt_heap z n" "zn_children (zt_heap z' n) = zn_children (zt_heap z n)"
    "\<not> zs_simple S \<or> k \<noteq> zs_pIdKey S \<Longrightarrow> zn_attr (zt_heap z' n) k = zn_attr (zt_heap z n) k"
    "i < length ns \<Longrightarrow> zn_tId (zt_heap z' (ns ! i)) = Some (make_tId S (zt_zId z + 1 + i))"
    "i < length ns \<Longrightarrow> zt_cache z' (decimal (zt_zId z + 1 + i)) = Some (ns ! i)"
    "\<forall>i < length ns. key \<noteq> decimal (zt_zId z + 1 + i) \<Longrightarrow> zt_cache z' key = zt_cache z key"
    "n \<in> set ns \<Longrightarrow> settled (zt_heap z' n)" "child_list z' n = child_list z n" "nodeChildren z' n = nodeChildren z n"
  using assms unfolding inited_def by (simp_all add: child_list_def nodeChildren_def)

lemma inited_Nil: "inited S z [] z"
  by (simp add: inited_def)

lemma inited_created: "inited S z ns z' \<Longrightarrow> inited S z ns (z'\<lparr>zt_created := cs\<rparr>)"
  by (simp add: inited_def)

lemma inited_addCreatedNode: "inited S z ns z' \<Longrightarrow> inited S z ns (addCreatedNode S' n z')"
  by (simp add: addCreatedNode_def inited_created)

lemma inited_append:
  assumes "inited S z ns y" "inited S y ms x" "set ns \<inter> set ms = {}"
  shows "inited S z (ns @ ms) x"
proof -
  note a = initedD [OF assms(1)] and b = initedD [OF assms(2)]
  have old: "zt_heap x n = zt_heap y n" if "n \<in> set ns" for n using b(8) assms(3) that by blast
  have ids: "zn_tId (zt_heap x ((ns @ ms) ! i)) = Some (make_tId S (zt_zId z + 1 + i)) \<and>
      zt_cache x (decimal (zt_zId z + 1 + i)) = Some ((ns @ ms) ! i)" if i: "i < length (ns @ ms)" for i
  proof (cases "i < length ns")
    case True
    have "\<forall>j < length ms. decimal (zt_zId z + 1 + i) \<noteq> decimal (zt_zId y + 1 + j)"
      using True a(7) by (simp add: decimal_inj)
    from b(13) [OF this] a(11) [OF True] a(12) [OF True] old [of "ns ! i"] True show ?thesis by (simp add: nth_append)
  next
    case False
    then have j: "i - length ns < length ms" and e: "zt_zId z + 1 + i = zt_zId y + 1 + (i - length ns)" using i a(7) by simp_all
    show ?thesis using b(11) [OF j] b(12) [OF j] False unfolding e by (simp add: nth_append)
  qed
  have other: "zt_cache x key = zt_cache z key" if k: "\<forall>i < length (ns @ ms). key \<noteq> decimal (zt_zId z + 1 + i)" for key
  proof -
    have "\<forall>j < length ms. key \<noteq> decimal (zt_zId y + 1 + j)"
    proof (intro allI impI)
      fix j assume "j < length ms"
      then show "key \<noteq> decimal (zt_zId y + 1 + j)" using k [rule_format, of "length ns + j"] a(7) by (simp add: add_ac)
    qed
    with b(13) a(13) k show ?thesis by simp
  qed
  have s: "settled (zt_heap x n)" if "n \<in> set (ns @ ms)" for n
    using that a(14) b(14) old by (cases "n \<in> set ms") auto
  show ?thesis unfolding inited_def
  proof (intro conjI)
    show "\<forall>i < length (ns @ ms). zn_tId (zt_heap x ((ns @ ms) ! i)) = Some (make_tId S (zt_zId z + 1 + i)) \<and>
        zt_cache x (decimal (zt_zId z + 1 + i)) = Some ((ns @ ms) ! i)" using ids by blast
    show "\<forall>key. (\<forall>i < length (ns @ ms). key \<noteq> decimal (zt_zId z + 1 + i)) \<longrightarrow> zt_cache x key = zt_cache z key" using other by blast
    show "\<forall>n \<in> set (ns @ ms). settled (zt_heap x n)" using s by blast
  qed (use a b in simp_all)
qed

section \<open>One node\<close>

definition known :: "zsetting \<Rightarrow> ztree \<Rightarrow> nid option \<Rightarrow> bool" where
  \<comment> \<open>the parent of new nodes, the root object or a node of the tree\<close>
  "known S z p \<longleftrightarrow> (\<forall>q. p = Some q \<longrightarrow> (\<exists>j \<le> zt_zId z. zn_tId (zt_heap z q) = Some (make_tId S j) \<and> zt_cache z (decimal j) = Some q))"

definition at :: "ztree \<Rightarrow> nid \<Rightarrow> nid option \<Rightarrow> nat \<Rightarrow> bool \<Rightarrow> bool \<Rightarrow> bool" where
  "at z n p l f b \<longleftrightarrow> zn_parentTId (zt_heap z n) = (case p of None \<Rightarrow> None | Some q \<Rightarrow> zn_tId (zt_heap z q)) \<and>
     zn_level (zt_heap z n) = l \<and> zn_first (zt_heap z n) = f \<and> zn_last (zt_heap z n) = b"

lemma known_inited:
  assumes "known S z p" "inited S z ns z'" "\<And>q. p = Some q \<Longrightarrow> q \<notin> set ns"
  shows "known S z' p"
  unfolding known_def
proof (intro allI impI)
  fix q assume q: "p = Some q"
  then obtain j where j: "j \<le> zt_zId z" "zn_tId (zt_heap z q) = Some (make_tId S j)" "zt_cache z (decimal j) = Some q"
    using assms(1) by (auto simp: known_def)
  have "zt_cache z' (decimal j) = Some q" using initedD(13) [OF assms(2), of "decimal j"] j by (simp add: decimal_inj)
  then show "\<exists>j \<le> zt_zId z'. zn_tId (zt_heap z' q) = Some (make_tId S j) \<and> zt_cache z' (decimal j) = Some q"
    using j initedD(7) [OF assms(2)] initedD(8) [OF assms(2), of q] assms(3) [OF q] by (auto intro!: exI [of _ j])
qed

lemma initNode_inited:
  assumes "known S z p" "p \<noteq> Some n"
  shows "\<exists>y. initNode S l n p f b z = Some y \<and> inited S z [n] (addNodeCache n y) \<and> at (addNodeCache n y) n p l f b \<and>
    known S (addNodeCache n y) (Some n)"
proof -
  obtain v where v: "initNode S l n p f b z = fixPIdKeyValue S n (upd_node n (\<lambda>_. v) (z\<lparr>zt_zId := zt_zId z + 1\<rparr>))"
    "zn_attr v = zn_attr (zt_heap z n)" "zn_children v = zn_children (zt_heap z n)" "zn_level v = l"
    "zn_tId v = Some (make_tId S (zt_zId z + 1))" "zn_parentTId v = (case p of None \<Rightarrow> None | Some q \<Rightarrow> zn_tId (zt_heap z q))"
    "zn_first v = f" "zn_last v = b" "settled v"
    by (cases "zn_children (zt_heap z n)") (simp_all add: initNode_def Let_def make_tId_def settled_def cong: option.case_cong)
  have vv: "v\<lparr>zn_attr := zn_attr (zt_heap z n)\<rparr> = v" by (simp flip: v(2))
  define w where "w = upd_node n (\<lambda>_. v) (z\<lparr>zt_zId := zt_zId z + 1\<rparr>)"
  have "\<exists>a. fixPIdKeyValue S n w = Some (upd_node n (\<lambda>v. v\<lparr>zn_attr := a\<rparr>) w) \<and>
     (\<forall>k. \<not> zs_simple S \<or> k \<noteq> zs_pIdKey S \<longrightarrow> a k = zn_attr (zt_heap z n) k)"
  proof (cases "zs_simple S \<and> truthy (zn_parentTId (zt_heap w n))")
    case True
    then obtain q where q: "p = Some q" by (cases p) (auto simp: w_def upd_node_def v)
    with assms(1) obtain j where "zn_tId (zt_heap z q) = Some (make_tId S j)" "zt_cache z (decimal j) = Some q" by (auto simp: known_def)
    then have "getParentNode w n = Some q"
      using q by (simp add: getParentNode_def getNodeCache_def w_def upd_node_def v getNodeCacheId_make)
    then show ?thesis using True
      by (auto simp: fixPIdKeyValue_def w_def upd_node_def v intro!: exI [of _ "(zn_attr (zt_heap z n))(zs_pIdKey S := attr w q (zs_idKey S))"])
  next
    case False
    then consider "\<not> zs_simple S" | "zs_simple S" "\<not> truthy (zn_parentTId (zt_heap w n))" by blast
    then show ?thesis
    proof cases
      case 1
      then show ?thesis by (auto simp: fixPIdKeyValue_def w_def upd_node_def v vv intro!: exI [of _ "zn_attr (zt_heap z n)"])
    next
      case 2
      then show ?thesis
        by (auto simp: fixPIdKeyValue_def w_def upd_node_def v intro!: exI [of _ "(zn_attr (zt_heap z n))(zs_pIdKey S := zs_rootPId S)"])
    qed
  qed
  then obtain a where a: "fixPIdKeyValue S n w = Some (upd_node n (\<lambda>v. v\<lparr>zn_attr := a\<rparr>) w)"
    "\<And>k. \<not> zs_simple S \<or> k \<noteq> zs_pIdKey S \<Longrightarrow> a k = zn_attr (zt_heap z n) k" by blast
  define y where "y = addNodeCache n (upd_node n (\<lambda>v. v\<lparr>zn_attr := a\<rparr>) w)"
  have y: "zt_heap y = (zt_heap z)(n := v\<lparr>zn_attr := a\<rparr>)" "zt_next y = zt_next z" "zt_selected y = zt_selected z" "zt_ver y = zt_ver z"
    "zt_pending y = zt_pending z" "zt_expandTrigger y = zt_expandTrigger z" "zt_log y = zt_log z" "zt_zId y = zt_zId z + 1"
    "zt_cache y = (zt_cache z)(decimal (zt_zId z + 1) := Some n)"
    by (simp_all add: y_def addNodeCache_def w_def upd_node_def v getNodeCacheId_make)
  have "inited S z [n] y" using v a(2) by (simp add: inited_def y settled_def)
  moreover have "at y n p l f b" using assms(2) by (auto simp: at_def y v split: option.split)
  moreover have "known S y (Some n)" by (auto simp: known_def y v intro!: exI [of _ "zt_zId z + 1"])
  ultimately show ?thesis unfolding v(1) w_def [symmetric] a(1) y_def by blast
qed

lemma at_frame:
  assumes "at z n p l f b" "zt_heap z' n = zt_heap z n" "\<And>q. p = Some q \<Longrightarrow> zt_heap z' q = zt_heap z q"
  shows "at z' n p l f b"
  using assms by (cases p) (auto simp: at_def)

lemma placed_iff_at:
  "placed z p \<longleftrightarrow> (\<forall>i < length (child_list z p). at z (child_list z p ! i) (if p = 0 then None else Some p)
     (if p = 0 then 0 else Suc (zn_level (zt_heap z p))) (i = 0) (Suc i = length (child_list z p)))"
  by (simp add: placed_def at_def Let_def)

lemma placed_same_fields:
  assumes "placed z p" "child_list z' p = child_list z p"
    "zn_tId (zt_heap z' p) = zn_tId (zt_heap z p)" "zn_level (zt_heap z' p) = zn_level (zt_heap z p)"
    "\<And>c. c \<in> set (child_list z p) \<Longrightarrow> zn_parentTId (zt_heap z' c) = zn_parentTId (zt_heap z c) \<and> zn_level (zt_heap z' c) = zn_level (zt_heap z c) \<and>
      zn_first (zt_heap z' c) = zn_first (zt_heap z c) \<and> zn_last (zt_heap z' c) = zn_last (zt_heap z c)"
  shows "placed z' p"
  unfolding placed_def Let_def assms(2-4)
proof (intro allI impI)
  fix i assume i: "i < length (child_list z p)"
  note f = assms(5) [OF nth_mem [OF i]]
  show "zn_parentTId (zt_heap z' (child_list z p ! i)) = (if p = 0 then None else zn_tId (zt_heap z p)) \<and>
      zn_level (zt_heap z' (child_list z p ! i)) = (if p = 0 then 0 else Suc (zn_level (zt_heap z p))) \<and>
      zn_first (zt_heap z' (child_list z p ! i)) = (i = 0) \<and> zn_last (zt_heap z' (child_list z p ! i)) = (Suc i = length (child_list z p))"
    using assms(1) i f unfolding placed_def Let_def by simp
qed

lemma placed_frame:
  assumes "placed z p" "zt_heap z' p = zt_heap z p" "\<And>c. c \<in> set (child_list z p) \<Longrightarrow> zt_heap z' c = zt_heap z c"
  shows "placed z' p"
  by (rule placed_same_fields [OF assms(1)]) (use assms(2,3) in \<open>simp_all add: child_list_def nodeChildren_def\<close>)

lemma nodeIsParent_settled:
  assumes "settled (zt_heap z n)"
  shows "nodeIsParent n z = (isParent z n, z)"
proof -
  obtain b where b: "zn_isParent (zt_heap z n) = FBool b" using assms by (auto simp: settled_def)
  have "(zt_heap z n)\<lparr>zn_isParent := FBool b\<rparr> = zt_heap z n" by (simp flip: b)
  then have "(zt_heap z)(n := (zt_heap z n)\<lparr>zn_isParent := FBool b\<rparr>) = zt_heap z" by simp
  then show ?thesis by (simp add: nodeIsParent_def set_isParent_def upd_node_def isParent_def b flag_bool_def)
qed

section \<open>A forest\<close>

text \<open>One node of the loop, when the call for its children does what it should.\<close>

lemma append_one_init:
  assumes "known S y p" "p \<noteq> Some n" "\<And>q. p = Some q \<Longrightarrow> q \<notin> set (forest_nids us)" "n \<noteq> 0" "n \<notin> set (forest_nids us)"
    and "child_list y n = map rid us" "set (map rid us) \<subseteq> set (forest_nids us)"
    and rec: "\<And>x op. us \<noteq> [] \<Longrightarrow> inited S y [n] x \<Longrightarrow> known S x (Some n) \<Longrightarrow> \<exists>h z'. rec (map rid us) n op x = Some (h, z') \<and>
      inited S x (forest_nids us) z' \<and> (\<forall>m \<in> set (forest_nids us). placed z' m) \<and>
      (\<forall>i < length us. at z' (rid (us ! i)) (Some n) (Suc l) (i = 0) (Suc i = length us))"
  shows "\<exists>h z'. append_one rec S l p fs ls True op (i, n) (html, y) = Some (h, z') \<and> inited S y (n # forest_nids us) z' \<and>
    (\<forall>m \<in> set (n # forest_nids us). placed z' m) \<and> at z' n p l (fs i) (ls i)"
proof -
  obtain w where w: "initNode S l n p (fs i) (ls i) y = Some w" "inited S y [n] (addNodeCache n w)"
    "at (addNodeCache n w) n p l (fs i) (ls i)" "known S (addNodeCache n w) (Some n)"
    using initNode_inited [OF assms(1,2)] by blast
  define x where "x = addNodeCache n w"
  note x = w(2-4) [folded x_def]
  have c: "child_list x n = map rid us" using initedD(15) [OF x(1)] assms(6) by simp
  have "\<exists>h v. (if child_list x n \<noteq> [] then rec (child_list x n) n (op \<and> is_open x n) x else Some ('''', x)) = Some (h, v) \<and>
      inited S x (forest_nids us) v \<and> (\<forall>m \<in> set (forest_nids us). placed v m) \<and>
      (\<forall>i < length us. at v (rid (us ! i)) (Some n) (Suc l) (i = 0) (Suc i = length us))"
  proof (cases "us = []")
    case True
    then show ?thesis using c inited_Nil by simp
  next
    case False
    then show ?thesis using rec [OF False x(1,3)] c by simp
  qed
  then obtain h v where v: "(if child_list x n \<noteq> [] then rec (child_list x n) n (op \<and> is_open x n) x else Some ('''', x)) = Some (h, v)"
    "inited S x (forest_nids us) v" "\<forall>m \<in> set (forest_nids us). placed v m"
    "\<forall>i < length us. at v (rid (us ! i)) (Some n) (Suc l) (i = 0) (Suc i = length us)" by blast
  have i: "inited S y (n # forest_nids us) v" using inited_append [OF x(1) v(2)] assms(5) by simp
  have n: "zt_heap v n = zt_heap x n" using initedD(8) [OF v(2) assms(5)] .
  have a: "at v n p l (fs i) (ls i)" by (rule at_frame [OF x(2) n]) (use initedD(8) [OF v(2)] assms(3) in simp)
  have "child_list v n = map rid us" using initedD(15) [OF v(2)] c by simp
  then have "placed v n" using v(4) a assms(4) by (simp add: placed_iff_at at_def)
  then have p: "\<forall>m \<in> set (n # forest_nids us). placed v m" using v(3) by simp
  define v' where "v' = (if op then addCreatedNode S n v else v)"
  have h: "zt_heap v' = zt_heap v" by (simp add: v'_def addCreatedNode_def)
  have "nodeIsParent n x = (isParent x n, x)" by (rule nodeIsParent_settled) (rule initedD(14) [OF x(1)], simp)
  then have "append_one rec S l p fs ls True op (i, n) (html, y) =
      Some (if op then html @ node_html S v n (isParent x n) h else html, v')"
    using v(1) w(1) by (simp add: append_one_def x_def [symmetric] v'_def)
  moreover have "inited S y (n # forest_nids us) v'" using i inited_addCreatedNode by (simp add: v'_def)
  moreover have "placed v' m \<longleftrightarrow> placed v m" "at v' m q k f b \<longleftrightarrow> at v m q k f b" for m q k f b
    by (simp_all add: placed_def at_def h child_list_def nodeChildren_def cong: option.case_cong)
  ultimately show ?thesis using p a by simp
qed

text \<open>
  The whole loop, by induction over the bound and the trees. The children of every object are those
  of \<open>z\<close> throughout, so that \<open>z\<close> gives the shape.
\<close>

lemma appendNodes_init:
  assumes "fits k z ts" "\<And>n. child_list y n = child_list z n" "distinct (forest_nids ts)" "0 \<notin> set (forest_nids ts)"
    "known S y p" "\<And>q. p = Some q \<Longrightarrow> q \<notin> set (forest_nids ts)" "nodeChildren y (case p of None \<Rightarrow> 0 | Some q \<Rightarrow> q) \<noteq> None"
    and j': "j' = (if int (length (child_list y (case p of None \<Rightarrow> 0 | Some q \<Rightarrow> q))) - int (length ts) \<le> j then -1 else j)"
  shows "\<exists>h z'. appendNodes k S l (map rid ts) p j True op y = Some (h, z') \<and> inited S y (forest_nids ts) z' \<and>
    (\<forall>m \<in> set (forest_nids ts). placed z' m) \<and>
    (\<forall>i < length ts. at z' (rid (ts ! i)) p l
       ((j' = 0 \<or> length (child_list y (case p of None \<Rightarrow> 0 | Some q \<Rightarrow> q)) = length ts) \<and> i = 0)
       (j' < 0 \<and> Suc i = length ts))"
  using assms
proof (induction k arbitrary: ts y l p j j' op)
  case 0
  then show ?case by (simp add: fits_def)
next
  case (Suc k)
  define rec where "rec = (\<lambda>children node op. appendNodes k S (l + 1) children (Some node) (-1) True op)"
  have loop: "\<exists>h z'. foldM (append_one rec S l p fs ls True op) (enumerate i (map rid ts)) (html, y) = Some (h, z') \<and>
      inited S y (forest_nids ts) z' \<and> (\<forall>m \<in> set (forest_nids ts). placed z' m) \<and>
      (\<forall>m < length ts. at z' (rid (ts ! m)) p l (fs (i + m)) (ls (i + m)))"
    if "fits (Suc k) z ts" "\<And>n. child_list y n = child_list z n" "distinct (forest_nids ts)" "0 \<notin> set (forest_nids ts)"
      "known S y p" "\<And>q. p = Some q \<Longrightarrow> q \<notin> set (forest_nids ts)" for ts y i html fs ls
    using that
  proof (induction ts arbitrary: y i html)
    case Nil
    then show ?case using inited_Nil by simp
  next
    case (Cons t ts)
    obtain n us where t: "t = Rose n us" by (cases t) auto
    note d = fits_down [OF Cons.prems(1) [unfolded t]]
    have dist: "n \<notin> set (forest_nids us)" "n \<notin> set (forest_nids ts)" "distinct (forest_nids us)" "distinct (forest_nids ts)"
      "set (forest_nids us) \<inter> set (forest_nids ts) = {}" using Cons.prems(3) by (auto simp: t)
    have c: "child_list y n = map rid us" using Cons.prems(2) d(2) by simp
    have in_us: "set (map rid us) \<subseteq> set (forest_nids us)" using rid_forest by auto
    have fresh: "p \<noteq> Some n" "\<And>q. p = Some q \<Longrightarrow> q \<notin> set (forest_nids us) \<and> q \<notin> set (forest_nids ts) \<and> q \<noteq> n"
      using Cons.prems(6) by (auto simp: t)
    have below: "\<exists>h z'. rec (map rid us) n op x = Some (h, z') \<and> inited S x (forest_nids us) z' \<and>
        (\<forall>m \<in> set (forest_nids us). placed z' m) \<and>
        (\<forall>i < length us. at z' (rid (us ! i)) (Some n) (Suc l) (i = 0) (Suc i = length us))"
      if "us \<noteq> []" "inited S y [n] x" "known S x (Some n)" for x op
    proof -
      have cx: "child_list x m = child_list y m" for m by (rule initedD(15) [OF that(2)])
      have "nodeChildren x n \<noteq> None" using cx [of n] c that(1) by (auto simp: child_list_def split: option.splits)
      then show ?thesis
        using Suc.IH [OF d(1), of x "Some n" "-1" "-1" "l + 1" op] cx Cons.prems(2,4) c dist that(3) unfolding rec_def by (simp add: t)
    qed
    have n0: "n \<noteq> 0" using Cons.prems(4) by (simp add: t)
    have "\<exists>h x. append_one rec S l p fs ls True op (i, n) (html, y) = Some (h, x) \<and> inited S y (n # forest_nids us) x \<and>
      (\<forall>m \<in> set (n # forest_nids us). placed x m) \<and> at x n p l (fs i) (ls i)"
    proof (rule append_one_init)
      show "known S y p" "p \<noteq> Some n" "n \<noteq> 0" "n \<notin> set (forest_nids us)" "child_list y n = map rid us"
        "set (map rid us) \<subseteq> set (forest_nids us)" by (rule Cons.prems(5) fresh(1) n0 dist(1) c in_us)+
    qed (use fresh(2) in blast, rule below)
    then obtain h x where x: "append_one rec S l p fs ls True op (i, n) (html, y) = Some (h, x)" "inited S y (n # forest_nids us) x"
      "\<forall>m \<in> set (n # forest_nids us). placed x m" "at x n p l (fs i) (ls i)" by blast
    have cx: "child_list x m = child_list y m" for m by (rule initedD(15) [OF x(2)])
    have kx: "known S x p" by (rule known_inited [OF Cons.prems(5) x(2)]) (use fresh in auto)
    obtain h' z' where z': "foldM (append_one rec S l p fs ls True op) (enumerate (Suc i) (map rid ts)) (h, x) = Some (h', z')"
      "inited S x (forest_nids ts) z'" "\<forall>m \<in> set (forest_nids ts). placed z' m"
      "\<forall>m < length ts. at z' (rid (ts ! m)) p l (fs (Suc i + m)) (ls (Suc i + m))"
      using Cons.IH [OF d(3), of x "Suc i" h] cx kx Cons.prems(2,4) dist fresh(2) by (auto simp: t)
    have same_heap: "zt_heap z' m = zt_heap x m" if "m \<notin> set (forest_nids ts)" for m by (rule initedD(8) [OF z'(2) that])
    have old: "\<forall>m \<in> set (n # forest_nids us). placed z' m"
    proof
      fix m assume m: "m \<in> set (n # forest_nids us)"
      have sh: "shape z (Rose n us)" using Cons.prems(1) by (simp add: fits_def t)
      have "set (child_list x m) \<subseteq> set (n # forest_nids us)"
        using children_inside [OF sh, of m] m cx Cons.prems(2) by simp
      then show "placed z' m" using placed_frame [of x m z'] x(3) m same_heap dist by (auto simp: disjoint_iff)
    qed
    have first: "at z' n p l (fs i) (ls i)" by (rule at_frame [OF x(4)]) (use same_heap dist fresh(2) in auto)
    have "inited S y ((n # forest_nids us) @ forest_nids ts) z'" by (rule inited_append [OF x(2) z'(2)]) (use dist in auto)
    moreover have "\<forall>m < length (t # ts). at z' (rid ((t # ts) ! m)) p l (fs (i + m)) (ls (i + m))"
    proof (intro allI impI)
      fix m assume "m < length (t # ts)"
      then show "at z' (rid ((t # ts) ! m)) p l (fs (i + m)) (ls (i + m))"
        using first z'(4) by (cases m) (auto simp: t)
    qed
    ultimately show ?case using x(1) z'(1,3) old by (auto simp: t)
  qed
  show ?case using loop [OF Suc.prems(1-6), of _ _ 0] Suc.prems(7,8)
    by (simp add: appendNodes.simps Let_def rec_def child_list_def)
qed

end
