(* ===== verification/ZTree_Graft.thy ===== *)
theory ZTree_Graft
  imports ZTree_Init "HOL-Library.Multiset"
begin

text \<open>
  Adding nodes as an operation on trees: \<open>graft\<close> puts a forest among the children of one node. The
  lists of children change as \<open>graft\<close> says, the new nodes are numbered, and the invariant of the
  tree holds again.
\<close>

section \<open>Grafting a forest\<close>

definition insert_at :: "int \<Rightarrow> 'a list \<Rightarrow> 'a list \<Rightarrow> 'a list" where
  \<comment> \<open>the new elements, at an index of the old list or at its end\<close>
  "insert_at i xs ys = (if i < 0 \<or> int (length ys) \<le> i then ys @ xs else take (nat i) ys @ xs @ drop (nat i) ys)"

primrec graft :: "nid \<Rightarrow> int \<Rightarrow> rose list \<Rightarrow> rose \<Rightarrow> rose" where
  "graft p i G (Rose n ts) = Rose n (if n = p then insert_at i G ts else map (graft p i G) ts)"

lemma insert_at_map: "insert_at i (map f xs) (map f ys) = map f (insert_at i xs ys)"
  by (simp add: insert_at_def take_map drop_map)

lemma insert_at_set [simp]: "set (insert_at i xs ys) = set xs \<union> set ys"
proof -
  have "set (take k ys) \<union> set (drop k ys) = set ys" for k
    using arg_cong [OF append_take_drop_id [of k ys], of set] by (simp only: set_append)
  then show ?thesis by (auto simp: insert_at_def)
qed

lemma insert_at_length [simp]: "length (insert_at i xs ys) = length xs + length ys"
  by (auto simp: insert_at_def)

lemma rid_graft [simp]: "rid (graft p i G t) = rid t"
  by (cases t) simp

lemma rid_graft_o [simp]: "rid \<circ> graft p i G = rid"
  by (rule ext) simp

lemma graft_id: "p \<notin> set (nids t) \<Longrightarrow> graft p i G t = t"
proof (induction t)
  case (Rose n ts)
  then have "graft p i G t = t" if "t \<in> set ts" for t using that by (auto simp: in_forest_nids)
  then have "map (graft p i G) ts = ts" by (simp add: map_idI)
  with Rose.prems show ?case by auto
qed

lemma mset_insert_at: "mset (forest_nids (insert_at i G ts)) = mset (forest_nids G) + mset (forest_nids ts)"
proof -
  have "mset (forest_nids (take k ts)) + mset (forest_nids (drop k ts)) = mset (forest_nids ts)" for k
    using arg_cong [OF append_take_drop_id [of k ts], of "\<lambda>ts. mset (forest_nids ts)"] by (simp del: append_take_drop_id)
  then show ?thesis by (simp add: insert_at_def add_ac)
qed

lemma mset_graft:
  "distinct (nids t) \<Longrightarrow> p \<in> set (nids t) \<Longrightarrow> mset (nids (graft p i G t)) = mset (nids t) + mset (forest_nids G)"
proof (induction t)
  case (Rose n ts)
  show ?case
  proof (cases "n = p")
    case True
    then show ?thesis by (simp add: mset_insert_at)
  next
    case False
    have "mset (forest_nids (map (graft p i G) us)) = mset (forest_nids us) + mset (forest_nids G)"
      if "set us \<subseteq> set ts" "distinct (forest_nids us)" "p \<in> set (forest_nids us)" for us
      using that
    proof (induction us)
      case (Cons u us)
      have d: "forest_nids (v # vs) = nids v @ forest_nids vs" for v vs by (simp add: forest_nids_def)
      show ?case
      proof (cases "p \<in> set (nids u)")
        case True
        then have "p \<notin> set (forest_nids us)" using Cons.prems(2) by (auto simp: d)
        then have "p \<notin> set (nids t)" if "t \<in> set us" for t using that by (simp add: in_forest_nids)
        then have "map (graft p i G) us = us" by (simp add: graft_id map_idI)
        moreover have "mset (nids (graft p i G u)) = mset (nids u) + mset (forest_nids G)"
          by (rule Rose.IH) (use True Cons.prems in \<open>auto simp: d\<close>)
        ultimately show ?thesis by (simp add: d)
      next
        case False
        then show ?thesis using Cons by (simp add: d graft_id)
      qed
    qed simp
    from this [of ts] False Rose.prems show ?thesis by auto
  qed
qed

lemma graft_nids:
  assumes "distinct (nids t)" "p \<in> set (nids t)" "distinct (forest_nids G)" "set (nids t) \<inter> set (forest_nids G) = {}"
  shows "distinct (nids (graft p i G t))" "set (nids (graft p i G t)) = set (nids t) \<union> set (forest_nids G)"
proof -
  have m: "mset (nids (graft p i G t)) = mset (nids t @ forest_nids G)" using mset_graft [OF assms(1,2)] by simp
  show "distinct (nids (graft p i G t))" using mset_eq_imp_distinct_iff [OF m] assms by simp
  show "set (nids (graft p i G t)) = set (nids t) \<union> set (forest_nids G)" using mset_eq_setD [OF m] by simp
qed

lemma shape_graft:
  assumes "child_list y p = insert_at i (map rid G) (child_list z p)" "\<And>n. n \<noteq> p \<Longrightarrow> child_list y n = child_list z n"
    "\<And>t. t \<in> set G \<Longrightarrow> shape z t" "p \<notin> set (forest_nids G)"
  shows "shape z t \<Longrightarrow> distinct (nids t) \<Longrightarrow> shape y (graft p i G t)"
proof (induction t)
  case (Rose n ts)
  have keep: "shape y t" if "shape z t" "p \<notin> set (nids t)" for t
  proof -
    have "child_list y m = child_list z m" if "m \<in> set (nids t)" for m using that \<open>p \<notin> set (nids t)\<close> assms(2) by metis
    then show ?thesis using shape_child_list [of t y z] that(1) by simp
  qed
  show ?case
  proof (cases "n = p")
    case True
    then have "shape y t" if "t \<in> set ts" for t using keep Rose.prems that by (auto simp: in_forest_nids)
    moreover have "shape y t" if "t \<in> set G" for t using keep assms(3,4) that by (auto simp: in_forest_nids)
    ultimately show ?thesis using True assms(1) Rose.prems by (auto simp: insert_at_map)
  next
    case False
    have "distinct (nids t)" if "t \<in> set ts" for t
    proof -
      have "distinct (concat (map nids ts))" using Rose.prems(2) by (simp add: forest_nids_def)
      then show ?thesis using that by (auto simp: distinct_concat_iff)
    qed
    then show ?thesis using False assms(2) Rose by auto
  qed
qed

section \<open>A node has one parent\<close>

lemma children_mset: "shape z t \<Longrightarrow> add_mset (rid t) (mset (concat (map (child_list z) (nids t)))) = mset (nids t)"
proof (induction t)
  case (Rose n ts)
  have d: "forest_nids (v # vs) = nids v @ forest_nids vs" for v vs by (simp add: forest_nids_def)
  have "mset (map rid us) + mset (concat (map (child_list z) (forest_nids us))) = mset (forest_nids us)" if "set us \<subseteq> set ts" for us
    using that
  proof (induction us)
    case (Cons u us)
    have u: "add_mset (rid u) (mset (concat (map (child_list z) (nids u)))) = mset (nids u)"
      by (rule Rose.IH) (use Cons.prems Rose.prems in auto)
    have us: "mset (map rid us) + mset (concat (map (child_list z) (forest_nids us))) = mset (forest_nids us)"
      by (rule Cons.IH) (use Cons.prems in simp)
    show ?case by (simp add: d u [symmetric] us [symmetric])
  qed simp
  from this [of ts] show ?case using Rose.prems by simp
qed

lemma concat_map_disjoint:
  "distinct (concat (map f xs)) \<Longrightarrow> p \<in> set xs \<Longrightarrow> q \<in> set xs \<Longrightarrow> p \<noteq> q \<Longrightarrow> set (f p) \<inter> set (f q) = {}"
  by (induction xs) auto

lemma one_parent:
  assumes "shape z t" "distinct (nids t)" "p \<in> set (nids t)" "q \<in> set (nids t)" "n \<in> set (child_list z p)" "n \<in> set (child_list z q)"
  shows "p = q"
proof (rule ccontr)
  have "mset (rid t # concat (map (child_list z) (nids t))) = mset (nids t)" using children_mset [OF assms(1)] by simp
  then have "distinct (concat (map (child_list z) (nids t)))" using mset_eq_imp_distinct_iff assms(2) by (metis distinct.simps(2))
  moreover assume "p \<noteq> q"
  ultimately show False using concat_map_disjoint [of "child_list z" "nids t" p q] assms(3-6) by blast
qed

end
