(* ===== verification/ZTree_Add.thy ===== *)
theory ZTree_Add
  imports ZTree_Graft
begin

text \<open>
  \<open>addNodesData\<close>, \<open>createNodes\<close> and \<open>addNodes\<close>: what they do to the heap, and that the result is the tree
  with the new nodes grafted in.
\<close>

section \<open>The list of children\<close>

definition linked :: "ztree \<Rightarrow> nid \<Rightarrow> int \<Rightarrow> nid list \<Rightarrow> ztree \<Rightarrow> bool" where
  "linked z p i ns y \<longleftrightarrow>
     zt_next y = zt_next z \<and> zt_cache y = zt_cache z \<and> zt_selected y = zt_selected z \<and> zt_zId y = zt_zId z \<and>
     zt_ver y = zt_ver z \<and> zt_pending y = zt_pending z \<and>
     nodeChildren y p = Some (insert_at i ns (child_list z p)) \<and>
     (\<forall>n. n \<noteq> p \<longrightarrow> nodeChildren y n = nodeChildren z n) \<and>
     (\<forall>n. zn_attr (zt_heap y n) = zn_attr (zt_heap z n) \<and> zn_tId (zt_heap y n) = zn_tId (zt_heap z n) \<and>
        zn_parentTId (zt_heap y n) = zn_parentTId (zt_heap z n) \<and> zn_level (zt_heap y n) = zn_level (zt_heap z n) \<and>
        zn_isAjaxing (zt_heap y n) = zn_isAjaxing (zt_heap z n) \<and>
        (settled (zt_heap z n) \<longrightarrow> settled (zt_heap y n)) \<and>
        (zn_first (zt_heap y n) \<longleftrightarrow> zn_first (zt_heap z n) \<and> \<not> (i = 0 \<and> child_list z p \<noteq> [] \<and> n = hd (child_list z p))) \<and>
        (zn_last (zt_heap y n) \<longleftrightarrow> zn_last (zt_heap z n) \<and>
           \<not> ((i < 0 \<or> int (length (child_list z p)) \<le> i) \<and> child_list z p \<noteq> [] \<and> n = last (child_list z p))))"

lemma linkedD:
  assumes "linked z p i ns y"
  shows "zt_next y = zt_next z" "zt_cache y = zt_cache z" "zt_selected y = zt_selected z" "zt_zId y = zt_zId z"
    "zt_ver y = zt_ver z" "zt_pending y = zt_pending z" "nodeChildren y p = Some (insert_at i ns (child_list z p))"
    "child_list y p = insert_at i ns (child_list z p)" "n \<noteq> p \<Longrightarrow> child_list y n = child_list z n"
    "zn_attr (zt_heap y n) = zn_attr (zt_heap z n)" "zn_tId (zt_heap y n) = zn_tId (zt_heap z n)"
    "zn_parentTId (zt_heap y n) = zn_parentTId (zt_heap z n)" "zn_level (zt_heap y n) = zn_level (zt_heap z n)"
    "settled (zt_heap z n) \<Longrightarrow> settled (zt_heap y n)"
    "zn_first (zt_heap y n) \<longleftrightarrow> zn_first (zt_heap z n) \<and> \<not> (i = 0 \<and> child_list z p \<noteq> [] \<and> n = hd (child_list z p))"
    "zn_last (zt_heap y n) \<longleftrightarrow> zn_last (zt_heap z n) \<and>
       \<not> ((i < 0 \<or> int (length (child_list z p)) \<le> i) \<and> child_list z p \<noteq> [] \<and> n = last (child_list z p))"
    "zn_isAjaxing (zt_heap y n) = zn_isAjaxing (zt_heap z n)"
  using assms unfolding linked_def by (simp_all add: child_list_def)

lemma settled_flags [simp]:
  "settled (v\<lparr>zn_first := b\<rparr>) = settled v" "settled (v\<lparr>zn_last := b\<rparr>) = settled v" "settled (v\<lparr>zn_children := cs\<rparr>) = settled v"
  "settled v \<Longrightarrow> settled (v\<lparr>zn_isParent := FBool b\<rparr>)"
  by (simp_all add: settled_def)

text \<open>The last two steps of \<open>addNodesData\<close>, after the flags of a neighbour.\<close>

lemma linked_last_steps:
  assumes "zt_next x = zt_next z" "zt_cache x = zt_cache z" "zt_selected x = zt_selected z" "zt_zId x = zt_zId z"
    "zt_ver x = zt_ver z" "zt_pending x = zt_pending z" "\<And>n. nodeChildren x n = nodeChildren z n \<or> n = p"
    "\<And>n. zn_attr (zt_heap x n) = zn_attr (zt_heap z n) \<and> zn_tId (zt_heap x n) = zn_tId (zt_heap z n) \<and>
      zn_parentTId (zt_heap x n) = zn_parentTId (zt_heap z n) \<and> zn_level (zt_heap x n) = zn_level (zt_heap z n) \<and>
      zn_isAjaxing (zt_heap x n) = zn_isAjaxing (zt_heap z n)"
    "\<And>n. settled (zt_heap z n) \<Longrightarrow> settled (zt_heap x n)"
    "\<And>n. zn_first (zt_heap x n) \<longleftrightarrow> zn_first (zt_heap z n) \<and> \<not> (i = 0 \<and> child_list z p \<noteq> [] \<and> n = hd (child_list z p))"
    "\<And>n. zn_last (zt_heap x n) \<longleftrightarrow> zn_last (zt_heap z n) \<and>
      \<not> ((i < 0 \<or> int (length (child_list z p)) \<le> i) \<and> child_list z p \<noteq> [] \<and> n = last (child_list z p))"
    "cs = insert_at i ns (child_list z p)"
  shows "linked z p i ns (set_children p (Some cs) (set_isParent p True x))"
  unfolding linked_def using assms
  by (auto simp: set_children_def set_isParent_def upd_node_def nodeChildren_def)

lemma addNodesData_linked: "linked z p i ns (addNodesData S p i ns z)"
proof (cases "nodeChildren z p")
  case None
  then have c: "child_list z p = []" by (simp add: child_list_def)
  have "addNodesData S p i ns z = set_children p (Some ns) (set_isParent p True (set_children p (Some []) z))"
    by (simp add: addNodesData_def None)
  also have "linked z p i ns \<dots>"
    by (rule linked_last_steps) (auto simp: c set_children_def upd_node_def nodeChildren_def insert_at_def)
  finally show ?thesis .
next
  case (Some cs)
  then have c: "child_list z p = cs" by (simp add: child_list_def)
  define j where "j = (if int (length cs) \<le> i then -1 else i)"
  define x where "x = (if cs \<noteq> [] \<and> j = 0 then setNodeLineIcos S (hd cs) (upd_node (hd cs) (zn_first_update (\<lambda>_. False)) z)
     else if cs \<noteq> [] \<and> j < 0 then setNodeLineIcos S (last cs) (upd_node (last cs) (zn_last_update (\<lambda>_. False)) z) else z)"
  have e: "addNodesData S p i ns z = set_children p (Some (insert_at i ns cs)) (set_isParent p True x)"
    by (auto simp: addNodesData_def Some Let_def x_def j_def insert_at_def split: if_splits)
  have j: "j = 0 \<and> cs \<noteq> [] \<longleftrightarrow> i = 0 \<and> cs \<noteq> []" "j < 0 \<longleftrightarrow> i < 0 \<or> int (length cs) \<le> i" by (auto simp: j_def)
  define w where "w = (if cs \<noteq> [] \<and> j = 0 then upd_node (hd cs) (zn_first_update (\<lambda>_. False)) z
     else if cs \<noteq> [] \<and> j < 0 then upd_node (last cs) (zn_last_update (\<lambda>_. False)) z else z)"
  have s: "same w x" by (simp add: w_def x_def same_setNodeLineIcos same_refl)
  have w: "zt_next w = zt_next z" "zt_cache w = zt_cache z" "zt_selected w = zt_selected z" "zt_zId w = zt_zId z"
    "zt_ver w = zt_ver z" "zt_pending w = zt_pending z" "nodeChildren w n = nodeChildren z n"
    "zn_attr (zt_heap w n) = zn_attr (zt_heap z n) \<and> zn_tId (zt_heap w n) = zn_tId (zt_heap z n) \<and>
      zn_parentTId (zt_heap w n) = zn_parentTId (zt_heap z n) \<and> zn_level (zt_heap w n) = zn_level (zt_heap z n) \<and>
      zn_isAjaxing (zt_heap w n) = zn_isAjaxing (zt_heap z n)"
    "settled (zt_heap z n) \<Longrightarrow> settled (zt_heap w n)"
    "zn_first (zt_heap w n) \<longleftrightarrow> zn_first (zt_heap z n) \<and> \<not> (i = 0 \<and> cs \<noteq> [] \<and> n = hd cs)"
    "zn_last (zt_heap w n) \<longleftrightarrow> zn_last (zt_heap z n) \<and> \<not> ((i < 0 \<or> int (length cs) \<le> i) \<and> cs \<noteq> [] \<and> n = last cs)" for n
    using j by (auto simp: w_def upd_node_def nodeChildren_def)
  show ?thesis unfolding e
  proof (rule linked_last_steps)
    show "settled (zt_heap x n)" if "settled (zt_heap z n)" for n using same_settled [OF s] w(9) that by blast
  qed (use s w c in \<open>auto simp: same_def node_same_def nodeChildren_def\<close>)
qed

lemma same_linked:
  assumes "same z x" "linked x p i ns y"
  shows "linked z p i ns y"
proof -
  note l = linkedD [OF assms(2)] and s = sameD [OF assms(1)]
  have h: "zn_first (zt_heap x n) = zn_first (zt_heap z n)" "zn_last (zt_heap x n) = zn_last (zt_heap z n)"
    "zt_cache x = zt_cache z" "zt_selected x = zt_selected z" "zt_zId x = zt_zId z" "zt_ver x = zt_ver z" "zt_pending x = zt_pending z" for n
    using assms(1) by (simp_all add: same_def node_same_def)
  have "zn_attr (zt_heap x n) = zn_attr (zt_heap z n)" "zn_isAjaxing (zt_heap x n) = zn_isAjaxing (zt_heap z n)" for n
    using assms(1) by (simp_all add: same_def node_same_def)
  moreover have "\<forall>n. n \<noteq> p \<longrightarrow> nodeChildren y n = nodeChildren z n" using assms(2) s(9) by (simp add: linked_def)
  ultimately show ?thesis
    using l s h same_settled [OF assms(1)] by (auto simp: linked_def)
qed

section \<open>The new nodes\<close>

lemma createNodes_inited:
  assumes "fits (zt_next z + 1) z ts" "ts \<noteq> []" "distinct (forest_nids ts)" "0 \<notin> set (forest_nids ts)"
    "known S z p" "\<And>q. p = Some q \<Longrightarrow> q \<notin> set (forest_nids ts) \<and> child_list z q \<noteq> []"
    "nodeChildren z (case p of None \<Rightarrow> 0 | Some q \<Rightarrow> q) \<noteq> None"
    and j': "j' = (if int (length (child_list z (case p of None \<Rightarrow> 0 | Some q \<Rightarrow> q))) - int (length ts) \<le> j then -1 else j)"
  shows "\<exists>y z'. createNodes S l (map rid ts) p j z = Some z' \<and> inited S z (forest_nids ts) y \<and> same y z' \<and>
    (\<forall>m \<in> set (forest_nids ts). placed y m) \<and>
    (\<forall>i < length ts. at y (rid (ts ! i)) p l
       ((j' = 0 \<or> length (child_list z (case p of None \<Rightarrow> 0 | Some q \<Rightarrow> q)) = length ts) \<and> i = 0)
       (j' < 0 \<and> Suc i = length ts))"
proof -
  define x where "x = z\<lparr>zt_created := []\<rparr>"
  have x: "zt_next x = zt_next z" "child_list x n = child_list z n" "nodeChildren x n = nodeChildren z n" "known S x p" for n
    using assms(5) by (simp_all add: x_def child_list_def nodeChildren_def known_def)
  have "\<exists>op. (case p of None \<Rightarrow> Some True
      | Some p \<Rightarrow> if is_open z p then Some True
                  else case child_list z p of [] \<Rightarrow> None | c # cs \<Rightarrow> Some (br_has S (zt_log z) (elem_id z c ''''))) = Some op"
    using assms(6) by (auto split: option.split list.split)
  then obtain op where op: "(case p of None \<Rightarrow> Some True
      | Some p \<Rightarrow> if is_open z p then Some True
                  else case child_list z p of [] \<Rightarrow> None | c # cs \<Rightarrow> Some (br_has S (zt_log z) (elem_id z c ''''))) = Some op"
    by blast
  have "\<exists>h y. appendNodes (zt_next x + 1) S l (map rid ts) p j True op x = Some (h, y) \<and> inited S x (forest_nids ts) y \<and>
    (\<forall>m \<in> set (forest_nids ts). placed y m) \<and>
    (\<forall>i < length ts. at y (rid (ts ! i)) p l
       ((j' = 0 \<or> length (child_list z (case p of None \<Rightarrow> 0 | Some q \<Rightarrow> q)) = length ts) \<and> i = 0)
       (j' < 0 \<and> Suc i = length ts))"
    unfolding x(1) x(2) [symmetric]
    by (rule appendNodes_init [OF assms(1)]) (use assms x in auto)
  then obtain h y where y: "appendNodes (zt_next x + 1) S l (map rid ts) p j True op x = Some (h, y)" "inited S x (forest_nids ts) y"
    "\<forall>m \<in> set (forest_nids ts). placed y m"
    "\<forall>i < length ts. at y (rid (ts ! i)) p l
       ((j' = 0 \<or> length (child_list z (case p of None \<Rightarrow> 0 | Some q \<Rightarrow> q)) = length ts) \<and> i = 0)
       (j' < 0 \<and> Suc i = length ts)" by blast
  have "\<exists>w. createNodes S l (map rid ts) p j z = Some w \<and> same y w"
    using assms(2) y(1) op same_createNodeCallback same_trans [OF same_zemit same_createNodeCallback]
    by (auto simp: createNodes_def Let_def x_def split: option.split)
  moreover have "inited S z (forest_nids ts) y" using y(2) by (simp add: inited_def x_def)
  ultimately show ?thesis using y(3,4) by blast
qed

lemma nth_insert_at:
  "k < length xs + length ys \<Longrightarrow> insert_at i xs ys ! k =
     (let e = (if i < 0 \<or> int (length ys) \<le> i then length ys else nat i)
      in if k < e then ys ! k else if k < e + length xs then xs ! (k - e) else ys ! (k - length xs))"
  by (auto simp: insert_at_def nth_append Let_def)

section \<open>The tree with the new nodes\<close>

text \<open>The flags and levels of the children of the node that gets the new ones.\<close>

lemma grafted_placed:
  assumes "placed z p" "linked z p i ns y" "inited S y N x" "set ns \<subseteq> set N" "p \<notin> set N" "set (child_list z p) \<inter> set N = {}" "ns \<noteq> []"
    and j': "j' = (if int (length (child_list y p)) - int (length ns) \<le> i then -1 else i)"
    and new: "\<And>m. m < length ns \<Longrightarrow> at x (ns ! m) (if p = 0 then None else Some p) (if p = 0 then 0 else Suc (zn_level (zt_heap z p)))
       ((j' = 0 \<or> length (child_list y p) = length ns) \<and> m = 0) (j' < 0 \<and> Suc m = length ns)"
  shows "placed x p"
proof -
  define cs where "cs = child_list z p"
  define e where "e = (if i < 0 \<or> int (length cs) \<le> i then length cs else nat i)"
  note l = linkedD [OF assms(2)] and t = initedD [OF assms(3)]
  have c: "child_list x p = insert_at i ns cs" using l(8) t(15) by (simp add: cs_def)
  have len: "length (child_list y p) = length ns + length cs" using l(8) by (simp add: cs_def)
  have hp: "zt_heap x p = zt_heap y p" by (rule t(8) [OF assms(5)])
  have old: "at x (cs ! m) (if p = 0 then None else Some p) (if p = 0 then 0 else Suc (zn_level (zt_heap z p)))
      (m = 0 \<and> i \<noteq> 0) (Suc m = length cs \<and> \<not> (i < 0 \<or> int (length cs) \<le> i))" if m: "m < length cs" for m
  proof -
    have "cs ! m \<notin> set N" using assms(6) nth_mem [OF m] unfolding cs_def by blast
    then have h: "zt_heap x (cs ! m) = zt_heap y (cs ! m)" by (rule t(8))
    have a: "at z (cs ! m) (if p = 0 then None else Some p) (if p = 0 then 0 else Suc (zn_level (zt_heap z p))) (m = 0) (Suc m = length cs)"
      using assms(1) m unfolding placed_iff_at cs_def by blast
    have "zn_first (zt_heap y (cs ! m)) \<longleftrightarrow> m = 0 \<and> i \<noteq> 0"
      using a m unfolding l(15) cs_def [symmetric] by (cases cs) (auto simp: at_def)
    moreover have "zn_last (zt_heap y (cs ! m)) \<longleftrightarrow> Suc m = length cs \<and> \<not> (i < 0 \<or> int (length cs) \<le> i)"
    proof -
      have "last cs = cs ! m" if "Suc m = length cs" using that by (cases cs rule: rev_cases) auto
      then show ?thesis using a m unfolding l(16) cs_def [symmetric] by (auto simp: at_def)
    qed
    ultimately show ?thesis using a h l(11-13) hp by (simp add: at_def)
  qed
  show ?thesis unfolding placed_iff_at
  proof (intro allI impI)
    fix k assume "k < length (child_list x p)"
    then have k: "k < length ns + length cs" by (simp add: c)
    have lv: "zn_level (zt_heap x p) = zn_level (zt_heap z p)" using hp l(13) by simp
    define g where "g = length ns"
    have g: "0 < g" using assms(7) by (simp add: g_def)
    have lx: "length (child_list x p) = g + length cs" by (simp add: c g_def)
    consider "k < e" | "e \<le> k" "k < e + g" | "e + g \<le> k" by linarith
    then show "at x (child_list x p ! k) (if p = 0 then None else Some p) (if p = 0 then 0 else Suc (zn_level (zt_heap x p)))
        (k = 0) (Suc k = length (child_list x p))"
    proof cases
      case 1
      then have "child_list x p ! k = cs ! k" using nth_insert_at [OF k, of i] by (simp add: c e_def [symmetric])
      moreover have "k < length cs" using 1 by (auto simp: e_def split: if_splits)
      moreover have "(k = 0 \<and> i \<noteq> 0) = (k = 0)" "(Suc k = length cs \<and> \<not> (i < 0 \<or> int (length cs) \<le> i)) = (Suc k = g + length cs)"
        using 1 g by (auto simp: e_def split: if_splits)
      ultimately show ?thesis using old [of k] unfolding lx lv by simp
    next
      case 2
      then have "child_list x p ! k = ns ! (k - e)" using nth_insert_at [OF k, of i] by (simp add: c e_def [symmetric] g_def)
      moreover have "k - e < length ns" using 2 by (simp add: g_def)
      moreover have "((j' = 0 \<or> length (child_list y p) = length ns) \<and> k - e = 0) = (k = 0)"
        "(j' < 0 \<and> Suc (k - e) = length ns) = (Suc k = g + length cs)"
        using 2 g unfolding j' len by (auto simp: e_def g_def split: if_splits)
      ultimately show ?thesis using new [of "k - e"] unfolding lx lv by simp
    next
      case 3
      then have "child_list x p ! k = cs ! (k - g)" using nth_insert_at [OF k, of i] g by (simp add: c e_def [symmetric] g_def)
      moreover have "k - g < length cs" using 3 k by (simp add: g_def)
      moreover have "(k - g = 0 \<and> i \<noteq> 0) = (k = 0)" "(Suc (k - g) = length cs \<and> \<not> (i < 0 \<or> int (length cs) \<le> i)) = (Suc k = g + length cs)"
        using 3 k g by (auto simp: e_def g_def split: if_splits)
      ultimately show ?thesis using old [of "k - g"] unfolding lx lv by simp
    qed
  qed
qed

definition fresh :: "ztree \<Rightarrow> rose \<Rightarrow> rose list \<Rightarrow> bool" where
  \<comment> \<open>objects that form a forest and are not in the tree\<close>
  "fresh z T G \<longleftrightarrow> (\<forall>t \<in> set G. shape z t) \<and> distinct (forest_nids G) \<and> set (nids T) \<inter> set (forest_nids G) = {} \<and>
     (\<forall>n \<in> set (forest_nids G). n < zt_next z)"

text \<open>The ids and the cache after new nodes have been numbered: z is the tree before, N the new nodes.\<close>

lemma numbered_ids:
  assumes "tree_ok S z T" "inited S y N x" "zt_zId y = zt_zId z"
    "\<forall>n \<in> nodes_of T. n \<notin> set N \<and> zn_tId (zt_heap x n) = zn_tId (zt_heap z n)" "n \<in> nodes_of T \<union> set N"
  shows "\<exists>k. 1 \<le> k \<and> k \<le> zt_zId x \<and> zn_tId (zt_heap x n) = Some (make_tId S k) \<and> (n \<in> set N \<longleftrightarrow> zt_zId z < k)"
proof (cases "n \<in> set N")
  case True
  then obtain i where i: "i < length N" "n = N ! i" by (auto simp: in_set_conv_nth)
  then show ?thesis using initedD(11) [OF assms(2) i(1)] initedD(7) [OF assms(2)] assms(3) True
    by (intro exI [of _ "zt_zId y + 1 + i"]) simp
next
  case False
  then obtain k where "1 \<le> k" "k \<le> zt_zId z" "zn_tId (zt_heap z n) = Some (make_tId S k)" using tree_tId [OF assms(1)] assms(5) by blast
  then show ?thesis using assms(4) initedD(7) [OF assms(2)] assms(3,5) False by (intro exI [of _ k]) simp
qed

lemma numbered_inj:
  assumes "tree_ok S z T" "inited S y N x" "zt_zId y = zt_zId z"
    "\<forall>n \<in> nodes_of T. n \<notin> set N \<and> zn_tId (zt_heap x n) = zn_tId (zt_heap z n)"
  shows "inj_on (\<lambda>n. zn_tId (zt_heap x n)) (nodes_of T \<union> set N)"
proof (rule inj_onI)
  note ids = numbered_ids [OF assms]
  fix m n assume a: "m \<in> nodes_of T \<union> set N" "n \<in> nodes_of T \<union> set N" and e: "zn_tId (zt_heap x m) = zn_tId (zt_heap x n)"
  have both: "m \<in> set N \<longleftrightarrow> n \<in> set N" using ids [OF a(1)] ids [OF a(2)] e by (auto simp: make_tId_inj)
  show "m = n"
  proof (cases "m \<in> set N")
    case True
    then obtain i j where "i < length N" "m = N ! i" "j < length N" "n = N ! j" using both by (metis in_set_conv_nth)
    then show ?thesis using initedD(11) [OF assms(2)] e by (simp add: make_tId_inj)
  next
    case False
    then show ?thesis using inj_onD [OF tree_okD(8) [OF assms(1)], of m n] e assms(4) a both by auto
  qed
qed

lemma numbered_cache:
  assumes "tree_ok S z T" "inited S y N x" "zt_zId y = zt_zId z"
    "\<forall>n \<in> nodes_of T. n \<notin> set N \<and> zn_tId (zt_heap x n) = zn_tId (zt_heap z n)" "zt_cache y = zt_cache z"
  shows "zt_cache x key = Some n \<longleftrightarrow> n \<in> nodes_of T \<union> set N \<and> key = getNodeCacheId (js_string (zn_tId (zt_heap x n)))"
proof (cases "\<exists>i < length N. key = decimal (zt_zId y + 1 + i)")
  case True
  then obtain i where i: "i < length N" "key = decimal (zt_zId y + 1 + i)" by blast
  have c: "zt_cache x key = Some (N ! i)" "zn_tId (zt_heap x (N ! i)) = Some (make_tId S (zt_zId y + 1 + i))"
    using initedD(11,12) [OF assms(2) i(1)] i(2) by simp_all
  have "n = N ! i" if n: "n \<in> nodes_of T \<union> set N" "key = getNodeCacheId (js_string (zn_tId (zt_heap x n)))"
  proof -
    obtain k where k: "zn_tId (zt_heap x n) = Some (make_tId S k)" using numbered_ids [OF assms(1-4) n(1)] by blast
    then have "k = zt_zId y + 1 + i" using n(2) i(2) by (simp add: getNodeCacheId_make decimal_inj)
    then show ?thesis using inj_onD [OF numbered_inj [OF assms(1-4)] _ n(1), of "N ! i"] k c(2) i(1) by simp
  qed
  then show ?thesis using c i nth_mem [OF i(1)] by (auto simp: getNodeCacheId_make)
next
  case False
  then have e: "zt_cache x key = zt_cache z key" using initedD(13) [OF assms(2)] assms(5) by auto
  have "key \<noteq> getNodeCacheId (js_string (zn_tId (zt_heap x n)))" if n: "n \<in> set N"
  proof -
    obtain i where i: "i < length N" "n = N ! i" using n by (auto simp: in_set_conv_nth)
    then show ?thesis using False initedD(11) [OF assms(2) i(1)] by (auto simp: getNodeCacheId_make)
  qed
  then show ?thesis using e tree_okD(9) [OF assms(1), of key n] assms(4) by auto
qed

lemma graft_tree_ok:
  assumes ok: "tree_ok S z T" and p: "p \<in> set (nids T)" and G: "G \<noteq> []" "fresh z T G"
    and l: "linked z p i (map rid G) y" and x: "inited S y (forest_nids G) x" "\<forall>m \<in> set (forest_nids G). placed x m"
    and j': "j' = (if int (length (child_list y p)) - int (length G) \<le> i then -1 else i)"
    and new: "\<forall>m < length G. at x (rid (G ! m)) (if p = 0 then None else Some p) (if p = 0 then 0 else Suc (zn_level (zt_heap z p)))
       ((j' = 0 \<or> length (child_list y p) = length G) \<and> m = 0) (j' < 0 \<and> Suc m = length G)"
  shows "tree_ok S x (graft p i G T)"
proof -
  define N where "N = forest_nids G"
  note t = tree_okD [OF ok] and ld = linkedD [OF l] and xd = initedD [OF x(1) [folded N_def]]
  have f: "\<And>t. t \<in> set G \<Longrightarrow> shape z t" "distinct N" "set (nids T) \<inter> set N = {}" "\<And>n. n \<in> set N \<Longrightarrow> n < zt_next z"
    using G(2) by (auto simp: fresh_def N_def)
  have gn: "distinct (nids (graft p i G T))" "set (nids (graft p i G T)) = set (nids T) \<union> set N"
    using graft_nids [OF t(3) p] f unfolding N_def by blast+
  have pN: "p \<notin> set N" using p f(3) by blast
  have root_T: "0 \<in> set (nids T)" using rid_nids [of T] t(1) by simp
  then have root_N: "0 \<notin> set N" using f(3) by blast
  have nodes: "nodes_of (graft p i G T) = nodes_of T \<union> set N" using gn(2) root_N by blast
  have cl: "child_list x p = insert_at i (map rid G) (child_list z p)" "\<And>n. n \<noteq> p \<Longrightarrow> child_list x n = child_list z n"
    using ld(8,9) xd(15) by simp_all
  have shape: "shape x (graft p i G T)"
    by (rule shape_graft [OF cl f(1)]) (use pN t(2,3) in \<open>simp_all add: N_def\<close>)
  have old: "zt_heap x n = zt_heap y n" if "n \<in> set (nids T)" for n using xd(8) f(3) that by blast
  have tid: "zn_tId (zt_heap x n) = zn_tId (zt_heap z n)" if "n \<in> set (nids T)" for n using old [OF that] ld(11) by simp
  have pl: "placed x m" if m: "m \<in> set (nids T)" for m
  proof (cases "m = p")
    case True
    have "set (map rid G) \<subseteq> set N" using rid_forest [of _ G] by (auto simp: N_def)
    moreover have "set (child_list z p) \<inter> set N = {}" using children_inside [OF t(2) p] f(3) by blast
    ultimately show ?thesis unfolding True
      by (intro grafted_placed [OF t(5) [OF p] l x(1) _ pN [unfolded N_def] _ _ j' [folded length_map [of rid G]]])
        (use G(1) new in \<open>auto simp: N_def\<close>)
  next
    case False
    have "zn_first (zt_heap x c) = zn_first (zt_heap z c) \<and> zn_last (zt_heap x c) = zn_last (zt_heap z c) \<and>
        zn_parentTId (zt_heap x c) = zn_parentTId (zt_heap z c) \<and> zn_level (zt_heap x c) = zn_level (zt_heap z c)"
      if "c \<in> set (child_list z m)" for c
    proof -
      have "c \<notin> set (child_list z p)" using one_parent [OF t(2,3) m p that] False by blast
      then have "\<not> (child_list z p \<noteq> [] \<and> c = hd (child_list z p))" "\<not> (child_list z p \<noteq> [] \<and> c = last (child_list z p))"
        by auto
      moreover have "c \<in> set (nids T)" using children_inside [OF t(2) m] that by blast
      ultimately show ?thesis using old ld(12,13,15,16) by auto
    qed
    then show ?thesis
      by (intro placed_same_fields [OF t(5) [OF m]]) (use cl(2) [OF False] tid [OF m] old [OF m] ld(13) in simp_all)
  qed
  have keep: "\<forall>n \<in> nodes_of T. n \<notin> set N \<and> zn_tId (zt_heap x n) = zn_tId (zt_heap z n)" using tid f(3) by blast
  note num = x(1) [folded N_def] ld(4) keep
  show ?thesis unfolding tree_ok_def gn(2) nodes [unfolded gn(2)]
  proof (intro conjI)
    show "rid (graft p i G T) = 0" using t(1) by simp
    show "shape x (graft p i G T)" by (rule shape)
    show "distinct (nids (graft p i G T))" by (rule gn(1))
    show "\<forall>n \<in> set (nids T) \<union> set N. n < zt_next x \<and> placed x n"
      using t(4) f(4) pl x(2) xd(1) ld(1) by (auto simp: N_def)
    show "\<forall>n \<in> nodes_of T \<union> set N. settled (zt_heap x n) \<and> (\<exists>k. 1 \<le> k \<and> k \<le> zt_zId x \<and> zn_tId (zt_heap x n) = Some (make_tId S k))"
      using numbered_ids [OF ok num] xd(14) t(6) ld(14) old by (metis Diff_iff Un_iff)
    show "inj_on (\<lambda>n. zn_tId (zt_heap x n)) (nodes_of T \<union> set N)" by (rule numbered_inj [OF ok num])
    show "\<forall>key n. (zt_cache x key = Some n) = (n \<in> nodes_of T \<union> set N \<and> key = getNodeCacheId (js_string (zn_tId (zt_heap x n))))"
      using numbered_cache [OF ok num ld(2)] by blast
    show "set (zt_selected x) \<subseteq> nodes_of T \<union> set N" using t(10) xd(2) ld(3) by auto
    show "distinct (zt_selected x)" using t(11) xd(2) ld(3) by simp
  qed
qed

section \<open>Adding nodes\<close>

definition attrs_kept :: "zsetting \<Rightarrow> ztree \<Rightarrow> ztree \<Rightarrow> bool" where
  \<comment> \<open>the user's fields of every object, except the parent id that simple data rewrites\<close>
  "attrs_kept S z z' \<longleftrightarrow> (\<forall>n k. \<not> zs_simple S \<or> k \<noteq> zs_pIdKey S \<longrightarrow> attr z' n k = attr z n k)"

lemma attrs_kept_intros:
  "same z z' \<Longrightarrow> attrs_kept S z z'" "linked z p i ns z' \<Longrightarrow> attrs_kept S z z'" "inited S z ns z' \<Longrightarrow> attrs_kept S z z'"
  "attrs_kept S x y \<Longrightarrow> attrs_kept S y z \<Longrightarrow> attrs_kept S x z"
  using initedD(10) by (auto simp: attrs_kept_def attr_def same_def node_same_def linked_def)

definition busy_kept :: "rose \<Rightarrow> ztree \<Rightarrow> ztree \<Rightarrow> bool" where
  \<comment> \<open>no node of the tree starts or ends loading\<close>
  "busy_kept T z z' \<longleftrightarrow> (\<forall>n \<in> set (nids T). zn_isAjaxing (zt_heap z' n) = zn_isAjaxing (zt_heap z n))"

lemma busy_kept_intros:
  "same z z' \<Longrightarrow> busy_kept T z z'" "linked z p i ns z' \<Longrightarrow> busy_kept T z z'"
  "inited S z ns z' \<Longrightarrow> set (nids T) \<inter> set ns = {} \<Longrightarrow> busy_kept T z z'"
  "busy_kept T x y \<Longrightarrow> busy_kept T y z \<Longrightarrow> busy_kept T x z"
  using initedD(8) by (auto simp: busy_kept_def same_def node_same_def linked_def disjoint_iff)

lemma tree_known: "tree_ok S z T \<Longrightarrow> p \<in> nodes_of T \<Longrightarrow> known S z (Some p)"
proof -
  assume a: "tree_ok S z T" "p \<in> nodes_of T"
  obtain k where k: "k \<le> zt_zId z" "zn_tId (zt_heap z p) = Some (make_tId S k)" by (rule tree_tId [OF a])
  have "zt_cache z (decimal k) = Some p" using tree_okD(9) [OF a(1), of "decimal k" p] a(2) k(2) by (simp add: getNodeCacheId_make)
  with k show ?thesis by (auto simp: known_def)
qed

lemma fresh_fits:
  assumes "fresh z T G" "zt_next z \<le> k"
  shows "fits (k + 1) z G"
proof -
  have "height t < k + 1" if t: "t \<in> set G" for t
  proof -
    have "distinct (nids t)" "\<forall>n \<in> set (nids t). n < zt_next z"
      using assms(1) t by (auto simp: fresh_def forest_nids_def distinct_concat_iff)
    then show ?thesis using distinct_below [of "nids t" "zt_next z"] height_bound [of t] assms(2) by linarith
  qed
  then show ?thesis using assms(1) by (simp add: fits_def fresh_def)
qed

lemma linked_fresh:
  assumes "linked z p i (map rid G) y" "fresh z T G" "p \<in> set (nids T)"
  shows "fits (zt_next y + 1) y G"
proof -
  have "shape y t \<longleftrightarrow> shape z t" if t: "t \<in> set G" for t
  proof (rule shape_child_list)
    fix n assume "n \<in> set (nids t)"
    then have "n \<noteq> p" using assms(2,3) t by (auto simp: fresh_def in_forest_nids disjoint_iff)
    then show "child_list y n = child_list z n" using linkedD(9) [OF assms(1)] by blast
  qed
  then show ?thesis using fresh_fits [OF assms(2), of "zt_next y"] linkedD(1) [OF assms(1)] by (auto simp: fits_def)
qed

text \<open>\<open>addNodesData\<close> and \<open>createNodes\<close>, for the root object and for a node alike.\<close>

lemma create_grafts:
  assumes ok: "tree_ok S z T" and p: "p \<in> set (nids T)" and G: "G \<noteq> []" "fresh z T G" and l: "linked z p i (map rid G) y"
    and lv: "lv = (if p = 0 then 0 else Suc (zn_level (zt_heap z p)))"
  shows "\<exists>z'. createNodes S lv (map rid G) (if p = 0 then None else Some p) i y = Some z' \<and> tree_ok S z' (graft p i G T) \<and>
    attrs_kept S z z' \<and> busy_kept T z z'"
proof -
  define q where "q = (if p = 0 then None else Some p)"
  have q: "(case q of None \<Rightarrow> 0 | Some q \<Rightarrow> q) = p" by (simp add: q_def)
  have f: "distinct (forest_nids G)" "0 \<notin> set (forest_nids G)" "p \<notin> set (forest_nids G)"
    using G(2) p rid_nids [of T] tree_okD(1) [OF ok] by (auto simp: fresh_def)
  have k: "known S y q"
  proof (cases "p = 0")
    case False
    then have "known S z (Some p)" using tree_known [OF ok] p by blast
    then show ?thesis using linkedD(2,4,11) [OF l] False by (simp add: known_def q_def)
  qed (simp add: known_def q_def)
  have c: "nodeChildren y p \<noteq> None" "child_list y p \<noteq> []" using linkedD(7,8) [OF l] G(1) by (auto simp: insert_at_def)
  define j' where "j' = (if int (length (child_list y p)) - int (length G) \<le> i then -1 else i)"
  have "\<exists>x z'. createNodes S lv (map rid G) q i y = Some z' \<and> inited S y (forest_nids G) x \<and> same x z' \<and>
      (\<forall>m \<in> set (forest_nids G). placed x m) \<and>
      (\<forall>i < length G. at x (rid (G ! i)) q lv ((j' = 0 \<or> length (child_list y (case q of None \<Rightarrow> 0 | Some q \<Rightarrow> q)) = length G) \<and> i = 0)
         (j' < 0 \<and> Suc i = length G))"
    by (rule createNodes_inited [OF linked_fresh [OF l G(2) p] G(1) f(1,2) k]) (use c f(3) in \<open>auto simp: q_def j'_def split: if_splits\<close>)
  then obtain x z' where x: "createNodes S lv (map rid G) q i y = Some z'" "inited S y (forest_nids G) x" "same x z'"
    "\<forall>m \<in> set (forest_nids G). placed x m"
    "\<forall>i < length G. at x (rid (G ! i)) q lv ((j' = 0 \<or> length (child_list y p) = length G) \<and> i = 0) (j' < 0 \<and> Suc i = length G)"
    unfolding q by blast
  have "tree_ok S x (graft p i G T)"
    by (rule graft_tree_ok [OF ok p G l x(2,4) j'_def]) (use x(5) lv q_def in simp)
  then have "tree_ok S z' (graft p i G T)" by (rule same_tree_ok [OF x(3)])
  moreover have "attrs_kept S z z'" using attrs_kept_intros(2) [OF l] attrs_kept_intros(3) [OF x(2)] attrs_kept_intros(1) [OF x(3)]
    attrs_kept_intros(4) by blast
  moreover have "busy_kept T z z'"
  proof -
    have "set (nids T) \<inter> set (forest_nids G) = {}" using G(2) by (simp add: fresh_def)
    note b = busy_kept_intros(2) [OF l, of T] busy_kept_intros(3) [OF x(2) this] busy_kept_intros(1) [OF x(3), of T]
    show ?thesis by (rule busy_kept_intros(4) [OF busy_kept_intros(4) [OF b(1,2)] b(3)])
  qed
  ultimately show ?thesis using x(1) by (simp add: q_def)
qed

lemma addNodes_grafts:
  assumes ok: "tree_ok S z T" "tree_ok S x T"
    and tr: "(if zs_simple S then transformTozTreeFormat S ns z else (ns, z)) = (map rid G, x)"
    and G: "G \<noteq> []" "fresh x T G"
    and p: "\<And>q. p = Some q \<Longrightarrow> q \<in> nodes_of T \<and> (isParent z q \<or> \<not> zs_keepLeaf S)"
  shows "\<exists>z'. addNodes S p i ns silent z = Some z' \<and> tree_ok S z' (graft (case p of None \<Rightarrow> 0 | Some q \<Rightarrow> q) i G T) \<and> attrs_kept S x z' \<and>
    busy_kept T x z'"
proof (cases p)
  case None
  have "0 \<in> set (nids T)" using rid_nids [of T] tree_okD(1) [OF ok(1)] by simp
  then have "\<exists>z'. createNodes S 0 (map rid G) (if (0::nat) = 0 then None else Some 0) i (addNodesData S 0 i (map rid G) x) = Some z' \<and>
      tree_ok S z' (graft 0 i G T) \<and> attrs_kept S x z' \<and> busy_kept T x z'"
    by (rule create_grafts [OF ok(2) _ G addNodesData_linked]) simp
  then show ?thesis unfolding addNodes_def None option.case tr Let_def prod.case by simp
next
  case (Some q)
  note q = p [OF Some]
  have qT: "q \<in> set (nids T)" "q \<noteq> 0" using q by auto
  have par: "nodeIsParent q z = (isParent z q, z)" by (rule nodeIsParent_settled) (use tree_okD(6) [OF ok(1)] q in blast)
  define w where "w = (if is_open x q then x
    else zemit (Css (elem_id x q ''_ul'') ''display'' ''none'') (set_open q False (replaceIcoClass S q ''close'' (replaceSwitchClass S q ''close'' x))))"
  have s: "same x w"
    unfolding w_def by (rule same_if) (rule same_refl same_trans [OF same_trans [OF same_trans [OF same_replaceSwitchClass same_replaceIcoClass] same_set_open] same_zemit])+
  define y where "y = addNodesData S q i (map rid G) w"
  have l: "linked x q i (map rid G) y" unfolding y_def by (rule same_linked [OF s addNodesData_linked])
  have lv: "zn_level (zt_heap y q) + 1 = (if q = 0 then 0 else Suc (zn_level (zt_heap x q)))" using linkedD(13) [OF l] qT(2) by simp
  obtain v where v: "createNodes S (zn_level (zt_heap y q) + 1) (map rid G) (Some q) i y = Some v" "tree_ok S v (graft q i G T)" "attrs_kept S x v"
    "busy_kept T x v"
    using create_grafts [OF ok(2) qT(1) G l lv] qT(2) by auto
  have e: "addNodes S p i ns silent z = (if silent then Some v else expandCollapseParentNode (zt_next v + 1) S p True True No_Cb v)"
    using q unfolding addNodes_def Some option.case par prod.case Let_def tr w_def [symmetric] y_def [symmetric] v(1) Option.bind.simps by auto
  have "q \<in> nodes_of (graft q i G T)"
    using graft_nids(2) [OF tree_okD(3) [OF ok(2)] qT(1)] G(2) qT by (auto simp: fresh_def)
  moreover from level_bound [OF v(2) this] have "zn_level (zt_heap v q) < zt_next v + 1" by simp
  ultimately have "\<exists>z'. expandCollapseParentNode (zt_next v + 1) S p True True No_Cb v = Some z' \<and> same v z'"
    by (intro expandCollapseParentNode_same [OF v(2) _ _ same_refl]) (use Some in auto)
  then obtain z' where z': "expandCollapseParentNode (zt_next v + 1) S p True True No_Cb v = Some z'" "same v z'" by blast
  show ?thesis
  proof (cases silent)
    case True
    then show ?thesis using e v Some by simp
  next
    case False
    then show ?thesis using e v(3) z' same_tree_ok [OF z'(2) v(2)] attrs_kept_intros(1) [OF z'(2)] attrs_kept_intros(4)
      busy_kept_intros(4) [OF v(4) busy_kept_intros(1) [OF z'(2)]] Some by auto
  qed
qed

end
