(* ===== verification/ZTree_View_Spec.thy ===== *)
theory ZTree_View_Spec
  imports ZTree_Add
begin

text \<open>
  What a page sees of the tree: the user's fields of the nodes and their order, without addresses.
  Cloning the user's data allocates a forest that shows these data; creating the widget shows them
  as the tree, and adding nodes puts them at their place in it.
\<close>

section \<open>Items\<close>

datatype item = Item (fields: "string \<Rightarrow> string option") (below: "item list")

primrec view :: "ztree \<Rightarrow> rose \<Rightarrow> item" where
  "view z (Rose n ts) = Item (attr z n) (map (view z) ts)"

primrec jview :: "jnode \<Rightarrow> item" where
  "jview (JNode a p op ch) = Item (map_of a) (case map_option (map jview) ch of None \<Rightarrow> [] | Some xs \<Rightarrow> xs)"

lemma view_frame: "(\<And>n. n \<in> set (nids t) \<Longrightarrow> attr z' n = attr z n) \<Longrightarrow> view z' t = view z t"
proof (induction t)
  case (Rose n ts)
  have "view z' t = view z t" if "t \<in> set ts" for t
    by (rule Rose.IH [OF that]) (use Rose.prems that in \<open>auto simp: in_forest_nids\<close>)
  with Rose.prems show ?case by simp
qed

section \<open>Allocation\<close>

definition grows :: "ztree \<Rightarrow> ztree \<Rightarrow> bool" where
  "grows z z' \<longleftrightarrow> zt_next z \<le> zt_next z' \<and> (\<forall>n < zt_next z. zt_heap z' n = zt_heap z n) \<and> zt_cache z' = zt_cache z \<and>
     zt_expandTrigger z' = zt_expandTrigger z \<and> zt_selected z' = zt_selected z \<and> zt_created z' = zt_created z \<and>
     zt_zId z' = zt_zId z \<and> zt_ver z' = zt_ver z \<and> zt_pending z' = zt_pending z \<and> zt_log z' = zt_log z"

lemma grows_refl: "grows z z"
  by (simp add: grows_def)

lemma grows_trans: "grows x y \<Longrightarrow> grows y z \<Longrightarrow> grows x z"
  unfolding grows_def by auto

lemma grows_shape: "grows z z' \<Longrightarrow> \<forall>n \<in> set (nids t). n < zt_next z \<Longrightarrow> shape z' t \<longleftrightarrow> shape z t"
  by (rule shape_child_list) (simp add: grows_def child_list_def nodeChildren_def)

lemma grows_view: "grows z z' \<Longrightarrow> \<forall>n \<in> set (nids t). n < zt_next z \<Longrightarrow> view z' t = view z t"
  by (rule view_frame) (auto simp: grows_def attr_def)

text \<open>The invariant only depends on the objects of the tree.\<close>

lemma frame_tree_ok:
  assumes "tree_ok S z T" "\<And>n. n \<in> set (nids T) \<Longrightarrow> zt_heap z' n = zt_heap z n" "zt_next z \<le> zt_next z'"
    "zt_cache z' = zt_cache z" "zt_selected z' = zt_selected z" "zt_zId z' = zt_zId z"
  shows "tree_ok S z' T"
proof -
  note t = tree_okD [OF assms(1)] and h = assms(2)
  show ?thesis unfolding tree_ok_def assms(4-6)
  proof (intro conjI)
    show "rid T = 0" "distinct (nids T)" "set (zt_selected z) \<subseteq> nodes_of T" "distinct (zt_selected z)" by (rule t)+
    have "shape z' T \<longleftrightarrow> shape z T" by (rule shape_child_list) (simp add: child_list_def nodeChildren_def h)
    then show "shape z' T" using t(2) by blast
    show "\<forall>n \<in> set (nids T). n < zt_next z' \<and> placed z' n"
    proof
      fix n assume n: "n \<in> set (nids T)"
      have "placed z' n" by (rule placed_frame [OF t(5) [OF n] h [OF n]]) (use h children_inside [OF t(2) n] in blast)
      with t(4) [OF n] assms(3) show "n < zt_next z' \<and> placed z' n" by simp
    qed
    show "\<forall>n \<in> nodes_of T. settled (zt_heap z' n) \<and> (\<exists>k. 1 \<le> k \<and> k \<le> zt_zId z \<and> zn_tId (zt_heap z' n) = Some (make_tId S k))"
      using t(6,7) h by auto
    show "inj_on (\<lambda>n. zn_tId (zt_heap z' n)) (nodes_of T)" using t(8) h by (auto simp: inj_on_def)
    show "\<forall>key n. (zt_cache z key = Some n) = (n \<in> nodes_of T \<and> key = getNodeCacheId (js_string (zn_tId (zt_heap z' n))))"
      using t(9) h by auto
  qed
qed

lemma grows_tree_ok:
  assumes "grows z z'" "tree_ok S z T"
  shows "tree_ok S z' T"
  by (rule frame_tree_ok [OF assms(2)]) (use assms(1) tree_okD(4) [OF assms(2)] in \<open>simp_all add: grows_def\<close>)

lemma clone_forest:
  "clone_node j z = (n, z') \<Longrightarrow> grows z z' \<and>
     (\<exists>t. rid t = n \<and> shape z' t \<and> nids t = [zt_next z..<zt_next z'] \<and> view z' t = jview j)"
  "clone_nodes js z = (ns, z') \<Longrightarrow> grows z z' \<and>
     (\<exists>ts. map rid ts = ns \<and> (\<forall>t \<in> set ts. shape z' t) \<and> forest_nids ts = [zt_next z..<zt_next z'] \<and> map (view z') ts = map jview js)"
proof (induction j z and js z arbitrary: n z' and ns z' rule: clone_node_clone_nodes.induct)
  case (1 a p op ch z)
  define v where "v = blank_node\<lparr>zn_attr := map_of a, zn_isParent := p, zn_open := op\<rparr>"
  define m where "m = zt_next z"
  define x where "x = z\<lparr>zt_heap := (zt_heap z)(m := v), zt_next := m + 1\<rparr>"
  have al: "alloc v z = (m, x)" by (simp add: alloc_def m_def x_def)
  have gx: "grows z x" by (simp add: grows_def x_def m_def)
  show ?case
  proof (cases ch)
    case None
    then have "n = m" "z' = x" using 1 al by (simp_all add: v_def)
    then show ?thesis using gx None
      by (auto intro!: exI [of _ "Rose m []"] simp: x_def child_list_def nodeChildren_def v_def blank_node_def attr_def m_def fun_eq_iff)
  next
    case (Some js)
    obtain cs y where y: "clone_nodes js x = (cs, y)" by fastforce
    then have e: "n = m" "z' = set_children m (Some cs) y" using 1(2) al Some by (auto simp: v_def)
    have IH: "grows x y \<and> (\<exists>ts. map rid ts = cs \<and> (\<forall>t \<in> set ts. shape y t) \<and> forest_nids ts = [zt_next x..<zt_next y] \<and> map (view y) ts = map jview js)"
      by (rule 1(1) [OF _ _ _ y]) (use al Some in \<open>simp_all add: v_def\<close>)
    then obtain ts where g: "grows x y" and ts: "map rid ts = cs" "\<forall>t \<in> set ts. shape y t" "forest_nids ts = [zt_next x..<zt_next y]"
      "map (view y) ts = map jview js" by blast
    have le: "m + 1 \<le> zt_next y" using g by (simp add: grows_def x_def)
    have other: "zt_heap z' k = zt_heap y k" if "k \<noteq> m" for k using that by (simp add: e(2) set_children_def upd_node_def)
    have m: "zt_heap y m = v" using g by (simp add: grows_def x_def)
    have above: "k \<noteq> m" if "t \<in> set ts" "k \<in> set (nids t)" for t k
    proof -
      have "k \<in> set (forest_nids ts)" using that by (auto simp: in_forest_nids)
      then show ?thesis using ts(3) by (auto simp: x_def)
    qed
    have "shape z' t" if t: "t \<in> set ts" for t
    proof -
      have "shape z' t \<longleftrightarrow> shape y t"
        by (rule shape_child_list) (simp add: other above [OF t] child_list_def nodeChildren_def)
      then show ?thesis using ts(2) t by blast
    qed
    moreover have "view z' t = view y t" if t: "t \<in> set ts" for t
      by (rule view_frame) (simp add: other above [OF t] attr_def fun_eq_iff)
    ultimately have "shape z' (Rose m ts)" "view z' (Rose m ts) = jview (JNode a p op ch)"
      using ts(1,4) m by (auto simp: e(2) set_children_def upd_node_def child_list_def nodeChildren_def Some attr_def fun_eq_iff v_def blank_node_def
        cong: map_cong)
    moreover have "nids (Rose m ts) = [zt_next z..<zt_next z']"
      using ts(3) le by (simp add: x_def e(2) set_children_def upd_node_def m_def upt_conv_Cons)
    moreover have "grows z z'"
    proof -
      have "grows z y" by (rule grows_trans [OF gx g])
      then show ?thesis unfolding e(2) by (auto simp: grows_def set_children_def upd_node_def m_def)
    qed
    ultimately show ?thesis using e(1) by (metis rose.sel(1))
  qed
next
  case (2 z)
  then show ?case using grows_refl by (auto intro!: exI [of _ "[]"])
next
  case (3 j js z)
  obtain m x where x: "clone_node j z = (m, x)" by fastforce
  obtain ms y where y: "clone_nodes js x = (ms, y)" by fastforce
  have e: "ns = m # ms" "z' = y" using 3(3) x y by simp_all
  obtain t where gx: "grows z x" and t: "rid t = m" "shape x t" "nids t = [zt_next z..<zt_next x]" "view x t = jview j"
    using 3(1) [OF x] by blast
  obtain ts where gy: "grows x y" and ts: "map rid ts = ms" "\<forall>t \<in> set ts. shape y t" "forest_nids ts = [zt_next x..<zt_next y]"
    "map (view y) ts = map jview js" using 3(2) [OF x [symmetric] refl y] by blast
  have lt: "\<forall>n \<in> set (nids t). n < zt_next x" using t(3) by simp
  have "forest_nids (t # ts) = nids t @ forest_nids ts" by (simp add: forest_nids_def)
  moreover have "zt_next z \<le> zt_next x" "zt_next x \<le> zt_next y" using gx gy by (simp_all add: grows_def)
  ultimately have "forest_nids (t # ts) = [zt_next z..<zt_next y]" using t(3) ts(3) upt_add_eq_append [of "zt_next z" "zt_next x" "zt_next y - zt_next x"] by simp
  then show ?case unfolding e
    using grows_trans [OF gx gy] t ts grows_shape [OF gy lt] grows_view [OF gy lt] by (intro conjI exI [of _ "t # ts"]) auto
qed

section \<open>Creating the widget\<close>

lemma log_only_simps:
  "zt_heap (zemit e z) = zt_heap z" "zt_next (zemit e z) = zt_next z" "zt_cache (zemit e z) = zt_cache z"
  "zt_zId (zemit e z) = zt_zId z" "zt_selected (zemit e z) = zt_selected z"
  by (simp_all add: zemit_def)

lemma same_fold_zemit: "same z (fold (\<lambda>e. zemit (f e)) es z)"
  by (rule same_fold) (rule same_zemit)

lemma same_bindings: "same z (bindEvent (unbindEvent (bindTree S (unbindTree z))))"
proof -
  have b: "same y (bindTree S y)" for y
    unfolding bindTree_def by (rule same_trans [OF _ same_fold_zemit]) (simp add: same_refl same_trans [OF same_zemit same_zemit])
  have u: "same y (unbindTree y)" and c: "same y (bindEvent y)" and d: "same y (unbindEvent y)" for y
    unfolding unbindTree_def bindEvent_def unbindEvent_def by (rule same_fold_zemit)+
  show ?thesis by (rule same_trans [OF same_trans [OF same_trans [OF u b] d] c])
qed

lemma empty_tree_ok:
  assumes "0 < zt_next z" "child_list z 0 = []" "zt_cache z = Map.empty" "zt_selected z = []"
  shows "tree_ok S z (Rose 0 [])"
  using assms by (simp add: tree_ok_def placed_def)

text \<open>The state in which \<open>createNodes\<close> runs: an empty tree whose root object gets the forest.\<close>

lemma linked_root:
  assumes "nodeChildren z 0 = Some []"
  shows "linked z 0 (-1) ns (set_children 0 (Some ns) z)"
proof -
  have c: "child_list z 0 = []" using assms by (simp add: child_list_def)
  define y where "y = set_children 0 (Some ns) z"
  have y: "zt_heap y n = (if n = 0 then (zt_heap z 0)\<lparr>zn_children := Some ns\<rparr> else zt_heap z n)" for n
    by (simp add: y_def set_children_def upd_node_def)
  have "zt_next y = zt_next z" "zt_cache y = zt_cache z" "zt_selected y = zt_selected z" "zt_zId y = zt_zId z" "zt_ver y = zt_ver z"
    "zt_pending y = zt_pending z" by (simp_all add: y_def set_children_def upd_node_def)
  then show ?thesis unfolding y_def [symmetric] linked_def c by (simp add: y nodeChildren_def insert_at_def)
qed

lemma linked_same:
  assumes "linked z p i ns x" "same x y"
  shows "linked z p i ns y"
proof -
  have s: "zt_next y = zt_next x" "zt_cache y = zt_cache x" "zt_selected y = zt_selected x" "zt_zId y = zt_zId x"
    "zt_ver y = zt_ver x" "zt_pending y = zt_pending x" using assms(2) by (simp_all add: same_def)
  have h: "zn_attr (zt_heap y n) = zn_attr (zt_heap x n)" "zn_tId (zt_heap y n) = zn_tId (zt_heap x n)"
    "zn_parentTId (zt_heap y n) = zn_parentTId (zt_heap x n)" "zn_level (zt_heap y n) = zn_level (zt_heap x n)"
    "zn_first (zt_heap y n) = zn_first (zt_heap x n)" "zn_last (zt_heap y n) = zn_last (zt_heap x n)"
    "zn_isAjaxing (zt_heap y n) = zn_isAjaxing (zt_heap x n)" for n
    using assms(2) by (simp_all add: same_def node_same_def)
  have "settled (zt_heap z n) \<longrightarrow> settled (zt_heap y n)" for n
    using linkedD(14) [OF assms(1)] same_settled [OF assms(2)] by blast
  then show ?thesis using assms(1) unfolding linked_def s h sameD(9) [OF assms(2)] by blast
qed

lemma graft_root: "graft 0 i G (Rose 0 []) = Rose 0 G"
  by (simp add: insert_at_def)

lemma init_creates:
  assumes "0 < zt_next z" "nodeChildren z 0 = Some []" "zt_cache z = Map.empty" "zt_selected z = []" "G \<noteq> []" "fresh z (Rose 0 []) G"
    "same (set_children 0 (Some (map rid G)) z) y"
  shows "\<exists>z'. createNodes S 0 (map rid G) None (-1) y = Some z' \<and> tree_ok S z' (Rose 0 G) \<and> attrs_kept S z z'"
proof -
  have ok: "tree_ok S z (Rose 0 [])" by (rule empty_tree_ok) (use assms in \<open>simp_all add: child_list_def\<close>)
  note l = linked_root [OF assms(2), of "map rid G"]
  have "linked z 0 (-1) (map rid G) y"
    by (rule linked_same [OF l assms(7)])
  then show ?thesis using create_grafts [OF ok _ assms(5,6), of 0 "-1" y 0] graft_root by auto
qed

end
