(* ===== verification/ZTree_Remove.thy ===== *)
theory ZTree_Remove
  imports ZTree_View_Spec
begin

text \<open>
  Removing a node as an operation on trees: \<open>prune\<close> takes a node and what is below it out of the
  tree; \<open>removeNode\<close> leaves the heap, the cache, the selection and the flags of the siblings as the
  pruned tree needs them.
\<close>

section \<open>Pruning\<close>

primrec prune :: "nid \<Rightarrow> rose \<Rightarrow> rose" where
  "prune n (Rose m ts) = Rose m (map snd (filter (\<lambda>(t, t'). rid t \<noteq> n) (map (\<lambda>t. (t, prune n t)) ts)))"

lemma prune_simps [simp]: "prune n (Rose m ts) = Rose m (map (prune n) (filter (\<lambda>t. rid t \<noteq> n) ts))"
proof -
  have "map snd (filter (\<lambda>(t, t'). rid t \<noteq> n) (map (\<lambda>t. (t, prune n t)) ts)) = map (prune n) (filter (\<lambda>t. rid t \<noteq> n) ts)"
    by (induction ts) auto
  then show ?thesis by simp
qed

declare prune.simps [simp del]

lemma rid_prune [simp]: "rid (prune n t) = rid t"
  by (cases t) simp

lemma prune_id: "n \<notin> set (nids t) \<Longrightarrow> prune n t = t"
proof (induction t)
  case (Rose m ts)
  then have "prune n t = t \<and> rid t \<noteq> n" if "t \<in> set ts" for t
    using that rid_nids [of t] by (auto simp: in_forest_nids)
  then have "filter (\<lambda>t. rid t \<noteq> n) ts = ts" "map (prune n) ts = ts" by (simp_all add: map_idI)
  then show ?case by simp
qed

lemma shape_unique: "shape z t \<Longrightarrow> shape z u \<Longrightarrow> rid t = rid u \<Longrightarrow> t = u"
proof (induction t arbitrary: u)
  case (Rose n ts)
  obtain us where u: "u = Rose n us" using Rose.prems(3) by (cases u) simp
  have "map rid ts = map rid us" using Rose.prems(1,2) u by simp
  then have len: "length ts = length us" and r: "\<And>i. i < length ts \<Longrightarrow> rid (ts ! i) = rid (us ! i)"
    by (metis length_map, metis length_map nth_map)
  have "ts = us"
  proof (rule nth_equalityI [OF len])
    fix i assume i: "i < length ts"
    show "ts ! i = us ! i" by (rule Rose.IH [OF nth_mem [OF i]]) (use Rose.prems u i len r in auto)
  qed
  then show ?case using u by simp
qed

lemma mset_prune:
  "shape z t \<Longrightarrow> distinct (nids t) \<Longrightarrow> n \<in> set (nids t) \<Longrightarrow> n \<noteq> rid t \<Longrightarrow> shape z (Rose n us) \<Longrightarrow>
    mset (nids t) = mset (nids (prune n t)) + mset (nids (Rose n us))"
proof (induction t)
  case (Rose m ts)
  have d: "forest_nids (v # vs) = nids v @ forest_nids vs" for v vs by (simp add: forest_nids_def)
  have "mset (forest_nids vs) = mset (forest_nids (map (prune n) (filter (\<lambda>t. rid t \<noteq> n) vs))) + mset (nids (Rose n us))"
    if "set vs \<subseteq> set ts" "distinct (forest_nids vs)" "n \<in> set (forest_nids vs)" for vs
    using that
  proof (induction vs)
    case (Cons v vs)
    show ?case
    proof (cases "n \<in> set (nids v)")
      case True
      then have "n \<notin> set (forest_nids vs)" using Cons.prems(2) by (auto simp: d)
      then have no: "n \<notin> set (nids t)" if "t \<in> set vs" for t using that by (simp add: in_forest_nids)
      have "\<forall>t \<in> set vs. rid t \<noteq> n" using no rid_nids by blast
      then have "filter (\<lambda>t. rid t \<noteq> n) vs = vs" by (rule filter_True)
      moreover have "map (prune n) vs = vs" using no by (simp add: prune_id map_idI)
      ultimately have rest: "map (prune n) (filter (\<lambda>t. rid t \<noteq> n) vs) = vs" by simp
      have sv: "shape z v" using Cons.prems(1) Rose.prems(1) by simp
      show ?thesis
      proof (cases "rid v = n")
        case True
        then have "v = Rose n us" using shape_unique [OF sv Rose.prems(5)] by simp
        then show ?thesis using rest by (simp add: d)
      next
        case False
        have "mset (nids v) = mset (nids (prune n v)) + mset (nids (Rose n us))"
          by (rule Rose.IH) (use sv True False Cons.prems Rose.prems(5) in \<open>auto simp: d\<close>)
        then show ?thesis using rest False by (simp add: d)
      qed
    next
      case False
      then have "rid v \<noteq> n" using rid_nids [of v] by auto
      then show ?thesis using Cons False by (simp add: d prune_id)
    qed
  qed simp
  from this [of ts] show ?case using Rose.prems(2-4) by simp
qed

lemma prune_nids:
  assumes "shape z t" "distinct (nids t)" "n \<in> set (nids t)" "n \<noteq> rid t" "shape z (Rose n us)"
  shows "distinct (nids (prune n t))" "set (nids (prune n t)) = set (nids t) - set (nids (Rose n us))"
    "set (nids (Rose n us)) \<subseteq> set (nids t)" "distinct (nids (Rose n us))"
proof -
  have m: "mset (nids t) = mset (nids (prune n t) @ nids (Rose n us))" using mset_prune [OF assms] by simp
  then have d: "distinct (nids (prune n t) @ nids (Rose n us))" using mset_eq_imp_distinct_iff assms(2) by blast
  then show "distinct (nids (prune n t))" "distinct (nids (Rose n us))" by simp_all
  have "set (nids t) = set (nids (prune n t)) \<union> set (nids (Rose n us))" using mset_eq_setD [OF m] by simp
  then show "set (nids (prune n t)) = set (nids t) - set (nids (Rose n us))" "set (nids (Rose n us)) \<subseteq> set (nids t)" using d by auto
qed

lemma shape_prune:
  assumes "child_list y p = filter (\<lambda>c. c \<noteq> n) (child_list z p)" "\<And>m. m \<noteq> p \<Longrightarrow> m \<noteq> n \<Longrightarrow> child_list y m = child_list z m"
    "\<And>m. m \<noteq> p \<Longrightarrow> n \<notin> set (child_list z m) \<or> m \<notin> A"
  shows "shape z t \<Longrightarrow> set (nids t) \<subseteq> A \<Longrightarrow> rid t \<noteq> n \<Longrightarrow> shape y (prune n t)"
proof (induction t)
  case (Rose m ts)
  have c: "child_list y m = filter (\<lambda>c. c \<noteq> n) (child_list z m)"
  proof (cases "m = p")
    case False
    then have "n \<notin> set (child_list z m)" using assms(3) [of m] Rose.prems(2) by simp
    then have "filter (\<lambda>c. c \<noteq> n) (child_list z m) = child_list z m" by (intro filter_True) blast
    then show ?thesis using assms(2) [OF False] Rose.prems(3) by simp
  qed (use assms(1) in simp)
  have "set (nids t) \<subseteq> A" if "t \<in> set ts" for t
    using that Rose.prems(2) in_forest_nids [of _ ts] by (simp add: subset_eq) blast
  then have "shape y (prune n t)" if "t \<in> set ts" "rid t \<noteq> n" for t using Rose.IH [OF that(1)] that Rose.prems(1) by simp
  moreover have "map rid (map (prune n) (filter (\<lambda>t. rid t \<noteq> n) ts)) = filter (\<lambda>c. c \<noteq> n) (map rid ts)"
    by (simp add: filter_map o_def)
  ultimately show ?case using c Rose.prems(1) by simp
qed

section \<open>The cache and the selection\<close>

definition cache_id :: "ztree \<Rightarrow> nid \<Rightarrow> string" where
  "cache_id z n = getNodeCacheId (js_string (zn_tId (zt_heap z n)))"

definition uncached :: "nid set \<Rightarrow> ztree \<Rightarrow> ztree" where
  "uncached N z = z\<lparr>zt_cache := (\<lambda>key. if key \<in> cache_id z ` N then None else zt_cache z key)\<rparr>"

lemma uncached_simps [simp]:
  "zt_heap (uncached N z) = zt_heap z" "uncached {} z = z" "cache_id (uncached N z) = cache_id z"
  "uncached M (uncached N z) = uncached (M \<union> N) z"
proof -
  show "uncached M (uncached N z) = uncached (M \<union> N) z"
  proof -
    have "(\<lambda>key. if key \<in> f ` M then None else if key \<in> f ` N then None else g key) = (\<lambda>key. if key \<in> f ` (M \<union> N) then None else g key)"
      for f :: "nid \<Rightarrow> string" and g :: "string \<Rightarrow> nid option" by (auto simp: fun_eq_iff)
    then show ?thesis by (simp add: uncached_def cache_id_def cong: if_cong)
  qed
qed (simp_all add: uncached_def cache_id_def fun_eq_iff)

lemma removeNodeCache_step:
  "removeNodeCache (Suc k) n z =
     (case foldM (removeNodeCache k) (child_list z n) z of None \<Rightarrow> None | Some y \<Rightarrow> Some (y\<lparr>zt_cache := (zt_cache y)(cache_id y n := None)\<rparr>))"
  by (simp add: child_list_def cache_id_def cong: option.case_cong)

lemma removeNodeCache_forest:
  "fits k z ts \<Longrightarrow> zt_heap y = zt_heap z \<Longrightarrow> foldM (removeNodeCache k) (map rid ts) y = Some (uncached (set (forest_nids ts)) y)"
proof (induction arbitrary: y rule: fits_induct)
  case (Cons k n us ts)
  have c: "child_list y n = map rid us" using Cons.hyps(1) Cons.prems by (simp add: child_list_def nodeChildren_def)
  have "foldM (removeNodeCache k) (map rid us) y = Some (uncached (set (forest_nids us)) y)" by (rule Cons.IH(1) [OF Cons.prems])
  then have "removeNodeCache (Suc k) n y = Some (uncached (insert n (set (forest_nids us))) y)"
    unfolding removeNodeCache_step c by (auto simp: uncached_def cache_id_def fun_eq_iff)
  moreover have "foldM (removeNodeCache (Suc k)) (map rid ts) (uncached (insert n (set (forest_nids us))) y) =
      Some (uncached (set (forest_nids ts)) (uncached (insert n (set (forest_nids us))) y))"
    by (rule Cons.IH(2)) (simp add: Cons.prems)
  ultimately show ?case by (simp add: Un_commute del: removeNodeCache.simps)
qed simp

section \<open>Changes that the tree does not see\<close>

definition near :: "ztree \<Rightarrow> ztree \<Rightarrow> bool" where
  "near z z' \<longleftrightarrow> zt_next z' = zt_next z \<and> zt_cache z' = zt_cache z \<and> zt_selected z' = zt_selected z \<and> zt_zId z' = zt_zId z \<and>
     (\<forall>n. child_list z' n = child_list z n \<and> zn_attr (zt_heap z' n) = zn_attr (zt_heap z n) \<and> zn_tId (zt_heap z' n) = zn_tId (zt_heap z n) \<and>
        zn_parentTId (zt_heap z' n) = zn_parentTId (zt_heap z n) \<and> zn_level (zt_heap z' n) = zn_level (zt_heap z n) \<and>
        zn_first (zt_heap z' n) = zn_first (zt_heap z n) \<and> zn_last (zt_heap z' n) = zn_last (zt_heap z n) \<and>
        (settled (zt_heap z n) \<longrightarrow> settled (zt_heap z' n)))"

lemma near_same: "same z z' \<Longrightarrow> near z z'"
  using same_settled [of z z'] sameD(1) [of z z'] by (simp add: near_def same_def node_same_def)

lemma near_trans: "near x y \<Longrightarrow> near y z \<Longrightarrow> near x z"
  by (simp add: near_def)

lemma near_refl: "near z z"
  by (simp add: near_def)

lemma near_tree_ok:
  assumes "near z z'" "tree_ok S z T"
  shows "tree_ok S z' T"
proof -
  have c: "zt_next z' = zt_next z" "zt_cache z' = zt_cache z" "zt_selected z' = zt_selected z" "zt_zId z' = zt_zId z"
    "\<And>n. zn_tId (zt_heap z' n) = zn_tId (zt_heap z n)" using assms(1) by (simp_all add: near_def)
  have "shape z' T = shape z T" by (rule shape_child_list) (use assms(1) in \<open>simp add: near_def\<close>)
  moreover have "placed z' p \<longleftrightarrow> placed z p" for p using assms(1) by (simp add: near_def placed_def Let_def)
  moreover have "settled (zt_heap z n) \<Longrightarrow> settled (zt_heap z' n)" for n using assms(1) by (simp add: near_def)
  ultimately show ?thesis using assms(2) unfolding tree_ok_def c by blast
qed

lemma near_emptied:
  assumes "child_list z p = []"
  shows "near z (set_children p None (set_open p False (set_isParent p False z)))"
  using assms
  by (simp add: near_def set_children_def set_open_def set_isParent_def upd_node_def child_list_def nodeChildren_def settled_def rangeI)

lemma near_repair_parent: "near z (repair_parent S p z)"
proof -
  have sw: "near y (replaceSwitchClass S n c y)" for y n c by (rule near_same [OF same_replaceSwitchClass])
  have ic: "near y (replaceIcoClass S n c y)" for y n c by (rule near_same [OF same_replaceIcoClass])
  have em: "near y (zemit e y)" for y e by (rule near_same [OF same_zemit])
  show ?thesis
  proof (cases "child_list z p = []")
    case True
    show ?thesis unfolding repair_parent_def Let_def
      by (simp add: True near_refl near_trans [OF near_trans [OF near_trans [OF near_emptied [OF True] sw] ic] em])
  next
    case False
    have "near z (if p = root then if length (child_list z p) = 1 then replaceSwitchClass S l ''root'' z
        else replaceSwitchClass S l ''bottom'' (replaceSwitchClass S (hd (child_list z p)) ''roots'' z) else replaceSwitchClass S l ''bottom'' z)" for l
      by (simp add: sw near_trans [OF sw sw])
    from near_trans [OF this em] False show ?thesis unfolding repair_parent_def Let_def by (simp add: near_refl)
  qed
qed

section \<open>The first and the last child\<close>

text \<open>Positions in a list without one of its elements.\<close>

lemma filter_middle: "distinct (xs @ c # ys) \<Longrightarrow> filter (\<lambda>d. d \<noteq> c) (xs @ c # ys) = xs @ ys"
proof -
  assume "distinct (xs @ c # ys)"
  then have "\<forall>d \<in> set xs. d \<noteq> c" "\<forall>d \<in> set ys. d \<noteq> c" by auto
  then have "filter (\<lambda>d. d \<noteq> c) xs = xs" "filter (\<lambda>d. d \<noteq> c) ys = ys" by (simp_all add: filter_True)
  then show ?thesis by simp
qed

lemma drop_one:
  assumes "distinct cs" "k < length cs"
  shows "filter (\<lambda>c. c \<noteq> cs ! k) cs = take k cs @ drop (Suc k) cs"
  using filter_middle [of "take k cs" "cs ! k" "drop (Suc k) cs", folded id_take_nth_drop [OF assms(2)]] assms(1) by blast

lemma remove_first_unique:
  assumes "n \<in> set cs" "distinct cs" "\<And>c. c \<in> set cs \<Longrightarrow> P c \<longleftrightarrow> c = n"
  shows "remove_first P cs = filter (\<lambda>c. c \<noteq> n) cs"
  using assms
proof (induction cs)
  case (Cons c cs)
  show ?case
  proof (cases "c = n")
    case True
    then have "filter (\<lambda>c. c \<noteq> n) cs = cs" using Cons.prems(2) by (intro filter_True) auto
    then show ?thesis using True Cons.prems(3) by simp
  next
    case False
    then show ?thesis using Cons by simp
  qed
qed simp

lemma children_distinct:
  assumes "shape z t" "distinct (nids t)" "p \<in> set (nids t)"
  shows "distinct (child_list z p)"
proof -
  have "mset (rid t # concat (map (child_list z) (nids t))) = mset (nids t)" using children_mset [OF assms(1)] by simp
  then have "distinct (concat (map (child_list z) (nids t)))" using mset_eq_imp_distinct_iff assms(2) by (metis distinct.simps(2))
  then show ?thesis using assms(3) by (auto simp: distinct_concat_iff distinct_map) 
qed

definition flagged :: "ztree \<Rightarrow> nid list \<Rightarrow> ztree \<Rightarrow> bool" where
  \<comment> \<open>the flags after \<open>setFirstNode\<close> and \<open>setLastNode\<close>\<close>
  "flagged z cs z' \<longleftrightarrow> zt_next z' = zt_next z \<and> zt_cache z' = zt_cache z \<and> zt_selected z' = zt_selected z \<and> zt_zId z' = zt_zId z \<and>
     (\<forall>n. child_list z' n = child_list z n \<and> zn_attr (zt_heap z' n) = zn_attr (zt_heap z n) \<and> zn_tId (zt_heap z' n) = zn_tId (zt_heap z n) \<and>
        zn_parentTId (zt_heap z' n) = zn_parentTId (zt_heap z n) \<and> zn_level (zt_heap z' n) = zn_level (zt_heap z n) \<and>
        (zn_first (zt_heap z' n) \<longleftrightarrow> zn_first (zt_heap z n) \<or> cs \<noteq> [] \<and> n = hd cs) \<and>
        (zn_last (zt_heap z' n) \<longleftrightarrow> zn_last (zt_heap z n) \<or> cs \<noteq> [] \<and> n = last cs) \<and>
        (settled (zt_heap z n) \<longrightarrow> settled (zt_heap z' n)))"

lemma set_ends_flagged: "flagged z (child_list z p) (setLastNode p (setFirstNode p z))"
proof (cases "child_list z p")
  case Nil
  then show ?thesis by (simp add: flagged_def setFirstNode_def setLastNode_def)
next
  case (Cons c cs)
  define y where "y = upd_node c (zn_first_update (\<lambda>_. True)) z"
  have y: "child_list y n = child_list z n" for n by (simp add: y_def upd_node_def child_list_def nodeChildren_def)
  have e: "setLastNode p (setFirstNode p z) = upd_node (last (c # cs)) (zn_last_update (\<lambda>_. True)) y"
    using Cons y [of p] by (simp add: setFirstNode_def setLastNode_def y_def)
  show ?thesis unfolding e flagged_def Cons
    by (auto simp: y_def upd_node_def child_list_def nodeChildren_def)
qed

lemma at_fields: "at z n p l f b \<Longrightarrow> zn_parentTId (zt_heap z' n) = zn_parentTId (zt_heap z n) \<Longrightarrow> zn_level (zt_heap z' n) = zn_level (zt_heap z n) \<Longrightarrow>
   (\<And>q. p = Some q \<Longrightarrow> zn_tId (zt_heap z' q) = zn_tId (zt_heap z q)) \<Longrightarrow> zn_first (zt_heap z' n) = f' \<Longrightarrow> zn_last (zt_heap z' n) = b' \<Longrightarrow>
   at z' n p l f' b'"
  by (cases p) (simp_all add: at_def)

text \<open>The children of the old parent: without the node, with the flags of the new ends.\<close>

lemma pruned_placed:
  assumes pl: "placed z p" and cs: "child_list z p = cs" "distinct cs" "k < length cs" "n = cs ! k" "p \<noteq> n"
    and x: "child_list x p = filter (\<lambda>c. c \<noteq> n) cs"
    and h: "\<And>m. zn_parentTId (zt_heap x m) = zn_parentTId (zt_heap z m)" "\<And>m. zn_level (zt_heap x m) = zn_level (zt_heap z m)"
      "\<And>m. zn_tId (zt_heap x m) = zn_tId (zt_heap z m)"
    and f: "\<And>m. m \<noteq> n \<Longrightarrow> zn_first (zt_heap x m) \<longleftrightarrow> zn_first (zt_heap z m) \<or> child_list x p \<noteq> [] \<and> m = hd (child_list x p)"
      "\<And>m. m \<noteq> n \<Longrightarrow> zn_last (zt_heap x m) \<longleftrightarrow> zn_last (zt_heap z m) \<or> child_list x p \<noteq> [] \<and> m = last (child_list x p)"
  shows "placed x p"
  unfolding placed_iff_at
proof (intro allI impI)
  fix j assume j: "j < length (child_list x p)"
  define ds where "ds = take k cs @ drop (Suc k) cs"
  have ds: "child_list x p = ds" using x drop_one [OF cs(2,3)] cs(4) by (simp add: ds_def)
  have dd: "distinct ds" using cs(2) x ds by (metis distinct_filter)
  have len: "Suc (length ds) = length cs" using cs(3) by (simp add: ds_def)
  define i where "i = (if j < k then j else Suc j)"
  have i: "i < length cs" "ds ! j = cs ! i" "i \<noteq> k"
    using j cs(3) len unfolding ds by (auto simp: i_def ds_def nth_append min_def)
  have neq: "cs ! i \<noteq> n" using i(1,3) cs(2-4) by (simp add: nth_eq_iff_index_eq)
  have a: "at z (cs ! i) (if p = 0 then None else Some p) (if p = 0 then 0 else Suc (zn_level (zt_heap z p))) (i = 0) (Suc i = length cs)"
    using pl i(1) cs(1) unfolding placed_iff_at by blast
  have first: "zn_first (zt_heap x (cs ! i)) = (j = 0)"
  proof -
    have "ds \<noteq> []" using j ds by auto
    then have "cs ! i = hd ds \<longleftrightarrow> j = 0" using i(2) j dd ds by (simp add: hd_conv_nth nth_eq_iff_index_eq flip: i(2))
    moreover have "i = 0 \<Longrightarrow> j = 0" by (simp add: i_def split: if_splits)
    ultimately show ?thesis using f(1) [OF neq] a ds \<open>ds \<noteq> []\<close> by (auto simp: at_def)
  qed
  have last: "zn_last (zt_heap x (cs ! i)) = (Suc j = length ds)"
  proof -
    have "ds \<noteq> []" using j ds by auto
    then have "cs ! i = last ds \<longleftrightarrow> Suc j = length ds"
      using i(2) j dd ds by (auto simp: last_conv_nth nth_eq_iff_index_eq simp flip: i(2))
    moreover have "Suc i = length cs \<Longrightarrow> Suc j = length ds" using j ds len by (auto simp: i_def split: if_splits)
    ultimately show ?thesis using f(2) [OF neq] a ds \<open>ds \<noteq> []\<close> by (auto simp: at_def)
  qed
  show "at x (child_list x p ! j) (if p = 0 then None else Some p) (if p = 0 then 0 else Suc (zn_level (zt_heap x p))) (j = 0)
      (Suc j = length (child_list x p))"
    unfolding ds i(2) h(2) [of p] by (rule at_fields [OF a]) (simp_all add: h first last)
qed

section \<open>The pruned tree\<close>

lemma cache_id_image:
  assumes "tree_ok S z T" "D \<subseteq> nodes_of T" "m \<in> nodes_of T"
  shows "cache_id z m \<in> cache_id z ` D \<longleftrightarrow> m \<in> D"
proof -
  have "zt_cache z (cache_id z k) = Some k" if "k \<in> nodes_of T" for k
    using tree_okD(9) [OF assms(1)] that by (simp add: cache_id_def)
  then have "inj_on (cache_id z) (nodes_of T)" by (metis inj_onI option.inject)
  then show ?thesis by (rule inj_on_image_mem_iff [OF _ assms(3,2)])
qed

text \<open>Taking a branch out of the selection, once its ids have left the cache.\<close>

lemma branch_unselected:
  assumes ok: "tree_ok S z T" and D: "D \<subseteq> nodes_of T" "n \<in> D"
    and y: "zt_cache y = zt_cache z" "zt_selected y = zt_selected z" "\<And>m. zn_tId (zt_heap y m) = zn_tId (zt_heap z m)"
  shows "zt_selected (removeSelectedNode (Some n) (uncached D y)) = filter (\<lambda>m. m \<notin> D) (zt_selected z)"
proof -
  have ci: "cache_id y m = cache_id z m" for m by (simp add: cache_id_def y(3))
  have "(Some n \<noteq> Some m \<and> getNodeCache (uncached D y) (zn_tId (zt_heap (uncached D y) m)) \<noteq> None) = (m \<notin> D)"
    if "m \<in> set (zt_selected z)" for m
  proof -
    have m: "m \<in> nodes_of T" using tree_okD(10) [OF ok] that by blast
    obtain i where i: "zn_tId (zt_heap z m) = Some (make_tId S i)" by (rule tree_tId [OF ok m])
    have c: "zt_cache z (cache_id z m) = Some m" using tree_okD(9) [OF ok] m by (simp add: cache_id_def)
    have "getNodeCache (uncached D y) (zn_tId (zt_heap (uncached D y) m)) = (if cache_id z m \<in> cache_id z ` D then None else Some m)"
      using c i y ci by (simp add: getNodeCache_def uncached_def cache_id_def cong: image_cong)
    then show ?thesis using cache_id_image [OF ok D(1) m] D(2) by auto
  qed
  then show ?thesis unfolding removeSelectedNode_def Let_def by (simp add: y(2) uncached_def cong: filter_cong)
qed

lemma prune_tree_ok:
  assumes ok: "tree_ok S z T" and n: "n \<in> nodes_of T" and p: "p \<in> set (nids T)" "n \<in> set (child_list z p)" and us: "shape z (Rose n us)"
    and D: "D = set (nids (Rose n us))"
    and x: "zt_next x = zt_next z" "zt_zId x = zt_zId z" "\<And>key. zt_cache x key = (if key \<in> cache_id z ` D then None else zt_cache z key)"
      "zt_selected x = filter (\<lambda>m. m \<notin> D) (zt_selected z)" "child_list x p = filter (\<lambda>c. c \<noteq> n) (child_list z p)"
      "\<And>m. m \<noteq> p \<Longrightarrow> child_list x m = child_list z m"
    and h: "\<And>m. zn_parentTId (zt_heap x m) = zn_parentTId (zt_heap z m)" "\<And>m. zn_level (zt_heap x m) = zn_level (zt_heap z m)"
      "\<And>m. zn_tId (zt_heap x m) = zn_tId (zt_heap z m)" "\<And>m. m \<noteq> n \<Longrightarrow> settled (zt_heap z m) \<Longrightarrow> settled (zt_heap x m)"
    and f: "\<And>m. m \<noteq> n \<Longrightarrow> zn_first (zt_heap x m) \<longleftrightarrow> zn_first (zt_heap z m) \<or> child_list x p \<noteq> [] \<and> m = hd (child_list x p)"
      "\<And>m. m \<noteq> n \<Longrightarrow> zn_last (zt_heap x m) \<longleftrightarrow> zn_last (zt_heap z m) \<or> child_list x p \<noteq> [] \<and> m = last (child_list x p)"
  shows "tree_ok S x (prune n T)"
proof -
  note t = tree_okD [OF ok]
  have nT: "n \<in> set (nids T)" "n \<noteq> rid T" using n t(1) by auto
  note pn = prune_nids [OF t(2,3) nT us, folded D]
  have nD: "n \<in> D" by (simp add: D)
  have pn0: "0 \<in> set (nids T)" using rid_nids [of T] t(1) by simp
  have root_D: "0 \<notin> D"
  proof
    assume "0 \<in> D"
    then have "0 \<notin> set (nids (prune n T))" using pn(2) by blast
    then show False using rid_nids [of "prune n T"] t(1) by simp
  qed
  have nodes: "nodes_of (prune n T) = nodes_of T - D" using pn(2) by blast
  have only_p: "m = p" if "m \<in> set (nids T)" "n \<in> set (child_list z m)" for m by (rule one_parent [OF t(2,3) that(1) p(1) that(2) p(2)])
  have p_n: "p \<noteq> n"
  proof
    assume "p = n"
    then have "n \<in> set (forest_nids us)" using p(2) us rid_forest [of _ us] by auto
    then show False using pn(4) by simp
  qed
  have shape: "shape x (prune n T)"
    by (rule shape_prune [where A = "set (nids T)", OF x(5)]) (use x(6) only_p t(2) nT(2) in auto)
  have D_nodes: "D \<subseteq> nodes_of T" using pn(3) root_D by blast
  have pl: "placed x m" if m: "m \<in> set (nids T)" "m \<notin> D" for m
  proof (cases "m = p")
    case True
    obtain k where k: "k < length (child_list z p)" "n = child_list z p ! k" using p(2) by (auto simp: in_set_conv_nth)
    show ?thesis unfolding True
      by (rule pruned_placed [OF t(5) [OF p(1)] refl children_distinct [OF t(2,3) p(1)] k p_n x(5) h(1-3) f])
  next
    case False
    have c: "child_list x m = child_list z m" by (rule x(6) [OF False])
    have "zn_first (zt_heap x c) = zn_first (zt_heap z c) \<and> zn_last (zt_heap x c) = zn_last (zt_heap z c)"
      if c: "c \<in> set (child_list z m)" for c
    proof -
      have "c \<notin> set (child_list z p)" using one_parent [OF t(2,3) m(1) p(1) c] False by blast
      then have "c \<notin> set (child_list x p)" "c \<noteq> n" using x(5) p(2) by auto
      then have "\<not> (child_list x p \<noteq> [] \<and> c = hd (child_list x p))" "\<not> (child_list x p \<noteq> [] \<and> c = last (child_list x p))" by auto
      then show ?thesis using f [OF \<open>c \<noteq> n\<close>] by blast
    qed
    then show ?thesis by (intro placed_same_fields [OF t(5) [OF m(1)] c]) (simp_all add: h)
  qed
  show ?thesis unfolding tree_ok_def pn(2) nodes [unfolded pn(2)]
  proof (intro conjI)
    show "rid (prune n T) = 0" using t(1) by simp
    show "shape x (prune n T)" by (rule shape)
    show "distinct (nids (prune n T))" by (rule pn(1))
    show "\<forall>m \<in> set (nids T) - D. m < zt_next x \<and> placed x m" using t(4) pl x(1) by auto
    show "\<forall>m \<in> nodes_of T - D. settled (zt_heap x m) \<and> (\<exists>k. 1 \<le> k \<and> k \<le> zt_zId x \<and> zn_tId (zt_heap x m) = Some (make_tId S k))"
    proof
      fix m assume "m \<in> nodes_of T - D"
      then have m: "m \<in> nodes_of T" "m \<noteq> n" using nD by auto
      show "settled (zt_heap x m) \<and> (\<exists>k. 1 \<le> k \<and> k \<le> zt_zId x \<and> zn_tId (zt_heap x m) = Some (make_tId S k))"
        unfolding h(3) x(2) using h(4) [OF m(2) t(6) [OF m(1)]] t(7) [OF m(1)] by blast
    qed
    show "inj_on (\<lambda>m. zn_tId (zt_heap x m)) (nodes_of T - D)" unfolding h(3) by (rule inj_on_subset [OF t(8)]) blast
    show "\<forall>key m. (zt_cache x key = Some m) = (m \<in> nodes_of T - D \<and> key = getNodeCacheId (js_string (zn_tId (zt_heap x m))))"
    proof (intro allI)
      fix key m
      have old: "(zt_cache z key = Some m) = (m \<in> nodes_of T \<and> key = cache_id z m)" unfolding cache_id_def by (rule t(9))
      note out = cache_id_image [OF ok D_nodes]
      show "(zt_cache x key = Some m) = (m \<in> nodes_of T - D \<and> key = getNodeCacheId (js_string (zn_tId (zt_heap x m))))"
        unfolding h(3) cache_id_def [symmetric] x(3) using old out by (cases "m \<in> nodes_of T") auto
    qed
    show "set (zt_selected x) \<subseteq> nodes_of T - D" using t(10) x(4) by auto
    show "distinct (zt_selected x)" using t(11) x(4) by simp
  qed
qed

section \<open>Removing a node\<close>

lemma removeNode_prunes:
  assumes ok: "tree_ok S z T" and n: "n \<in> nodes_of T"
  shows "\<exists>z'. removeNode S n z = Some z' \<and> tree_ok S z' (prune n T) \<and> (\<forall>m. attr z' m = attr z m)"
proof -
  note t = tree_okD [OF ok]
  obtain p where p: "p \<in> set (nids T)" "n \<in> set (child_list z p)" "parent_of z n = Some p"
    by (rule tree_parent [OF ok n])
  have nT: "n \<in> set (nids T)" using n by simp
  obtain us where us: "child_list z n = map rid us" "fits (zt_next z + 1) z us" using node_fits [OF ok nT] by auto
  have sn: "shape z (Rose n us)" using us by (simp add: fits_def)
  have nr: "n \<noteq> rid T" using n t(1) by auto
  note pn = prune_nids [OF t(2,3) nT nr sn]
  define D where "D = set (nids (Rose n us))"
  have p_n: "p \<noteq> n"
  proof
    assume "p = n"
    then have "n \<in> set (forest_nids us)" using p(2) sn rid_forest [of _ us] by auto
    then show False using pn(4) by simp
  qed
  have fr: "fresh z (Rose 0 []) [Rose n us]"
    using sn pn(3,4) t(4) n rid_nids [of T] root_no_child [OF ok] children_inside [OF t(2)] pn(2) rid_nids [of "prune n T"] t(1)
    by (auto simp: fresh_def)
  define z1 where "z1 = upd_node n (\<lambda>v. v\<lparr>zn_first := False, zn_last := False, zn_detached := True\<rparr>) z"
  have z1: "child_list z1 m = child_list z m" "zn_tId (zt_heap z1 m) = zn_tId (zt_heap z m)" "zt_cache z1 = zt_cache z" "zt_next z1 = zt_next z"
    "getNodeCache z1 s = getNodeCache z s" for m s
    by (simp_all add: z1_def upd_node_def child_list_def nodeChildren_def getNodeCache_def)
  define z2 where "z2 = zemit (Remove_Elem (elem_id z1 n '''')) z1"
  have h2: "zt_heap z2 = zt_heap z1" "zt_cache z2 = zt_cache z" "zt_next z2 = zt_next z" "zt_selected z2 = zt_selected z" "zt_zId z2 = zt_zId z"
    by (simp_all add: z2_def zemit_def z1_def upd_node_def)
  have "fits (zt_next z2 + 1) z2 [Rose n us]"
  proof -
    have "shape z2 (Rose n us) \<longleftrightarrow> shape z (Rose n us)"
      by (rule shape_child_list) (simp add: child_list_def nodeChildren_def h2 z1_def upd_node_def)
    then show ?thesis using fresh_fits [OF fr, of "zt_next z"] h2(3) by (simp add: fits_def)
  qed
  then have "removeNodeCache (zt_next z2 + 1) n z2 = Some (uncached D z2)"
    using removeNodeCache_forest [of "zt_next z2 + 1" z2 "[Rose n us]" z2] by (simp add: D_def split: option.splits del: removeNodeCache.simps)
  then have rc: "removeNodeCache (zt_next z1 + 1) n z2 = Some (uncached D z2)" by (simp only: h2(3) z1(4))
  define z3 where "z3 = removeSelectedNode (Some n) (uncached D z2)"
  have ci: "cache_id z2 m = cache_id z m" for m by (simp add: cache_id_def h2 z1(2))
  have h3: "zt_heap z3 = zt_heap z1" "zt_next z3 = zt_next z" "zt_zId z3 = zt_zId z"
    "zt_cache z3 key = (if key \<in> cache_id z ` D then None else zt_cache z key)" for key
    by (simp_all add: z3_def removeSelectedNode_def Let_def h2 uncached_def ci cong: image_cong if_cong)
  have "D \<subseteq> nodes_of T" using pn(2,3) rid_nids [of "prune n T"] t(1) by (auto simp: D_def)
  then have sel: "zt_selected z3 = filter (\<lambda>m. m \<notin> D) (zt_selected z)"
    unfolding z3_def by (intro branch_unselected [OF ok]) (simp_all add: D_def h2 z1(2))
  obtain cs where cs: "nodeChildren z p = Some cs" using p(2) by (cases "nodeChildren z p") (auto simp: child_list_def)
  then have ccs: "child_list z p = cs" by (simp add: child_list_def)
  have cs3: "nodeChildren z3 p = Some cs" using cs p_n by (simp add: nodeChildren_def h3 z1_def upd_node_def)
  define cs' where "cs' = filter (\<lambda>c. c \<noteq> n) cs"
  have rf: "remove_first (\<lambda>c. zn_tId (zt_heap z3 c) = zn_tId (zt_heap z3 n)) cs = cs'"
    unfolding cs'_def
  proof (rule remove_first_unique)
    show "n \<in> set cs" "distinct cs" using p(2) children_distinct [OF t(2,3) p(1)] ccs by simp_all
    fix c assume "c \<in> set cs"
    then have "c \<in> nodes_of T" using children_inside [OF t(2) p(1)] root_no_child [OF ok p(1)] ccs by (cases "c = 0") auto
    then show "zn_tId (zt_heap z3 c) = zn_tId (zt_heap z3 n) \<longleftrightarrow> c = n"
      using inj_onD [OF t(8) _ _ n] h3(1) z1(2) by auto
  qed
  define z4 where "z4 = set_children p (Some cs') z3"
  have c4: "child_list z4 p = cs'" "m \<noteq> p \<Longrightarrow> child_list z4 m = child_list z m" for m
    using z1(1) by (simp_all add: z4_def set_children_def upd_node_def child_list_def nodeChildren_def h3)
  define z5 where "z5 = setLastNode p (setFirstNode p z4)"
  have fl: "flagged z4 cs' z5" using set_ends_flagged [of z4 p] by (simp add: z5_def c4)
  have near: "near z5 (repair_parent S p z5)" by (rule near_repair_parent)
  have f4: "zn_parentTId (zt_heap z4 m) = zn_parentTId (zt_heap z m)" "zn_level (zt_heap z4 m) = zn_level (zt_heap z m)"
    "zn_tId (zt_heap z4 m) = zn_tId (zt_heap z m)" "zn_attr (zt_heap z4 m) = zn_attr (zt_heap z m)"
    "m \<noteq> n \<Longrightarrow> settled (zt_heap z m) \<Longrightarrow> settled (zt_heap z4 m)" "m \<noteq> n \<Longrightarrow> zn_first (zt_heap z4 m) = zn_first (zt_heap z m)"
    "m \<noteq> n \<Longrightarrow> zn_last (zt_heap z4 m) = zn_last (zt_heap z m)" for m
    by (auto simp: z4_def set_children_def upd_node_def h3 z1_def)
  have g4: "zt_next z4 = zt_next z" "zt_zId z4 = zt_zId z" "zt_cache z4 = zt_cache z3" "zt_selected z4 = zt_selected z3"
    by (simp_all add: z4_def set_children_def upd_node_def h3)
  have "tree_ok S z5 (prune n T)"
  proof (rule prune_tree_ok [OF ok n p(1,2) sn D_def])
    show "child_list z5 p = filter (\<lambda>c. c \<noteq> n) (child_list z p)" using fl c4 by (simp add: flagged_def cs'_def ccs)
    show "child_list z5 m = child_list z m" if "m \<noteq> p" for m using fl c4(2) [OF that] by (simp add: flagged_def)
    show "zn_first (zt_heap z5 m) \<longleftrightarrow> zn_first (zt_heap z m) \<or> child_list z5 p \<noteq> [] \<and> m = hd (child_list z5 p)" if "m \<noteq> n" for m
      using fl c4(1) f4(6) [OF that] by (simp add: flagged_def)
    show "zn_last (zt_heap z5 m) \<longleftrightarrow> zn_last (zt_heap z m) \<or> child_list z5 p \<noteq> [] \<and> m = last (child_list z5 p)" if "m \<noteq> n" for m
      using fl c4(1) f4(7) [OF that] by (simp add: flagged_def)
    show "settled (zt_heap z5 m)" if "m \<noteq> n" "settled (zt_heap z m)" for m using fl f4(5) [OF that] by (simp add: flagged_def)
    show "zt_cache z5 key = (if key \<in> cache_id z ` D then None else zt_cache z key)" for key
      using fl by (simp add: flagged_def g4 h3)
  qed (use fl f4 g4 sel in \<open>simp_all add: flagged_def\<close>)
  then have "tree_ok S (repair_parent S p z5) (prune n T)" by (rule near_tree_ok [OF near])
  moreover have "attr (repair_parent S p z5) m = attr z m" for m
    using near fl f4(4) by (simp add: near_def flagged_def attr_def fun_eq_iff)
  moreover have "removeNode S n z = Some (repair_parent S p z5)"
  proof -
    have "getNodeCache z1 (zn_tId (zt_heap z1 n)) \<noteq> None" using tree_cached(1) [OF ok n] z1 by simp
    then show ?thesis
      unfolding removeNode_def Let_def p(3) z1_def [symmetric] z2_def [symmetric] rc Option.bind.simps z3_def [symmetric] cs3 rf
        z4_def [symmetric] z5_def [symmetric] by (simp only: if_False)
  qed
  ultimately show ?thesis by blast
qed

end
