(* ===== verification/ZTree_Rows.thy ===== *)
theory ZTree_Rows
  imports ZTree_Remove
begin

text \<open>
  Rows with parent ids: the list of trees that \<open>transformTozTreeFormat\<close> makes of them, when a row
  comes after the row it names as its parent, and the answer of the server that holds such rows.
\<close>

section \<open>The tree of the rows\<close>

definition row_parent :: "zsetting \<Rightarrow> ztree \<Rightarrow> nid list \<Rightarrow> nid \<Rightarrow> nid option" where
  \<comment> \<open>the row that a row names as its parent\<close>
  "row_parent S z rows n =
     (if attr z n (zs_idKey S) = attr z n (zs_pIdKey S) then None
      else rows_by_id S z rows (js_string (attr z n (zs_pIdKey S))))"

definition rows_tree :: "(nid \<Rightarrow> nid option) \<Rightarrow> nid list \<Rightarrow> rose" where
  \<comment> \<open>each row as the last child of its parent, or of the root\<close>
  "rows_tree par rows = fold (\<lambda>n. graft (case par n of None \<Rightarrow> 0 | Some p \<Rightarrow> p) (-1) [Rose n []]) rows (Rose 0 [])"

fun in_order :: "(nid \<Rightarrow> nid option) \<Rightarrow> nid set \<Rightarrow> nid list \<Rightarrow> bool" where
  "in_order par seen [] \<longleftrightarrow> True"
| "in_order par seen (n # rows) \<longleftrightarrow> (case par n of None \<Rightarrow> True | Some p \<Rightarrow> p \<in> seen) \<and> in_order par (insert n seen) rows"

definition reachable_rows :: "zsetting \<Rightarrow> ztree \<Rightarrow> nid list \<Rightarrow> bool" where
  \<comment> \<open>new flat rows, in order, none below a name that every object inherits\<close>
  "reachable_rows S z rows \<longleftrightarrow> distinct rows \<and> 0 \<notin> set rows \<and> (\<forall>n \<in> set rows. child_list z n = []) \<and>
     in_order (row_parent S z rows) {} rows \<and>
     (\<forall>n \<in> set rows. row_parent S z rows n = None \<longrightarrow>
        attr z n (zs_idKey S) = attr z n (zs_pIdKey S) \<or> js_string (attr z n (zs_pIdKey S)) \<notin> set inherited)"

definition only_children :: "nid set \<Rightarrow> ztree \<Rightarrow> ztree \<Rightarrow> bool" where
  "only_children N z z' \<longleftrightarrow> zt_next z' = zt_next z \<and> zt_cache z' = zt_cache z \<and> zt_expandTrigger z' = zt_expandTrigger z \<and>
     zt_selected z' = zt_selected z \<and> zt_created z' = zt_created z \<and> zt_zId z' = zt_zId z \<and> zt_ver z' = zt_ver z \<and>
     zt_pending z' = zt_pending z \<and> zt_log z' = zt_log z \<and> (\<forall>n. n \<notin> N \<longrightarrow> zt_heap z' n = zt_heap z n) \<and>
     (\<forall>n. zn_attr (zt_heap z' n) = zn_attr (zt_heap z n))"

lemma only_children_add_child: "only_children N z y \<Longrightarrow> p \<in> N \<Longrightarrow> only_children N z (add_child p n y)"
  by (auto simp: only_children_def add_child_def set_children_def upd_node_def)

lemma child_list_add_child:
  "child_list (add_child p n z) m = (if m = p then child_list z p @ [n] else child_list z m)"
  by (simp add: add_child_def set_children_def upd_node_def child_list_def nodeChildren_def sub_nodes_def)

text \<open>The loop over the rows, from a state in which some rows already form a tree.\<close>

lemma place_rows:
  assumes "fold (place_row S m) rows (map rid (subs T), y) = (r, x)"
    and "only_children N z y" "set rows \<subseteq> N" "set (nids T) \<subseteq> insert 0 N" "0 \<notin> N"
    and "rid T = 0" "distinct (nids T)" "\<forall>t \<in> set (subs T). shape y t" "distinct rows" "set rows \<inter> set (nids T) = {}"
      "\<forall>n \<in> set rows. child_list y n = []"
    and par: "\<And>n. n \<in> set rows \<Longrightarrow> par n = (if attr z n (zs_idKey S) = attr z n (zs_pIdKey S) then None else m (js_string (attr z n (zs_pIdKey S))))"
      "\<And>n. n \<in> set rows \<Longrightarrow> par n = None \<Longrightarrow>
        attr z n (zs_idKey S) = attr z n (zs_pIdKey S) \<or> js_string (attr z n (zs_pIdKey S)) \<notin> set inherited"
    and "in_order par (set (nids T) - {0}) rows"
    and T': "T' = fold (\<lambda>n. graft (case par n of None \<Rightarrow> 0 | Some p \<Rightarrow> p) (-1) [Rose n []]) rows T"
  shows "r = map rid (subs T') \<and> only_children N z x \<and> rid T' = 0 \<and> (\<forall>t \<in> set (subs T'). shape x t) \<and> distinct (nids T') \<and>
    set (nids T') = set (nids T) \<union> set rows"
  using assms
proof (induction rows arbitrary: T y)
  case (Cons n rows)
  have attrs: "attr y k = attr z k" for k using Cons.prems(2) by (simp add: only_children_def attr_def fun_eq_iff)
  obtain ts where T: "T = Rose 0 ts" using Cons.prems(6) by (cases T) auto
  define p where "p = (case par n of None \<Rightarrow> 0 | Some p \<Rightarrow> p)"
  have p: "p \<in> set (nids T)" using Cons.prems(14) T by (auto simp: p_def split: option.splits)
  define U where "U = graft p (-1) [Rose n []] T"
  have nN: "n \<in> N" "n \<noteq> 0" "n \<notin> set (nids T)" using Cons.prems(3,5,10) by auto
  have U: "distinct (nids U)" "set (nids U) = insert n (set (nids T))" "rid U = 0"
    using graft_nids [OF Cons.prems(7) p, of "[Rose n []]" "-1"] nN(3) Cons.prems(6) by (auto simp: U_def)
  obtain w where w: "place_row S m n (map rid (subs T), y) = (map rid (subs U), w)" "only_children N z w"
    "\<forall>t \<in> set (subs U). shape w t" "\<forall>k \<in> set rows. child_list w k = []"
  proof (cases "par n")
    case None
    then have "place_row S m n (map rid (subs T), y) = (map rid ts @ [n], y)"
      using Cons.prems(12) [of n] Cons.prems(13) [of n] by (auto simp: place_row_def attrs T split: if_splits)
    moreover have "subs U = ts @ [Rose n []]" using None by (simp add: U_def p_def T insert_at_def)
    ultimately show ?thesis using that [of y] Cons.prems(2,8,11) by (simp add: T)
  next
    case (Some q)
    have q: "p = q" "q \<noteq> 0" "q \<in> N" "q \<noteq> n" using Some Cons.prems(4,14) nN by (auto simp: p_def)
    have "attr z n (zs_idKey S) \<noteq> attr z n (zs_pIdKey S) \<and> m (js_string (attr z n (zs_pIdKey S))) = Some q"
      using Cons.prems(12) [of n] Some by (simp split: if_splits)
    then have "place_row S m n (map rid (subs T), y) = (map rid ts, add_child q n y)"
      by (simp add: place_row_def attrs T Let_def)
    moreover have sU: "subs U = map (graft q (-1) [Rose n []]) ts" using q by (simp add: U_def T)
    moreover have "shape (add_child q n y) t" if t: "t \<in> set (subs U)" for t
    proof -
      obtain u where u: "u \<in> set ts" "t = graft q (-1) [Rose n []] u" using t by (auto simp: sU)
      have "distinct (nids u)" using Cons.prems(7) u(1) by (auto simp: T forest_nids_def distinct_concat_iff)
      then show ?thesis unfolding u(2)
        by (intro shape_graft [where z = y])
          (use Cons.prems(8,11) q u(1) nN in \<open>auto simp: T child_list_add_child insert_at_def\<close>)
    qed
    moreover have "\<forall>k \<in> set rows. child_list (add_child q n y) k = []"
      using Cons.prems(10,11) p q(1) by (auto simp: child_list_add_child)
    ultimately show ?thesis using that [of "add_child q n y"] only_children_add_child [OF Cons.prems(2) q(3)] by (simp add: T)
  qed
  have "r = map rid (subs T') \<and> only_children N z x \<and> rid T' = 0 \<and> (\<forall>t \<in> set (subs T'). shape x t) \<and> distinct (nids T') \<and>
      set (nids T') = set (nids U) \<union> set rows"
  proof (rule Cons.IH [of U w])
    show "fold (place_row S m) rows (map rid (subs U), w) = (r, x)" using Cons.prems(1) w(1) by simp
    show "in_order par (set (nids U) - {0}) rows"
    proof -
      have "set (nids U) - {0} = insert n (set (nids T) - {0})" using U(2) nN(2) by auto
      then show ?thesis using Cons.prems(14) by simp
    qed
    show "T' = fold (\<lambda>n. graft (case par n of None \<Rightarrow> 0 | Some p \<Rightarrow> p) (-1) [Rose n []]) rows U"
      using Cons.prems(15) by (simp add: U_def p_def)
  qed (use Cons.prems(3-5,9,10,12,13) U w nN in auto)
  then show ?case using U(2) by auto
qed simp

lemma transform_rows:
  assumes "zs_idKey S \<noteq> ''''" "reachable_rows S z rows" "transformTozTreeFormat S rows z = (r, x)"
    and T: "T = rows_tree (row_parent S z rows) rows"
  shows "r = map rid (subs T)" "only_children (set rows) z x" "\<forall>t \<in> set (subs T). shape x t" "distinct (forest_nids (subs T))"
    "set (forest_nids (subs T)) = set rows"
proof -
  have a: "distinct rows" "0 \<notin> set rows" "\<forall>n \<in> set rows. child_list z n = []" "in_order (row_parent S z rows) {} rows"
    and lost: "\<And>n. n \<in> set rows \<Longrightarrow> row_parent S z rows n = None \<Longrightarrow>
        attr z n (zs_idKey S) = attr z n (zs_pIdKey S) \<or> js_string (attr z n (zs_pIdKey S)) \<notin> set inherited"
    using assms(2) unfolding reachable_rows_def by blast+
  have s: "only_children (set rows) z z" by (simp add: only_children_def)
  have f: "fold (place_row S (rows_by_id S z rows)) rows (map rid (subs (Rose 0 [])), z) = (r, x)"
    using assms(1,3) by (simp add: transformTozTreeFormat_def)
  have all: "r = map rid (subs T) \<and> only_children (set rows) z x \<and> rid T = 0 \<and> (\<forall>t \<in> set (subs T). shape x t) \<and> distinct (nids T) \<and>
      set (nids T) = set (nids (Rose 0 [])) \<union> set rows"
  proof (rule place_rows [OF f s])
    show "row_parent S z rows n = (if attr z n (zs_idKey S) = attr z n (zs_pIdKey S) then None
        else rows_by_id S z rows (js_string (attr z n (zs_pIdKey S))))" for n by (rule row_parent_def)
    show "in_order (row_parent S z rows) (set (nids (Rose 0 [])) - {0}) rows" using a(4) by simp
    show "\<And>n. n \<in> set rows \<Longrightarrow> row_parent S z rows n = None \<Longrightarrow>
        attr z n (zs_idKey S) = attr z n (zs_pIdKey S) \<or> js_string (attr z n (zs_pIdKey S)) \<notin> set inherited" by (rule lost)
    show "T = fold (\<lambda>n. graft (case row_parent S z rows n of None \<Rightarrow> 0 | Some p \<Rightarrow> p) (- 1) [Rose n []]) rows (Rose 0 [])"
      using T by (simp add: rows_tree_def)
  qed (use a(1-3) in simp_all)
  note b = all [THEN conjunct2] note c = b [THEN conjunct2] note d = c [THEN conjunct2] note e = d [THEN conjunct2]
  have nT: "nids T = 0 # forest_nids (subs T)" using c [THEN conjunct1] by (cases T) simp
  show "r = map rid (subs T)" "only_children (set rows) z x" "\<forall>t \<in> set (subs T). shape x t"
    by (rule all [THEN conjunct1], rule b [THEN conjunct1], rule d [THEN conjunct1])
  have f: "distinct (0 # forest_nids (subs T))" by (rule e [THEN conjunct1, unfolded nT])
  have "set (0 # forest_nids (subs T)) = set (nids (Rose 0 [])) \<union> set rows" by (rule e [THEN conjunct2, unfolded nT])
  then have d: "insert 0 (set (forest_nids (subs T))) = insert 0 (set rows)" by simp
  show "distinct (forest_nids (subs T))" using f by simp
  have "0 \<notin> set (forest_nids (subs T))" "0 \<notin> set rows" using f a(2) by simp_all
  then show "set (forest_nids (subs T)) = set rows" using d by (metis insert_ident)
qed

lemma rows_tree_cong: "(\<And>n. n \<in> set rows \<Longrightarrow> par n = par' n) \<Longrightarrow> rows_tree par rows = rows_tree par' rows"
  unfolding rows_tree_def by (rule fold_cong) simp_all

section \<open>Rows of an answer\<close>

definition jfield :: "jnode \<Rightarrow> string \<Rightarrow> string option" where
  "jfield j k = map_of (j_attr j) k"

definition jparent :: "zsetting \<Rightarrow> jnode list \<Rightarrow> nat \<Rightarrow> nat option" where
  \<comment> \<open>the index of the row that the i-th row names as its parent\<close>
  "jparent S js i =
     (if jfield (js ! i) (zs_idKey S) = jfield (js ! i) (zs_pIdKey S) then None
      else find (\<lambda>j. js_string (jfield (js ! j) (zs_idKey S)) = js_string (jfield (js ! i) (zs_pIdKey S))) [0..<length js])"

definition ordered_rows :: "zsetting \<Rightarrow> jnode list \<Rightarrow> bool" where
  \<comment> \<open>flat rows with distinct ids, each after its parent; a parent that is no row is no inherited name\<close>
  "ordered_rows S js \<longleftrightarrow>
     list_all (\<lambda>j. j_children j = None) js \<and> distinct (map (\<lambda>j. js_string (jfield j (zs_idKey S))) js) \<and>
     list_all (\<lambda>i. case jparent S js i of
         Some j \<Rightarrow> j < i
       | None \<Rightarrow> jfield (js ! i) (zs_idKey S) = jfield (js ! i) (zs_pIdKey S) \<or>
           js_string (jfield (js ! i) (zs_pIdKey S)) \<notin> set inherited) [0..<length js]"

lemma rows_by_id_find:
  "distinct (map f ns) \<Longrightarrow> fold (\<lambda>n m. m(f n \<mapsto> n)) ns m key = (case find (\<lambda>n. f n = key) ns of None \<Rightarrow> m key | Some n \<Rightarrow> Some n)"
proof (induction ns arbitrary: m)
  case (Cons n ns)
  have "find (\<lambda>n. f n = key) ns = None" if "f n = key"
  proof -
    have "f n \<notin> f ` set ns" using Cons.prems by simp
    then have "f k \<noteq> f n" if "k \<in> set ns" for k using imageI [OF that, of f] by metis
    then show ?thesis using that by (simp add: find_None_iff)
  qed
  then show ?case using Cons by (auto split: option.split)
qed simp

lemma find_shift: "find P (map f xs) = map_option f (find (P \<circ> f) xs)"
  by (induction xs) auto

lemma in_order_upt:
  "(\<And>i j. i < n \<Longrightarrow> par (b + i) = Some j \<Longrightarrow> b \<le> j \<and> j < b + i) \<Longrightarrow> k \<le> n \<Longrightarrow> in_order par {b..<b + k} [b + k..<b + n]"
proof (induction "n - k" arbitrary: k)
  case (Suc d)
  then have k: "k < n" by simp
  have "in_order par {b..<b + Suc k} [b + Suc k..<b + n]" by (rule Suc.hyps(1)) (use Suc k in auto)
  moreover have "insert (b + k) {b..<b + k} = {b..<b + Suc k}" by auto
  ultimately show ?case using k Suc.prems(1) [OF k] by (auto simp: upt_conv_Cons split: option.split)
qed simp

lemma clone_rows:
  assumes "clone_nodes js z = (ns, y)" "list_all (\<lambda>j. j_children j = None) js"
  shows "ns = [zt_next z..<zt_next z + length js]" "\<And>n. n \<in> set ns \<Longrightarrow> child_list y n = []"
    "\<And>i. i < length js \<Longrightarrow> attr y (zt_next z + i) = jfield (js ! i)" "grows z y" "zt_next y = zt_next z + length js"
proof -
  obtain ts where ts: "grows z y" "map rid ts = ns" "\<forall>t \<in> set ts. shape y t" "forest_nids ts = [zt_next z..<zt_next y]"
    "map (view y) ts = map jview js" using clone_forest(2) [OF assms(1)] by blast
  show "grows z y" by (rule ts(1))
  have len: "length ts = length js" using ts(5) by (metis length_map)
  have leaf: "subs (ts ! i) = [] \<and> attr y (rid (ts ! i)) = jfield (js ! i)" if i: "i < length ts" for i
  proof -
    have "view y (ts ! i) = jview (js ! i)" using arg_cong [OF ts(5), of "\<lambda>xs. xs ! i"] i len by simp
    moreover obtain a p op ch where j: "js ! i = JNode a p op ch" by (cases "js ! i")
    moreover have "ch = None"
    proof -
      have "j_children (js ! i) = None" using assms(2) i len by (simp add: list_all_length)
      then show ?thesis using j by simp
    qed
    ultimately show ?thesis by (cases "ts ! i") (auto simp: jfield_def fun_eq_iff)
  qed
  have flat: "ts = map (\<lambda>n. Rose n []) ns"
  proof (rule nth_equalityI)
    show "length ts = length (map (\<lambda>n. Rose n []) ns)" using ts(2) by auto
    fix i assume i: "i < length ts"
    then have "map (\<lambda>n. Rose n []) ns ! i = Rose (rid (ts ! i)) []" using ts(2) by auto
    then show "ts ! i = map (\<lambda>n. Rose n []) ns ! i" using leaf [OF i] by (cases "ts ! i") simp
  qed
  have "forest_nids (map (\<lambda>n. Rose n []) ns) = ns" by (induction ns) simp_all
  then have ns: "ns = [zt_next z..<zt_next y]" using ts(4) flat by simp
  have "length ns = length js" using ts(2) len by auto
  moreover have "zt_next z \<le> zt_next y" using ts(1) by (simp add: grows_def)
  ultimately show n: "zt_next y = zt_next z + length js" using ns by simp
  show ns': "ns = [zt_next z..<zt_next z + length js]" using ns n by simp
  show "child_list y n = []" if "n \<in> set ns" for n
  proof -
    have "Rose n [] \<in> set ts" using that flat by simp
    then show ?thesis using ts(3) by fastforce
  qed
  show "attr y (zt_next z + i) = jfield (js ! i)" if "i < length js" for i
  proof -
    have "rid (ts ! i) = ns ! i" using that len ts(2) by auto
    then have "rid (ts ! i) = zt_next z + i" using that ns' by simp
    then show ?thesis using leaf [of i] that len by simp
  qed
qed

definition shifted_parent :: "zsetting \<Rightarrow> jnode list \<Rightarrow> nat \<Rightarrow> nid \<Rightarrow> nid option" where
  \<comment> \<open>the same for the object that holds the row, when the first row is object \<open>b\<close>\<close>
  "shifted_parent S js b n = map_option (\<lambda>j. b + j) (jparent S js (n - b))"

lemma clone_row_parent:
  assumes "clone_nodes js z = (ns, y)" "ordered_rows S js" "n \<in> set ns"
  shows "row_parent S y ns n = shifted_parent S js (zt_next z) n"
proof -
  define b where "b = zt_next z"
  have flat: "list_all (\<lambda>j. j_children j = None) js" and dist: "distinct (map (\<lambda>j. js_string (jfield j (zs_idKey S))) js)"
    using assms(2) by (simp_all add: ordered_rows_def)
  note cl = clone_rows [OF assms(1) flat, folded b_def]
  define f where "f = (\<lambda>n. js_string (attr y n (zs_idKey S)))"
  have ns: "ns = map (\<lambda>j. b + j) [0..<length js]" using cl(1) by (simp add: map_add_upt add.commute [of b])
  have f: "f (b + j) = js_string (jfield (js ! j) (zs_idKey S))" if "j < length js" for j using cl(3) [OF that] by (simp add: f_def)
  have "map f ns = map (\<lambda>j. js_string (jfield j (zs_idKey S))) js"
    by (rule nth_equalityI) (simp_all add: ns f)
  then have "distinct (map f ns)" using dist by simp
  then have id: "rows_by_id S y ns key = find (\<lambda>n. f n = key) ns" for key
    using rows_by_id_find [of f ns Map.empty key] by (simp add: rows_by_id_def f_def split: option.splits)
  have "b \<le> n" "n < b + length js" using assms(3) cl(1) by auto
  then obtain i where i: "n = b + i" "i < length js" by (metis le_iff_add nat_add_left_cancel_less)
  have "find (\<lambda>n. f n = key) ns = map_option (\<lambda>j. b + j) (find (\<lambda>j. js_string (jfield (js ! j) (zs_idKey S)) = key) [0..<length js])" for key
    unfolding ns find_shift by (rule arg_cong [where f = "map_option _"], rule find_cong) (simp_all add: f)
  then show ?thesis using cl(3) [OF i(2)] i(1) by (simp add: row_parent_def shifted_parent_def jparent_def id b_def [symmetric])
qed

lemma clone_reachable:
  assumes "clone_nodes js z = (ns, y)" "ordered_rows S js" "0 < zt_next z"
  shows "reachable_rows S y ns"
proof -
  define b where "b = zt_next z"
  have flat: "list_all (\<lambda>j. j_children j = None) js" using assms(2) by (simp add: ordered_rows_def)
  note cl = clone_rows [OF assms(1) flat, folded b_def]
  have rp: "row_parent S y ns (b + i) = map_option (\<lambda>j. b + j) (jparent S js i)" if "i < length js" for i
    using clone_row_parent [OF assms(1,2), of "b + i"] that cl(1) by (simp add: shifted_parent_def b_def)
  have ord: "case jparent S js i of Some j \<Rightarrow> j < i | None \<Rightarrow> jfield (js ! i) (zs_idKey S) = jfield (js ! i) (zs_pIdKey S) \<or>
      js_string (jfield (js ! i) (zs_pIdKey S)) \<notin> set inherited" if "i < length js" for i
    using assms(2) that by (simp add: ordered_rows_def list_all_iff)
  have "in_order (row_parent S y ns) {b..<b + 0} [b + 0..<b + length js]"
  proof (rule in_order_upt)
    show "b \<le> j \<and> j < b + i" if "i < length js" "row_parent S y ns (b + i) = Some j" for i j
      using ord [OF that(1)] that rp by auto
  qed simp
  then have "in_order (row_parent S y ns) {} ns" using cl(1) by simp
  moreover have "attr y n (zs_idKey S) = attr y n (zs_pIdKey S) \<or> js_string (attr y n (zs_pIdKey S)) \<notin> set inherited"
    if n: "n \<in> set ns" and no: "row_parent S y ns n = None" for n
  proof -
    obtain i where i: "n = b + i" "i < length js" using n cl(1) by (auto simp: nat_le_iff_add)
    then have "jparent S js i = None" using rp no by simp
    then show ?thesis using ord [OF i(2)] cl(3) [OF i(2)] i(1) by simp
  qed
  ultimately show ?thesis using cl(1,2) assms(3) by (auto simp: reachable_rows_def b_def)
qed

section \<open>The answer arrives\<close>

definition shift_tree :: "zsetting \<Rightarrow> jnode list \<Rightarrow> nat \<Rightarrow> rose" where
  \<comment> \<open>the tree of the rows, when the first row is object \<open>b\<close>\<close>
  "shift_tree S js b = rows_tree (shifted_parent S js b) [b..<b + length js]"

lemma only_children_tree_ok:
  assumes "only_children N z x" "tree_ok S z T" "set (nids T) \<inter> N = {}"
  shows "tree_ok S x T"
  by (rule frame_tree_ok [OF assms(2)]) (use assms(1,3) in \<open>auto simp: only_children_def\<close>)

lemma rows_graft:
  assumes ok: "tree_ok S z T" and cl: "clone_nodes js z = (ns, y)" and tr: "transformTozTreeFormat S ns y = (r, x)"
    and S: "zs_idKey S \<noteq> ''''" and ord: "ordered_rows S js" and G: "G = subs (shift_tree S js (zt_next z))"
  shows "r = map rid G" "fresh x T G" "tree_ok S y T" "tree_ok S x T" "\<And>i. i < length js \<Longrightarrow> attr x (zt_next z + i) = jfield (js ! i)"
    "busy_kept T z x" "js \<noteq> [] \<Longrightarrow> G \<noteq> []" "\<And>n. n \<in> set (nids T) \<Longrightarrow> isParent y n = isParent z n"
proof -
  have flat: "list_all (\<lambda>j. j_children j = None) js" using ord by (simp add: ordered_rows_def)
  note c = clone_rows [OF cl flat]
  have z0: "0 < zt_next z" using tree_okD(1,4) [OF ok] rid_nids [of T] by fastforce
  have ns: "set ns = {zt_next z..<zt_next z + length js}" using c(1) by simp
  have T: "shift_tree S js (zt_next z) = rows_tree (row_parent S y ns) ns"
    unfolding shift_tree_def c(1) [symmetric] by (rule rows_tree_cong) (rule clone_row_parent [OF cl ord, symmetric])
  note tf = transform_rows [OF S clone_reachable [OF cl ord z0] tr T, folded G]
  have below: "n < zt_next z" if "n \<in> set (nids T)" for n using tree_okD(4) [OF ok that] .
  have disj: "set (nids T) \<inter> set ns = {}" using below ns by fastforce
  show "r = map rid G" by (rule tf(1))
  show okY: "tree_ok S y T" by (rule grows_tree_ok [OF c(4) ok])
  show "tree_ok S x T" by (rule only_children_tree_ok [OF tf(2) okY disj])
  have x: "zt_next x = zt_next z + length js" using tf(2) c(5) by (simp add: only_children_def)
  show "fresh x T G" unfolding fresh_def using tf(3-5) disj ns x by auto
  show "attr x (zt_next z + i) = jfield (js ! i)" if "i < length js" for i
    using c(3) [OF that] tf(2) by (simp add: only_children_def attr_def fun_eq_iff)
  show "busy_kept T z x" using c(4) tf(2) below disj by (auto simp: busy_kept_def grows_def only_children_def disjoint_iff)
  show "G \<noteq> []" if "js \<noteq> []"
  proof
    assume "G = []"
    then have "set ns = {}" using tf(5) by simp
    then show False using ns that by simp
  qed
  show "isParent y n = isParent z n" if "n \<in> set (nids T)" for n
    using c(4) below [OF that] by (simp add: grows_def isParent_def)
qed

lemma async_fields_tree_ok:
  assumes "tree_ok S z T" "\<And>v. zn_children (f v) = zn_children v \<and> zn_tId (f v) = zn_tId v \<and> zn_parentTId (f v) = zn_parentTId v \<and>
     zn_level (f v) = zn_level v \<and> zn_first (f v) = zn_first v \<and> zn_last (f v) = zn_last v \<and> zn_attr (f v) = zn_attr v \<and> settled (f v) = settled v"
  shows "tree_ok S (upd_node n f z) T"
proof (rule near_tree_ok [OF _ assms(1)])
  show "near z (upd_node n f z)" using assms(2) by (simp add: near_def upd_node_def child_list_def nodeChildren_def)
qed

end
