(* ===== verification/ZTree_Select.thy ===== *)
theory ZTree_Select
  imports ZTree_Rows
begin

text \<open>
  Selecting nodes: the list of selected nodes after the loops of \<open>cancelPreSelectedNode\<close>; nothing but
  that list and the log changes. At the end a small tree, on which the properties are tried.
\<close>

section \<open>The list of selected nodes\<close>

definition reselected :: "ztree \<Rightarrow> nid list \<Rightarrow> ztree \<Rightarrow> bool" where
  \<comment> \<open>only the selection, now the given list, and the log differ\<close>
  "reselected z ns z' \<longleftrightarrow> (\<exists>l. z' = z\<lparr>zt_selected := ns, zt_log := l\<rparr>)"

lemma reselectedD: "reselected z ns z' \<Longrightarrow> zt_selected z' = ns" "reselected z ns z' \<Longrightarrow> zt_heap z' = zt_heap z"
  "reselected z ns z' \<Longrightarrow> zt_cache z' = zt_cache z"
  by (auto simp: reselected_def)

lemma reselected_trans: "reselected x ns y \<Longrightarrow> reselected y ms z \<Longrightarrow> reselected x ms z"
  by (auto simp: reselected_def)

lemma reselected_zemit: "reselected z ns y \<Longrightarrow> reselected z ns (zemit e y)"
  by (auto simp: reselected_def zemit_def)

lemma reselected_same: "reselected z (zt_selected z) z"
  by (simp add: reselected_def exI [of _ "zt_log z"])

lemma reselected_tree_ok:
  assumes "reselected z ns z'" "tree_ok S z T" "set ns \<subseteq> nodes_of T" "distinct ns"
  shows "tree_ok S z' T"
proof -
  obtain l where z': "z' = z\<lparr>zt_selected := ns, zt_log := l\<rparr>" using assms(1) by (auto simp: reselected_def)
  have f: "zt_next z' = zt_next z" "zt_heap z' = zt_heap z" "zt_cache z' = zt_cache z" "zt_zId z' = zt_zId z" "zt_selected z' = ns"
    by (simp_all add: z')
  have p: "placed z' n \<longleftrightarrow> placed z n" for n by (simp add: placed_def child_list_def nodeChildren_def f)
  have s: "shape z' T \<longleftrightarrow> shape z T" by (rule shape_child_list) (simp add: child_list_def nodeChildren_def f)
  show ?thesis using assms(2-4) unfolding tree_ok_def f p s by blast
qed

lemma filter_one: "distinct xs \<Longrightarrow> filter (\<lambda>m. m = n) xs = (if n \<in> set xs then [n] else [])"
  by (induction xs) (auto simp: filter_empty_conv)

lemma cancel_others:
  "i \<le> length (zt_selected z) \<Longrightarrow>
    reselected z (filter (\<lambda>m. m = n) (take i (zt_selected z)) @ drop i (zt_selected z)) (cancel_from S None (Some n) i z)"
proof (induction i arbitrary: z)
  case 0
  then show ?case using reselected_same by simp
next
  case (Suc i)
  define sel where "sel = zt_selected z"
  define m where "m = sel ! i"
  have t: "take (Suc i) sel = take i sel @ [m]" "drop i sel = m # drop (Suc i) sel"
    using Suc.prems by (simp_all add: sel_def m_def take_Suc_conv_app_nth Cons_nth_drop_Suc)
  show ?case
  proof (cases "m = n")
    case True
    then show ?thesis using Suc.IH [of z] Suc.prems t by (simp add: sel_def [symmetric] m_def [symmetric] Let_def)
  next
    case False
    define y where "y = zemit (Trigger ''ztree_unselected'' (Some m))
      ((zemit (Remove_Class (elem_id z m ''_a'') ''curSelectedNode'') z)\<lparr>zt_selected := take i sel @ drop (Suc i) sel\<rparr>)"
    have y: "reselected z (take i sel @ drop (Suc i) sel) y" by (auto simp: y_def reselected_def zemit_def)
    have "cancel_from S None (Some n) (Suc i) z = cancel_from S None (Some n) i y"
      using False by (simp add: sel_def [symmetric] m_def [symmetric] y_def Let_def zemit_def)
    moreover have "reselected y (filter (\<lambda>m. m = n) (take i sel) @ drop (Suc i) sel) (cancel_from S None (Some n) i y)"
      using Suc.IH [of y] Suc.prems reselectedD(1) [OF y] by (simp add: sel_def min_def)
    ultimately show ?thesis using reselected_trans [OF y] t False by (simp add: sel_def [symmetric])
  qed
qed

lemma removeSelectedNode_reselected:
  assumes "tree_ok S z T"
  shows "reselected z (filter (\<lambda>m. m \<noteq> n) (zt_selected z)) (removeSelectedNode (Some n) z)"
proof -
  have "(Some n \<noteq> Some m \<and> getNodeCache z (zn_tId (zt_heap z m)) \<noteq> None) = (m \<noteq> n)" if "m \<in> set (zt_selected z)" for m
    using tree_cached(1) [OF assms subsetD [OF tree_okD(10) [OF assms] that]] by auto
  then have "filter (\<lambda>m. Some n \<noteq> Some m \<and> getNodeCache z (zn_tId (zt_heap z m)) \<noteq> None) (zt_selected z) =
      filter (\<lambda>m. m \<noteq> n) (zt_selected z)" by (rule filter_cong [OF refl])
  then show ?thesis unfolding removeSelectedNode_def Let_def reselected_def by (intro exI) (simp only:)
qed

lemma cancel_one:
  assumes "tree_ok S z T" "i \<le> length (zt_selected z)"
  shows "reselected z (if n \<in> set (take i (zt_selected z)) then filter (\<lambda>m. m \<noteq> n) (zt_selected z) else zt_selected z)
    (cancel_from S (Some n) None i z)"
  using assms(2)
proof (induction i)
  case 0
  then show ?case using reselected_same by simp
next
  case (Suc i)
  show ?case
  proof (cases "zt_selected z ! i = n")
    case True
    define y where "y = zemit (Remove_Class (elem_id z n ''_a'') ''curSelectedNode'') z"
    have "reselected z (zt_selected z) y" unfolding y_def by (rule reselected_zemit [OF reselected_same])
    moreover have "reselected y (filter (\<lambda>m. m \<noteq> n) (zt_selected y)) (removeSelectedNode (Some n) y)"
      by (rule removeSelectedNode_reselected [where S = S and T = T]) (unfold y_def, rule same_tree_ok [OF same_zemit assms(1)])
    ultimately have "reselected z (filter (\<lambda>m. m \<noteq> n) (zt_selected z)) (removeSelectedNode (Some n) y)"
      using reselected_trans reselectedD(1) by metis
    then show ?thesis using True Suc.prems by (simp add: y_def Let_def take_Suc_conv_app_nth)
  next
    case False
    then show ?thesis using Suc by (auto simp: Let_def take_Suc_conv_app_nth)
  qed
qed

lemma selectNode_reselected:
  assumes "distinct (zt_selected z)"
  shows "reselected z (if addFlag then (if n \<in> set (zt_selected z) then zt_selected z else zt_selected z @ [n]) else [n]) (selectNode S n addFlag z)"
proof -
  define y where "y = (if addFlag then z else cancelPreSelectedNode S None (Some n) z)"
  define sel where "sel = (if addFlag then zt_selected z else filter (\<lambda>m. m = n) (zt_selected z))"
  have y: "reselected z sel y"
    using cancel_others [of "length (zt_selected z)" z n S] reselected_same by (simp add: y_def sel_def cancelPreSelectedNode_def)
  define w where "w = zemit (Add_Class (elem_id y n ''_a'') ''curSelectedNode'') y"
  have w: "reselected z sel w" unfolding w_def by (rule reselected_zemit [OF y])
  have "reselected w (if n \<in> set sel then sel else sel @ [n]) (addSelectedNode n w)"
    using reselectedD(1) [OF w] reselected_same [of w]
    by (auto simp: addSelectedNode_def isSelectedNode_def reselected_def exI [of _ "zt_log w"])
  then have "reselected z (if n \<in> set sel then sel else sel @ [n]) (selectNode S n addFlag z)"
    unfolding selectNode_def Let_def y_def [symmetric] w_def [symmetric] by (intro reselected_zemit reselected_trans [OF w])
  moreover have "filter (\<lambda>m. m = n) (zt_selected z) = (if n \<in> set (zt_selected z) then [n] else [])"
    using filter_one [OF assms] by simp
  ultimately show ?thesis by (auto simp: sel_def split: if_splits)
qed

section \<open>A small tree\<close>

definition sample_setting :: "bool \<Rightarrow> zsetting" where
  \<comment> \<open>the defaults of the code; with rows and requests, as the organisation pages set it, or without\<close>
  "sample_setting simple =
     \<lparr>zs_treeId = ''orgsTree'', zs_addDiyDom = False, zs_autoCancelSelected = True, zs_dblClickExpand = (\<lambda>z n. True),
      zs_expandSpeed = ''fast'', zs_fontCss = (\<lambda>z n. []), zs_nameIsHTML = False, zs_selectedMulti = True,
      zs_showIcon = (\<lambda>z n. True), zs_showLine = True, zs_showTitle = (\<lambda>z n. True), zs_txtSelectedEnable = False,
      zs_nameKey = ''name'', zs_titleKey = '''', zs_urlKey = ''url'', zs_iconKey = ''icon'', zs_simple = simple,
      zs_idKey = ''id'', zs_pIdKey = ''pId'', zs_rootPId = None, zs_keepParent = False, zs_keepLeaf = False,
      zs_async = simple, zs_asyncUrl = ''tree'', zs_autoParam = [''id'', ''name=n'', ''level=lv''], zs_otherParam = [],
      zs_dataFilter = (\<lambda>js. js), zs_before = (\<lambda>_. None), zs_on = (\<lambda>_. False), br_has = (\<lambda>_ _. True),
      br_class = (\<lambda>_ _. None), br_count = (\<lambda>_ _. 0)\<rparr>"

definition sample_node :: "zsetting \<Rightarrow> znode" where
  "sample_node S = blank_node\<lparr>zn_attr := [''id'' \<mapsto> ''7'', ''name'' \<mapsto> ''Sales''], zn_isParent := FBool True, zn_open := FBool False,
     zn_tId := Some (make_tId S 1), zn_first := True, zn_last := True, zn_isAjaxing := True\<rparr>"

definition sample_tree :: "zsetting \<Rightarrow> ztree" where
  \<comment> \<open>one node, a closed parent without children that is loading\<close>
  "sample_tree S = new_ztree\<lparr>zt_heap := (\<lambda>_. blank_node)(0 := blank_node\<lparr>zn_children := Some [1]\<rparr>, 1 := sample_node S), zt_next := 2,
     zt_cache := [decimal 1 \<mapsto> 1], zt_zId := 1, zt_selected := [1]\<rparr>"

lemma sample_ok: "tree_ok S (sample_tree S) (Rose 0 [Rose 1 []])"
  by (auto simp: tree_ok_def sample_tree_def sample_node_def new_ztree_def blank_node_def child_list_def nodeChildren_def placed_def
      settled_def getNodeCacheId_make inj_on_def Let_def)

end
