(* ===== verification/ZTree_Props.thy ===== *)
theory ZTree_Props
  imports ZTree_Select
begin

text \<open>
  The properties of the tree widget (jquery.ztree.core.js): what a page sees after creating the
  widget, adding, removing, loading, opening, searching and selecting nodes.
\<close>

section \<open>Creating and adding\<close>

lemma attrs_view:
  assumes "attrs_kept S z z'" "\<not> zs_simple S"
  shows "view z' t = view z t"
  by (rule view_frame) (use assms in \<open>auto simp: attrs_kept_def fun_eq_iff\<close>)

lemma clone_fresh:
  assumes "clone_nodes js z = (ns, y)" "\<forall>n \<in> set (nids T). n < zt_next z"
  obtains G where "ns = map rid G" "fresh y T G" "map (view y) G = map jview js" "grows z y"
proof -
  obtain G where G: "grows z y" "map rid G = ns" "\<forall>t \<in> set G. shape y t" "forest_nids G = [zt_next z..<zt_next y]"
    "map (view y) G = map jview js" using clone_forest(2) [OF assms(1)] by blast
  have "fresh y T G" using G(3,4) assms(2) by (auto simp: fresh_def)
  then show ?thesis using that G by blast
qed

text \<open>C15: Creating the widget with nested data returns, and the widget then shows these data: the nodes under
  the root are a tree in which every node has its own number, level, parent and first and last flags, the cache
  holds exactly the nodes, and the user's fields in order are those of the data.\<close>

theorem zTree_init_shows:
  assumes "0 < zt_next z" "\<not> zs_simple S" "js \<noteq> []"
  shows "\<exists>z' G. zTree_init S js now z = Some z' \<and> tree_ok S z' (Rose 0 G) \<and> map (view z') G = map jview js"
proof -
  define z1 where "z1 = initRoot now (zemit (Empty_Elem (zs_treeId S)) z)"
  obtain ns y where y: "clone_nodes js z1 = (ns, y)" by fastforce
  have z1: "0 < zt_next z1" "nodeChildren z1 0 = Some []" "zt_selected z1 = []"
    using assms(1) by (simp_all add: z1_def initRoot_def set_children_def upd_node_def zemit_def nodeChildren_def)
  obtain G where G: "ns = map rid G" "fresh y (Rose 0 []) G" "map (view y) G = map jview js" "grows z1 y"
    using clone_fresh [OF y, of "Rose 0 []"] z1(1) by auto
  define x where "x = initCache y"
  have x: "zt_heap x = zt_heap y" "zt_next x = zt_next y" by (simp_all add: x_def initCache_def)
  have c: "child_list x n = child_list y n" for n by (simp add: child_list_def nodeChildren_def x)
  have "shape x t \<longleftrightarrow> shape y t" for t by (rule shape_child_list) (rule c)
  then have f: "fresh x (Rose 0 []) G" using G(2) x(2) by (simp add: fresh_def)
  have r: "0 < zt_next x" "nodeChildren x 0 = Some []" "zt_cache x = Map.empty" "zt_selected x = []"
    using z1 G(4) by (simp_all add: x_def initCache_def grows_def nodeChildren_def)
  have ne: "G \<noteq> []" using G(3) assms(3) by auto
  define w where "w = bindEvent (unbindEvent (bindTree S (unbindTree (initCache (set_children 0 (Some ns) y)))))"
  have "same (set_children 0 (Some ns) x) w"
  proof -
    have "initCache (set_children 0 (Some ns) y) = set_children 0 (Some ns) x"
      by (simp add: x_def initCache_def set_children_def upd_node_def)
    then show ?thesis using same_bindings by (simp add: w_def)
  qed
  then obtain z' where z': "createNodes S 0 ns None (-1) w = Some z'" "tree_ok S z' (Rose 0 G)" "attrs_kept S x z'"
    using init_creates [OF r ne f] G(1) by blast
  have "zTree_init S js now z = Some z'"
    using y z'(1) assms(2) ne G(1) by (simp add: zTree_init_def z1_def [symmetric] w_def)
  moreover have "map (view z') G = map jview js"
  proof -
    have "view z' t = view y t" for t
      using attrs_view [OF z'(3) assms(2)] view_frame [of t x y] x(1) by (simp add: attr_def fun_eq_iff)
    then have "view z' = view y" by (rule ext)
    then show ?thesis using G(3) by simp
  qed
  ultimately show ?thesis using z'(2) by blast
qed

theorem zTree_init_shows_witness:
  "\<exists>z' G. zTree_init (sample_setting False) [JNode [(''name'', ''Sales'')] FUndef (FBool True)
      (Some [JNode [(''name'', ''East'')] FUndef FUndef None]), JNode [(''name'', ''IT'')] FUndef FUndef None] 5 new_ztree = Some z' \<and>
    tree_ok (sample_setting False) z' (Rose 0 G) \<and>
    map (view z') G = [Item [''name'' \<mapsto> ''Sales''] [Item [''name'' \<mapsto> ''East''] []], Item [''name'' \<mapsto> ''IT''] []]"
proof -
  have e: "0 < zt_next new_ztree" "\<not> zs_simple (sample_setting False)" by (simp_all add: new_ztree_def sample_setting_def)
  show ?thesis
    using zTree_init_shows [OF e, of "[JNode [(''name'', ''Sales'')] FUndef (FBool True)
      (Some [JNode [(''name'', ''East'')] FUndef FUndef None]), JNode [(''name'', ''IT'')] FUndef FUndef None]" 5] by simp
qed

lemma grows_canAsync: "grows z y \<Longrightarrow> (\<And>q. p = Some q \<Longrightarrow> q < zt_next z) \<Longrightarrow> canAsync S p y = canAsync S p z"
  by (auto simp: canAsync_def grows_def isParent_def child_list_def nodeChildren_def split: option.split)

text \<open>C6: Adding nested data to a tree refines the grafting of trees: \<open>addNodes\<close> returns the new objects, the
  new nodes show the data and stand at the given index among the children of the parent, or at the end, and the
  rest of the tree is as before.\<close>

theorem tool_addNodes_grafts:
  assumes "tree_ok S z T" "\<not> zs_simple S" "js \<noteq> []" "\<not> canAsync S p z"
    "\<And>q. p = Some q \<Longrightarrow> q \<in> nodes_of T \<and> (isParent z q \<or> \<not> zs_keepLeaf S)"
  shows "\<exists>z' G. tool_addNodes S p i js silent z = Some (Some (map rid G), z') \<and>
    tree_ok S z' (graft (case p of None \<Rightarrow> 0 | Some q \<Rightarrow> q) (case i of None \<Rightarrow> -1 | Some i \<Rightarrow> i) G T) \<and>
    map (view z') G = map jview js \<and> view z' T = view z T"
proof -
  define j where "j = (case i of None \<Rightarrow> -1 | Some i \<Rightarrow> i)"
  obtain ns y where y: "clone_nodes js z = (ns, y)" by fastforce
  have below: "\<forall>n \<in> set (nids T). n < zt_next z" using tree_okD(4) [OF assms(1)] by blast
  obtain G where G: "ns = map rid G" "fresh y T G" "map (view y) G = map jview js" "grows z y" by (rule clone_fresh [OF y below])
  have ok: "tree_ok S y T" by (rule grows_tree_ok [OF G(4) assms(1)])
  have ne: "G \<noteq> []" using G(3) assms(3) by auto
  have q: "q \<in> nodes_of T \<and> (isParent y q \<or> \<not> zs_keepLeaf S)" if "p = Some q" for q
  proof -
    have "q < zt_next z" using assms(5) [OF that] below by auto
    then show ?thesis using assms(5) [OF that] G(4) by (simp add: isParent_def grows_def)
  qed
  obtain z' where z': "addNodes S p j ns silent y = Some z'" "tree_ok S z' (graft (case p of None \<Rightarrow> 0 | Some q \<Rightarrow> q) j G T)" "attrs_kept S y z'"
    using addNodes_grafts [where p = p and ns = ns and i = j and silent = silent, OF ok ok _ ne G(2) q] assms(2) G(1) by auto
  have par: "(case p of None \<Rightarrow> z | Some p \<Rightarrow> snd (nodeIsParent p z)) = z"
    using nodeIsParent_settled tree_okD(6) [OF assms(1)] assms(5) by (auto split: option.split)
  have leaf: "\<not> (case p of None \<Rightarrow> False | Some p \<Rightarrow> \<not> isParent z p \<and> zs_keepLeaf S)" using assms(5) by (auto split: option.split)
  have "\<not> canAsync S p y" using grows_canAsync [OF G(4), of p S] assms(4,5) below by auto
  then have "tool_addNodes S p i js silent z = Some (Some ns, z')"
    using leaf y z'(1) by (simp add: tool_addNodes_def par j_def)
  moreover have "map (view z') G = map jview js" using ext [of "view z'" "view y", OF attrs_view [OF z'(3) assms(2)]] G(3) by simp
  moreover have "view z' T = view z T" using attrs_view [OF z'(3) assms(2)] grows_view [OF G(4) below] by simp
  ultimately show ?thesis using z'(2) G(1) unfolding j_def by blast
qed

theorem tool_addNodes_grafts_witness:
  "\<exists>z' G. tool_addNodes (sample_setting False) (Some 1) None [JNode [(''name'', ''East'')] FUndef FUndef None] True
      (sample_tree (sample_setting False)) = Some (Some (map rid G), z') \<and>
    tree_ok (sample_setting False) z' (Rose 0 [Rose 1 G]) \<and> map (view z') G = [Item [''name'' \<mapsto> ''East''] []]"
proof -
  have e: "\<not> zs_simple (sample_setting False)" "\<not> canAsync (sample_setting False) (Some 1) (sample_tree (sample_setting False))"
    "isParent (sample_tree (sample_setting False)) 1"
    by (simp_all add: sample_setting_def canAsync_def isParent_def sample_tree_def sample_node_def flag_bool_def)
  have "\<exists>z' G. tool_addNodes (sample_setting False) (Some 1) None [JNode [(''name'', ''East'')] FUndef FUndef None] True
      (sample_tree (sample_setting False)) = Some (Some (map rid G), z') \<and>
    tree_ok (sample_setting False) z' (graft 1 (-1) G (Rose 0 [Rose 1 []])) \<and>
    map (view z') G = map jview [JNode [(''name'', ''East'')] FUndef FUndef None] \<and>
    view z' (Rose 0 [Rose 1 []]) = view (sample_tree (sample_setting False)) (Rose 0 [Rose 1 []])"
    by (rule tool_addNodes_grafts [where p = "Some 1" and i = None, unfolded option.case]) (use sample_ok e in auto)
  then obtain z' G where g: "tool_addNodes (sample_setting False) (Some 1) None [JNode [(''name'', ''East'')] FUndef FUndef None] True
      (sample_tree (sample_setting False)) = Some (Some (map rid G), z')"
    "tree_ok (sample_setting False) z' (graft 1 (-1) G (Rose 0 [Rose 1 []]))"
    "map (view z') G = map jview [JNode [(''name'', ''East'')] FUndef FUndef None]" by blast
  have "graft 1 (-1) G (Rose 0 [Rose 1 []]) = Rose 0 [Rose 1 G]" by (simp add: insert_at_def)
  then have t: "tree_ok (sample_setting False) z' (Rose 0 [Rose 1 G])" using g(2) by simp
  have v: "map (view z') G = [Item [''name'' \<mapsto> ''East''] []]" using g(3) by simp
  show ?thesis by (intro exI [of _ z'] exI [of _ G] conjI g(1) t v)
qed

section \<open>Removing\<close>

text \<open>C7: Removing a node refines pruning: \<open>removeNode\<close> returns, the node and what is below it are gone from the
  tree, from the cache and from the selection, the flags of its siblings are those of the pruned tree, and the
  other nodes show what they did. When \<open>beforeRemove\<close> refuses, nothing changes.\<close>

theorem tool_removeNode_prunes:
  assumes "tree_ok S z T" "n \<in> nodes_of T"
  shows "\<exists>z'. tool_removeNode S n callbackFlag z = Some z' \<and>
    (if callbackFlag \<and> \<not> may S ''beforeRemove'' (Some n) z then z' = z
     else tree_ok S z' (prune n T) \<and> view z' (prune n T) = view z (prune n T))"
proof -
  obtain w where w: "removeNode S n z = Some w" "tree_ok S w (prune n T)" "\<forall>m. attr w m = attr z m"
    using removeNode_prunes [OF assms] by blast
  define z' where "z' = (if callbackFlag then zemit (Trigger ''ztree_remove'' (Some n)) w else w)"
  have s: "same w z'" unfolding z'_def by (rule same_if) (rule same_zemit same_refl)+
  have "view z' t = view z t" for t by (rule view_frame) (use w(3) s in \<open>simp add: sameD(7) fun_eq_iff\<close>)
  then show ?thesis using w(1) same_tree_ok [OF s w(2)] by (auto simp: tool_removeNode_def z'_def)
qed

theorem tool_removeNode_prunes_witness:
  "\<exists>z'. tool_removeNode (sample_setting False) 1 True (sample_tree (sample_setting False)) = Some z' \<and>
    tree_ok (sample_setting False) z' (Rose 0 [])"
proof -
  have "may (sample_setting False) ''beforeRemove'' (Some 1) (sample_tree (sample_setting False))"
    by (simp add: may_def sample_setting_def)
  then show ?thesis using tool_removeNode_prunes [OF sample_ok, of 1 "sample_setting False" True] by auto
qed

section \<open>Loading\<close>

definition request_ended :: "zsetting \<Rightarrow> zrequest \<Rightarrow> (znode \<Rightarrow> znode) \<Rightarrow> ztree \<Rightarrow> ztree" where
  \<comment> \<open>what both answers do first to the node they were requested for\<close>
  "request_ended S r f z = (case zr_node r of None \<Rightarrow> z | Some n \<Rightarrow> setNodeLineIcos S n (upd_node n f z))"

lemma request_ended_keeps:
  assumes "tree_ok S z T" "\<And>v. zn_children (f v) = zn_children v \<and> zn_tId (f v) = zn_tId v \<and> zn_parentTId (f v) = zn_parentTId v \<and>
      zn_level (f v) = zn_level v \<and> zn_first (f v) = zn_first v \<and> zn_last (f v) = zn_last v \<and> zn_attr (f v) = zn_attr v \<and>
      settled (f v) = settled v" "\<And>v. zn_isParent (f v) = zn_isParent v"
  shows "tree_ok S (request_ended S r f z) T"
    "zr_node r = Some n \<Longrightarrow> zn_isAjaxing (zt_heap (request_ended S r f z) n) = zn_isAjaxing (f (zt_heap z n))"
    "zt_next (request_ended S r f z) = zt_next z" "isParent (request_ended S r f z) m = isParent z m"
proof -
  have s: "same (upd_node n f z) (setNodeLineIcos S n (upd_node n f z))" for n by (rule same_setNodeLineIcos)
  have u: "zt_next (upd_node n f z) = zt_next z" "isParent (upd_node n f z) m = isParent z m" for n m
    using assms(3) by (simp_all add: upd_node_def isParent_def)
  show "tree_ok S (request_ended S r f z) T"
    using assms(1) same_tree_ok [OF s async_fields_tree_ok [OF assms(1,2)]] by (simp add: request_ended_def split: option.split)
  show "zn_isAjaxing (zt_heap (request_ended S r f z) n) = zn_isAjaxing (f (zt_heap z n))" if "zr_node r = Some n"
    using s [of n] that by (simp add: request_ended_def same_def node_same_def upd_node_def)
  show "zt_next (request_ended S r f z) = zt_next z" "isParent (request_ended S r f z) m = isParent z m"
    using sameD(10) [OF s] sameD(4) [OF s] u by (simp_all add: request_ended_def split: option.split)
qed

lemma error_ends_loading:
  assumes "tree_ok S z T" "zr_ver r = zt_ver z"
  shows "tree_ok S (async_error S r z) T" "zr_node r = Some n \<Longrightarrow> \<not> zn_isAjaxing (zt_heap (async_error S r z) n)"
proof -
  have e: "async_error S r z = zemit (Trigger ''ztree_async_error'' (zr_node r)) (request_ended S r (zn_isAjaxing_update (\<lambda>_. False)) z)"
    using assms(2) by (simp add: async_error_def request_ended_def)
  show "tree_ok S (async_error S r z) T"
    unfolding e by (rule same_tree_ok [OF same_zemit request_ended_keeps(1) [OF assms(1)]]) (simp_all add: settled_def)
  show "zr_node r = Some n \<Longrightarrow> \<not> zn_isAjaxing (zt_heap (async_error S r z) n)"
    unfolding e by (simp add: request_ended_keeps(2) [OF assms(1)] settled_def)
qed

lemma success_grafts_rows:
  assumes "tree_ok S z T" "zr_ver r = zt_ver z" "zr_callback r = No_Async_Cb" "zs_simple S" "zs_idKey S \<noteq> ''''"
    "ordered_rows S js" "js \<noteq> []" "js = zs_dataFilter S answer"
    "\<And>n. zr_node r = Some n \<Longrightarrow> n \<in> nodes_of T \<and> (isParent z n \<or> \<not> zs_keepLeaf S)"
  shows "\<exists>z'. async_success S r answer z = Some z' \<and>
      tree_ok S z' (graft (case zr_node r of None \<Rightarrow> 0 | Some n \<Rightarrow> n) (-1) (subs (shift_tree S js (zt_next z))) T) \<and>
      (\<forall>i < length js. \<forall>k. k \<noteq> zs_pIdKey S \<longrightarrow> attr z' (zt_next z + i) k = jfield (js ! i) k) \<and>
      (\<forall>n. zr_node r = Some n \<longrightarrow> \<not> zn_isAjaxing (zt_heap z' n))"
proof -
  define x where "x = request_ended S r (\<lambda>v. v\<lparr>zn_isAjaxing := False, zn_zAsync := True\<rparr>) z"
  have x: "tree_ok S x T" "zt_next x = zt_next z" "isParent x m = isParent z m" for m
    unfolding x_def by (rule request_ended_keeps [OF assms(1)]; simp add: settled_def)+
  have idle: "zr_node r = Some n \<Longrightarrow> \<not> zn_isAjaxing (zt_heap x n)" for n
    unfolding x_def by (subst request_ended_keeps(2) [OF assms(1)]) (simp_all add: settled_def)
  obtain ns y where y: "clone_nodes js x = (ns, y)" by fastforce
  obtain rs w where w: "transformTozTreeFormat S ns y = (rs, w)" by fastforce
  note g = rows_graft [OF x(1) y w assms(5,6) refl, unfolded x(2)]
  define G where "G = subs (shift_tree S js (zt_next z))"
  define p where "p = (case zr_node r of None \<Rightarrow> 0 | Some n \<Rightarrow> n)"
  have n: "n \<in> nodes_of T \<and> (isParent y n \<or> \<not> zs_keepLeaf S)" if "zr_node r = Some n" for n
    using assms(9) [OF that] g(8) x(3) by auto
  have "\<exists>v. addNodes S (zr_node r) (-1) ns (zr_silent r) y = Some v \<and> tree_ok S v (graft p (-1) G T) \<and> attrs_kept S w v \<and> busy_kept T w v"
    unfolding p_def by (rule addNodes_grafts [OF g(3,4)]) (use assms(4,7) w g(1,2,7) n in \<open>simp_all add: G_def\<close>)
  then obtain v where v: "addNodes S (zr_node r) (-1) ns (zr_silent r) y = Some v" "tree_ok S v (graft p (-1) G T)" "attrs_kept S w v"
    "busy_kept T w v" by blast
  define z' where "z' = zemit (Trigger ''ztree_async_success'' (zr_node r)) v"
  have "async_success S r answer z = Some z'"
    using assms(2,3,8) y v(1) by (simp add: async_success_def x_def request_ended_def z'_def run_async_callback_def Let_def)
  moreover have "tree_ok S z' (graft p (-1) G T)" unfolding z'_def by (rule same_tree_ok [OF same_zemit v(2)])
  moreover have "attr z' (zt_next z + i) k = jfield (js ! i) k" if "i < length js" "k \<noteq> zs_pIdKey S" for i k
    using fun_cong [OF g(5) [OF that(1)], of k] v(3) that(2) by (simp add: z'_def attrs_kept_def attr_def)
  moreover have "\<not> zn_isAjaxing (zt_heap z' n)" if "zr_node r = Some n" for n
  proof -
    have "n \<in> set (nids T)" using assms(9) [OF that] by simp
    then show ?thesis using idle [OF that] g(6) v(4) by (simp add: z'_def busy_kept_def)
  qed
  ultimately show ?thesis unfolding p_def G_def by blast
qed

text \<open>C10: When the answer to a request arrives, the node it was sent for stops loading. An answer of flat rows,
  each after the row it names as its parent, becomes the forest that the parent ids describe, grafted below the
  node; the row at place i of the answer is the i-th new object. An error leaves the tree as it is.\<close>

theorem answer_ends_loading:
  assumes "tree_ok S z T" "zr_ver r = zt_ver z" "zr_callback r = No_Async_Cb" "zs_simple S" "zs_idKey S \<noteq> ''''"
    "ordered_rows S js" "js \<noteq> []" "js = zs_dataFilter S answer"
    "\<And>n. zr_node r = Some n \<Longrightarrow> n \<in> nodes_of T \<and> (isParent z n \<or> \<not> zs_keepLeaf S)"
  shows "(\<exists>z'. async_success S r answer z = Some z' \<and>
      tree_ok S z' (graft (case zr_node r of None \<Rightarrow> 0 | Some n \<Rightarrow> n) (-1) (subs (shift_tree S js (zt_next z))) T) \<and>
      (\<forall>i < length js. \<forall>k. k \<noteq> zs_pIdKey S \<longrightarrow> attr z' (zt_next z + i) k = jfield (js ! i) k) \<and>
      (\<forall>n. zr_node r = Some n \<longrightarrow> \<not> zn_isAjaxing (zt_heap z' n))) \<and>
    tree_ok S (async_error S r z) T \<and> (\<forall>n. zr_node r = Some n \<longrightarrow> \<not> zn_isAjaxing (zt_heap (async_error S r z) n))"
  using success_grafts_rows [OF assms] error_ends_loading [OF assms(1,2)] by blast

definition sample_answer :: "jnode list" where
  "sample_answer = [JNode [(''id'', ''8''), (''pId'', ''7''), (''name'', ''East'')] FUndef FUndef None,
     JNode [(''id'', ''9''), (''pId'', ''8''), (''name'', ''Lyon'')] FUndef FUndef None]"

definition sample_request :: zrequest where
  "sample_request = \<lparr>zr_node = Some 1, zr_silent = True, zr_callback = No_Async_Cb, zr_ver = 0\<rparr>"

lemma sample_answer_ordered: "ordered_rows (sample_setting True) sample_answer"
  by code_simp

lemma sample_answer_tree: "shift_tree (sample_setting True) sample_answer 2 = Rose 0 [Rose 2 [Rose 3 []]]"
  by code_simp

lemma sample_request_simps:
  "zr_ver sample_request = zt_ver (sample_tree S)" "zr_callback sample_request = No_Async_Cb" "zr_node sample_request = Some 1"
  "zt_next (sample_tree S) = 2" "zs_simple (sample_setting b) = b" "zs_idKey (sample_setting b) \<noteq> ''''"
  "sample_answer \<noteq> []" "sample_answer = zs_dataFilter (sample_setting b) sample_answer" "\<not> zs_keepLeaf (sample_setting b)"
  by (simp_all add: sample_request_def sample_tree_def new_ztree_def sample_setting_def sample_answer_def)

theorem answer_ends_loading_witness:
  "zn_isAjaxing (zt_heap (sample_tree (sample_setting True)) 1) \<and>
   (\<exists>z'. async_success (sample_setting True) sample_request sample_answer (sample_tree (sample_setting True)) = Some z' \<and>
      tree_ok (sample_setting True) z' (Rose 0 [Rose 1 [Rose 2 [Rose 3 []]]]) \<and> \<not> zn_isAjaxing (zt_heap z' 1))"
proof -
  define S z where "S = sample_setting True" and "z = sample_tree S"
  note f = sample_request_simps(5,6,8,9) [of True, folded S_def] sample_request_simps(1,4) [of S, folded z_def]
    sample_request_simps(2,3,7)
  have ok: "tree_ok S z (Rose 0 [Rose 1 []])" unfolding z_def by (rule sample_ok)
  have "(\<exists>z'. async_success S sample_request sample_answer z = Some z' \<and>
      tree_ok S z' (graft (case zr_node sample_request of None \<Rightarrow> 0 | Some n \<Rightarrow> n) (-1) (subs (shift_tree S sample_answer (zt_next z))) (Rose 0 [Rose 1 []])) \<and>
      (\<forall>i < length sample_answer. \<forall>k. k \<noteq> zs_pIdKey S \<longrightarrow> attr z' (zt_next z + i) k = jfield (sample_answer ! i) k) \<and>
      (\<forall>n. zr_node sample_request = Some n \<longrightarrow> \<not> zn_isAjaxing (zt_heap z' n))) \<and>
    tree_ok S (async_error S sample_request z) (Rose 0 [Rose 1 []]) \<and>
    (\<forall>n. zr_node sample_request = Some n \<longrightarrow> \<not> zn_isAjaxing (zt_heap (async_error S sample_request z) n))"
    by (rule answer_ends_loading [OF ok])
      (use f sample_answer_ordered [folded S_def] in \<open>simp_all add: sample_request_simps(3)\<close>)
  then obtain z' where z': "async_success S sample_request sample_answer z = Some z'"
    "tree_ok S z' (graft 1 (-1) (subs (shift_tree S sample_answer 2)) (Rose 0 [Rose 1 []]))" "\<not> zn_isAjaxing (zt_heap z' 1)"
    by (simp only: sample_request_simps(3) option.case sample_request_simps(4) [of S, folded z_def]) blast
  have "graft 1 (-1) (subs (shift_tree S sample_answer 2)) (Rose 0 [Rose 1 []]) = Rose 0 [Rose 1 [Rose 2 [Rose 3 []]]]"
    unfolding sample_answer_tree [folded S_def] by code_simp
  moreover have "zn_isAjaxing (zt_heap z 1)" by (simp add: z_def sample_tree_def sample_node_def)
  ultimately show ?thesis using z' unfolding S_def [symmetric] z_def [symmetric] by auto
qed

section \<open>Searching\<close>

lemma tree_start:
  assumes "tree_ok S z T"
  shows "start_nodes z None = map rid (subs T)" "child_list z 0 = map rid (subs T)" "fits (zt_next z + 1) z (subs T)"
proof -
  obtain ts where T: "T = Rose 0 ts" using tree_okD(1) [OF assms] by (cases T) simp
  show "child_list z 0 = map rid (subs T)" using tree_okD(2) [OF assms] by (simp add: T)
  then show "start_nodes z None = map rid (subs T)" by (simp add: start_nodes_def)
  have "height t < zt_next z + 1" if "t \<in> set ts" for t
    using height_sub [OF that, of 0] height_next [OF assms] by (simp add: T)
  then show "fits (zt_next z + 1) z (subs T)" using tree_okD(2) [OF assms] by (simp add: T fits_def)
qed

text \<open>C16: The searches of the tree object return, and each is a filter of the nodes in the order of the page,
  parents before children: all matches, the first match, the matches ignoring case, the nodes that a function
  accepts, and the flattening of the tree; the cache finds every node by its id.\<close>

theorem searches_preorder:
  assumes "tree_ok S z T" "key \<noteq> ''''"
  shows "tool_getNodesByParam z key v None = Some (Some (filter (\<lambda>n. attr z n key = v) (forest_nids (subs T)))) \<and>
    tool_getNodeByParam z key v None = Some (find (\<lambda>n. attr z n key = v) (forest_nids (subs T))) \<and>
    tool_getNodesByParamFuzzy z key w None = Some (Some (filter (fuzzy_match z key (toLowerCase w)) (forest_nids (subs T)))) \<and>
    tool_getNodesByFilter z f False None = Some (filter f (forest_nids (subs T))) \<and>
    tool_getNodesByFilter z f True None = Some (take 1 (filter f (forest_nids (subs T)))) \<and>
    tool_transformToArray z (child_list z 0) = Some (forest_nids (subs T)) \<and>
    (\<forall>n \<in> set (forest_nids (subs T)). tool_getNodeByTId z (zn_tId (zt_heap z n)) = Some n)"
  using by_param.preorder [OF tree_start(3) [OF assms(1)]] first_by_param.preorder [OF tree_start(3) [OF assms(1)]]
    fuzzy.preorder [OF tree_start(3) [OF assms(1)]] by_filter.preorder [OF tree_start(3) [OF assms(1)]]
    to_array.preorder [OF tree_start(3) [OF assms(1)]] tree_cached(1) [OF assms(1)] assms(2)
  by (simp add: tool_getNodesByParam_def tool_getNodeByParam_def tool_getNodesByParamFuzzy_def tool_getNodesByFilter_def
      tool_transformToArray_def tool_getNodeByTId_def tree_start [OF assms(1)] nodes_forest [OF assms(1), symmetric])

theorem searches_preorder_witness:
  "tool_getNodesByParamFuzzy (sample_tree (sample_setting False)) ''name'' ''ALE'' None = Some (Some [1])"
proof -
  have "fuzzy_match (sample_tree (sample_setting False)) ''name'' (toLowerCase ''ALE'') 1" by code_simp
  then show ?thesis
    using searches_preorder [OF sample_ok, of "''name''" "sample_setting False" None "''ALE''" "\<lambda>_. True"] by simp
qed

section \<open>Selecting\<close>

text \<open>C29: A click that \<open>beforeClick\<close> does not refuse selects the node and nothing else; with the control key,
  where the setting allows it, it takes a selected node out of the selection and adds one that is not selected.
  The tree stays well formed.\<close>

theorem click_selects:
  assumes "tree_ok S z T" "n \<in> nodes_of T" "may S ''beforeClick'' (Some n) z"
  shows "zt_selected (onClickNode S ctrl n z) =
     (if zs_autoCancelSelected S \<and> ctrl then
        (if n \<in> set (zt_selected z) then filter (\<lambda>m. m \<noteq> n) (zt_selected z)
         else if zs_selectedMulti S then zt_selected z @ [n] else [n])
      else [n]) \<and> tree_ok S (onClickNode S ctrl n z) T"
proof -
  define ns where "ns = (if zs_autoCancelSelected S \<and> ctrl then
        (if n \<in> set (zt_selected z) then filter (\<lambda>m. m \<noteq> n) (zt_selected z)
         else if zs_selectedMulti S then zt_selected z @ [n] else [n]) else [n])"
  note t = tree_okD(10,11) [OF assms(1)]
  have one: "reselected z [n] (selectNode S n False z)"
    using selectNode_reselected [OF t(2), where n = n and S = S and addFlag = False] by simp
  have more: "reselected z (zt_selected z @ [n]) (selectNode S n True z)" if "n \<notin> set (zt_selected z)"
    using selectNode_reselected [OF t(2), where n = n and S = S and addFlag = True] that by simp
  have less: "reselected z (filter (\<lambda>m. m \<noteq> n) (zt_selected z)) (cancelPreSelectedNode S (Some n) None z)" if "n \<in> set (zt_selected z)"
    using cancel_one [where n = n, OF assms(1) order_refl] that by (simp add: cancelPreSelectedNode_def)
  have "reselected z ns (if click_flag S ctrl n z = 0 then cancelPreSelectedNode S (Some n) None z
      else selectNode S n (click_flag S ctrl n z = 2) z)"
    by (simp add: ns_def click_flag_def isSelectedNode_def one more less)
  then have r: "reselected z ns (onClickNode S ctrl n z)"
    using assms(3) reselected_zemit by (simp add: onClickNode_def Let_def)
  have "set ns \<subseteq> nodes_of T" "distinct ns" using t assms(2) by (auto simp: ns_def)
  then show ?thesis using reselected_tree_ok [OF r assms(1)] reselectedD(1) [OF r] by (simp add: ns_def)
qed

theorem click_selects_witness:
  "zt_selected (onClickNode (sample_setting False) True 1 (sample_tree (sample_setting False))) = []"
proof -
  have "may (sample_setting False) ''beforeClick'' (Some 1) (sample_tree (sample_setting False))"
    "zs_autoCancelSelected (sample_setting False)" "zt_selected (sample_tree (sample_setting False)) = [1]"
    by (simp_all add: may_def sample_setting_def sample_tree_def)
  then show ?thesis using click_selects [OF sample_ok, of 1 "sample_setting False" True] by simp
qed

section \<open>Opening and closing\<close>

text \<open>C30: Expanding or collapsing all nodes returns, keeps the tree as it is and leaves every parent open, or every
  parent closed; nodes that are no parents are left alone.\<close>

theorem tool_expandAll_opens:
  assumes "tree_ok S z T"
  shows "\<exists>z'. tool_expandAll S b z = Some z' \<and> tree_ok S z' T \<and>
    (\<forall>n \<in> nodes_of T. zn_open (zt_heap z' n) = (if isParent z n then FBool b else zn_open (zt_heap z n)))"
proof -
  define y where "y = z\<lparr>zt_expandTrigger := False\<rparr>"
  have sy: "same z y" unfolding y_def by (rule same_trigger)
  note st = tree_start [OF assms]
  have fit: "fits (zt_next z) z (subs T)"
  proof -
    obtain ts where T: "T = Rose 0 ts" using tree_okD(1) [OF assms] by (cases T) simp
    have "height t < zt_next z" if "t \<in> set ts" for t using height_sub [OF that, of 0] height_next [OF assms] by (simp add: T)
    moreover have "0 < zt_next z" using tree_okD(4) [OF assms, of 0] by (simp add: T)
    ultimately show ?thesis using st(3) by (simp add: T fits_def)
  qed
  have nodes: "nodes_of T = set (forest_nids (subs T))" by (rule nodes_forest [OF assms])
  have "distinct (forest_nids (subs T))" using tree_okD(3) [OF assms] tree_nids_eq [OF assms] by simp
  then obtain w where w: "foldM (\<lambda>c. expandCollapseSonNode (zt_next z) S (Some c) b True No_Cb) (map rid (subs T)) y = Some w" "same z w"
    "\<forall>n \<in> set (forest_nids (subs T)). zn_open (zt_heap w n) = (if isParent z n then FBool b else zn_open (zt_heap y n))"
    using expandCollapseSonNode_opens [OF assms fit _ _ sy, of b True] nodes by blast
  define x where "x = w\<lparr>zt_expandTrigger := zt_expandTrigger z\<rparr>"
  have "tool_expandAll S b z = expandCollapseNode S None b True No_Cb x"
    using w(1) st(2) by (simp add: tool_expandAll_def y_def x_def Let_def)
  then have e: "tool_expandAll S b z = Some x" by (simp add: expandCollapseNode_def)
  have "same z x" unfolding x_def by (rule same_trans [OF w(2) same_trigger])
  then have "tree_ok S x T" by (rule same_tree_ok [OF _ assms])
  moreover have "zn_open (zt_heap x n) = (if isParent z n then FBool b else zn_open (zt_heap z n))" if "n \<in> nodes_of T" for n
    using w(3) that nodes by (simp add: x_def y_def)
  ultimately show ?thesis using e by blast
qed

theorem tool_expandAll_opens_witness:
  "\<exists>z'. tool_expandAll (sample_setting False) True (sample_tree (sample_setting False)) = Some z' \<and> zn_open (zt_heap z' 1) = FBool True"
proof -
  have p: "isParent (sample_tree (sample_setting False)) 1" by (simp add: isParent_def sample_tree_def sample_node_def flag_bool_def)
  show ?thesis using tool_expandAll_opens [OF sample_ok, of "sample_setting False" True] p by auto
qed

section \<open>Two defects\<close>

text \<open>Adding an empty list of nodes to a parent with children clears the flag of the last child: afterwards no node
  is marked as the last one, and the state is that of no tree.\<close>

theorem empty_add_loses_last:
  assumes "child_list z 0 \<noteq> []"
  shows "\<exists>z'. addNodes S None (-1) [] silent z = Some z' \<and> child_list z' 0 = child_list z 0 \<and>
    \<not> zn_last (zt_heap z' (last (child_list z' 0))) \<and> (\<forall>T. \<not> tree_ok S z' T)"
proof -
  define z' where "z' = addNodesData S 0 (-1) [] z"
  note l = linkedD [OF addNodesData_linked [of z 0 "-1" "[]" S, folded z'_def]]
  have c: "child_list z' 0 = child_list z 0" using l(8) by (simp add: insert_at_def)
  have nl: "\<not> zn_last (zt_heap z' (last (child_list z 0)))" using l(16) assms by simp
  have "\<not> tree_ok S z' T" for T
  proof
    assume a: "tree_ok S z' T"
    then have "placed z' 0" using tree_okD(1,5) [OF a] rid_nids [of T] by metis
    then have "\<forall>i < length (child_list z' 0). zn_last (zt_heap z' (child_list z' 0 ! i)) = (Suc i = length (child_list z' 0))"
      unfolding placed_def Let_def by blast
    moreover have "length (child_list z 0) - 1 < length (child_list z 0)" using assms by simp
    ultimately have "zn_last (zt_heap z' (child_list z 0 ! (length (child_list z 0) - 1)))" unfolding c using assms by simp
    then have "zn_last (zt_heap z' (last (child_list z 0)))" using assms by (simp add: last_conv_nth)
    with nl show False by blast
  qed
  moreover have "addNodes S None (-1) [] silent z = Some z'"
    by (simp add: addNodes_def transformTozTreeFormat_def createNodes_def z'_def)
  ultimately show ?thesis using c nl by auto
qed

text \<open>A row whose parent id is a name that every object inherits, such as \<open>constructor\<close>, is in no list afterwards.\<close>

theorem row_below_inherited_lost:
  assumes "attr z n (zs_pIdKey S) = Some key" "key \<in> set inherited" "js_string (attr z n (zs_idKey S)) \<noteq> key"
  shows "transformTozTreeFormat S [n] z = ([], z)"
  using assms by (auto simp: transformTozTreeFormat_def place_row_def rows_by_id_def)

end
