(* ===== verification/ZTree_Check.thy ===== *)
theory ZTree_Check
  imports ZTree_Tools
begin

text \<open>
  The check boxes of the tree widget (zTree-v3.5.40/js/jquery.ztree.excheck.js): the fields it adds
  to every node, how the state of a box follows from the boxes below it, what a click does, and the
  methods it adds to the tree object. The extension wraps operations of the core; a wrapped
  operation here runs the operation of the core, then the steps of the extension.
\<close>

section \<open>Fields, settings, state\<close>

text \<open>
  The four fields that the user's data may set are booleans once \<open>initNode\<close> has run. The state of the
  children is -1 without children to check, 0 when none is checked, 2 when all are, 1 otherwise.
\<close>

record cnode =
  cn_checked :: bool
  cn_checkedOld :: bool
  cn_nocheck :: bool
  cn_chkDisabled :: bool
  cn_halfCheck :: bool
  cn_childState :: int
  cn_focus :: bool

definition blank_cnode :: cnode where
  "blank_cnode = \<lparr>cn_checked = False, cn_checkedOld = False, cn_nocheck = False, cn_chkDisabled = False, cn_halfCheck = False,
     cn_childState = -1, cn_focus = False\<rparr>"

record ctree =
  ct_z :: ztree
  ct_node :: "nid \<Rightarrow> cnode"
  ct_radio :: "nid list"

record csetting =
  cs_base :: zsetting
  cs_enable :: bool
  cs_autoCheckTrigger :: bool
  cs_chkStyle :: string
  cs_nocheckInherit :: bool
  cs_chkDisabledInherit :: bool
  cs_radioType :: string
  cs_Y :: string
  cs_N :: string
  cs_checkedKey :: string
  cs_beforeCheck :: "(ctree \<Rightarrow> nid \<Rightarrow> bool) option"

section \<open>Small parts\<close>

definition in_z :: "(ztree \<Rightarrow> ztree) \<Rightarrow> ctree \<Rightarrow> ctree" where
  "in_z f c = c\<lparr>ct_z := f (ct_z c)\<rparr>"

definition upd_check :: "nid \<Rightarrow> (cnode \<Rightarrow> cnode) \<Rightarrow> ctree \<Rightarrow> ctree" where
  "upd_check n f c = c\<lparr>ct_node := (ct_node c)(n := f (ct_node c n))\<rparr>"

definition may_check :: "csetting \<Rightarrow> nid \<Rightarrow> ctree \<Rightarrow> bool" where
  "may_check C n c = (case cs_beforeCheck C of None \<Rightarrow> True | Some f \<Rightarrow> f c n)"

definition trigger_check :: "nid \<Rightarrow> ctree \<Rightarrow> ctree" where
  "trigger_check n = in_z (zemit (Trigger ''ztree_check'' (Some n)))"

definition depth_bound :: "ctree \<Rightarrow> nat" where
  \<comment> \<open>for the recursions, along branches of different objects\<close>
  "depth_bound c = zt_next (ct_z c) + 1"

definition nodeChecked :: "ctree \<Rightarrow> nid \<Rightarrow> bool" where
  "nodeChecked c n = cn_checked (ct_node c n)"

definition set_nodeChecked :: "nid \<Rightarrow> bool \<Rightarrow> ctree \<Rightarrow> ctree" where
  "set_nodeChecked n b = upd_check n (cn_checked_update (\<lambda>_. b))"

section \<open>The state of the children\<close>

definition radio_state :: "cnode \<Rightarrow> int" where
  \<comment> \<open>what one child adds, in radio style\<close>
  "radio_state v =
     (if cn_nocheck v \<or> cn_chkDisabled v then cn_childState v
      else if cn_halfCheck v then 2
      else if cn_checked v then 2
      else if 0 < cn_childState v then 2 else 0)"

definition box_state :: "cnode \<Rightarrow> int" where
  "box_state v =
     (if cn_nocheck v \<or> cn_chkDisabled v then cn_childState v
      else if cn_halfCheck v then 1
      else if cn_checked v then (if cn_childState v = -1 \<or> cn_childState v = 2 then 2 else 1)
      else if 0 < cn_childState v then 1 else 0)"

fun chk_flag :: "csetting \<Rightarrow> cnode list \<Rightarrow> nat \<Rightarrow> int \<Rightarrow> int" where
  \<comment> \<open>the loop, at the i-th child with the flag so far\<close>
  "chk_flag C [] i flag = flag"
| "chk_flag C (v # vs) i flag =
     (if cs_chkStyle C = ''radio'' then
        (let tmp = radio_state v
         in if tmp = 2 then 2
            else if tmp = 0 then chk_flag C vs (Suc i) 0
            else chk_flag C vs (Suc i) flag)
      else if cs_chkStyle C = ''checkbox'' then
        (let tmp = box_state v
         in if tmp = 1 then 1
            else if tmp = 2 \<and> -1 < flag \<and> 0 < i \<and> tmp \<noteq> flag then 1
            else if flag = 2 \<and> -1 < tmp \<and> tmp < 2 then 1
            else if -1 < tmp then chk_flag C vs (Suc i) tmp
            else chk_flag C vs (Suc i) flag)
      else chk_flag C vs (Suc i) flag)"

definition makeChkFlag :: "csetting \<Rightarrow> nid \<Rightarrow> ctree \<Rightarrow> ctree" where
  "makeChkFlag C n c =
     upd_check n (cn_childState_update (\<lambda>_. chk_flag C (map (ct_node c) (child_list (ct_z c) n)) 0 (-1))) c"

definition getCheckStatus :: "csetting \<Rightarrow> ctree \<Rightarrow> nid \<Rightarrow> (bool \<times> bool) option" where
  \<comment> \<open>whether it is checked, and half checked\<close>
  "getCheckStatus C c n =
     (let v = ct_node c n
      in if \<not> cs_enable C \<or> cn_nocheck v \<or> cn_chkDisabled v then None
         else Some (cn_checked v,
           if cn_halfCheck v then True
           else if cs_chkStyle C = ''radio'' then cn_childState v = 2
           else if cn_checked v then -1 < cn_childState v \<and> cn_childState v < 2
           else 0 < cn_childState v))"

section \<open>Drawing a box\<close>

definition makeChkClass :: "csetting \<Rightarrow> ctree \<Rightarrow> nid \<Rightarrow> string" where
  "makeChkClass C c n =
     (let v = ct_node c n;
          fullStyle =
            (if cn_chkDisabled v then ''disable''
             else if cn_halfCheck v then ''part''
             else if cs_chkStyle C = ''radio'' then (if cn_childState v < 1 then ''full'' else ''part'')
             else if cn_checked v then (if cn_childState v = 2 \<or> cn_childState v = -1 then ''full'' else ''part'')
             else (if cn_childState v < 1 then ''full'' else ''part''));
          chkName = cs_chkStyle C @ ''_'' @ (if cn_checked v then ''true'' else ''false'') @ ''_'' @ fullStyle;
          chkName = (if cn_focus v \<and> \<not> cn_chkDisabled v then chkName @ ''_focus'' else chkName)
      in ''button chk '' @ chkName)"

definition setChkClass :: "csetting \<Rightarrow> nid \<Rightarrow> ctree \<Rightarrow> ctree" where
  "setChkClass C n c =
     (let obj = elem_id (ct_z c) n ''_check'';
          c = in_z (zemit (if cn_nocheck (ct_node c n) then Hide_Elem obj else Show_Elem obj)) c
      in in_z (zemit (Set_Attr obj ''class'' (makeChkClass C c n))) c)"

definition repairChkClass :: "csetting \<Rightarrow> nid option \<Rightarrow> ctree \<Rightarrow> ctree" where
  "repairChkClass C node c =
     (case node of
        None \<Rightarrow> c
      | Some n \<Rightarrow>
          let c = makeChkFlag C n c
          in if \<not> cn_nocheck (ct_node c n) then setChkClass C n c else c)"

fun repairParentChkClass :: "nat \<Rightarrow> csetting \<Rightarrow> nid option \<Rightarrow> ctree \<Rightarrow> ctree option" where
  "repairParentChkClass 0 C node c = None"
| "repairParentChkClass (Suc k) C node c =
     (case node of
        None \<Rightarrow> Some c
      | Some n \<Rightarrow>
          if \<not> truthy (zn_parentTId (zt_heap (ct_z c) n)) then Some c
          else
            let pNode = getParentNode (ct_z c) n
            in repairParentChkClass k C pNode (repairChkClass C pNode c))"

definition repairParentChkClassWithSelf :: "csetting \<Rightarrow> nid option \<Rightarrow> ctree \<Rightarrow> ctree option" where
  "repairParentChkClassWithSelf C node c =
     (case node of
        None \<Rightarrow> Some c
      | Some n \<Rightarrow>
          case child_list (ct_z c) n of
            [] \<Rightarrow> repairParentChkClass (depth_bound c) C (Some n) c
          | m # ms \<Rightarrow> repairParentChkClass (depth_bound c) C (Some m) c)"

section \<open>Checking the boxes below and above\<close>

definition set_son :: "csetting \<Rightarrow> nid \<Rightarrow> bool \<Rightarrow> nid \<Rightarrow> ctree \<Rightarrow> ctree" where
  \<comment> \<open>the end of \<open>setSonNodeCheckBox\<close>, after the loop over the children\<close>
  "set_son C n v srcNode c =
     (let children = child_list (ct_z c) n;
          hasDisable = (\<exists>s \<in> set children. cn_chkDisabled (ct_node c s))
      in if n \<noteq> root \<and> \<not> cn_chkDisabled (ct_node c n) then
           (let c = (if hasDisable \<and> \<not> cn_nocheck (ct_node c n) then makeChkFlag C n c else c);
                c = (if \<not> cn_nocheck (ct_node c n) then
                       (let c = set_nodeChecked n v c
                        in if \<not> hasDisable
                           then upd_check n (cn_childState_update (\<lambda>_. if children \<noteq> [] then (if v then 2 else 0) else -1)) c
                           else c)
                     else upd_check n (cn_childState_update (\<lambda>_. -1)) c);
                c = setChkClass C n c
            in if cs_autoCheckTrigger C \<and> n \<noteq> srcNode \<and> \<not> cn_nocheck (ct_node c n) then trigger_check n c else c)
         else c)"

fun setSonNodeCheckBox :: "nat \<Rightarrow> csetting \<Rightarrow> nid \<Rightarrow> bool \<Rightarrow> nid \<Rightarrow> ctree \<Rightarrow> ctree option" where
  "setSonNodeCheckBox 0 C n v srcNode c = None"
| "setSonNodeCheckBox (Suc k) C n v srcNode c =
     map_option (set_son C n v srcNode)
       (foldM (\<lambda>s. setSonNodeCheckBox k C s v srcNode) (child_list (ct_z c) n) c)"

definition set_parent :: "csetting \<Rightarrow> nid \<Rightarrow> bool \<Rightarrow> nid \<Rightarrow> ctree \<Rightarrow> ctree" where
  \<comment> \<open>the first part of \<open>setParentNodeCheckBox\<close>, for the node itself\<close>
  "set_parent C n v srcNode c =
     (let c = makeChkFlag C n c
      in if \<not> cn_nocheck (ct_node c n) \<and> \<not> cn_chkDisabled (ct_node c n) then
           (let c = setChkClass C n (set_nodeChecked n v c)
            in if cs_autoCheckTrigger C \<and> n \<noteq> srcNode then trigger_check n c else c)
         else c)"

definition keeps_parent :: "cnode \<Rightarrow> bool" where
  \<comment> \<open>a child for which its parent stays checked\<close>
  "keeps_parent v \<longleftrightarrow>
     \<not> cn_nocheck v \<and> \<not> cn_chkDisabled v \<and> cn_checked v \<or> (cn_nocheck v \<or> cn_chkDisabled v) \<and> 0 < cn_childState v"

fun setParentNodeCheckBox :: "nat \<Rightarrow> csetting \<Rightarrow> nid \<Rightarrow> bool \<Rightarrow> nid \<Rightarrow> ctree \<Rightarrow> ctree option" where
  "setParentNodeCheckBox 0 C n v srcNode c = None"
| "setParentNodeCheckBox (Suc k) C n v srcNode c =
     (let c = set_parent C n v srcNode c
      in if \<not> truthy (zn_parentTId (zt_heap (ct_z c) n)) then Some c
         else
           case getParentNode (ct_z c) n of
             None \<Rightarrow> None
           | Some p \<Rightarrow>
               if v then setParentNodeCheckBox k C p v srcNode c
               else
                 case nodeChildren (ct_z c) p of
                   None \<Rightarrow> None
                 | Some pNodes \<Rightarrow>
                     if \<exists>s \<in> set pNodes. keeps_parent (ct_node c s) then Some c
                     else setParentNodeCheckBox k C p v srcNode c)"

section \<open>Radio buttons\<close>

definition getRadioCheckedList :: "ctree \<Rightarrow> ctree" where
  \<comment> \<open>drops the nodes that are no longer in the tree\<close>
  "getRadioCheckedList c =
     c\<lparr>ct_radio := filter (\<lambda>n. getNodeCache (ct_z c) (zn_tId (zt_heap (ct_z c) n)) \<noteq> None) (ct_radio c)\<rparr>"

fun radio_all :: "csetting \<Rightarrow> nid \<Rightarrow> nat \<Rightarrow> ctree \<Rightarrow> ctree option" where
  \<comment> \<open>the loop over the checked list, from its end down\<close>
  "radio_all C n 0 c = Some c"
| "radio_all C n (Suc i) c =
     (let p = ct_radio c ! i
      in Option.bind
           (if nodeChecked c p \<and> p \<noteq> n then
              (let c = set_nodeChecked p False c;
                   c = c\<lparr>ct_radio := take i (ct_radio c) @ drop (Suc i) (ct_radio c)\<rparr>;
                   c = setChkClass C p c
               in if zn_parentTId (zt_heap (ct_z c) p) \<noteq> zn_parentTId (zt_heap (ct_z c) n)
                  then repairParentChkClassWithSelf C (Some p) c else Some c)
            else Some c) (radio_all C n i))"

definition radio_level :: "csetting \<Rightarrow> nid \<Rightarrow> nid list \<Rightarrow> ctree \<Rightarrow> ctree" where
  \<comment> \<open>the loop over the children of the parent\<close>
  "radio_level C n =
     fold (\<lambda>p c. if nodeChecked c p \<and> p \<noteq> n then setChkClass C p (set_nodeChecked p False c) else c)"

definition check_radio :: "csetting \<Rightarrow> nid \<Rightarrow> ctree \<Rightarrow> ctree option" where
  \<comment> \<open>\<open>checkNodeRelation\<close> in radio style\<close>
  "check_radio C n c =
     (let c = getRadioCheckedList c
      in if nodeChecked c n then
           (if cs_radioType C = ''all'' then
              map_option (\<lambda>c. c\<lparr>ct_radio := ct_radio c @ [n]\<rparr>) (radio_all C n (length (ct_radio c)) c)
            else
              case siblings (ct_z c) n of
                None \<Rightarrow> None
              | Some children \<Rightarrow> Some (radio_level C n children c))
         else if cs_radioType C = ''all'' then Some (c\<lparr>ct_radio := remove1 n (ct_radio c)\<rparr>)
         else Some c)"

section \<open>Checking a node\<close>

definition check_box :: "csetting \<Rightarrow> nid \<Rightarrow> ctree \<Rightarrow> ctree option" where
  \<comment> \<open>\<open>checkNodeRelation\<close> in any other style\<close>
  "check_box C n c =
     (let b = nodeChecked c n;
          ty = (if b then cs_Y C else cs_N C)
      in Option.bind
           (if child_list (ct_z c) n = [] \<or> CHR ''s'' \<in> set ty
            then setSonNodeCheckBox (depth_bound c) C n b n c else Some c) (\<lambda>c.
         if CHR ''p'' \<in> set ty then setParentNodeCheckBox (depth_bound c) C n b n c else Some c))"

definition checkNodeRelation :: "csetting \<Rightarrow> nid \<Rightarrow> ctree \<Rightarrow> ctree option" where
  "checkNodeRelation C n c = (if cs_chkStyle C = ''radio'' then check_radio C n c else check_box C n c)"

definition onCheckNode :: "csetting \<Rightarrow> nid \<Rightarrow> ctree \<Rightarrow> (bool \<times> ctree) option" where
  "onCheckNode C n c =
     (if cn_chkDisabled (ct_node c n) then Some (False, c)
      else if \<not> may_check C n c then Some (True, c)
      else
        Option.bind (checkNodeRelation C n (set_nodeChecked n (\<not> nodeChecked c n) c)) (\<lambda>c.
        Option.bind (repairParentChkClassWithSelf C (Some n) (setChkClass C n c)) (\<lambda>c.
        Some (True, trigger_check n c))))"

definition hover_check :: "csetting \<Rightarrow> bool \<Rightarrow> nid \<Rightarrow> ctree \<Rightarrow> bool \<times> ctree" where
  \<comment> \<open>\<open>onMouseoverCheck\<close> and \<open>onMouseoutCheck\<close>\<close>
  "hover_check C over n c =
     (if cn_chkDisabled (ct_node c n) then (False, c)
      else (True, setChkClass C n (upd_check n (cn_focus_update (\<lambda>_. over)) c)))"

definition repairAllChk :: "csetting \<Rightarrow> bool \<Rightarrow> ctree \<Rightarrow> ctree option" where
  "repairAllChk C checked c =
     (if cs_enable C \<and> cs_chkStyle C = ''checkbox'' then
        case nodeChildren (ct_z c) root of
          None \<Rightarrow> None
        | Some children \<Rightarrow>
            foldM (\<lambda>n c.
              let c = (if \<not> cn_nocheck (ct_node c n) \<and> \<not> cn_chkDisabled (ct_node c n) then set_nodeChecked n checked c else c)
              in setSonNodeCheckBox (depth_bound c) C n checked n c) children c
      else Some c)"

section \<open>Disabling boxes\<close>

definition disable_one :: "csetting \<Rightarrow> bool \<Rightarrow> nid \<Rightarrow> ctree \<Rightarrow> ctree" where
  \<comment> \<open>the field, when it differs, then the box; without the first in \<open>repairParentChkDisabled\<close>\<close>
  "disable_one C d n c = repairChkClass C (Some n) (upd_check n (cn_chkDisabled_update (\<lambda>_. d)) c)"

fun repairSonChkDisabled :: "nat \<Rightarrow> csetting \<Rightarrow> nid \<Rightarrow> bool \<Rightarrow> bool \<Rightarrow> ctree \<Rightarrow> ctree option" where
  "repairSonChkDisabled 0 C n d inherit c = None"
| "repairSonChkDisabled (Suc k) C n d inherit c =
     (let c = disable_one C d n c
      in if inherit then foldM (\<lambda>s. repairSonChkDisabled k C s d inherit) (child_list (ct_z c) n) c else Some c)"

fun repairParentChkDisabled :: "nat \<Rightarrow> csetting \<Rightarrow> nid option \<Rightarrow> bool \<Rightarrow> bool \<Rightarrow> ctree \<Rightarrow> ctree option" where
  "repairParentChkDisabled 0 C node d inherit c = None"
| "repairParentChkDisabled (Suc k) C node d inherit c =
     (case node of
        None \<Rightarrow> Some c
      | Some n \<Rightarrow>
          let c = (if inherit then disable_one C d n c else repairChkClass C (Some n) c)
          in repairParentChkDisabled k C (getParentNode (ct_z c) n) d inherit c)"

section \<open>Collecting nodes\<close>

definition only_one :: "csetting \<Rightarrow> bool \<Rightarrow> bool" where
  "only_one C checked \<longleftrightarrow> checked \<and> cs_chkStyle C = ''radio'' \<and> cs_radioType C = ''all''"

definition can_check :: "ctree \<Rightarrow> nid \<Rightarrow> bool" where
  "can_check c n \<longleftrightarrow> \<not> cn_nocheck (ct_node c n) \<and> \<not> cn_chkDisabled (ct_node c n)"

fun getTreeCheckedNodes :: "nat \<Rightarrow> csetting \<Rightarrow> ctree \<Rightarrow> nid list \<Rightarrow> bool \<Rightarrow> nid list \<Rightarrow> nid list option" where
  "getTreeCheckedNodes 0 C c ns checked results = None"
| "getTreeCheckedNodes (Suc k) C c [] checked results = Some results"
| "getTreeCheckedNodes (Suc k) C c (n # ns) checked results =
     (let hit = (can_check c n \<and> nodeChecked c n = checked);
          results = (if hit then results @ [n] else results)
      in if hit \<and> only_one C checked then Some results
         else
           Option.bind (getTreeCheckedNodes k C c (child_list (ct_z c) n) checked results) (\<lambda>results.
             if only_one C checked \<and> results \<noteq> [] then Some results
             else getTreeCheckedNodes (Suc k) C c ns checked results))"

fun getTreeChangeCheckedNodes :: "nat \<Rightarrow> ctree \<Rightarrow> nid list \<Rightarrow> nid list \<Rightarrow> nid list option" where
  "getTreeChangeCheckedNodes 0 c ns results = None"
| "getTreeChangeCheckedNodes (Suc k) c [] results = Some results"
| "getTreeChangeCheckedNodes (Suc k) c (n # ns) results =
     (let results = (if can_check c n \<and> nodeChecked c n \<noteq> cn_checkedOld (ct_node c n) then results @ [n] else results)
      in Option.bind (getTreeChangeCheckedNodes k c (child_list (ct_z c) n) results)
           (getTreeChangeCheckedNodes (Suc k) c ns))"

section \<open>Methods of the tree object\<close>

definition tool_checkNode :: "csetting \<Rightarrow> nid \<Rightarrow> bool option \<Rightarrow> bool \<Rightarrow> bool \<Rightarrow> ctree \<Rightarrow> ctree option" where
  \<comment> \<open>\<open>None\<close> as \<open>checked\<close>: a value that is no boolean\<close>
  "tool_checkNode C n checked checkTypeFlag callbackFlag c =
     (let old = nodeChecked c n;
          new = (case checked of None \<Rightarrow> \<not> old | Some b \<Rightarrow> b)
      in if cn_chkDisabled (ct_node c n) then Some c
         else if old = new \<and> \<not> checkTypeFlag then Some c
         else if callbackFlag \<and> \<not> may_check C n c then Some c
         else if cs_enable C \<and> \<not> cn_nocheck (ct_node c n) then
           let c = set_nodeChecked n new c
           in Option.bind (if checkTypeFlag \<or> cs_chkStyle C = ''radio'' then checkNodeRelation C n c else Some c) (\<lambda>c.
              Option.bind (repairParentChkClassWithSelf C (Some n) (setChkClass C n c)) (\<lambda>c.
              Some (if callbackFlag then trigger_check n c else c)))
         else Some c)"

definition tool_checkAllNodes :: "csetting \<Rightarrow> bool \<Rightarrow> ctree \<Rightarrow> ctree option" where
  "tool_checkAllNodes C checked c = repairAllChk C checked c"

definition tool_getCheckedNodes :: "csetting \<Rightarrow> ctree \<Rightarrow> bool \<Rightarrow> nid list option" where
  "tool_getCheckedNodes C c checked =
     getTreeCheckedNodes (depth_bound c) C c (child_list (ct_z c) root) checked []"

definition tool_getChangeCheckedNodes :: "ctree \<Rightarrow> nid list option" where
  "tool_getChangeCheckedNodes c = getTreeChangeCheckedNodes (depth_bound c) c (child_list (ct_z c) root) []"

definition tool_setChkDisabled :: "csetting \<Rightarrow> nid \<Rightarrow> bool \<Rightarrow> bool \<Rightarrow> bool \<Rightarrow> ctree \<Rightarrow> ctree option" where
  "tool_setChkDisabled C n disabled inheritParent inheritChildren c =
     Option.bind (repairSonChkDisabled (depth_bound c) C n disabled inheritChildren c) (\<lambda>c.
       repairParentChkDisabled (depth_bound c) C (getParentNode (ct_z c) n) disabled inheritParent c)"

definition check_updateNode :: "csetting \<Rightarrow> nid \<Rightarrow> bool \<Rightarrow> ctree \<Rightarrow> ctree option" where
  "check_updateNode C n checkTypeFlag c =
     (let c = in_z (tool_updateNode (cs_base C) n) c
      in if \<not> cs_enable C \<or> \<not> br_has (cs_base C) (zt_log (ct_z c)) (elem_id (ct_z c) n '''') then Some c
         else
           Option.bind (if checkTypeFlag \<or> cs_chkStyle C = ''radio'' then checkNodeRelation C n c else Some c) (\<lambda>c.
             repairParentChkClassWithSelf C (Some n) (setChkClass C n c)))"

section \<open>What the extension adds to the core\<close>

definition raw_bool :: "ztree \<Rightarrow> nid \<Rightarrow> string \<Rightarrow> bool" where
  \<comment> \<open>the boolean that a field of the user's data stands for; the data hold true as the string\<close>
  "raw_bool z n k = (case attr z n k of None \<Rightarrow> False | Some s \<Rightarrow> eqs s ''true'')"

definition raw_check :: "csetting \<Rightarrow> ztree \<Rightarrow> nid \<Rightarrow> cnode" where
  \<comment> \<open>the fields of an object that \<open>initNode\<close> has not seen, as it reads them\<close>
  "raw_check C z n = blank_cnode\<lparr>cn_checked := raw_bool z n (cs_checkedKey C), cn_nocheck := raw_bool z n ''nocheck'',
     cn_chkDisabled := raw_bool z n ''chkDisabled'', cn_halfCheck := raw_bool z n ''halfCheck''\<rparr>"

definition check_bindEvent :: "ctree \<Rightarrow> ctree" where
  "check_bindEvent = in_z (zemit (Bind ''ztree_check''))"

definition check_unbindEvent :: "ctree \<Rightarrow> ctree" where
  "check_unbindEvent = in_z (zemit (Unbind ''ztree_check''))"

definition check_initRoot :: "ctree \<Rightarrow> ctree" where
  "check_initRoot c = c\<lparr>ct_radio := []\<rparr>"

definition check_initNode :: "csetting \<Rightarrow> nid \<Rightarrow> nid option \<Rightarrow> ctree \<Rightarrow> ctree" where
  "check_initNode C n parentNode c =
     (let v = ct_node c n;
          from_parent = (\<lambda>inherit f. inherit \<and> (case parentNode of None \<Rightarrow> False | Some p \<Rightarrow> f (ct_node c p)));
          c = upd_check n (\<lambda>_. v\<lparr>cn_checkedOld := cn_checked v,
                cn_nocheck := cn_nocheck v \<or> from_parent (cs_nocheckInherit C) cn_nocheck,
                cn_chkDisabled := cn_chkDisabled v \<or> from_parent (cs_chkDisabledInherit C) cn_chkDisabled,
                cn_childState := -1, cn_focus := False\<rparr>) c
      in if cs_chkStyle C = ''radio'' \<and> cs_radioType C = ''all'' \<and> cn_checked v then c\<lparr>ct_radio := ct_radio c @ [n]\<rparr> else c)"

definition check_beforeA :: "csetting \<Rightarrow> nid \<Rightarrow> ctree \<Rightarrow> ctree" where
  \<comment> \<open>the markup it adds is \<open>chk_html\<close>\<close>
  "check_beforeA C n c = (if cs_enable C then makeChkFlag C n c else c)"

definition chk_html :: "csetting \<Rightarrow> ctree \<Rightarrow> nid \<Rightarrow> string" where
  "chk_html C c n =
     (if cs_enable C then
        ''<span ID='' @ [CHR 0x27] @ elem_id (ct_z c) n ''_check'' @ [CHR 0x27] @ '' class='' @ [CHR 0x27] @ makeChkClass C c n @ [CHR 0x27] @
        '' treeNode_check'' @ (if cn_nocheck (ct_node c n) then '' style='' @ [CHR 0x27] @ ''display:none;'' @ [CHR 0x27] else '''') @ ''></span>''
      else '''')"

text \<open>
  The steps of the extension while the core appends nodes: the fields of each node, then its
  children, then its box; last the parent of the nodes. The core reads none of these fields, so the
  steps of the core come first here.
\<close>

fun check_appendNodes :: "nat \<Rightarrow> csetting \<Rightarrow> nid list \<Rightarrow> nid option \<Rightarrow> bool \<Rightarrow> bool \<Rightarrow> ctree \<Rightarrow> ctree option" where
  "check_appendNodes 0 C nodes parentNode initFlag openFlag c = None"
| "check_appendNodes (Suc k) C nodes parentNode initFlag openFlag c =
     map_option (\<lambda>c. case parentNode of None \<Rightarrow> c | Some p \<Rightarrow> makeChkFlag C p c)
       (foldM (\<lambda>n c.
          let c = (if initFlag then check_initNode C n parentNode c else c)
          in map_option (\<lambda>c. if openFlag then check_beforeA C n c else c)
               (if child_list (ct_z c) n \<noteq> []
                then check_appendNodes k C (child_list (ct_z c) n) (Some n) initFlag (openFlag \<and> is_open (ct_z c) n) c
                else Some c))
        nodes c)"

definition create_open :: "zsetting \<Rightarrow> nid option \<Rightarrow> ztree \<Rightarrow> bool" where
  \<comment> \<open>whether \<open>createNodes\<close> draws the nodes\<close>
  "create_open S parentNode z =
     (case parentNode of
        None \<Rightarrow> True
      | Some p \<Rightarrow> is_open z p \<or> br_has S (zt_log z) (elem_id z (hd (child_list z p)) ''''))"

definition check_createNodes :: "csetting \<Rightarrow> nat \<Rightarrow> nid list \<Rightarrow> nid option \<Rightarrow> int \<Rightarrow> ctree \<Rightarrow> ctree option" where
  "check_createNodes C level nodes parentNode index c =
     (let openFlag = create_open (cs_base C) parentNode (ct_z c)
      in Option.bind (createNodes (cs_base C) level nodes parentNode index (ct_z c)) (\<lambda>z.
         let c = c\<lparr>ct_z := z\<rparr>
         in Option.bind
              (if nodes = [] then Some c else check_appendNodes (depth_bound c) C nodes parentNode True openFlag c)
              (repairParentChkClassWithSelf C parentNode)))"

definition check_removeNode :: "csetting \<Rightarrow> nid \<Rightarrow> ctree \<Rightarrow> ctree option" where
  "check_removeNode C n c =
     (let parentNode = getParentNode (ct_z c) n
      in Option.bind (removeNode (cs_base C) n (ct_z c)) (\<lambda>z.
         let c = c\<lparr>ct_z := z\<rparr>
         in case parentNode of
              None \<Rightarrow> Some c
            | Some p \<Rightarrow> repairParentChkClass (depth_bound c) C parentNode (repairChkClass C parentNode c)))"

section \<open>Events\<close>

datatype check_event = Check_Node | Mouseover_Check | Mouseout_Check

definition check_eventProxy :: "csetting \<Rightarrow> string \<Rightarrow> string option \<Rightarrow> check_event option" where
  \<comment> \<open>for an event whose target is the box of the node with this id\<close>
  "check_eventProxy C ty box =
     (if \<not> truthy box \<or> \<not> cs_enable C then None
      else if ty = ''mouseover'' then Some Mouseover_Check
      else if ty = ''mouseout'' then Some Mouseout_Check
      else if ty = ''click'' then Some Check_Node
      else None)"

definition check_proxy :: "csetting \<Rightarrow> zevent \<Rightarrow> string option \<Rightarrow> ctree \<Rightarrow> ctree option" where
  \<comment> \<open>the proxy of the extension goes first, and a click on a box ends there\<close>
  "check_proxy C ev box c =
     (let node = getNodeCache (ct_z c) box
      in case check_eventProxy C (ev_type ev) box of
           Some Check_Node \<Rightarrow> (case node of None \<Rightarrow> None | Some n \<Rightarrow> map_option snd (onCheckNode C n c))
         | Some Mouseover_Check \<Rightarrow>
             (case node of None \<Rightarrow> None
              | Some n \<Rightarrow> let c = snd (hover_check C True n c) in map_option (\<lambda>z. c\<lparr>ct_z := z\<rparr>) (proxy (cs_base C) ev (ct_z c)))
         | Some Mouseout_Check \<Rightarrow>
             (case node of None \<Rightarrow> None
              | Some n \<Rightarrow> let c = snd (hover_check C False n c) in map_option (\<lambda>z. c\<lparr>ct_z := z\<rparr>) (proxy (cs_base C) ev (ct_z c)))
         | None \<Rightarrow> map_option (\<lambda>z. c\<lparr>ct_z := z\<rparr>) (proxy (cs_base C) ev (ct_z c)))"

end
