(* ===== verification/ZTree_Boxes.thy ===== *)
theory ZTree_Boxes
  imports ZTree_Check ZTree_Props
begin

text \<open>
  The lemmas on check boxes: the loop over the children as a summary of their states, the nodes an
  operation touches, and the invariant that the state of every box is the summary of its children.
  An operation that walks up repairs it from the bottom; one that walks down establishes it below.
\<close>

named_theorems check_simps \<open>what the steps on boxes do to the fields\<close>

section \<open>The loop over the children\<close>

definition summary :: "int set \<Rightarrow> int" where
  "summary X = (if 1 \<in> X \<or> {0, 2} \<subseteq> X then 1 else if 2 \<in> X then 2 else if 0 \<in> X then 0 else -1)"

lemma chk_flag_box:
  assumes "cs_chkStyle C = ''checkbox''" "box_state ` set vs \<subseteq> {-1, 0, 1, 2}" "flag \<in> {-1, 0, 2}" "flag = -1 \<or> 0 < i"
  shows "chk_flag C vs i flag = summary (insert flag (box_state ` set vs))"
  using assms(2-4)
proof (induction vs arbitrary: i flag)
  case (Cons v vs)
  from Cons.prems(1) consider "box_state v = -1" | "box_state v = 0" | "box_state v = 1" | "box_state v = 2" by auto
  then show ?case
    using Cons assms(1) by cases (auto simp: summary_def)
qed (auto simp: summary_def)

lemma chk_flag_radio:
  assumes "cs_chkStyle C = ''radio''" "radio_state ` set vs \<subseteq> {-1, 0, 1, 2}" "flag \<in> {-1, 0}"
  shows "chk_flag C vs i flag = (if 2 \<in> radio_state ` set vs then 2 else if 0 \<in> insert flag (radio_state ` set vs) then 0 else -1)"
  using assms(2-3)
proof (induction vs arbitrary: i flag)
  case (Cons v vs)
  from Cons.prems(1) consider "radio_state v = -1" | "radio_state v = 0" | "radio_state v = 1" | "radio_state v = 2" by auto
  then show ?case
    using Cons assms(1) by cases auto
qed auto

section \<open>The nodes an operation touches\<close>

definition same_kind :: "cnode \<Rightarrow> cnode \<Rightarrow> bool" where
  "same_kind v w \<longleftrightarrow> cn_nocheck w = cn_nocheck v \<and> cn_chkDisabled w = cn_chkDisabled v \<and> cn_halfCheck w = cn_halfCheck v \<and>
     cn_checkedOld w = cn_checkedOld v \<and> cn_focus w = cn_focus v"

definition touches :: "nid set \<Rightarrow> ctree \<Rightarrow> ctree \<Rightarrow> bool" where
  \<comment> \<open>at most the boxes of these nodes change, and nothing of the tree but what is drawn\<close>
  "touches N c c' \<longleftrightarrow> (\<exists>l. ct_z c' = (ct_z c)\<lparr>zt_log := l\<rparr>) \<and>
     (\<forall>m. same_kind (ct_node c m) (ct_node c' m)) \<and> (\<forall>m. m \<notin> N \<longrightarrow> ct_node c' m = ct_node c m)"

lemma same_kind_refl [simp]: "same_kind v v"
  by (simp add: same_kind_def)

lemma touches_refl [simp]: "touches N c c"
  by (auto simp: touches_def intro: exI [of _ "zt_log (ct_z c)"])

lemma touches_trans: "touches N a b \<Longrightarrow> touches N b c \<Longrightarrow> touches N a c"
  by (auto simp: touches_def same_kind_def)

lemma touches_mono: "touches M a b \<Longrightarrow> M \<subseteq> N \<Longrightarrow> touches N a b"
  by (auto simp: touches_def)

lemma touchesD:
  assumes "touches N c c'"
  shows "zt_heap (ct_z c') = zt_heap (ct_z c)" "zt_next (ct_z c') = zt_next (ct_z c)" "zt_cache (ct_z c') = zt_cache (ct_z c)"
    "zt_selected (ct_z c') = zt_selected (ct_z c)" "m \<notin> N \<Longrightarrow> ct_node c' m = ct_node c m" "can_check c' m = can_check c m"
    "cn_nocheck (ct_node c' m) = cn_nocheck (ct_node c m)" "cn_chkDisabled (ct_node c' m) = cn_chkDisabled (ct_node c m)"
    "cn_halfCheck (ct_node c' m) = cn_halfCheck (ct_node c m)" "cn_checkedOld (ct_node c' m) = cn_checkedOld (ct_node c m)"
  using assms by (auto simp: touches_def same_kind_def can_check_def)

lemma touches_tree:
  assumes "touches N c c'"
  shows "child_list (ct_z c') n = child_list (ct_z c) n" "nodeChildren (ct_z c') n = nodeChildren (ct_z c) n"
    "getParentNode (ct_z c') n = getParentNode (ct_z c) n" "siblings (ct_z c') n = siblings (ct_z c) n"
    "getNodeCache (ct_z c') t = getNodeCache (ct_z c) t" "depth_bound c' = depth_bound c" "elem_id (ct_z c') n e = elem_id (ct_z c) n e"
proof -
  have n: "nodeChildren (ct_z c') = nodeChildren (ct_z c)" by (rule ext) (simp add: nodeChildren_def touchesD(1) [OF assms])
  note d = touchesD(1-3) [OF assms] n
  show "child_list (ct_z c') n = child_list (ct_z c) n" "nodeChildren (ct_z c') n = nodeChildren (ct_z c) n"
    "getParentNode (ct_z c') n = getParentNode (ct_z c) n" "siblings (ct_z c') n = siblings (ct_z c) n"
    "getNodeCache (ct_z c') t = getNodeCache (ct_z c) t" "depth_bound c' = depth_bound c" "elem_id (ct_z c') n e = elem_id (ct_z c) n e"
    by (simp_all add: d child_list_def getParentNode_def getNodeCache_def depth_bound_def siblings_def parent_of_def elem_id_def)
qed

lemma touches_same: "touches N c c' \<Longrightarrow> same (ct_z c) (ct_z c')"
  by (auto simp: touches_def same_def)

lemma touches_tree_ok: "touches N c c' \<Longrightarrow> tree_ok S (ct_z c) T \<Longrightarrow> tree_ok S (ct_z c') T"
  by (rule same_tree_ok [OF touches_same])

text \<open>The steps, by what they touch and what they leave in the fields.\<close>

lemma touches_upd: "(\<And>v. same_kind v (f v)) \<Longrightarrow> touches {n} c (upd_check n f c)"
  by (auto simp: touches_def upd_check_def intro: exI [of _ "zt_log (ct_z c)"])

lemma touches_zemit: "touches N c (in_z (zemit e) c)"
  by (auto simp: touches_def in_z_def zemit_def)

lemma touches_setChkClass: "touches N c (setChkClass C n c)"
  unfolding setChkClass_def Let_def by (rule touches_trans [OF touches_zemit touches_zemit])

lemma touches_trigger_check: "touches N c (trigger_check n c)"
  unfolding trigger_check_def by (rule touches_zemit)

lemma touches_makeChkFlag: "touches {n} c (makeChkFlag C n c)"
  unfolding makeChkFlag_def by (rule touches_upd) (simp add: same_kind_def)

lemma touches_set_nodeChecked: "touches {n} c (set_nodeChecked n b c)"
  unfolding set_nodeChecked_def by (rule touches_upd) (simp add: same_kind_def)

lemma touches_repairChkClass: "touches {n} c (repairChkClass C (Some n) c)"
  using touches_makeChkFlag [of n c C] touches_trans touches_setChkClass by (auto simp: repairChkClass_def Let_def)

lemma node_in_z [check_simps]: "ct_node (in_z f c) = ct_node c"
  by (simp add: in_z_def)

lemma node_setChkClass [check_simps]: "ct_node (setChkClass C n c) = ct_node c"
  by (simp add: setChkClass_def Let_def check_simps)

lemma node_trigger_check [check_simps]: "ct_node (trigger_check n c) = ct_node c"
  by (simp add: trigger_check_def check_simps)

lemma node_upd_check [check_simps]: "ct_node (upd_check n f c) = (ct_node c)(n := f (ct_node c n))" "ct_z (upd_check n f c) = ct_z c"
  by (simp_all add: upd_check_def)

lemma node_set_nodeChecked [check_simps]: "ct_node (set_nodeChecked n b c) = (ct_node c)(n := (ct_node c n)\<lparr>cn_checked := b\<rparr>)"
    "ct_z (set_nodeChecked n b c) = ct_z c"
  by (simp_all add: set_nodeChecked_def check_simps)

definition children_state :: "csetting \<Rightarrow> ctree \<Rightarrow> nid \<Rightarrow> int" where
  "children_state C c n = chk_flag C (map (ct_node c) (child_list (ct_z c) n)) 0 (-1)"

lemma node_makeChkFlag [check_simps]:
  "ct_node (makeChkFlag C n c) = (ct_node c)(n := (ct_node c n)\<lparr>cn_childState := children_state C c n\<rparr>)" "ct_z (makeChkFlag C n c) = ct_z c"
  by (simp_all add: makeChkFlag_def children_state_def check_simps)

lemma node_repairChkClass [check_simps]:
  "ct_node (repairChkClass C (Some n) c) = (ct_node c)(n := (ct_node c n)\<lparr>cn_childState := children_state C c n\<rparr>)"
  by (simp add: repairChkClass_def Let_def check_simps)

section \<open>Boxes that show their children\<close>

definition settled_box :: "csetting \<Rightarrow> ctree \<Rightarrow> nid \<Rightarrow> bool" where
  "settled_box C c n \<longleftrightarrow> cn_childState (ct_node c n) = children_state C c n"

lemma children_state_frame:
  assumes "touches N c c'" "set (child_list (ct_z c) m) \<inter> N = {}"
  shows "children_state C c' m = children_state C c m"
proof -
  have "map (ct_node c') (child_list (ct_z c) m) = map (ct_node c) (child_list (ct_z c) m)"
    using assms(2) touchesD(5) [OF assms(1)] by auto
  then show ?thesis by (simp only: children_state_def touches_tree(1) [OF assms(1)])
qed

lemma settled_frame:
  assumes "touches N c c'" "set (child_list (ct_z c) m) \<inter> N = {}" "m \<notin> N"
  shows "settled_box C c' m = settled_box C c m"
  using children_state_frame [OF assms(1,2)] touchesD(5) [OF assms(1,3)] by (simp add: settled_box_def)

lemma radio_repairChkClass: "ct_radio (repairChkClass C node c) = ct_radio c"
  by (simp add: repairChkClass_def Let_def makeChkFlag_def upd_check_def setChkClass_def in_z_def split: option.split)

lemma settled_repaired:
  assumes "n \<notin> set (child_list (ct_z c) n)"
  shows "settled_box C (makeChkFlag C n c) n" "settled_box C (repairChkClass C (Some n) c) n"
proof -
  have s: "set (child_list (ct_z c) n) \<inter> {n} = {}" using assms by simp
  show "settled_box C (makeChkFlag C n c) n"
    using children_state_frame [OF touches_makeChkFlag s, of C C] by (simp add: settled_box_def check_simps)
  show "settled_box C (repairChkClass C (Some n) c) n"
    using children_state_frame [OF touches_repairChkClass s, of C C] by (simp add: settled_box_def check_simps)
qed

definition settled_off :: "csetting \<Rightarrow> ctree \<Rightarrow> rose \<Rightarrow> nid set \<Rightarrow> bool" where
  \<comment> \<open>the boxes outside the set show their children\<close>
  "settled_off C c T X \<longleftrightarrow> (\<forall>m \<in> nodes_of T. m \<notin> X \<longrightarrow> settled_box C c m)"

lemma settled_offD: "settled_off C c T X \<Longrightarrow> m \<in> nodes_of T \<Longrightarrow> m \<notin> X \<Longrightarrow> settled_box C c m"
  unfolding settled_off_def by blast

section \<open>The nodes above a node\<close>

definition ups :: "ztree \<Rightarrow> nid \<Rightarrow> nid set" where
  "ups z n = {m. (\<lambda>a b. getParentNode z a = Some b)\<^sup>*\<^sup>* n m}"

definition ancestors :: "ztree \<Rightarrow> nid \<Rightarrow> nid set" where
  "ancestors z n = (case getParentNode z n of None \<Rightarrow> {} | Some p \<Rightarrow> ups z p)"

lemma ups_above: "ups z n = insert n (ancestors z n)"
  by (auto simp: ups_def ancestors_def intro: converse_rtranclp_into_rtranclp elim: converse_rtranclpE split: option.split)

lemma ups_step: "m \<in> ups z n \<Longrightarrow> getParentNode z m = Some p \<Longrightarrow> p \<in> ancestors z n"
proof -
  have "(\<lambda>a b. getParentNode z a = Some b)\<^sup>+\<^sup>+ n p" if "m \<in> ups z n" "getParentNode z m = Some p"
    using that by (auto simp: ups_def intro: rtranclp_into_tranclp1)
  then show "m \<in> ups z n \<Longrightarrow> getParentNode z m = Some p \<Longrightarrow> p \<in> ancestors z n"
    by (auto simp: ancestors_def ups_def dest!: tranclpD split: option.split)
qed

lemma child_parent:
  assumes "tree_ok S z T" "m \<in> nodes_of T" "c \<in> set (child_list z m)"
  shows "getParentNode z c = Some m" "zn_level (zt_heap z c) = Suc (zn_level (zt_heap z m))" "c \<in> nodes_of T"
proof -
  have m: "m \<in> set (nids T)" "m \<noteq> 0" using assms(2) by auto
  have "placed z m" by (rule tree_okD(5) [OF assms(1) m(1)])
  note d = placedD [OF this assms(3)]
  show "getParentNode z c = Some m" using d(1) m(2) tree_cached [OF assms(1,2)] by (simp add: getParentNode_def)
  show "zn_level (zt_heap z c) = Suc (zn_level (zt_heap z m))" using d(2) m(2) by simp
  have "c \<noteq> 0" using root_no_child [OF assms(1) m(1)] assms(3) by (cases "c = 0") auto
  then show "c \<in> nodes_of T" using children_inside [OF tree_okD(2) [OF assms(1)] m(1)] assms(3) by auto
qed

lemma touches_above:
  assumes "touches N c c'"
  shows "ancestors (ct_z c') = ancestors (ct_z c)" "ups (ct_z c') = ups (ct_z c)"
proof -
  have "getParentNode (ct_z c') = getParentNode (ct_z c)" by (rule ext) (rule touches_tree(3) [OF assms])
  then show u: "ups (ct_z c') = ups (ct_z c)" by (simp add: ups_def fun_eq_iff)
  show "ancestors (ct_z c') = ancestors (ct_z c)" by (rule ext) (simp add: ancestors_def u touches_tree(3) [OF assms] split: option.split)
qed

lemma child_ups: "tree_ok S z T \<Longrightarrow> m \<in> nodes_of T \<Longrightarrow> c \<in> set (child_list z m) \<Longrightarrow> c \<in> ups z n \<Longrightarrow> m \<in> ancestors z n"
  using ups_step child_parent(1) by blast

lemma not_own_child: "tree_ok S z T \<Longrightarrow> m \<in> nodes_of T \<Longrightarrow> m \<notin> set (child_list z m)"
  using child_parent(2) [of S z T m m] by auto

text \<open>What the parent of a node is, as the code finds it.\<close>

lemma parent_cases:
  assumes "tree_ok S z T" "n \<in> nodes_of T"
  obtains "\<not> truthy (zn_parentTId (zt_heap z n))" "getParentNode z n = None" "ancestors z n = {}"
  | p where "truthy (zn_parentTId (zt_heap z n))" "getParentNode z n = Some p" "p \<in> nodes_of T" "n \<in> set (child_list z p)"
      "zn_level (zt_heap z n) = Suc (zn_level (zt_heap z p))" "ancestors z n = ups z p"
proof -
  obtain p where p: "p \<in> set (nids T)" "n \<in> set (child_list z p)" "parent_of z n = Some p"
    "p = 0 \<longrightarrow> zn_parentTId (zt_heap z n) = None \<and> zn_level (zt_heap z n) = 0"
    "p \<noteq> 0 \<longrightarrow> truthy (zn_parentTId (zt_heap z n)) \<and> getParentNode z n = Some p \<and> zn_level (zt_heap z n) = Suc (zn_level (zt_heap z p))"
    by (rule tree_parent [OF assms])
  show thesis
  proof (cases "p = 0")
    case True
    then show ?thesis using p that(1) by (simp add: getParentNode_def getNodeCache_def ancestors_def)
  next
    case False
    then show ?thesis using p that(2) by (simp add: ancestors_def)
  qed
qed

lemma ups_level:
  assumes "tree_ok S z T" "n \<in> nodes_of T" "m \<in> ups z n"
  shows "m \<in> nodes_of T" "zn_level (zt_heap z m) \<le> zn_level (zt_heap z n)"
proof -
  have "m \<in> nodes_of T \<and> zn_level (zt_heap z m) \<le> zn_level (zt_heap z n)"
    using assms(3) unfolding ups_def mem_Collect_eq
  proof (induction rule: rtranclp_induct)
    case (step a b)
    then have a: "a \<in> nodes_of T" by blast
    show ?case
      by (rule parent_cases [OF assms(1) a]) (use step in auto)
  qed (use assms(2) in simp)
  then show "m \<in> nodes_of T" "zn_level (zt_heap z m) \<le> zn_level (zt_heap z n)" by auto
qed

lemma off_ups:
  assumes "tree_ok S z T" "n \<in> nodes_of T" "p \<in> nodes_of T" "zn_level (zt_heap z n) = Suc (zn_level (zt_heap z p))"
  shows "n \<notin> ups z p" "set (child_list z n) \<inter> ups z p = {}"
proof -
  show "n \<notin> ups z p" using ups_level(2) [OF assms(1,3), of n] assms(4) by auto
  show "set (child_list z n) \<inter> ups z p = {}"
    using ups_level(2) [OF assms(1,3)] child_parent(2) [OF assms(1,2)] assms(4) by fastforce
qed

section \<open>Repairing upwards\<close>

lemma repairParentChkClass_settles:
  assumes "tree_ok S (ct_z c) T" "n \<in> nodes_of T" "zn_level (zt_heap (ct_z c) n) < k"
  shows "\<exists>c'. repairParentChkClass k C (Some n) c = Some c' \<and> touches (ancestors (ct_z c) n) c c' \<and>
    (\<forall>m. nodeChecked c' m = nodeChecked c m) \<and> ct_radio c' = ct_radio c \<and>
    (\<forall>X. settled_off C c T (ancestors (ct_z c) n \<union> X) \<longrightarrow> settled_off C c' T X)"
  using assms
proof (induction k arbitrary: n c)
  case (Suc k)
  show ?case
  proof (rule parent_cases [OF Suc.prems(1,2)])
    assume "\<not> truthy (zn_parentTId (zt_heap (ct_z c) n))" "ancestors (ct_z c) n = {}"
    then show ?thesis by simp
  next
    fix p assume p: "truthy (zn_parentTId (zt_heap (ct_z c) n))" "getParentNode (ct_z c) n = Some p" "p \<in> nodes_of T"
      "n \<in> set (child_list (ct_z c) p)" "zn_level (zt_heap (ct_z c) n) = Suc (zn_level (zt_heap (ct_z c) p))"
      "ancestors (ct_z c) n = ups (ct_z c) p"
    define d where "d = repairChkClass C (Some p) c"
    have t: "touches {p} c d" unfolding d_def by (rule touches_repairChkClass)
    note same = touchesD(1) [OF t] touches_tree(3) [OF t]
    note u = touches_above [OF t]
    have low: "zn_level (zt_heap (ct_z d) p) < k" using p(5) Suc.prems(3) same by simp
    obtain c' where c': "repairParentChkClass k C (Some p) d = Some c'" "touches (ancestors (ct_z c) p) d c'"
      "\<forall>m. nodeChecked c' m = nodeChecked d m" "ct_radio c' = ct_radio d"
      "\<forall>X. settled_off C d T (ancestors (ct_z c) p \<union> X) \<longrightarrow> settled_off C c' T X"
      using Suc.IH [OF touches_tree_ok [OF t Suc.prems(1)] p(3) low, unfolded u] by blast
    have "repairParentChkClass (Suc k) C (Some n) c = Some c'" using p(1,2) c'(1) by (simp add: d_def)
    moreover have "touches (ancestors (ct_z c) n) c c'"
      by (rule touches_trans [OF touches_mono [OF t] touches_mono [OF c'(2)]]) (auto simp: p(6) ups_above)
    moreover have "nodeChecked c' m = nodeChecked c m" for m using c'(3) by (simp add: nodeChecked_def d_def check_simps)
    moreover have "ct_radio c' = ct_radio c" using c'(4) by (simp add: d_def radio_repairChkClass)
    moreover have "settled_off C c' T X" if x: "settled_off C c T (ancestors (ct_z c) n \<union> X)" for X
    proof -
      have "settled_box C d m" if m: "m \<in> nodes_of T" "m \<notin> ancestors (ct_z c) p" "m \<notin> X" for m
      proof (cases "m = p")
        case True
        then show ?thesis using settled_repaired(2) not_own_child [OF Suc.prems(1) p(3)] by (simp add: d_def)
      next
        case False
        have "p \<notin> set (child_list (ct_z c) m)"
          using child_ups [OF Suc.prems(1) m(1), of p p] m(2) by (auto simp: ups_above)
        then have "settled_box C d m = settled_box C c m" using False by (intro settled_frame [OF t]) auto
        moreover have "settled_box C c m"
          by (rule settled_offD [OF x m(1)]) (use m False in \<open>simp add: p(6) ups_above\<close>)
        ultimately show ?thesis by simp
      qed
      then have "settled_off C d T (ancestors (ct_z c) p \<union> X)" by (simp add: settled_off_def)
      then show ?thesis using c'(5) by blast
    qed
    ultimately show ?thesis by blast
  qed
qed simp

lemma repairParentChkClassWithSelf_settles:
  assumes "tree_ok S (ct_z c) T" "n \<in> nodes_of T"
  shows "\<exists>c'. repairParentChkClassWithSelf C (Some n) c = Some c' \<and> touches (ups (ct_z c) n) c c' \<and>
    (\<forall>m. nodeChecked c' m = nodeChecked c m) \<and> ct_radio c' = ct_radio c \<and>
    (\<forall>X. settled_off C c T (ancestors (ct_z c) n \<union> X) \<longrightarrow> settled_off C c' T X)"
proof (cases "child_list (ct_z c) n")
  case Nil
  obtain c' where c': "repairParentChkClass (depth_bound c) C (Some n) c = Some c'" "touches (ancestors (ct_z c) n) c c'"
    "\<forall>m. nodeChecked c' m = nodeChecked c m" "ct_radio c' = ct_radio c"
    "\<forall>X. settled_off C c T (ancestors (ct_z c) n \<union> X) \<longrightarrow> settled_off C c' T X"
    using repairParentChkClass_settles [OF assms, of "depth_bound c" C] level_bound [OF assms] by (simp add: depth_bound_def) blast
  have "touches (ups (ct_z c) n) c c'" by (rule touches_mono [OF c'(2)]) (auto simp: ups_above)
  then show ?thesis using Nil c' by (simp add: repairParentChkClassWithSelf_def)
next
  case (Cons a as)
  then have a: "a \<in> set (child_list (ct_z c) n)" by simp
  note p = child_parent [OF assms this]
  have ab: "ancestors (ct_z c) a = ups (ct_z c) n" by (simp add: ancestors_def p(1))
  obtain c' where "repairParentChkClass (depth_bound c) C (Some a) c = Some c'" "touches (ancestors (ct_z c) a) c c'"
    "\<forall>m. nodeChecked c' m = nodeChecked c m" "ct_radio c' = ct_radio c"
    "\<forall>X. settled_off C c T (ancestors (ct_z c) a \<union> X) \<longrightarrow> settled_off C c' T X"
    using repairParentChkClass_settles [OF assms(1) p(3), of "depth_bound c" C] level_bound [OF assms(1) p(3)] by (simp add: depth_bound_def) blast
  moreover have "settled_off C c T (ancestors (ct_z c) n \<union> X) \<longrightarrow> settled_off C c T (ups (ct_z c) n \<union> X)" for X
    by (auto simp: settled_off_def ups_above)
  ultimately show ?thesis using Cons ab by (simp add: repairParentChkClassWithSelf_def)
qed

section \<open>Checking downwards\<close>

primrec leaves :: "rose \<Rightarrow> nid list" where
  "leaves (Rose n ts) = (if ts = [] then [n] else concat (map leaves ts))"

primrec leaves_below :: "nid \<Rightarrow> rose \<Rightarrow> nid set" where
  \<comment> \<open>the leaves below a node\<close>
  "leaves_below n (Rose m ts) = (if m = n then set (leaves (Rose m ts)) else \<Union> (set (map (leaves_below n) ts)))"

lemma leaves_inside: "set (leaves t) \<subseteq> set (nids t)"
proof (induction t)
  case (Rose n ts)
  then show ?case by (auto simp: in_forest_nids split: if_splits) blast
qed

lemma below_inside: "leaves_below n t \<subseteq> set (leaves t)"
proof (induction t)
  case (Rose m ts)
  then show ?case by (auto split: if_splits)
qed

lemma below_outside: "n \<notin> set (nids t) \<Longrightarrow> leaves_below n t = {}"
  by (induction t) (auto simp: in_forest_nids)

lemma sub_tree:
  assumes "shape z t" "n \<in> set (nids t)"
  obtains u where "rid u = n" "shape z u" "height u \<le> height t" "set (nids u) \<subseteq> set (nids t)"
    "distinct (nids t) \<Longrightarrow> distinct (nids u) \<and> leaves_below n t = set (leaves u)"
  using assms
proof (induction t arbitrary: thesis)
  case (Rose m ts)
  from Rose.prems(3) consider "n = m" | t where "t \<in> set ts" "n \<in> set (nids t)" by (auto simp: in_forest_nids)
  then show ?case
  proof cases
    case 1
    then show ?thesis using Rose.prems(1) [of "Rose m ts"] Rose.prems(2) by simp
  next
    case (2 t)
    have t: "shape z t" using Rose.prems(2) 2(1) by simp
    obtain u where u: "rid u = n" "shape z u" "height u \<le> height t" "set (nids u) \<subseteq> set (nids t)"
      "distinct (nids t) \<Longrightarrow> distinct (nids u) \<and> leaves_below n t = set (leaves u)"
      using Rose.IH [OF 2(1) _ t 2(2)] by blast
    have "height u \<le> height (Rose m ts)" using u(3) height_sub [OF 2(1), of m] by linarith
    moreover have "set (nids u) \<subseteq> set (nids (Rose m ts))" using u(4) 2(1) by (auto simp: in_forest_nids)
    moreover have "distinct (nids u) \<and> leaves_below n (Rose m ts) = set (leaves u)" if d: "distinct (nids (Rose m ts))"
    proof -
      have "distinct (nids t)" using d 2(1) by (auto simp: forest_nids_def distinct_concat_iff)
      moreover have "m \<noteq> n" using d 2 by (auto simp: in_forest_nids)
      moreover have "leaves_below n s = {}" if "s \<in> set ts" "s \<noteq> t" for s
      proof -
        have "set (nids s) \<inter> set (nids t) = {}"
          using d that 2(1) concat_map_disjoint [of nids ts s t] by (auto simp: forest_nids_def)
        then show ?thesis using 2(2) by (intro below_outside) auto
      qed
      ultimately show ?thesis using u(5) 2(1) by fastforce
    qed
    ultimately show ?thesis using Rose.prems(1) [of u] u by blast
  qed
qed

lemma touches_set_son: "touches {n} c (set_son C n v src c)"
proof -
  note t = touches_makeChkFlag touches_set_nodeChecked touches_setChkClass touches_trigger_check
  have u: "touches {n} c (upd_check n (cn_childState_update (\<lambda>_. x)) c)" for x c by (rule touches_upd) (simp add: same_kind_def)
  define d where "d = (if (\<exists>s \<in> set (child_list (ct_z c) n). cn_chkDisabled (ct_node c s)) \<and> \<not> cn_nocheck (ct_node c n) then makeChkFlag C n c else c)"
  have d: "touches {n} c d" using t(1) by (simp add: d_def)
  define e where "e = (if \<not> cn_nocheck (ct_node d n) then
      (let c' = set_nodeChecked n v d in if \<not> (\<exists>s \<in> set (child_list (ct_z c) n). cn_chkDisabled (ct_node c s))
        then upd_check n (cn_childState_update (\<lambda>_. if child_list (ct_z c) n \<noteq> [] then (if v then 2 else 0) else -1)) c' else c')
      else upd_check n (cn_childState_update (\<lambda>_. -1)) d)"
  have e: "touches {n} d e" using touches_trans [OF t(2) u] t(2) u by (simp add: e_def Let_def)
  have "set_son C n v src c = (if n \<noteq> 0 \<and> \<not> cn_chkDisabled (ct_node c n) then
      (if cs_autoCheckTrigger C \<and> n \<noteq> src \<and> \<not> cn_nocheck (ct_node (setChkClass C n e) n) then trigger_check n (setChkClass C n e) else setChkClass C n e) else c)"
    by (simp add: set_son_def Let_def d_def [symmetric] e_def [symmetric])
  then show ?thesis using touches_trans [OF touches_trans [OF d e] t(3)] touches_trans [OF touches_trans [OF touches_trans [OF d e] t(3)] t(4)]
    by simp
qed

lemma set_son_node:
  assumes "n \<noteq> 0"
  shows "nodeChecked (set_son C n v src c) n = (if can_check c n then v else nodeChecked c n)"
    "can_check c n \<Longrightarrow> \<forall>s \<in> set (child_list (ct_z c) n). can_check c s \<Longrightarrow>
      cn_childState (ct_node (set_son C n v src c) n) = (if child_list (ct_z c) n = [] then -1 else if v then 2 else 0)"
  using assms by (auto simp: set_son_def Let_def nodeChecked_def can_check_def check_simps)

lemma setSonNodeCheckBox_checks:
  assumes "fits k z ts" "distinct (forest_nids ts)" "0 \<notin> set (forest_nids ts)" "child_list (ct_z c) = child_list z"
  shows "\<exists>c'. foldM (\<lambda>s. setSonNodeCheckBox k C s v src) (map rid ts) c = Some c' \<and> touches (set (forest_nids ts)) c c' \<and>
    (\<forall>m \<in> set (forest_nids ts). nodeChecked c' m = (if can_check c m then v else nodeChecked c m)) \<and>
    ((\<forall>m \<in> set (forest_nids ts). can_check c m) \<longrightarrow>
      (\<forall>m \<in> set (forest_nids ts). cn_childState (ct_node c' m) = (if child_list z m = [] then -1 else if v then 2 else 0)))"
  using assms
proof (induction arbitrary: c rule: fits_induct)
  case (Cons k n us ts)
  have distinct_ts: "distinct (forest_nids ts)" "0 \<notin> set (forest_nids ts)" using Cons.prems(1,2) by simp_all
  obtain d where d: "foldM (\<lambda>s. setSonNodeCheckBox k C s v src) (map rid us) c = Some d" "touches (set (forest_nids us)) c d"
    "\<forall>m \<in> set (forest_nids us). nodeChecked d m = (if can_check c m then v else nodeChecked c m)"
    "(\<forall>m \<in> set (forest_nids us). can_check c m) \<longrightarrow>
      (\<forall>m \<in> set (forest_nids us). cn_childState (ct_node d m) = (if child_list z m = [] then -1 else if v then 2 else 0))"
    using Cons.IH(1) [of c] Cons.prems by auto
  define e where "e = set_son C n v src d"
  have e: "touches {n} d e" unfolding e_def by (rule touches_set_son)
  have cl: "child_list (ct_z d) = child_list z" "child_list (ct_z e) = child_list z"
    using touches_tree(1) [OF d(2)] touches_tree(1) [OF e] Cons.prems(3) by (auto simp: fun_eq_iff)
  obtain c' where c': "foldM (\<lambda>s. setSonNodeCheckBox (Suc k) C s v src) (map rid ts) e = Some c'" "touches (set (forest_nids ts)) e c'"
    "\<forall>m \<in> set (forest_nids ts). nodeChecked c' m = (if can_check e m then v else nodeChecked e m)"
    "(\<forall>m \<in> set (forest_nids ts). can_check e m) \<longrightarrow>
      (\<forall>m \<in> set (forest_nids ts). cn_childState (ct_node c' m) = (if child_list z m = [] then -1 else if v then 2 else 0))"
    using Cons.IH(2) [of e, OF _ _ cl(2)] Cons.prems(1,2) distinct_ts by blast
  have can: "can_check d m = can_check c m" "can_check e m = can_check c m" for m
    using touchesD(6) [OF d(2)] touchesD(6) [OF e] by auto
  have n0: "n \<noteq> 0" and n: "n \<notin> set (forest_nids us)" "n \<notin> set (forest_nids ts)" and disj: "set (forest_nids us) \<inter> set (forest_nids ts) = {}"
    using Cons.prems(1,2) by auto
  have kids: "set (map rid us) \<subseteq> set (forest_nids us)" using rid_forest by auto
  have step: "setSonNodeCheckBox (Suc k) C n v src c = Some e"
    using d(1) Cons.hyps(1) Cons.prems(3) by (simp add: e_def)
  have all: "touches (set (forest_nids (Rose n us # ts))) c c'"
    by (intro touches_trans [OF touches_trans [OF touches_mono [OF d(2)] touches_mono [OF e]] touches_mono [OF c'(2)]]) auto
  have at_n: "ct_node c' n = ct_node e n" "ct_node d n = ct_node c n" using touchesD(5) [OF c'(2) n(2)] touchesD(5) [OF d(2) n(1)] by auto
  have at_us: "ct_node c' m = ct_node d m" if "m \<in> set (forest_nids us)" for m
    using touchesD(5) [OF c'(2)] touchesD(5) [OF e] that disj n(1) by (metis IntI empty_iff singletonD)
  have at_ts: "ct_node e m = ct_node c m" if "m \<in> set (forest_nids ts)" for m
    using touchesD(5) [OF d(2)] touchesD(5) [OF e] that disj n(2) by (metis IntI empty_iff singletonD)
  have "nodeChecked c' m = (if can_check c m then v else nodeChecked c m)" if "m \<in> set (forest_nids (Rose n us # ts))" for m
    using that set_son_node(1) [OF n0, of C v src d] d(3) c'(3) at_n at_us at_ts can by (auto simp: nodeChecked_def e_def)
  moreover have "cn_childState (ct_node c' m) = (if child_list z m = [] then -1 else if v then 2 else 0)"
    if a: "\<forall>m \<in> set (forest_nids (Rose n us # ts)). can_check c m" and m: "m \<in> set (forest_nids (Rose n us # ts))" for m
  proof -
    have "\<forall>s \<in> set (child_list (ct_z d) n). can_check d s" "can_check d n" using a kids cl(1) Cons.hyps(1) can(1) by auto
    then have "cn_childState (ct_node e n) = (if child_list z n = [] then -1 else if v then 2 else 0)"
      using set_son_node(2) [OF n0, of d C v src] cl(1) by (simp add: e_def)
    then show ?thesis using m a d(4) c'(4) at_n(1) at_us can by auto
  qed
  ultimately show ?case using step c'(1) all by (auto simp del: setSonNodeCheckBox.simps)
qed auto

section \<open>Checking upwards\<close>

definition ok_box :: "ctree \<Rightarrow> nid \<Rightarrow> bool" where
  \<comment> \<open>a node with children is checked if one of them is\<close>
  "ok_box c n \<longleftrightarrow> (child_list (ct_z c) n \<noteq> [] \<longrightarrow> nodeChecked c n = (\<exists>s \<in> set (child_list (ct_z c) n). nodeChecked c s))"

lemma ok_box_frame:
  assumes "touches N c c'" "m \<notin> N" "set (child_list (ct_z c) m) \<inter> N = {}"
  shows "ok_box c' m = ok_box c m"
proof -
  have "\<forall>s \<in> set (child_list (ct_z c) m). ct_node c' s = ct_node c s" using assms(3) touchesD(5) [OF assms(1)] by blast
  then show ?thesis
    using touchesD(5) [OF assms(1,2)] by (simp add: ok_box_def nodeChecked_def touches_tree(1) [OF assms(1)])
qed

lemma touches_set_parent: "touches {n} c (set_parent C n v src c)"
proof -
  note t = touches_makeChkFlag touches_set_nodeChecked touches_setChkClass touches_trigger_check
  have a: "touches {n} c (setChkClass C n (set_nodeChecked n v (makeChkFlag C n c)))"
    by (rule touches_trans [OF touches_trans [OF t(1) t(2)] t(3)])
  show ?thesis using a touches_trans [OF a t(4)] t(1) by (simp add: set_parent_def Let_def)
qed

lemma set_parent_node:
  shows "nodeChecked (set_parent C n v src c) n = (if can_check c n then v else nodeChecked c n)"
    "cn_childState (ct_node (set_parent C n v src c) n) = children_state C c n"
  by (simp_all add: set_parent_def Let_def nodeChecked_def can_check_def check_simps)

lemma set_parent_settled:
  assumes "n \<notin> set (child_list (ct_z c) n)"
  shows "settled_box C (set_parent C n v src c) n"
  using children_state_frame [OF touches_set_parent, of c n n C C v src] assms by (simp add: settled_box_def set_parent_node)

definition checks_above :: "ctree \<Rightarrow> rose \<Rightarrow> nid \<Rightarrow> bool \<Rightarrow> bool" where
  \<comment> \<open>what holds when the walk up from a node starts\<close>
  "checks_above c T n v \<longleftrightarrow> (child_list (ct_z c) n \<noteq> [] \<longrightarrow> (\<exists>s \<in> set (child_list (ct_z c) n). nodeChecked c s) = v) \<and>
     (\<forall>m \<in> nodes_of T. m \<noteq> n \<longrightarrow>
        (if n \<in> set (child_list (ct_z c) m)
         then (\<exists>s \<in> set (child_list (ct_z c) m). s \<noteq> n \<and> nodeChecked c s) \<longrightarrow> nodeChecked c m
         else ok_box c m))"

lemma checks_above_sibling:
  assumes "checks_above c T n v" "p \<in> nodes_of T" "p \<noteq> n" "n \<in> set (child_list (ct_z c) p)" "s \<in> set (child_list (ct_z c) p)" "s \<noteq> n"
    "nodeChecked c s"
  shows "nodeChecked c p"
proof -
  have "if n \<in> set (child_list (ct_z c) p)
      then (\<exists>s \<in> set (child_list (ct_z c) p). s \<noteq> n \<and> nodeChecked c s) \<longrightarrow> nodeChecked c p else ok_box c p"
    using assms(1) [unfolded checks_above_def, THEN conjunct2] assms(2,3) by blast
  then show ?thesis using assms(4-) by auto
qed

lemma set_parent_step:
  fixes C :: csetting and src :: nid
  assumes "tree_ok S (ct_z c) T" "n \<in> nodes_of T" "can_check c n" "checks_above c T n v"
  defines "d \<equiv> set_parent C n v src c"
  shows "ok_box d n" "m \<in> nodes_of T \<Longrightarrow> n \<notin> set (child_list (ct_z c) m) \<Longrightarrow> ok_box d m"
    "getParentNode (ct_z c) n = Some p \<Longrightarrow> p \<in> nodes_of T \<Longrightarrow> n \<in> set (child_list (ct_z c) p) \<Longrightarrow>
       (\<exists>s \<in> set (child_list (ct_z c) p). nodeChecked d s) = w \<Longrightarrow> checks_above d T p w"
proof -
  have t: "touches {n} c d" unfolding d_def by (rule touches_set_parent)
  note cl = touches_tree(1) [OF t]
  have d: "nodeChecked d m = (if m = n then v else nodeChecked c m)" for m
    using set_parent_node(1) [of C n v src c] assms(3) touchesD(5) [OF t, of m] by (simp add: nodeChecked_def d_def)
  have own: "m \<notin> set (child_list (ct_z c) m)" if "m \<in> nodes_of T" for m by (rule not_own_child [OF assms(1) that])
  show n: "ok_box d n" using assms(4) own [OF assms(2)] by (auto simp: ok_box_def checks_above_def cl d)
  show other: "ok_box d m" if "m \<in> nodes_of T" "n \<notin> set (child_list (ct_z c) m)" for m
  proof (cases "m = n")
    case False
    then have "ok_box d m = ok_box c m" using that by (intro ok_box_frame [OF t]) auto
    then show ?thesis using assms(4) that False by (simp add: checks_above_def)
  qed (simp add: n)
  assume p: "getParentNode (ct_z c) n = Some p" "p \<in> nodes_of T" "n \<in> set (child_list (ct_z c) p)"
    and w: "(\<exists>s \<in> set (child_list (ct_z c) p). nodeChecked d s) = w"
  have ok: "ok_box d m" if "m \<in> nodes_of T" "m \<noteq> p" for m
  proof -
    have "n \<notin> set (child_list (ct_z c) m)" using child_parent(1) [OF assms(1) that(1), of n] p(1) that(2) by auto
    then show ?thesis by (rule other [OF that(1)])
  qed
  have "(\<exists>s \<in> set (child_list (ct_z d) m). s \<noteq> p \<and> nodeChecked d s) \<longrightarrow> nodeChecked d m"
    if "m \<in> nodes_of T" "m \<noteq> p" "p \<in> set (child_list (ct_z d) m)" for m
    using ok [OF that(1,2)] that(3) by (auto simp: ok_box_def)
  then show "checks_above d T p w" using ok w by (auto simp: checks_above_def cl)
qed

lemma setParentNodeCheckBox_checks:
  assumes "tree_ok S (ct_z c) T" "n \<in> nodes_of T" "zn_level (zt_heap (ct_z c) n) < k"
  shows "\<exists>c'. setParentNodeCheckBox k C n v src c = Some c' \<and> touches (ups (ct_z c) n) c c' \<and> settled_box C c' n \<and>
    nodeChecked c' n = (if can_check c n then v else nodeChecked c n) \<and>
    ((\<forall>m \<in> nodes_of T. can_check c m) \<and> checks_above c T n v \<longrightarrow> (\<forall>m \<in> nodes_of T. ok_box c' m))"
  using assms
proof (induction k arbitrary: n c)
  case (Suc k)
  define d where "d = set_parent C n v src c"
  have t: "touches {n} c d" unfolding d_def by (rule touches_set_parent)
  have tree: "tree_ok S (ct_z d) T" by (rule touches_tree_ok [OF t Suc.prems(1)])
  have own: "n \<notin> set (child_list (ct_z c) n)" by (rule not_own_child [OF Suc.prems(1,2)])
  have sd: "settled_box C d n" unfolding d_def by (rule set_parent_settled [OF own])
  have vd: "nodeChecked d n = (if can_check c n then v else nodeChecked c n)" unfolding d_def by (rule set_parent_node)
  note same = touchesD(1) [OF t] touches_tree(2,3) [OF t]
  show ?case
  proof (rule parent_cases [OF Suc.prems(1,2)])
    assume none: "\<not> truthy (zn_parentTId (zt_heap (ct_z c) n))" "getParentNode (ct_z c) n = None" "ancestors (ct_z c) n = {}"
    have "n \<notin> set (child_list (ct_z c) m)" if "m \<in> nodes_of T" for m using child_parent(1) [OF Suc.prems(1) that] none(2) by auto
    then have "(\<forall>m \<in> nodes_of T. can_check c m) \<and> checks_above c T n v \<longrightarrow> (\<forall>m \<in> nodes_of T. ok_box d m)"
      using set_parent_step(2) [OF Suc.prems(1,2), of v _ C src] Suc.prems(2) unfolding d_def by blast
    then show ?thesis using none sd vd t by (simp add: d_def [symmetric] same ups_above Let_def)
  next
    fix p assume p: "truthy (zn_parentTId (zt_heap (ct_z c) n))" "getParentNode (ct_z c) n = Some p" "p \<in> nodes_of T"
      "n \<in> set (child_list (ct_z c) p)" "zn_level (zt_heap (ct_z c) n) = Suc (zn_level (zt_heap (ct_z c) p))"
      "ancestors (ct_z c) n = ups (ct_z c) p"
    obtain cs where cs: "nodeChildren (ct_z c) p = Some cs" "child_list (ct_z c) p = cs"
      using p(4) by (cases "nodeChildren (ct_z c) p") (simp_all add: child_list_def)
    have call: "setParentNodeCheckBox (Suc k) C n v src c =
        (if \<not> v \<and> (\<exists>s \<in> set cs. keeps_parent (ct_node d s)) then Some d else setParentNodeCheckBox k C p v src d)"
      using p(1,2) cs(1) by (simp add: d_def [symmetric] same Let_def)
    show ?thesis
    proof (cases "\<not> v \<and> (\<exists>s \<in> set cs. keeps_parent (ct_node d s))")
      case True
      have "ok_box d m" if a: "\<forall>m \<in> nodes_of T. can_check c m" "checks_above c T n v" and m: "m \<in> nodes_of T" for m
      proof (cases "n \<in> set (child_list (ct_z c) m)")
        case True
        then have m': "m = p" using child_parent(1) [OF Suc.prems(1) m] p(2) by simp
        obtain s where s: "s \<in> set cs" "keeps_parent (ct_node d s)" using \<open>\<not> v \<and> _\<close> by blast
        have "s \<in> nodes_of T" using child_parent(3) [OF Suc.prems(1) p(3)] s(1) cs(2) by simp
        then have "can_check d s" using a(1) touchesD(6) [OF t] by simp
        then have c: "nodeChecked d s" using s(2) by (auto simp: keeps_parent_def can_check_def nodeChecked_def)
        then have sn: "s \<noteq> n" using vd a(1) Suc.prems(2) \<open>\<not> v \<and> _\<close> by auto
        have pn: "p \<noteq> n" using own p(4) by auto
        have "nodeChecked c s" using c touchesD(5) [OF t, of s] sn by (simp add: nodeChecked_def)
        then have "nodeChecked c p" using checks_above_sibling [OF a(2) p(3) pn p(4)] s(1) sn cs(2) by simp
        then have "nodeChecked d p" using touchesD(5) [OF t, of p] pn by (simp add: nodeChecked_def)
        then show ?thesis using c s(1) cs(2) by (auto simp: m' ok_box_def touches_tree(1) [OF t])
      qed (use set_parent_step(2) [OF Suc.prems(1,2) _ a(2) m, of C src] a(1) Suc.prems(2) in \<open>auto simp: d_def\<close>)
      then show ?thesis
        using True call sd vd touches_mono [OF t, of "ups (ct_z c) n"] by (auto simp: ups_above)
    next
      case False
      obtain c' where c': "setParentNodeCheckBox k C p v src d = Some c'" "touches (ups (ct_z c) p) d c'"
        "(\<forall>m \<in> nodes_of T. can_check d m) \<and> checks_above d T p v \<longrightarrow> (\<forall>m \<in> nodes_of T. ok_box c' m)"
        using Suc.IH [OF tree p(3)] p(5) Suc.prems(3) by (auto simp: same touches_above [OF t])
      have tc: "touches (ups (ct_z c) n) c c'"
        by (rule touches_trans [OF touches_mono [OF t] touches_mono [OF c'(2)]]) (auto simp: ups_above [of _ n] p(6))
      note off = off_ups [OF Suc.prems(1,2) p(3,5)]
      have "settled_box C c' n"
        using settled_frame [OF c'(2)] off sd by (simp add: touches_tree(1) [OF t])
      moreover have "nodeChecked c' n = nodeChecked d n" using touchesD(5) [OF c'(2) off(1)] by (simp add: nodeChecked_def)
      moreover have "ok_box c' m" if a: "\<forall>m \<in> nodes_of T. can_check c m" "checks_above c T n v" and m: "m \<in> nodes_of T" for m
      proof -
        have can: "\<forall>m \<in> nodes_of T. can_check d m" using a(1) touchesD(6) [OF t] by simp
        have "(\<exists>s \<in> set (child_list (ct_z c) p). nodeChecked d s) = v"
        proof (cases v)
          case True
          then show ?thesis using vd a(1) Suc.prems(2) p(4) by auto
        next
          case v: False
          then have "\<forall>s \<in> set cs. \<not> keeps_parent (ct_node d s)" using False by blast
          then have "\<forall>s \<in> set cs. \<not> nodeChecked d s"
            using can child_parent(3) [OF Suc.prems(1) p(3)] cs(2) by (auto simp: keeps_parent_def can_check_def nodeChecked_def)
          then show ?thesis using v cs(2) by simp
        qed
        then have "checks_above d T p v"
          using set_parent_step(3) [OF Suc.prems(1,2) _ a(2) p(2-4), of C src v] a(1) Suc.prems(2) by (simp add: d_def)
        then show ?thesis using c'(3) can m by blast
      qed
      ultimately show ?thesis using call False c'(1) tc vd by (auto simp del: setParentNodeCheckBox.simps)
    qed
  qed
qed simp

end
