(* ===== verification/ZTree_Click.thy ===== *)
theory ZTree_Click
  imports ZTree_Boxes
begin

text \<open>
  What a click on a box does to a whole tree without hidden, disabled or half-checked boxes: every box
  goes on showing the state of its children, and, as the widget is set up by default, the checked
  boxes are determined by the checked leaves, of which the click sets those below the box.
\<close>

section \<open>Trees of plain boxes\<close>

definition plain_box :: "cnode \<Rightarrow> bool" where
  "plain_box v \<longleftrightarrow> \<not> cn_nocheck v \<and> \<not> cn_chkDisabled v \<and> \<not> cn_halfCheck v"

definition plain :: "ctree \<Rightarrow> rose \<Rightarrow> bool" where
  "plain c T \<longleftrightarrow> (\<forall>m \<in> nodes_of T. plain_box (ct_node c m))"

definition settled_tree :: "csetting \<Rightarrow> ctree \<Rightarrow> rose \<Rightarrow> bool" where
  \<comment> \<open>making the flag of any box again changes nothing\<close>
  "settled_tree C c T \<longleftrightarrow> (\<forall>m \<in> nodes_of T. settled_box C c m)"

lemma plainD: "plain c T \<Longrightarrow> m \<in> nodes_of T \<Longrightarrow> can_check c m" "plain c T \<Longrightarrow> m \<in> nodes_of T \<Longrightarrow> \<not> cn_halfCheck (ct_node c m)"
  by (auto simp: plain_def plain_box_def can_check_def)

lemma touches_plain: "touches N c c' \<Longrightarrow> plain c T \<Longrightarrow> plain c' T"
  unfolding plain_def plain_box_def using touchesD(7-9) by metis

section \<open>Below the box\<close>

lemma children_uniform:
  assumes "cs_chkStyle C = ''checkbox''" "child_list (ct_z c) n \<noteq> []"
    "\<forall>s \<in> set (child_list (ct_z c) n). plain_box (ct_node c s) \<and> nodeChecked c s = v \<and>
      cn_childState (ct_node c s) \<in> {-1, if v then 2 else 0}"
  shows "children_state C c n = (if v then 2 else 0)"
proof -
  have "box_state (ct_node c s) = (if v then 2 else 0)" if "s \<in> set (child_list (ct_z c) n)" for s
  proof -
    have "plain_box (ct_node c s)" "cn_checked (ct_node c s) = v" "cn_childState (ct_node c s) = -1 \<or> cn_childState (ct_node c s) = (if v then 2 else 0)"
      using assms(3) that by (auto simp: nodeChecked_def)
    then show ?thesis by (cases v) (auto simp: box_state_def plain_box_def)
  qed
  then have b: "box_state ` set (map (ct_node c) (child_list (ct_z c) n)) = {if v then 2 else 0}"
    using assms(2) by (cases "child_list (ct_z c) n") auto
  show ?thesis
    unfolding children_state_def by (subst chk_flag_box [OF assms(1)]) (use b in \<open>simp_all add: summary_def\<close>)
qed

lemma sub_tree_closed:
  assumes "tree_ok S z T" "shape z t" "set (nids t) \<subseteq> nodes_of T" "m \<in> nodes_of T" "s \<in> set (child_list z m)" "s \<in> set (nids t)"
  shows "s = rid t \<or> m \<in> set (nids t)"
proof -
  from child_exists [OF assms(2,6)] consider "s = rid t" | p where "p \<in> set (nids t)" "s \<in> set (child_list z p)" by blast
  then show ?thesis
  proof cases
    case (2 p)
    have "p = m"
      using one_parent [OF tree_okD(2,3) [OF assms(1)] _ _ 2(2) assms(5)] 2(1) assms(3,4) by blast
    then show ?thesis using 2(1) by simp
  qed simp
qed

lemma sub_tree_level:
  assumes "tree_ok S z T" "shape z t" "set (nids t) \<subseteq> nodes_of T" "m \<in> set (nids t)"
  shows "m = rid t \<or> zn_level (zt_heap z (rid t)) < zn_level (zt_heap z m)"
  using assms(2-4)
proof (induction t)
  case (Rose n ts)
  from Rose.prems(3) consider "m = n" | t where "t \<in> set ts" "m \<in> set (nids t)" by (auto simp: in_forest_nids)
  then show ?case
  proof cases
    case (2 t)
    have "set (nids t) \<subseteq> set (nids (Rose n ts))" using 2(1) by (auto simp: in_forest_nids)
    then have t: "shape z t" "set (nids t) \<subseteq> nodes_of T" using Rose.prems(1,2) 2(1) by (simp, blast)
    have "rid t \<in> set (child_list z n)" "n \<in> nodes_of T" using Rose.prems 2(1) by auto
    then have "zn_level (zt_heap z (rid t)) = Suc (zn_level (zt_heap z n))" using child_parent(2) [OF assms(1)] by blast
    then show ?thesis using Rose.IH [OF 2(1) t 2(2)] by auto
  qed simp
qed

lemma setSon_settles:
  assumes "tree_ok S (ct_z c) T" "n \<in> nodes_of T"
  obtains t c' where "rid t = n" "shape (ct_z c) t" "set (nids t) \<subseteq> nodes_of T" "leaves_below n T = set (leaves t)"
    "setSonNodeCheckBox (depth_bound c) C n v src c = Some c'" "touches (set (nids t)) c c'"
    "\<forall>m \<in> set (nids t). can_check c m \<longrightarrow> nodeChecked c' m = v"
    "cs_chkStyle C = ''checkbox'' \<and> plain c T \<longrightarrow> (\<forall>m \<in> set (nids t). settled_box C c' m)"
proof -
  obtain t where t: "rid t = n" "shape (ct_z c) t" "height t \<le> height T" "set (nids t) \<subseteq> set (nids T)"
    "distinct (nids T) \<Longrightarrow> distinct (nids t) \<and> leaves_below n T = set (leaves t)"
    using sub_tree [OF tree_okD(2) [OF assms(1)]] assms(2) by blast
  have d: "distinct (nids t)" "leaves_below n T = set (leaves t)" using t(5) tree_okD(3) [OF assms(1)] by auto
  have n0: "0 \<notin> set (nids t)"
  proof
    assume "0 \<in> set (nids t)"
    moreover have "0 \<noteq> rid t" using assms(2) t(1) by auto
    ultimately obtain p where "p \<in> set (nids t)" "0 \<in> set (child_list (ct_z c) p)" using child_exists [OF t(2)] by blast
    then show False using root_no_child [OF assms(1)] t(4) by blast
  qed
  then have in_T: "set (nids t) \<subseteq> nodes_of T" using t(4) by auto
  have f: "fits (depth_bound c) (ct_z c) [t]" using t(2,3) height_next [OF assms(1)] by (simp add: fits_def depth_bound_def)
  obtain c' where c': "foldM (\<lambda>s. setSonNodeCheckBox (depth_bound c) C s v src) (map rid [t]) c = Some c'"
    "touches (set (forest_nids [t])) c c'"
    "\<forall>m \<in> set (forest_nids [t]). nodeChecked c' m = (if can_check c m then v else nodeChecked c m)"
    "(\<forall>m \<in> set (forest_nids [t]). can_check c m) \<longrightarrow>
      (\<forall>m \<in> set (forest_nids [t]). cn_childState (ct_node c' m) = (if child_list (ct_z c) m = [] then -1 else if v then 2 else 0))"
    using setSonNodeCheckBox_checks [OF f, of c C v src] d(1) n0 by (auto simp: forest_nids_def)
  have one: "forest_nids [t] = nids t" by (simp add: forest_nids_def)
  have call: "setSonNodeCheckBox (depth_bound c) C n v src c = Some c'"
    using c'(1) t(1) by (auto split: option.splits simp del: setSonNodeCheckBox.simps)
  have settled: "settled_box C c' m" if a: "cs_chkStyle C = ''checkbox''" "plain c T" "m \<in> set (nids t)" for m
  proof -
    have can: "can_check c s" if "s \<in> set (nids t)" for s using plainD(1) [OF a(2)] in_T that by blast
    have p': "plain c' T" by (rule touches_plain [OF c'(2) a(2)])
    have st: "cn_childState (ct_node c' s) = (if child_list (ct_z c) s = [] then -1 else if v then 2 else 0)" "nodeChecked c' s = v"
      if "s \<in> set (nids t)" for s using c'(3,4) can that unfolding one by auto
    have kids: "set (child_list (ct_z c') m) \<subseteq> set (nids t)"
      using children_inside [OF t(2) a(3)] touches_tree(1) [OF c'(2)] by simp
    have "children_state C c' m = (if child_list (ct_z c) m = [] then -1 else if v then 2 else 0)"
    proof (cases "child_list (ct_z c) m = []")
      case True
      then show ?thesis by (simp add: children_state_def touches_tree(1) [OF c'(2)])
    next
      case False
      have "children_state C c' m = (if v then 2 else 0)"
      proof (rule children_uniform [OF a(1)])
        show "child_list (ct_z c') m \<noteq> []" using False touches_tree(1) [OF c'(2)] by simp
        show "\<forall>s \<in> set (child_list (ct_z c') m). plain_box (ct_node c' s) \<and> nodeChecked c' s = v \<and>
            cn_childState (ct_node c' s) \<in> {-1, if v then 2 else 0}"
          using st kids p' in_T unfolding plain_def by fastforce
      qed
      then show ?thesis using False by simp
    qed
    then show ?thesis using st(1) [OF a(3)] by (simp add: settled_box_def)
  qed
  show thesis
    by (rule that [OF t(1,2) in_T d(2) call c'(2) [unfolded one]]) (use c'(3) settled in \<open>auto simp: one\<close>)
qed

section \<open>The relation of a checked box to the others\<close>

lemma above_inner:
  assumes "tree_ok S z T" "n \<in> nodes_of T" "m \<in> ancestors z n"
  shows "m \<in> nodes_of T" "child_list z m \<noteq> []" "zn_level (zt_heap z m) < zn_level (zt_heap z n)"
proof -
  obtain p where p: "p \<in> nodes_of T" "n \<in> set (child_list z p)" "zn_level (zt_heap z n) = Suc (zn_level (zt_heap z p))" "m \<in> ups z p"
    by (rule parent_cases [OF assms(1,2)]) (use assms(3) in auto)
  show "m \<in> nodes_of T" "zn_level (zt_heap z m) < zn_level (zt_heap z n)" using ups_level [OF assms(1) p(1,4)] p(3) by auto
  have "m = p \<or> (\<exists>a \<in> nodes_of T. getParentNode z a = Some m)"
    using p(4) unfolding ups_def mem_Collect_eq
  proof (cases rule: rtranclp.cases)
    case (rtrancl_into_rtrancl b)
    then have "b \<in> ups z p" by (simp add: ups_def)
    then show ?thesis using ups_level(1) [OF assms(1) p(1)] rtrancl_into_rtrancl(2) by blast
  qed simp
  then show "child_list z m \<noteq> []"
  proof
    assume "\<exists>a \<in> nodes_of T. getParentNode z a = Some m"
    then obtain a where a: "a \<in> nodes_of T" "getParentNode z a = Some m" by blast
    have "a \<in> set (child_list z m)" by (rule parent_cases [OF assms(1) a(1)]) (use a(2) in auto)
    then show ?thesis by auto
  qed (use p(2) in auto)
qed

lemma sub_tree_above:
  assumes "tree_ok S z T" "n \<in> nodes_of T" "shape z t" "rid t = n" "set (nids t) \<subseteq> nodes_of T"
  shows "set (nids t) \<inter> ancestors z n = {}"
  using sub_tree_level [OF assms(1,3,5)] above_inner(3) [OF assms(1,2)] assms(4) by fastforce

text \<open>The first phase, down from the box.\<close>

lemma check_down:
  assumes "tree_ok S (ct_z c) T" "n \<in> nodes_of T" "cs_chkStyle C = ''checkbox''" "plain c T"
    "settled_off C c T (ancestors (ct_z c) n)"
  obtains t d where "rid t = n" "shape (ct_z c) t" "set (nids t) \<subseteq> nodes_of T" "leaves_below n T = set (leaves t)"
    "(if child_list (ct_z c) n = [] \<or> CHR ''s'' \<in> set ty then setSonNodeCheckBox (depth_bound c) C n v src c else Some c) = Some d"
    "touches (set (nids t)) c d" "CHR ''s'' \<in> set ty \<longrightarrow> (\<forall>m \<in> set (nids t). nodeChecked d m = v)"
    "settled_off C d T (ancestors (ct_z c) n)"
proof -
  obtain t e where t: "rid t = n" "shape (ct_z c) t" "set (nids t) \<subseteq> nodes_of T" "leaves_below n T = set (leaves t)"
    and e: "setSonNodeCheckBox (depth_bound c) C n v src c = Some e" "touches (set (nids t)) c e"
    "\<forall>m \<in> set (nids t). can_check c m \<longrightarrow> nodeChecked e m = v"
    and e4: "cs_chkStyle C = ''checkbox'' \<and> plain c T \<longrightarrow> (\<forall>m \<in> set (nids t). settled_box C e m)"
    by (rule setSon_settles [OF assms(1,2), where C = C and v = v and src = src])
  have s: "settled_box C e m" if m: "m \<in> nodes_of T" "m \<notin> ancestors (ct_z c) n" for m
  proof (cases "m \<in> set (nids t)")
    case False
    have "s \<notin> set (nids t)" if "s \<in> set (child_list (ct_z c) m)" for s
    proof
      assume "s \<in> set (nids t)"
      then have "s = n" using sub_tree_closed [OF assms(1) t(2,3) m(1) that] False t(1) by blast
      then have "m \<in> ancestors (ct_z c) n" using child_ups [OF assms(1) m(1) that, of n] by (simp add: ups_above)
      with m(2) show False by simp
    qed
    then have "settled_box C e m = settled_box C c m" using False by (intro settled_frame [OF e(2)]) auto
    then show ?thesis using settled_offD [OF assms(5) m] by simp
  qed (use e4 assms(3,4) in simp)
  show thesis
  proof (cases "child_list (ct_z c) n = [] \<or> CHR ''s'' \<in> set ty")
    case True
    show ?thesis
    proof (rule that [OF t, of e])
      show "CHR ''s'' \<in> set ty \<longrightarrow> (\<forall>m \<in> set (nids t). nodeChecked e m = v)"
        using e(3) plainD(1) [OF assms(4)] t(3) by blast
      show "settled_off C e T (ancestors (ct_z c) n)" using s by (simp add: settled_off_def)
    qed (use True e(1,2) in simp_all)
  next
    case False
    show ?thesis
      by (rule that [OF t, of c]) (use False assms(5) in simp_all)
  qed
qed

text \<open>The second phase, up from the box, and what follows it.\<close>

lemma leaves_childless: "shape z t \<Longrightarrow> set (leaves t) = {m \<in> set (nids t). child_list z m = []}"
proof (induction t)
  case (Rose n ts)
  show ?case
  proof (cases "ts = []")
    case False
    then have "set (leaves (Rose n ts)) = (\<Union>t \<in> set ts. {m \<in> set (nids t). child_list z m = []})" using Rose by auto
    also have "\<dots> = {m \<in> set (nids (Rose n ts)). child_list z m = []}" using False Rose.prems by (auto simp: in_forest_nids)
    finally show ?thesis .
  qed (use Rose.prems in auto)
qed

definition toggled :: "ctree \<Rightarrow> rose \<Rightarrow> nid \<Rightarrow> bool" where
  \<comment> \<open>the boxes agree with their children, but for the box itself\<close>
  "toggled c T n \<longleftrightarrow> (\<forall>m \<in> nodes_of T. m \<noteq> n \<longrightarrow>
     (if n \<in> set (child_list (ct_z c) m)
      then (\<exists>s \<in> set (child_list (ct_z c) m). s \<noteq> n \<and> nodeChecked c s) \<longrightarrow> nodeChecked c m
      else ok_box c m))"

lemma toggledD:
  assumes "toggled c T n" "m \<in> nodes_of T" "m \<noteq> n"
  shows "n \<notin> set (child_list (ct_z c) m) \<Longrightarrow> ok_box c m"
    "n \<in> set (child_list (ct_z c) m) \<Longrightarrow> s \<in> set (child_list (ct_z c) m) \<Longrightarrow> s \<noteq> n \<Longrightarrow> nodeChecked c s \<Longrightarrow> nodeChecked c m"
proof -
  have "if n \<in> set (child_list (ct_z c) m)
      then (\<exists>s \<in> set (child_list (ct_z c) m). s \<noteq> n \<and> nodeChecked c s) \<longrightarrow> nodeChecked c m else ok_box c m"
    using assms unfolding toggled_def by blast
  then show "n \<notin> set (child_list (ct_z c) m) \<Longrightarrow> ok_box c m"
    "n \<in> set (child_list (ct_z c) m) \<Longrightarrow> s \<in> set (child_list (ct_z c) m) \<Longrightarrow> s \<noteq> n \<Longrightarrow> nodeChecked c s \<Longrightarrow> nodeChecked c m" by auto
qed

lemma down_checks_above:
  assumes "tree_ok S (ct_z c) T" "n \<in> nodes_of T" "toggled c T n" "rid t = n" "shape (ct_z c) t" "set (nids t) \<subseteq> nodes_of T"
    "touches (set (nids t)) c d" "\<forall>m \<in> set (nids t). nodeChecked d m = v"
  shows "checks_above d T n v"
proof -
  note cl = touches_tree(1) [OF assms(7)]
  have inside: "set (child_list (ct_z c) m) \<subseteq> set (nids t)" if "m \<in> set (nids t)" for m
    by (rule children_inside [OF assms(5) that])
  have off: "nodeChecked d m = nodeChecked c m" if "m \<notin> set (nids t)" for m
    using touchesD(5) [OF assms(7) that] by (simp add: nodeChecked_def)
  have nt: "n \<in> set (nids t)" using rid_nids [of t] assms(4) by simp
  have "(\<exists>s \<in> set (child_list (ct_z d) n). nodeChecked d s) = v" if "child_list (ct_z d) n \<noteq> []"
  proof -
    have "hd (child_list (ct_z d) n) \<in> set (child_list (ct_z d) n)" using that by simp
    then obtain s where "s \<in> set (child_list (ct_z d) n)" by blast
    then show ?thesis using inside [OF nt] assms(8) by (auto simp: cl)
  qed
  moreover have "if n \<in> set (child_list (ct_z d) m)
      then (\<exists>s \<in> set (child_list (ct_z d) m). s \<noteq> n \<and> nodeChecked d s) \<longrightarrow> nodeChecked d m else ok_box d m"
    if m: "m \<in> nodes_of T" "m \<noteq> n" for m
  proof (cases "m \<in> set (nids t)")
    case True
    have "n \<notin> set (child_list (ct_z c) m)"
      using child_ups [OF assms(1) m(1), of n n] sub_tree_above [OF assms(1,2,5,4,6)] True by (auto simp: ups_above)
    moreover have "ok_box d m"
    proof (cases "child_list (ct_z d) m")
      case (Cons a as)
      then have "nodeChecked d a = v" using inside [OF True] assms(8) by (auto simp: cl)
      moreover have "\<forall>s \<in> set (child_list (ct_z d) m). nodeChecked d s = v" using inside [OF True] assms(8) by (auto simp: cl)
      ultimately show ?thesis using True assms(8) Cons by (auto simp: ok_box_def)
    qed (simp add: ok_box_def)
    ultimately show ?thesis by (simp add: cl)
  next
    case False
    have kids: "s = n \<or> s \<notin> set (nids t)" if "s \<in> set (child_list (ct_z c) m)" for s
      using sub_tree_closed [OF assms(1,5,6) m(1) that] False assms(4) by blast
    show ?thesis
    proof (cases "n \<in> set (child_list (ct_z c) m)")
      case True
      then show ?thesis using toggledD(2) [OF assms(3) m True] kids off False by (auto simp: cl)
    next
      case n: False
      have "ok_box d m = ok_box c m" using kids n False by (intro ok_box_frame [OF assms(7)]) auto
      then show ?thesis using toggledD(1) [OF assms(3) m n] n by (simp add: cl)
    qed
  qed
  ultimately show ?thesis by (simp add: checks_above_def)
qed

definition both :: "string \<Rightarrow> bool" where
  \<comment> \<open>a setting that checks the nodes below and the parents\<close>
  "both ty \<longleftrightarrow> {CHR ''p'', CHR ''s''} \<subseteq> set ty"

lemma check_box_settles:
  assumes "tree_ok S (ct_z c) T" "n \<in> nodes_of T" "cs_chkStyle C = ''checkbox''" "plain c T"
    "settled_off C c T (ancestors (ct_z c) n)"
  shows "\<exists>c'. check_box C n c = Some c' \<and> touches (nodes_of T) c c' \<and>
    settled_off C c' T (ancestors (ct_z c) n) \<and>
    (both (if nodeChecked c n then cs_Y C else cs_N C) \<and> toggled c T n \<longrightarrow>
      (\<forall>m \<in> nodes_of T. ok_box c' m \<and> (child_list (ct_z c) m = [] \<longrightarrow>
        nodeChecked c' m = (if m \<in> leaves_below n T then nodeChecked c n else nodeChecked c m))))"
proof -
  define v ty where "v = nodeChecked c n" and "ty = (if v then cs_Y C else cs_N C)"
  obtain t d where t: "rid t = n" "shape (ct_z c) t" "set (nids t) \<subseteq> nodes_of T" "leaves_below n T = set (leaves t)"
    and d: "(if child_list (ct_z c) n = [] \<or> CHR ''s'' \<in> set ty then setSonNodeCheckBox (depth_bound c) C n v n c else Some c) = Some d"
      "touches (set (nids t)) c d" "CHR ''s'' \<in> set ty \<longrightarrow> (\<forall>m \<in> set (nids t). nodeChecked d m = v)"
      "settled_off C d T (ancestors (ct_z c) n)"
    by (rule check_down [OF assms, where ty = ty and v = v and src = n])
  have tree: "tree_ok S (ct_z d) T" by (rule touches_tree_ok [OF d(2) assms(1)])
  have pd: "plain d T" by (rule touches_plain [OF d(2) assms(4)])
  note anc = touches_above [OF d(2)]
  have ups_T: "ups (ct_z c) n \<subseteq> nodes_of T" using ups_level(1) [OF assms(1,2)] by blast
  show ?thesis
  proof (cases "CHR ''p'' \<in> set ty")
    case False
    then have "check_box C n c = Some d" using d(1) by (simp add: check_box_def Let_def v_def [symmetric] ty_def [symmetric])
    then show ?thesis
      using False d(4) touches_mono [OF d(2) t(3)] by (auto simp: both_def v_def [symmetric] ty_def [symmetric])
  next
    case True
    have lv: "zn_level (zt_heap (ct_z d) n) < depth_bound c"
      using level_bound [OF tree assms(2)] touches_tree(6) [OF d(2)] by (simp add: depth_bound_def)
    obtain c' where c': "setParentNodeCheckBox (depth_bound c) C n v n d = Some c'" "touches (ups (ct_z c) n) d c'" "settled_box C c' n"
      "nodeChecked c' n = (if can_check d n then v else nodeChecked d n)"
      "(\<forall>m \<in> nodes_of T. can_check d m) \<and> checks_above d T n v \<longrightarrow> (\<forall>m \<in> nodes_of T. ok_box c' m)"
      using setParentNodeCheckBox_checks [OF tree assms(2) lv, of C v n] unfolding anc by blast
    have call: "check_box C n c = Some c'"
      using d(1) c'(1) True touches_tree(6) [OF d(2)] by (simp add: check_box_def Let_def v_def [symmetric] ty_def [symmetric])
    have all: "touches (nodes_of T) c c'" by (rule touches_trans [OF touches_mono [OF d(2) t(3)] touches_mono [OF c'(2) ups_T]])
    have settled: "settled_box C c' m" if m: "m \<in> nodes_of T" "m \<notin> ancestors (ct_z c) n" for m
    proof (cases "m = n")
      case False
      have "set (child_list (ct_z d) m) \<inter> ups (ct_z c) n = {}"
        using child_ups [OF tree, of m _ n] m unfolding anc by blast
      then have "settled_box C c' m = settled_box C d m" using m False by (intro settled_frame [OF c'(2)]) (auto simp: ups_above)
      then show ?thesis using settled_offD [OF d(4) m] by simp
    qed (use c'(3) in simp)
    have spec: "ok_box c' m \<and> (child_list (ct_z c) m = [] \<longrightarrow> nodeChecked c' m = (if m \<in> leaves_below n T then v else nodeChecked c m))"
      if b: "both ty" "toggled c T n" and m: "m \<in> nodes_of T" for m
    proof
      have dv: "\<forall>m \<in> set (nids t). nodeChecked d m = v" using d(3) b(1) by (simp add: both_def)
      have "checks_above d T n v" by (rule down_checks_above [OF assms(1,2) b(2) t(1-3) d(2) dv])
      then show "ok_box c' m" using c'(5) plainD(1) [OF pd] m by blast
      show "child_list (ct_z c) m = [] \<longrightarrow> nodeChecked c' m = (if m \<in> leaves_below n T then v else nodeChecked c m)"
      proof
        assume leaf: "child_list (ct_z c) m = []"
        have lb: "m \<in> leaves_below n T \<longleftrightarrow> m \<in> set (nids t)" using leaves_childless [OF t(2)] leaf by (simp add: t(4))
        have "nodeChecked c' m = nodeChecked d m"
        proof (cases "m = n")
          case True
          then show ?thesis using c'(4) plainD(1) [OF pd] assms(2) dv rid_nids [of t] t(1) by simp
        next
          case False
          then have "m \<notin> ups (ct_z c) n" using above_inner(2) [OF assms(1,2)] leaf by (auto simp: ups_above)
          then show ?thesis using touchesD(5) [OF c'(2)] by (simp add: nodeChecked_def)
        qed
        then show "nodeChecked c' m = (if m \<in> leaves_below n T then v else nodeChecked c m)"
          using lb dv touchesD(5) [OF d(2), of m] by (simp add: nodeChecked_def)
      qed
    qed
    show ?thesis
      by (intro exI [of _ c'] conjI call all) (use settled spec in \<open>auto simp: v_def [symmetric] ty_def [symmetric] settled_off_def\<close>)
  qed
qed

end
