(* ===== verification/ZTree_Radio.thy ===== *)
theory ZTree_Radio
  imports ZTree_Click
begin

text \<open>
  Radio buttons, in the whole tree or among the children of a node, and what is common to a click on
  a box of either style: the relation to the other boxes, then the repair up to the root.
\<close>

section \<open>Unchecking one box\<close>

lemma off_box:
  assumes "tree_ok S (ct_z c) T" "p \<in> nodes_of T" "settled_off C c T X" "touches {p} c d"
    "cn_childState (ct_node d p) = cn_childState (ct_node c p)"
  shows "settled_off C d T (ancestors (ct_z c) p \<union> X)"
  unfolding settled_off_def
proof (intro ballI impI)
  fix m assume m: "m \<in> nodes_of T" "m \<notin> ancestors (ct_z c) p \<union> X"
  have s: "settled_box C c m" by (rule settled_offD [OF assms(3) m(1)]) (use m(2) in simp)
  have k: "set (child_list (ct_z c) m) \<inter> {p} = {}"
    using child_ups [OF assms(1) m(1), of p p] m(2) by (auto simp: ups_above)
  have "cn_childState (ct_node d m) = cn_childState (ct_node c m)"
    using assms(5) touchesD(5) [OF assms(4), of m] by (cases "m = p") auto
  then show "settled_box C d m" using s children_state_frame [OF assms(4) k, of C] by (simp add: settled_box_def)
qed

lemma touches_radio: "touches N c (c\<lparr>ct_radio := r\<rparr>)"
  by (auto simp: touches_def intro: exI [of _ "zt_log (ct_z c)"])

definition uncheck :: "csetting \<Rightarrow> nid \<Rightarrow> nid list \<Rightarrow> ctree \<Rightarrow> ctree" where
  "uncheck C p r c = setChkClass C p ((set_nodeChecked p False c)\<lparr>ct_radio := r\<rparr>)"

lemma uncheck_simps:
  "touches {p} c (uncheck C p r c)" "cn_childState (ct_node (uncheck C p r c) m) = cn_childState (ct_node c m)"
  "nodeChecked (uncheck C p r c) m = (m \<noteq> p \<and> nodeChecked c m)" "ct_radio (uncheck C p r c) = r"
proof -
  show "touches {p} c (uncheck C p r c)" unfolding uncheck_def
    by (rule touches_trans [OF touches_trans [OF touches_set_nodeChecked touches_radio] touches_setChkClass])
  show "cn_childState (ct_node (uncheck C p r c) m) = cn_childState (ct_node c m)"
    "nodeChecked (uncheck C p r c) m = (m \<noteq> p \<and> nodeChecked c m)"
    by (simp_all add: uncheck_def nodeChecked_def check_simps)
  show "ct_radio (uncheck C p r c) = r" by (simp add: uncheck_def setChkClass_def Let_def in_z_def)
qed

lemma radio_set_nodeChecked: "ct_radio (set_nodeChecked n b c) = ct_radio c"
  by (simp add: set_nodeChecked_def upd_check_def)

section \<open>One box of the tree\<close>

lemma same_parent_ancestors:
  "zn_parentTId (zt_heap z p) = zn_parentTId (zt_heap z n) \<Longrightarrow> ancestors z p = ancestors z n"
  by (simp add: ancestors_def getParentNode_def)

lemma radio_all_checks:
  assumes "tree_ok S (ct_z c) T" "n \<in> nodes_of T" "i \<le> length (ct_radio c)" "set (ct_radio c) \<subseteq> nodes_of T"
    "settled_off C c T (ancestors (ct_z c) n)"
  shows "\<exists>c'. radio_all C n i c = Some c' \<and> touches (nodes_of T) c c' \<and> settled_off C c' T (ancestors (ct_z c) n) \<and>
    set (ct_radio c') \<subseteq> set (ct_radio c) \<and>
    (\<forall>m. nodeChecked c' m = (nodeChecked c m \<and> (m = n \<or> m \<notin> set (take i (ct_radio c)))))"
  using assms
proof (induction i arbitrary: c)
  case (Suc i)
  define L p where "L = ct_radio c" and "p = ct_radio c ! i"
  have "p \<in> set (ct_radio c)" using Suc.prems(3) by (simp add: p_def)
  then have p: "p \<in> nodes_of T" "take (Suc i) L = take i L @ [p]"
    using Suc.prems(3,4) by (blast, simp add: L_def p_def take_Suc_conv_app_nth)
  show ?case
  proof (cases "nodeChecked c p \<and> p \<noteq> n")
    case False
    obtain c' where c': "radio_all C n i c = Some c'" "touches (nodes_of T) c c'" "settled_off C c' T (ancestors (ct_z c) n)"
      "set (ct_radio c') \<subseteq> set (ct_radio c)" "\<forall>m. nodeChecked c' m = (nodeChecked c m \<and> (m = n \<or> m \<notin> set (take i (ct_radio c))))"
      using Suc.IH [OF Suc.prems(1,2) _ Suc.prems(4,5)] Suc.prems(3) by auto
    have "radio_all C n (Suc i) c = Some c'" using False c'(1) by (auto simp: p_def [symmetric] Let_def)
    moreover have "nodeChecked c' m = (nodeChecked c m \<and> (m = n \<or> m \<notin> set (take (Suc i) (ct_radio c))))" for m
      using c'(5) False p(2) by (auto simp: L_def)
    ultimately show ?thesis using c'(2-4) by blast
  next
    case True
    define d where "d = uncheck C p (take i L @ drop (Suc i) L) c"
    note u = uncheck_simps [where p = p and c = c and C = C and r = "take i L @ drop (Suc i) L", folded d_def]
    have td: "tree_ok S (ct_z d) T" by (rule touches_tree_ok [OF u(1) Suc.prems(1)])
    note anc = touches_above(1) [OF u(1)]
    have sd: "settled_off C d T (ancestors (ct_z d) p \<union> ancestors (ct_z c) n)"
      unfolding anc by (rule off_box [OF Suc.prems(1) p(1) Suc.prems(5) u(1,2)])
    have "\<exists>e. (if zn_parentTId (zt_heap (ct_z d) p) \<noteq> zn_parentTId (zt_heap (ct_z d) n)
        then repairParentChkClassWithSelf C (Some p) d else Some d) = Some e \<and> touches (nodes_of T) d e \<and>
        settled_off C e T (ancestors (ct_z c) n) \<and> ct_radio e = ct_radio d \<and> (\<forall>m. nodeChecked e m = nodeChecked d m)"
    proof (cases "zn_parentTId (zt_heap (ct_z d) p) = zn_parentTId (zt_heap (ct_z d) n)")
      case True
      then show ?thesis using sd same_parent_ancestors [OF True] anc by simp
    next
      case False
      obtain e where e: "repairParentChkClassWithSelf C (Some p) d = Some e" "touches (ups (ct_z d) p) d e"
        "\<forall>m. nodeChecked e m = nodeChecked d m" "ct_radio e = ct_radio d"
        "\<forall>X. settled_off C d T (ancestors (ct_z d) p \<union> X) \<longrightarrow> settled_off C e T X"
        using repairParentChkClassWithSelf_settles [OF td p(1), of C] by blast
      have "touches (nodes_of T) d e" by (rule touches_mono [OF e(2)]) (use ups_level(1) [OF td p(1)] in blast)
      moreover have "settled_off C e T (ancestors (ct_z c) n)" using e(5) sd by blast
      ultimately show ?thesis using False e(1,3,4) by simp
    qed
    then obtain e where e: "(if zn_parentTId (zt_heap (ct_z d) p) \<noteq> zn_parentTId (zt_heap (ct_z d) n)
        then repairParentChkClassWithSelf C (Some p) d else Some d) = Some e" "touches (nodes_of T) d e"
      "settled_off C e T (ancestors (ct_z c) n)" "ct_radio e = take i L @ drop (Suc i) L" "\<forall>m. nodeChecked e m = nodeChecked d m"
      using u(4) by metis
    have ce: "touches (nodes_of T) c e" by (rule touches_trans [OF touches_mono [OF u(1)] e(2)]) (use p(1) in simp)
    note anc' = touches_above(1) [OF ce]
    have len: "i \<le> length (ct_radio e)" using Suc.prems(3) by (simp add: e(4) L_def)
    have sub: "set (take i L @ drop (Suc i) L) \<subseteq> set L" using set_take_subset [of i L] set_drop_subset [of "Suc i" L] by auto
    then have in_T: "set (ct_radio e) \<subseteq> nodes_of T" using Suc.prems(4) by (simp add: e(4) L_def) blast
    obtain c' where c': "radio_all C n i e = Some c'" "touches (nodes_of T) e c'" "settled_off C c' T (ancestors (ct_z c) n)"
      "set (ct_radio c') \<subseteq> set (ct_radio e)" "\<forall>m. nodeChecked c' m = (nodeChecked e m \<and> (m = n \<or> m \<notin> set (take i (ct_radio e))))"
      using Suc.IH [OF touches_tree_ok [OF ce Suc.prems(1)] Suc.prems(2) len in_T] e(3) unfolding anc' by blast
    have "radio_all C n (Suc i) c = Option.bind (if zn_parentTId (zt_heap (ct_z d) p) \<noteq> zn_parentTId (zt_heap (ct_z d) n)
        then repairParentChkClassWithSelf C (Some p) d else Some d) (radio_all C n i)"
      using True by (simp add: p_def [symmetric] Let_def d_def uncheck_def L_def radio_set_nodeChecked)
    then have "radio_all C n (Suc i) c = Some c'" by (simp only: e(1) bind.bind_lunit c'(1))
    moreover have "touches (nodes_of T) c c'" by (rule touches_trans [OF ce c'(2)])
    moreover have "set (ct_radio c') \<subseteq> set (ct_radio c)" using subset_trans [OF c'(4) [unfolded e(4)] sub] by (simp only: L_def)
    moreover have "nodeChecked c' m = (nodeChecked c m \<and> (m = n \<or> m \<notin> set (take (Suc i) (ct_radio c))))" for m
    proof -
      have "take i (ct_radio e) = take i L" using Suc.prems(3) by (simp add: e(4) L_def)
      then show ?thesis using c'(5) e(5) u(3) p(2) True by (auto simp: L_def)
    qed
    ultimately show ?thesis using c'(3) by blast
  qed
qed simp

section \<open>One box among the children of a node\<close>

lemma siblings_of:
  assumes "tree_ok S z T" "n \<in> nodes_of T"
  obtains cs q where "siblings z n = Some cs" "n \<in> set cs" "set cs \<subseteq> nodes_of T" "\<forall>p \<in> set cs. ancestors z p = ancestors z n"
    "q \<in> set (nids T)" "cs = child_list z q"
proof -
  obtain q where q: "q \<in> set (nids T)" "n \<in> set (child_list z q)" "parent_of z n = Some q" by (rule tree_parent [OF assms])
  obtain cs where cs: "nodeChildren z q = Some cs" "child_list z q = cs"
    using q(2) by (cases "nodeChildren z q") (simp_all add: child_list_def)
  have "zn_parentTId (zt_heap z p) = (if q = 0 then None else zn_tId (zt_heap z q))" if "p \<in> set cs" for p
    using placedD(1) [OF tree_okD(5) [OF assms(1) q(1)]] that cs(2) by simp
  then have par: "zn_parentTId (zt_heap z p) = zn_parentTId (zt_heap z n)" if "p \<in> set cs" for p using q(2) cs(2) that by simp
  show thesis
  proof (rule that [OF _ _ _ _ q(1) cs(2) [symmetric]])
    show "\<forall>p \<in> set cs. ancestors z p = ancestors z n" using par same_parent_ancestors by blast
    have "0 \<notin> set cs" using root_no_child [OF assms(1) q(1)] cs(2) by simp
    then show "set cs \<subseteq> nodes_of T" using children_inside [OF tree_okD(2) [OF assms(1)] q(1)] cs(2) by blast
    show "siblings z n = Some cs" using q(3) cs(1) by (simp add: siblings_def)
    show "n \<in> set cs" using q(2) cs(2) by simp
  qed
qed

lemma radio_level_checks:
  assumes "tree_ok S (ct_z c) T" "set cs \<subseteq> nodes_of T" "\<forall>p \<in> set cs. ancestors (ct_z c) p = A" "settled_off C c T A"
  shows "touches (nodes_of T) c (radio_level C n cs c) \<and> settled_off C (radio_level C n cs c) T A \<and>
    ct_radio (radio_level C n cs c) = ct_radio c \<and>
    (\<forall>m. nodeChecked (radio_level C n cs c) m = (nodeChecked c m \<and> (m = n \<or> m \<notin> set cs)))"
  using assms
proof (induction cs arbitrary: c)
  case (Cons p cs)
  define d where "d = (if nodeChecked c p \<and> p \<noteq> n then uncheck C p (ct_radio c) c else c)"
  note u = uncheck_simps [where p = p and c = c and C = C and r = "ct_radio c"]
  have d: "touches {p} c d" "ct_radio d = ct_radio c" "nodeChecked d m = (nodeChecked c m \<and> (m = n \<or> m \<noteq> p))" for m
    using u by (auto simp: d_def)
  have s: "settled_off C d T A"
    using off_box [OF Cons.prems(1) _ Cons.prems(4) u(1,2)] Cons.prems(2-4) by (auto simp: d_def)
  have t: "touches (nodes_of T) c d" by (rule touches_mono [OF d(1)]) (use Cons.prems(2) in simp)
  have ih: "touches (nodes_of T) d (radio_level C n cs d) \<and> settled_off C (radio_level C n cs d) T A \<and>
    ct_radio (radio_level C n cs d) = ct_radio d \<and>
    (\<forall>m. nodeChecked (radio_level C n cs d) m = (nodeChecked d m \<and> (m = n \<or> m \<notin> set cs)))"
    by (rule Cons.IH [OF touches_tree_ok [OF t Cons.prems(1)] _ _ s]) (use Cons.prems(2,3) touches_above [OF t] in auto)
  have "radio_level C n (p # cs) c = radio_level C n cs d"
    by (simp add: radio_level_def d_def uncheck_def set_nodeChecked_def upd_check_def)
  then show ?case using ih d(2,3) touches_trans [OF t] by auto
qed (simp add: radio_level_def)

section \<open>The relation to the other boxes, in radio style\<close>

definition radio_ok :: "csetting \<Rightarrow> ctree \<Rightarrow> rose \<Rightarrow> bool" where
  \<comment> \<open>what the checked list has of the tree are nodes of it, and where it is kept it has all checked ones\<close>
  "radio_ok C c T \<longleftrightarrow>
     (\<forall>p \<in> set (ct_radio c). getNodeCache (ct_z c) (zn_tId (zt_heap (ct_z c) p)) \<noteq> None \<longrightarrow> p \<in> nodes_of T) \<and>
     (cs_radioType C = ''all'' \<longrightarrow> (\<forall>m \<in> nodes_of T. nodeChecked c m \<longrightarrow> m \<in> set (ct_radio c)))"

lemma getRadioCheckedList_list:
  assumes "tree_ok S (ct_z c) T"
    "\<forall>p \<in> set (ct_radio c). getNodeCache (ct_z c) (zn_tId (zt_heap (ct_z c) p)) \<noteq> None \<longrightarrow> p \<in> nodes_of T"
  shows "set (ct_radio (getRadioCheckedList c)) = set (ct_radio c) \<inter> nodes_of T"
proof -
  have "getNodeCache (ct_z c) (zn_tId (zt_heap (ct_z c) p)) \<noteq> None \<longleftrightarrow> p \<in> nodes_of T" if "p \<in> set (ct_radio c)" for p
    using assms(2) that tree_cached(1) [OF assms(1), of p] by (metis option.distinct(1))
  then show ?thesis unfolding getRadioCheckedList_def by auto
qed

lemma check_radio_settles:
  assumes "tree_ok S (ct_z c) T" "n \<in> nodes_of T" "settled_off C c T (ancestors (ct_z c) n)"
    "\<forall>p \<in> set (ct_radio c). getNodeCache (ct_z c) (zn_tId (zt_heap (ct_z c) p)) \<noteq> None \<longrightarrow> p \<in> nodes_of T"
  shows "\<exists>c'. check_radio C n c = Some c' \<and> touches (nodes_of T) c c' \<and> settled_off C c' T (ancestors (ct_z c) n) \<and>
    set (ct_radio c') \<subseteq> nodes_of T \<and>
    (cs_radioType C = ''all'' \<longrightarrow> (nodeChecked c n \<longrightarrow> n \<in> set (ct_radio c')) \<and>
      (\<not> nodeChecked c n \<longrightarrow> ct_radio c' = remove1 n (ct_radio (getRadioCheckedList c)))) \<and>
    (\<forall>m. nodeChecked c' m = (nodeChecked c m \<and> (nodeChecked c n \<and> m \<noteq> n \<longrightarrow>
      m \<notin> (if cs_radioType C = ''all'' then set (ct_radio c) \<inter> nodes_of T else set (the (siblings (ct_z c) n))))))"
proof -
  define d where "d = getRadioCheckedList c"
  have d: "touches N c d" "nodeChecked d = nodeChecked c" "settled_off C d T X = settled_off C c T X" "ct_z d = ct_z c" for N X
    by (auto simp: d_def getRadioCheckedList_def touches_radio nodeChecked_def fun_eq_iff settled_off_def settled_box_def children_state_def)
  have list: "set (ct_radio d) = set (ct_radio c) \<inter> nodes_of T"
    unfolding d_def by (rule getRadioCheckedList_list [OF assms(1,4)])
  consider (off) "\<not> nodeChecked c n" | (all) "nodeChecked c n" "cs_radioType C = ''all''" | (level) "nodeChecked c n" "cs_radioType C \<noteq> ''all''"
    by blast
  then show ?thesis
  proof cases
    case off
    define e where "e = (if cs_radioType C = ''all'' then d\<lparr>ct_radio := remove1 n (ct_radio d)\<rparr> else d)"
    have "check_radio C n c = Some e" using off by (simp add: check_radio_def d_def [symmetric] d(2) e_def Let_def)
    moreover have "touches (nodes_of T) c e"
      using d(1) touches_trans [OF d(1) touches_radio] by (simp add: e_def)
    moreover have "nodeChecked e = nodeChecked c" "settled_off C e T (ancestors (ct_z c) n)"
      using d(2,3) assms(3) by (auto simp: e_def nodeChecked_def fun_eq_iff settled_off_def settled_box_def children_state_def)
    moreover have "set (ct_radio e) \<subseteq> nodes_of T" using list set_remove1_subset [of n "ct_radio d"] by (auto simp: e_def)
    ultimately show ?thesis using off by (auto simp: e_def d_def)
  next
    case all
    obtain e where e: "radio_all C n (length (ct_radio d)) d = Some e" "touches (nodes_of T) d e" "settled_off C e T (ancestors (ct_z c) n)"
      "set (ct_radio e) \<subseteq> set (ct_radio d)"
      "\<forall>m. nodeChecked e m = (nodeChecked d m \<and> (m = n \<or> m \<notin> set (take (length (ct_radio d)) (ct_radio d))))"
      using radio_all_checks [of S d T n "length (ct_radio d)" C] assms(1-3) list by (simp add: d(3,4)) blast
    define f where "f = e\<lparr>ct_radio := ct_radio e @ [n]\<rparr>"
    have "check_radio C n c = Some f" using all e(1) by (simp add: check_radio_def d_def [symmetric] d(2) f_def Let_def)
    moreover have "touches (nodes_of T) c f" unfolding f_def
      by (rule touches_trans [OF d(1) touches_trans [OF e(2) touches_radio]])
    moreover have "settled_off C f T (ancestors (ct_z c) n)"
      using e(3) by (simp add: f_def settled_off_def settled_box_def children_state_def)
    moreover have "set (ct_radio f) \<subseteq> nodes_of T" using e(4) list assms(2) by (simp add: f_def)
    moreover have "nodeChecked f m = (nodeChecked c m \<and> (m \<noteq> n \<longrightarrow> m \<notin> set (ct_radio c) \<inter> nodes_of T))" for m
      using e(5) by (auto simp: f_def nodeChecked_def list [symmetric] d(2) [unfolded nodeChecked_def fun_eq_iff])
    moreover have "n \<in> set (ct_radio f)" by (simp add: f_def)
    ultimately show ?thesis using all by simp
  next
    case level
    obtain cs q where cs: "siblings (ct_z c) n = Some cs" "n \<in> set cs" "set cs \<subseteq> nodes_of T"
      "\<forall>p \<in> set cs. ancestors (ct_z c) p = ancestors (ct_z c) n" "q \<in> set (nids T)" "cs = child_list (ct_z c) q"
      by (rule siblings_of [OF assms(1,2)])
    define e where "e = radio_level C n cs d"
    have e: "touches (nodes_of T) d e" "settled_off C e T (ancestors (ct_z c) n)" "ct_radio e = ct_radio d"
      "\<forall>m. nodeChecked e m = (nodeChecked d m \<and> (m = n \<or> m \<notin> set cs))"
      using radio_level_checks [of S d T cs "ancestors (ct_z c) n" C n] assms(1,3) cs(3,4) by (simp_all add: d(3,4) e_def)
    have "check_radio C n c = Some e" using level cs(1) by (simp add: check_radio_def d_def [symmetric] d(2,4) e_def Let_def)
    moreover have "touches (nodes_of T) c e" by (rule touches_trans [OF d(1) e(1)])
    moreover have "set (ct_radio e) \<subseteq> nodes_of T" using list by (simp add: e(3))
    ultimately show ?thesis using level e(2,4) cs(1) by (auto simp: d(2))
  qed
qed

section \<open>A click on a box\<close>

definition box_style :: "csetting \<Rightarrow> bool" where
  "box_style C \<longleftrightarrow> cs_chkStyle C \<in> {''radio'', ''checkbox''}"

lemma relation_settles:
  assumes "tree_ok S (ct_z c) T" "n \<in> nodes_of T" "box_style C" "cs_chkStyle C = ''checkbox'' \<longrightarrow> plain c T"
    "settled_off C c T (ancestors (ct_z c) n)"
    "\<forall>p \<in> set (ct_radio c). getNodeCache (ct_z c) (zn_tId (zt_heap (ct_z c) p)) \<noteq> None \<longrightarrow> p \<in> nodes_of T"
  shows "\<exists>c'. checkNodeRelation C n c = Some c' \<and> touches (nodes_of T) c c' \<and> settled_off C c' T (ancestors (ct_z c) n)"
proof (cases "cs_chkStyle C = ''radio''")
  case True
  then show ?thesis using check_radio_settles [OF assms(1,2,5,6)] by (auto simp: checkNodeRelation_def)
next
  case False
  then have "cs_chkStyle C = ''checkbox''" using assms(3) by (simp add: box_style_def)
  then show ?thesis using check_box_settles [OF assms(1,2) _ _ assms(5)] assms(4) by (auto simp: checkNodeRelation_def)
qed

lemma radio_steps: "ct_radio (setChkClass C n c) = ct_radio c" "ct_radio (trigger_check n c) = ct_radio c"
  by (simp_all add: setChkClass_def Let_def in_z_def trigger_check_def)

text \<open>What follows the relation: drawing the box, repairing the boxes above, telling the page.\<close>

lemma click_ends:
  assumes "tree_ok S (ct_z c) T" "n \<in> nodes_of T" "settled_off C d T (ancestors (ct_z c) n)" "touches (nodes_of T) c d"
  shows "\<exists>c'. repairParentChkClassWithSelf C (Some n) (setChkClass C n d) = Some c' \<and> touches (nodes_of T) c c' \<and>
    settled_tree C c' T \<and> (\<forall>m. nodeChecked c' m = nodeChecked d m) \<and> ct_radio c' = ct_radio d \<and>
    touches (ups (ct_z c) n) d c'"
proof -
  have t: "touches N d (setChkClass C n d)" for N by (rule touches_setChkClass)
  have tree: "tree_ok S (ct_z (setChkClass C n d)) T" by (rule touches_tree_ok [OF t touches_tree_ok [OF assms(4,1)]])
  have anc: "ancestors (ct_z (setChkClass C n d)) n = ancestors (ct_z c) n" "ups (ct_z (setChkClass C n d)) n = ups (ct_z c) n"
    using touches_above [OF t] touches_above [OF assms(4)] by simp_all
  obtain c' where c': "repairParentChkClassWithSelf C (Some n) (setChkClass C n d) = Some c'"
    "touches (ups (ct_z c) n) (setChkClass C n d) c'" "\<forall>m. nodeChecked c' m = nodeChecked (setChkClass C n d) m"
    "ct_radio c' = ct_radio (setChkClass C n d)"
    "\<forall>X. settled_off C (setChkClass C n d) T (ancestors (ct_z c) n \<union> X) \<longrightarrow> settled_off C c' T X"
    using repairParentChkClassWithSelf_settles [OF tree assms(2), of C] unfolding anc by blast
  have "settled_off C (setChkClass C n d) T (ancestors (ct_z c) n \<union> {})"
    using assms(3) settled_frame [OF t [of "{}"]] by (simp add: settled_off_def)
  then have "settled_tree C c' T" using c'(5) by (auto simp: settled_tree_def settled_off_def)
  moreover have "touches (ups (ct_z c) n) d c'" by (rule touches_trans [OF t c'(2)])
  moreover have "touches (nodes_of T) c c'"
    by (rule touches_trans [OF assms(4) touches_mono [OF \<open>touches (ups (ct_z c) n) d c'\<close>]]) (use ups_level(1) [OF assms(1,2)] in blast)
  ultimately show ?thesis using c'(1,3,4) by (simp add: nodeChecked_def check_simps radio_steps)
qed

end
