(* ===== verification/ZTree_Leaves.thy ===== *)
theory ZTree_Leaves
  imports ZTree_Radio
begin

text \<open>
  The boxes of a plain tree as a set of checked leaves: what every box above shows follows from it.
\<close>

section \<open>The leaves below a node\<close>

lemma leaves_below_step:
  assumes "tree_ok S z T" "m \<in> nodes_of T"
  shows "child_list z m = [] \<Longrightarrow> leaves_below m T = {m}"
    "child_list z m \<noteq> [] \<Longrightarrow> leaves_below m T = (\<Union>s \<in> set (child_list z m). leaves_below s T)"
    "\<And>l. l \<in> leaves_below m T \<Longrightarrow> l \<in> nodes_of T \<and> child_list z l = []" "leaves_below m T \<noteq> {}"
proof -
  have tree: "\<exists>u. rid u = n \<and> shape z u \<and> leaves_below n T = set (leaves u) \<and> set (nids u) \<subseteq> set (nids T)" if "n \<in> nodes_of T" for n
    using sub_tree [OF tree_okD(2) [OF assms(1)], of n] that tree_okD(3) [OF assms(1)] by blast
  obtain u where u: "rid u = m" "shape z u" "leaves_below m T = set (leaves u)" "set (nids u) \<subseteq> set (nids T)" using tree [OF assms(2)] by blast
  obtain us where U: "u = Rose m us" using u(1) by (cases u) simp
  have cl: "child_list z m = map rid us" "\<forall>v \<in> set us. shape z v" using u(2) by (simp_all add: U)
  show "child_list z m = [] \<Longrightarrow> leaves_below m T = {m}" using cl u(3) by (simp add: U)
  have kid: "leaves_below (rid v) T = set (leaves v)" if v: "v \<in> set us" for v
  proof -
    have "rid v \<in> set (child_list z m)" using v cl(1) by simp
    then have "rid v \<in> nodes_of T" by (rule child_parent(3) [OF assms])
    then obtain w where w: "rid w = rid v" "shape z w" "leaves_below (rid v) T = set (leaves w)" using tree by blast
    then show ?thesis using shape_unique [OF w(2) _ w(1)] cl(2) v by simp
  qed
  show "child_list z m \<noteq> [] \<Longrightarrow> leaves_below m T = (\<Union>s \<in> set (child_list z m). leaves_below s T)"
    using kid by (simp add: u(3) U cl(1))
  have ne: "set (leaves v) \<noteq> {}" for v
  proof (induction v)
    case (Rose n ts)
    then show ?case by (cases ts) auto
  qed
  show "leaves_below m T \<noteq> {}" unfolding u(3) by (rule ne)
  show "\<And>l. l \<in> leaves_below m T \<Longrightarrow> l \<in> nodes_of T \<and> child_list z l = []"
  proof -
    fix l assume "l \<in> leaves_below m T"
    then have l: "l \<in> set (nids u)" "child_list z l = []" using leaves_childless [OF u(2)] u(3) by auto
    have "l \<noteq> 0"
    proof
      assume "l = 0"
      with l(1) assms(2) u(1) obtain p where "p \<in> set (nids u)" "0 \<in> set (child_list z p)" using child_exists [OF u(2), of 0] by auto
      then show False using root_no_child [OF assms(1)] u(4) by blast
    qed
    then show "l \<in> nodes_of T \<and> child_list z l = []" using l u(4) by blast
  qed
qed

section \<open>What a box shows\<close>

definition tells :: "ctree \<Rightarrow> rose \<Rightarrow> nid \<Rightarrow> bool" where
  "tells c T m \<longleftrightarrow>
     (if child_list (ct_z c) m = [] then cn_childState (ct_node c m) = -1
      else nodeChecked c m = (\<exists>l \<in> leaves_below m T. nodeChecked c l) \<and>
        cn_childState (ct_node c m) =
          (if \<forall>l \<in> leaves_below m T. nodeChecked c l then 2 else if \<exists>l \<in> leaves_below m T. nodeChecked c l then 1 else 0))"

definition tells_leaves :: "ctree \<Rightarrow> rose \<Rightarrow> bool" where
  \<comment> \<open>every box with boxes below is checked if a leaf below is, full if all are, partly if some are\<close>
  "tells_leaves c T \<longleftrightarrow> (\<forall>m \<in> nodes_of T. tells c T m)"

definition checked_leaves :: "ctree \<Rightarrow> rose \<Rightarrow> nid set" where
  "checked_leaves c T = {l \<in> nodes_of T. child_list (ct_z c) l = [] \<and> nodeChecked c l}"

definition share :: "ctree \<Rightarrow> rose \<Rightarrow> nid \<Rightarrow> int" where
  "share c T m = (if \<forall>l \<in> leaves_below m T. nodeChecked c l then 2 else if \<exists>l \<in> leaves_below m T. nodeChecked c l then 1 else 0)"

lemma box_share:
  assumes "tree_ok S (ct_z c) T" "s \<in> nodes_of T" "plain_box (ct_node c s)" "tells c T s"
  shows "box_state (ct_node c s) = share c T s" "nodeChecked c s = (\<exists>l \<in> leaves_below s T. nodeChecked c l)"
proof -
  have b: "box_state (ct_node c s) = (if nodeChecked c s then (if cn_childState (ct_node c s) = -1 \<or> cn_childState (ct_node c s) = 2 then 2 else 1)
      else if 0 < cn_childState (ct_node c s) then 1 else 0)"
    using assms(3) by (simp add: box_state_def plain_box_def nodeChecked_def)
  have ne: "leaves_below s T \<noteq> {}" by (rule leaves_below_step(4) [OF assms(1,2)])
  show "nodeChecked c s = (\<exists>l \<in> leaves_below s T. nodeChecked c l)"
    using assms(4) leaves_below_step(1) [OF assms(1,2)] by (auto simp: tells_def split: if_splits)
  show "box_state (ct_node c s) = share c T s"
  proof (cases "child_list (ct_z c) s = []")
    case True
    then show ?thesis using assms(4) leaves_below_step(1) [OF assms(1,2)] b by (simp add: tells_def share_def)
  next
    case False
    then have "nodeChecked c s = (\<exists>l \<in> leaves_below s T. nodeChecked c l)" "cn_childState (ct_node c s) = share c T s"
      using assms(4) by (simp_all add: tells_def share_def)
    then show ?thesis using b ne by (auto simp: share_def)
  qed
qed

lemma summary_share:
  assumes "tree_ok S (ct_z c) T" "m \<in> nodes_of T" "child_list (ct_z c) m \<noteq> []"
  shows "summary (insert (-1) (share c T ` set (child_list (ct_z c) m))) = share c T m"
proof -
  define K where "K = set (child_list (ct_z c) m)"
  have L: "leaves_below m T = (\<Union>s \<in> K. leaves_below s T)" unfolding K_def by (rule leaves_below_step(2) [OF assms])
  have K: "s \<in> nodes_of T" if "s \<in> K" for s using child_parent(3) [OF assms(1,2)] that by (simp add: K_def)
  then have ne: "leaves_below s T \<noteq> {}" if "s \<in> K" for s using leaves_below_step(4) [OF assms(1)] that by blast
  have "K \<noteq> {}" using assms(3) by (simp add: K_def)
  consider (all) "\<forall>l \<in> leaves_below m T. nodeChecked c l" | (none) "\<forall>l \<in> leaves_below m T. \<not> nodeChecked c l"
    | (some) "\<exists>l \<in> leaves_below m T. nodeChecked c l" "\<exists>l \<in> leaves_below m T. \<not> nodeChecked c l" by blast
  then show ?thesis unfolding K_def [symmetric]
  proof cases
    case all
    then have "share c T ` K = {2}" using \<open>K \<noteq> {}\<close> by (force simp: share_def L)
    then show "summary (insert (-1) (share c T ` K)) = share c T m" using all by (simp add: summary_def share_def)
  next
    case none
    have "share c T s = 0" if "s \<in> K" for s using none ne [OF that] that by (auto simp: share_def L)
    then have "share c T ` K = {0}" using \<open>K \<noteq> {}\<close> by force
    then show "summary (insert (-1) (share c T ` K)) = share c T m"
      using none leaves_below_step(4) [OF assms(1,2)] by (auto simp: summary_def share_def)
  next
    case some
    then obtain a s b t where a: "s \<in> K" "a \<in> leaves_below s T" "nodeChecked c a" and b: "t \<in> K" "b \<in> leaves_below t T" "\<not> nodeChecked c b"
      by (auto simp: L)
    have "share c T s \<in> {1, 2}" "share c T t \<in> {0, 1}" using a b by (auto simp: share_def)
    then have "1 \<in> share c T ` K \<or> {0, 2} \<subseteq> share c T ` K" using a(1) b(1) by (auto simp: image_iff)
    then show "summary (insert (-1) (share c T ` K)) = share c T m" using some by (auto simp: summary_def share_def)
  qed
qed

lemma tells_step:
  assumes "tree_ok S (ct_z c) T" "plain c T" "cs_chkStyle C = ''checkbox''" "m \<in> nodes_of T"
    "\<forall>s \<in> set (child_list (ct_z c) m). tells c T s"
  shows "settled_box C c m \<and> ok_box c m \<longleftrightarrow> tells c T m"
proof (cases "child_list (ct_z c) m = []")
  case True
  then show ?thesis by (simp add: settled_box_def children_state_def ok_box_def tells_def)
next
  case False
  have k: "s \<in> nodes_of T" "plain_box (ct_node c s)" "tells c T s" if "s \<in> set (child_list (ct_z c) m)" for s
    using child_parent(3) [OF assms(1,4) that] assms(2,5) that by (auto simp: plain_def)
  have b: "box_state (ct_node c s) = share c T s" "nodeChecked c s = (\<exists>l \<in> leaves_below s T. nodeChecked c l)"
    if "s \<in> set (child_list (ct_z c) m)" for s by (rule box_share [OF assms(1) k [OF that]])+
  have i: "box_state ` set (map (ct_node c) (child_list (ct_z c) m)) = share c T ` set (child_list (ct_z c) m)"
    using b(1) by (simp add: image_image)
  have "share c T ` set (child_list (ct_z c) m) \<subseteq> {-1, 0, 1, 2}" by (auto simp: share_def)
  then have "chk_flag C (map (ct_node c) (child_list (ct_z c) m)) 0 (-1) =
      summary (insert (-1) (share c T ` set (child_list (ct_z c) m)))"
    unfolding i [symmetric] by (intro chk_flag_box [OF assms(3)]) simp_all
  then have "children_state C c m = share c T m"
    unfolding children_state_def summary_share [OF assms(1,4) False] .
  moreover have "(\<exists>s \<in> set (child_list (ct_z c) m). nodeChecked c s) = (\<exists>l \<in> leaves_below m T. nodeChecked c l)"
    using b(2) leaves_below_step(2) [OF assms(1,4) False] by auto
  ultimately show ?thesis using False by (auto simp: settled_box_def ok_box_def tells_def share_def)
qed

lemma local_leaves:
  assumes "tree_ok S (ct_z c) T" "plain c T" "cs_chkStyle C = ''checkbox''"
  shows "tells_leaves c T \<longleftrightarrow> settled_tree C c T \<and> (\<forall>m \<in> nodes_of T. ok_box c m)"
proof
  assume "tells_leaves c T"
  then have s: "tells c T m" if "m \<in> nodes_of T" for m using that by (simp add: tells_leaves_def)
  have "settled_box C c m \<and> ok_box c m" if m: "m \<in> nodes_of T" for m
    using tells_step [OF assms m] s [OF m] s child_parent(3) [OF assms(1) m] by blast
  then show "settled_tree C c T \<and> (\<forall>m \<in> nodes_of T. ok_box c m)" by (simp add: settled_tree_def)
next
  assume a: "settled_tree C c T \<and> (\<forall>m \<in> nodes_of T. ok_box c m)"
  have "\<forall>m \<in> set (nids t) - {0}. tells c T m" if "shape (ct_z c) t" "set (nids t) \<subseteq> set (nids T)" for t
    using that
  proof (induction t)
    case (Rose n ts)
    have kids: "\<forall>m \<in> set (nids t) - {0}. tells c T m" if "t \<in> set ts" for t
    proof (rule Rose.IH [OF that])
      have "set (nids t) \<subseteq> set (nids (Rose n ts))" using that by (auto simp: in_forest_nids)
      then show "set (nids t) \<subseteq> set (nids T)" using Rose.prems(2) by blast
    qed (use Rose.prems(1) that in simp)
    have top: "tells c T n" if n: "n \<noteq> 0"
    proof -
      have nT: "n \<in> nodes_of T" using Rose.prems(2) n by simp
      have "tells c T s" if s: "s \<in> set (child_list (ct_z c) n)" for s
      proof -
        have "s \<in> rid ` set ts" using Rose.prems(1) s by simp
        then obtain t where t: "t \<in> set ts" "s = rid t" by blast
        have "s \<noteq> 0" using child_parent(3) [OF assms(1) nT s] by auto
        then show ?thesis using kids [OF t(1)] rid_nids [of t] t(2) by simp
      qed
      then show ?thesis using tells_step [OF assms nT] a nT by (simp add: settled_tree_def)
    qed
    show ?case
    proof
      fix m assume m: "m \<in> set (nids (Rose n ts)) - {0}"
      then consider "m = n" | t where "t \<in> set ts" "m \<in> set (nids t)" by (auto simp: in_forest_nids)
      then show "tells c T m"
      proof cases
        case 1
        then show ?thesis using top m by simp
      next
        case (2 t)
        then show ?thesis using kids [OF 2(1)] m by blast
      qed
    qed
  qed
  from this [OF tree_okD(2) [OF assms(1)] order_refl] show "tells_leaves c T" by (simp add: tells_leaves_def)
qed

end
