(* ===== verification/Page_Tree.thy ===== *)
theory Page_Tree
  imports Manage ZTree_Props ZTree_Leaves "HOL-Library.Sublist"
begin

text \<open>
  The tree of organisations on a page: \<open>$.tree\<close> of jquery/platform.common.js, the same in both web
  applications, sets up the tree widget and connects it with the page. A request for nodes puts the
  loading mask up, an answer that arrives takes it away, and the node that was opened last is kept.
  Where the page asks for check boxes the extension joins in (\<open>tree_check_setting\<close>); what is modelled of the
  tree on the page here is the core's part of it, which is all of it in the portal, and the boxes are those of
  \<open>ZTree_Check\<close>.
\<close>

declare appendNodes.simps [simp del] shape.simps [simp del] nids.simps [simp del]

section \<open>The settings\<close>

record tree_settings =
  ts_element :: string
  ts_url :: string
  ts_rootId :: string
  ts_checkbox :: bool
  ts_onClick :: bool
  ts_onDblClick :: bool

text \<open>What the widget reads of the document, a function of its log.\<close>

record browser =
  bw_has :: "zeffect list \<Rightarrow> string \<Rightarrow> bool"
  bw_class :: "zeffect list \<Rightarrow> string \<Rightarrow> string option"
  bw_count :: "zeffect list \<Rightarrow> string \<Rightarrow> nat"

fun dot_n :: "string \<Rightarrow> string" where
  \<comment> \<open>s.replace(/\.n/g, '.')\<close>
  "dot_n (a # b # s) = (if a = CHR ''.'' \<and> b = CHR ''n'' then CHR ''.'' # dot_n s else a # dot_n (b # s))"
| "dot_n s = s"

definition dot_n_node :: "jnode \<Rightarrow> jnode" where
  "dot_n_node j = JNode (map (\<lambda>(k, v). (k, if k = ''name'' then dot_n v else v)) (j_attr j)) (j_isParent j) (j_open j) (j_children j)"

definition tree_setting :: "browser \<Rightarrow> tree_settings \<Rightarrow> zsetting" where
  \<comment> \<open>what \<open>$.tree\<close> sets over the defaults of the widget\<close>
  "tree_setting B ts =
     \<lparr>zs_treeId = ts_element ts, zs_addDiyDom = False, zs_autoCancelSelected = True, zs_dblClickExpand = (\<lambda>z n. True),
      zs_expandSpeed = ''fast'', zs_fontCss = (\<lambda>z n. []), zs_nameIsHTML = False, zs_selectedMulti = True,
      zs_showIcon = (\<lambda>z n. True), zs_showLine = True, zs_showTitle = (\<lambda>z n. True), zs_txtSelectedEnable = False,
      zs_nameKey = ''name'', zs_titleKey = '''', zs_urlKey = ''url'', zs_iconKey = ''icon'', zs_simple = True,
      zs_idKey = ''id'', zs_pIdKey = ''pId'', zs_rootPId = None, zs_keepParent = False, zs_keepLeaf = False,
      zs_async = True, zs_asyncUrl = ts_url ts, zs_autoParam = [''id'', ''name=n'', ''level=lv''],
      zs_otherParam = [(''otherParam'', ''zTreeAsyncTest''), (''id'', ts_rootId ts)], zs_dataFilter = map dot_n_node,
      zs_before = (\<lambda>cb. if cb = ''beforeAsync'' then Some (\<lambda>z n. True) else None),
      zs_on = (\<lambda>cb. cb = ''onClick'' \<and> ts_onClick ts \<or> cb = ''onDblClick'' \<and> ts_onDblClick ts \<or> cb \<in> {''onAsyncSuccess'', ''onExpand''}),
      br_has = bw_has B, br_class = bw_class B, br_count = bw_count B\<rparr>"

definition tree_check_setting :: "browser \<Rightarrow> tree_settings \<Rightarrow> csetting" where
  \<comment> \<open>with check boxes where the page asks for them, over the defaults of the extension\<close>
  "tree_check_setting B ts =
     \<lparr>cs_base = tree_setting B ts, cs_enable = ts_checkbox ts, cs_autoCheckTrigger = False, cs_chkStyle = ''checkbox'',
      cs_nocheckInherit = False, cs_chkDisabledInherit = False, cs_radioType = ''level'', cs_Y = ''ps'', cs_N = ''ps'',
      cs_checkedKey = ''checked'', cs_beforeCheck = None\<rparr>"

text \<open>So a click on a box of such a tree is one on the set of checked leaves, as the check boxes' properties say.\<close>

lemma tree_check_setting_simps:
  "cs_chkStyle (tree_check_setting B ts) = ''checkbox''" "both (cs_Y (tree_check_setting B ts))" "both (cs_N (tree_check_setting B ts))"
  "may_check (tree_check_setting B ts) n c"
  by (simp_all add: tree_check_setting_def both_def may_check_def)

section \<open>The widget on the page\<close>

record tree_page =
  tp_page :: page
  tp_tree :: ztree
  tp_curExpandNode :: "nid option"

definition page_call :: "zeffect \<Rightarrow> tree_page \<Rightarrow> tree_page" where
  \<comment> \<open>what the page's callbacks do when the widget calls them - \<open>beforeAsync\<close> just before a request,
     \<open>onAsyncSuccess\<close> after its answer, nothing after an error -, with the requests in flight\<close>
  "page_call e w =
     (let p = tp_page w
      in case e of
           Ajax node ps \<Rightarrow>
             let p = jq_loading p
             in w\<lparr>tp_page := p\<lparr>pg_requests := pg_requests p @ [Tree_Request]\<rparr>\<rparr>
         | Trigger ev node \<Rightarrow>
             if ev = ''ztree_async_success'' then w\<lparr>tp_page := jq_unloading (p\<lparr>pg_requests := remove1 Tree_Request (pg_requests p)\<rparr>)\<rparr>
             else if ev = ''ztree_async_error'' then w\<lparr>tp_page := p\<lparr>pg_requests := remove1 Tree_Request (pg_requests p)\<rparr>\<rparr>
             else if ev = ''ztree_expand'' then w\<lparr>tp_curExpandNode := node\<rparr>
             else w
         | _ \<Rightarrow> w)"

definition on_tree :: "(ztree \<Rightarrow> ztree option) \<Rightarrow> tree_page \<Rightarrow> tree_page option" where
  \<comment> \<open>an operation of the widget, with the callbacks it runs\<close>
  "on_tree f w =
     map_option (\<lambda>z. fold page_call (drop (length (zt_log (tp_tree w))) (zt_log z)) (w\<lparr>tp_tree := z\<rparr>)) (f (tp_tree w))"

definition jq_tree :: "browser \<Rightarrow> tree_settings \<Rightarrow> int \<Rightarrow> tree_page \<Rightarrow> tree_page option" where
  \<comment> \<open>the widget ignores the answers to the requests of a tree it replaces\<close>
  "jq_tree B ts now w =
     on_tree (zTree_init (tree_setting B ts) [] now)
       (w\<lparr>tp_page := (tp_page w)\<lparr>pg_requests := filter (\<lambda>r. r \<noteq> Tree_Request) (pg_requests (tp_page w))\<rparr>\<rparr>)"

definition tree_event :: "browser \<Rightarrow> tree_settings \<Rightarrow> zevent \<Rightarrow> tree_page \<Rightarrow> tree_page option" where
  "tree_event B ts ev = on_tree (proxy (tree_setting B ts) ev)"

definition tree_success :: "browser \<Rightarrow> tree_settings \<Rightarrow> zrequest \<Rightarrow> jnode list \<Rightarrow> tree_page \<Rightarrow> tree_page option" where
  \<comment> \<open>a row without a name is a TypeError in \<open>dataFilter\<close>, unless the answer is out of date\<close>
  "tree_success B ts r js w =
     (if zr_ver r = zt_ver (tp_tree w) \<and> (\<exists>j \<in> set js. jfield j ''name'' = None) then None
      else on_tree (async_success (tree_setting B ts) r js) w)"

definition tree_error :: "browser \<Rightarrow> tree_settings \<Rightarrow> zrequest \<Rightarrow> tree_page \<Rightarrow> tree_page option" where
  "tree_error B ts r = on_tree (\<lambda>z. Some (async_error (tree_setting B ts) r z))"

section \<open>A single open path\<close>

text \<open>
  \<open>$.tree\<close> also has two functions that keep one path of the tree open; the setting that would call
  them is commented out. The loops over the nodes above carry fuel: on objects that form a cycle
  the code does not return.
\<close>

fun new_parents :: "nat \<Rightarrow> ztree \<Rightarrow> nid \<Rightarrow> nid \<Rightarrow> nid list \<Rightarrow> (nid option \<times> nid list option) option" where
  \<comment> \<open>the loop over the nodes above \<open>newNode\<close>: \<open>newNode\<close> and \<open>newParents\<close> after it\<close>
  "new_parents 0 z cur n newParents = None"
| "new_parents (Suc k) z cur n newParents =
     (case getParentNode z n of
        None \<Rightarrow> Some (None, Some newParents)
      | Some p \<Rightarrow> if p = cur then Some (Some p, None) else new_parents k z cur p (newParents @ [p]))"

fun old_parents :: "nat \<Rightarrow> ztree \<Rightarrow> nid \<Rightarrow> nid list \<Rightarrow> nid list option" where
  "old_parents 0 z n oldParents = None"
| "old_parents (Suc k) z n oldParents =
     (case getParentNode z n of None \<Rightarrow> Some oldParents | Some p \<Rightarrow> old_parents k z p (oldParents @ [p]))"

definition path_to_close :: "nid list \<Rightarrow> nid list \<Rightarrow> nid option" where
  \<comment> \<open>the node above the old one that is closed\<close>
  "path_to_close newParents oldParents =
     (if newParents \<noteq> []
      then map_option ((!) oldParents)
             (List.find (\<lambda>i. newParents ! i \<noteq> oldParents ! i) (rev [0..<min (length newParents) (length oldParents)]))
      else if oldParents = [] then None else Some (oldParents ! (length oldParents - 1)))"

definition close_node :: "zsetting \<Rightarrow> nid option \<Rightarrow> ztree \<Rightarrow> ztree option" where
  \<comment> \<open>zTree.expandNode(node, false)\<close>
  "close_node S node z =
     (case node of None \<Rightarrow> Some z | Some n \<Rightarrow> map_option snd (tool_expandNode S n (Some False) False True False z))"

definition singlePath :: "zsetting \<Rightarrow> nid \<Rightarrow> ztree \<Rightarrow> nid option \<Rightarrow> (ztree \<times> nid option) option" where
  \<comment> \<open>the tree and \<open>curExpandNode\<close>\<close>
  "singlePath S newNode z curExpandNode =
     (case curExpandNode of
        None \<Rightarrow> Some (z, Some newNode)
      | Some cur \<Rightarrow>
          if newNode = cur then Some (z, curExpandNode)
          else if zn_open (zt_heap z cur) \<noteq> FBool True then Some (z, Some newNode)
          else if zn_parentTId (zt_heap z newNode) = zn_parentTId (zt_heap z cur)
          then map_option (\<lambda>z. (z, Some newNode)) (close_node S (Some cur) z)
          else
            Option.bind (new_parents (zt_next z + 1) z cur newNode []) (\<lambda>(newNode, newParents).
            case newParents of
              None \<Rightarrow> Some (z, newNode)
            | Some newParents \<Rightarrow>
                Option.bind (old_parents (zt_next z + 1) z cur []) (\<lambda>oldParents.
                map_option (\<lambda>z. (z, newNode)) (close_node S (path_to_close newParents oldParents) z))))"

fun climbs_to :: "nat \<Rightarrow> ztree \<Rightarrow> nid \<Rightarrow> nid option \<Rightarrow> bool option" where
  \<comment> \<open>the loop of \<open>beforeExpand\<close> over \<open>pNode\<close>: whether it meets \<open>treeNode\<close>\<close>
  "climbs_to k z treeNode None = Some False"
| "climbs_to 0 z treeNode (Some p) = None"
| "climbs_to (Suc k) z treeNode (Some p) = (if p = treeNode then Some True else climbs_to k z treeNode (getParentNode z p))"

definition beforeExpand :: "zsetting \<Rightarrow> nid \<Rightarrow> ztree \<Rightarrow> nid option \<Rightarrow> (ztree \<times> nid option) option" where
  "beforeExpand S treeNode z curExpandNode =
     (let pNode = Option.bind curExpandNode (getParentNode z);
          treeNodeP = (if truthy (zn_parentTId (zt_heap z treeNode)) then getParentNode z treeNode else None);
          others = (case treeNodeP of None \<Rightarrow> [] | Some p \<Rightarrow> filter (\<lambda>c. c \<noteq> treeNode) (child_list z p))
      in Option.bind (foldM (\<lambda>c. close_node S (Some c)) others z) (\<lambda>z.
         Option.bind (climbs_to (zt_next z + 1) z treeNode pNode) (\<lambda>met.
           if met then Some (z, curExpandNode) else singlePath S treeNode z curExpandNode)))"

text \<open>
  The loop over the nodes above runs in the parameter of \<open>singlePath\<close>: for a node below another parent
  that is not below the old one, it is null when it is stored, and the next call closes nothing.
\<close>

lemma new_parents_runs_out: "new_parents k z cur n ps = Some (m, Some qs) \<Longrightarrow> m = None"
  by (induction k arbitrary: n ps) (auto split: option.splits if_splits)

lemma new_parents_break: "new_parents k z cur n ps = Some (m, None) \<Longrightarrow> m = Some cur"
  by (induction k arbitrary: n ps) (auto split: option.splits if_splits)

lemma singlePath_forgets:
  assumes "zn_open (zt_heap z cur) = FBool True" "zn_parentTId (zt_heap z n) \<noteq> zn_parentTId (zt_heap z cur)"
    "singlePath S n z (Some cur) = Some (z', e)"
  shows "e \<in> {None, Some cur}"
  using assms new_parents_runs_out new_parents_break
  by (auto simp: singlePath_def split: bind_splits if_splits option.splits; fastforce)

section \<open>The log grows\<close>

named_theorems log_simps \<open>what the operations add to the log\<close>

definition longer :: "ztree \<Rightarrow> ztree \<Rightarrow> bool" where
  "longer z z' \<longleftrightarrow> prefix (zt_log z) (zt_log z')"

lemma longer_refl [intro!, simp]: "longer z z"
  by (simp add: longer_def)

lemma longer_trans [trans]: "longer x y \<Longrightarrow> longer y z \<Longrightarrow> longer x z"
  using prefix_order.trans by (auto simp: longer_def)

lemma log_parts [log_simps]:
  "zt_log (zemit e z) = zt_log z @ [e]" "zt_log (upd_node n f z) = zt_log z" "zt_log (set_isParent n b z) = zt_log z"
  "zt_log (set_open n b z) = zt_log z" "zt_log (set_children n cs z) = zt_log z" "zt_log (snd (nodeIsParent n z)) = zt_log z"
  "zt_log (addNodeCache n z) = zt_log z" "zt_log (addCreatedNode S n z) = zt_log z" "zt_log (addSelectedNode n z) = zt_log z"
  by (simp_all add: zemit_def upd_node_def set_isParent_def set_open_def set_children_def nodeIsParent_def addNodeCache_def
      addCreatedNode_def addSelectedNode_def)

lemma longer_drawing:
  "longer z (setNodeLineIcos S n z)" "longer z (replaceSwitchClass S n c z)" "longer z (replaceIcoClass S n c z)"
  by (auto simp: longer_def setNodeLineIcos_def replaceSwitchClass_def replaceIcoClass_def Let_def log_simps nodeIsParent_def split: option.split)

lemma longer_initNode: "initNode S level n p i l z = Some z' \<Longrightarrow> zt_log z' = zt_log z"
  by (auto simp: initNode_def fixPIdKeyValue_def Let_def log_simps split: if_splits option.splits)

lemma longer_foldM:
  "foldM f xs z = Some z' \<Longrightarrow> (\<And>x y y'. f x y = Some y' \<Longrightarrow> longer (g y) (g y')) \<Longrightarrow> longer (g z) (g z')"
proof (induction xs arbitrary: z)
  case (Cons a xs)
  then obtain y where y: "f a z = Some y" "foldM f xs y = Some z'" by (auto split: bind_splits option.splits)
  show ?case by (rule longer_trans [OF Cons.prems(2) [OF y(1)] Cons.IH [OF y(2) Cons.prems(2)]])
qed simp

lemma longer_appendNodes: "appendNodes k S level nodes p index initFlag openFlag z = Some (h, z') \<Longrightarrow> longer z z'"
proof (induction k arbitrary: level nodes p index openFlag z h z')
  case (Suc k)
  have one: "append_one (\<lambda>children node openFlag. appendNodes k S (level + 1) children (Some node) (-1) initFlag openFlag)
      S level p isF isL initFlag openFlag x hy = Some hy' \<Longrightarrow> longer (snd hy) (snd hy')" for isF isL x hy hy'
  proof -
    assume a: "append_one (\<lambda>children node openFlag. appendNodes k S (level + 1) children (Some node) (-1) initFlag openFlag)
      S level p isF isL initFlag openFlag x hy = Some hy'"
    obtain i n where x: "x = (i, n)" by fastforce
    obtain h y where hy: "hy = (h, y)" by fastforce
    obtain w cv where w: "(if initFlag then map_option (addNodeCache n) (initNode S level n p (isF i) (isL i) y) else Some y) = Some w"
      and v: "(if child_list (snd (nodeIsParent n w)) n \<noteq> [] then
          appendNodes k S (level + 1) (child_list (snd (nodeIsParent n w)) n) (Some n) (-1) initFlag (openFlag \<and> is_open (snd (nodeIsParent n w)) n) (snd (nodeIsParent n w))
        else Some ('''', snd (nodeIsParent n w))) = Some cv"
      and r: "Some (if openFlag then (h @ node_html S (snd cv) n (fst (nodeIsParent n w)) (fst cv), addCreatedNode S n (snd cv)) else (h, snd cv)) = Some hy'"
      using a unfolding append_one_def x hy
      by (simp only: Let_def case_prod_beta fst_conv snd_conv bind_eq_Some_conv) (elim exE conjE, rule that)
    have lw: "zt_log w = zt_log y" using w longer_initNode by (auto simp: log_simps split: if_splits)
    have "longer (snd (nodeIsParent n w)) (snd cv)"
      by (cases cv, cases "child_list (snd (nodeIsParent n w)) n = []") (use v Suc.IH in \<open>simp_all add: longer_def\<close>)
    moreover have "zt_log (snd hy') = zt_log (snd cv)" using r by (cases openFlag) (auto simp: log_simps)
    ultimately show ?thesis using lw by (simp add: longer_def hy log_simps)
  qed
  have "\<exists>isF isL. foldM (append_one (\<lambda>children node openFlag. appendNodes k S (level + 1) children (Some node) (-1) initFlag openFlag)
      S level p isF isL initFlag openFlag) (enumerate 0 nodes) ('''', z) = Some (h, z')"
    using Suc.prems unfolding appendNodes.simps Let_def by (auto simp del: foldM.simps split: if_splits)
  then obtain isF isL where "foldM (append_one (\<lambda>children node openFlag. appendNodes k S (level + 1) children (Some node) (-1) initFlag openFlag)
      S level p isF isL initFlag openFlag) (enumerate 0 nodes) ('''', z) = Some (h, z')" by blast
  from longer_foldM [where g = snd, OF this one] show ?case by simp
qed (simp add: appendNodes.simps)

lemma longer_fold: "(\<And>x y. longer y (f x y)) \<Longrightarrow> longer z (fold f xs z)"
  by (induction xs arbitrary: z) (auto intro: longer_trans)

lemma longer_zemit: "longer z (zemit e z)"
  by (simp add: longer_def log_simps)

lemma longer_log: "zt_log z' = zt_log z \<Longrightarrow> longer z' y = longer z y" "zt_log y' = zt_log y \<Longrightarrow> longer z y' = longer z y"
  by (simp_all add: longer_def)

lemma longer_createNodeCallback: "longer z (createNodeCallback S z)"
proof -
  have "longer (z\<lparr>zt_created := []\<rparr>) (createNodeCallback S z) \<or> createNodeCallback S z = z"
    unfolding createNodeCallback_def Let_def
    by (auto intro!: longer_fold) (auto simp: longer_def log_simps)
  then show ?thesis by (auto simp: longer_def)
qed

lemma longer_createNodes:
  assumes "createNodes S level nodes p index z = Some z'"
  shows "longer z z'"
proof (cases "nodes = []")
  case True
  then show ?thesis using assms by (simp add: createNodes_def)
next
  case False
  then obtain openFlag h y where y: "appendNodes (zt_next z + 1) S level nodes p index True openFlag (z\<lparr>zt_created := []\<rparr>) = Some (h, y)"
    "z' = createNodeCallback S (case (case p of None \<Rightarrow> Some (zs_treeId S)
                 | Some p \<Rightarrow> if br_has S (zt_log y) (elem_id y p ''_ul'') then Some (elem_id y p ''_ul'') else None) of None \<Rightarrow> y
                    | Some e \<Rightarrow>
                        if 0 \<le> index \<and> index < int (br_count S (zt_log y) e)
                        then zemit (Insert_Before e (nat index) h) y
                        else zemit (Append e h) y)"
    using assms by (auto simp: createNodes_def Let_def split: bind_splits)
  have "longer z y" using longer_appendNodes [OF y(1)] by (simp add: longer_def)
  moreover have "longer y z'"
    unfolding y(2) by (rule longer_trans [OF _ longer_createNodeCallback]) (auto intro: longer_zemit split: option.split)
  ultimately show ?thesis by (rule longer_trans)
qed

lemma longer_addNodesData: "longer z (addNodesData S p index nodes z)"
proof -
  have d: "prefix (zt_log z) (zt_log (setNodeLineIcos S n w))" if "zt_log w = zt_log z" for n w
    using longer_drawing(1) [of w S n] that by (simp add: longer_def)
  show ?thesis
    unfolding longer_def addNodesData_def Let_def by (auto simp: log_simps intro!: d split: option.split)
qed

lemma log_alloc: "zt_log (snd (alloc v z)) = zt_log z"
  by (simp add: alloc_def)

lemma log_clone: "zt_log (snd (clone_node j z)) = zt_log z" "zt_log (snd (clone_nodes js z)) = zt_log z"
proof (induction j z and js z rule: clone_node_clone_nodes.induct)
  case (1 a p op ch z)
  then show ?case by (auto simp: case_prod_beta Let_def log_simps log_alloc prod_eq_iff split: option.split)
next
  case (3 j js z)
  have "zt_log (snd (clone_nodes js (snd (clone_node j z)))) = zt_log (snd (clone_node j z))"
    by (rule "3.IH"(2) [OF refl, of "fst (clone_node j z)"]) simp
  then show ?case using "3.IH"(1) by (simp add: case_prod_beta)
qed simp

lemma log_rows: "zt_log (snd (transformTozTreeFormat S rows z)) = zt_log z"
proof -
  have "zt_log (snd (place_row S m n rz)) = zt_log (snd rz)" for m n rz
    by (cases rz) (auto simp: place_row_def Let_def add_child_def log_simps split: option.split)
  then have "zt_log (snd (fold (place_row S m) rows rz)) = zt_log (snd rz)" for m rz
    by (induction rows arbitrary: rz) simp_all
  then show ?thesis by (simp add: transformTozTreeFormat_def)
qed

lemma longer_run_callback: "longer z (run_callback_of S cb z)"
  by (induction S cb z rule: run_callback_of.induct) (auto simp: Let_def scrollIntoView_def longer_def log_simps)

lemma longer_appendParentULDom: "appendParentULDom k S n z = Some z' \<Longrightarrow> longer z z'"
proof (induction k arbitrary: n z z')
  case (Suc k)
  obtain y where y: "(if \<not> br_has S (zt_log z) (elem_id z n '''') \<and> truthy (zn_parentTId (zt_heap z n))
        then (case getParentNode z n of None \<Rightarrow> None | Some p \<Rightarrow> appendParentULDom k S p z)
        else Some z) = Some y"
    and r: "(let z = (if br_has S (zt_log y) (elem_id y n ''_ul'') then zemit (Remove_Elem (elem_id y n ''_ul'')) y else y)
     in Option.bind (appendNodes (zt_next z + 1) S (zn_level (zt_heap z n) + 1) (child_list z n) (Some n) (-1) False True z)
          (\<lambda>(childHtml, z). Some (zemit (Append (elem_id z n '''') (makeUlHtml S z n childHtml)) z))) = Some z'"
    using Suc.prems unfolding appendParentULDom.simps bind_eq_Some_conv by (elim exE conjE) (rule that)
  have "longer z y" using y Suc.IH by (auto split: if_splits option.splits)
  moreover define x where "x = (if br_has S (zt_log y) (elem_id y n ''_ul'') then zemit (Remove_Elem (elem_id y n ''_ul'')) y else y)"
  have "longer y x" by (simp add: x_def longer_zemit)
  moreover have "longer x z'"
  proof -
    obtain h v where v: "appendNodes (zt_next x + 1) S (zn_level (zt_heap x n) + 1) (child_list x n) (Some n) (-1) False True x = Some (h, v)"
      "z' = zemit (Append (elem_id v n '''') (makeUlHtml S v n h)) v"
      using r unfolding Let_def x_def [symmetric] by (auto split: bind_splits)
    show ?thesis unfolding v(2) by (rule longer_trans [OF longer_appendNodes [OF v(1)] longer_zemit])
  qed
  ultimately show ?case using longer_trans by blast
qed simp

lemma longer_show_children: "longer z (show_children S n a cb z)"
proof -
  have i: "longer y (replaceIcoClass S n c (replaceSwitchClass S n d y))" for y c d
    by (rule longer_trans [OF longer_drawing(2,3)])
  have e: "longer y (zemit e w)" "longer y (run_callback_of S cb (zemit e w))" if "longer y w" for y w e
    using longer_trans [OF that longer_zemit] longer_trans [OF longer_trans [OF that longer_zemit] longer_run_callback] by blast+
  define w where "w = (let z = set_open n (\<not> is_open z n) z in if truthy (attr z n ''iconOpen'') \<and> truthy (attr z n ''iconClose'')
               then zemit (Set_Attr (elem_id z n ''_ico'') ''style'' (makeNodeIcoStyle S z n)) z else z)"
  have "longer z w" by (simp add: w_def Let_def longer_def log_simps)
  moreover have "longer w (show_children S n a cb z)"
    unfolding show_children_def Let_def w_def [unfolded Let_def, symmetric] by (auto intro!: e i)
  ultimately show ?thesis by (rule longer_trans)
qed

lemma longer_expandCollapseNode:
  assumes "expandCollapseNode S node b a cb z = Some z'"
  shows "longer z z'"
proof (cases node)
  case None
  then show ?thesis using assms longer_run_callback by (auto simp: expandCollapseNode_def)
next
  case (Some n)
  define w where "w = (let z = snd (nodeIsParent n z) in if zt_expandTrigger z then (Then_Trigger cb n, z\<lparr>zt_expandTrigger := False\<rparr>) else (cb, z))"
  have w: "zt_log (snd w) = zt_log z" by (auto simp: w_def Let_def log_simps)
  obtain y where y: "(if \<not> is_open (snd w) n \<and> fst (nodeIsParent n z) \<and>
                   (\<not> br_has S (zt_log (snd w)) (elem_id (snd w) n ''_ul'') \<or>
                    child_list (snd w) n \<noteq> [] \<and> \<not> br_has S (zt_log (snd w)) (elem_id (snd w) (hd (child_list (snd w) n)) ''''))
                then map_option (createNodeCallback S) (appendParentULDom (zt_next (snd w) + 1) S n (snd w))
                else Some (snd w)) = Some y"
    and r: "(if zn_open (zt_heap y n) = FBool b then Some (run_callback_of S (fst w) y)
             else if fst (nodeIsParent n z) then Some (show_children S n a (fst w) y)
             else Some (run_callback_of S (fst w) y)) = Some z'"
    using assms unfolding expandCollapseNode_def Some option.case Let_def case_prod_beta bind_eq_Some_conv w_def [unfolded Let_def, symmetric]
    by (elim exE conjE) (rule that)
  have "longer (snd w) y"
    using y longer_trans [OF longer_appendParentULDom longer_createNodeCallback]
    by (auto simp del: appendParentULDom.simps split: if_splits)
  moreover have "longer y z'" using r longer_run_callback longer_show_children by (auto split: if_splits)
  ultimately have "longer (snd w) z'" by (rule longer_trans)
  then show ?thesis using w by (simp add: longer_def)
qed

lemma longer_expandCollapseParentNode: "expandCollapseParentNode k S node b a cb z = Some z' \<Longrightarrow> longer z z'"
proof (induction k arbitrary: node z)
  case (Suc k)
  then show ?case
    by (auto split: option.splits if_splits bind_splits dest: longer_expandCollapseNode intro: longer_trans [OF longer_expandCollapseNode])
qed simp

lemma longer_addNodes:
  assumes "addNodes S p i nodes silent z = Some z'"
  shows "longer z z'"
proof (cases p)
  case None
  define w where "w = (if zs_simple S then transformTozTreeFormat S nodes z else (nodes, z))"
  have "zt_log (snd w) = zt_log z" by (simp add: w_def log_rows)
  moreover have "longer (addNodesData S 0 i (fst w) (snd w)) z'"
    using assms unfolding addNodes_def None option.case case_prod_beta Let_def w_def [symmetric] by (rule longer_createNodes)
  then have "longer (snd w) z'" by (rule longer_trans [OF longer_addNodesData])
  ultimately show ?thesis by (simp add: longer_def)
next
  case (Some q)
  define x where "x = snd (nodeIsParent q z)"
  define w where "w = (if zs_simple S then transformTozTreeFormat S nodes x else (nodes, x))"
  define v where "v = (if is_open (snd w) q then snd w
                        else zemit (Css (elem_id (snd w) q ''_ul'') ''display'' ''none'')
                               (set_open q False (replaceIcoClass S q ''close'' (replaceSwitchClass S q ''close'' (snd w)))))"
  define u where "u = addNodesData S q i (fst w) v"
  have w: "zt_log (snd w) = zt_log z" by (simp add: w_def log_rows x_def log_simps)
  have "longer (snd w) (replaceIcoClass S q ''close'' (replaceSwitchClass S q ''close'' (snd w)))"
    by (rule longer_trans [OF longer_drawing(2,3)])
  then have "longer (snd w) v" by (simp add: v_def longer_def log_simps)
  then have u: "longer (snd w) u" unfolding u_def by (rule longer_trans [OF _ longer_addNodesData])
  show ?thesis
  proof (cases "zs_keepLeaf S \<and> \<not> fst (nodeIsParent q z)")
    case True
    then have "z' = snd (nodeIsParent q z)" using assms by (simp add: addNodes_def Some case_prod_beta)
    then show ?thesis by (simp add: longer_def log_simps)
  next
    case False
    then obtain y where y: "createNodes S (zn_level (zt_heap u q) + 1) (fst w) (Some q) i u = Some y"
      "(if silent then Some y else expandCollapseParentNode (zt_next y + 1) S (Some q) True True No_Cb y) = Some z'"
      using assms unfolding addNodes_def Some option.case case_prod_beta Let_def if_not_P [OF False] x_def [symmetric] w_def [symmetric]
        v_def [symmetric] u_def [symmetric] bind_eq_Some_conv by (elim exE conjE) (rule that)
    have "longer u y" by (rule longer_createNodes [OF y(1)])
    moreover have "longer y z'"
      using y(2) longer_expandCollapseParentNode by (auto simp del: expandCollapseParentNode.simps split: if_splits)
    ultimately have "longer (snd w) z'" using u longer_trans by blast
    then show ?thesis using w by (simp add: longer_def)
  qed
qed

section \<open>Answers\<close>

lemma jfield_dot_n: "jfield (dot_n_node j) k = (if k = ''name'' then map_option dot_n (jfield j k) else jfield j k)"
proof -
  have "map_of (map (\<lambda>(k, v). (k, if k = ''name'' then dot_n v else v)) a) k = (if k = ''name'' then map_option dot_n (map_of a k) else map_of a k)" for a
    by (induction a) auto
  then show ?thesis by (simp add: jfield_def dot_n_node_def)
qed

lemma rows_dot_n:
  assumes "zs_idKey S \<noteq> ''name''" "zs_pIdKey S \<noteq> ''name''"
  shows "ordered_rows S (map dot_n_node js) = ordered_rows S js" "shift_tree S (map dot_n_node js) b = shift_tree S js b"
proof -
  have f: "jfield (dot_n_node j) (zs_idKey S) = jfield j (zs_idKey S)" "jfield (dot_n_node j) (zs_pIdKey S) = jfield j (zs_pIdKey S)" for j
    using assms by (simp_all add: jfield_dot_n)
  have p: "jparent S (map dot_n_node js) i = jparent S js i" if "i < length js" for i
    using that by (auto simp: jparent_def f intro!: find_cong)
  have c: "j_children (dot_n_node j) = j_children j" for j by (simp add: dot_n_node_def)
  have l: "length (map dot_n_node js) = length js" by simp
  have "list_all (\<lambda>i. case jparent S (map dot_n_node js) i of
         Some j \<Rightarrow> j < i
       | None \<Rightarrow> jfield (map dot_n_node js ! i) (zs_idKey S) = jfield (map dot_n_node js ! i) (zs_pIdKey S) \<or>
           js_string (jfield (map dot_n_node js ! i) (zs_pIdKey S)) \<notin> set inherited) [0..<length js] =
    list_all (\<lambda>i. case jparent S js i of
         Some j \<Rightarrow> j < i
       | None \<Rightarrow> jfield (js ! i) (zs_idKey S) = jfield (js ! i) (zs_pIdKey S) \<or>
           js_string (jfield (js ! i) (zs_pIdKey S)) \<notin> set inherited) [0..<length js]"
    by (rule list.pred_cong [OF refl]) (simp add: p f split: option.split)
  then show "ordered_rows S (map dot_n_node js) = ordered_rows S js"
    unfolding ordered_rows_def l by (simp add: list_all_iff c f comp_def)
  have "rows_tree (shifted_parent S (map dot_n_node js) b) rows = rows_tree (shifted_parent S js b) rows" if "set rows \<subseteq> {b..<b + length js}" for rows
    unfolding rows_tree_def
  proof (rule fold_cong [OF refl refl])
    fix n assume "n \<in> set rows"
    then have "b \<le> n" "n < b + length js" using that by auto
    then have "n - b < length js" by simp
    then show "graft (case shifted_parent S (map dot_n_node js) b n of None \<Rightarrow> 0 | Some p \<Rightarrow> p) (-1) [Rose n []] =
        graft (case shifted_parent S js b n of None \<Rightarrow> 0 | Some p \<Rightarrow> p) (-1) [Rose n []]" by (simp add: shifted_parent_def p)
  qed
  then show "shift_tree S (map dot_n_node js) b = shift_tree S js b" by (simp add: shift_tree_def)
qed

lemma on_tree_ends:
  assumes "f (tp_tree w) = Some (zemit e z)" "longer (tp_tree w) z"
  shows "\<exists>u. on_tree f w = Some (page_call e u) \<and> tp_tree u = zemit e z"
proof -
  obtain l where l: "zt_log z = zt_log (tp_tree w) @ l" using assms(2) by (auto simp: longer_def prefix_def)
  have k: "tp_tree (fold page_call es u) = tp_tree u" for es u
    by (induction es arbitrary: u) (auto simp: page_call_def Let_def split: zeffect.split)
  show ?thesis
    using assms(1) by (intro exI [of _ "fold page_call l (w\<lparr>tp_tree := zemit e z\<rparr>)"]) (simp add: on_tree_def l log_simps k)
qed

lemma page_call_tree: "tp_tree (page_call e w) = tp_tree w"
  by (auto simp: page_call_def Let_def split: zeffect.split)

text \<open>
  Each call is an event of the page (\<open>page_step\<close>) or leaves it: so what a tree does on a page is part of the
  page's runs, of which the properties of the pages speak.
\<close>

lemma page_call_steps:
  assumes "hd_before_async H = jq_loading" "hd_async_success H = jq_unloading"
    and "\<And>n. e = Trigger ''ztree_async_success'' n \<or> e = Trigger ''ztree_async_error'' n \<Longrightarrow> Tree_Request \<in> set (pg_requests (tp_page w))"
  shows "tp_page (page_call e w) = tp_page w \<or> (\<exists>ev \<in> {Tree_Load, Tree_Reply, Tree_Error}. page_step H ev (tp_page w) (tp_page (page_call e w)))"
proof -
  let ?p = "tp_page w"
  have load: "page_step H Tree_Load ?p ((jq_loading ?p)\<lparr>pg_requests := pg_requests ?p @ [Tree_Request]\<rparr>)"
    using step_tree_load [of H ?p] assms(1) by simp
  have "page_step H Tree_Reply ?p (jq_unloading (?p\<lparr>pg_requests := remove1 Tree_Request (pg_requests ?p)\<rparr>)) \<and>
      page_step H Tree_Error ?p (?p\<lparr>pg_requests := remove1 Tree_Request (pg_requests ?p)\<rparr>)" if pending: "Tree_Request \<in> set (pg_requests ?p)"
  proof -
    obtain rs rs' where r: "pg_requests ?p = rs @ Tree_Request # rs'" "Tree_Request \<notin> set rs" using split_list_first [OF pending] by blast
    then have "remove1 Tree_Request (pg_requests ?p) = rs @ rs'" by (simp add: remove1_append)
    then show ?thesis using step_tree_reply [OF r(1), of H] step_tree_error [OF r(1), of H] assms(2) by simp
  qed
  then show ?thesis using load assms(3) by (auto simp: page_call_def Let_def jq_loading_def emit_def split: zeffect.split)
qed

lemma tree_setting_simps:
  "zs_simple (tree_setting B ts)" "zs_idKey (tree_setting B ts) = ''id''" "zs_pIdKey (tree_setting B ts) = ''pId''"
  "zs_dataFilter (tree_setting B ts) = map dot_n_node" "\<not> zs_keepLeaf (tree_setting B ts)" "zs_async (tree_setting B ts)"
  "zs_asyncUrl (tree_setting B ts) = ts_url ts" "may (tree_setting B ts) ''beforeAsync'' n z"
  by (simp_all add: tree_setting_def may_def)

lemma async_success_ends:
  assumes "async_success S r js z = Some z'" "zr_ver r = zt_ver z" "zr_callback r = No_Async_Cb"
  shows "\<exists>v. z' = zemit (Trigger ''ztree_async_success'' (zr_node r)) v \<and> longer z v"
proof -
  define x where "x = (case zr_node r of None \<Rightarrow> z | Some n \<Rightarrow> setNodeLineIcos S n (upd_node n (\<lambda>v. v\<lparr>zn_isAjaxing := False, zn_zAsync := True\<rparr>) z))"
  define y where "y = clone_nodes (zs_dataFilter S js) x"
  obtain v where v: "addNodes S (zr_node r) (-1) (fst y) (zr_silent r) (snd y) = Some v" "z' = zemit (Trigger ''ztree_async_success'' (zr_node r)) v"
    using assms unfolding async_success_def Let_def x_def [symmetric] y_def [symmetric] case_prod_beta
    by (auto simp: run_async_callback_def split: bind_splits)
  have "longer z x"
  proof (cases "zr_node r")
    case (Some n)
    have "longer (upd_node n (\<lambda>v. v\<lparr>zn_isAjaxing := False, zn_zAsync := True\<rparr>) z) x" unfolding x_def Some option.case by (rule longer_drawing)
    then show ?thesis by (simp add: longer_def log_simps)
  qed (simp add: x_def)
  moreover have "longer (snd y) v" by (rule longer_addNodes [OF v(1)])
  moreover have "zt_log (snd y) = zt_log x" by (simp add: y_def log_clone)
  ultimately have "longer z v" by (auto simp: longer_def intro: prefix_order.trans)
  then show ?thesis using v(2) by blast
qed

lemma async_error_quiet:
  obtains l where "zt_log (async_error S r z) = zt_log z @ l" "\<forall>e \<in> set l. \<forall>u. pg_blocked (tp_page (page_call e u)) = pg_blocked (tp_page u)"
proof -
  have ico: "\<exists>l. zt_log (setNodeLineIcos S n y) = zt_log y @ l \<and> (\<forall>e \<in> set l. \<forall>u. pg_blocked (tp_page (page_call e u)) = pg_blocked (tp_page u))" for n y
    unfolding setNodeLineIcos_def Let_def nodeIsParent_def case_prod_conv by (simp add: log_simps page_call_def)
  have "\<exists>l. zt_log (async_error S r z) = zt_log z @ l \<and> (\<forall>e \<in> set l. \<forall>u. pg_blocked (tp_page (page_call e u)) = pg_blocked (tp_page u))"
  proof (cases "zr_node r")
    case None
    then show ?thesis by (simp add: async_error_def Let_def log_simps page_call_def)
  next
    case (Some n)
    obtain l where "zt_log (setNodeLineIcos S n (upd_node n (zn_isAjaxing_update (\<lambda>_. False)) z)) = zt_log z @ l"
      "\<forall>e \<in> set l. \<forall>u. pg_blocked (tp_page (page_call e u)) = pg_blocked (tp_page u)"
      using ico [of n "upd_node n (zn_isAjaxing_update (\<lambda>_. False)) z"] by (auto simp: log_simps)
    then show ?thesis by (auto simp: async_error_def Let_def Some log_simps page_call_def)
  qed
  then show ?thesis using that by blast
qed

lemma tree_answers:
  fixes B ts defines "S \<equiv> tree_setting B ts"
  assumes "tree_ok S (tp_tree w) T" "zr_ver r = zt_ver (tp_tree w)" "zr_callback r = No_Async_Cb" "ordered_rows S js" "js \<noteq> []"
    "\<forall>j \<in> set js. jfield j ''name'' \<noteq> None" "\<And>n. zr_node r = Some n \<Longrightarrow> n \<in> nodes_of T"
  shows "(\<exists>w'. tree_success B ts r js w = Some w' \<and> \<not> pg_blocked (tp_page w') \<and>
      tree_ok S (tp_tree w') (graft (case zr_node r of None \<Rightarrow> 0 | Some n \<Rightarrow> n) (-1) (subs (shift_tree S js (zt_next (tp_tree w)))) T) \<and>
      (\<forall>i < length js. \<forall>k. k \<noteq> ''pId'' \<longrightarrow> attr (tp_tree w') (zt_next (tp_tree w) + i) k = jfield (dot_n_node (js ! i)) k)) \<and>
    (\<exists>w'. tree_error B ts r w = Some w' \<and> pg_blocked (tp_page w') = pg_blocked (tp_page w) \<and> tree_ok S (tp_tree w') T)"
proof -
  note s = tree_setting_simps [of B ts, folded S_def]
  have rows: "ordered_rows S (map dot_n_node js)" "shift_tree S (map dot_n_node js) b = shift_tree S js b" for b
    using rows_dot_n [of S js] assms(5) s(2,3) by simp_all
  have k: "zs_idKey S \<noteq> ''''" "map dot_n_node js \<noteq> []" "map dot_n_node js = zs_dataFilter S js"
    "\<And>n. zr_node r = Some n \<Longrightarrow> n \<in> nodes_of T \<and> (isParent (tp_tree w) n \<or> \<not> zs_keepLeaf S)"
    using s assms(6,8) by simp_all
  note a = answer_ends_loading [OF assms(2-4) s(1) k(1) rows(1) k(2-4)]
  obtain z' where z': "async_success S r js (tp_tree w) = Some z'"
    "tree_ok S z' (graft (case zr_node r of None \<Rightarrow> 0 | Some n \<Rightarrow> n) (-1) (subs (shift_tree S js (zt_next (tp_tree w)))) T)"
    "\<forall>i < length js. \<forall>k. k \<noteq> ''pId'' \<longrightarrow> attr z' (zt_next (tp_tree w) + i) k = jfield (dot_n_node (js ! i)) k"
    using a rows(2) s(3) by auto
  obtain v where v: "z' = zemit (Trigger ''ztree_async_success'' (zr_node r)) v" "longer (tp_tree w) v"
    using async_success_ends [OF z'(1) assms(3,4)] by blast
  obtain u where u: "on_tree (async_success S r js) w = Some (page_call (Trigger ''ztree_async_success'' (zr_node r)) u)" "tp_tree u = z'"
    using on_tree_ends [of "async_success S r js" w] z'(1) v by blast
  have "\<not> (zr_ver r = zt_ver (tp_tree w) \<and> (\<exists>j \<in> set js. jfield j ''name'' = None))" using assms(7) by blast
  then have "tree_success B ts r js w = Some (page_call (Trigger ''ztree_async_success'' (zr_node r)) u)"
    using u(1) by (simp add: tree_success_def S_def)
  moreover have "\<not> pg_blocked (tp_page (page_call (Trigger ''ztree_async_success'' (zr_node r)) u))"
    by (simp add: page_call_def jq_unloading_def Let_def)
  ultimately have success: "\<exists>w'. tree_success B ts r js w = Some w' \<and> \<not> pg_blocked (tp_page w') \<and>
      tree_ok S (tp_tree w') (graft (case zr_node r of None \<Rightarrow> 0 | Some n \<Rightarrow> n) (-1) (subs (shift_tree S js (zt_next (tp_tree w)))) T) \<and>
      (\<forall>i < length js. \<forall>k. k \<noteq> ''pId'' \<longrightarrow> attr (tp_tree w') (zt_next (tp_tree w) + i) k = jfield (dot_n_node (js ! i)) k)"
    using z'(2,3) by (intro exI [of _ "page_call (Trigger ''ztree_async_success'' (zr_node r)) u"]) (simp add: page_call_tree u(2))
  obtain l where l: "zt_log (async_error S r (tp_tree w)) = zt_log (tp_tree w) @ l" "\<forall>e \<in> set l. \<forall>u. pg_blocked (tp_page (page_call e u)) = pg_blocked (tp_page u)"
    by (rule async_error_quiet)
  have quiet: "pg_blocked (tp_page (fold page_call l u)) = pg_blocked (tp_page u)" for u
    using l(2) by (induction l arbitrary: u) simp_all
  have tree: "tp_tree (fold page_call l u) = tp_tree u" for u
    by (induction l arbitrary: u) (simp_all add: page_call_tree)
  have "tree_error B ts r w = Some (fold page_call l (w\<lparr>tp_tree := async_error S r (tp_tree w)\<rparr>))"
    by (simp add: tree_error_def on_tree_def S_def [symmetric] l(1))
  moreover have "tree_ok S (async_error S r (tp_tree w)) T" using a by blast
  ultimately have "\<exists>w'. tree_error B ts r w = Some w' \<and> pg_blocked (tp_page w') = pg_blocked (tp_page w) \<and> tree_ok S (tp_tree w') T"
    by (simp add: quiet tree)
  with success show ?thesis by blast
qed

text \<open>
  The requests of such a tree name the root, also those for the nodes below another: the parameter
  \<open>id\<close> that \<open>autoParam\<close> takes from the node is overridden by that of \<open>otherParam\<close>.
\<close>

lemma tree_request_names_root:
  assumes "asyncNode (tree_setting B ts) node silent cb z = Some (True, z')"
  shows "\<exists>ps. last (zt_log z') = Ajax node ps \<and> map_of ps ''id'' = Some (Some (ts_rootId ts))"
proof -
  have other: "zs_otherParam (tree_setting B ts) = [(''otherParam'', ''zTreeAsyncTest''), (''id'', ts_rootId ts)]"
    by (simp add: tree_setting_def)
  have "map_of (set_params (map (\<lambda>(k, v). (k, Some v)) (zs_otherParam (tree_setting B ts))) qs) ''id'' = Some (Some (ts_rootId ts))" for qs
    unfolding set_params_lookup other by simp
  then show ?thesis using assms by (auto simp: asyncNode_def Let_def log_simps split: if_splits option.splits)
qed

section \<open>The first request\<close>

lemma init_empty:
  assumes "0 < zt_next z" "zs_simple S" "zs_async S" "zs_asyncUrl S \<noteq> ''''" "may S ''beforeAsync'' None y"
    "y = bindEvent (unbindEvent (bindTree S (unbindTree (initCache (set_children 0 (Some []) (initRoot now (zemit (Empty_Elem (zs_treeId S)) z)))))))"
  shows "tree_ok S y (Rose 0 [])" "zt_pending y = zt_pending z" "zt_next y = zt_next z"
    "\<exists>ps. zTree_init S [] now z = Some ((zemit (Ajax None ps) y)\<lparr>zt_pending := zt_pending z @
       [\<lparr>zr_node = None, zr_silent = False, zr_callback = No_Async_Cb, zr_ver = zt_ver y\<rparr>]\<rparr>)"
proof -
  define x where "x = initCache (set_children 0 (Some []) (initRoot now (zemit (Empty_Elem (zs_treeId S)) z)))"
  have s: "same x y" unfolding assms(6) x_def by (rule same_bindings)
  have x: "zt_next x = zt_next z" "nodeChildren x 0 = Some []" "zt_cache x = Map.empty" "zt_selected x = []" "zt_pending x = zt_pending z"
    by (simp_all add: x_def initCache_def initRoot_def set_children_def upd_node_def zemit_def nodeChildren_def)
  have "tree_ok S x (Rose 0 [])"
    using assms(1) x by (simp add: tree_ok_def placed_def child_list_def)
  then show "tree_ok S y (Rose 0 [])" by (rule same_tree_ok [OF s])
  show p: "zt_pending y = zt_pending z" "zt_next y = zt_next z" using s x(1,5) by (simp_all add: same_def)
  show "\<exists>ps. zTree_init S [] now z = Some ((zemit (Ajax None ps) y)\<lparr>zt_pending := zt_pending z @
       [\<lparr>zr_node = None, zr_silent = False, zr_callback = No_Async_Cb, zr_ver = zt_ver y\<rparr>]\<rparr>)"
    using assms(2-6) p(1) by (auto simp: zTree_init_def transformTozTreeFormat_def asyncNode_def Let_def zemit_def)
qed

lemma shift_tree_rid: "rid (shift_tree S js b) = 0"
proof -
  have "rid (fold (\<lambda>n. graft (f n) (-1) [Rose n []]) rows T) = rid T" for f rows T
    by (induction rows arbitrary: T) simp_all
  then show ?thesis by (simp add: shift_tree_def rows_tree_def)
qed

lemma bindings_log:
  "\<exists>l. zt_log (bindEvent (unbindEvent (bindTree S (unbindTree (initCache (set_children 0 (Some []) (initRoot now (zemit (Empty_Elem e) z)))))))) = zt_log z @ l \<and>
    (\<forall>e \<in> set l. \<forall>w. page_call e w = w)"
  by (simp add: bindEvent_def unbindEvent_def callback_events_def bindTree_def unbindTree_def tree_events_def initCache_def initRoot_def
      log_simps page_call_def)

text \<open>Setting up a tree is the event \<open>Tree_Init\<close> of its page.\<close>

lemma jq_tree_step:
  assumes "0 < zt_next (tp_tree w)" "ts_url ts \<noteq> ''''" "hd_before_async H = jq_loading"
  shows "\<exists>w'. jq_tree B ts now w = Some w' \<and> page_step H Tree_Init (tp_page w) (tp_page w')"
proof -
  define S where "S = tree_setting B ts"
  note s = tree_setting_simps [of B ts, folded S_def]
  define y where "y = bindEvent (unbindEvent (bindTree S (unbindTree (initCache (set_children 0 (Some [])
    (initRoot now (zemit (Empty_Elem (zs_treeId S)) (tp_tree w))))))))"
  define p where "p = (tp_page w)\<lparr>pg_requests := filter (\<lambda>r. r \<noteq> Tree_Request) (pg_requests (tp_page w))\<rparr>"
  have url: "zs_asyncUrl S \<noteq> ''''" using s(7) assms(2) by simp
  obtain ps where z: "zTree_init S [] now (tp_tree w) = Some ((zemit (Ajax None ps) y)\<lparr>zt_pending := zt_pending (tp_tree w) @
      [\<lparr>zr_node = None, zr_silent = False, zr_callback = No_Async_Cb, zr_ver = zt_ver y\<rparr>]\<rparr>)"
    using init_empty(4) [OF assms(1) s(1,6) url s(8) y_def] by blast
  obtain l where l: "zt_log y = zt_log (tp_tree w) @ l" "\<forall>e \<in> set l. \<forall>w. page_call e w = w"
    using bindings_log [of S now "zs_treeId S" "tp_tree w", folded y_def] by blast
  have "fold page_call l u = u" for u using l(2) by (induction l arbitrary: u) simp_all
  then have "\<exists>w'. jq_tree B ts now w = Some w' \<and>
      tp_page w' = (jq_loading p)\<lparr>pg_requests := pg_requests (jq_loading p) @ [Tree_Request]\<rparr>"
    using z l(1) by (simp add: jq_tree_def on_tree_def S_def [symmetric] p_def [symmetric] log_simps page_call_def Let_def)
  moreover have "(jq_loading p)\<lparr>pg_requests := pg_requests (jq_loading p) @ [Tree_Request]\<rparr> =
      (jq_loading (tp_page w))\<lparr>pg_requests := filter (\<lambda>r. r \<noteq> Tree_Request) (pg_requests (tp_page w)) @ [Tree_Request]\<rparr>"
    by (simp add: p_def jq_loading_def emit_def)
  ultimately show ?thesis using step_tree_init [of H "tp_page w"] assms(3) by auto
qed

text \<open>C13: A page that sets up its tree sends a request for the nodes and puts the loading mask up. An answer of rows,
  each after its parent, fills the tree as their parent ids say, with the names as the page's filter rewrites them,
  and takes the mask away; but a request that fails leaves the tree empty and the mask up, since the page has no
  callback for it.\<close>

theorem tree_first_load:
  fixes B ts defines "S \<equiv> tree_setting B ts"
  assumes "0 < zt_next (tp_tree w)" "ts_url ts \<noteq> ''''" "ordered_rows S js" "js \<noteq> []" "\<forall>j \<in> set js. jfield j ''name'' \<noteq> None"
  shows "\<exists>w' r. jq_tree B ts now w = Some w' \<and> zt_pending (tp_tree w') = zt_pending (tp_tree w) @ [r] \<and> zr_node r = None \<and>
    pg_blocked (tp_page w') \<and>
    (\<exists>u. tree_success B ts r js w' = Some u \<and> \<not> pg_blocked (tp_page u) \<and>
      tree_ok S (tp_tree u) (shift_tree S js (zt_next (tp_tree w))) \<and>
      (\<forall>i < length js. \<forall>k. k \<noteq> ''pId'' \<longrightarrow> attr (tp_tree u) (zt_next (tp_tree w) + i) k = jfield (dot_n_node (js ! i)) k)) \<and>
    (\<exists>u. tree_error B ts r w' = Some u \<and> pg_blocked (tp_page u) \<and> tree_ok S (tp_tree u) (Rose 0 []))"
proof -
  note s = tree_setting_simps [of B ts, folded S_def]
  define y where "y = bindEvent (unbindEvent (bindTree S (unbindTree (initCache (set_children 0 (Some [])
    (initRoot now (zemit (Empty_Elem (zs_treeId S)) (tp_tree w))))))))"
  define r where "r = \<lparr>zr_node = None, zr_silent = False, zr_callback = No_Async_Cb, zr_ver = zt_ver y\<rparr>"
  have url: "zs_asyncUrl S \<noteq> ''''" using s(7) assms(3) by simp
  note i = init_empty [OF assms(2) s(1,6) url s(8) y_def]
  obtain ps where z: "zTree_init S [] now (tp_tree w) = Some ((zemit (Ajax None ps) y)\<lparr>zt_pending := zt_pending (tp_tree w) @ [r]\<rparr>)"
    using i(4) by (auto simp: r_def)
  define z where "z = (zemit (Ajax None ps) y)\<lparr>zt_pending := zt_pending (tp_tree w) @ [r]\<rparr>"
  have same: "tree_ok S z (Rose 0 [])"
    using i(1) by (simp add: tree_ok_def z_def zemit_def placed_def child_list_def nodeChildren_def Let_def)
  obtain l where l: "zt_log y = zt_log (tp_tree w) @ l"
    using bindings_log [of S now "zs_treeId S" "tp_tree w", folded y_def] by blast
  define w' where "w' = fold page_call (l @ [Ajax None ps])
    (w\<lparr>tp_page := (tp_page w)\<lparr>pg_requests := filter (\<lambda>r. r \<noteq> Tree_Request) (pg_requests (tp_page w))\<rparr>, tp_tree := z\<rparr>)"
  have jq: "jq_tree B ts now w = Some w'"
    using z l by (simp add: jq_tree_def on_tree_def S_def [symmetric] z_def [symmetric] w'_def) (simp add: z_def log_simps)
  have tree: "tp_tree (fold page_call es u) = tp_tree u" for es u
    by (induction es arbitrary: u) (simp_all add: page_call_tree)
  then have t: "tp_tree w' = z" by (simp add: w'_def page_call_tree)
  have b: "pg_blocked (tp_page w')" by (simp add: w'_def page_call_def jq_loading_def Let_def)
  have ok: "tree_ok S (tp_tree w') (Rose 0 [])" "zr_ver r = zt_ver (tp_tree w')" "zr_callback r = No_Async_Cb" "zr_node r = None"
    "zt_next (tp_tree w') = zt_next (tp_tree w)" "zt_pending (tp_tree w') = zt_pending (tp_tree w) @ [r]"
    using same i(3) by (simp_all add: t) (simp_all add: z_def r_def zemit_def)
  have "graft 0 (-1) (subs (shift_tree S js b)) (Rose 0 []) = shift_tree S js b" for b
    using shift_tree_rid [of S js b] by (cases "shift_tree S js b") (simp add: insert_at_def)
  then show ?thesis
    using tree_answers [where B = B and ts = ts and w = w' and T = "Rose 0 []" and r = r and js = js, folded S_def, OF ok(1-3) assms(4-6)] jq ok(4-6) b
    by (intro exI [of _ w'] exI [of _ r]) auto
qed

definition sample_tree_page :: tree_page where
  "sample_tree_page = \<lparr>tp_page = \<lparr>pg_has = (\<lambda>_. False), pg_attr = (\<lambda>_ _. None), pg_val = (\<lambda>_. None), pg_html = (\<lambda>_. None),
     pg_visible = (\<lambda>_. False), pg_class = (\<lambda>_ _. False), pg_checked = (\<lambda>_. False), pg_height = 600, pg_width = 800,
     pg_blocked = False, pg_parent = False,
     pg_grid = (\<lambda>_. \<lparr>jg_selrow = None, jg_selarrrow = 0, jg_multiselect = False, jg_rowid = (\<lambda>_. None)\<rparr>),
     pg_arrays = (\<lambda>_. []), pg_rows = [], pg_dialogs = [], pg_requests = [], pg_log = []\<rparr>, tp_tree = new_ztree, tp_curExpandNode = None\<rparr>"

definition sample_tree_settings :: tree_settings where
  "sample_tree_settings = \<lparr>ts_element = ''orgsTree'', ts_url = ''tree'', ts_rootId = ''1'', ts_checkbox = False, ts_onClick = True, ts_onDblClick = False\<rparr>"

definition sample_browser :: browser where
  "sample_browser = \<lparr>bw_has = (\<lambda>_ _. True), bw_class = (\<lambda>_ _. None), bw_count = (\<lambda>_ _. 0)\<rparr>"

theorem tree_first_load_witness:
  "\<exists>w' r. jq_tree sample_browser sample_tree_settings 5 sample_tree_page = Some w' \<and>
    (\<exists>u. tree_success sample_browser sample_tree_settings r sample_answer w' = Some u \<and> \<not> pg_blocked (tp_page u) \<and>
      attr (tp_tree u) 2 ''name'' = Some ''Lyon'') \<and>
    (\<exists>u. tree_error sample_browser sample_tree_settings r w' = Some u \<and> pg_blocked (tp_page u))"
proof -
  have p: "0 < zt_next (tp_tree sample_tree_page)" "zt_next (tp_tree sample_tree_page) = 1" "ts_url sample_tree_settings \<noteq> ''''"
    by (simp_all add: sample_tree_page_def new_ztree_def sample_tree_settings_def)
  have o: "ordered_rows (tree_setting sample_browser sample_tree_settings) sample_answer"
  proof -
    have k: "zs_idKey (sample_setting True) = ''id''" "zs_pIdKey (sample_setting True) = ''pId''" by (simp_all add: sample_setting_def)
    show ?thesis using sample_answer_ordered unfolding ordered_rows_def jparent_def k tree_setting_simps(2,3) .
  qed
  have a: "sample_answer \<noteq> []" "\<forall>j \<in> set sample_answer. jfield j ''name'' \<noteq> None" "1 < length sample_answer"
    "jfield (dot_n_node (sample_answer ! 1)) ''name'' = Some ''Lyon''"
    by (simp_all add: sample_answer_def jfield_def dot_n_node_def)
  obtain w' r u v where w: "jq_tree sample_browser sample_tree_settings 5 sample_tree_page = Some w'"
    "tree_success sample_browser sample_tree_settings r sample_answer w' = Some u" "\<not> pg_blocked (tp_page u)"
    "\<forall>i < length sample_answer. \<forall>k. k \<noteq> ''pId'' \<longrightarrow> attr (tp_tree u) (zt_next (tp_tree sample_tree_page) + i) k = jfield (dot_n_node (sample_answer ! i)) k"
    "tree_error sample_browser sample_tree_settings r w' = Some v" "pg_blocked (tp_page v)"
    using tree_first_load [OF p(1,3) o a(1,2), of 5] by blast
  have "attr (tp_tree u) 2 ''name'' = Some ''Lyon''" using w(4) a(3,4) p(2) by (auto dest!: spec [of _ 1] spec [of _ "''name''"] simp: numeral_2_eq_2)
  then show ?thesis using w(1-3,5,6) by blast
qed

end
