(* ===== verification/ZTree_Collect.thy ===== *)
theory ZTree_Collect
  imports ZTree_Boxes
begin

text \<open>
  Collecting nodes by their boxes, and checking all boxes of a tree at once: for every tree, with
  hidden and disabled boxes.
\<close>

section \<open>Collecting\<close>

lemma getTreeCheckedNodes_Cons:
  assumes "\<not> only_one C b"
  shows "getTreeCheckedNodes (Suc k) C c (n # ns) b r =
    Option.bind (getTreeCheckedNodes k C c (child_list (ct_z c) n) b (r @ (if can_check c n \<and> nodeChecked c n = b then [n] else [])))
      (getTreeCheckedNodes (Suc k) C c ns b)"
  using assms by (simp add: Let_def)

lemma bind_append:
  "(\<And>r. f r = map_option ((@) r) (f [])) \<Longrightarrow> (\<And>r. g r = map_option ((@) r) (g [])) \<Longrightarrow>
    Option.bind (f (r @ q)) g = map_option ((@) r) (Option.bind (f q) g)"
  by (cases "f []"; cases "g []") (metis append_assoc bind.bind_lunit bind.bind_lzero option.map)+

lemma getTreeCheckedNodes_acc:
  assumes "\<not> only_one C b"
  shows "getTreeCheckedNodes k C c ns b r = map_option ((@) r) (getTreeCheckedNodes k C c ns b [])"
proof (induction k arbitrary: ns r)
  case (Suc k)
  note outer = Suc.IH
  show ?case
  proof (induction ns arbitrary: r)
    case (Cons n ns)
    show ?case
      unfolding getTreeCheckedNodes_Cons [OF assms]
      using bind_append [of "getTreeCheckedNodes k C c (child_list (ct_z c) n) b" "getTreeCheckedNodes (Suc k) C c ns b" r, OF outer Cons.IH]
      by (simp only: append_Nil)
  qed simp
qed simp

lemma getTreeChangeCheckedNodes_Cons:
  "getTreeChangeCheckedNodes (Suc k) c (n # ns) r =
    Option.bind (getTreeChangeCheckedNodes k c (child_list (ct_z c) n)
        (r @ (if can_check c n \<and> nodeChecked c n \<noteq> cn_checkedOld (ct_node c n) then [n] else [])))
      (getTreeChangeCheckedNodes (Suc k) c ns)"
  by (simp add: Let_def)

lemma getTreeChangeCheckedNodes_acc:
  "getTreeChangeCheckedNodes k c ns r = map_option ((@) r) (getTreeChangeCheckedNodes k c ns [])"
proof (induction k arbitrary: ns r)
  case (Suc k)
  note outer = Suc.IH
  show ?case
  proof (induction ns arbitrary: r)
    case (Cons n ns)
    show ?case
      unfolding getTreeChangeCheckedNodes_Cons
      using bind_append [of "getTreeChangeCheckedNodes k c (child_list (ct_z c) n)" "getTreeChangeCheckedNodes (Suc k) c ns" r, OF outer Cons.IH]
      by (simp only: append_Nil)
  qed simp
qed simp

definition hits :: "csetting \<Rightarrow> ctree \<Rightarrow> bool \<Rightarrow> nid list \<Rightarrow> nid list" where
  \<comment> \<open>the nodes with a usable box in this state: all, or the first\<close>
  "hits C c b ns = (if only_one C b then take 1 (filter (\<lambda>n. can_check c n \<and> nodeChecked c n = b) ns)
     else filter (\<lambda>n. can_check c n \<and> nodeChecked c n = b) ns)"

interpretation checked: preorder_search "ct_z c" "\<lambda>k ns. getTreeCheckedNodes k C c ns b []" "hits C c b" for C c b
proof unfold_locales
  fix k n xs ns ys
  assume k: "getTreeCheckedNodes k C c (child_list (ct_z c) n) b [] = Some (hits C c b xs)"
    and s: "getTreeCheckedNodes (Suc k) C c ns b [] = Some (hits C c b ys)"
  show "getTreeCheckedNodes (Suc k) C c (n # ns) b [] = Some (hits C c b (n # xs @ ys))"
  proof (cases "only_one C b")
    case True
    then show ?thesis using k s by (cases "filter (\<lambda>n. can_check c n \<and> nodeChecked c n = b) xs") (auto simp: hits_def Let_def)
  next
    case False
    define q where "q = (if can_check c n \<and> nodeChecked c n = b then [n] else [])"
    have "getTreeCheckedNodes k C c (child_list (ct_z c) n) b q = Some (q @ hits C c b xs)"
      by (subst getTreeCheckedNodes_acc [OF False]) (simp add: k)
    moreover have "getTreeCheckedNodes (Suc k) C c ns b (q @ hits C c b xs) = Some ((q @ hits C c b xs) @ hits C c b ys)"
      by (subst getTreeCheckedNodes_acc [OF False]) (simp only: s option.map)
    ultimately have "getTreeCheckedNodes (Suc k) C c (n # ns) b [] = Some ((q @ hits C c b xs) @ hits C c b ys)"
      unfolding getTreeCheckedNodes_Cons [OF False] by (simp only: append_Nil q_def [symmetric] bind.bind_lunit)
    then show ?thesis using False by (simp add: hits_def q_def)
  qed
qed (simp add: hits_def)

interpretation changed: preorder_search "ct_z c" "\<lambda>k ns. getTreeChangeCheckedNodes k c ns []"
    "filter (\<lambda>n. can_check c n \<and> nodeChecked c n \<noteq> cn_checkedOld (ct_node c n))" for c
proof unfold_locales
  fix k n xs ns ys
  define P where "P = (\<lambda>n. can_check c n \<and> nodeChecked c n \<noteq> cn_checkedOld (ct_node c n))"
  define q where "q = (if can_check c n \<and> nodeChecked c n \<noteq> cn_checkedOld (ct_node c n) then [n] else [])"
  assume k: "getTreeChangeCheckedNodes k c (child_list (ct_z c) n) [] = Some (filter (\<lambda>n. can_check c n \<and> nodeChecked c n \<noteq> cn_checkedOld (ct_node c n)) xs)"
    and s: "getTreeChangeCheckedNodes (Suc k) c ns [] = Some (filter (\<lambda>n. can_check c n \<and> nodeChecked c n \<noteq> cn_checkedOld (ct_node c n)) ys)"
  have "getTreeChangeCheckedNodes k c (child_list (ct_z c) n) q = Some (q @ filter P xs)"
    by (subst getTreeChangeCheckedNodes_acc) (simp only: k [folded P_def] option.map)
  moreover have "getTreeChangeCheckedNodes (Suc k) c ns (q @ filter P xs) = Some ((q @ filter P xs) @ filter P ys)"
    by (subst getTreeChangeCheckedNodes_acc) (simp only: s [folded P_def] option.map)
  ultimately have "getTreeChangeCheckedNodes (Suc k) c (n # ns) [] = Some ((q @ filter P xs) @ filter P ys)"
    unfolding getTreeChangeCheckedNodes_Cons by (simp only: append_Nil q_def [symmetric] bind.bind_lunit)
  moreover have "(q @ filter P xs) @ filter P ys = filter P (n # xs @ ys)" by (simp add: q_def P_def)
  ultimately show "getTreeChangeCheckedNodes (Suc k) c (n # ns) [] =
      Some (filter (\<lambda>n. can_check c n \<and> nodeChecked c n \<noteq> cn_checkedOld (ct_node c n)) (n # xs @ ys))"
    unfolding P_def [symmetric] by simp
qed simp

section \<open>Checking all boxes\<close>

lemma repairAll_forest:
  assumes "\<forall>t \<in> set ts. shape z t \<and> height t < k" "distinct (forest_nids ts)" "0 \<notin> set (forest_nids ts)" "child_list (ct_z c) = child_list z"
    "depth_bound c = k"
  shows "\<exists>c'. foldM (\<lambda>n c.
              let c = (if \<not> cn_nocheck (ct_node c n) \<and> \<not> cn_chkDisabled (ct_node c n) then set_nodeChecked n b c else c)
              in setSonNodeCheckBox (depth_bound c) C n b n c) (map rid ts) c = Some c' \<and>
    touches (set (forest_nids ts)) c c' \<and>
    (\<forall>m \<in> set (forest_nids ts). nodeChecked c' m = (if can_check c m then b else nodeChecked c m)) \<and>
    ((\<forall>m \<in> set (forest_nids ts). can_check c m) \<longrightarrow>
      (\<forall>m \<in> set (forest_nids ts). cn_childState (ct_node c' m) = (if child_list z m = [] then -1 else if b then 2 else 0)))"
  using assms
proof (induction ts arbitrary: c)
  case (Cons t ts)
  define n d where "n = rid t" and "d = (if \<not> cn_nocheck (ct_node c n) \<and> \<not> cn_chkDisabled (ct_node c n) then set_nodeChecked n b c else c)"
  have d: "touches {n} c d" using touches_set_nodeChecked by (simp add: d_def)
  have n: "n \<in> set (nids t)" unfolding n_def by (rule rid_nids)
  have split: "forest_nids (t # ts) = nids t @ forest_nids ts" "forest_nids [t] = nids t" by (simp_all add: forest_nids_def)
  have dj: "distinct (nids t)" "0 \<notin> set (nids t)" "distinct (forest_nids ts)" "0 \<notin> set (forest_nids ts)" "set (nids t) \<inter> set (forest_nids ts) = {}"
    using Cons.prems(2,3) unfolding split by auto
  have f: "fits k z [t]" using Cons.prems(1) by (auto simp: fits_def)
  have cl: "child_list (ct_z d) = child_list z" using touches_tree(1) [OF d] Cons.prems(4) by (auto simp: fun_eq_iff)
  have kd: "depth_bound d = k" using touches_tree(6) [OF d] Cons.prems(5) by simp
  obtain e where e: "foldM (\<lambda>s. setSonNodeCheckBox k C s b n) (map rid [t]) d = Some e" "touches (set (nids t)) d e"
    "\<forall>m \<in> set (nids t). nodeChecked e m = (if can_check d m then b else nodeChecked d m)"
    "(\<forall>m \<in> set (nids t). can_check d m) \<longrightarrow>
      (\<forall>m \<in> set (nids t). cn_childState (ct_node e m) = (if child_list z m = [] then -1 else if b then 2 else 0))"
    using setSonNodeCheckBox_checks [OF f, of d C b n] dj(1,2) cl unfolding split by blast
  have ce: "touches (set (nids t)) c e" by (rule touches_trans [OF touches_mono [OF d] e(2)]) (use n in simp)
  have cle: "child_list (ct_z e) = child_list z" using touches_tree(1) [OF ce] Cons.prems(4) by (auto simp: fun_eq_iff)
  have ke: "depth_bound e = k" using touches_tree(6) [OF ce] Cons.prems(5) by simp
  have sub: "\<forall>t \<in> set ts. shape z t \<and> height t < k" using Cons.prems(1) by simp
  obtain c' where c': "foldM (\<lambda>n c.
              let c = (if \<not> cn_nocheck (ct_node c n) \<and> \<not> cn_chkDisabled (ct_node c n) then set_nodeChecked n b c else c)
              in setSonNodeCheckBox (depth_bound c) C n b n c) (map rid ts) e = Some c'" "touches (set (forest_nids ts)) e c'"
    "\<forall>m \<in> set (forest_nids ts). nodeChecked c' m = (if can_check e m then b else nodeChecked e m)"
    "(\<forall>m \<in> set (forest_nids ts). can_check e m) \<longrightarrow>
      (\<forall>m \<in> set (forest_nids ts). cn_childState (ct_node c' m) = (if child_list z m = [] then -1 else if b then 2 else 0))"
    using Cons.IH [OF sub dj(3,4) cle ke] by (elim exE conjE) (rule that)
  have step: "setSonNodeCheckBox (depth_bound d) C n b n d = Some e" using e(1) by (simp add: n_def kd split: option.splits)
  have call: "foldM (\<lambda>n c.
              let c = (if \<not> cn_nocheck (ct_node c n) \<and> \<not> cn_chkDisabled (ct_node c n) then set_nodeChecked n b c else c)
              in setSonNodeCheckBox (depth_bound c) C n b n c) (map rid (t # ts)) c = Some c'"
    using c'(1) step by (simp add: n_def [symmetric] d_def [symmetric] Let_def)
  have all: "touches (set (forest_nids (t # ts))) c c'"
    by (rule touches_trans [OF touches_mono [OF ce] touches_mono [OF c'(2)]]) (auto simp: split)
  have can: "can_check d m = can_check c m" "can_check e m = can_check c m" for m using touchesD(6) [OF d] touchesD(6) [OF ce] by auto
  have at_t: "ct_node c' m = ct_node e m" if "m \<in> set (nids t)" for m using touchesD(5) [OF c'(2)] that dj(5) by blast
  have at_ts: "nodeChecked e m = nodeChecked c m" if "m \<in> set (forest_nids ts)" for m
  proof -
    have "m \<notin> set (nids t)" using that dj(5) by blast
    then show ?thesis using touchesD(5) [OF ce, of m] by (simp add: nodeChecked_def)
  qed
  have dn: "\<not> can_check c m \<Longrightarrow> nodeChecked d m = nodeChecked c m" for m
    by (auto simp: d_def nodeChecked_def can_check_def check_simps)
  have "nodeChecked c' m = (if can_check c m then b else nodeChecked c m)" if "m \<in> set (forest_nids (t # ts))" for m
    using that e(3) c'(3) at_t [of m] at_ts [of m] can dn [of m] unfolding split by (auto simp: nodeChecked_def)
  moreover have "cn_childState (ct_node c' m) = (if child_list z m = [] then -1 else if b then 2 else 0)"
    if "\<forall>m \<in> set (forest_nids (t # ts)). can_check c m" "m \<in> set (forest_nids (t # ts))" for m
    using that e(4) c'(4) at_t [of m] can unfolding split by auto
  ultimately show ?case using call all by blast
qed simp

end
