(* ===== verification/ZTree_Check_Props.thy ===== *)
theory ZTree_Check_Props
  imports ZTree_Leaves ZTree_Collect
begin

text \<open>
  The properties of the check boxes (jquery.ztree.excheck.js): what a click does to the tree, that the
  boxes go on showing their children, radio buttons, checking all boxes and collecting the nodes.
\<close>

section \<open>A tree to try them on\<close>

definition box_node :: "zsetting \<Rightarrow> nat \<Rightarrow> string option \<Rightarrow> nat \<Rightarrow> nid list option \<Rightarrow> bool \<Rightarrow> bool \<Rightarrow> znode" where
  "box_node S k parent level cs isFirst isLast = blank_node\<lparr>zn_isParent := FBool (cs \<noteq> None), zn_open := FBool False, zn_children := cs,
     zn_level := level, zn_tId := Some (make_tId S k), zn_parentTId := parent, zn_first := isFirst, zn_last := isLast\<rparr>"

definition box_ztree :: "zsetting \<Rightarrow> ztree" where
  \<comment> \<open>one node with two leaves\<close>
  "box_ztree S = new_ztree\<lparr>zt_heap := (\<lambda>_. blank_node)(0 := blank_node\<lparr>zn_children := Some [1]\<rparr>,
       1 := box_node S 1 None 0 (Some [2, 3]) True True,
       2 := box_node S 2 (Some (make_tId S 1)) 1 None True False,
       3 := box_node S 3 (Some (make_tId S 1)) 1 None False True), zt_next := 4,
     zt_cache := [decimal 1 \<mapsto> 1, decimal 2 \<mapsto> 2, decimal 3 \<mapsto> 3], zt_zId := 3\<rparr>"

definition box_rose :: rose where
  "box_rose = Rose 0 [Rose 1 [Rose 2 [], Rose 3 []]]"

lemma box_nids: "nids box_rose = [0, 1, 2, 3]" "nodes_of box_rose = {1, 2, 3}"
  by (auto simp: box_rose_def)

lemma box_heap:
  "zt_heap (box_ztree S) 1 = box_node S 1 None 0 (Some [2, 3]) True True"
  "zt_heap (box_ztree S) 2 = box_node S 2 (Some (make_tId S 1)) 1 None True False"
  "zt_heap (box_ztree S) 3 = box_node S 3 (Some (make_tId S 1)) 1 None False True"
  "child_list (box_ztree S) 0 = [1]" "child_list (box_ztree S) 1 = [2, 3]" "child_list (box_ztree S) 2 = []" "child_list (box_ztree S) 3 = []"
  "zt_next (box_ztree S) = 4" "zt_zId (box_ztree S) = 3" "zt_selected (box_ztree S) = []"
  by (simp_all add: box_ztree_def box_node_def child_list_def nodeChildren_def blank_node_def new_ztree_def)

lemma all_less_two: "(\<forall>i < Suc (Suc 0). P i) \<longleftrightarrow> P 0 \<and> P (Suc 0)" "(\<forall>i < Suc 0. P i) \<longleftrightarrow> P 0"
  by (auto simp: less_Suc_eq)

lemma box_tree_ok: "tree_ok S (box_ztree S) box_rose"
proof -
  have p: "placed (box_ztree S) 0" "placed (box_ztree S) 1" "placed (box_ztree S) 2" "placed (box_ztree S) 3"
    by (simp_all only: placed_def box_heap list.size) (simp_all add: all_less_two Let_def box_heap(1-3) [simplified] box_node_def)
  have t: "zn_tId (zt_heap (box_ztree S) n) = Some (make_tId S n)" "settled (zt_heap (box_ztree S) n)" if "n \<in> {1, 2, 3}" for n
    using that box_heap(1-3) by (auto simp: box_node_def blank_node_def settled_def)
  have c: "zt_cache (box_ztree S) key = Some n \<longleftrightarrow> n \<in> {1, 2, 3} \<and> key = decimal n" for key n
    by (auto simp: box_ztree_def decimal_inj)
  have i: "inj_on (\<lambda>n. zn_tId (zt_heap (box_ztree S) n)) {1, 2, 3}"
    by (rule inj_onI) (use t(1) make_tId_inj in auto)
  have sh: "shape (box_ztree S) box_rose" using box_heap(4-7) by (simp add: box_rose_def)
  have n: "set (nids box_rose) = {0, 1, 2, 3}" "set (nids box_rose) - {0} = {1, 2, 3}" by (auto simp: box_nids)
  have k: "settled (zt_heap (box_ztree S) m) \<and> (\<exists>k. 1 \<le> k \<and> k \<le> zt_zId (box_ztree S) \<and> zn_tId (zt_heap (box_ztree S) m) = Some (make_tId S k))"
    if m: "m \<in> {1, 2, 3}" for m
    using t [OF m] m by (intro conjI exI [of _ m]) (auto simp: box_heap(9))
  have key: "zt_cache (box_ztree S) key = Some m \<longleftrightarrow>
      m \<in> {1, 2, 3} \<and> key = getNodeCacheId (js_string (zn_tId (zt_heap (box_ztree S) m)))" for key m
    unfolding c by (rule conj_cong [OF refl]) (simp only: t js_string_simps getNodeCacheId_make)
  have "\<forall>m \<in> set (nids box_rose) - {root}. settled (zt_heap (box_ztree S) m) \<and>
      (\<exists>k. 1 \<le> k \<and> k \<le> zt_zId (box_ztree S) \<and> zn_tId (zt_heap (box_ztree S) m) = Some (make_tId S k))"
    unfolding n(2) using k by blast
  moreover have "\<forall>key m. zt_cache (box_ztree S) key = Some m \<longleftrightarrow>
      m \<in> set (nids box_rose) - {root} \<and> key = getNodeCacheId (js_string (zn_tId (zt_heap (box_ztree S) m)))"
    unfolding n(2) by (intro allI key)
  moreover have "\<forall>m \<in> set (nids box_rose). m < zt_next (box_ztree S) \<and> placed (box_ztree S) m"
    unfolding n(1) using p by (simp add: box_heap(8) del: One_nat_def)
  moreover have "rid box_rose = root" "distinct (nids box_rose)" "set (zt_selected (box_ztree S)) \<subseteq> set (nids box_rose) - {root}"
    "distinct (zt_selected (box_ztree S))" by (simp_all add: box_nids(1) box_rose_def box_heap(10))
  ultimately show ?thesis unfolding tree_ok_def using sh i [folded n(2)] by (intro conjI)
qed

definition box_setting :: "string \<Rightarrow> csetting" where
  \<comment> \<open>the defaults of the code, in one of its styles\<close>
  "box_setting style = \<lparr>cs_base = sample_setting False, cs_enable = True, cs_autoCheckTrigger = False, cs_chkStyle = style,
     cs_nocheckInherit = False, cs_chkDisabledInherit = False, cs_radioType = ''all'', cs_Y = ''ps'', cs_N = ''ps'',
     cs_checkedKey = ''checked'', cs_beforeCheck = None\<rparr>"

definition box_ctree :: "zsetting \<Rightarrow> ctree" where
  \<comment> \<open>the first leaf is checked, so the node above it is, and shown as partly checked\<close>
  "box_ctree S = \<lparr>ct_z = box_ztree S, ct_node = (\<lambda>_. blank_cnode)(1 := blank_cnode\<lparr>cn_checked := True, cn_childState := 1\<rparr>,
     2 := blank_cnode\<lparr>cn_checked := True\<rparr>), ct_radio = []\<rparr>"

lemma box_facts:
  "tree_ok S (ct_z (box_ctree S)) box_rose" "plain (box_ctree S) box_rose" "tells_leaves (box_ctree S) box_rose"
  "checked_leaves (box_ctree S) box_rose = {2}" "leaves_below 3 box_rose = {3}" "leaves_below 1 box_rose = {2, 3}" "leaves_below 2 box_rose = {2}"
  "may_check (box_setting style) n (box_ctree S)" "both ''ps''"
proof -
  note n = box_nids(2)
  show "tree_ok S (ct_z (box_ctree S)) box_rose" using box_tree_ok by (simp add: box_ctree_def)
  show "plain (box_ctree S) box_rose" unfolding plain_def n by (auto simp: plain_box_def box_ctree_def blank_cnode_def)
  show b: "leaves_below 3 box_rose = {3}" "leaves_below 1 box_rose = {2, 3}" "leaves_below 2 box_rose = {2}" by (auto simp: box_rose_def)
  have h: "child_list (ct_z (box_ctree S)) 1 = [2, 3]" "child_list (ct_z (box_ctree S)) 2 = []" "child_list (ct_z (box_ctree S)) 3 = []"
    by (simp_all only: box_ctree_def ctree.simps box_heap)
  have x: "nodeChecked (box_ctree S) m = (m = 1 \<or> m = 2)" for m by (simp add: box_ctree_def nodeChecked_def blank_cnode_def)
  have y: "tells (box_ctree S) box_rose m" if "m \<in> {1, 2, 3}" for m
  proof -
    have "tells (box_ctree S) box_rose 1" "tells (box_ctree S) box_rose 2" "tells (box_ctree S) box_rose 3"
      by (simp_all add: tells_def h [simplified] b [simplified] x) (simp_all add: box_ctree_def blank_cnode_def)
    then show ?thesis using that by blast
  qed
  show "tells_leaves (box_ctree S) box_rose" unfolding tells_leaves_def n using y by blast
  show "checked_leaves (box_ctree S) box_rose = {2}"
    unfolding checked_leaves_def n using h by (auto simp: x)
  show "may_check (box_setting style) n (box_ctree S)" by (simp add: may_check_def box_setting_def)
  show "both ''ps''" by (simp add: both_def)
qed

section \<open>Clicks\<close>

lemma toggle_off:
  assumes "tree_ok S (ct_z c) T" "n \<in> nodes_of T" "settled_tree C c T" and d_def: "d = set_nodeChecked n b c"
  shows "touches {n} c d" "touches (nodes_of T) c d" "settled_off C d T (ancestors (ct_z d) n)" "nodeChecked d m = (if m = n then b else nodeChecked c m)"
    "ct_radio d = ct_radio c" "ct_z d = ct_z c"
proof -
  show t: "touches {n} c d" unfolding d_def by (rule touches_set_nodeChecked)
  then show "touches (nodes_of T) c d" using touches_mono assms(2) by (metis empty_subsetI insert_subset)
  have "settled_off C d T (ancestors (ct_z c) n \<union> {})"
    by (rule off_box [OF assms(1,2) _ t]) (use assms(3) in \<open>simp_all add: settled_tree_def settled_off_def d_def check_simps\<close>)
  then show "settled_off C d T (ancestors (ct_z d) n)" by (simp add: touches_above(1) [OF t])
  show "nodeChecked d m = (if m = n then b else nodeChecked c m)" "ct_radio d = ct_radio c" "ct_z d = ct_z c"
    by (simp_all add: d_def nodeChecked_def check_simps radio_set_nodeChecked)
qed

lemma click_toggled:
  assumes "tree_ok S (ct_z c) T" "n \<in> nodes_of T" "\<forall>m \<in> nodes_of T. ok_box c m"
  shows "toggled (set_nodeChecked n b c) T n"
proof -
  define d where "d = set_nodeChecked n b c"
  have d: "nodeChecked d m = (if m = n then b else nodeChecked c m)" "ct_z d = ct_z c" for m
    by (simp_all add: d_def nodeChecked_def check_simps)
  have "if n \<in> set (child_list (ct_z d) m)
      then (\<exists>s \<in> set (child_list (ct_z d) m). s \<noteq> n \<and> nodeChecked d s) \<longrightarrow> nodeChecked d m else ok_box d m"
    if m: "m \<in> nodes_of T" "m \<noteq> n" for m
    using assms(3) [rule_format, OF m(1)] m(2) by (auto simp: ok_box_def d)
  then show ?thesis unfolding toggled_def d_def [symmetric] by blast
qed

text \<open>C8: As the widget is set up by default, a click on a box of a tree without hidden, disabled or half-checked
  boxes refines an operation on the set of checked leaves: it adds the leaves below the box, or takes them
  away when the box was checked. Afterwards every box again shows the leaves below it: checked if one of them
  is, drawn full if all are and partly checked if only some are.\<close>

theorem check_click_sets_leaves:
  assumes "tree_ok S (ct_z c) T" "plain c T" "tells_leaves c T" "n \<in> nodes_of T" "may_check C n c"
    "cs_chkStyle C = ''checkbox''" "both (cs_Y C)" "both (cs_N C)"
  shows "\<exists>c'. onCheckNode C n c = Some (True, c') \<and> tree_ok S (ct_z c') T \<and> plain c' T \<and> tells_leaves c' T \<and>
    checked_leaves c' T = (if nodeChecked c n then checked_leaves c T - leaves_below n T else checked_leaves c T \<union> leaves_below n T)"
proof -
  have loc: "settled_tree C c T" "\<forall>m \<in> nodes_of T. ok_box c m" using local_leaves [OF assms(1,2,6)] assms(3) by auto
  define v d where "v = (\<not> nodeChecked c n)" and "d = set_nodeChecked n v c"
  note d = toggle_off [OF assms(1,4) loc(1) d_def]
  have td: "tree_ok S (ct_z d) T" "plain d T" using touches_tree_ok [OF d(1) assms(1)] touches_plain [OF d(1) assms(2)] .
  obtain e where e: "check_box C n d = Some e" "touches (nodes_of T) d e" "settled_off C e T (ancestors (ct_z d) n)"
    "both (if nodeChecked d n then cs_Y C else cs_N C) \<and> toggled d T n \<longrightarrow>
      (\<forall>m \<in> nodes_of T. ok_box e m \<and> (child_list (ct_z d) m = [] \<longrightarrow>
        nodeChecked e m = (if m \<in> leaves_below n T then nodeChecked d n else nodeChecked d m)))"
    using check_box_settles [OF td(1) assms(4,6) td(2) d(3)] by blast
  have "toggled d T n" unfolding d_def by (rule click_toggled [OF assms(1,4) loc(2)])
  then have spec: "ok_box e m" "child_list (ct_z c) m = [] \<Longrightarrow> nodeChecked e m = (if m \<in> leaves_below n T then v else nodeChecked c m)"
    if "m \<in> nodes_of T" for m
    using e(4) assms(7,8) that leaves_below_step(1) [OF assms(1,4)] by (auto simp: d(4,6))
  obtain c' where c': "repairParentChkClassWithSelf C (Some n) (setChkClass C n e) = Some c'" "touches (nodes_of T) d c'"
    "settled_tree C c' T" "\<forall>m. nodeChecked c' m = nodeChecked e m" "touches (ups (ct_z d) n) e c'"
    using click_ends [OF td(1) assms(4) e(3,2)] by blast
  define w where "w = trigger_check n c'"
  have w: "touches N c' w" "nodeChecked w = nodeChecked c'" for N
    by (simp_all add: w_def touches_trigger_check nodeChecked_def fun_eq_iff check_simps)
  have tw: "touches (nodes_of T) c w" by (rule touches_trans [OF touches_trans [OF d(2) c'(2)] w(1)])
  have clw: "child_list (ct_z w) = child_list (ct_z c)" "child_list (ct_z e) = child_list (ct_z c)"
    using touches_tree(1) [OF tw] touches_tree(1) [OF touches_trans [OF d(2) e(2)]] by (auto simp: fun_eq_iff)
  have "onCheckNode C n c = Some (True, w)"
    using assms(4,5) plainD(1) [OF assms(2,4)] e(1) c'(1) assms(6)
    by (simp add: onCheckNode_def can_check_def v_def [symmetric] d_def [symmetric] checkNodeRelation_def w_def)
  moreover have tree: "tree_ok S (ct_z w) T" "plain w T" using touches_tree_ok [OF tw assms(1)] touches_plain [OF tw assms(2)] .
  moreover have "tells_leaves w T"
  proof -
    have "settled_tree C w T" using c'(3) settled_frame [OF w(1) [of "{}"]] by (simp add: settled_tree_def)
    moreover have "\<forall>m \<in> nodes_of T. ok_box w m"
      using spec(1) c'(4) by (simp add: ok_box_def w(2) clw)
    ultimately show ?thesis using local_leaves [OF tree assms(6)] by blast
  qed
  moreover have "checked_leaves w T = (if nodeChecked c n then checked_leaves c T - leaves_below n T else checked_leaves c T \<union> leaves_below n T)"
    using spec(2) c'(4) leaves_below_step(3) [OF assms(1,4)] by (auto simp: checked_leaves_def w(2) clw(1) v_def split: if_splits)
  ultimately show ?thesis by blast
qed

theorem check_click_sets_leaves_witness:
  "\<exists>c'. onCheckNode (box_setting ''checkbox'') 3 (box_ctree (sample_setting False)) = Some (True, c') \<and>
     tells_leaves c' box_rose \<and> checked_leaves c' box_rose = {2, 3}"
proof -
  let ?C = "box_setting ''checkbox''" and ?c = "box_ctree (sample_setting False)"
  have n: "3 \<in> nodes_of box_rose" "\<not> nodeChecked ?c 3" unfolding box_nids by (simp_all add: nodeChecked_def box_ctree_def blank_cnode_def)
  have "cs_chkStyle ?C = ''checkbox''" "both (cs_Y ?C)" "both (cs_N ?C)" using box_facts(9) by (simp_all add: box_setting_def)
  from check_click_sets_leaves [OF box_facts(1-3) [of "sample_setting False"] n(1) box_facts(8) this]
  obtain c' where c': "onCheckNode ?C 3 ?c = Some (True, c')" "tells_leaves c' box_rose" "checked_leaves c' box_rose = {2, 3}"
    using n(2) box_facts(4,5) by (auto simp: insert_commute)
  then show ?thesis by (intro exI [of _ c']) simp
qed

text \<open>C11: A click on a disabled box, and one that \<open>beforeCheck\<close> refuses, changes nothing, whatever the tree. Any other
  click keeps every box right, in either style and with any setting of the directions: if making the flag of no box
  would change it before the click, then none would afterwards. As check boxes this is for plain trees, those
  without hidden (\<open>nocheck\<close>), disabled or half-checked boxes - \<open>disabled_box_stale\<close> below shows it fail with a
  disabled one -; as radio buttons the boxes may be of any kind.\<close>

theorem check_click_settles:
  assumes "tree_ok S (ct_z c) T" "n \<in> nodes_of T" "box_style C"
  shows "if cn_chkDisabled (ct_node c n) \<or> \<not> may_check C n c
    then onCheckNode C n c = Some (\<not> cn_chkDisabled (ct_node c n), c)
    else (cs_chkStyle C = ''checkbox'' \<longrightarrow> plain c T) \<and> settled_tree C c T \<and>
      (\<forall>p \<in> set (ct_radio c). getNodeCache (ct_z c) (zn_tId (zt_heap (ct_z c) p)) \<noteq> None \<longrightarrow> p \<in> nodes_of T) \<longrightarrow>
      (\<exists>c'. onCheckNode C n c = Some (True, c') \<and> tree_ok S (ct_z c') T \<and> settled_tree C c' T)"
proof (cases "cn_chkDisabled (ct_node c n) \<or> \<not> may_check C n c")
  case True
  then show ?thesis by (auto simp: onCheckNode_def)
next
  case False
  have "\<exists>c'. onCheckNode C n c = Some (True, c') \<and> tree_ok S (ct_z c') T \<and> settled_tree C c' T"
    if h: "cs_chkStyle C = ''checkbox'' \<longrightarrow> plain c T" "settled_tree C c T"
      "\<forall>p \<in> set (ct_radio c). getNodeCache (ct_z c) (zn_tId (zt_heap (ct_z c) p)) \<noteq> None \<longrightarrow> p \<in> nodes_of T"
  proof -
    define d where "d = set_nodeChecked n (\<not> nodeChecked c n) c"
    note d = toggle_off [OF assms(1,2) h(2) d_def]
    have td: "tree_ok S (ct_z d) T" by (rule touches_tree_ok [OF d(1) assms(1)])
    have pd: "cs_chkStyle C = ''checkbox'' \<longrightarrow> plain d T" using h(1) touches_plain [OF d(1)] by blast
    obtain e where e: "checkNodeRelation C n d = Some e" "touches (nodes_of T) d e" "settled_off C e T (ancestors (ct_z d) n)"
      using relation_settles [OF td assms(2,3) pd d(3)] h(3) by (auto simp: d(5,6))
    obtain c' where c': "repairParentChkClassWithSelf C (Some n) (setChkClass C n e) = Some c'" "touches (nodes_of T) d c'" "settled_tree C c' T"
      using click_ends [OF td assms(2) e(3,2)] by blast
    define w where "w = trigger_check n c'"
    have w: "touches N c' w" for N by (simp add: w_def touches_trigger_check)
    have "onCheckNode C n c = Some (True, w)"
      using False e(1) c'(1) by (simp add: onCheckNode_def d_def [symmetric] w_def)
    moreover have "tree_ok S (ct_z w) T" by (rule touches_tree_ok [OF touches_trans [OF c'(2) w] td])
    moreover have "settled_tree C w T" using c'(3) settled_frame [OF w [of "{}"]] by (simp add: settled_tree_def)
    ultimately show ?thesis by blast
  qed
  then show ?thesis using False by simp
qed

definition disabled_ctree :: ctree where
  \<comment> \<open>the sample tree with its first box disabled\<close>
  "disabled_ctree = upd_check 1 (cn_chkDisabled_update (\<lambda>_. True)) (box_ctree (sample_setting False))"

theorem check_click_settles_witness:
  "(\<exists>c'. onCheckNode (box_setting ''checkbox'') 1 (box_ctree (sample_setting False)) = Some (True, c') \<and>
     settled_tree (box_setting ''checkbox'') c' box_rose) \<and>
   onCheckNode (box_setting ''checkbox'') 1 disabled_ctree = Some (False, disabled_ctree)"
proof
  let ?C = "box_setting ''checkbox''" and ?c = "box_ctree (sample_setting False)"
  have s: "settled_tree ?C ?c box_rose"
    using local_leaves [OF box_facts(1,2), of ?C] box_facts(3) by (simp add: box_setting_def)
  have f: "box_style ?C" "ct_radio ?c = []" "\<not> cn_chkDisabled (ct_node ?c 1)"
    by (simp_all add: box_style_def box_setting_def box_ctree_def blank_cnode_def)
  have n: "1 \<in> nodes_of box_rose" unfolding box_nids by simp
  show "\<exists>c'. onCheckNode ?C 1 ?c = Some (True, c') \<and> settled_tree ?C c' box_rose"
    using check_click_settles [OF box_facts(1) [of "sample_setting False"] n f(1)] s box_facts(2) [of "sample_setting False"] f(2,3) box_facts(8)
    by (simp del: One_nat_def) blast
  have "ct_z disabled_ctree = ct_z ?c" "cn_chkDisabled (ct_node disabled_ctree 1)"
    by (simp_all add: disabled_ctree_def upd_check_def)
  then show "onCheckNode ?C 1 disabled_ctree = Some (False, disabled_ctree)"
    using check_click_settles [OF _ n f(1), of "sample_setting False" disabled_ctree] box_facts(1) by simp
qed

lemma radio_checked_set:
  assumes "n \<in> N" "\<And>m. m \<in> N \<Longrightarrow> Q m \<longleftrightarrow> (if m = n then \<not> P n else P m \<and> (\<not> P n \<longrightarrow> \<not> whole \<and> m \<notin> B))"
  shows "{m \<in> N. Q m} = (if P n then {m \<in> N. P m} - {n} else if whole then {n} else insert n ({m \<in> N. P m} - B))"
proof -
  have "{m \<in> N. Q m} = {m \<in> N. if m = n then \<not> P n else P m \<and> (\<not> P n \<longrightarrow> \<not> whole \<and> m \<notin> B)}" using assms(2) by blast
  then show ?thesis using assms(1) by (cases "P n"; cases whole) auto
qed

text \<open>The list of checked nodes after a click: c is the tree before it, d that with the flag of the node changed, w the one after it.\<close>

lemma radio_ok_clicked:
  assumes "tree_ok S (ct_z d) T" "\<forall>p \<in> set (ct_radio d). getNodeCache (ct_z d) (zn_tId (zt_heap (ct_z d) p)) \<noteq> None \<longrightarrow> p \<in> nodes_of T"
    "radio_ok C c T" "ct_radio d = ct_radio c" "set (ct_radio w) \<subseteq> nodes_of T"
    "cs_radioType C = ''all'' \<longrightarrow> (v \<longrightarrow> n \<in> set (ct_radio w)) \<and> (\<not> v \<longrightarrow> ct_radio w = remove1 n (ct_radio (getRadioCheckedList d)))"
    "\<And>m. m \<in> nodes_of T \<Longrightarrow> nodeChecked w m \<longleftrightarrow>
      (if m = n then v else nodeChecked c m \<and> (v \<longrightarrow> cs_radioType C \<noteq> ''all'' \<and> m \<notin> B))"
  shows "radio_ok C w T"
  unfolding radio_ok_def
proof (intro conjI impI ballI)
  fix m assume m: "cs_radioType C = ''all''" "m \<in> nodes_of T" "nodeChecked w m"
  show "m \<in> set (ct_radio w)"
  proof (cases v)
    case True
    then show ?thesis using assms(6) assms(7) [OF m(2)] m(1,3) by (simp split: if_splits)
  next
    case False
    then have n: "m \<noteq> n" "nodeChecked c m" using assms(7) [OF m(2)] m(3) by (simp_all split: if_splits)
    then have "m \<in> set (ct_radio c)" using assms(3) m(1,2) unfolding radio_ok_def by blast
    then have "m \<in> set (ct_radio (getRadioCheckedList d))"
      using getRadioCheckedList_list [OF assms(1,2)] m(2) by (simp add: assms(4))
    then show ?thesis using assms(6) m(1) n(1) False by simp
  qed
qed (use assms(5) in blast)

text \<open>C9: As radio buttons, a click on a node that is not checked leaves it the only checked one, of the whole tree or of
  the children of its parent, after the setting; a click on a checked node unchecks it and nothing else. The list of
  checked nodes goes on holding them all, and every box goes on showing its children.\<close>

theorem radio_click_single:
  assumes "tree_ok S (ct_z c) T" "n \<in> nodes_of T" "cs_chkStyle C = ''radio''" "radio_ok C c T" "settled_tree C c T"
    "\<not> cn_chkDisabled (ct_node c n)" "may_check C n c"
  shows "\<exists>c'. onCheckNode C n c = Some (True, c') \<and> tree_ok S (ct_z c') T \<and> settled_tree C c' T \<and> radio_ok C c' T \<and>
    {m \<in> nodes_of T. nodeChecked c' m} =
      (if nodeChecked c n then {m \<in> nodes_of T. nodeChecked c m} - {n}
       else if cs_radioType C = ''all'' then {n}
       else insert n ({m \<in> nodes_of T. nodeChecked c m} - set (the (siblings (ct_z c) n))))"
proof -
  define v d where "v = (\<not> nodeChecked c n)" and "d = set_nodeChecked n v c"
  note d = toggle_off [OF assms(1,2,5) d_def]
  have td: "tree_ok S (ct_z d) T" by (rule touches_tree_ok [OF d(1) assms(1)])
  have listed: "\<forall>p \<in> set (ct_radio d). getNodeCache (ct_z d) (zn_tId (zt_heap (ct_z d) p)) \<noteq> None \<longrightarrow> p \<in> nodes_of T"
    using assms(4) by (simp add: radio_ok_def d(5,6))
  obtain e where e: "check_radio C n d = Some e" "touches (nodes_of T) d e" "settled_off C e T (ancestors (ct_z d) n)"
    "set (ct_radio e) \<subseteq> nodes_of T"
    "cs_radioType C = ''all'' \<longrightarrow> (nodeChecked d n \<longrightarrow> n \<in> set (ct_radio e)) \<and>
      (\<not> nodeChecked d n \<longrightarrow> ct_radio e = remove1 n (ct_radio (getRadioCheckedList d)))"
    "\<forall>m. nodeChecked e m = (nodeChecked d m \<and> (nodeChecked d n \<and> m \<noteq> n \<longrightarrow>
      m \<notin> (if cs_radioType C = ''all'' then set (ct_radio d) \<inter> nodes_of T else set (the (siblings (ct_z d) n)))))"
    using check_radio_settles [OF td assms(2) d(3) listed] by (elim exE conjE) (rule that)
  obtain c' where c': "repairParentChkClassWithSelf C (Some n) (setChkClass C n e) = Some c'" "touches (nodes_of T) d c'" "settled_tree C c' T"
    "\<forall>m. nodeChecked c' m = nodeChecked e m" "ct_radio c' = ct_radio e"
    using click_ends [OF td assms(2) e(3,2)] by blast
  define w where "w = trigger_check n c'"
  have w: "touches N c' w" "nodeChecked w = nodeChecked e" "ct_radio w = ct_radio e" for N
    using c'(4,5) by (simp_all add: w_def touches_trigger_check nodeChecked_def fun_eq_iff check_simps radio_steps)
  have all: "cs_radioType C = ''all'' \<Longrightarrow> m \<in> nodes_of T \<Longrightarrow> nodeChecked c m \<Longrightarrow> m \<in> set (ct_radio c)" for m
    using assms(4) unfolding radio_ok_def by blast
  have now: "nodeChecked w m = (if m = n then v else nodeChecked c m \<and>
      (v \<longrightarrow> cs_radioType C \<noteq> ''all'' \<and> m \<notin> set (the (siblings (ct_z c) n))))" if "m \<in> nodes_of T" for m
  proof -
    have "nodeChecked w m = (nodeChecked d m \<and> (v \<and> m \<noteq> n \<longrightarrow>
        m \<notin> (if cs_radioType C = ''all'' then set (ct_radio c) \<inter> nodes_of T else set (the (siblings (ct_z c) n)))))"
      using e(6) [rule_format, of m] by (simp only: w(2) d(4-6) simp_thms if_True)
    moreover have "nodeChecked d m = (if m = n then v else nodeChecked c m)" by (rule d(4))
    ultimately show ?thesis
      using all [OF _ that] that by (cases "m = n"; cases "cs_radioType C = ''all''") (simp_all only: if_True if_False simp_thms Int_iff, blast+)
  qed
  have "onCheckNode C n c = Some (True, w)"
    using assms(3,6,7) e(1) c'(1) by (simp add: onCheckNode_def v_def [symmetric] d_def [symmetric] checkNodeRelation_def w_def)
  moreover have "tree_ok S (ct_z w) T" by (rule touches_tree_ok [OF touches_trans [OF c'(2) w(1)] td])
  moreover have "settled_tree C w T" using c'(3) settled_frame [OF w(1) [of "{}"]] by (simp add: settled_tree_def)
  moreover have "radio_ok C w T"
    by (rule radio_ok_clicked [OF td listed assms(4) d(5), where v = v and n = n and B = "set (the (siblings (ct_z c) n))"])
      (use e(4,5) now in \<open>simp_all add: w(3) d(4)\<close>)
  moreover have "{m \<in> nodes_of T. nodeChecked w m} =
      (if nodeChecked c n then {m \<in> nodes_of T. nodeChecked c m} - {n}
       else if cs_radioType C = ''all'' then {n}
       else insert n ({m \<in> nodes_of T. nodeChecked c m} - set (the (siblings (ct_z c) n))))"
    by (rule radio_checked_set [OF assms(2)]) (use now in \<open>simp add: v_def\<close>)
  ultimately show ?thesis by (intro exI conjI)
qed

definition radio_ctree :: "zsetting \<Rightarrow> ctree" where
  \<comment> \<open>as radio buttons, the first leaf is checked\<close>
  "radio_ctree S = \<lparr>ct_z = box_ztree S, ct_node = (\<lambda>_. blank_cnode)(1 := blank_cnode\<lparr>cn_childState := 2\<rparr>,
     2 := blank_cnode\<lparr>cn_checked := True\<rparr>), ct_radio = [2]\<rparr>"

theorem radio_click_single_witness:
  "\<exists>c'. onCheckNode (box_setting ''radio'') 3 (radio_ctree (sample_setting False)) = Some (True, c') \<and>
     {m \<in> nodes_of box_rose. nodeChecked c' m} = {3}"
proof -
  let ?C = "box_setting ''radio''" and ?c = "radio_ctree (sample_setting False)"
  have t: "tree_ok (sample_setting False) (ct_z ?c) box_rose" using box_tree_ok by (simp add: radio_ctree_def)
  have n: "3 \<in> nodes_of box_rose" "\<not> nodeChecked ?c 3" "\<not> cn_chkDisabled (ct_node ?c 3)"
    unfolding box_nids by (simp_all add: nodeChecked_def radio_ctree_def blank_cnode_def)
  have C: "cs_chkStyle ?C = ''radio''" "cs_radioType ?C = ''all''" "may_check ?C 3 ?c" by (simp_all add: box_setting_def may_check_def)
  have r: "radio_ok ?C ?c box_rose"
    unfolding radio_ok_def box_nids(2) by (auto simp: radio_ctree_def nodeChecked_def blank_cnode_def)
  have h: "child_list (ct_z ?c) 1 = [2, 3]" "child_list (ct_z ?c) 2 = []" "child_list (ct_z ?c) 3 = []"
    by (simp_all only: radio_ctree_def ctree.simps box_heap)
  have b: "settled_box ?C ?c m" if "m \<in> {1, 2, 3}" for m
    using that h by (auto simp: settled_box_def children_state_def) (auto simp: radio_ctree_def box_setting_def blank_cnode_def radio_state_def)
  have s: "settled_tree ?C ?c box_rose" unfolding settled_tree_def box_nids(2) by (intro ballI b)
  show ?thesis
    by (rule exE [OF radio_click_single [OF t n(1) C(1) r s n(3) C(3)]]) (use n(2) C(2) in metis)
qed

section \<open>All boxes, and collecting nodes\<close>

text \<open>C18: The searches by box return, and each is a filter of the nodes in the order of the page that have a box which
  is not disabled: those that are checked or not checked, only the first for the checked one of radio buttons in the
  whole tree, and those whose box differs from what it was when they were created.\<close>

theorem checked_nodes_preorder:
  assumes "tree_ok S (ct_z c) T"
  shows "tool_getCheckedNodes C c b =
      Some (let found = filter (\<lambda>n. can_check c n \<and> nodeChecked c n = b) (forest_nids (subs T))
        in if b \<and> cs_chkStyle C = ''radio'' \<and> cs_radioType C = ''all'' then take 1 found else found) \<and>
    tool_getChangeCheckedNodes c =
      Some (filter (\<lambda>n. can_check c n \<and> nodeChecked c n \<noteq> cn_checkedOld (ct_node c n)) (forest_nids (subs T)))"
  using checked.preorder [OF tree_start(3) [OF assms]] changed.preorder [OF tree_start(3) [OF assms]]
  by (simp add: tool_getCheckedNodes_def tool_getChangeCheckedNodes_def depth_bound_def tree_start(2) [OF assms] hits_def only_one_def Let_def)

lemma box_page: "forest_nids (subs box_rose) = [1, 2, 3]"
  by (simp add: box_rose_def forest_nids_def)

theorem checked_nodes_preorder_witness:
  "tool_getCheckedNodes (box_setting ''checkbox'') (box_ctree (sample_setting False)) True = Some [1, 2] \<and>
   tool_getChangeCheckedNodes (box_ctree (sample_setting False)) = Some [1, 2]"
  using checked_nodes_preorder [OF box_facts(1) [of "sample_setting False"], of "box_setting ''checkbox''" True]
  by (simp add: box_page box_setting_def box_ctree_def can_check_def nodeChecked_def blank_cnode_def)

lemma forest_shapes: "fits k z ts \<Longrightarrow> \<forall>t \<in> set ts. shape z t \<and> height t < k"
  by (simp add: fits_def)

text \<open>C17: Checking all boxes, of any tree with nodes: exactly the boxes that are there and not disabled get the
  value, also below hidden and disabled ones; collecting the nodes with this value then finds all of them, in the
  order of the page, and collecting those with the other value finds none.\<close>

theorem checkAll_collects:
  assumes "tree_ok S (ct_z c) T" "nodeChildren (ct_z c) 0 \<noteq> None" "cs_enable C" "cs_chkStyle C = ''checkbox''"
  shows "\<exists>c'. tool_checkAllNodes C b c = Some c' \<and> tree_ok S (ct_z c') T \<and>
    (\<forall>n \<in> nodes_of T. nodeChecked c' n = (if can_check c n then b else nodeChecked c n)) \<and>
    tool_getCheckedNodes C c' b = Some (filter (can_check c) (forest_nids (subs T))) \<and>
    tool_getCheckedNodes C c' (\<not> b) = Some []"
proof -
  note t = tree_start [OF assms(1)]
  have n: "set (forest_nids (subs T)) = nodes_of T" "distinct (forest_nids (subs T))" "0 \<notin> set (forest_nids (subs T))"
    using nodes_forest [OF assms(1)] tree_okD(3) [OF assms(1)] tree_nids_eq [OF assms(1)] by auto
  obtain c' where c': "foldM (\<lambda>n c.
              let c = (if \<not> cn_nocheck (ct_node c n) \<and> \<not> cn_chkDisabled (ct_node c n) then set_nodeChecked n b c else c)
              in setSonNodeCheckBox (depth_bound c) C n b n c) (map rid (subs T)) c = Some c'"
    "touches (set (forest_nids (subs T))) c c'"
    "\<forall>m \<in> set (forest_nids (subs T)). nodeChecked c' m = (if can_check c m then b else nodeChecked c m)"
    using repairAll_forest [OF forest_shapes [OF t(3)] n(2,3) refl depth_bound_def, where C = C and b = b]
    by (elim exE conjE) (rule that)
  obtain cs where cs: "nodeChildren (ct_z c) 0 = Some cs" using assms(2) by blast
  then have "cs = map rid (subs T)" using t(2) by (simp add: child_list_def)
  then have "tool_checkAllNodes C b c = Some c'"
    using c'(1) cs assms(3,4) by (simp add: tool_checkAllNodes_def repairAllChk_def)
  moreover have ok: "tree_ok S (ct_z c') T" by (rule touches_tree_ok [OF c'(2) [unfolded n(1)] assms(1)])
  moreover have "can_check c' m = can_check c m" for m using touchesD(6) [OF c'(2)] by auto
  then have "filter (\<lambda>m. can_check c' m \<and> nodeChecked c' m = v) (forest_nids (subs T)) =
      filter (\<lambda>m. can_check c m \<and> b = v) (forest_nids (subs T))" for v
    using c'(3) by (intro filter_cong) auto
  then have "tool_getCheckedNodes C c' b = Some (filter (can_check c) (forest_nids (subs T)))" "tool_getCheckedNodes C c' (\<not> b) = Some []"
    using checked.preorder [OF tree_start(3) [OF ok], where C = C] assms(4)
    by (simp_all add: tool_getCheckedNodes_def depth_bound_def tree_start(2) [OF ok] hits_def only_one_def)
  ultimately show ?thesis using c'(3) unfolding n(1) by blast
qed

theorem checkAll_collects_witness:
  "\<exists>c'. tool_checkAllNodes (box_setting ''checkbox'') True (box_ctree (sample_setting False)) = Some c' \<and>
     tool_getCheckedNodes (box_setting ''checkbox'') c' True = Some [1, 2, 3]"
proof -
  let ?C = "box_setting ''checkbox''" and ?c = "box_ctree (sample_setting False)"
  have a: "nodeChildren (ct_z ?c) 0 \<noteq> None" "cs_enable ?C" "cs_chkStyle ?C = ''checkbox''" "can_check ?c m" for m
    by (simp_all add: box_setting_def box_ctree_def can_check_def blank_cnode_def box_ztree_def nodeChildren_def blank_node_def)
  show ?thesis using checkAll_collects [OF box_facts(1) a(1-3), where b = True] a(4) box_page by auto
qed

lemma emptied_root:
  assumes "removeNode S n z = Some z'" "parent_of z n = Some 0" "getNodeCache z (zn_tId (zt_heap z n)) \<noteq> None"
    "child_list z' 0 = []" "\<not> zs_keepParent S"
  shows "nodeChildren z' 0 = None"
proof -
  obtain y where y: "z' = repair_parent S 0 y"
    using assms(1-3) by (auto simp: removeNode_def Let_def getNodeCache_def upd_node_def split: bind_splits if_splits)
  have "child_list z' 0 = child_list y 0" if "child_list y 0 \<noteq> []"
    using that near_repair_parent [of y S 0] unfolding y by (simp add: near_def)
  then have "child_list y 0 = []" using assms(4) by metis
  then show ?thesis unfolding y using assms(5)
    by (simp add: repair_parent_def Let_def sameD(9) [OF same_zemit] sameD(9) [OF same_replaceIcoClass]
        sameD(9) [OF same_replaceSwitchClass] set_children_def nodeChildren_def upd_node_def)
qed

text \<open>C31: Once the last node of a tree has been removed, checking all boxes throws, where on an empty tree that was
  created empty it does nothing: the removal takes the list of children from the root, and only the collecting of
  nodes allows for that.\<close>

theorem checkAll_throws_emptied:
  assumes "tree_ok (cs_base C) (ct_z c) (Rose 0 [t])" "\<not> zs_keepParent (cs_base C)" "cs_enable C" "cs_chkStyle C = ''checkbox''"
  shows "\<exists>c'. check_removeNode C (rid t) c = Some c' \<and> tree_ok (cs_base C) (ct_z c') (Rose 0 []) \<and>
    tool_getCheckedNodes C c' b = Some [] \<and> tool_checkAllNodes C b c' = None \<and>
    (\<forall>d. nodeChildren (ct_z d) 0 = Some [] \<longrightarrow> tool_checkAllNodes C b d = Some d)"
proof -
  define n where "n = rid t"
  have cl: "child_list (ct_z c) 0 = [n]" using tree_okD(2) [OF assms(1)] by (simp add: n_def)
  then have "n \<noteq> 0" using root_no_child [OF assms(1), of 0] by simp
  then have n: "n \<in> nodes_of (Rose 0 [t])" using rid_nids [of t] by (auto simp: n_def in_forest_nids)
  have "zn_parentTId (zt_heap (ct_z c) n) = None"
    using placedD(1) [OF tree_okD(5) [OF assms(1), of 0], of n] cl by simp
  then have top: "parent_of (ct_z c) n = Some 0" "getParentNode (ct_z c) n = None"
    using parent_cases [OF assms(1) n] by (auto simp: parent_of_def)
  obtain z' where z': "removeNode (cs_base C) n (ct_z c) = Some z'" "tree_ok (cs_base C) z' (Rose 0 [])"
    using removeNode_prunes [OF assms(1) n] by (auto simp: n_def)
  define d where "d = c\<lparr>ct_z := z'\<rparr>"
  have "child_list z' 0 = []" using tree_okD(2) [OF z'(2)] by simp
  then have "nodeChildren z' 0 = None"
    using emptied_root [OF z'(1) top(1) _ _ assms(2)] tree_cached(1) [OF assms(1) n] by simp
  then have "tool_checkAllNodes C b d = None" using assms(3,4) by (simp add: tool_checkAllNodes_def repairAllChk_def d_def)
  moreover have "check_removeNode C n c = Some d" using z'(1) top(2) by (simp add: check_removeNode_def d_def)
  moreover have "tool_getCheckedNodes C d b = Some []"
    using tree_okD(2) [OF z'(2)] by (simp add: tool_getCheckedNodes_def depth_bound_def d_def)
  moreover have "tool_checkAllNodes C b d = Some d" if "nodeChildren (ct_z d) 0 = Some []" for d
    using that by (simp add: tool_checkAllNodes_def repairAllChk_def)
  ultimately show ?thesis using z'(2) by (auto simp: d_def n_def)
qed

theorem checkAll_throws_emptied_witness:
  "\<exists>c'. check_removeNode (box_setting ''checkbox'') 1 (box_ctree (sample_setting False)) = Some c' \<and>
     tool_checkAllNodes (box_setting ''checkbox'') True c' = None"
proof -
  let ?C = "box_setting ''checkbox''" and ?c = "box_ctree (sample_setting False)"
  have a: "cs_base ?C = sample_setting False" "cs_enable ?C" "cs_chkStyle ?C = ''checkbox''" "\<not> zs_keepParent (sample_setting False)"
    by (simp_all add: box_setting_def sample_setting_def)
  have t: "tree_ok (cs_base ?C) (ct_z ?c) (Rose 0 [Rose 1 [Rose 2 [], Rose 3 []]])"
    using box_facts(1) unfolding a(1) box_rose_def .
  show ?thesis
    using checkAll_throws_emptied [OF t _ a(2,3), where b = True] a(4) unfolding a(1) rose.sel by auto
qed

section \<open>Removing a node\<close>

lemma pruned_children:
  "shape z t \<Longrightarrow> shape z' (prune n t) \<Longrightarrow> m \<in> set (nids (prune n t)) \<Longrightarrow>
    child_list z' m = filter (\<lambda>x. x \<noteq> n) (child_list z m)"
proof (induction t)
  case (Rose r ts)
  show ?case
  proof (cases "m = r")
    case True
    have "child_list z' m = map rid (map (prune n) (filter (\<lambda>t. rid t \<noteq> n) ts))" using Rose.prems(2) True by simp
    also have "\<dots> = filter (\<lambda>x. x \<noteq> n) (map rid ts)" by (simp add: filter_map o_def)
    finally show ?thesis using Rose.prems(1) True by simp
  next
    case False
    then obtain t where t: "t \<in> set ts" "rid t \<noteq> n" "m \<in> set (nids (prune n t))" using Rose.prems(3) by (auto simp: in_forest_nids)
    show ?thesis by (rule Rose.IH [OF t(1) _ _ t(3)]) (use Rose.prems(1,2) t(1,2) in auto)
  qed
qed

lemma pruned_nids: "set (nids (prune n t)) \<subseteq> set (nids t)"
  by (induction t) (fastforce simp: in_forest_nids)

lemma pruned_parent:
  "shape z t \<Longrightarrow> p \<in> set (nids t) \<Longrightarrow> \<forall>q \<in> set (nids t). n \<in> set (child_list z q) \<longrightarrow> q = p \<Longrightarrow> p \<in> set (nids (prune n t))"
proof (induction t)
  case (Rose m ts)
  show ?case
  proof (cases "p = m")
    case False
    then obtain t where t: "t \<in> set ts" "p \<in> set (nids t)" using Rose.prems(2) by (auto simp: in_forest_nids)
    have "rid t \<noteq> n"
    proof
      assume "rid t = n"
      then have "n \<in> set (child_list z m)" using Rose.prems(1) t(1) by auto
      then show False using Rose.prems(3) False by auto
    qed
    moreover have "p \<in> set (nids (prune n t))"
      by (rule Rose.IH [OF t(1) _ t(2)]) (use Rose.prems(1,3) t(1) in \<open>auto simp: in_forest_nids\<close>)
    ultimately show ?thesis using t(1) by (auto simp: in_forest_nids)
  qed simp
qed

text \<open>When only the box of p may not show its children, repairing it and the boxes above settles the tree.\<close>

lemma repair_from_settles:
  assumes "tree_ok (cs_base C) (ct_z d) T" "p \<in> nodes_of T" "\<And>m. m \<in> nodes_of T \<Longrightarrow> m \<noteq> p \<Longrightarrow> settled_box C d m"
  defines "e \<equiv> repairChkClass C (Some p) d"
  shows "\<exists>c'. repairParentChkClass (depth_bound e) C (Some p) e = Some c' \<and> tree_ok (cs_base C) (ct_z c') T \<and> settled_tree C c' T \<and>
    (\<forall>m. nodeChecked c' m = nodeChecked d m)"
proof -
  have t: "touches {p} d e" unfolding e_def by (rule touches_repairChkClass)
  note ok = touches_tree_ok [OF t assms(1)]
  have low: "zn_level (zt_heap (ct_z e) p) < depth_bound e" using level_bound [OF ok assms(2)] by (simp add: depth_bound_def)
  obtain c' where c': "repairParentChkClass (depth_bound e) C (Some p) e = Some c'" "touches (ancestors (ct_z e) p) e c'"
    "\<forall>m. nodeChecked c' m = nodeChecked e m" "\<forall>X. settled_off C e T (ancestors (ct_z e) p \<union> X) \<longrightarrow> settled_off C c' T X"
    using repairParentChkClass_settles [OF ok assms(2) low] by blast
  have "settled_off C e T (ancestors (ct_z e) p \<union> {})"
    unfolding settled_off_def
  proof (intro ballI impI)
    fix m assume m: "m \<in> nodes_of T" "m \<notin> ancestors (ct_z e) p \<union> {}"
    show "settled_box C e m"
    proof (cases "m = p")
      case True
      then show ?thesis using settled_repaired(2) not_own_child [OF assms(1,2)] by (simp add: e_def)
    next
      case False
      have "p \<notin> set (child_list (ct_z d) m)"
        using child_ups [OF assms(1) m(1), of p p] m(2) touches_above(1) [OF t] by (auto simp: ups_above)
      then have "settled_box C e m = settled_box C d m" using False by (intro settled_frame [OF t]) auto
      then show ?thesis using assms(3) [OF m(1) False] by simp
    qed
  qed
  then have "settled_tree C c' T" using c'(4) by (auto simp: settled_tree_def settled_off_def)
  moreover have "nodeChecked c' m = nodeChecked d m" for m using c'(3) by (simp add: nodeChecked_def e_def check_simps)
  ultimately show ?thesis using c'(1) touches_tree_ok [OF c'(2) ok] by blast
qed

lemma pruned_settled:
  assumes "shape (ct_z c) T" "shape z' (prune n T)" "settled_tree C c T" "m \<in> nodes_of (prune n T)" "n \<notin> set (child_list (ct_z c) m)"
  shows "settled_box C (c\<lparr>ct_z := z'\<rparr>) m"
proof -
  have "child_list z' m = child_list (ct_z c) m"
    using pruned_children [OF assms(1,2), of m] assms(4,5) by (auto simp: filter_id_conv)
  then show ?thesis
    using assms(3,4) pruned_nids [of n T] by (auto simp: settled_tree_def settled_box_def children_state_def)
qed

lemma parent_unpruned:
  assumes "tree_ok S z T" "n \<in> nodes_of T" "getParentNode z n = Some p"
  shows "p \<in> nodes_of (prune n T)"
proof -
  have p: "p \<in> nodes_of T" using parent_cases [OF assms(1,2)] assms(3) by fastforce
  have "q = p" if q: "q \<in> set (nids T)" "n \<in> set (child_list z q)" for q
  proof (cases "q = 0")
    case True
    then have "zn_parentTId (zt_heap z n) = None" using placedD(1) [OF tree_okD(5) [OF assms(1) q(1)] q(2)] by simp
    then show ?thesis using parent_cases [OF assms(1,2)] assms(3) by force
  next
    case False
    then show ?thesis using child_parent(1) [OF assms(1), of q n] q assms(3) by simp
  qed
  then have "p \<in> set (nids (prune n T))" by (intro pruned_parent [OF tree_okD(2) [OF assms(1)]]) (use p in auto)
  then show ?thesis using p by simp
qed

text \<open>C12: Removing a node takes its branch out of the tree and repairs the boxes above: when making the flag of no box
  would change it before, it would not afterwards, so that a box stops being partly checked when the last box that
  differs goes away. No box is checked or unchecked by it.\<close>

theorem check_removeNode_settles:
  assumes "tree_ok (cs_base C) (ct_z c) T" "n \<in> nodes_of T" "settled_tree C c T"
  shows "\<exists>c'. check_removeNode C n c = Some c' \<and> tree_ok (cs_base C) (ct_z c') (prune n T) \<and>
    settled_tree C c' (prune n T) \<and> (\<forall>m. nodeChecked c' m = nodeChecked c m)"
proof -
  obtain z' where z': "removeNode (cs_base C) n (ct_z c) = Some z'" "tree_ok (cs_base C) z' (prune n T)"
    using removeNode_prunes [OF assms(1,2)] by blast
  define d where "d = c\<lparr>ct_z := z'\<rparr>"
  have ok: "tree_ok (cs_base C) (ct_z d) (prune n T)" and old: "nodeChecked d = nodeChecked c"
    using z'(2) by (simp_all add: d_def nodeChecked_def fun_eq_iff)
  have keep: "settled_box C d m" if "m \<in> nodes_of (prune n T)" "getParentNode (ct_z c) n \<noteq> Some m" for m
    unfolding d_def using child_parent(1) [OF assms(1), of m n] pruned_nids [of n T] that
    by (intro pruned_settled [OF tree_okD(2) [OF assms(1)] tree_okD(2) [OF z'(2)] assms(3) that(1)]) auto
  show ?thesis
  proof (cases "getParentNode (ct_z c) n")
    case None
    have "settled_tree C d (prune n T)" unfolding settled_tree_def by (rule ballI, rule keep) (simp_all add: None)
    moreover have "check_removeNode C n c = Some d" using z'(1) None by (simp add: check_removeNode_def d_def)
    ultimately show ?thesis using ok old by auto
  next
    case (Some p)
    have p: "p \<in> nodes_of (prune n T)" by (rule parent_unpruned [OF assms(1,2) Some])
    define e where "e = repairChkClass C (Some p) d"
    obtain c' where c': "repairParentChkClass (depth_bound e) C (Some p) e = Some c'" "tree_ok (cs_base C) (ct_z c') (prune n T)"
      "settled_tree C c' (prune n T)" "\<forall>m. nodeChecked c' m = nodeChecked d m"
      using repair_from_settles [OF ok p] keep Some unfolding e_def by auto
    have "depth_bound e = depth_bound d" using touches_tree(6) [OF touches_repairChkClass [of p d C, folded e_def]] by (simp add: depth_bound_def)
    then have "check_removeNode C n c = Some c'"
      using z'(1) Some c'(1) by (simp add: check_removeNode_def d_def [symmetric] e_def [symmetric] Let_def)
    then show ?thesis using c'(2-4) old by auto
  qed
qed

theorem check_removeNode_settles_witness:
  "\<exists>c'. check_removeNode (box_setting ''checkbox'') 3 (box_ctree (sample_setting False)) = Some c' \<and>
     settled_tree (box_setting ''checkbox'') c' (Rose 0 [Rose 1 [Rose 2 []]])"
proof -
  let ?C = "box_setting ''checkbox''" and ?c = "box_ctree (sample_setting False)"
  have "settled_tree ?C ?c box_rose" using local_leaves [OF box_facts(1,2), of ?C] box_facts(3) by (simp add: box_setting_def)
  moreover have "cs_base ?C = sample_setting False" "3 \<in> nodes_of box_rose" by (simp add: box_setting_def, simp only: box_nids, simp)
  moreover have "prune 3 box_rose = Rose 0 [Rose 1 [Rose 2 []]]" by (simp add: box_rose_def)
  ultimately show ?thesis using check_removeNode_settles [of ?C ?c box_rose 3] box_facts(1) by auto
qed

section \<open>A disabled box in between\<close>

definition chain_ctree :: ctree where
  \<comment> \<open>a node, below it a disabled one, below that a leaf; none checked\<close>
  "chain_ctree =
     (let node = (\<lambda>id par level cs. blank_node\<lparr>zn_children := cs, zn_level := level, zn_tId := Some id, zn_parentTId := par\<rparr>)
      in \<lparr>ct_z = new_ztree\<lparr>zt_heap := (\<lambda>_. blank_node)(0 := blank_node\<lparr>zn_children := Some [1]\<rparr>,
            1 := node ''_1'' None 0 (Some [2]), 2 := node ''_2'' (Some ''_1'') 1 (Some [3]), 3 := node ''_3'' (Some ''_2'') 2 None),
            zt_next := 4, zt_cache := [''1'' \<mapsto> 1, ''2'' \<mapsto> 2, ''3'' \<mapsto> 3]\<rparr>,
          ct_node = (\<lambda>_. blank_cnode)(1 := blank_cnode\<lparr>cn_childState := 0\<rparr>, 2 := blank_cnode\<lparr>cn_childState := 0, cn_chkDisabled := True\<rparr>),
          ct_radio = []\<rparr>)"

text \<open>A click on the first node checks the leaf, but leaves the state of the disabled node between them as it was: the
  first node is shown as partly checked although every usable box below it is checked, and repairing the disabled
  node would show otherwise. This is why a click is shown to settle the boxes of a plain tree in check-box style.\<close>

lemma disabled_box_stale:
  "map_option (\<lambda>(r, c). (nodeChecked c 3, cn_childState (ct_node c 2), children_state (box_setting ''checkbox'') c 2,
      getCheckStatus (box_setting ''checkbox'') c 1)) (onCheckNode (box_setting ''checkbox'') 1 chain_ctree) =
   Some (True, 0, 2, Some (True, True))"
  by code_simp

end
