(* ===== verification/Cookie.thy ===== *)
theory Cookie
  imports Md5 "HOL-Library.AList"
begin

text \<open>
  Cookies (jquery.cookie.js), through which the pages hand the organisation that was chosen in the
  tree to the dialogs. A string is the list of its code units. The plugin's \<open>json\<close> mode, which no
  page turns on, is left out; the text of a date is an argument.
\<close>

type_synonym units = "int list"

definition units :: "string \<Rightarrow> units" where
  "units s = map of_char s"

section \<open>encodeURIComponent and decodeURIComponent\<close>

definition unreserved :: "int set" where
  "unreserved = {48..57} \<union> {65..90} \<union> {97..122} \<union> {45, 95, 46, 33, 126, 42, 39, 40, 41}"

definition hex_unit :: "int \<Rightarrow> int" where
  \<comment> \<open>an upper case digit\<close>
  "hex_unit d = (if d < 10 then 48 + d else 55 + d)"

definition escape_byte :: "int \<Rightarrow> units" where
  "escape_byte b = (if b \<in> unreserved then [b] else [37, hex_unit (b div 16), hex_unit (b mod 16)])"

definition encodeURIComponent :: "units \<Rightarrow> units option" where
  \<comment> \<open>\<open>None\<close> is the URIError for a surrogate without its partner\<close>
  "encodeURIComponent s = map_option (\<lambda>bs. concat (map escape_byte bs)) (str2rstr_utf8 s)"

definition unit_hex :: "int \<Rightarrow> int option" where
  "unit_hex c =
     (if 48 \<le> c \<and> c \<le> 57 then Some (c - 48)
      else if 65 \<le> c \<and> c \<le> 70 then Some (c - 55)
      else if 97 \<le> c \<and> c \<le> 102 then Some (c - 87)
      else None)"

definition escaped :: "units \<Rightarrow> (int \<times> units) option" where
  \<comment> \<open>a byte written as a percent sign and two digits, and what follows\<close>
  "escaped s =
     (case s of
        p # h # l # t \<Rightarrow>
          if p \<noteq> 37 then None
          else Option.bind (unit_hex h) (\<lambda>h. Option.bind (unit_hex l) (\<lambda>l. Some (16 * h + l, t)))
      | _ \<Rightarrow> None)"

fun continuation :: "nat \<Rightarrow> int \<Rightarrow> units \<Rightarrow> (int \<times> units) option" where
  \<comment> \<open>k more bytes of a code point\<close>
  "continuation 0 v s = Some (v, s)"
| "continuation (Suc k) v s =
     Option.bind (escaped s) (\<lambda>(b, t). if 128 \<le> b \<and> b < 192 then continuation k (64 * v + (b - 128)) t else None)"

definition utf8_lead :: "int \<Rightarrow> (nat \<times> int \<times> int) option" where
  \<comment> \<open>how many bytes follow, the bits of the first, the least code point of this length\<close>
  "utf8_lead b =
     (if 192 \<le> b \<and> b < 224 then Some (1, b - 192, 0x80)
      else if 224 \<le> b \<and> b < 240 then Some (2, b - 224, 0x800)
      else if 240 \<le> b \<and> b < 248 then Some (3, b - 240, 0x10000)
      else None)"

definition utf16_point :: "int \<Rightarrow> units" where
  "utf16_point v = (if v < 0x10000 then [v] else [0xD800 + (v - 0x10000) div 0x400, 0xDC00 + (v - 0x10000) mod 0x400])"

definition decoded_point :: "units \<Rightarrow> (units \<times> units) option" where
  \<comment> \<open>the code point at the front of the text, in UTF-16, and what follows\<close>
  "decoded_point s =
     Option.bind (escaped s) (\<lambda>(b, t).
       if b < 128 then Some ([b], t)
       else Option.bind (utf8_lead b) (\<lambda>(k, v, least). Option.bind (continuation k v t) (\<lambda>(v, t).
         if least \<le> v \<and> \<not> (0xD800 \<le> v \<and> v \<le> 0xDFFF) \<and> v \<le> 0x10FFFF then Some (utf16_point v, t) else None)))"

lemma escaped_shorter: "escaped s = Some (b, t) \<Longrightarrow> length t < length s"
  by (auto simp: escaped_def split: list.splits if_splits bind_splits)

lemma continuation_shorter: "continuation k v s = Some (w, t) \<Longrightarrow> length t \<le> length s"
  by (induction k arbitrary: v s) (fastforce dest: escaped_shorter split: bind_splits if_splits)+

lemma decoded_point_shorter: "decoded_point s = Some (u, t) \<Longrightarrow> length t < length s"
  by (auto simp: decoded_point_def dest!: escaped_shorter continuation_shorter split: bind_splits if_splits)

function decodeURIComponent :: "units \<Rightarrow> units option" where
  \<comment> \<open>\<open>None\<close> is the URIError for a malformed escape\<close>
  "decodeURIComponent [] = Some []"
| "decodeURIComponent (c # s) =
     (if c \<noteq> 37 then map_option ((#) c) (decodeURIComponent s)
      else case decoded_point (c # s) of
             None \<Rightarrow> None
           | Some (u, t) \<Rightarrow> map_option ((@) u) (decodeURIComponent t))"
  by pat_completeness auto
termination by (relation "measure length") (auto dest: decoded_point_shorter)

section \<open>The plugin\<close>

record cookie_config =
  cf_raw :: bool

definition cookie_encode :: "cookie_config \<Rightarrow> units \<Rightarrow> units option" where
  "cookie_encode config s = (if cf_raw config then Some s else encodeURIComponent s)"

definition cookie_decode :: "cookie_config \<Rightarrow> units \<Rightarrow> units option" where
  "cookie_decode config s = (if cf_raw config then Some s else decodeURIComponent s)"

definition stringifyCookieValue :: "cookie_config \<Rightarrow> units \<Rightarrow> units option" where
  "stringifyCookieValue config value = cookie_encode config value"

fun unescape_pair :: "int \<Rightarrow> units \<Rightarrow> units" where
  \<comment> \<open>s.replace(/\\c/g, c): a backslash before c goes away\<close>
  "unescape_pair c (a # b # s) = (if a = 92 \<and> b = c then c # unescape_pair c s else a # unescape_pair c (b # s))"
| "unescape_pair c s = s"

definition parseCookieValue :: "units \<Rightarrow> units option" where
  \<comment> \<open>\<open>None\<close> is undefined, for a value that does not decode\<close>
  "parseCookieValue s =
     (let s = (if s \<noteq> [] \<and> hd s = 34 then unescape_pair 92 (unescape_pair 34 (butlast (tl s))) else s)
      in decodeURIComponent (map (\<lambda>c. if c = 43 then 32 else c) s))"

definition cookie_value :: "cookie_config \<Rightarrow> units \<Rightarrow> (units option \<Rightarrow> units option) option \<Rightarrow> units option" where
  \<comment> \<open>\<open>read\<close>, with a converter when there is one\<close>
  "cookie_value config s converter =
     (let v = (if cf_raw config then Some s else parseCookieValue s)
      in case converter of None \<Rightarrow> v | Some f \<Rightarrow> f v)"

record cookie_options =
  co_expires :: "units option"
  co_path :: "units option"
  co_domain :: "units option"
  co_secure :: bool

definition attribute :: "string \<Rightarrow> units option \<Rightarrow> units" where
  \<comment> \<open>an empty one is left out\<close>
  "attribute name v = (case v of None \<Rightarrow> [] | Some s \<Rightarrow> if s = [] then [] else units (''; '' @ name @ ''='') @ s)"

definition cookie_write :: "cookie_config \<Rightarrow> units \<Rightarrow> units \<Rightarrow> cookie_options \<Rightarrow> units option" where
  \<comment> \<open>what is assigned to \<open>document.cookie\<close>\<close>
  "cookie_write config key value options =
     Option.bind (cookie_encode config key) (\<lambda>k.
     Option.bind (stringifyCookieValue config value) (\<lambda>v.
       Some (k @ units ''='' @ v @ attribute ''expires'' (co_expires options) @ attribute ''path'' (co_path options) @
         attribute ''domain'' (co_domain options) @ (if co_secure options then units ''; secure'' else []))))"

fun split_semi :: "units \<Rightarrow> units list" where
  \<comment> \<open>s.split('; ')\<close>
  "split_semi (a # b # s) =
     (if a = 59 \<and> b = 32 then [] # split_semi s
      else case split_semi (b # s) of [] \<Rightarrow> [[a]] | p # ps \<Rightarrow> (a # p) # ps)"
| "split_semi s = [s]"

definition cookie_parts :: "units \<Rightarrow> units \<times> units" where
  \<comment> \<open>the name, and the rest joined again\<close>
  "cookie_parts c = (case split_on 61 c of [] \<Rightarrow> ([], []) | n # ps \<Rightarrow> (n, join_with [61] ps))"

definition cookie_list :: "units \<Rightarrow> units list" where
  "cookie_list text = (if text = [] then [] else split_semi text)"

fun cookie_find :: "cookie_config \<Rightarrow> units \<Rightarrow> (units option \<Rightarrow> units option) option \<Rightarrow> units list \<Rightarrow> units option option" where
  \<comment> \<open>the loop for a key; \<open>None\<close> as a whole is a URIError of a name on the way\<close>
  "cookie_find config key converter [] = Some None"
| "cookie_find config key converter (c # cs) =
     Option.bind (cookie_decode config (fst (cookie_parts c))) (\<lambda>name.
       if name = key then Some (cookie_value config (snd (cookie_parts c)) converter)
       else cookie_find config key converter cs)"

definition cookie_read :: "cookie_config \<Rightarrow> units \<Rightarrow> (units option \<Rightarrow> units option) option \<Rightarrow> units \<Rightarrow> units option option" where
  \<comment> \<open>with a key that is not empty; \<open>cookie_read_all\<close> is the reading without one\<close>
  "cookie_read config key converter text = cookie_find config key converter (cookie_list text)"

fun cookie_all :: "cookie_config \<Rightarrow> units list \<Rightarrow> (units \<times> units) list \<Rightarrow> (units \<times> units) list option" where
  \<comment> \<open>the loop without a key: the object of all cookies that decode, a later one replacing an earlier one\<close>
  "cookie_all config [] result = Some result"
| "cookie_all config (c # cs) result =
     Option.bind (cookie_decode config (fst (cookie_parts c))) (\<lambda>name.
       cookie_all config cs
         (case cookie_value config (snd (cookie_parts c)) None of
            None \<Rightarrow> result
          | Some v \<Rightarrow> AList.update name v result))"

definition cookie_read_all :: "cookie_config \<Rightarrow> units \<Rightarrow> (units \<times> units) list option" where
  "cookie_read_all config text = cookie_all config (cookie_list text) []"

definition removeCookie :: "cookie_config \<Rightarrow> ('j \<Rightarrow> units) \<Rightarrow> (units \<Rightarrow> 'j \<Rightarrow> 'j) \<Rightarrow> units \<Rightarrow> units \<Rightarrow> cookie_options \<Rightarrow> 'j \<Rightarrow> (bool \<times> 'j) option" where
  \<comment> \<open>over a browser's jar: \<open>text\<close> reads \<open>document.cookie\<close>, \<open>assign\<close> writes it, \<open>past\<close> is the date of yesterday\<close>
  \<comment> \<open>the result, and the jar; without a key \<open>$.cookie\<close> gives the object of all cookies\<close>
  "removeCookie config text assign past key options jar =
     (let gone = (\<lambda>falsy j. if key = [] then map_option (\<lambda>_. False) (cookie_read_all config (text j))
                            else map_option (\<lambda>v. v = None \<or> falsy \<and> v = Some []) (cookie_read config key None (text j)))
      in Option.bind (gone False jar) (\<lambda>absent.
        if absent then Some (False, jar)
        else
          Option.bind (cookie_write config key [] (options\<lparr>co_expires := Some past\<rparr>)) (\<lambda>c.
          let jar = assign c jar
          in map_option (\<lambda>b. (b, jar)) (gone True jar))))"

section \<open>Decoding what was encoded\<close>

lemma unit_hex_unit: "0 \<le> d \<Longrightarrow> d < 16 \<Longrightarrow> unit_hex (hex_unit d) = Some d"
  by (simp add: unit_hex_def hex_unit_def)

lemma escaped_byte: "0 \<le> b \<Longrightarrow> b < 256 \<Longrightarrow> b \<notin> unreserved \<Longrightarrow> escaped (escape_byte b @ t) = Some (b, t)"
  by (simp add: escaped_def escape_byte_def unit_hex_unit)

lemma high_reserved: "128 \<le> b \<Longrightarrow> b \<notin> unreserved"
  by (auto simp: unreserved_def)

lemma continuation_byte:
  "128 \<le> b \<Longrightarrow> b < 192 \<Longrightarrow> continuation (Suc k) v (escape_byte b @ t) = continuation k (64 * v + (b - 128)) t"
  by (simp add: escaped_byte high_reserved)

lemma escape_starts: "b \<notin> unreserved \<Longrightarrow> \<exists>s. escape_byte b @ t = 37 # s"
  by (simp add: escape_byte_def)

lemma decode_escape:
  assumes "b \<notin> unreserved" "decoded_point (escape_byte b @ t) = Some (u, t')"
  shows "decodeURIComponent (escape_byte b @ t) = map_option ((@) u) (decodeURIComponent t')"
proof -
  obtain s where s: "escape_byte b @ t = 37 # s" using escape_starts [OF assms(1)] by blast
  show ?thesis using assms(2) unfolding s by simp
qed

lemma base_64:
  fixes c :: int
  shows "64 * (c div 64) + c mod 64 = c" "64 * (c div 4096) + c div 64 mod 64 = c div 64" "64 * (c div 262144) + c div 4096 mod 64 = c div 4096"
proof -
  show b: "64 * (c div 64) + c mod 64 = c" for c :: int by simp
  have "c div 4096 = c div 64 div 64" "c div 262144 = c div 4096 div 64" by (simp_all add: zdiv_zmult2_eq [symmetric])
  then show "64 * (c div 4096) + c div 64 mod 64 = c div 64" "64 * (c div 262144) + c div 4096 mod 64 = c div 4096" using b by metis+
qed

lemma decode_point:
  assumes "0 \<le> c" "c \<le> 0x10FFFF" "\<not> (0xD800 \<le> c \<and> c \<le> 0xDFFF)"
  shows "decodeURIComponent (concat (map escape_byte (utf8_point c)) @ t) = map_option ((@) (utf16_point c)) (decodeURIComponent t)"
proof -
  consider (plain) "c \<in> unreserved" | (one) "c \<notin> unreserved" "c < 128" | (two) "128 \<le> c" "c < 2048"
    | (three) "2048 \<le> c" "c < 65536" | (four) "65536 \<le> c" by linarith
  then show ?thesis
  proof cases
    case plain
    then have "c < 128" "c \<noteq> 37" by (auto simp: unreserved_def)
    moreover have "((#) c) = ((@) [c])" by (simp add: fun_eq_iff)
    ultimately show ?thesis using plain by (simp add: utf8_point_def escape_byte_def utf16_point_def)
  next
    case one
    have "decoded_point (escape_byte c @ t) = Some ([c], t)" using one assms(1) by (simp add: decoded_point_def escaped_byte)
    from decode_escape [OF one(1) this] show ?thesis using one by (simp add: utf8_point_def utf16_point_def)
  next
    case two
    have b: "128 \<le> 192 + c div 64" "192 + c div 64 < 224" "128 \<le> 128 + c mod 64" "128 + c mod 64 < 192" using two by auto
    have "decoded_point (escape_byte (192 + c div 64) @ escape_byte (128 + c mod 64) @ t) = Some ([c], t)"
      using two b continuation_byte [OF b(3,4), of 0 "c div 64" t] assms(3)
      by (simp add: decoded_point_def escaped_byte high_reserved utf8_lead_def utf16_point_def del: continuation.simps(2))
    from decode_escape [OF high_reserved [OF b(1)] this] show ?thesis using two by (simp add: utf8_point_def utf16_point_def)
  next
    case three
    define x y z where "x = 224 + c div 4096" and "y = 128 + c div 64 mod 64" and "z = 128 + c mod 64"
    have b: "224 \<le> x" "x < 240" "128 \<le> y" "y < 192" "128 \<le> z" "z < 192" using three by (auto simp: x_def y_def z_def)
    have v: "64 * (64 * (x - 224) + (y - 128)) + (z - 128) = c" by (simp add: x_def y_def z_def base_64)
    have "decoded_point (escape_byte x @ escape_byte y @ escape_byte z @ t) = Some ([c], t)"
      using three b continuation_byte [OF b(3,4), of 1 "x - 224" "escape_byte z @ t"] continuation_byte [OF b(5,6), of 0 "64 * (x - 224) + (y - 128)" t] v assms(3)
      by (simp add: decoded_point_def escaped_byte high_reserved utf8_lead_def utf16_point_def numeral_2_eq_2 del: continuation.simps(2))
    moreover have "x \<notin> unreserved" using b(1) by (intro high_reserved) simp
    ultimately show ?thesis using decode_escape [of x] three by (simp add: utf8_point_def utf16_point_def x_def y_def z_def)
  next
    case four
    define w x y z where "w = 240 + c div 262144" and "x = 128 + c div 4096 mod 64" and "y = 128 + c div 64 mod 64" and "z = 128 + c mod 64"
    have b: "240 \<le> w" "w < 248" "128 \<le> x" "x < 192" "128 \<le> y" "y < 192" "128 \<le> z" "z < 192"
      using four assms(2) by (auto simp: w_def x_def y_def z_def)
    have v: "64 * (64 * (64 * (w - 240) + (x - 128)) + (y - 128)) + (z - 128) = c" by (simp add: w_def x_def y_def z_def base_64)
    have "decoded_point (escape_byte w @ escape_byte x @ escape_byte y @ escape_byte z @ t) = Some (utf16_point c, t)"
      using four b continuation_byte [OF b(3,4), of 2 "w - 240" "escape_byte y @ escape_byte z @ t"]
        continuation_byte [OF b(5,6), of 1 "64 * (w - 240) + (x - 128)" "escape_byte z @ t"]
        continuation_byte [OF b(7,8), of 0 "64 * (64 * (w - 240) + (x - 128)) + (y - 128)" t] v assms(2,3)
      by (simp add: decoded_point_def escaped_byte high_reserved utf8_lead_def numeral_2_eq_2 numeral_3_eq_3 del: continuation.simps(2))
    moreover have "w \<notin> unreserved" using b(1) by (intro high_reserved) simp
    ultimately show ?thesis using decode_escape [of w] four by (simp add: utf8_point_def w_def x_def y_def z_def)
  qed
qed

definition code_units :: "units \<Rightarrow> bool" where
  "code_units s \<longleftrightarrow> (\<forall>c \<in> set s. 0 \<le> c \<and> c < 65536)"

lemma decode_encode:
  assumes "encodeURIComponent s = Some e" "code_units s"
  shows "decodeURIComponent e = Some s"
proof -
  have "str2rstr_utf8 s = Some bs \<Longrightarrow> decodeURIComponent (concat (map escape_byte bs)) = Some s" for bs
    using assms(2)
  proof (induction s arbitrary: bs rule: str2rstr_utf8.induct)
    case (2 c s)
    note c = "2.prems"(2)
    show ?case
    proof (cases "0xD800 \<le> c \<and> c \<le> 0xDBFF")
      case True
      then obtain d s' r where d: "s = d # s'" "0xDC00 \<le> d \<and> d \<le> 0xDFFF" "str2rstr_utf8 s' = Some r"
        "bs = utf8_point ((c - 0xD800) * 0x400 + (d - 0xDC00) + 0x10000) @ r"
        using "2.prems"(1) by (auto split: list.splits if_splits)
      define v where "v = (c - 0xD800) * 0x400 + (d - 0xDC00) + 0x10000"
      have h: "(a + b * 0x400) div 0x400 = b" "(a + b * 0x400) mod 0x400 = a" if "0 \<le> a" "a < 0x400" for a b :: int using that by simp_all
      have "v - 0x10000 = (d - 0xDC00) + (c - 0xD800) * 0x400" by (simp add: v_def)
      then have "(v - 0x10000) div 0x400 = c - 0xD800" "(v - 0x10000) mod 0x400 = d - 0xDC00"
        using h [of "d - 0xDC00" "c - 0xD800"] d(2) by (simp_all only:)  simp_all
      then have v: "0 \<le> v" "v \<le> 0x10FFFF" "\<not> (0xD800 \<le> v \<and> v \<le> 0xDFFF)" "utf16_point v = [c, d]"
        using True d(2) by (simp_all add: utf16_point_def) (simp_all add: v_def)
      have "decodeURIComponent (concat (map escape_byte r)) = Some s'"
        by (rule "2.IH"(1) [OF True d(1,2,3)]) (use c d(1) in \<open>auto simp: code_units_def\<close>)
      then show ?thesis using decode_point [OF v(1-3), of "concat (map escape_byte r)"] v(4)
        unfolding d(1,4) v_def [symmetric] by simp
    next
      case False
      then obtain r where r: "\<not> (0xDC00 \<le> c \<and> c \<le> 0xDFFF)" "str2rstr_utf8 s = Some r" "bs = utf8_point c @ r"
        using "2.prems"(1) by (auto split: if_splits)
      have v: "0 \<le> c" "c \<le> 0x10FFFF" "\<not> (0xD800 \<le> c \<and> c \<le> 0xDFFF)" "utf16_point c = [c]"
        using False r(1) c by (auto simp: utf16_point_def code_units_def)
      have "decodeURIComponent (concat (map escape_byte r)) = Some s"
        by (rule "2.IH"(2) [OF False r(1,2)]) (use c in \<open>auto simp: code_units_def\<close>)
      then show ?thesis using decode_point [OF v(1-3), of "concat (map escape_byte r)"] v(4) by (simp add: r(3))
    qed
  qed simp
  then show ?thesis using assms(1) by (auto simp: encodeURIComponent_def)
qed

section \<open>What the encoded text holds\<close>

lemma escape_byte_chars: "0 \<le> b \<Longrightarrow> b < 256 \<Longrightarrow> set (escape_byte b) \<subseteq> unreserved \<union> {37}"
proof -
  assume b: "0 \<le> b" "b < 256"
  have "hex_unit d \<in> unreserved" if "0 \<le> d" "d < 16" for d
    using that by (auto simp: hex_unit_def unreserved_def)
  then show ?thesis using b by (auto simp: escape_byte_def)
qed

lemma utf8_point_bytes: "0 \<le> c \<Longrightarrow> c \<le> 0x10FFFF \<Longrightarrow> \<forall>b \<in> set (utf8_point c). 0 \<le> b \<and> b < 256"
proof -
  assume c: "0 \<le> c" "c \<le> 0x10FFFF"
  have m: "0 \<le> x mod 64 \<and> x mod 64 < 64" for x :: int by simp
  have d: "0 \<le> c div 64" "0 \<le> c div 4096" "0 \<le> c div 262144" "c < 2048 \<Longrightarrow> c div 64 < 32" "c < 65536 \<Longrightarrow> c div 4096 < 16" "c div 262144 < 5"
    using c by auto
  show ?thesis using c d m [of c] m [of "c div 64"] m [of "c div 4096"] unfolding utf8_point_def by (auto split: if_splits)
qed

lemma utf8_units_bytes: "str2rstr_utf8 s = Some bs \<Longrightarrow> code_units s \<Longrightarrow> \<forall>b \<in> set bs. 0 \<le> b \<and> b < 256"
proof (induction s arbitrary: bs rule: str2rstr_utf8.induct)
  case (2 c s)
  show ?case
  proof (cases "0xD800 \<le> c \<and> c \<le> 0xDBFF")
    case True
    then obtain d s' r where d: "s = d # s'" "0xDC00 \<le> d \<and> d \<le> 0xDFFF" "str2rstr_utf8 s' = Some r"
      "bs = utf8_point ((c - 0xD800) * 0x400 + (d - 0xDC00) + 0x10000) @ r"
      using "2.prems"(1) by (auto split: list.splits if_splits)
    have "\<forall>b \<in> set r. 0 \<le> b \<and> b < 256" using "2.IH"(1) [OF True d(1-3)] "2.prems"(2) d(1) by (simp add: code_units_def)
    moreover have "\<forall>b \<in> set (utf8_point ((c - 0xD800) * 0x400 + (d - 0xDC00) + 0x10000)). 0 \<le> b \<and> b < 256"
      by (rule utf8_point_bytes) (use True d(2) in auto)
    ultimately show ?thesis unfolding d(4) by auto
  next
    case False
    then obtain r where r: "\<not> (0xDC00 \<le> c \<and> c \<le> 0xDFFF)" "str2rstr_utf8 s = Some r" "bs = utf8_point c @ r"
      using "2.prems"(1) by (auto split: if_splits)
    have "\<forall>b \<in> set r. 0 \<le> b \<and> b < 256" using "2.IH"(2) [OF False r(1,2)] "2.prems"(2) by (simp add: code_units_def)
    moreover have "\<forall>b \<in> set (utf8_point c). 0 \<le> b \<and> b < 256"
      by (rule utf8_point_bytes) (use "2.prems"(2) in \<open>auto simp: code_units_def\<close>)
    ultimately show ?thesis unfolding r(3) by auto
  qed
qed simp

lemma encoded_chars:
  assumes "encodeURIComponent s = Some e" "code_units s"
  shows "set e \<subseteq> unreserved \<union> {37}"
proof -
  obtain bs where bs: "str2rstr_utf8 s = Some bs" "e = concat (map escape_byte bs)" using assms(1) by (auto simp: encodeURIComponent_def)
  show ?thesis using utf8_units_bytes [OF bs(1) assms(2)] escape_byte_chars unfolding bs(2) by fastforce
qed

section \<open>Reading what was written\<close>

lemma split_semi_first: "59 \<notin> set p \<Longrightarrow> split_semi (p @ 59 # 32 # s) = p # split_semi s"
proof (induction p)
  case (Cons a p)
  then show ?case by (cases p) auto
qed simp

lemma split_semi_one: "59 \<notin> set p \<Longrightarrow> split_semi p = [p]"
  by (induction p rule: split_semi.induct) auto

lemma split_semi_ne: "split_semi s \<noteq> []"
  by (induction s rule: split_semi.induct) (auto split: list.split)

lemma split_semi_join:
  assumes "\<forall>p \<in> set pre. 59 \<notin> set p" "59 \<notin> set c"
  shows "\<exists>cs. split_semi (join_with [59, 32] (pre @ c # post)) = pre @ c # cs"
  using assms(1)
proof (induction pre)
  case Nil
  show ?case
  proof (cases post)
    case Nil
    then show ?thesis using split_semi_one [OF assms(2)] by simp
  next
    case (Cons q qs)
    then show ?thesis using split_semi_first [OF assms(2)] by simp
  qed
next
  case (Cons p pre)
  then obtain cs where "split_semi (join_with [59, 32] (pre @ c # post)) = pre @ c # cs" by auto
  moreover have "join_with [59, 32] ((p # pre) @ c # post) = p @ 59 # 32 # join_with [59, 32] (pre @ c # post)"
    by (cases "pre @ c # post") simp_all
  ultimately show ?case using split_semi_first [of p] Cons.prems by simp
qed

lemma split_on_first: "x \<notin> set p \<Longrightarrow> split_on x (p @ x # s) = p # split_on x s"
  by (induction p) auto

lemma split_on_none: "x \<notin> set p \<Longrightarrow> split_on x p = [p]"
  by (induction p) auto

lemma cookie_find_skips:
  assumes "\<forall>p \<in> set pre. \<exists>name. cookie_decode config (fst (cookie_parts p)) = Some name \<and> name \<noteq> key"
  shows "cookie_find config key f (pre @ cs) = cookie_find config key f cs"
  using assms by (induction pre) auto

text \<open>C35: What a page stores in a cookie is what the next page reads: the text that is written starts with a pair whose
  name and value are encoded, and reading the key from any list of cookies in which this pair comes after others
  whose names decode to something else gives the value, whatever characters the value and the key, which is not empty, have.\<close>

theorem cookie_round_trip:
  assumes "cookie_write \<lparr>cf_raw = False\<rparr> key v options = Some c" "code_units key" "code_units v"
    "\<forall>p \<in> set pre. 59 \<notin> set p \<and> (\<exists>name. decodeURIComponent (fst (cookie_parts p)) = Some name \<and> name \<noteq> key)"
    "key \<noteq> []"
  shows "cookie_read \<lparr>cf_raw = False\<rparr> key None (join_with [59, 32] (pre @ takeWhile (\<lambda>x. x \<noteq> 59) c # post)) = Some (Some v)"
proof -
  define attrs where "attrs = attribute ''expires'' (co_expires options) @ attribute ''path'' (co_path options) @
         attribute ''domain'' (co_domain options) @ (if co_secure options then units ''; secure'' else [])"
  obtain k w where e: "encodeURIComponent key = Some k" "encodeURIComponent v = Some w" "c = k @ 61 # w @ attrs"
    using assms(1) by (auto simp: cookie_write_def cookie_encode_def stringifyCookieValue_def attrs_def units_def split: bind_splits)
  have chars: "set k \<subseteq> unreserved \<union> {37}" "set w \<subseteq> unreserved \<union> {37}"
    using encoded_chars [OF e(1) assms(2)] encoded_chars [OF e(2) assms(3)] .
  then have no: "x \<notin> set k" "x \<notin> set w" if "x \<in> {59, 61, 43, 34}" for x
    using that by (auto simp: unreserved_def)
  have "attrs = [] \<or> hd attrs = 59"
    by (auto simp: attrs_def attribute_def units_def hd_append split: option.split)
  then have pair: "takeWhile (\<lambda>x. x \<noteq> 59) c = k @ 61 # w"
    using no [of 59] by (cases attrs) (auto simp: e(3) takeWhile_append2 takeWhile_tail takeWhile_append)
  have parts: "cookie_parts (k @ 61 # w) = (k, w)"
    using no [of 61] by (simp add: cookie_parts_def split_on_first split_on_none)
  have "map (\<lambda>c. if c = 43 then 32 else c) w = w" using no(2) [of 43] by (induction w) auto
  moreover have q: "\<not> (w \<noteq> [] \<and> hd w = 34)" using no(2) [of 34] by (cases w) auto
  ultimately have "parseCookieValue w = Some v"
    using decode_encode [OF e(2) assms(3)] unfolding parseCookieValue_def Let_def if_not_P [OF q] by simp
  then have found: "cookie_find \<lparr>cf_raw = False\<rparr> key None ((k @ 61 # w) # cs) = Some (Some v)" for cs
    using decode_encode [OF e(1) assms(2)] by (simp add: parts cookie_decode_def cookie_value_def)
  have "59 \<notin> set (k @ 61 # w)" using no [of 59] by simp
  then obtain cs where cs: "split_semi (join_with [59, 32] (pre @ (k @ 61 # w) # post)) = pre @ (k @ 61 # w) # cs"
    using split_semi_join assms(4) by blast
  have "join_with [59, 32] (pre @ (k @ 61 # w) # post) \<noteq> []"
    by (cases pre; cases "tl pre @ (k @ 61 # w) # post"; cases post) auto
  then have "cookie_list (join_with [59, 32] (pre @ (k @ 61 # w) # post)) = pre @ (k @ 61 # w) # cs"
    using cs by (simp add: cookie_list_def)
  then show ?thesis
    using found cookie_find_skips [of pre "\<lparr>cf_raw = False\<rparr>" key] assms(4)
    unfolding cookie_read_def pair by (simp add: cookie_decode_def del: cookie_find.simps)
qed

theorem cookie_round_trip_witness:
  \<comment> \<open>a name with a character outside ASCII and a semicolon, after a cookie of the session\<close>
  "cookie_read \<lparr>cf_raw = False\<rparr> (units ''select_org_name'') None
    (join_with [59, 32] [units ''JSESSIONID=a=1'', takeWhile (\<lambda>x. x \<noteq> 59)
      (the (cookie_write \<lparr>cf_raw = False\<rparr> (units ''select_org_name'') [0x90E8, 59] \<lparr>co_expires = None, co_path = Some (units ''/''),
        co_domain = None, co_secure = False\<rparr>))]) = Some (Some [0x90E8, 59])"
proof -
  define opts where "opts = \<lparr>co_expires = None, co_path = Some (units ''/''), co_domain = None, co_secure = False\<rparr>"
  have w: "cookie_write \<lparr>cf_raw = False\<rparr> (units ''select_org_name'') [0x90E8, 59] opts \<noteq> None" unfolding opts_def by code_simp
  then obtain c where c: "cookie_write \<lparr>cf_raw = False\<rparr> (units ''select_org_name'') [0x90E8, 59] opts = Some c" by blast
  have u: "code_units (units ''select_org_name'')" "code_units [0x90E8, 59]" by (simp_all add: code_units_def units_def)
  have "decodeURIComponent (fst (cookie_parts (units ''JSESSIONID=a=1''))) = Some (units ''JSESSIONID'')" "59 \<notin> set (units ''JSESSIONID=a=1'')"
    "units ''JSESSIONID'' \<noteq> units ''select_org_name''" "units ''select_org_name'' \<noteq> []" by code_simp+
  then show ?thesis
    using cookie_round_trip [OF c u, of "[units ''JSESSIONID=a=1'']" "[]"] c unfolding opts_def [symmetric] by simp
qed

text \<open>One cookie whose name is no valid escape - from another application of the host, say - makes every reading
  after it throw: the name is decoded outside of the \<open>try\<close>.\<close>

lemma cookie_bad_name_throws:
  assumes "cookie_decode config (fst (cookie_parts bad)) = None"
    "\<forall>p \<in> set pre. \<exists>name. cookie_decode config (fst (cookie_parts p)) = Some name \<and> name \<noteq> key"
  shows "cookie_find config key f (pre @ bad # cs) = None"
  using cookie_find_skips [OF assms(2)] assms(1) by simp

end
