(* ===== verification/Json_Format.thy ===== *)
theory Json_Format
  imports Js_Text
begin

text \<open>
  The text of a JSON value (\<open>FormatJSON\<close> of jquery/jsonformatter.js), as the pages of the histories
  show the content of a log entry: with line breaks and four blanks for each level.
\<close>

section \<open>Values\<close>

text \<open>
  A number is an integer that JavaScript prints in full, which it does below 10 to the power of 21, or else the
  text it prints; the entries of an object are in the order in
  which a loop over it meets them, and no key appears twice. Left out are objects whose field \<open>length\<close>
  is a fraction, or whose field \<open>constructor\<close> equals one of JavaScript's.
\<close>

datatype json = JNull | JBool bool | JInt int | JFrac string | JStr string | JArr "json list" | JObj "(string \<times> json) list"

definition RealTypeOf :: "json \<Rightarrow> string" where
  "RealTypeOf v =
     (case v of JNull \<Rightarrow> ''null'' | JBool b \<Rightarrow> ''boolean'' | JInt i \<Rightarrow> ''number'' | JFrac t \<Rightarrow> ''number''
      | JStr s \<Rightarrow> ''string'' | JArr vs \<Rightarrow> ''array'' | JObj ps \<Rightarrow> ''object'')"

definition int_text :: "int \<Rightarrow> string" where
  "int_text i = (if i < 0 then ''-'' @ decimal (nat (- i)) else decimal (nat i))"

text \<open>
  \<open>$.each\<close> runs over an object that looks like an array - a field \<open>length\<close> that is 0, or a positive
  integer whose predecessor is a key - by index; a field that is not there is undefined.
\<close>

definition array_like :: "(string \<times> json) list \<Rightarrow> nat option" where
  "array_like ps =
     (case map_of ps ''length'' of
        Some (JInt n) \<Rightarrow> if n = 0 \<or> 0 < n \<and> map_of ps (decimal (nat (n - 1))) \<noteq> None then Some (nat n) else None
      | _ \<Rightarrow> None)"

definition each_item :: "(string \<times> json) list \<Rightarrow> (string \<times> string) list \<Rightarrow> (string \<times> string) list" where
  \<comment> \<open>the keys and the texts of what the loop meets, from those of the fields\<close>
  "each_item ps texts =
     (case array_like ps of
        None \<Rightarrow> texts
      | Some n \<Rightarrow>
          map (\<lambda>i. (decimal i, case map_of texts (decimal i) of None \<Rightarrow> ''TYPEOF: undefined'' | Some t \<Rightarrow> t)) [0..<n])"

section \<open>FormatJSON\<close>

definition sIndentStyle :: string where
  "sIndentStyle = ''    ''"

definition dquoted :: "string \<Rightarrow> string" where
  "dquoted s = CHR 0x22 # s @ [CHR 0x22]"

fun format_value :: "string \<Rightarrow> json \<Rightarrow> string" where
  \<comment> \<open>the text of a value; an array or object whose lines start at this indentation\<close>
  "format_value ind JNull = ''null''"
| "format_value ind (JBool b) = (if b then ''true'' else ''false'')"
| "format_value ind (JInt i) = int_text i"
| "format_value ind (JFrac t) = t"
| "format_value ind (JStr s) = dquoted s"
| "format_value ind (JArr vs) =
     (if vs = [] then ''[]''
      else ''['' @ join_with '','' (map (\<lambda>v. CHR 0x0A # ind @ sIndentStyle @ format_value (ind @ sIndentStyle) v) vs) @
           CHR 0x0A # ind @ '']'')"
| "format_value ind (JObj ps) =
     (let items = each_item ps (map (\<lambda>(k, v). (k, format_value (ind @ sIndentStyle) v)) ps)
      in if items = [] then ''{}''
         else ''{'' @ join_with '','' (map (\<lambda>(k, t). CHR 0x0A # ind @ sIndentStyle @ dquoted k @ '': '' @ t) items) @
              CHR 0x0A # ind @ ''}'')"

definition FormatJSON :: "json \<Rightarrow> string \<Rightarrow> string option" where
  \<comment> \<open>a number, string or boolean that is true in a condition makes \<open>$.each\<close> throw; another one has no items\<close>
  "FormatJSON v ind =
     (case v of
        JArr vs \<Rightarrow> Some (format_value ind v)
      | JObj ps \<Rightarrow> Some (format_value ind v)
      | JNull \<Rightarrow> Some ''{}''
      | JBool b \<Rightarrow> if b then None else Some ''{}''
      | JInt i \<Rightarrow> if i \<noteq> 0 then None else Some ''{}''
      | JFrac t \<Rightarrow> if t \<noteq> ''NaN'' then None else Some ''{}''
      | JStr s \<Rightarrow> if s \<noteq> '''' then None else Some ''{}'')"

section \<open>JSON.stringify and white space\<close>

text \<open>The standard text of a value, without line breaks.\<close>

definition escape_char :: "char \<Rightarrow> string" where
  "escape_char c =
     (if c = CHR 0x22 then [CHR 0x5C, CHR 0x22] else if c = CHR 0x5C then [CHR 0x5C, CHR 0x5C]
      else let n = of_char c :: nat
           in case map_of [(8, CHR ''b''), (9, CHR ''t''), (10, CHR ''n''), (12, CHR ''f''), (13, CHR ''r'')] n of
                Some e \<Rightarrow> [CHR 0x5C, e]
              | None \<Rightarrow> if n < 32 then CHR 0x5C # ''u00'' @ [hex_char (int n div 16), hex_char (int n mod 16)] else [c])"

definition json_string :: "string \<Rightarrow> string" where
  "json_string s = dquoted (concat (map escape_char s))"

fun stringify :: "json \<Rightarrow> string" where
  "stringify JNull = ''null''"
| "stringify (JBool b) = (if b then ''true'' else ''false'')"
| "stringify (JInt i) = int_text i"
| "stringify (JFrac t) = t"
| "stringify (JStr s) = json_string s"
| "stringify (JArr vs) = ''['' @ join_with '','' (map stringify vs) @ '']''"
| "stringify (JObj ps) = ''{'' @ join_with '','' (map (\<lambda>(k, v). json_string k @ '':'' @ stringify v) ps) @ ''}''"

fun strip :: "bool \<Rightarrow> string \<Rightarrow> string" where
  \<comment> \<open>without the white space outside of strings; whether a string is open\<close>
  "strip b [] = []"
| "strip False (c # s) =
     (if c = CHR 0x22 then c # strip True s else if c \<in> {CHR 0x20, CHR 0x0A} then strip False s else c # strip False s)"
| "strip True (c # s) =
     (if c = CHR 0x5C then (case s of [] \<Rightarrow> [c] | d # t \<Rightarrow> c # d # strip True t)
      else if c = CHR 0x22 then c # strip False s else c # strip True s)"

definition plain_text :: "string \<Rightarrow> bool" where
  \<comment> \<open>no character that a string has to escape\<close>
  "plain_text s \<longleftrightarrow> (\<forall>c \<in> set s. c \<noteq> CHR 0x22 \<and> c \<noteq> CHR 0x5C \<and> 32 \<le> (of_char c :: nat))"

fun plain_json :: "json \<Rightarrow> bool" where
  "plain_json (JStr s) \<longleftrightarrow> plain_text s"
| "plain_json (JFrac t) \<longleftrightarrow> set t \<subseteq> set ''0123456789+-.eE''"
| "plain_json (JArr vs) \<longleftrightarrow> (\<forall>v \<in> set vs. plain_json v)"
| "plain_json (JObj ps) \<longleftrightarrow> array_like ps = None \<and> (\<forall>(k, v) \<in> set ps. plain_text k \<and> plain_json v)"
| "plain_json v \<longleftrightarrow> True"

section \<open>FormatJSON only adds white space\<close>

definition bare :: "char set" where
  \<comment> \<open>characters that stay outside of strings\<close>
  "bare = - {CHR 0x22, CHR 0x20, CHR 0x0A}"

lemma strip_bare: "set a \<subseteq> bare \<Longrightarrow> strip False (a @ s) = a @ strip False s"
  by (induction a) (auto simp: bare_def)

lemma strip_blank: "set a \<subseteq> {CHR 0x20, CHR 0x0A} \<Longrightarrow> strip False (a @ s) = strip False s"
  by (induction a) auto

lemma escape_plain: "plain_text s \<Longrightarrow> concat (map escape_char s) = s"
proof (induction s)
  case (Cons c s)
  have "map_of [(8, CHR ''b''), (9, CHR ''t''), (10, CHR ''n''), (12, CHR ''f''), (13, CHR ''r'')] (of_char c :: nat) = None"
    using Cons.prems by (auto simp: plain_text_def)
  then show ?case using Cons by (simp add: plain_text_def escape_char_def Let_def)
qed simp

lemma strip_string:
  assumes "plain_text s"
  shows "strip False (dquoted s @ t) = json_string s @ strip False t"
proof -
  have "plain_text s \<Longrightarrow> strip True (s @ CHR 0x22 # t) = s @ CHR 0x22 # strip False t" for s
    by (induction s) (auto simp: plain_text_def)
  then show ?thesis using assms escape_plain [OF assms] by (simp add: dquoted_def json_string_def)
qed

lemma int_text_bare: "set (int_text i) \<subseteq> bare"
proof -
  have d: "set (decimal n) \<subseteq> bare" for n
  proof (induction n rule: decimal.induct)
    case (1 n)
    have c: "char_of (48 + m) \<in> bare" if "m < 10" for m :: nat
    proof -
      have "(of_char (char_of (48 + m) :: char) :: nat) = 48 + m" using that by simp
      then show ?thesis unfolding bare_def by (auto dest: arg_cong [of _ _ "of_char :: char \<Rightarrow> nat"])
    qed
    show ?case using 1 c [of "n mod 10"] c [of n] by (subst decimal.simps) auto
  qed
  then show ?thesis by (auto simp: int_text_def bare_def)
qed

lemma strip_items:
  assumes "\<And>x s. x \<in> set xs \<Longrightarrow> strip False (f x @ s) = g x @ strip False s"
  shows "strip False (join_with '','' (map f xs) @ s) = join_with '','' (map g xs) @ strip False s"
  using assms
proof (induction xs)
  case (Cons x xs)
  then show ?case by (cases xs) simp_all
qed simp

lemma strip_format:
  assumes "plain_json v" "set ind \<subseteq> {CHR 0x20}"
  shows "strip False (format_value ind v @ s) = stringify v @ strip False s"
  using assms
proof (induction ind v arbitrary: s rule: format_value.induct)
  case (4 ind t)
  have "set ''0123456789+-.eE'' \<subseteq> bare" by (simp add: bare_def)
  then have "set t \<subseteq> bare" using "4.prems"(1) by auto
  then show ?case by (simp add: strip_bare)
next
  case (6 ind vs)
  define pad where "pad = CHR 0x0A # ind @ sIndentStyle"
  have blank: "set pad \<subseteq> {CHR 0x20, CHR 0x0A}" "set (CHR 0x0A # ind) \<subseteq> {CHR 0x20, CHR 0x0A}" "set (ind @ sIndentStyle) \<subseteq> {CHR 0x20}"
    using "6.prems"(2) by (auto simp: pad_def sIndentStyle_def)
  have item: "strip False ((pad @ format_value (ind @ sIndentStyle) v) @ s) = stringify v @ strip False s" if "v \<in> set vs" for v s
    using "6.IH" [OF _ that] "6.prems"(1) that blank by (cases vs) (auto simp: strip_blank)
  show ?case
  proof (cases "vs = []")
    case False
    have "format_value ind (JArr vs) = ''['' @ join_with '','' (map (\<lambda>v. pad @ format_value (ind @ sIndentStyle) v) vs) @ (CHR 0x0A # ind) @ '']''"
      using False by (simp add: pad_def)
    then show ?thesis
      using strip_items [of vs "\<lambda>v. pad @ format_value (ind @ sIndentStyle) v" stringify, OF item] strip_blank [OF blank(2)]
        strip_bare [of "''[''"] strip_bare [of "'']''"] by (simp add: bare_def)
  qed (simp add: strip_bare bare_def)
next
  case (7 ind ps)
  define pad where "pad = CHR 0x0A # ind @ sIndentStyle"
  define F where "F = (\<lambda>kv. pad @ dquoted (fst kv) @ '': '' @ format_value (ind @ sIndentStyle) (snd kv))"
  define G where "G = (\<lambda>(k, v). json_string k @ '':'' @ stringify v)"
  have blank: "set pad \<subseteq> {CHR 0x20, CHR 0x0A}" "set (CHR 0x0A # ind) \<subseteq> {CHR 0x20, CHR 0x0A}" "set (ind @ sIndentStyle) \<subseteq> {CHR 0x20}"
    using "7.prems"(2) by (auto simp: pad_def sIndentStyle_def)
  have item: "strip False (F kv @ s) = G kv @ strip False s" if kv: "kv \<in> set ps" for kv s
  proof -
    obtain k v where e: "kv = (k, v)" by fastforce
    have p: "plain_text k" "plain_json v" using "7.prems"(1) kv by (auto simp: e)
    have "strip False (format_value (ind @ sIndentStyle) v @ s) = stringify v @ strip False s"
      by (rule "7.IH" [OF kv _ p(2) blank(3)]) (simp add: e)
    then show ?thesis
      using strip_blank [OF blank(1)] strip_string [OF p(1)] by (simp add: F_def G_def e)
  qed
  have f: "format_value ind (JObj ps) = (if ps = [] then ''{}'' else ''{'' @ join_with '','' (map F ps) @ (CHR 0x0A # ind) @ ''}'')"
    using "7.prems"(1) by (simp add: each_item_def F_def pad_def comp_def case_prod_beta)
  show ?case
  proof (cases "ps = []")
    case False
    then show ?thesis
      using strip_items [of ps F G, OF item] strip_blank [OF blank(2)] strip_bare [of "''{''"] strip_bare [of "''}''"]
      unfolding f by (simp add: bare_def G_def)
  next
    case True
    then show ?thesis unfolding f using strip_bare [of "''{}''" s] by (simp add: bare_def)
  qed
next
  case (3 ind i)
  then show ?case by (simp add: strip_bare [OF int_text_bare])
qed (simp_all add: strip_bare strip_string bare_def)

text \<open>C36: For a value without characters that a string has to escape, and without an object that looks like an array,
  the text of the history pages differs from the standard \<open>JSON.stringify\<close> only in white space outside of strings.
  But it escapes nothing: a quotation mark in a value ends its string.\<close>

theorem FormatJSON_adds_space:
  assumes "plain_json v" "RealTypeOf v \<in> {''array'', ''object''}"
  shows "\<exists>t. FormatJSON v '''' = Some t \<and> strip False t = stringify v"
  using strip_format [OF assms(1), of "''''" "''''"] assms(2)
  by (cases v) (simp_all add: FormatJSON_def RealTypeOf_def del: format_value.simps)

theorem FormatJSON_adds_space_witness:
  "FormatJSON (JObj [(''id'', JInt 7), (''tags'', JArr [JStr ''a b'', JNull])]) '''' =
     Some (''{'' @ CHR 0x0A # ''    '' @ dquoted ''id'' @ '': 7,'' @ CHR 0x0A # ''    '' @ dquoted ''tags'' @ '': ['' @ CHR 0x0A # ''        '' @
       dquoted ''a b'' @ '','' @ CHR 0x0A # ''        null'' @ CHR 0x0A # ''    ]'' @ CHR 0x0A # ''}'') \<and>
   strip False (the (FormatJSON (JObj [(''id'', JInt 7), (''tags'', JArr [JStr ''a b'', JNull])]) '''')) =
     ''{'' @ dquoted ''id'' @ '':7,'' @ dquoted ''tags'' @ '':['' @ dquoted ''a b'' @ '',null]}''"
proof -
  have p: "plain_json (JObj [(''id'', JInt 7), (''tags'', JArr [JStr ''a b'', JNull])])"
    "RealTypeOf (JObj [(''id'', JInt 7), (''tags'', JArr [JStr ''a b'', JNull])]) \<in> {''array'', ''object''}" by code_simp+
  have "stringify (JObj [(''id'', JInt 7), (''tags'', JArr [JStr ''a b'', JNull])]) =
      ''{'' @ dquoted ''id'' @ '':7,'' @ dquoted ''tags'' @ '':['' @ dquoted ''a b'' @ '',null]}''" by code_simp
  moreover have "FormatJSON (JObj [(''id'', JInt 7), (''tags'', JArr [JStr ''a b'', JNull])]) '''' =
     Some (''{'' @ CHR 0x0A # ''    '' @ dquoted ''id'' @ '': 7,'' @ CHR 0x0A # ''    '' @ dquoted ''tags'' @ '': ['' @ CHR 0x0A # ''        '' @
       dquoted ''a b'' @ '','' @ CHR 0x0A # ''        null'' @ CHR 0x0A # ''    ]'' @ CHR 0x0A # ''}'')" by code_simp
  ultimately show ?thesis using FormatJSON_adds_space [OF p] by auto
qed

text \<open>A value with a quotation mark is not the text of its JSON value but of another one.\<close>

lemma FormatJSON_no_escape:
  "map_option (strip False) (FormatJSON (JObj [(''a'', JStr [CHR ''x'', CHR 0x22, CHR '','', CHR 0x22, CHR ''b'', CHR 0x22, CHR '':'', CHR 0x22, CHR ''y''])]) '''') =
   Some (stringify (JObj [(''a'', JStr ''x''), (''b'', JStr ''y'')]))"
  by code_simp

text \<open>An object with a field \<open>length\<close> that is 0 is shown as empty.\<close>

lemma FormatJSON_length_zero: "FormatJSON (JObj [(''length'', JInt 0), (''a'', JInt 1)]) '''' = Some ''{}''"
  by code_simp

end
