(* ===== verification/Tabs.thy ===== *)
theory Tabs
  imports Main
begin

text \<open>
  The tabs of a form (switchtab.js): a list of headers, each with the id of the element that holds
  its content, of which one is shown.
\<close>

section \<open>The handler\<close>

record tab =
  tab_id :: string
  tab_value :: string
  tab_current :: bool

text \<open>
  The headers in the order of the page, the elements that are shown, by their id, and the calls of the
  function \<open>switchTab\<close> that a page may define.
\<close>

record tab_page =
  tab_lis :: "tab list"
  tab_shown :: "string \<Rightarrow> bool"
  tab_hook :: bool
  tab_calls :: "string list"

definition current_id :: "tab list \<Rightarrow> string option" where
  \<comment> \<open>$(".switch_tab_current").attr("id")\<close>
  "current_id ts = map_option tab_id (List.find tab_current ts)"

definition unmark_tabs :: "tab list \<Rightarrow> tab list" where
  "unmark_tabs ts = map (\<lambda>t. t\<lparr>tab_current := False\<rparr>) ts"

definition mark_tab :: "nat \<Rightarrow> tab list \<Rightarrow> tab list" where
  "mark_tab n ts = ts[n := (ts ! n)\<lparr>tab_current := True\<rparr>]"

definition hide_contents :: "tab list \<Rightarrow> (string \<Rightarrow> bool) \<Rightarrow> string \<Rightarrow> bool" where
  "hide_contents ts shown = fold (\<lambda>t s. s(tab_value t := False)) ts shown"

definition tab_click :: "nat \<Rightarrow> tab_page \<Rightarrow> tab_page" where
  \<comment> \<open>a click on the header at position n\<close>
  "tab_click n p =
     (let t = tab_lis p ! n
      in if current_id (tab_lis p) = Some (tab_id t) then p
         else
           let p = p\<lparr>tab_lis := mark_tab n (unmark_tabs (tab_lis p))\<rparr>;
               p = p\<lparr>tab_shown := hide_contents (tab_lis p) (tab_shown p)\<rparr>;
               p = p\<lparr>tab_shown := (tab_shown p)(tab_value t := True)\<rparr>
           in if tab_hook p then p\<lparr>tab_calls := tab_calls p @ [tab_value t]\<rparr> else p)"

section \<open>One header, one content\<close>

definition tabs_ok :: "nat \<Rightarrow> tab_page \<Rightarrow> bool" where
  \<comment> \<open>the header at position m alone is marked, and its content alone is shown\<close>
  "tabs_ok m p \<longleftrightarrow>
     distinct (map tab_id (tab_lis p)) \<and> distinct (map tab_value (tab_lis p)) \<and> m < length (tab_lis p) \<and>
     (\<forall>n < length (tab_lis p). (tab_current (tab_lis p ! n) \<longleftrightarrow> n = m) \<and> (tab_shown p (tab_value (tab_lis p ! n)) \<longleftrightarrow> n = m))"

lemma current_id_nth:
  assumes "tabs_ok m p"
  shows "current_id (tab_lis p) = Some (tab_id (tab_lis p ! m))"
proof -
  have m: "m < length (tab_lis p)" "\<forall>n < length (tab_lis p). tab_current (tab_lis p ! n) \<longleftrightarrow> n = m"
    using assms by (simp_all add: tabs_ok_def)
  then have "List.find tab_current (tab_lis p) = Some (tab_lis p ! m)" by (auto simp: find_Some_iff)
  then show ?thesis by (simp add: current_id_def)
qed

lemma hide_contents_apply: "hide_contents ts shown x \<longleftrightarrow> shown x \<and> x \<notin> tab_value ` set ts"
  unfolding hide_contents_def by (induction ts arbitrary: shown) auto

lemma marked_tabs:
  assumes "n < length ts"
  shows "map tab_id (mark_tab n (unmark_tabs ts)) = map tab_id ts" "map tab_value (mark_tab n (unmark_tabs ts)) = map tab_value ts"
    "k < length ts \<Longrightarrow> tab_current (mark_tab n (unmark_tabs ts) ! k) \<longleftrightarrow> k = n"
  using assms by (auto simp: mark_tab_def unmark_tabs_def map_update comp_def nth_list_update list_update_same_conv intro: nth_equalityI)

lemma tab_click_same: "tabs_ok m p \<Longrightarrow> tab_click m p = p"
  by (simp add: tab_click_def current_id_nth)

lemma tab_click_lis:
  assumes "tabs_ok m p" "n < length (tab_lis p)" "n \<noteq> m"
  shows "tab_lis (tab_click n p) = mark_tab n (unmark_tabs (tab_lis p))"
    "tab_shown (tab_click n p) x \<longleftrightarrow> (if x \<in> tab_value ` set (tab_lis p) then x = tab_value (tab_lis p ! n) else tab_shown p x)"
    "tab_calls (tab_click n p) = tab_calls p @ (if tab_hook p then [tab_value (tab_lis p ! n)] else [])"
    "tab_hook (tab_click n p) = tab_hook p"
proof -
  have d: "current_id (tab_lis p) \<noteq> Some (tab_id (tab_lis p ! n))"
    using assms nth_eq_iff_index_eq [of "map tab_id (tab_lis p)" m n] by (simp add: tabs_ok_def current_id_nth [OF assms(1)])
  have v: "tab_value ` set (mark_tab n (unmark_tabs (tab_lis p))) = tab_value ` set (tab_lis p)"
    using marked_tabs(2) [OF assms(2)] by (metis set_map)
  show "tab_lis (tab_click n p) = mark_tab n (unmark_tabs (tab_lis p))"
    "tab_calls (tab_click n p) = tab_calls p @ (if tab_hook p then [tab_value (tab_lis p ! n)] else [])"
    "tab_hook (tab_click n p) = tab_hook p"
    using d by (simp_all add: tab_click_def Let_def)
  show "tab_shown (tab_click n p) x \<longleftrightarrow> (if x \<in> tab_value ` set (tab_lis p) then x = tab_value (tab_lis p ! n) else tab_shown p x)"
    using d assms(2) by (auto simp: tab_click_def Let_def hide_contents_apply v)
qed

lemma tab_click_ok:
  assumes "tabs_ok m p" "n < length (tab_lis p)"
  shows "tabs_ok n (tab_click n p)" "map tab_value (tab_lis (tab_click n p)) = map tab_value (tab_lis p)"
proof -
  have "tabs_ok n (tab_click n p) \<and> map tab_value (tab_lis (tab_click n p)) = map tab_value (tab_lis p)"
  proof (cases "n = m")
    case False
    note c = tab_click_lis [OF assms False] and k = marked_tabs [OF assms(2)]
    have l: "length (tab_lis (tab_click n p)) = length (tab_lis p)" by (simp add: c mark_tab_def unmark_tabs_def)
    have v: "tab_value (tab_lis (tab_click n p) ! i) = tab_value (tab_lis p ! i)" if "i < length (tab_lis p)" for i
      using k(2) that l by (metis c(1) nth_map)
    have "distinct (map tab_id (tab_lis p))" "distinct (map tab_value (tab_lis p))" using assms(1) by (simp_all add: tabs_ok_def)
    moreover have "tab_value (tab_lis p ! i) = tab_value (tab_lis p ! n) \<longleftrightarrow> i = n" if "i < length (tab_lis p)" for i
      using calculation(2) that assms(2) nth_eq_iff_index_eq [of "map tab_value (tab_lis p)" i n] by simp
    ultimately show ?thesis
      unfolding tabs_ok_def using assms(2) k l v by (simp add: c(1,2))
  qed (use assms in \<open>simp add: tab_click_same\<close>)
  then show "tabs_ok n (tab_click n p)" "map tab_value (tab_lis (tab_click n p)) = map tab_value (tab_lis p)" by simp_all
qed

lemma tab_click_hook: "tab_hook (tab_click n p) = tab_hook p"
  by (simp add: tab_click_def Let_def)

text \<open>C37: On a page whose headers have different ids and contents, and where one header is marked and its content
  alone is shown, this holds after any sequence of clicks, for the header that was clicked last; and the page's
  \<open>switchTab\<close> was called once for every change from one header to another, with the content that it showed.\<close>

theorem tabs_settle:
  assumes "tabs_ok m p" "\<forall>n \<in> set ns. n < length (tab_lis p)"
  shows "tabs_ok (List.last (m # ns)) (fold tab_click ns p) \<and>
    tab_calls (fold tab_click ns p) =
      tab_calls p @ (if tab_hook p then map (\<lambda>n. tab_value (tab_lis p ! n)) (tl (remdups_adj (m # ns))) else [])"
  using assms
proof (induction ns arbitrary: m p)
  case (Cons n ns)
  have n: "n < length (tab_lis p)" using Cons.prems(2) by simp
  note k = tab_click_ok [OF Cons.prems(1) n]
  have l: "length (tab_lis (tab_click n p)) = length (tab_lis p)" using k(2) by (metis length_map)
  have "map (\<lambda>i. tab_value (tab_lis (tab_click n p) ! i)) (tl (remdups_adj (n # ns))) = map (\<lambda>i. tab_value (tab_lis p ! i)) (tl (remdups_adj (n # ns)))"
  proof (rule map_cong [OF refl])
    fix i assume "i \<in> set (tl (remdups_adj (n # ns)))"
    then have "i \<in> set (n # ns)" by (metis list.set_sel(2) remdups_adj_set tl_Nil)
    then have "i < length (tab_lis p)" using Cons.prems(2) by auto
    then show "tab_value (tab_lis (tab_click n p) ! i) = tab_value (tab_lis p ! i)" using k(2) l by (metis nth_map)
  qed
  moreover have "\<forall>i \<in> set ns. i < length (tab_lis (tab_click n p))" using Cons.prems(2) l by simp
  note IH = Cons.IH [OF k(1) this]
  have r: "remdups_adj (n # ns) = n # tl (remdups_adj (n # ns))" by (metis list.sel(1,3) list.collapse remdups_adj_Nil_iff hd_remdups_adj list.distinct(1))
  moreover have "tab_calls (tab_click n p) = tab_calls p @ (if tab_hook p \<and> n \<noteq> m then [tab_value (tab_lis p ! n)] else [])"
    using Cons.prems(1) n tab_click_lis(3) [OF Cons.prems(1) n] by (cases "n = m") (simp_all add: tab_click_same)
  moreover have "tl (remdups_adj (m # n # ns)) = (if n = m then [] else [n]) @ tl (remdups_adj (n # ns))"
    using r by (cases "n = m") simp_all
  ultimately show ?case using IH by (simp add: tab_click_hook)
qed simp

theorem tabs_settle_witness:
  "tab_calls (fold tab_click [0, 1, 1, 0]
     \<lparr>tab_lis = [\<lparr>tab_id = ''switch_commonLogin'', tab_value = ''div_commonLogin'', tab_current = True\<rparr>,
                \<lparr>tab_id = ''switch_tfaLogin'', tab_value = ''div_tfaLogin'', tab_current = False\<rparr>],
      tab_shown = (\<lambda>x. x \<noteq> ''div_tfaLogin''), tab_hook = True, tab_calls = []\<rparr>) = [''div_tfaLogin'', ''div_commonLogin'']"
proof -
  define p where "p = \<lparr>tab_lis = [\<lparr>tab_id = ''switch_commonLogin'', tab_value = ''div_commonLogin'', tab_current = True\<rparr>,
                \<lparr>tab_id = ''switch_tfaLogin'', tab_value = ''div_tfaLogin'', tab_current = False\<rparr>],
      tab_shown = (\<lambda>x. x \<noteq> ''div_tfaLogin''), tab_hook = True, tab_calls = []\<rparr>"
  have "tabs_ok 0 p" by (simp add: tabs_ok_def p_def less_Suc_eq)
  from tabs_settle [OF this, of "[0, 1, 1, 0]"] show ?thesis unfolding p_def by simp
qed

end
