(* ===== verification/Spec2Isabelle.thy ===== *)
theory Spec2Isabelle
  imports Bn_Props Crypto_Props Tool_Props Page_Props Page_Tree ZTree_Check_Props Cookie Json_Format Tabs
begin

text \<open>
  The client-side code of MaxKey, a single sign-on server: the scripts that its login portal and
  its administration console run in the browser (static/jquery of maxkey-web-maxkey and of
  maxkey-web-manage under src/main/resources). The scripts for encryption, the password meter and
  the tree widget are the same files in both; platform.common.js differs, and both are modelled.

  THE PARTS AND HOW THEY MEET. The login form encrypts the password with the server's public key:
  rsa.js pads the text with bytes of rng.js, whose generator is Arcfour of prng4.js, and raises the
  block to the exponent with the big integers of jsbn.js; base64.js and jquery.md5.js encode and
  digest. passwordStrength.js rates a password while it is typed and generates one. The pages
  themselves are driven by platform.common.js: its handlers open dialogs, collect the rows that
  are selected in a table, ask, post and show the answer, with a mask over the page while a
  request is in flight. The pages that choose an organisation show them with the tree widget
  (\<open>$.tree\<close> connects it with the page's loading mask),
  jquery.ztree.core.js, which creates, loads, opens, selects and removes nodes; with check boxes
  its extension jquery.ztree.excheck.js wraps the operations of the core. What is chosen in the tree
  reaches the next page in a cookie (jquery.cookie.js); the forms have tabs (switchtab.js), and the
  pages of the histories show the content of an entry with jsonformatter.js.

  THEORIES AND THE CODE.
  Prelude holds JavaScript's bitwise operators on numbers, arrays that grow on assignment and
  counted loops; Ieee the rounding to a double; Js_Text strings and the radix 16 number syntax.
  Bn_Base, Bn_Shift, Bn_Mul, Bn_Sub, Bn_Quot, Bn_Div, Bn_Modexp and Bn_String model
  encrypt/jsbn.js: a \<open>BigInteger\<close> is the record of its digits \<open>bn_d\<close>, their number \<open>bn_t\<close> and the
  sign extension \<open>bn_s\<close>; the engine record is the prototype (am1, am2 or am3 with its digit size).
  An operation that writes into a destination takes its operands as \<open>Self\<close> or \<open>Obj\<close>, so that every
  aliasing the code allows is an input. Prng models encrypt/prng4.js and encrypt/rng.js with the
  sources of entropy as arguments, Rsa encrypt/rsa.js, Base64 encrypt/base64.js, Md5
  encrypt/jquery.md5.js, Password passwordStrength/passwordStrength.js.
  Page is the page that the handlers work on (attributes, values, what the tables have selected,
  stack of modal dialogs, requests in flight, log of effects). A jqGrid hands out the array of its
  selection itself, so these arrays are addressed: the portal's delete handler overwrites one, and the
  question it opens refers to it until it becomes text when the answer is yes. Page_Steps has the events of
  a user and the server as a step relation (\<open>page_step\<close>), the requests and answers of a tree on the
  page among them, its runs with the list of their events (\<open>page_run\<close>), and what every run keeps
  (the locale \<open>page_laws\<close>). Platform models the portal's jquery/platform.common.js, one definition per
  handler; Manage the console's version where it differs.
  ZTree to ZTree_Select and ZTree_Props are zTree-v3.5.40/js/jquery.ztree.core.js. ZTree holds the
  heap of nodes (address 0 is the root object) and the \<open>data\<close> object, ZTree_View the markup and the
  adding of nodes, ZTree_Ops the rest of \<open>view\<close> (opening, adding, loading, selecting, removing),
  ZTree_Tools events, handlers, \<open>init\<close> and the methods of the tree object. Every change of the
  document is an entry of a log; what the code reads of the document is answered by a function of
  that log, an argument of the state, so the theorems hold for every browser.

  ZTree_Check is zTree-v3.5.40/js/jquery.ztree.excheck.js: \<open>ctree\<close> puts the fields of the boxes (one
  \<open>cnode\<close> per object) and the list of checked radio buttons beside the tree of the core, and a
  wrapped operation runs the one of the core, then the steps of the extension.

  Page_Tree is \<open>$.tree\<close> of platform.common.js: the settings it gives the widget, and the callbacks
  through which the widget works on the page, run for the entries that an operation adds to the log;
  each is an event of the page (\<open>jq_tree_step\<close>, \<open>page_call_steps\<close>). It is the core widget that is set up
  so; where a page asks for check boxes, which one of the console does, the extension's steps come on top.
  \<open>singlePath\<close> and \<open>beforeExpand\<close>, which keep one path of the tree open, are there too, though the
  setting that would call them is commented out.

  Cookie is jquery.cookie.js, over strings of code units, with JavaScript's encodeURIComponent and
  decodeURIComponent. Json_Format is \<open>FormatJSON\<close> of jsonformatter.js, with JSON.stringify as the text
  to compare it with. Tabs is the handler of switchtab/switchtab.js.

  ERRORS, LOOPS AND FUEL. A TypeError, a throw or an early return is \<open>None\<close> or a branch of a sum.
  Loops whose end is not obvious are \<open>partial_function (option)\<close> (division, exponentiation, invDigit,
  the filling of the pool); that they return is part of the theorems. The recursions of the widget
  over the objects of the heap carry fuel, which the code's entry points set to the number of
  allocated objects plus one. On a tree that is enough: the levels of a branch are different
  objects, so the height of a tree is less than that number (\<open>height_next\<close>, \<open>fits\<close>), and every
  theorem about an operation states that it returns. On objects that form a cycle the code does
  not return either.

  WHAT THE LEMMAS SHOW. Bn_Props: every arithmetic operation is exact on the value of its
  operands, under every engine and aliasing, and terminates; the contract of the multiply-accumulate
  loops is the locale \<open>digit_engine\<close>, that of the reducers \<open>reducer_laws\<close>, that of rounding
  \<open>fp_rounding\<close>, each interpreted on the model. Crypto_Props: padding, encryption, generator,
  Base64. Tool_Props: MD5 and HMAC agree with the definitions of RFC 1321 and RFC 2104, the meter
  and the generated passwords. Page_Props: what every run of a page satisfies - a deletion is sent
  only after its question is confirmed, for the rows that were selected at the press that put it
  (\<open>portal_selection\<close>, \<open>console_selection\<close>); a mask implies that an answer is awaited, unless
  \<open>beforeSubmit\<close> refused or a request of a tree failed, which C34 and C13 show to leave it up.
  The widget: ZTree_Shape has rose trees, the order of the page and the locale \<open>preorder_search\<close>,
  interpreted for each of the five searches. ZTree_Same says what drawing leaves alone, ZTree_Inv
  has the invariant \<open>tree_ok\<close> (no sharing, parents, levels, first and last flags, cache, selection),
  ZTree_Keep shows that opening and closing keep it. ZTree_Init, ZTree_Graft and ZTree_Add show
  that adding refines grafting of trees, ZTree_View_Spec that the new nodes show the user's data,
  ZTree_Remove that removing refines pruning, ZTree_Rows that flat rows become the forest of their
  parent ids, ZTree_Select how the selection changes. ZTree_Props puts these together.
  The check boxes: ZTree_Boxes has the frame \<open>touches\<close> (what the steps leave alone), the invariant
  \<open>settled_tree\<close> (making the flag of no box would change it) and what the recursions down and up do;
  ZTree_Click shows that a click keeps it in check-box style, for trees without hidden, disabled or
  half-checked boxes, ZTree_Radio in radio style; ZTree_Leaves that the boxes of such a tree are a
  function of the set of checked leaves; ZTree_Collect interprets \<open>preorder_search\<close> for the two
  searches by box and checks all boxes of any tree. ZTree_Check_Props puts these together. The fuel
  of the recursions is \<open>depth_bound\<close>, the number of allocated objects plus one as above.
  Page_Tree shows that every operation only adds to the log, and what the first request and its
  answer do to the tree and the page together.
  Cookie: decoding inverts encoding on all code points, and what is written is read from any list
  of cookies. Json_Format: only white space is added to the standard text. Tabs: one header is
  marked and its content shown, through any clicks.

  NOT MODELLED. The lists of hooks by which extensions of zTree add steps to the widget (the steps
  of the check boxes are composed with the core's directly), the walk from an event's target to its
  element, scrolling, and the promise that newer jQuery versions put around a user's callback. Of
  the check boxes, the flags that are made again when opening a closed branch draws it for the first
  time, and the place of a box's markup among the markup of its node. Numbers in a node's data:
  fields are strings or absent, ids are compared as the code compares property names, and no key of
  the data is the name of one of the widget's own fields. The json mode
  of the cookies, which no page turns on, and the text of their dates; the functions of
  jsonformatter.js around \<open>FormatJSON\<close>, which nothing calls, and json2form, which no page turns on. Third-party libraries that the pages only call (jQuery,
  Bootstrap, its table, the dialogs, blockUI, form plugins): their documented behaviour is what
  Page assumes or an argument. The server, written in Java: its answers are arguments.
\<close>

end
